(* ===== verification/Prelude.thy ===== *)
theory Prelude
  imports Main "HOL-Library.Word" "HOL-Library.Multiset"
begin

text \<open>
  The shared vocabulary of the development: Rust's machine-word arithmetic on \<open>usize\<close>
  (checked, saturating and wrapping forms), the page geometry of the kernel, and the ordered
  map \<open>BTreeMap\<close> as a key-sorted association list with the operations the kernel calls on it
  (\<open>get\<close>, \<open>insert\<close>, \<open>remove\<close>, \<open>range(..=k).next_back()\<close>, \<open>range(..k).next_back()\<close>).
  A value of type \<open>usize\<close> is a \<^typ>\<open>nat\<close> below \<open>2 ^ 64\<close>; the bound is written into
  every operation that can reach it. A panic of the source (an \<open>unwrap\<close>, an \<open>unreachable!\<close>,
  an out-of-range index, a failed assertion) is the outer \<^const>\<open>None\<close> of a result.
\<close>

named_theorems usize_simps "checked, saturating and wrapping arithmetic"
named_theorems btree_simps "ordered maps"

section \<open>Machine arithmetic\<close>

type_synonym usize = nat

definition usize_max :: usize where
  "usize_max = 2 ^ 64 - 1"

definition saturating_add :: "usize \<Rightarrow> usize \<Rightarrow> usize" where
  "saturating_add a b = min (a + b) usize_max"

definition saturating_mul :: "usize \<Rightarrow> usize \<Rightarrow> usize" where
  "saturating_mul a b = min (a * b) usize_max"

definition checked_add :: "usize \<Rightarrow> usize \<Rightarrow> usize option" where
  "checked_add a b = (if a + b \<le> usize_max then Some (a + b) else None)"

definition checked_sub :: "usize \<Rightarrow> usize \<Rightarrow> usize option" where
  "checked_sub a b = (if b \<le> a then Some (a - b) else None)"

definition wrapping_add :: "usize \<Rightarrow> usize \<Rightarrow> usize" where
  "wrapping_add a b = (a + b) mod 2 ^ 64"

definition wrapping_sub :: "usize \<Rightarrow> usize \<Rightarrow> usize" where
  "wrapping_sub a b = (a + (2 ^ 64 - b mod 2 ^ 64)) mod 2 ^ 64"

lemma wrapping_sub_eq [usize_simps]: "b \<le> a \<Longrightarrow> a \<le> usize_max \<Longrightarrow> wrapping_sub a b = a - b"
proof -
  assume ba: "b \<le> a" and a: "a \<le> usize_max"
  have "b < 2 ^ 64" using ba a by (simp add: usize_max_def)
  then have "a + (2 ^ 64 - b mod 2 ^ 64) = (a - b) + 2 ^ 64" using ba by simp
  then show "wrapping_sub a b = a - b" using a by (simp add: wrapping_sub_def usize_max_def)
qed

lemma saturating_add_eq [usize_simps]: "a + b \<le> usize_max \<Longrightarrow> saturating_add a b = a + b"
  by (simp add: saturating_add_def)

lemma saturating_add_ge [usize_simps]: "a \<le> usize_max \<Longrightarrow> a \<le> saturating_add a b"
  by (simp add: saturating_add_def)

lemma saturating_add_le [usize_simps]: "saturating_add a b \<le> usize_max"
  by (simp add: saturating_add_def)

lemma wrapping_add_eq [usize_simps]: "a + b \<le> usize_max \<Longrightarrow> wrapping_add a b = a + b"
  by (simp add: wrapping_add_def usize_max_def)

lemma checked_add_Some [usize_simps]:
  "checked_add a b = Some c \<longleftrightarrow> c = a + b \<and> a + b \<le> usize_max"
  by (auto simp: checked_add_def)

lemma checked_add_None [usize_simps]: "checked_add a b = None \<longleftrightarrow> usize_max < a + b"
  by (auto simp: checked_add_def)

lemma checked_sub_Some [usize_simps]: "checked_sub a b = Some c \<longleftrightarrow> b \<le> a \<and> c = a - b"
  by (auto simp: checked_sub_def)

section \<open>Pages\<close>

definition PAGE_SIZE :: usize where
  "PAGE_SIZE = 4096"

lemma PAGE_SIZE_pos [simp]: "0 < PAGE_SIZE" "PAGE_SIZE \<noteq> 0"
  by (simp_all add: PAGE_SIZE_def)

lemma page_div_mult: "a mod PAGE_SIZE = 0 \<Longrightarrow> a div PAGE_SIZE * PAGE_SIZE = (a :: nat)"
  by (metis add.right_neutral div_mult_mod_eq)

section \<open>Option and list helpers\<close>

lemma find_SomeD: "find P xs = Some x \<Longrightarrow> x \<in> set xs \<and> P x"
  by (auto simp: find_Some_iff)

lemma last_filter_mem: "filter P xs \<noteq> [] \<Longrightarrow> last (filter P xs) \<in> set xs \<and> P (last (filter P xs))"
  using last_in_set by fastforce

lemma sorted_wrt_last_ge:
  "sorted_wrt (<) (map f xs) \<Longrightarrow> x \<in> set xs \<Longrightarrow> f x \<le> (f (last xs) :: 'k :: linorder)"
proof (induction xs)
  case (Cons a xs)
  show ?case
  proof (cases "xs = []")
    case False
    then have "f a < f (last xs)" using Cons.prems(1) last_in_set by auto
    then show ?thesis using Cons False by (cases "x = a") (simp_all add: less_imp_le)
  qed (use Cons.prems in simp)
qed simp

lemma sorted_wrt_map_filter:
  "sorted_wrt (<) (map (f :: 'a \<Rightarrow> 'k :: linorder) xs) \<Longrightarrow> sorted_wrt (<) (map f (filter P xs))"
  by (induction xs) auto

section \<open>Ordered maps\<close>

text \<open>Keys may be of any linear order; most maps of the kernel are keyed by \<open>usize\<close>.\<close>

type_synonym 'v btree = "(usize \<times> 'v) list"

definition bt_sorted :: "('k :: linorder \<times> 'v) list \<Rightarrow> bool" where
  "bt_sorted m \<longleftrightarrow> sorted_wrt (<) (map fst m)"

fun bt_get :: "'k :: linorder \<Rightarrow> ('k \<times> 'v) list \<Rightarrow> 'v option" where
  "bt_get k [] = None"
| "bt_get k ((a, v) # m) = (if a = k then Some v else bt_get k m)"

fun bt_insert :: "'k :: linorder \<Rightarrow> 'v \<Rightarrow> ('k \<times> 'v) list \<Rightarrow> ('k \<times> 'v) list" where
  "bt_insert k v [] = [(k, v)]"
| "bt_insert k v ((a, w) # m) =
     (if k < a then (k, v) # (a, w) # m
      else if k = a then (k, v) # m
      else (a, w) # bt_insert k v m)"

fun bt_remove :: "'k :: linorder \<Rightarrow> ('k \<times> 'v) list \<Rightarrow> ('k \<times> 'v) list" where
  "bt_remove k [] = []"
| "bt_remove k ((a, v) # m) = (if a = k then m else (a, v) # bt_remove k m)"

text \<open>\<open>range(..=k).next_back()\<close> and \<open>range(..k).next_back()\<close>.\<close>

definition bt_last_le :: "usize \<Rightarrow> 'v btree \<Rightarrow> (usize \<times> 'v) option" where
  "bt_last_le k m = (case filter (\<lambda>(a, _). a \<le> k) m of [] \<Rightarrow> None | x # xs \<Rightarrow> Some (last (x # xs)))"

definition bt_last_lt :: "usize \<Rightarrow> 'v btree \<Rightarrow> (usize \<times> 'v) option" where
  "bt_last_lt k m = (case filter (\<lambda>(a, _). a < k) m of [] \<Rightarrow> None | x # xs \<Rightarrow> Some (last (x # xs)))"

definition bt_last :: "'v btree \<Rightarrow> (usize \<times> 'v) option" where
  "bt_last m = (case m of [] \<Rightarrow> None | x # xs \<Rightarrow> Some (last (x # xs)))"

lemma bt_sorted_Nil [simp]: "bt_sorted []"
  by (simp add: bt_sorted_def)

lemma bt_sorted_Cons [simp]:
  "bt_sorted ((a, v) # m) \<longleftrightarrow> (\<forall>x \<in> set m. a < fst x) \<and> bt_sorted m"
  by (auto simp: bt_sorted_def)

lemma bt_sorted_distinct: "bt_sorted m \<Longrightarrow> distinct (map fst m)"
  by (simp add: bt_sorted_def strict_sorted_iff)

lemma bt_sorted_inj: "bt_sorted m \<Longrightarrow> (a, v) \<in> set m \<Longrightarrow> (a, w) \<in> set m \<Longrightarrow> v = w"
  by (meson bt_sorted_distinct eq_key_imp_eq_value)

lemma set_bt_insert [btree_simps]:
  "bt_sorted m \<Longrightarrow> set (bt_insert k v m) = insert (k, v) {x \<in> set m. fst x \<noteq> k}"
  by (induction k v m rule: bt_insert.induct) auto

lemma set_bt_remove [btree_simps]:
  "bt_sorted m \<Longrightarrow> set (bt_remove k m) = {x \<in> set m. fst x \<noteq> k}"
  by (induction k m rule: bt_remove.induct) auto

lemma bt_sorted_insert [btree_simps, intro]: "bt_sorted m \<Longrightarrow> bt_sorted (bt_insert k v m)"
  by (induction k v m rule: bt_insert.induct) (auto simp: set_bt_insert)

lemma bt_sorted_remove [btree_simps, intro]: "bt_sorted m \<Longrightarrow> bt_sorted (bt_remove k m)"
  by (induction k m rule: bt_remove.induct) (auto simp: set_bt_remove)

lemma bt_get_iff [btree_simps]: "bt_sorted m \<Longrightarrow> bt_get k m = Some v \<longleftrightarrow> (k, v) \<in> set m"
  by (induction k m rule: bt_get.induct) auto

lemma bt_get_None [btree_simps]: "bt_get k m = None \<longleftrightarrow> k \<notin> fst ` set m"
  by (induction k m rule: bt_get.induct) auto

lemma bt_remove_insert:
  "bt_sorted m \<Longrightarrow> k \<notin> fst ` set m \<Longrightarrow> bt_remove k (bt_insert k v m) = m"
  by (induction k v m rule: bt_insert.induct) auto

lemma bt_remove_absent: "k \<notin> fst ` set m \<Longrightarrow> bt_remove k m = m"
  by (induction k m rule: bt_remove.induct) auto

lemma bt_get_insert: "bt_get j (bt_insert k v m) = (if j = k then Some v else bt_get j m)"
  by (induction k v m rule: bt_insert.induct) auto

lemma bt_last_filter:
  fixes m :: "'v btree"
  assumes "bt_sorted m"
  shows "(case filter P m of [] \<Rightarrow> None | x # xs \<Rightarrow> Some (last (x # xs))) = Some (a, v) \<longleftrightarrow>
     (a, v) \<in> set m \<and> P (a, v) \<and> (\<forall>x \<in> set m. P x \<longrightarrow> fst x \<le> a)"
    (is "?lhs = Some (a, v) \<longleftrightarrow> ?rhs")
proof (cases "filter P m")
  case Nil
  then show ?thesis by (auto simp: filter_empty_conv)
next
  case (Cons x xs)
  let ?l = "last (filter P m)"
  have srt: "sorted_wrt (<) (map fst (filter P m))"
    using assms by (auto simp: bt_sorted_def intro: sorted_wrt_map_filter)
  have mem: "?l \<in> set m \<and> P ?l" using Cons last_filter_mem by (metis list.distinct(1))
  have top: "\<forall>x \<in> set m. P x \<longrightarrow> fst x \<le> fst ?l"
    using sorted_wrt_last_ge [OF srt] by (auto simp del: filter.simps)
  have lhs: "?lhs = Some ?l" using Cons by simp
  show ?thesis
  proof
    assume "?lhs = Some (a, v)"
    with lhs have "?l = (a, v)" by simp
    with mem top show ?rhs by auto
  next
    assume r: ?rhs
    then have "fst ?l = a" using mem top by (metis fst_conv le_antisym)
    then have "?l = (a, v)" using r mem bt_sorted_inj [OF assms] by (cases ?l) auto
    then show "?lhs = Some (a, v)" using lhs by simp
  qed
qed

lemma bt_last_le_iff [btree_simps]:
  "bt_sorted m \<Longrightarrow> bt_last_le k m = Some (a, v) \<longleftrightarrow>
     (a, v) \<in> set m \<and> a \<le> k \<and> (\<forall>x \<in> set m. fst x \<le> k \<longrightarrow> fst x \<le> a)"
  unfolding bt_last_le_def by (subst bt_last_filter) (auto split: prod.splits)

lemma bt_last_lt_iff [btree_simps]:
  "bt_sorted m \<Longrightarrow> bt_last_lt k m = Some (a, v) \<longleftrightarrow>
     (a, v) \<in> set m \<and> a < k \<and> (\<forall>x \<in> set m. fst x < k \<longrightarrow> fst x \<le> a)"
  unfolding bt_last_lt_def by (subst bt_last_filter) (auto split: prod.splits)

lemma bt_last_le_None [btree_simps]: "bt_last_le k m = None \<longleftrightarrow> (\<forall>x \<in> set m. k < fst x)"
proof -
  have "bt_last_le k m = None \<longleftrightarrow> filter (\<lambda>(a, _). a \<le> k) m = []"
    by (simp add: bt_last_le_def split: list.splits)
  then show ?thesis by (auto simp: filter_empty_conv)
qed

lemma bt_last_lt_None [btree_simps]: "bt_last_lt k m = None \<longleftrightarrow> (\<forall>x \<in> set m. k \<le> fst x)"
proof -
  have "bt_last_lt k m = None \<longleftrightarrow> filter (\<lambda>(a, _). a < k) m = []"
    by (simp add: bt_last_lt_def split: list.splits)
  then show ?thesis by (auto simp: filter_empty_conv)
qed

lemma bt_last_Some [btree_simps]:
  "bt_sorted m \<Longrightarrow> bt_last m = Some (a, v) \<Longrightarrow> (a, v) \<in> set m \<and> (\<forall>x \<in> set m. fst x \<le> a)"
  using bt_last_filter [of m "\<lambda>_. True" a v] by (simp add: bt_last_def)

lemma bt_last_None [btree_simps]: "bt_last m = None \<longleftrightarrow> m = []"
  by (simp add: bt_last_def split: list.splits)

end
