(* ===== verification/Kernel_Types.thy ===== *)
theory Kernel_Types
  imports Prelude
begin

text \<open>
  Types shared by the components: the error numbers of \<open>os/src/utils/error.rs\<close> with their
  system-call encoding, and the open-file objects of \<open>os/src/fs/fd.rs\<close>. An
  \<open>Arc<Mutex<T>>\<close> is the address of its allocation; two handles alias exactly when their
  addresses are equal (\<open>Arc::ptr_eq\<close>).
\<close>

section \<open>Error numbers\<close>

datatype SysErrNo =
    EPERM | ENOENT | ESRCH | EINTR | EIO | ENXIO | E2BIG | ENOEXEC
  | EBADF | ECHILD | EAGAIN | ENOMEM | EACCES | EFAULT | ENOTBLK | EBUSY
  | EEXIST | EXDEV | ENODEV | ENOTDIR | EISDIR | EINVAL | ENFILE | EMFILE
  | ENOTTY | ETXTBSY | EFBIG | ENOSPC | ESPIPE | EROFS | EMLINK | EPIPE
  | EDOM | ERANGE | EDEADLK | ENAMETOOLONG | ENOTEMPTY | ELOOP | ECANCELED | ENODATA
  | ENOTSOCK | EDESTADDRREQ | EMSGSIZE | ENOPROTOOPT | EPROTONOSUPPORT | EOPNOTSUPP | EAFNOSUPPORT | EADDRINUSE
  | EADDRNOTAVAIL | EISCONN | ENOTCONN | ETIMEDOUT | ECONNREFUSED | EALREADY | EINPROGRESS | ERESTARTSYS
  | ENOSYS

primrec errno_code :: "SysErrNo \<Rightarrow> nat" where
  "errno_code EPERM = 1"
  | "errno_code ENOENT = 2"
  | "errno_code ESRCH = 3"
  | "errno_code EINTR = 4"
  | "errno_code EIO = 5"
  | "errno_code ENXIO = 6"
  | "errno_code E2BIG = 7"
  | "errno_code ENOEXEC = 8"
  | "errno_code EBADF = 9"
  | "errno_code ECHILD = 10"
  | "errno_code EAGAIN = 11"
  | "errno_code ENOMEM = 12"
  | "errno_code EACCES = 13"
  | "errno_code EFAULT = 14"
  | "errno_code ENOTBLK = 15"
  | "errno_code EBUSY = 16"
  | "errno_code EEXIST = 17"
  | "errno_code EXDEV = 18"
  | "errno_code ENODEV = 19"
  | "errno_code ENOTDIR = 20"
  | "errno_code EISDIR = 21"
  | "errno_code EINVAL = 22"
  | "errno_code ENFILE = 23"
  | "errno_code EMFILE = 24"
  | "errno_code ENOTTY = 25"
  | "errno_code ETXTBSY = 26"
  | "errno_code EFBIG = 27"
  | "errno_code ENOSPC = 28"
  | "errno_code ESPIPE = 29"
  | "errno_code EROFS = 30"
  | "errno_code EMLINK = 31"
  | "errno_code EPIPE = 32"
  | "errno_code EDOM = 33"
  | "errno_code ERANGE = 34"
  | "errno_code EDEADLK = 35"
  | "errno_code ENAMETOOLONG = 36"
  | "errno_code ENOTEMPTY = 39"
  | "errno_code ELOOP = 40"
  | "errno_code ECANCELED = 47"
  | "errno_code ENODATA = 61"
  | "errno_code ENOTSOCK = 88"
  | "errno_code EDESTADDRREQ = 89"
  | "errno_code EMSGSIZE = 90"
  | "errno_code ENOPROTOOPT = 92"
  | "errno_code EPROTONOSUPPORT = 93"
  | "errno_code EOPNOTSUPP = 95"
  | "errno_code EAFNOSUPPORT = 97"
  | "errno_code EADDRINUSE = 98"
  | "errno_code EADDRNOTAVAIL = 99"
  | "errno_code EISCONN = 106"
  | "errno_code ENOTCONN = 107"
  | "errno_code ETIMEDOUT = 110"
  | "errno_code ECONNREFUSED = 111"
  | "errno_code EALREADY = 114"
  | "errno_code EINPROGRESS = 115"
  | "errno_code ERESTARTSYS = 512"
  | "errno_code ENOSYS = 38"

text \<open>\<open>-(*self as i32) as usize\<close>: negate at 32 bits, then sign-extend to 64.\<close>

definition as_ret :: "SysErrNo \<Rightarrow> 64 word" where
  "as_ret e = scast (- (of_nat (errno_code e) :: 32 word))"

section \<open>Open files\<close>

type_synonym addr = nat

datatype VfsNodeKind = Regular | Directory | Symlink | Other

record DirEntryRecord =
  de_name :: string
  de_is_dir :: bool

record MemNodeMetadata =
  mn_mode :: nat
  mn_uid :: nat
  mn_gid :: nat
  mn_ino :: nat
  mn_flags :: nat

record mem_file_fd =
  mf_name :: string
  mf_backing :: addr
  mf_offset :: usize
  mf_ofd_owner :: addr
  mf_readable :: bool
  mf_writable :: bool
  mf_append :: bool
  mf_linked :: bool
  mf_node :: "MemNodeMetadata option"

record ext4_regular_fd =
  er_ino :: nat
  er_offset :: usize
  er_ofd_owner :: addr
  er_readable :: bool
  er_writable :: bool
  er_append :: bool

datatype FileDescriptor =
    Stdin | Stdout | Stderr
  | MemFile mem_file_fd
  | MemDir (md_path: string) (md_host_path: string) (md_entries: "DirEntryRecord list") (md_offset: usize)
  | Ext4Regular ext4_regular_fd
  | Ext4Dir (ed_path: string) (ed_ino: nat) (ed_offset: usize)
  | PathFd (pf_logical_path: string) (pf_host_path: string) (pf_kind: VfsNodeKind) (pf_flags: nat)
  | LoopControl
  | LoopDevice (ld_index: usize) (ld_offset: usize) (ld_readable: bool) (ld_writable: bool)
  | PipeRead (pr_state: addr) (pr_nonblock: bool)
  | PipeWrite (pw_state: addr) (pw_nonblock: bool)
  | SocketFd (sk_state: addr)
  | EventFd (ev_state: addr)
  | Epoll (ep_state: addr)

definition same_file_identity :: "FileDescriptor \<Rightarrow> FileDescriptor \<Rightarrow> bool" where
  "same_file_identity l r =
     (case (l, r) of
        (MemFile a, MemFile b) \<Rightarrow> mf_backing a = mf_backing b
      | (Ext4Regular a, Ext4Regular b) \<Rightarrow> er_ino a = er_ino b
      | (PathFd _ a _ _, PathFd _ b _ _) \<Rightarrow> a = b
      | _ \<Rightarrow> False)"

lemma same_file_identity_sym: "same_file_identity a b = same_file_identity b a"
  by (auto simp: same_file_identity_def split: FileDescriptor.splits)

lemma same_file_identity_trans:
  "same_file_identity a b \<Longrightarrow> same_file_identity b c \<Longrightarrow> same_file_identity a c"
  by (auto simp: same_file_identity_def split: FileDescriptor.splits)

text \<open>The descriptors that denote a file: the others are never identical to anything.\<close>

definition fd_names_file :: "FileDescriptor \<Rightarrow> bool" where
  "fd_names_file f = (case f of MemFile _ \<Rightarrow> True | Ext4Regular _ \<Rightarrow> True | PathFd _ _ _ _ \<Rightarrow> True | _ \<Rightarrow> False)"

lemma same_file_identity_refl: "same_file_identity a a = fd_names_file a"
  by (simp add: same_file_identity_def fd_names_file_def split: FileDescriptor.split)

section \<open>The system-call return value of an error\<close>

text \<open>An error is returned as the two's complement of its number: reading the 64-bit register
  as a signed integer gives the negated number, so distinct errors stay distinct.\<close>

lemma errno_code_bounds: "0 < errno_code e \<and> errno_code e < 4096"
  by (cases e) simp_all

lemma as_ret_sint: "sint (as_ret e) = - int (errno_code e)"
  by (cases e) (simp_all add: as_ret_def)

definition all_errnos :: "SysErrNo list" where
  "all_errnos = [
    EPERM, ENOENT, ESRCH, EINTR, EIO, ENXIO, E2BIG, ENOEXEC,
    EBADF, ECHILD, EAGAIN, ENOMEM, EACCES, EFAULT, ENOTBLK, EBUSY,
    EEXIST, EXDEV, ENODEV, ENOTDIR, EISDIR, EINVAL, ENFILE, EMFILE,
    ENOTTY, ETXTBSY, EFBIG, ENOSPC, ESPIPE, EROFS, EMLINK, EPIPE,
    EDOM, ERANGE, EDEADLK, ENAMETOOLONG, ENOTEMPTY, ELOOP, ECANCELED, ENODATA,
    ENOTSOCK, EDESTADDRREQ, EMSGSIZE, ENOPROTOOPT, EPROTONOSUPPORT, EOPNOTSUPP, EAFNOSUPPORT, EADDRINUSE,
    EADDRNOTAVAIL, EISCONN, ENOTCONN, ETIMEDOUT, ECONNREFUSED, EALREADY, EINPROGRESS, ERESTARTSYS,
    ENOSYS]"

lemma all_errnos_complete: "e \<in> set all_errnos"
  by (cases e) (simp_all add: all_errnos_def)

lemma errno_code_inj: "errno_code a = errno_code b \<longleftrightarrow> a = b"
proof -
  have "distinct (map errno_code all_errnos)" by (simp add: all_errnos_def)
  then have "inj_on errno_code (set all_errnos)" by (simp add: distinct_map)
  then show ?thesis using all_errnos_complete by (meson inj_onD)
qed

end
