(* ===== verification/Resident.thy ===== *)
theory Resident
  imports Prelude
begin

text \<open>
  The resident-page store of one virtual memory area: \<open>ResidentPage\<close>, \<open>ResidentRun\<close> and
  \<open>ResidentSet\<close> of \<open>os/src/mm/map_area.rs\<close>. A set keeps maximal runs of contiguous
  resident pages in a \<open>BTreeMap\<close> keyed by the first page number of the run. The theory shows
  that every operation refines the plain partial map from page numbers to pages, that the run
  structure stays canonical (sorted, non-empty, separated by gaps, counted), and that none of
  the \<open>unreachable!\<close> branches is reached from a canonical set. A \<open>FrameTracker\<close> moved into or
  out of a set is its physical page number.
\<close>

section \<open>Data\<close>

datatype PageState = Private | Cow | Shared | FileClean | FileDirty

type_synonym FrameTracker = usize

record ResidentPage =
  rp_frame :: FrameTracker
  rp_state :: PageState

type_synonym ResidentRun = "ResidentPage list"

record ResidentSet =
  rs_runs :: "ResidentRun btree"
  rs_count :: usize

definition page_new :: "FrameTracker \<Rightarrow> ResidentPage" where
  "page_new f = \<lparr>rp_frame = f, rp_state = Private\<rparr>"

definition page_with_state :: "FrameTracker \<Rightarrow> PageState \<Rightarrow> ResidentPage" where
  "page_with_state f st = \<lparr>rp_frame = f, rp_state = st\<rparr>"

definition rs_new :: ResidentSet where
  "rs_new = \<lparr>rs_runs = [], rs_count = 0\<rparr>"

definition rs_is_empty :: "ResidentSet \<Rightarrow> bool" where
  "rs_is_empty rs \<longleftrightarrow> rs_count rs = 0"

definition rs_len :: "ResidentSet \<Rightarrow> usize" where
  "rs_len rs = rs_count rs"

section \<open>Operations\<close>

definition runs_lookup :: "ResidentRun btree \<Rightarrow> usize \<Rightarrow> ResidentPage option" where
  "runs_lookup m vpn =
     (case bt_last_le vpn m of
        None \<Rightarrow> None
      | Some (start, run) \<Rightarrow>
          (case checked_sub vpn start of
             None \<Rightarrow> None
           | Some offset \<Rightarrow> if offset < length run then Some (run ! offset) else None))"

definition rs_lookup :: "ResidentSet \<Rightarrow> usize \<Rightarrow> ResidentPage option" where
  "rs_lookup rs vpn = runs_lookup (rs_runs rs) vpn"

text \<open>\<open>lookup_mut\<close> followed by an assignment through the returned reference: the page at
  \<open>vpn\<close> is replaced by \<open>f\<close> of it; \<^const>\<open>None\<close> when the page is absent.\<close>

definition rs_lookup_mut :: "ResidentSet \<Rightarrow> usize \<Rightarrow> (ResidentPage \<Rightarrow> ResidentPage) \<Rightarrow> ResidentSet option" where
  "rs_lookup_mut rs vpn f =
     (case bt_last_le vpn (rs_runs rs) of
        None \<Rightarrow> None
      | Some (start, run) \<Rightarrow>
          (case checked_sub vpn start of
             None \<Rightarrow> None
           | Some offset \<Rightarrow>
               if offset < length run
               then Some (rs\<lparr>rs_runs := bt_insert start (run[offset := f (run ! offset)]) (rs_runs rs)\<rparr>)
               else None))"

definition rs_iter :: "ResidentSet \<Rightarrow> ResidentPage list" where
  "rs_iter rs = concat (map snd (rs_runs rs))"

text \<open>\<open>iter_mut\<close> followed by one assignment per page.\<close>

definition rs_iter_mut :: "ResidentSet \<Rightarrow> (ResidentPage \<Rightarrow> ResidentPage) \<Rightarrow> ResidentSet" where
  "rs_iter_mut rs f = rs\<lparr>rs_runs := map (\<lambda>(s, run). (s, map f run)) (rs_runs rs)\<rparr>"

text \<open>Whether one of the \<open>n\<close> pages from \<open>start\<close> on is already resident.\<close>

definition runs_collide :: "ResidentRun btree \<Rightarrow> usize \<Rightarrow> usize \<Rightarrow> bool" where
  "runs_collide m start n \<longleftrightarrow> (\<exists>offset \<in> set [0..<n]. runs_lookup m (saturating_add start offset) \<noteq> None)"

text \<open>The two merges of \<open>coalesce_adjacent\<close>: with the run that ends where the new one starts,
  then with the run that starts where the result ends.\<close>

definition coalesce_left ::
  "ResidentRun btree \<Rightarrow> usize \<Rightarrow> ResidentRun \<Rightarrow> usize \<times> ResidentRun \<times> ResidentRun btree" where
  "coalesce_left m start_vpn run =
     (case bt_last_lt start_vpn m of
        Some (left_start, left) \<Rightarrow>
          if saturating_add left_start (length left) = start_vpn
          then (left_start, left @ run, bt_remove left_start m)
          else (start_vpn, run, m)
      | None \<Rightarrow> (start_vpn, run, m))"

definition coalesce_right ::
  "ResidentRun btree \<Rightarrow> usize \<Rightarrow> ResidentRun \<Rightarrow> ResidentRun \<times> ResidentRun btree" where
  "coalesce_right m key run =
     (let right_start = saturating_add key (length run)
      in case bt_get right_start m of
           Some right \<Rightarrow> (run @ right, bt_remove right_start m)
         | None \<Rightarrow> (run, m))"

definition coalesce_adjacent :: "ResidentRun btree \<Rightarrow> usize \<Rightarrow> ResidentRun btree" where
  "coalesce_adjacent m start_vpn =
     (case bt_get start_vpn m of
        None \<Rightarrow> m
      | Some run0 \<Rightarrow>
          (case coalesce_left (bt_remove start_vpn m) start_vpn run0 of (key, run1, m1) \<Rightarrow>
             case coalesce_right m1 key run1 of (run2, m2) \<Rightarrow> bt_insert key run2 m2))"

text \<open>\<^const>\<open>Inl\<close> hands the pages back and leaves the set as it was.\<close>

definition insert_run_pages ::
  "ResidentSet \<Rightarrow> usize \<Rightarrow> ResidentPage list \<Rightarrow> ResidentPage list + ResidentSet" where
  "insert_run_pages rs start_vpn pages =
     (if pages = [] \<or> runs_collide (rs_runs rs) start_vpn (length pages) then Inl pages
      else Inr \<lparr>rs_runs = coalesce_adjacent (bt_insert start_vpn pages (rs_runs rs)) start_vpn,
                rs_count = saturating_add (rs_count rs) (length pages)\<rparr>)"

text \<open>\<open>insert_page\<close>: the \<open>pages.pop().unwrap()\<close> of the error branch returns the one page.\<close>

definition insert_page :: "ResidentSet \<Rightarrow> ResidentPage \<Rightarrow> usize \<Rightarrow> ResidentPage + ResidentSet" where
  "insert_page rs page vpn =
     (case insert_run_pages rs vpn [page] of Inr rs' \<Rightarrow> Inr rs' | Inl pages \<Rightarrow> Inl (last pages))"

text \<open>The outer \<^const>\<open>None\<close> is the \<open>unreachable!\<close> panic.\<close>

definition rs_insert :: "ResidentSet \<Rightarrow> usize \<Rightarrow> FrameTracker \<Rightarrow> (FrameTracker + ResidentSet) option" where
  "rs_insert rs vpn page =
     (if rs_lookup rs vpn \<noteq> None then Some (Inl page)
      else (case insert_page rs (page_new page) vpn of
              Inl _ \<Rightarrow> None
            | Inr rs' \<Rightarrow> Some (Inr rs')))"

definition insert_page_with_state :: "ResidentSet \<Rightarrow> usize \<Rightarrow> ResidentPage \<Rightarrow> FrameTracker + ResidentSet" where
  "insert_page_with_state rs vpn page =
     (case insert_page rs page vpn of Inr rs' \<Rightarrow> Inr rs' | Inl p \<Rightarrow> Inl (rp_frame p))"

definition rs_insert_run ::
  "ResidentSet \<Rightarrow> usize \<Rightarrow> FrameTracker list \<Rightarrow> (FrameTracker list + ResidentSet) option" where
  "rs_insert_run rs start_vpn pages =
     (if runs_collide (rs_runs rs) start_vpn (length pages) then Some (Inl pages)
      else (case insert_run_pages rs start_vpn (map page_new pages) of
              Inl _ \<Rightarrow> None
            | Inr rs' \<Rightarrow> Some (Inr rs')))"

definition insert_run_with_state ::
  "ResidentSet \<Rightarrow> usize \<Rightarrow> FrameTracker list \<Rightarrow> PageState \<Rightarrow> FrameTracker list + ResidentSet" where
  "insert_run_with_state rs start_vpn pages st =
     (if runs_collide (rs_runs rs) start_vpn (length pages) then Inl pages
      else (case insert_run_pages rs start_vpn (map (\<lambda>f. page_with_state f st) pages) of
              Inr rs' \<Rightarrow> Inr rs'
            | Inl ps \<Rightarrow> Inl (map rp_frame ps)))"

text \<open>An insertion whose failure is \<open>unreachable!\<close>.\<close>

definition insert_or_panic :: "ResidentSet \<Rightarrow> usize \<Rightarrow> ResidentPage list \<Rightarrow> ResidentSet option" where
  "insert_or_panic rs start pages =
     (case insert_run_pages rs start pages of Inl _ \<Rightarrow> None | Inr rs' \<Rightarrow> Some rs')"

text \<open>One turn of the loop of \<open>extract_range\<close> over the old runs: the pair is the set being
  rebuilt and the extracted set.\<close>

definition extract_step ::
  "usize \<Rightarrow> usize \<Rightarrow> usize \<times> ResidentRun \<Rightarrow> ResidentSet \<times> ResidentSet \<Rightarrow> (ResidentSet \<times> ResidentSet) option" where
  "extract_step start_vpn end_vpn entry acc =
     (case entry of (run_start, pages) \<Rightarrow> case acc of (self, extracted) \<Rightarrow>
        let run_end = saturating_add run_start (length pages);
            overlap_start = max start_vpn run_start;
            overlap_end = min end_vpn run_end
        in if overlap_start \<ge> overlap_end then
             (case insert_or_panic self run_start pages of
                None \<Rightarrow> None | Some self' \<Rightarrow> Some (self', extracted))
           else
             (let left_len = overlap_start - run_start;
                  middle_len = overlap_end - overlap_start;
                  left_pages = take left_len pages;
                  middle = take middle_len (drop left_len pages);
                  rest = drop (left_len + middle_len) pages
              in case (if left_len \<noteq> 0 then insert_or_panic self run_start left_pages else Some self) of
                   None \<Rightarrow> None
                 | Some self1 \<Rightarrow>
                     (case insert_or_panic extracted (overlap_start - start_vpn) middle of
                        None \<Rightarrow> None
                      | Some extracted1 \<Rightarrow>
                          (case (if rest \<noteq> [] then insert_or_panic self1 overlap_end rest else Some self1) of
                             None \<Rightarrow> None
                           | Some self2 \<Rightarrow> Some (self2, extracted1)))))"

fun extract_loop ::
  "usize \<Rightarrow> usize \<Rightarrow> ResidentRun btree \<Rightarrow> ResidentSet \<times> ResidentSet \<Rightarrow> (ResidentSet \<times> ResidentSet) option" where
  "extract_loop s e [] acc = Some acc"
| "extract_loop s e (x # xs) acc =
     (case extract_step s e x acc of None \<Rightarrow> None | Some acc' \<Rightarrow> extract_loop s e xs acc')"

text \<open>The first component of the result is the remaining set, the second the returned option.\<close>

definition extract_range :: "ResidentSet \<Rightarrow> usize \<Rightarrow> usize \<Rightarrow> (ResidentSet \<times> ResidentSet option) option" where
  "extract_range rs start_vpn end_vpn =
     (if start_vpn > end_vpn then Some (rs, None)
      else (case extract_loop start_vpn end_vpn (rs_runs rs) (rs_new, rs_new) of
              None \<Rightarrow> None
            | Some (self, extracted) \<Rightarrow> Some (self, Some extracted)))"

definition drain_all :: "ResidentSet \<Rightarrow> ResidentSet \<times> ResidentSet" where
  "drain_all rs = (rs_new, rs)"

definition runs_end :: "ResidentRun btree \<Rightarrow> usize option" where
  "runs_end m = map_option (\<lambda>(s, run). saturating_add s (length run)) (bt_last m)"

definition split_off :: "ResidentSet \<Rightarrow> usize \<Rightarrow> (ResidentSet \<times> ResidentSet option) option" where
  "split_off rs vpn =
     (if vpn = 0 then (case drain_all rs of (self, out) \<Rightarrow> Some (self, Some out))
      else extract_range rs vpn
             (max (case runs_end (rs_runs rs) of None \<Rightarrow> vpn | Some e \<Rightarrow> e) vpn))"

fun merge_runs :: "usize \<Rightarrow> ResidentRun btree \<Rightarrow> ResidentSet \<Rightarrow> ResidentSet option" where
  "merge_runs offset [] rs = Some rs"
| "merge_runs offset ((s, run) # m) rs =
     (case insert_or_panic rs (saturating_add s offset) run of
        None \<Rightarrow> None
      | Some rs' \<Rightarrow> merge_runs offset m rs')"

text \<open>\<open>merge_from_at\<close> empties \<open>other\<close>: the result pairs the receiver with the emptied set.\<close>

definition merge_from_at :: "ResidentSet \<Rightarrow> usize \<Rightarrow> ResidentSet \<Rightarrow> (ResidentSet \<times> ResidentSet) option" where
  "merge_from_at rs offset oth =
     map_option (\<lambda>rs'. (rs', rs_new)) (merge_runs offset (rs_runs oth) rs)"

definition merge_from :: "ResidentSet \<Rightarrow> ResidentSet \<Rightarrow> ResidentSet option" where
  "merge_from rs oth =
     map_option fst (merge_from_at rs (case runs_end (rs_runs rs) of None \<Rightarrow> 0 | Some e \<Rightarrow> e) oth)"

definition rs_iter_range :: "ResidentSet \<Rightarrow> usize \<Rightarrow> usize \<Rightarrow> (usize \<times> ResidentPage) list" where
  "rs_iter_range rs start_vpn end_vpn =
     concat (map (\<lambda>(run_start, run).
       let first = start_vpn - run_start;
           last = min (end_vpn - run_start) (length run);
           skip = min first (length run)
       in take (last - skip) (drop skip (zip [run_start..<run_start + length run] run)))
       (filter (\<lambda>(s, _). s < end_vpn) (rs_runs rs)))"

definition into_frames :: "ResidentSet \<Rightarrow> FrameTracker list" where
  "into_frames rs = concat (map (\<lambda>(_, run). map rp_frame run) (rs_runs rs))"

text \<open>\<open>replace_all\<close> returns the old owner; a failed \<open>insert_run\<close> drops the new pages.\<close>

definition replace_all :: "ResidentSet \<Rightarrow> FrameTracker list \<Rightarrow> (ResidentSet \<times> ResidentSet) option" where
  "replace_all rs pages =
     (case drain_all rs of (self, old) \<Rightarrow>
        (case rs_insert_run self 0 pages of
           None \<Rightarrow> None
         | Some (Inl _) \<Rightarrow> Some (self, old)
         | Some (Inr self') \<Rightarrow> Some (self', old)))"


section \<open>Canonical runs and the map they stand for\<close>

definition run_at :: "usize \<Rightarrow> ResidentRun \<Rightarrow> usize \<Rightarrow> ResidentPage option" where
  "run_at s ps v = (if s \<le> v \<and> v < s + length ps then Some (ps ! (v - s)) else None)"

definition runs_map :: "ResidentRun btree \<Rightarrow> usize \<Rightarrow> ResidentPage option" where
  "runs_map m v =
     (case find (\<lambda>(s, ps). run_at s ps v \<noteq> None) m of None \<Rightarrow> None | Some (s, ps) \<Rightarrow> run_at s ps v)"

text \<open>The abstraction function: the pages of a set as a map from page numbers.\<close>

definition rs_map :: "ResidentSet \<Rightarrow> usize \<Rightarrow> ResidentPage option" where
  "rs_map rs = runs_map (rs_runs rs)"

definition runs_ok :: "ResidentRun btree \<Rightarrow> bool" where
  "runs_ok m \<longleftrightarrow> bt_sorted m
     \<and> (\<forall>x \<in> set m. snd x \<noteq> [] \<and> fst x + length (snd x) \<le> usize_max)
     \<and> (\<forall>x \<in> set m. \<forall>y \<in> set m. fst x < fst y \<longrightarrow> fst x + length (snd x) < fst y)"

definition runs_size :: "ResidentRun btree \<Rightarrow> nat" where
  "runs_size m = sum_list (map (length \<circ> snd) m)"

text \<open>The pages a map owns, as a multiset: no insertion or extraction may lose or copy one.\<close>

definition runs_pages :: "ResidentRun btree \<Rightarrow> ResidentPage multiset" where
  "runs_pages m = mset (concat (map snd m))"

definition rs_pages :: "ResidentSet \<Rightarrow> ResidentPage multiset" where
  "rs_pages rs = runs_pages (rs_runs rs)"

lemma runs_size_pages: "runs_size m = size (runs_pages m)"
  by (induction m) (auto simp: runs_size_def runs_pages_def)

definition rs_ok :: "ResidentSet \<Rightarrow> bool" where
  "rs_ok rs \<longleftrightarrow> runs_ok (rs_runs rs) \<and> rs_count rs = runs_size (rs_runs rs)"

lemma rs_ok_new [simp]: "rs_ok rs_new"
  by (simp add: rs_ok_def rs_new_def runs_ok_def runs_size_def)

lemma run_at_Some: "run_at s ps v = Some p \<longleftrightarrow> s \<le> v \<and> v < s + length ps \<and> p = ps ! (v - s)"
  by (auto simp: run_at_def)

lemma run_at_None: "run_at s ps v = None \<longleftrightarrow> \<not> (s \<le> v \<and> v < s + length ps)"
  by (simp add: run_at_def)

lemma run_at_append:
  "run_at s (ps @ qs) v = (case run_at s ps v of Some p \<Rightarrow> Some p | None \<Rightarrow> run_at (s + length ps) qs v)"
  by (auto simp: run_at_def nth_append)

lemma runs_ok_sorted: "runs_ok m \<Longrightarrow> bt_sorted m"
  by (simp add: runs_ok_def)

lemma runs_ok_nonempty: "runs_ok m \<Longrightarrow> (s, ps) \<in> set m \<Longrightarrow> ps \<noteq> []"
  by (auto simp: runs_ok_def)

lemma runs_ok_bound: "runs_ok m \<Longrightarrow> (s, ps) \<in> set m \<Longrightarrow> s + length ps \<le> usize_max"
  by (auto simp: runs_ok_def)

lemma runs_ok_gap:
  assumes "runs_ok m" "(s, ps) \<in> set m" "(t, qs) \<in> set m" "s < t"
  shows "s + length ps < t"
proof -
  from assms(1) have "\<forall>x \<in> set m. \<forall>y \<in> set m. fst x < fst y \<longrightarrow> fst x + length (snd x) < fst y"
    unfolding runs_ok_def by (elim conjE)
  from bspec [OF bspec [OF this assms(2)] assms(3)] assms(4) show ?thesis by simp
qed

lemma runs_ok_unique:
  assumes "runs_ok m" "(s, ps) \<in> set m" "(t, qs) \<in> set m"
    "s \<le> v" "v < s + length ps" "t \<le> v" "v < t + length qs"
  shows "s = t \<and> ps = qs"
proof -
  have "\<not> s < t" using runs_ok_gap [OF assms(1,2,3)] assms(5,6) by linarith
  moreover have "\<not> t < s" using runs_ok_gap [OF assms(1,3,2)] assms(4,7) by linarith
  ultimately have "s = t" by simp
  with assms(3) have "(s, qs) \<in> set m" by simp
  from bt_sorted_inj [OF runs_ok_sorted [OF assms(1)] assms(2) this] \<open>s = t\<close> show ?thesis by simp
qed

text \<open>The abstraction of a canonical set, as a relation between its runs and its pages.\<close>

lemma runs_map_Some:
  assumes "runs_ok m"
  shows "runs_map m v = Some p \<longleftrightarrow> (\<exists>s ps. (s, ps) \<in> set m \<and> run_at s ps v = Some p)"
proof
  assume "runs_map m v = Some p"
  then show "\<exists>s ps. (s, ps) \<in> set m \<and> run_at s ps v = Some p"
    by (auto simp: runs_map_def split: option.splits prod.splits dest!: find_SomeD)
next
  assume "\<exists>s ps. (s, ps) \<in> set m \<and> run_at s ps v = Some p"
  then obtain s ps where sp: "(s, ps) \<in> set m" "run_at s ps v = Some p" by blast
  then have "find (\<lambda>(s, ps). run_at s ps v \<noteq> None) m \<noteq> None"
    by (auto simp: find_None_iff)
  then obtain t qs where tq: "find (\<lambda>(s, ps). run_at s ps v \<noteq> None) m = Some (t, qs)" by auto
  then have "(t, qs) \<in> set m" "run_at t qs v \<noteq> None"
    using find_SomeD by fastforce+
  with sp have "t = s \<and> qs = ps"
    using runs_ok_unique [OF assms, of t qs s ps v] by (auto simp: run_at_Some run_at_None)
  with tq sp(2) show "runs_map m v = Some p" by (simp add: runs_map_def)
qed

lemma runs_map_None:
  assumes "runs_ok m"
  shows "runs_map m v = None \<longleftrightarrow> (\<forall>s ps. (s, ps) \<in> set m \<longrightarrow> run_at s ps v = None)"
  using runs_map_Some [OF assms] by (metis not_Some_eq)

lemma runs_lookup_correct:
  assumes "runs_ok m"
  shows "runs_lookup m v = runs_map m v"
proof (cases "bt_last_le v m")
  case None
  then have "\<forall>x \<in> set m. v < fst x" by (simp add: bt_last_le_None)
  then have "runs_map m v = None" by (auto simp: runs_map_None [OF assms] run_at_None)
  with None show ?thesis by (simp add: runs_lookup_def)
next
  case (Some x)
  obtain s ps where x: "x = (s, ps)" by (cases x)
  note sorted = runs_ok_sorted [OF assms]
  have best: "(s, ps) \<in> set m" "s \<le> v" "\<forall>y \<in> set m. fst y \<le> v \<longrightarrow> fst y \<le> s"
    using Some x bt_last_le_iff [OF sorted] by auto
  have lookup: "runs_lookup m v = run_at s ps v"
    using Some x best(2) by (auto simp: runs_lookup_def run_at_def checked_sub_def)
  have other: "run_at t qs v = None" if "(t, qs) \<in> set m" "t \<noteq> s" for t qs
  proof (cases "t < s")
    case True
    then show ?thesis using runs_ok_gap [OF assms that(1) best(1)] best(2) by (simp add: run_at_None)
  next
    case False
    with that best(3) have "v < t" by force
    then show ?thesis by (simp add: run_at_None)
  qed
  have "runs_map m v = run_at s ps v"
  proof (cases "run_at s ps v")
    case None
    then have "run_at t qs v = None" if "(t, qs) \<in> set m" for t qs
      using other [OF that] that best(1) bt_sorted_inj [OF sorted] by (cases "t = s") auto
    with None show ?thesis by (simp add: runs_map_None [OF assms])
  next
    case (Some p)
    then have "runs_map m v = Some p" using best(1) by (auto simp: runs_map_Some [OF assms])
    with Some show ?thesis by simp
  qed
  with lookup show ?thesis by simp
qed

lemma rs_lookup_map: "rs_ok rs \<Longrightarrow> rs_lookup rs v = rs_map rs v"
  by (simp add: rs_lookup_def rs_map_def rs_ok_def runs_lookup_correct)

text \<open>The collision test is exact for a block inside the address space.\<close>

lemma runs_collide_iff:
  assumes "runs_ok m" "start + n \<le> usize_max"
  shows "runs_collide m start n \<longleftrightarrow> (\<exists>v. start \<le> v \<and> v < start + n \<and> runs_map m v \<noteq> None)"
proof -
  have "runs_collide m start n \<longleftrightarrow> (\<exists>off < n. runs_map m (start + off) \<noteq> None)"
    using assms(2) by (auto simp: runs_collide_def runs_lookup_correct [OF assms(1)] saturating_add_eq)
  also have "\<dots> \<longleftrightarrow> (\<exists>v. start \<le> v \<and> v < start + n \<and> runs_map m v \<noteq> None)"
    by (metis add.commute add_less_cancel_left le_add1 le_add_diff_inverse)
  finally show ?thesis .
qed


section \<open>Inserting a run\<close>

text \<open>\<open>apart\<close>: a block meets no run of the map; \<open>spaced\<close>: it does not even touch one.\<close>

definition apart :: "ResidentRun btree \<Rightarrow> usize \<Rightarrow> nat \<Rightarrow> bool" where
  "apart m k n \<longleftrightarrow> (\<forall>x \<in> set m. fst x + length (snd x) \<le> k \<or> k + n \<le> fst x)"

definition spaced :: "ResidentRun btree \<Rightarrow> usize \<Rightarrow> nat \<Rightarrow> bool" where
  "spaced m k n \<longleftrightarrow> (\<forall>x \<in> set m. fst x + length (snd x) < k \<or> k + n < fst x)"

definition join_run :: "ResidentRun btree \<Rightarrow> usize \<Rightarrow> ResidentRun \<Rightarrow> usize \<Rightarrow> ResidentPage option" where
  "join_run m k run v = (case run_at k run v of Some p \<Rightarrow> Some p | None \<Rightarrow> runs_map m v)"

lemma apartD: "apart m k n \<Longrightarrow> (s, ps) \<in> set m \<Longrightarrow> s + length ps \<le> k \<or> k + n \<le> s"
  by (auto simp: apart_def)

lemma runs_map_outside:
  "runs_ok m \<Longrightarrow> apart m k n \<Longrightarrow> k \<le> v \<Longrightarrow> v < k + n \<Longrightarrow> runs_map m v = None"
  by (fastforce simp: runs_map_None run_at_None dest: apartD)

lemma apart_if_unmapped:
  assumes "runs_ok m" "\<forall>v. k \<le> v \<and> v < k + n \<longrightarrow> runs_map m v = None" "0 < n"
  shows "apart m k n"
proof -
  have "s + length ps \<le> k \<or> k + n \<le> s" if sp: "(s, ps) \<in> set m" for s ps
  proof (rule ccontr)
    assume "\<not> (s + length ps \<le> k \<or> k + n \<le> s)"
    moreover have "0 < length ps" using runs_ok_nonempty [OF assms(1) sp] by simp
    ultimately have "k \<le> max s k \<and> max s k < k + n" "run_at s ps (max s k) \<noteq> None"
      using assms(3) by (auto simp: run_at_None max_def)
    then show False using assms(1,2) sp by (metis runs_map_None)
  qed
  then show ?thesis by (auto simp: apart_def)
qed

lemma runs_ok_remove: "runs_ok m \<Longrightarrow> runs_ok (bt_remove t m)"
  by (auto simp: runs_ok_def set_bt_remove)

lemma runs_map_remove:
  assumes "runs_ok m" "(t, qs) \<in> set m"
  shows "runs_map m v = join_run (bt_remove t m) t qs v"
proof (cases "run_at t qs v")
  case (Some p)
  then have "runs_map m v = Some p" using assms by (auto simp: runs_map_Some)
  with Some show ?thesis by (simp add: join_run_def)
next
  case None
  have "(s, ps) \<in> set m \<and> run_at s ps v = Some p \<longleftrightarrow>
      (s, ps) \<in> set (bt_remove t m) \<and> run_at s ps v = Some p" for s ps p
    using None bt_sorted_inj [OF runs_ok_sorted [OF assms(1)] assms(2), of ps]
    by (auto simp: set_bt_remove [OF runs_ok_sorted [OF assms(1)]])
  then have "runs_map m v = Some p \<longleftrightarrow> runs_map (bt_remove t m) v = Some p" for p
    unfolding runs_map_Some [OF assms(1)] runs_map_Some [OF runs_ok_remove [OF assms(1)]] by simp
  then have "runs_map m v = runs_map (bt_remove t m) v" by (metis not_Some_eq)
  with None show ?thesis by (simp add: join_run_def)
qed

lemma runs_pages_remove:
  "bt_sorted m \<Longrightarrow> (t, qs) \<in> set m \<Longrightarrow> runs_pages m = mset qs + runs_pages (bt_remove t m)"
  by (induction t m rule: bt_remove.induct) (auto simp: runs_pages_def)

lemma runs_pages_insert:
  "bt_sorted m \<Longrightarrow> k \<notin> fst ` set m \<Longrightarrow> runs_pages (bt_insert k run m) = mset run + runs_pages m"
  by (induction k run m rule: bt_insert.induct) (auto simp: runs_pages_def)

lemma runs_ok_insert:
  assumes "runs_ok m" "spaced m k (length run)" "run \<noteq> []" "k + length run \<le> usize_max"
  shows "runs_ok (bt_insert k run m)"
proof -
  note sorted = runs_ok_sorted [OF assms(1)]
  have sp: "s + length ps < k \<or> k + length run < s" if "(s, ps) \<in> set m" for s ps
    using assms(2) that by (auto simp: spaced_def)
  have "fst x + length (snd x) < fst y"
    if "x \<in> set (bt_insert k run m)" "y \<in> set (bt_insert k run m)" "fst x < fst y" for x y
  proof -
    obtain s ps t qs where xy: "x = (s, ps)" "y = (t, qs)" by (cases x, cases y) simp
    from that(1,2) consider "(s, ps) \<in> set m" "(t, qs) \<in> set m" | "s = k" "ps = run" "(t, qs) \<in> set m"
      | "(s, ps) \<in> set m" "t = k" | "s = k" "t = k"
      by (auto simp: xy set_bt_insert [OF sorted])
    then show ?thesis
    proof cases
      case 1
      then show ?thesis using runs_ok_gap [OF assms(1), of s ps t qs] that(3) by (simp add: xy)
    next
      case 2
      then show ?thesis using sp [of t qs] that(3) by (simp add: xy)
    next
      case 3
      then show ?thesis using sp [of s ps] that(3) by (simp add: xy)
    next
      case 4
      then show ?thesis using that(3) by (simp add: xy)
    qed
  qed
  moreover have "snd x \<noteq> [] \<and> fst x + length (snd x) \<le> usize_max" if "x \<in> set (bt_insert k run m)" for x
    using that assms(1,3,4) by (auto simp: set_bt_insert [OF sorted] runs_ok_def)
  ultimately show ?thesis unfolding runs_ok_def using bt_sorted_insert [OF sorted] by blast
qed

lemma runs_map_insert:
  assumes "runs_ok m" "spaced m k (length run)" "run \<noteq> []" "k + length run \<le> usize_max"
  shows "runs_map (bt_insert k run m) v = join_run m k run v"
proof -
  have fresh: "k \<notin> fst ` set m" using assms(2,3) by (force simp: spaced_def)
  have mem: "(k, run) \<in> set (bt_insert k run m)"
    using runs_ok_sorted [OF assms(1)] by (simp add: set_bt_insert)
  from runs_map_remove [OF runs_ok_insert [OF assms] mem] show ?thesis
    by (simp add: bt_remove_insert [OF runs_ok_sorted [OF assms(1)] fresh])
qed

lemma runs_size_bound:
  "runs_ok m \<Longrightarrow> \<forall>x \<in> set m. a \<le> fst x \<Longrightarrow> a \<le> usize_max \<Longrightarrow> a + runs_size m \<le> usize_max"
proof (induction m arbitrary: a)
  case Nil
  then show ?case by (simp add: runs_size_def)
next
  case (Cons x m)
  obtain s ps where x: "x = (s, ps)" by (cases x)
  have ok: "runs_ok m" using Cons.prems(1) by (auto simp: runs_ok_def x)
  have next_: "\<forall>y \<in> set m. s + length ps \<le> fst y"
    using Cons.prems(1) by (fastforce simp: runs_ok_def x)
  have "s + length ps \<le> usize_max" using Cons.prems(1) by (auto simp: runs_ok_def x)
  from Cons.IH [OF ok next_ this] show ?case
    using Cons.prems(2) by (simp add: x runs_size_def)
qed

lemma runs_size_le_max: "runs_ok m \<Longrightarrow> runs_size m \<le> usize_max"
  using runs_size_bound [of m 0] by simp

text \<open>Absorbing a neighbour moves its pages into the block and nothing else.\<close>

lemma absorb_left:
  assumes "runs_ok m" "(l, left) \<in> set m" "l + length left = k" "apart m k (length run)" "run \<noteq> []"
  shows "join_run (bt_remove l m) l (left @ run) v = join_run m k run v"
    and "apart (bt_remove l m) l (length (left @ run))"
proof -
  have rm: "runs_map m v = join_run (bt_remove l m) l left v" for v
    by (rule runs_map_remove [OF assms(1,2)])
  show "join_run (bt_remove l m) l (left @ run) v = join_run m k run v"
    using rm [of v] assms(3)
    by (auto simp: join_run_def run_at_append run_at_Some run_at_None split: option.splits)
  have "fst x + length (snd x) \<le> l \<or> l + length (left @ run) \<le> fst x" if "x \<in> set (bt_remove l m)" for x
  proof -
    obtain s ps where x: "x = (s, ps)" by (cases x)
    have sp: "(s, ps) \<in> set m" "s \<noteq> l" using that runs_ok_sorted [OF assms(1)] by (auto simp: x set_bt_remove)
    have "s < l \<Longrightarrow> s + length ps < l" using runs_ok_gap [OF assms(1) sp(1) assms(2)] .
    moreover have "l < s \<Longrightarrow> k < s" using runs_ok_gap [OF assms(1,2) sp(1)] assms(3) by simp
    ultimately show ?thesis
      using apartD [OF assms(4) sp(1)] sp(2) assms(3) by (cases "s < l") (auto simp: x)
  qed
  then show "apart (bt_remove l m) l (length (left @ run))" by (simp add: apart_def)
qed

lemma absorb_right:
  assumes "runs_ok m" "(r, right) \<in> set m" "k + length run = r" "apart m k (length run)" "run \<noteq> []"
  shows "join_run (bt_remove r m) k (run @ right) v = join_run m k run v"
    and "apart (bt_remove r m) k (length (run @ right))"
proof -
  have rm: "runs_map m v = join_run (bt_remove r m) r right v" for v
    by (rule runs_map_remove [OF assms(1,2)])
  show "join_run (bt_remove r m) k (run @ right) v = join_run m k run v"
    using rm [of v] assms(3) by (auto simp: join_run_def run_at_append split: option.splits)
  have "fst x + length (snd x) \<le> k \<or> k + length (run @ right) \<le> fst x" if "x \<in> set (bt_remove r m)" for x
  proof -
    obtain s ps where x: "x = (s, ps)" by (cases x)
    have sp: "(s, ps) \<in> set m" "s \<noteq> r" using that runs_ok_sorted [OF assms(1)] by (auto simp: x set_bt_remove)
    have "r < s \<Longrightarrow> r + length right < s" using runs_ok_gap [OF assms(1,2) sp(1)] .
    then show ?thesis
      using apartD [OF assms(4) sp(1)] sp(2) assms(3) by (auto simp: x)
  qed
  then show "apart (bt_remove r m) k (length (run @ right))" by (simp add: apart_def)
qed


lemma coalesce_left_correct:
  assumes ok: "runs_ok m" and ap: "apart m k (length run)" and ne: "run \<noteq> []"
    and cl: "coalesce_left m k run = (key, run1, m1)"
  shows "runs_ok m1" "apart m1 key (length run1)" "run1 \<noteq> []" "key + length run1 = k + length run"
    and "join_run m1 key run1 v = join_run m k run v"
    and "runs_pages m1 + mset run1 = runs_pages m + mset run"
    and "\<forall>x \<in> set m1. fst x < key \<longrightarrow> fst x + length (snd x) < key"
proof -
  note sorted = runs_ok_sorted [OF ok]
  consider (stay) "key = k" "run1 = run" "m1 = m"
      "\<forall>x \<in> set m. fst x < k \<longrightarrow> fst x + length (snd x) < k"
    | (merge) l left where "(l, left) \<in> set m" "l + length left = k" "key = l" "run1 = left @ run"
        "m1 = bt_remove l m"
  proof (cases "bt_last_lt k m")
    case None
    then have "\<forall>x \<in> set m. k \<le> fst x" by (simp add: bt_last_lt_None)
    with None show ?thesis using cl that(1) by (force simp: coalesce_left_def)
  next
    case (Some x)
    obtain l left where x: "x = (l, left)" by (cases x)
    have last: "(l, left) \<in> set m" "l < k" "\<forall>x \<in> set m. fst x < k \<longrightarrow> fst x \<le> l"
      using Some x bt_last_lt_iff [OF sorted] by auto
    have sat: "saturating_add l (length left) = l + length left"
      using runs_ok_bound [OF ok last(1)] by (simp add: saturating_add_eq)
    show ?thesis
    proof (cases "l + length left = k")
      case True
      then show ?thesis using cl Some x last(1) that(2) by (auto simp: coalesce_left_def sat)
    next
      case False
      have "fst y + length (snd y) < k" if y: "y \<in> set m" "fst y < k" for y
      proof (cases "fst y = l")
        case True
        with y have "y = (l, left)" using bt_sorted_inj [OF sorted, of l "snd y" left] last(1) by (metis prod.collapse)
        then show ?thesis using False apartD [OF ap last(1)] last(2) ne by auto
      next
        case False
        with y last(3) have "fst y < l" by force
        then have "fst y + length (snd y) < l"
          using runs_ok_gap [OF ok _ last(1), of "fst y" "snd y"] y(1) by simp
        then show ?thesis using last(2) by simp
      qed
      with False show ?thesis using cl Some x that(1) by (simp add: coalesce_left_def sat)
    qed
  qed
  then have "runs_ok m1 \<and> apart m1 key (length run1) \<and> run1 \<noteq> [] \<and> key + length run1 = k + length run
    \<and> join_run m1 key run1 v = join_run m k run v \<and> runs_pages m1 + mset run1 = runs_pages m + mset run
    \<and> (\<forall>x \<in> set m1. fst x < key \<longrightarrow> fst x + length (snd x) < key)"
  proof cases
    case stay
    then show ?thesis using ok ap ne by simp
  next
    case merge
    have "fst x + length (snd x) < l" if "x \<in> set m1" "fst x < l" for x
      using that runs_ok_gap [OF ok _ merge(1), of "fst x" "snd x"] by (simp add: merge(5) set_bt_remove [OF sorted])
    then show ?thesis
      using runs_ok_remove [OF ok] absorb_left [OF ok merge(1,2) ap ne] ne
        runs_pages_remove [OF sorted merge(1)] merge(2-5) by simp
  qed
  then show "runs_ok m1" "apart m1 key (length run1)" "run1 \<noteq> []" "key + length run1 = k + length run"
    and "join_run m1 key run1 v = join_run m k run v"
    and "runs_pages m1 + mset run1 = runs_pages m + mset run"
    and "\<forall>x \<in> set m1. fst x < key \<longrightarrow> fst x + length (snd x) < key" by blast+
qed

lemma coalesce_right_correct:
  assumes ok: "runs_ok m" and ap: "apart m k (length run)" and ne: "run \<noteq> []"
    and bound: "k + length run \<le> usize_max"
    and left: "\<forall>x \<in> set m. fst x < k \<longrightarrow> fst x + length (snd x) < k"
    and cr: "coalesce_right m k run = (run1, m1)"
  shows "runs_ok m1" "spaced m1 k (length run1)" "run1 \<noteq> []" "k + length run1 \<le> usize_max"
    and "join_run m1 k run1 v = join_run m k run v"
    and "runs_pages m1 + mset run1 = runs_pages m + mset run"
proof -
  note sorted = runs_ok_sorted [OF ok]
  have split: "fst x + length (snd x) < k \<or> k + length run \<le> fst x" if "x \<in> set m" for x
  proof -
    have "0 < length (snd x)" using runs_ok_nonempty [OF ok, of "fst x" "snd x"] that by simp
    moreover have "fst x + length (snd x) \<le> k \<or> k + length run \<le> fst x"
      using apartD [OF ap, of "fst x" "snd x"] that by simp
    moreover have "fst x < k \<longrightarrow> fst x + length (snd x) < k" using left that by blast
    ultimately show ?thesis by linarith
  qed
  have "runs_ok m1 \<and> spaced m1 k (length run1) \<and> run1 \<noteq> [] \<and> k + length run1 \<le> usize_max
    \<and> join_run m1 k run1 v = join_run m k run v \<and> runs_pages m1 + mset run1 = runs_pages m + mset run"
  proof (cases "bt_get (k + length run) m")
    case None
    then have "fst x \<noteq> k + length run" if "x \<in> set m" for x
      using that by (metis bt_get_None image_eqI)
    then have "spaced m k (length run)" using split by (fastforce simp: spaced_def)
    then show ?thesis using None cr ok ne bound by (simp add: coalesce_right_def saturating_add_eq)
  next
    case (Some right)
    then have r: "(k + length run, right) \<in> set m" by (simp add: bt_get_iff [OF sorted])
    have eqs: "run1 = run @ right" "m1 = bt_remove (k + length run) m"
      using Some cr bound by (auto simp: coalesce_right_def saturating_add_eq)
    have "k + length (run @ right) < fst x \<or> fst x + length (snd x) < k" if "x \<in> set m1" for x
    proof -
      have x: "x \<in> set m" "fst x \<noteq> k + length run" using that by (auto simp: eqs set_bt_remove [OF sorted])
      have "k + length run < fst x \<Longrightarrow> k + length run + length right < fst x"
        using runs_ok_gap [OF ok r, of "fst x" "snd x"] x(1) by simp
      then show ?thesis using split [OF x(1)] x(2) by auto
    qed
    then have "spaced m1 k (length run1)" unfolding spaced_def eqs by blast
    moreover have "k + length run1 \<le> usize_max" using runs_ok_bound [OF ok r] by (simp add: eqs)
    ultimately show ?thesis
      using runs_ok_remove [OF ok] absorb_right [OF ok r refl ap ne] runs_pages_remove [OF sorted r] ne
      by (simp add: eqs)
  qed
  then show "runs_ok m1" "spaced m1 k (length run1)" "run1 \<noteq> []" "k + length run1 \<le> usize_max"
    and "join_run m1 k run1 v = join_run m k run v"
    and "runs_pages m1 + mset run1 = runs_pages m + mset run" by blast+
qed

lemma coalesce_correct:
  assumes ok: "runs_ok m" and ap: "apart m k (length run)" and ne: "run \<noteq> []"
    and bound: "k + length run \<le> usize_max"
  shows "runs_ok (coalesce_adjacent (bt_insert k run m) k)"
    and "runs_map (coalesce_adjacent (bt_insert k run m) k) v = join_run m k run v"
    and "runs_pages (coalesce_adjacent (bt_insert k run m) k) = runs_pages m + mset run"
proof -
  note sorted = runs_ok_sorted [OF ok]
  have fresh: "k \<notin> fst ` set m"
    using apartD [OF ap] runs_ok_nonempty [OF ok] ne by force
  obtain key run1 m1 where l: "coalesce_left m k run = (key, run1, m1)" by (metis prod_cases3)
  obtain run2 m2 where r: "coalesce_right m1 key run1 = (run2, m2)" by fastforce
  note L = coalesce_left_correct [OF ok ap ne l]
  have "key + length run1 \<le> usize_max" using L(4) bound by simp
  note R = coalesce_right_correct [OF L(1,2,3) this L(7) r]
  have eq: "coalesce_adjacent (bt_insert k run m) k = bt_insert key run2 m2"
    by (simp add: coalesce_adjacent_def bt_get_insert bt_remove_insert [OF sorted fresh] l r)
  have fresh2: "key \<notin> fst ` set m2" using R(2,3) by (force simp: spaced_def)
  show "runs_ok (coalesce_adjacent (bt_insert k run m) k)"
    unfolding eq by (rule runs_ok_insert [OF R(1-4)])
  show "runs_map (coalesce_adjacent (bt_insert k run m) k) v = join_run m k run v"
    unfolding eq using runs_map_insert [OF R(1-4)] R(5) L(5) by simp
  show "runs_pages (coalesce_adjacent (bt_insert k run m) k) = runs_pages m + mset run"
    unfolding eq using runs_pages_insert [OF runs_ok_sorted [OF R(1)] fresh2] R(6) L(6) by (simp add: add.commute)
qed


section \<open>Every operation refines the map of resident pages\<close>

lemma insert_run_pages_Inr:
  assumes ok: "rs_ok rs" and bound: "start + length pages \<le> usize_max"
    and ins: "insert_run_pages rs start pages = Inr rs'"
  shows "rs_ok rs'" and "rs_map rs' v = join_run (rs_runs rs) start pages v"
    and "rs_pages rs' = rs_pages rs + mset pages"
proof -
  have rok: "runs_ok (rs_runs rs)" using ok by (simp add: rs_ok_def)
  have ne: "pages \<noteq> []" and nocol: "\<not> runs_collide (rs_runs rs) start (length pages)"
    using ins by (auto simp: insert_run_pages_def split: if_splits)
  have ap: "apart (rs_runs rs) start (length pages)"
    using apart_if_unmapped [OF rok] nocol runs_collide_iff [OF rok bound] ne by blast
  note C = coalesce_correct [OF rok ap ne bound]
  have rs': "rs' = \<lparr>rs_runs = coalesce_adjacent (bt_insert start pages (rs_runs rs)) start,
      rs_count = saturating_add (rs_count rs) (length pages)\<rparr>"
    using ins ne nocol by (simp add: insert_run_pages_def)
  have size: "runs_size (rs_runs rs') = rs_count rs + length pages"
    using C(3) ok by (simp add: rs' runs_size_pages rs_ok_def)
  have "runs_size (rs_runs rs') \<le> usize_max" using runs_size_le_max C(1) by (simp add: rs')
  with size have "rs_count rs' = rs_count rs + length pages"
    by (simp add: rs' saturating_add_eq)
  then show "rs_ok rs'" using C(1) size by (simp add: rs_ok_def rs')
  show "rs_map rs' v = join_run (rs_runs rs) start pages v" using C(2) by (simp add: rs_map_def rs')
  show "rs_pages rs' = rs_pages rs + mset pages" using C(3) by (simp add: rs_pages_def rs')
qed

lemma insert_run_pages_Inl:
  assumes ok: "rs_ok rs" and bound: "start + length pages \<le> usize_max"
  shows "(\<exists>ps. insert_run_pages rs start pages = Inl ps) \<longleftrightarrow>
    pages = [] \<or> (\<exists>v. start \<le> v \<and> v < start + length pages \<and> rs_map rs v \<noteq> None)"
  using ok runs_collide_iff [OF _ bound] by (auto simp: insert_run_pages_def rs_ok_def rs_map_def)

lemma rs_len_pages: "rs_ok rs \<Longrightarrow> rs_len rs = size (rs_pages rs)"
  by (simp add: rs_ok_def rs_len_def rs_pages_def runs_size_pages)

text \<open>An insertion at a free block of the address space succeeds.\<close>

lemma insert_or_panic_free:
  assumes ok: "rs_ok rs" and bound: "start + length pages \<le> usize_max" and ne: "pages \<noteq> []"
    and free: "\<forall>v. start \<le> v \<and> v < start + length pages \<longrightarrow> rs_map rs v = None"
  shows "\<exists>rs'. insert_or_panic rs start pages = Some rs' \<and> rs_ok rs'
    \<and> (\<forall>v. rs_map rs' v = join_run (rs_runs rs) start pages v) \<and> rs_pages rs' = rs_pages rs + mset pages"
proof -
  obtain rs' where "insert_run_pages rs start pages = Inr rs'"
    using insert_run_pages_Inl [OF ok bound] ne free by (metis old.sum.exhaust)
  with insert_run_pages_Inr [OF ok bound this] show ?thesis by (auto simp: insert_or_panic_def)
qed

lemma join_run_map: "join_run (rs_runs rs) k run v = (case run_at k run v of Some p \<Rightarrow> Some p | None \<Rightarrow> rs_map rs v)"
  by (simp add: join_run_def rs_map_def split: option.split)


lemma run_at_take: "run_at k (take a run) v = (if v < k + a then run_at k run v else None)"
  by (auto simp: run_at_def)

lemma run_at_drop:
  "j = k + a \<Longrightarrow> a \<le> length run \<Longrightarrow> run_at j (drop a run) v = (if j \<le> v then run_at k run v else None)"
  by (auto simp: run_at_def)

lemma insert_part:
  assumes ok: "rs_ok rs" and bound: "start + length pages \<le> usize_max"
    and free: "\<forall>v. start \<le> v \<and> v < start + length pages \<longrightarrow> rs_map rs v = None"
  shows "\<exists>rs'. (if pages \<noteq> [] then insert_or_panic rs start pages else Some rs) = Some rs' \<and> rs_ok rs'
    \<and> (\<forall>v. rs_map rs' v = (case run_at start pages v of Some p \<Rightarrow> Some p | None \<Rightarrow> rs_map rs v))
    \<and> rs_pages rs' = rs_pages rs + mset pages"
proof (cases "pages = []")
  case True
  then have "run_at start pages v = None" for v by (simp add: run_at_None)
  with True ok show ?thesis by simp
next
  case False
  then show ?thesis using insert_or_panic_free [OF ok bound False free] by (simp add: join_run_map)
qed

lemma runs_map_snoc:
  assumes "runs_ok (pre @ [(k, run)])"
  shows "runs_map (pre @ [(k, run)]) v = (case run_at k run v of Some p \<Rightarrow> Some p | None \<Rightarrow> runs_map pre v)"
    and "k \<le> v \<Longrightarrow> runs_map pre v = None"
    and "k + length run \<le> usize_max" and "run \<noteq> []" and "runs_ok pre"
proof -
  show pre: "runs_ok pre" using assms by (auto simp: runs_ok_def bt_sorted_def sorted_wrt_append)
  show "k + length run \<le> usize_max" "run \<noteq> []" using assms by (auto simp: runs_ok_def)
  have below: "t < k" if "(t, qs) \<in> set pre" for t qs
    using assms that by (auto simp: runs_ok_def bt_sorted_def sorted_wrt_append)
  have "t + length qs < k" if "(t, qs) \<in> set pre" for t qs
    using runs_ok_gap [OF assms, of t qs k run] below [OF that] that by simp
  then show beyond: "k \<le> v \<Longrightarrow> runs_map pre v = None" for v
    by (fastforce simp: runs_map_None [OF pre] run_at_None)
  show "runs_map (pre @ [(k, run)]) v = (case run_at k run v of Some p \<Rightarrow> Some p | None \<Rightarrow> runs_map pre v)"
  proof (cases "run_at k run v")
    case None
    have "runs_map (pre @ [(k, run)]) v = Some p \<longleftrightarrow> runs_map pre v = Some p" for p
      unfolding runs_map_Some [OF assms] runs_map_Some [OF pre] using None by auto
    then have "runs_map (pre @ [(k, run)]) v = runs_map pre v" by (metis not_Some_eq)
    with None show ?thesis by simp
  next
    case (Some p)
    then have "runs_map (pre @ [(k, run)]) v = Some p" unfolding runs_map_Some [OF assms] by auto
    with Some show ?thesis by simp
  qed
qed

text \<open>What the loop of \<open>extract_range\<close> has established after the runs \<open>pre\<close>.\<close>

definition extract_inv ::
  "usize \<Rightarrow> usize \<Rightarrow> ResidentRun btree \<Rightarrow> ResidentSet \<times> ResidentSet \<Rightarrow> bool" where
  "extract_inv s e pre acc \<longleftrightarrow> rs_ok (fst acc) \<and> rs_ok (snd acc)
     \<and> (\<forall>v. rs_map (fst acc) v = (if s \<le> v \<and> v < e then None else runs_map pre v))
     \<and> (\<forall>v. rs_map (snd acc) v = (if v < e - s then runs_map pre (v + s) else None))
     \<and> rs_pages (fst acc) + rs_pages (snd acc) = runs_pages pre"

lemma extract_inv_Nil: "extract_inv s e [] (rs_new, rs_new)"
  by (simp add: extract_inv_def rs_new_def rs_map_def runs_map_def rs_ok_def runs_ok_def runs_size_def
      rs_pages_def runs_pages_def)

lemma extract_step_disjoint:
  assumes se: "s \<le> e" and inv: "extract_inv s e pre (self, ext)" and ok: "runs_ok (pre @ [(k, run)])"
    and dis: "max s k \<ge> min e (k + length run)"
  shows "\<exists>acc'. extract_step s e (k, run) (self, ext) = Some acc' \<and> extract_inv s e (pre @ [(k, run)]) acc'"
proof -
  note S = runs_map_snoc [OF ok]
  have I: "rs_ok self" "rs_ok ext" "rs_map self v = (if s \<le> v \<and> v < e then None else runs_map pre v)"
    "rs_map ext v = (if v < e - s then runs_map pre (v + s) else None)"
    "rs_pages self + rs_pages ext = runs_pages pre" for v
    using inv by (simp_all add: extract_inv_def)
  have "\<forall>v. k \<le> v \<and> v < k + length run \<longrightarrow> rs_map self v = None" using I(3) S(2) by auto
  from insert_or_panic_free [OF I(1) S(3,4) this] obtain self' where
    self': "insert_or_panic self k run = Some self'" "rs_ok self'"
      "\<And>v. rs_map self' v = join_run (rs_runs self) k run v" "rs_pages self' = rs_pages self + mset run"
    by blast
  have step: "extract_step s e (k, run) (self, ext) = Some (self', ext)"
    using dis S(3) self'(1) by (simp add: extract_step_def Let_def saturating_add_eq)
  have "rs_map self' v = (if s \<le> v \<and> v < e then None else runs_map (pre @ [(k, run)]) v)" for v
    using dis se by (auto simp: self'(3) join_run_map I(3) S(1) run_at_Some run_at_None split: option.splits)
  moreover have "rs_map ext v = (if v < e - s then runs_map (pre @ [(k, run)]) (v + s) else None)" for v
    using dis se by (auto simp: I(4) S(1) run_at_Some split: option.splits)
  moreover have "rs_pages self' + rs_pages ext = runs_pages (pre @ [(k, run)])"
    using I(5) self'(4) by (simp add: runs_pages_def union_assoc union_commute union_lcomm)
  ultimately show ?thesis using step self'(2) I(2) by (auto simp: extract_inv_def)
qed

lemma extract_step_overlap:
  assumes se: "s \<le> e" and inv: "extract_inv s e pre (self, ext)" and ok: "runs_ok (pre @ [(k, run)])"
    and ov: "max s k < min e (k + length run)"
  shows "\<exists>acc'. extract_step s e (k, run) (self, ext) = Some acc' \<and> extract_inv s e (pre @ [(k, run)]) acc'"
proof -
  let ?os = "max s k" and ?oe = "min e (k + length run)"
  let ?l = "take (?os - k) run" and ?m = "take (?oe - ?os) (drop (?os - k) run)"
  let ?r = "drop ((?os - k) + (?oe - ?os)) run"
  note S = runs_map_snoc [OF ok]
  have I: "rs_ok self" "rs_ok ext" "rs_map self v = (if s \<le> v \<and> v < e then None else runs_map pre v)"
    "rs_map ext v = (if v < e - s then runs_map pre (v + s) else None)"
    "rs_pages self + rs_pages ext = runs_pages pre" for v
    using inv by (simp_all add: extract_inv_def)
  have lens: "length ?l = ?os - k" "length ?m = ?oe - ?os" "length ?r = k + length run - ?oe"
    "(?os - k) + (?oe - ?os) = ?oe - k" using ov by auto
  have at: "run_at k ?l v = (if v < ?os then run_at k run v else None)"
    "run_at (?os - s) ?m v = (if ?os \<le> v + s \<and> v + s < ?oe then run_at k run (v + s) else None)"
    "run_at ?oe ?r v = (if ?oe \<le> v then run_at k run v else None)" for v
    using ov by (auto simp: run_at_def)
  have fr1: "\<forall>v. k \<le> v \<and> v < k + length ?l \<longrightarrow> rs_map self v = None" using I(3) S(2) by auto
  obtain self1 where s1: "(if ?l \<noteq> [] then insert_or_panic self k ?l else Some self) = Some self1"
      "rs_ok self1" "\<And>v. rs_map self1 v = (case run_at k ?l v of Some p \<Rightarrow> Some p | None \<Rightarrow> rs_map self v)"
      "rs_pages self1 = rs_pages self + mset ?l"
    using insert_part [OF I(1) _ fr1] S(3) lens(1) ov by fastforce
  have fr2: "\<forall>v. ?os - s \<le> v \<and> v < ?os - s + length ?m \<longrightarrow> rs_map ext v = None"
    using I(4) S(2) by (auto simp: max_def split: if_splits)
  have b2: "?os - s + length ?m \<le> usize_max" using lens(2) S(3) ov by auto
  have ne: "?m \<noteq> []" using lens(2) ov by (metis length_greater_0_conv zero_less_diff)
  obtain ext1 where e1: "insert_or_panic ext (?os - s) ?m = Some ext1" "rs_ok ext1"
      "\<And>v. rs_map ext1 v = (case run_at (?os - s) ?m v of Some p \<Rightarrow> Some p | None \<Rightarrow> rs_map ext v)"
      "rs_pages ext1 = rs_pages ext + mset ?m"
    using insert_part [OF I(2) b2 fr2] ne by auto
  have fr3: "\<forall>v. ?oe \<le> v \<and> v < ?oe + length ?r \<longrightarrow> rs_map self1 v = None"
    using s1(3) at(1) I(3) S(2) ov by auto
  have b3: "?oe + length ?r \<le> usize_max" using lens(3) S(3) ov by auto
  obtain self2 where s2: "(if ?r \<noteq> [] then insert_or_panic self1 ?oe ?r else Some self1) = Some self2"
      "rs_ok self2" "\<And>v. rs_map self2 v = (case run_at ?oe ?r v of Some p \<Rightarrow> Some p | None \<Rightarrow> rs_map self1 v)"
      "rs_pages self2 = rs_pages self1 + mset ?r"
    using insert_part [OF s1(2) b3 fr3] by blast
  have nz: "(?os - k \<noteq> 0) = (?l \<noteq> [])" using lens(1) by (metis length_0_conv)
  have nle: "(?oe \<le> ?os) = False" using ov by (meson not_le)
  have step: "extract_step s e (k, run) (self, ext) = Some (self2, ext1)"
    by (simp only: extract_step_def prod.case Let_def saturating_add_eq [OF S(3)] nle if_False
        nz s1(1) e1(1) s2(1) option.case)
  have "rs_map self2 v = (if s \<le> v \<and> v < e then None else runs_map (pre @ [(k, run)]) v)" for v
    using ov by (auto simp: s2(3) s1(3) at I(3) S(1,2) run_at_Some run_at_None split: option.splits)
  moreover have "rs_map ext1 v = (if v < e - s then runs_map (pre @ [(k, run)]) (v + s) else None)" for v
    using ov by (auto simp: e1(3) at(2) I(4) S(1,2) run_at_Some run_at_None split: option.splits)
  moreover have "run = ?l @ ?m @ ?r" by (metis append_take_drop_id drop_drop add.commute)
  then have "mset run = mset ?l + mset ?m + mset ?r" by (metis mset_append union_assoc)
  then have "rs_pages self2 + rs_pages ext1 = runs_pages (pre @ [(k, run)])"
    using I(5) s1(4) s2(4) e1(4) by (simp add: runs_pages_def ac_simps)
  ultimately show ?thesis using step s2(2) e1(2) by (auto simp: extract_inv_def)
qed


lemma extract_loop_correct:
  assumes se: "s \<le> e"
  shows "runs_ok (pre @ xs) \<Longrightarrow> extract_inv s e pre acc \<Longrightarrow>
    \<exists>acc'. extract_loop s e xs acc = Some acc' \<and> extract_inv s e (pre @ xs) acc'"
proof (induction xs arbitrary: pre acc)
  case Nil
  then show ?case by simp
next
  case (Cons x xs)
  obtain k run self ext where x: "x = (k, run)" "acc = (self, ext)" by (cases x, cases acc) simp
  have ok: "runs_ok (pre @ [(k, run)])"
    using Cons.prems(1) by (auto simp: x runs_ok_def bt_sorted_def sorted_wrt_append)
  obtain acc' where acc': "extract_step s e x acc = Some acc'" "extract_inv s e (pre @ [(k, run)]) acc'"
    using extract_step_disjoint [OF se _ ok] extract_step_overlap [OF se _ ok] Cons.prems(2)
    unfolding x by (meson not_le)
  from Cons.IH [of "pre @ [(k, run)]" acc'] Cons.prems(1) acc' show ?case by (simp add: x)
qed

lemma extract_range_correct:
  assumes "rs_ok rs" and "s \<le> e"
  shows "\<exists>self ext. extract_range rs s e = Some (self, Some ext) \<and> rs_ok self \<and> rs_ok ext
    \<and> (\<forall>v. rs_map self v = (if s \<le> v \<and> v < e then None else rs_map rs v))
    \<and> (\<forall>v. rs_map ext v = (if v < e - s then rs_map rs (v + s) else None))
    \<and> rs_pages self + rs_pages ext = rs_pages rs"
proof -
  obtain acc where "extract_loop s e (rs_runs rs) (rs_new, rs_new) = Some acc"
      "extract_inv s e (rs_runs rs) acc"
    using extract_loop_correct [OF assms(2), of "[]" "rs_runs rs" "(rs_new, rs_new)"] assms(1)
      extract_inv_Nil [of s e]
    by (metis append_Nil rs_ok_def)
  then show ?thesis
    using assms(2) by (cases acc) (auto simp: extract_range_def extract_inv_def rs_map_def rs_pages_def)
qed

lemma rs_map_beyond:
  assumes "rs_ok rs" and "runs_end (rs_runs rs) = Some e" and "e \<le> v"
  shows "rs_map rs v = None"
proof -
  have ok: "runs_ok (rs_runs rs)" using assms(1) by (simp add: rs_ok_def)
  obtain s ps where l: "bt_last (rs_runs rs) = Some (s, ps)" "e = saturating_add s (length ps)"
    using assms(2) by (auto simp: runs_end_def)
  note last = bt_last_Some [OF runs_ok_sorted [OF ok] l(1)]
  have e: "e = s + length ps" using l(2) runs_ok_bound [OF ok] last by (simp add: saturating_add_eq)
  have "run_at t qs v = None" if "(t, qs) \<in> set (rs_runs rs)" for t qs
  proof (cases "t = s")
    case True
    with that have "qs = ps" using bt_sorted_inj [OF runs_ok_sorted [OF ok]] last by blast
    with True e assms(3) show ?thesis by (simp add: run_at_None)
  next
    case False
    with last that have "t < s" by force
    then have "t + length qs < s" using runs_ok_gap [OF ok that, of s ps] last by simp
    with e assms(3) show ?thesis by (simp add: run_at_None)
  qed
  then show ?thesis by (simp add: rs_map_def runs_map_None [OF ok])
qed

lemma rs_map_empty: "rs_runs rs = [] \<Longrightarrow> rs_map rs v = None"
  by (simp add: rs_map_def runs_map_def)

lemma runs_end_None: "runs_end m = None \<longleftrightarrow> m = []"
  by (simp add: runs_end_def bt_last_None)

text \<open>\<open>split_off\<close> keeps the pages below \<open>vpn\<close> and returns the rest, renumbered from zero.\<close>

lemma split_off_correct:
  assumes "rs_ok rs"
  shows "\<exists>self ext. split_off rs n = Some (self, Some ext) \<and> rs_ok self \<and> rs_ok ext
    \<and> (\<forall>v. rs_map self v = (if v < n then rs_map rs v else None))
    \<and> (\<forall>v. rs_map ext v = rs_map rs (v + n))
    \<and> rs_pages self + rs_pages ext = rs_pages rs"
proof (cases "n = 0")
  case True
  then show ?thesis using assms rs_map_empty [of rs_new] rs_ok_new
    by (simp add: split_off_def drain_all_def rs_pages_def runs_pages_def)
       (simp add: rs_new_def)
next
  case False
  let ?e = "max (case runs_end (rs_runs rs) of None \<Rightarrow> n | Some e \<Rightarrow> e) n"
  have beyond: "rs_map rs v = None" if "?e \<le> v" for v
    using that rs_map_beyond [OF assms] rs_map_empty runs_end_None
    by (cases "runs_end (rs_runs rs)") auto
  have "n \<le> ?e" by simp
  from extract_range_correct [OF assms this] obtain self ext where
    E: "extract_range rs n ?e = Some (self, Some ext)" "rs_ok self" "rs_ok ext"
      "\<And>v. rs_map self v = (if n \<le> v \<and> v < ?e then None else rs_map rs v)"
      "\<And>v. rs_map ext v = (if v < ?e - n then rs_map rs (v + n) else None)"
      "rs_pages self + rs_pages ext = rs_pages rs" by blast
  have "rs_map self v = (if v < n then rs_map rs v else None)" for v
    using E(4) beyond by (cases "v < n") auto
  moreover have "rs_map ext v = rs_map rs (v + n)" for v
    using E(5) beyond [of "v + n"] by (cases "v < ?e - n") auto
  ultimately show ?thesis using False E by (auto simp: split_off_def)
qed

text \<open>\<open>merge_from_at\<close>: the other set's pages reappear shifted by \<open>offset\<close>.\<close>

lemma merge_runs_correct:
  "rs_ok rs \<Longrightarrow> runs_ok m \<Longrightarrow> \<forall>x \<in> set m. fst x + length (snd x) + off \<le> usize_max \<Longrightarrow>
   \<forall>v. runs_map m v \<noteq> None \<longrightarrow> rs_map rs (v + off) = None \<Longrightarrow>
   \<exists>rs'. merge_runs off m rs = Some rs' \<and> rs_ok rs' \<and> rs_pages rs' = rs_pages rs + runs_pages m
     \<and> (\<forall>v. rs_map rs' v = (if off \<le> v \<and> runs_map m (v - off) \<noteq> None then runs_map m (v - off) else rs_map rs v))"
proof (induction m arbitrary: rs)
  case Nil
  then show ?case by (simp add: runs_pages_def runs_map_def)
next
  case (Cons x m)
  obtain k run where x: "x = (k, run)" by (cases x)
  have ok: "runs_ok m" using Cons.prems(2) by (auto simp: runs_ok_def x)
  have kr: "run \<noteq> []" "k + length run + off \<le> usize_max"
    using Cons.prems(2,3) by (auto simp: runs_ok_def x)
  have at: "runs_map ((k, run) # m) v = (case run_at k run v of Some p \<Rightarrow> Some p | None \<Rightarrow> runs_map m v)" for v
    by (auto simp: runs_map_def split: option.splits)
  have sep: "runs_map m v = None" if "run_at k run v \<noteq> None" for v
  proof -
    have gap: "\<forall>y \<in> set m. k + length run < fst y" using Cons.prems(2) by (fastforce simp: runs_ok_def x)
    have "v < k + length run" using that by (auto simp: run_at_None)
    then have "run_at t qs v = None" if "(t, qs) \<in> set m" for t qs
      using bspec [OF gap that] by (simp add: run_at_None)
    then show ?thesis by (simp add: runs_map_None [OF ok])
  qed
  have "\<forall>v. k + off \<le> v \<and> v < k + off + length run \<longrightarrow> rs_map rs v = None"
  proof (intro allI impI)
    fix v assume v: "k + off \<le> v \<and> v < k + off + length run"
    then have "run_at k run (v - off) \<noteq> None" by (auto simp: run_at_None)
    with at have "runs_map (x # m) (v - off) \<noteq> None" by (auto simp: x split: option.splits)
    with Cons.prems(4) v show "rs_map rs v = None" by fastforce
  qed
  from insert_or_panic_free [OF Cons.prems(1) _ kr(1) this] obtain rs1 where
    r1: "insert_or_panic rs (k + off) run = Some rs1" "rs_ok rs1"
      "\<And>v. rs_map rs1 v = join_run (rs_runs rs) (k + off) run v" "rs_pages rs1 = rs_pages rs + mset run"
    using kr(2) by (auto simp: ac_simps)
  have shift: "run_at (k + off) run v = (if off \<le> v then run_at k run (v - off) else None)" for v
    by (auto simp: run_at_def ac_simps)
  have "\<forall>v. runs_map m v \<noteq> None \<longrightarrow> rs_map rs1 (v + off) = None"
  proof (intro allI impI)
    fix v assume v: "runs_map m v \<noteq> None"
    then have "run_at k run v = None" using sep [of v] by (cases "run_at k run v") auto
    moreover have "rs_map rs (v + off) = None" using Cons.prems(4) v at x calculation by auto
    ultimately show "rs_map rs1 (v + off) = None" by (simp add: r1(3) join_run_map shift)
  qed
  from Cons.IH [OF r1(2) ok _ this] Cons.prems(3) obtain rs' where
    r': "merge_runs off m rs1 = Some rs'" "rs_ok rs'" "rs_pages rs' = rs_pages rs1 + runs_pages m"
      "\<And>v. rs_map rs' v = (if off \<le> v \<and> runs_map m (v - off) \<noteq> None then runs_map m (v - off) else rs_map rs1 v)"
    by auto
  have sat: "saturating_add k off = k + off" using kr(2) by (simp add: saturating_add_eq)
  have "rs_map rs' v = (if off \<le> v \<and> runs_map (x # m) (v - off) \<noteq> None
      then runs_map (x # m) (v - off) else rs_map rs v)" for v
  proof (cases "off \<le> v \<and> run_at k run (v - off) \<noteq> None")
    case True
    then have "runs_map m (v - off) = None" using sep by simp
    then show ?thesis using True by (auto simp: x r'(4) r1(3) join_run_def shift at)
  next
    case False
    then show ?thesis by (auto simp: x r'(4) r1(3) join_run_map shift at)
  qed
  moreover have "merge_runs off (x # m) rs = Some rs'" by (simp add: x sat r1(1) r'(1))
  moreover have "rs_pages rs' = rs_pages rs + runs_pages (x # m)"
    by (simp add: r'(3) r1(4) runs_pages_def x)
  ultimately show ?case using r'(2) by blast
qed

lemma rs_map_bound:
  assumes "rs_ok rs" "rs_map rs v \<noteq> None"
  shows "v < usize_max"
proof -
  have ok: "runs_ok (rs_runs rs)" using assms(1) by (simp add: rs_ok_def)
  obtain s ps where "(s, ps) \<in> set (rs_runs rs)" "run_at s ps v \<noteq> None"
    using assms(2) runs_map_None [OF ok] by (auto simp: rs_map_def)
  then show ?thesis using runs_ok_bound [OF ok, of s ps] by (simp add: run_at_None split: if_splits)
qed

lemma merge_from_at_correct:
  assumes "rs_ok rs" "rs_ok oth"
    and fits: "\<And>v. rs_map oth v \<noteq> None \<Longrightarrow> v + off < usize_max \<and> rs_map rs (v + off) = None"
  shows "\<exists>rs'. merge_from_at rs off oth = Some (rs', rs_new) \<and> rs_ok rs'
    \<and> rs_pages rs' = rs_pages rs + rs_pages oth
    \<and> (\<forall>v. rs_map rs' v = (if off \<le> v \<and> rs_map oth (v - off) \<noteq> None then rs_map oth (v - off) else rs_map rs v))"
proof -
  have ok: "runs_ok (rs_runs oth)" using assms(2) by (simp add: rs_ok_def)
  have "s + length ps + off \<le> usize_max" if sp: "(s, ps) \<in> set (rs_runs oth)" for s ps
  proof -
    have "ps \<noteq> []" by (rule runs_ok_nonempty [OF ok sp])
    then have "run_at s ps (s + length ps - 1) \<noteq> None" by (cases ps) (auto simp: run_at_None)
    then have "rs_map oth (s + length ps - 1) \<noteq> None"
      using sp runs_map_None [OF ok, of "s + length ps - 1"] by (auto simp: rs_map_def)
    from fits [OF this] \<open>ps \<noteq> []\<close> show ?thesis by (cases ps) auto
  qed
  then have "\<forall>x \<in> set (rs_runs oth). fst x + length (snd x) + off \<le> usize_max" by auto
  moreover have "\<forall>v. runs_map (rs_runs oth) v \<noteq> None \<longrightarrow> rs_map rs (v + off) = None"
    using fits by (simp add: rs_map_def)
  ultimately have "\<exists>rs'. merge_runs off (rs_runs oth) rs = Some rs' \<and> rs_ok rs'
    \<and> rs_pages rs' = rs_pages rs + runs_pages (rs_runs oth)
    \<and> (\<forall>v. rs_map rs' v = (if off \<le> v \<and> runs_map (rs_runs oth) (v - off) \<noteq> None
       then runs_map (rs_runs oth) (v - off) else rs_map rs v))"
    by (rule merge_runs_correct [OF assms(1) ok])
  then show ?thesis unfolding merge_from_at_def rs_pages_def rs_map_def by fastforce
qed

section \<open>Updating a page in place\<close>

lemma runs_map_update:
  assumes "runs_ok m" "(s, run) \<in> set m" "length run' = length run"
  shows "runs_ok (bt_insert s run' m)"
    and "runs_map (bt_insert s run' m) v = (case run_at s run' v of Some p \<Rightarrow> Some p | None \<Rightarrow> runs_map m v)"
    and "runs_pages (bt_insert s run' m) + mset run = runs_pages m + mset run'"
proof -
  note sorted = runs_ok_sorted [OF assms(1)]
  let ?r = "bt_remove s m"
  have ins: "bt_insert s run' m = bt_insert s run' ?r"
    using sorted assms(2) by (induction s m rule: bt_remove.induct) (auto, (case_tac m, auto)+)
  have okr: "runs_ok ?r" by (rule runs_ok_remove [OF assms(1)])
  have ne: "run' \<noteq> []" using runs_ok_nonempty [OF assms(1,2)] assms(3) by auto
  have bd: "s + length run' \<le> usize_max" using runs_ok_bound [OF assms(1,2)] assms(3) by simp
  have "spaced ?r s (length run')"
    unfolding spaced_def
  proof
    fix x assume x: "x \<in> set ?r"
    obtain t qs where tq: "x = (t, qs)" by (cases x)
    have m: "(t, qs) \<in> set m" "t \<noteq> s" using x by (auto simp: tq set_bt_remove [OF sorted])
    show "fst x + length (snd x) < s \<or> s + length run' < fst x"
      using runs_ok_gap [OF assms(1) m(1) assms(2)] runs_ok_gap [OF assms(1,2) m(1)] m(2) assms(3)
      by (simp add: tq) linarith
  qed
  from runs_ok_insert [OF okr this ne bd] runs_map_insert [OF okr this ne bd]
  show "runs_ok (bt_insert s run' m)"
    and "runs_map (bt_insert s run' m) v = (case run_at s run' v of Some p \<Rightarrow> Some p | None \<Rightarrow> runs_map m v)"
    unfolding ins using runs_map_remove [OF assms(1,2), of v] assms(3)
    by (auto simp: join_run_def run_at_def split: option.splits)
  have "s \<notin> fst ` set ?r" by (auto simp: set_bt_remove [OF sorted])
  from runs_pages_insert [OF runs_ok_sorted [OF okr] this, of run']
  show "runs_pages (bt_insert s run' m) + mset run = runs_pages m + mset run'"
    unfolding ins using runs_pages_remove [OF sorted assms(2)] by (simp add: ac_simps)
qed

lemma rs_lookup_mut_correct:
  assumes "rs_ok rs" "rs_map rs v = Some p"
  shows "\<exists>rs'. rs_lookup_mut rs v f = Some rs' \<and> rs_ok rs' \<and> rs_map rs' = (rs_map rs)(v \<mapsto> f p)
    \<and> rs_pages rs' + {#p#} = rs_pages rs + {#f p#}"
proof -
  have ok: "runs_ok (rs_runs rs)" using assms(1) by (simp add: rs_ok_def)
  from runs_lookup_correct [OF ok, of v] assms(2) have "runs_lookup (rs_runs rs) v = Some p"
    by (simp add: rs_map_def)
  then obtain s run where L: "bt_last_le v (rs_runs rs) = Some (s, run)" "s \<le> v" "v - s < length run"
      "p = run ! (v - s)"
    by (auto simp: runs_lookup_def checked_sub_def split: option.splits if_splits)
  have mem: "(s, run) \<in> set (rs_runs rs)" using L(1) bt_last_le_iff [OF runs_ok_sorted [OF ok]] by blast
  define run' where "run' = run[v - s := f p]"
  have len: "length run' = length run" by (simp add: run'_def)
  note U = runs_map_update [OF ok mem len]
  have "v - s < length run" using L(3) .
  then have ms: "mset run' + {#p#} = mset run + {#f p#}"
    by (simp add: run'_def mset_update L(4))
  have pg: "runs_pages (bt_insert s run' (rs_runs rs)) + {#p#} = runs_pages (rs_runs rs) + {#f p#}"
  proof -
    have "runs_pages (bt_insert s run' (rs_runs rs)) + {#p#} + mset run = runs_pages (rs_runs rs) + (mset run' + {#p#})"
      using U(3) by (simp add: ac_simps)
    then show ?thesis unfolding ms by (simp add: ac_simps)
  qed
  have old: "runs_map (rs_runs rs) w = run_at s run w" if w: "run_at s run w \<noteq> None" for w
  proof -
    obtain q where "run_at s run w = Some q" using w by auto
    with mem have "runs_map (rs_runs rs) w = Some q" unfolding runs_map_Some [OF ok] by blast
    with \<open>run_at s run w = Some q\<close> show ?thesis by simp
  qed
  have upd: "run_at s run' w = (if w = v then Some (f p) else run_at s run w)" for w
  proof (cases "s \<le> w \<and> w < s + length run")
    case True
    then have "w - s = v - s \<longleftrightarrow> w = v" "w - s < length run" using L(2) by auto
    then show ?thesis using True by (cases "w = v") (simp_all add: run'_def run_at_def nth_list_update_neq)
  next
    case False
    then have "w \<noteq> v" using L(2,3) by auto
    with False show ?thesis by (simp only: run_at_def len) simp
  qed
  have "runs_map (bt_insert s run' (rs_runs rs)) w = ((runs_map (rs_runs rs))(v \<mapsto> f p)) w" for w
    using old [of w] by (cases "run_at s run w") (simp_all add: U(2) upd)
  moreover have "runs_size (bt_insert s run' (rs_runs rs)) = runs_size (rs_runs rs)"
    using arg_cong [OF pg, of size] by (simp add: runs_size_pages)
  moreover have "rs_lookup_mut rs v f = Some (rs\<lparr>rs_runs := bt_insert s run' (rs_runs rs)\<rparr>)"
    using L by (simp add: rs_lookup_mut_def checked_sub_def run'_def)
  ultimately show ?thesis using assms(1) U(1) pg by (auto simp: rs_ok_def rs_map_def rs_pages_def fun_eq_iff)
qed

lemma rs_lookup_mut_None: "rs_ok rs \<Longrightarrow> rs_map rs v = None \<Longrightarrow> rs_lookup_mut rs v f = None"
  using rs_lookup_map [of rs v]
  by (auto simp: rs_lookup_mut_def rs_lookup_def runs_lookup_def split: option.splits if_splits)

lemma runs_map_image:
  "runs_map (map (\<lambda>(s, run). (s, map f run)) m) v = map_option f (runs_map m v)"
proof (induction m)
  case Nil
  then show ?case by (simp add: runs_map_def)
next
  case (Cons x m)
  then show ?case by (cases x) (auto simp: runs_map_def run_at_def)
qed

lemma rs_iter_mut_correct:
  assumes "rs_ok rs"
  shows "rs_ok (rs_iter_mut rs f)" and "rs_map (rs_iter_mut rs f) v = map_option f (rs_map rs v)"
    and "rs_pages (rs_iter_mut rs f) = image_mset f (rs_pages rs)"
proof -
  let ?g = "\<lambda>(s :: nat, run). (s, map f run)"
  have keys: "fst \<circ> ?g = fst" by (auto simp: fun_eq_iff)
  have pg: "runs_pages (map ?g m) = image_mset f (runs_pages m)" for m
    by (induction m) (auto simp: runs_pages_def)
  have shape: "fst (?g x) = fst x" "length (snd (?g x)) = length (snd x)" "snd (?g x) = [] \<longleftrightarrow> snd x = []" for x
    by (cases x; simp)+
  have "runs_ok (map ?g m)" if "runs_ok m" for m
    using that unfolding runs_ok_def bt_sorted_def by (simp add: keys shape)
  then show "rs_ok (rs_iter_mut rs f)" "rs_pages (rs_iter_mut rs f) = image_mset f (rs_pages rs)"
    using assms by (simp_all add: rs_ok_def rs_iter_mut_def runs_size_pages rs_pages_def pg)
  show "rs_map (rs_iter_mut rs f) v = map_option f (rs_map rs v)"
    by (simp add: rs_iter_mut_def rs_map_def runs_map_image)
qed

section \<open>The store as an interface\<close>

text \<open>
  What the owner of a resident store relies on: the pages of a store are a map from page
  numbers, a split cuts the map in two, and a merge puts the second half back where it was.
\<close>

locale resident_store =
  fixes inv :: "'s \<Rightarrow> bool"
    and mp :: "'s \<Rightarrow> usize \<Rightarrow> 'p option"
    and pages :: "'s \<Rightarrow> 'p multiset"
    and empty :: 's
    and split :: "'s \<Rightarrow> usize \<Rightarrow> ('s \<times> 's option) option"
    and merge_at :: "'s \<Rightarrow> usize \<Rightarrow> 's \<Rightarrow> ('s \<times> 's) option"
  assumes bound: "inv s \<Longrightarrow> mp s v \<noteq> None \<Longrightarrow> v < usize_max"
    and split_law: "inv s \<Longrightarrow> \<exists>a b. split s n = Some (a, Some b) \<and> inv a \<and> inv b
      \<and> (\<forall>v. mp a v = (if v < n then mp s v else None)) \<and> (\<forall>v. mp b v = mp s (v + n))
      \<and> pages a + pages b = pages s"
    and merge_law: "inv a \<Longrightarrow> inv b \<Longrightarrow>
      (\<And>v. mp b v \<noteq> None \<Longrightarrow> v + n < usize_max \<and> mp a (v + n) = None) \<Longrightarrow>
      \<exists>s. merge_at a n b = Some (s, empty) \<and> inv s \<and> pages s = pages a + pages b
      \<and> (\<forall>v. mp s v = (if n \<le> v \<and> mp b (v - n) \<noteq> None then mp b (v - n) else mp a v))"
begin

lemma merge_after_split:
  assumes "inv s" and "split s n = Some (a, Some b)"
  shows "\<exists>s'. merge_at a n b = Some (s', empty) \<and> inv s' \<and> mp s' = mp s \<and> pages s' = pages s"
proof -
  obtain a' b' where L: "split s n = Some (a', Some b')" "inv a'" "inv b'"
      "\<And>v. mp a' v = (if v < n then mp s v else None)" "\<And>v. mp b' v = mp s (v + n)"
      "pages a' + pages b' = pages s"
    using split_law [OF assms(1), of n] by blast
  have eq: "a' = a" "b' = b" using L(1) assms(2) by auto
  have "v + n < usize_max \<and> mp a (v + n) = None" if "mp b v \<noteq> None" for v
    using bound [OF assms(1), of "v + n"] L(4) [of "v + n"] L(5) [of v] that by (simp add: eq)
  from merge_law [OF _ _ this] L(2,3) obtain s' where S: "merge_at a n b = Some (s', empty)"
      "inv s'" "pages s' = pages a + pages b"
      "\<And>v. mp s' v = (if n \<le> v \<and> mp b (v - n) \<noteq> None then mp b (v - n) else mp a v)"
    unfolding eq by blast
  have "mp s' v = mp s v" for v
    using L(4) [of v] L(5) [of "v - n"] by (auto simp: S(4) eq)
  then show ?thesis using S(1,2,3) L(6) eq by auto
qed

end

interpretation resident: resident_store rs_ok rs_map rs_pages rs_new split_off merge_from_at
proof unfold_locales
  show "v < usize_max" if "rs_ok s" "rs_map s v \<noteq> None" for s v
    by (rule rs_map_bound [OF that])
  show "\<exists>a b. split_off s n = Some (a, Some b) \<and> rs_ok a \<and> rs_ok b
      \<and> (\<forall>v. rs_map a v = (if v < n then rs_map s v else None)) \<and> (\<forall>v. rs_map b v = rs_map s (v + n))
      \<and> rs_pages a + rs_pages b = rs_pages s" if "rs_ok s" for s n
    by (rule split_off_correct [OF that])
  show "\<exists>s. merge_from_at a n b = Some (s, rs_new) \<and> rs_ok s \<and> rs_pages s = rs_pages a + rs_pages b
      \<and> (\<forall>v. rs_map s v = (if n \<le> v \<and> rs_map b (v - n) \<noteq> None then rs_map b (v - n) else rs_map a v))"
    if "rs_ok a" "rs_ok b" "\<And>v. rs_map b v \<noteq> None \<Longrightarrow> v + n < usize_max \<and> rs_map a (v + n) = None" for a b n
    by (rule merge_from_at_correct [OF that])
qed

section \<open>The properties of the store\<close>

text \<open>Inserting a block of pages either hands every page back and changes nothing, exactly
  when the block is empty or meets a resident page, or yields a canonical set whose map is the old
  one extended by the block, whose count and owned pages grow by exactly the block.\<close>

theorem insert_run_refines:
  assumes "rs_ok rs" and "start + length pages \<le> usize_max"
  shows "(if pages = [] \<or> (\<exists>v. start \<le> v \<and> v < start + length pages \<and> rs_map rs v \<noteq> None)
    then insert_run_pages rs start pages = Inl pages
    else \<exists>rs'. insert_run_pages rs start pages = Inr rs' \<and> rs_ok rs'
      \<and> (\<forall>v. rs_map rs' v = (if start \<le> v \<and> v < start + length pages
              then Some (pages ! (v - start)) else rs_map rs v))
      \<and> rs_len rs' = rs_len rs + length pages \<and> rs_pages rs' = rs_pages rs + mset pages)"
proof (cases "insert_run_pages rs start pages")
  case (Inl ps)
  then have "insert_run_pages rs start pages = Inl pages"
    by (simp add: insert_run_pages_def split: if_splits)
  then show ?thesis using insert_run_pages_Inl [OF assms] by auto
next
  case (Inr rs')
  note I = insert_run_pages_Inr [OF assms Inr]
  have "rs_len rs' = rs_len rs + length pages"
    using rs_len_pages [OF I(1)] rs_len_pages [OF assms(1)] I(3) by simp
  moreover have "\<not> (\<exists>ps. insert_run_pages rs start pages = Inl ps)" using Inr by simp
  ultimately show ?thesis using insert_run_pages_Inl [OF assms] I Inr
    by (simp add: join_run_map run_at_def)
qed

text \<open>A store with the runs 2--3 and 6, used by the concrete instances below.\<close>

definition sample_store :: ResidentSet where
  "sample_store = \<lparr>rs_runs = [(2, [page_new 10, page_new 11]), (6, [page_with_state 12 Cow])], rs_count = 3\<rparr>"

lemma sample_store_ok: "rs_ok sample_store"
  by (simp add: sample_store_def rs_ok_def runs_ok_def runs_size_def usize_max_def)

theorem insert_run_refines_witness:
  "rs_ok sample_store \<and> (4 :: usize) + length [page_new 20, page_new 21] \<le> usize_max
   \<and> (\<exists>rs'. insert_run_pages sample_store 4 [page_new 20, page_new 21] = Inr rs' \<and> rs_len rs' = 5)"
proof -
  have "(4 :: usize) + length [page_new 20, page_new 21] \<le> usize_max" by (simp add: usize_max_def)
  moreover have "\<not> (\<exists>v. 4 \<le> v \<and> v < 4 + length [page_new 20, page_new 21] \<and> rs_map sample_store v \<noteq> None)"
    by (auto simp: sample_store_def rs_map_def runs_map_def run_at_def)
  moreover have "rs_len sample_store = 3" by (simp add: sample_store_def rs_len_def)
  ultimately show ?thesis
    using insert_run_refines [OF sample_store_ok, of 4 "[page_new 20, page_new 21]"] sample_store_ok
    by (auto split: if_splits)
qed

text \<open>\<open>extract_range\<close> never reaches one of its \<open>unreachable!\<close> branches: it cuts the window
  out of the map, hands it back renumbered from zero, leaves both sets canonical, and every
  page ends up in exactly one of the two.\<close>

theorem extract_range_refines:
  assumes "rs_ok rs" and "s \<le> e"
  shows "\<exists>self ext. extract_range rs s e = Some (self, Some ext) \<and> rs_ok self \<and> rs_ok ext
    \<and> (\<forall>v. rs_lookup self v = (if s \<le> v \<and> v < e then None else rs_lookup rs v))
    \<and> (\<forall>v. rs_lookup ext v = (if v < e - s then rs_lookup rs (v + s) else None))
    \<and> rs_pages self + rs_pages ext = rs_pages rs \<and> rs_len self + rs_len ext = rs_len rs"
proof -
  obtain self ext where E: "extract_range rs s e = Some (self, Some ext)" "rs_ok self" "rs_ok ext"
      "\<forall>v. rs_map self v = (if s \<le> v \<and> v < e then None else rs_map rs v)"
      "\<forall>v. rs_map ext v = (if v < e - s then rs_map rs (v + s) else None)"
      "rs_pages self + rs_pages ext = rs_pages rs"
    using extract_range_correct [OF assms] by blast
  have "size (rs_pages self) + size (rs_pages ext) = size (rs_pages rs)"
    using arg_cong [OF E(6), of size] by simp
  then show ?thesis using E assms(1) by (auto simp: rs_lookup_map rs_len_pages)
qed

theorem extract_range_refines_witness:
  "rs_ok sample_store \<and> (3 :: usize) \<le> 7 \<and>
   (\<exists>self ext. extract_range sample_store 3 7 = Some (self, Some ext)
      \<and> rs_lookup self 2 = Some (page_new 10) \<and> rs_lookup ext 0 = Some (page_new 11)
      \<and> rs_lookup ext 3 = Some (page_with_state 12 Cow))"
proof -
  have "rs_lookup sample_store 2 = Some (page_new 10)" "rs_lookup sample_store 3 = Some (page_new 11)"
    "rs_lookup sample_store 6 = Some (page_with_state 12 Cow)"
    by (simp_all add: sample_store_def rs_lookup_def runs_lookup_def bt_last_le_def checked_sub_def)
  then show ?thesis using extract_range_refines [OF sample_store_ok, of 3 7] sample_store_ok by auto
qed

end
