(* ===== verification/Map_Area.thy ===== *)
theory Map_Area
  imports Resident Kernel_Types
begin

unbundle bit_operations_syntax

text \<open>
  The virtual memory area of \<open>os/src/mm/map_area.rs\<close> (\<open>MapAreaBacking\<close>, \<open>MapArea\<close>) and the
  page-table flags of \<open>os/src/mm/page_table.rs\<close>. An area is a page-aligned address range with
  its access flags, its backing object and its resident pages; splitting an area and merging
  two neighbours are the topology operations \<open>munmap\<close>, \<open>mprotect\<close> and \<open>fork\<close> are built
  from. The theory shows that both keep every resident page at its virtual address and every
  file offset at its virtual address, and that they are inverse to each other.
\<close>

section \<open>Page-table flags\<close>

type_synonym PTEFlags = "16 word"
type_synonym MappingFlags = "64 word"
type_synonym VirtAddr = usize

definition PTE_V :: PTEFlags where "PTE_V = 1"
definition PTE_R :: PTEFlags where "PTE_R = 2"
definition PTE_W :: PTEFlags where "PTE_W = 4"
definition PTE_X :: PTEFlags where "PTE_X = 8"
definition PTE_U :: PTEFlags where "PTE_U = 16"
definition PTE_COW :: PTEFlags where "PTE_COW = 256"

definition MAP_U :: MappingFlags where "MAP_U = 2"
definition MAP_R :: MappingFlags where "MAP_R = 4"
definition MAP_W :: MappingFlags where "MAP_W = 8"
definition MAP_X :: MappingFlags where "MAP_X = 16"

lemmas pte_defs = PTE_V_def PTE_R_def PTE_W_def PTE_X_def PTE_U_def PTE_COW_def
lemmas map_flag_defs = MAP_U_def MAP_R_def MAP_W_def MAP_X_def

definition flags_contain :: "'a::len word \<Rightarrow> 'a word \<Rightarrow> bool" where
  "flags_contain fs f \<longleftrightarrow> fs AND f = f"

definition flags_intersect :: "'a::len word \<Rightarrow> 'a word \<Rightarrow> bool" where
  "flags_intersect fs f \<longleftrightarrow> fs AND f \<noteq> 0"

definition flags_remove :: "'a::len word \<Rightarrow> 'a word \<Rightarrow> 'a word" where
  "flags_remove fs f = fs AND NOT f"

text \<open>\<open>From<PTEFlags> for MappingFlags\<close>.\<close>

definition mapping_flags_from :: "PTEFlags \<Rightarrow> MappingFlags" where
  "mapping_flags_from flags =
     (let mf = 0;
          mf = (if flags_contain flags PTE_R then mf OR MAP_R else mf);
          mf = (if flags_contain flags PTE_W then mf OR MAP_W else mf);
          mf = (if flags_contain flags PTE_X then mf OR MAP_X else mf);
          mf = (if flags_contain flags PTE_U then mf OR MAP_U else mf)
      in mf)"

section \<open>Backing\<close>

datatype MapAreaBacking =
    Anonymous
  | AnonymousShared
  | File (bk_file: FileDescriptor) (bk_offset: usize) (bk_shared: bool)
  | SharedMemory (bk_shmid: usize) (bk_base: usize) (bk_shm_offset: usize)

fun split_right :: "MapAreaBacking \<Rightarrow> usize \<Rightarrow> MapAreaBacking" where
  "split_right Anonymous delta = Anonymous"
| "split_right AnonymousShared delta = AnonymousShared"
| "split_right (File file offset shared) delta = File file (saturating_add offset delta) shared"
| "split_right (SharedMemory shmid base offset) delta = SharedMemory shmid base (saturating_add offset delta)"

definition same_file :: "FileDescriptor \<Rightarrow> FileDescriptor \<Rightarrow> bool" where
  "same_file left right = same_file_identity left right"

fun backing_can_merge_with :: "MapAreaBacking \<Rightarrow> usize \<Rightarrow> MapAreaBacking \<Rightarrow> bool" where
  "backing_can_merge_with Anonymous left_len Anonymous = True"
| "backing_can_merge_with AnonymousShared left_len AnonymousShared = True"
| "backing_can_merge_with (File lf lo ls) left_len (File rf ro rsh) =
     (ls = rsh \<and> same_file lf rf \<and> saturating_add lo left_len = ro)"
| "backing_can_merge_with (SharedMemory li lb lo) left_len (SharedMemory ri rb ro) =
     (li = ri \<and> lb = rb \<and> saturating_add lo left_len = ro)"
| "backing_can_merge_with _ left_len _ = False"

section \<open>Areas\<close>

record MapArea =
  start_va :: VirtAddr
  end_va :: VirtAddr
  area_flags :: PTEFlags
  resident :: ResidentSet
  backing :: MapAreaBacking

definition with_backing :: "VirtAddr \<Rightarrow> VirtAddr \<Rightarrow> PTEFlags \<Rightarrow> MapAreaBacking \<Rightarrow> MapArea" where
  "with_backing s e fl b =
     \<lparr>start_va = s, end_va = e, area_flags = fl, resident = rs_new, backing = b\<rparr>"

definition area_new :: "VirtAddr \<Rightarrow> VirtAddr \<Rightarrow> PTEFlags \<Rightarrow> MapArea" where
  "area_new s e fl = with_backing s e fl Anonymous"

text \<open>\<open>size\<close> subtracts without a check: the areas of a memory set have \<open>start_va \<le> end_va\<close>.\<close>

definition area_size :: "MapArea \<Rightarrow> usize" where
  "area_size a = end_va a - start_va a"

definition area_contains :: "MapArea \<Rightarrow> VirtAddr \<Rightarrow> bool" where
  "area_contains a va \<longleftrightarrow> start_va a \<le> va \<and> va < end_va a"

definition page_count :: "MapArea \<Rightarrow> usize" where
  "page_count a = area_size a div PAGE_SIZE"

definition has_frames :: "MapArea \<Rightarrow> bool" where
  "has_frames a \<longleftrightarrow> \<not> rs_is_empty (resident a)"

definition extract_resident_range :: "MapArea \<Rightarrow> usize \<Rightarrow> usize \<Rightarrow> (MapArea \<times> ResidentSet) option" where
  "extract_resident_range a s e =
     (case extract_range (resident a) s e of
        None \<Rightarrow> None
      | Some (self, None) \<Rightarrow> Some (a\<lparr>resident := self\<rparr>, rs_new)
      | Some (self, Some out) \<Rightarrow> Some (a\<lparr>resident := self\<rparr>, out))"

definition append_resident :: "MapArea \<Rightarrow> FrameTracker \<Rightarrow> (FrameTracker + MapArea) option" where
  "append_resident a page =
     map_option (map_sum id (\<lambda>r. a\<lparr>resident := r\<rparr>)) (rs_insert (resident a) (rs_len (resident a)) page)"

definition insert_resident_page :: "MapArea \<Rightarrow> usize \<Rightarrow> FrameTracker \<Rightarrow> PageState \<Rightarrow> FrameTracker + MapArea" where
  "insert_resident_page a vpn page st =
     map_sum id (\<lambda>r. a\<lparr>resident := r\<rparr>) (insert_page_with_state (resident a) vpn (page_with_state page st))"

definition insert_resident_run ::
  "MapArea \<Rightarrow> usize \<Rightarrow> FrameTracker list \<Rightarrow> PageState \<Rightarrow> FrameTracker list + MapArea" where
  "insert_resident_run a vpn pages st =
     map_sum id (\<lambda>r. a\<lparr>resident := r\<rparr>) (insert_run_with_state (resident a) vpn pages st)"

text \<open>\<^const>\<open>Inl\<close> returns the unused frame, \<^const>\<open>Inr\<close> the replaced one with the new area.\<close>

definition replace_resident_page :: "MapArea \<Rightarrow> usize \<Rightarrow> FrameTracker \<Rightarrow> FrameTracker + (MapArea \<times> FrameTracker)" where
  "replace_resident_page a vpn frame =
     (case rs_lookup (resident a) vpn of
        None \<Rightarrow> Inl frame
      | Some old \<Rightarrow>
          (case rs_lookup_mut (resident a) vpn (\<lambda>p. p\<lparr>rp_frame := frame\<rparr>) of
             None \<Rightarrow> Inl frame
           | Some r \<Rightarrow> Inr (a\<lparr>resident := r\<rparr>, rp_frame old)))"

definition set_resident_state :: "MapArea \<Rightarrow> usize \<Rightarrow> PageState \<Rightarrow> MapArea \<times> bool" where
  "set_resident_state a vpn st =
     (case rs_lookup_mut (resident a) vpn (\<lambda>p. p\<lparr>rp_state := st\<rparr>) of
        None \<Rightarrow> (a, False)
      | Some r \<Rightarrow> (a\<lparr>resident := r\<rparr>, True))"

definition set_all_resident_state :: "MapArea \<Rightarrow> PageState \<Rightarrow> MapArea" where
  "set_all_resident_state a st = a\<lparr>resident := rs_iter_mut (resident a) (\<lambda>p. p\<lparr>rp_state := st\<rparr>)\<rparr>"

definition replace_resident :: "MapArea \<Rightarrow> FrameTracker list \<Rightarrow> (MapArea \<times> ResidentSet) option" where
  "replace_resident a pages = map_option (\<lambda>(r, old). (a\<lparr>resident := r\<rparr>, old)) (replace_all (resident a) pages)"

definition clone_resident_from :: "MapArea \<Rightarrow> MapArea \<Rightarrow> MapArea" where
  "clone_resident_from a src = a\<lparr>resident := resident src\<rparr>"

definition has_full_frames :: "MapArea \<Rightarrow> bool" where
  "has_full_frames a \<longleftrightarrow> rs_len (resident a) = page_count a"

definition area_overlaps :: "MapArea \<Rightarrow> usize \<Rightarrow> usize \<Rightarrow> bool" where
  "area_overlaps a s e \<longleftrightarrow> start_va a < e \<and> s < end_va a"

definition area_can_merge_with :: "MapArea \<Rightarrow> MapArea \<Rightarrow> bool" where
  "area_can_merge_with a nxt \<longleftrightarrow>
     end_va a = start_va nxt \<and> area_flags a = area_flags nxt
     \<and> backing_can_merge_with (backing a) (area_size a) (backing nxt)"

definition merge_with :: "MapArea \<Rightarrow> MapArea \<Rightarrow> MapArea option" where
  "merge_with a nxt =
     (let offset = page_count a
      in map_option (\<lambda>(r, _). a\<lparr>end_va := end_va nxt, resident := r\<rparr>)
           (merge_from_at (resident a) offset (resident nxt)))"

text \<open>The left part and, when the split happens, the right part.\<close>

definition split_at :: "MapArea \<Rightarrow> VirtAddr \<Rightarrow> (MapArea \<times> MapArea option) option" where
  "split_at a split =
     (if split \<le> start_va a \<or> end_va a \<le> split then Some (a, None)
      else if split mod PAGE_SIZE \<noteq> 0 then Some (a, None)
      else
        (let right_idx = (split - start_va a) div PAGE_SIZE
         in case (if rs_is_empty (resident a) then Some (resident a, Some rs_new)
                  else split_off (resident a) right_idx) of
              None \<Rightarrow> None
            | Some (left, None) \<Rightarrow> Some (a\<lparr>resident := left\<rparr>, None)
            | Some (left, Some right_resident) \<Rightarrow>
                Some (a\<lparr>end_va := split, resident := left\<rparr>,
                      Some \<lparr>start_va = split, end_va = end_va a, area_flags = area_flags a,
                             resident = right_resident,
                             backing = split_right (backing a) (split - start_va a)\<rparr>)))"

section \<open>What an area maps\<close>

text \<open>The resident page at a virtual address, and the backing object with the offset that a
  virtual address has in it.\<close>

definition area_page :: "MapArea \<Rightarrow> VirtAddr \<Rightarrow> ResidentPage option" where
  "area_page a va =
     (if area_contains a va then rs_map (resident a) ((va - start_va a) div PAGE_SIZE) else None)"

definition area_backing_at :: "MapArea \<Rightarrow> VirtAddr \<Rightarrow> MapAreaBacking" where
  "area_backing_at a va = split_right (backing a) (va - start_va a)"

definition area_ok :: "MapArea \<Rightarrow> bool" where
  "area_ok a \<longleftrightarrow> start_va a < end_va a \<and> end_va a \<le> usize_max
     \<and> start_va a mod PAGE_SIZE = 0 \<and> end_va a mod PAGE_SIZE = 0
     \<and> rs_ok (resident a) \<and> (\<forall>v. rs_map (resident a) v \<noteq> None \<longrightarrow> v < page_count a)"


lemma saturating_add_assoc: "saturating_add (saturating_add a b) c = saturating_add a (b + c)"
  by (simp add: saturating_add_def min_def)

lemma split_right_twice: "split_right (split_right b c) d = split_right b (c + d)"
  by (cases b) (simp_all add: saturating_add_assoc)

lemma rs_empty_map: "rs_ok rs \<Longrightarrow> rs_is_empty rs \<longleftrightarrow> rs_runs rs = []"
  by (cases "rs_runs rs") (auto simp: rs_is_empty_def rs_ok_def runs_size_def runs_ok_def)

lemma rs_empty_eq: "rs_ok rs \<Longrightarrow> rs_is_empty rs \<Longrightarrow> rs = rs_new"
  using rs_empty_map [of rs] by (cases rs) (simp add: rs_is_empty_def rs_new_def)

text \<open>\<open>split_at\<close> with its short cut for an empty set behaves as if it always called
  \<open>split_off\<close>.\<close>

lemma split_resident:
  assumes "rs_ok rs"
  shows "\<exists>l r. (if rs_is_empty rs then Some (rs, Some rs_new) else split_off rs n) = Some (l, Some r)
    \<and> rs_ok l \<and> rs_ok r \<and> (\<forall>v. rs_map l v = (if v < n then rs_map rs v else None))
    \<and> (\<forall>v. rs_map r v = rs_map rs (v + n)) \<and> rs_pages l + rs_pages r = rs_pages rs"
proof (cases "rs_is_empty rs")
  case True
  then have "rs = rs_new" by (rule rs_empty_eq [OF assms])
  moreover have "rs_map rs_new v = None" for v by (rule rs_map_empty) (simp add: rs_new_def)
  moreover have "rs_pages rs_new = {#}" by (simp add: rs_pages_def rs_new_def runs_pages_def)
  ultimately show ?thesis using True by simp
next
  case False
  then show ?thesis using split_off_correct [OF assms, of n] by simp
qed

lemma page_index_shift:
  assumes "(s :: nat) mod PAGE_SIZE = 0" "m mod PAGE_SIZE = 0" "s \<le> m" "m \<le> va"
  shows "(va - s) div PAGE_SIZE = (va - m) div PAGE_SIZE + (m - s) div PAGE_SIZE"
proof -
  obtain i where "s = i * PAGE_SIZE" using assms(1) by (metis page_div_mult)
  moreover obtain j where "m = j * PAGE_SIZE" using assms(2) by (metis page_div_mult)
  ultimately have "va - s = (va - m) + (j - i) * PAGE_SIZE" "m - s = (j - i) * PAGE_SIZE"
    using assms(3,4) by (auto simp: diff_mult_distrib)
  then show ?thesis by simp
qed

lemma page_index_below:
  assumes "(s :: nat) mod PAGE_SIZE = 0" "m mod PAGE_SIZE = 0" "s \<le> va"
  shows "(va - s) div PAGE_SIZE < (m - s) div PAGE_SIZE \<longleftrightarrow> va < m"
proof (cases "va < m")
  case True
  obtain i where i: "s = i * PAGE_SIZE" using assms(1) by (metis page_div_mult)
  obtain j where j: "m = j * PAGE_SIZE" using assms(2) by (metis page_div_mult)
  have "m - s = (j - i) * PAGE_SIZE" by (simp add: i j diff_mult_distrib)
  then have "va - s < (j - i) * PAGE_SIZE \<and> (m - s) div PAGE_SIZE = j - i"
    using True assms(3) by auto
  with True show ?thesis by (simp add: div_less_iff_less_mult)
next
  case False
  then have "(m - s) div PAGE_SIZE \<le> (va - s) div PAGE_SIZE" by (intro div_le_mono) simp
  with False show ?thesis by simp
qed

lemma split_at_correct:
  assumes ok: "area_ok a" and inside: "start_va a < m" "m < end_va a" and al: "m mod PAGE_SIZE = 0"
  shows "\<exists>l r. split_at a m = Some (l, Some r) \<and> area_ok l \<and> area_ok r
    \<and> start_va l = start_va a \<and> end_va l = m \<and> start_va r = m \<and> end_va r = end_va a
    \<and> area_flags l = area_flags a \<and> area_flags r = area_flags a
    \<and> backing l = backing a \<and> backing r = split_right (backing a) (m - start_va a)
    \<and> (\<forall>va. area_page l va = (if va < m then area_page a va else None))
    \<and> (\<forall>va. area_page r va = (if m \<le> va then area_page a va else None))
    \<and> rs_pages (resident l) + rs_pages (resident r) = rs_pages (resident a)"
proof -
  let ?n = "(m - start_va a) div PAGE_SIZE"
  have aligned: "start_va a mod PAGE_SIZE = 0" "end_va a mod PAGE_SIZE = 0" and rok: "rs_ok (resident a)"
    and top: "end_va a \<le> usize_max"
    and inr: "\<And>v. rs_map (resident a) v \<noteq> None \<Longrightarrow> v < page_count a"
    using ok by (auto simp: area_ok_def)
  obtain rl rr where S: "(if rs_is_empty (resident a) then Some (resident a, Some rs_new)
        else split_off (resident a) ?n) = Some (rl, Some rr)"
      "rs_ok rl" "rs_ok rr" "\<And>v. rs_map rl v = (if v < ?n then rs_map (resident a) v else None)"
      "\<And>v. rs_map rr v = rs_map (resident a) (v + ?n)" "rs_pages rl + rs_pages rr = rs_pages (resident a)"
    using split_resident [OF rok, of ?n] by blast
  define l where "l = a\<lparr>end_va := m, resident := rl\<rparr>"
  define r where "r = \<lparr>start_va = m, end_va = end_va a, area_flags = area_flags a, resident = rr,
    backing = split_right (backing a) (m - start_va a)\<rparr>"
  have sp: "split_at a m = Some (l, Some r)"
    using inside al by (simp only: split_at_def Let_def S(1)) (simp add: l_def r_def)
  have total: "page_count a = page_count r + ?n"
    using page_index_shift [OF aligned(1) al, of "end_va a"] inside
    by (simp add: page_count_def area_size_def r_def)
  have okl: "area_ok l" using inside aligned al top S(2,4)
    by (simp add: area_ok_def l_def page_count_def area_size_def split: if_splits)
  have "v < page_count r" if "rs_map rr v \<noteq> None" for v
    using inr [of "v + ?n"] that total by (simp add: S(5))
  then have okr: "area_ok r" using inside aligned al top S(3) by (simp add: area_ok_def r_def)
  have pl: "area_page l va = (if va < m then area_page a va else None)" for va
    using inside page_index_below [OF aligned(1) al, of va]
    by (simp add: area_page_def area_contains_def l_def S(4))
  have pr: "area_page r va = (if m \<le> va then area_page a va else None)" for va
    using inside page_index_shift [OF aligned(1) al, of va]
    by (simp add: area_page_def area_contains_def r_def S(5))
  from sp okl okr pl pr S(6) show ?thesis by (auto simp: l_def r_def)
qed

lemma merge_with_correct:
  assumes ok: "area_ok a" "area_ok b" and adj: "end_va a = start_va b"
  shows "\<exists>c. merge_with a b = Some c \<and> area_ok c \<and> start_va c = start_va a \<and> end_va c = end_va b
    \<and> area_flags c = area_flags a \<and> backing c = backing a
    \<and> (\<forall>va. area_page c va = (if va < end_va a then area_page a va else area_page b va))
    \<and> rs_pages (resident c) = rs_pages (resident a) + rs_pages (resident b)"
proof -
  let ?n = "page_count a"
  have al: "start_va a mod PAGE_SIZE = 0" "end_va a mod PAGE_SIZE = 0" "end_va b mod PAGE_SIZE = 0"
    and rok: "rs_ok (resident a)" "rs_ok (resident b)"
    and lt: "start_va a < end_va a" "start_va b < end_va b" "end_va b \<le> usize_max"
    and ina: "\<And>v. rs_map (resident a) v \<noteq> None \<Longrightarrow> v < page_count a"
    and inb: "\<And>v. rs_map (resident b) v \<noteq> None \<Longrightarrow> v < page_count b"
    using ok by (auto simp: area_ok_def)
  have n: "?n = (start_va b - start_va a) div PAGE_SIZE" by (simp add: page_count_def area_size_def adj)
  have total: "(end_va b - start_va a) div PAGE_SIZE = page_count b + ?n"
    using page_index_shift [OF al(1,2), of "end_va b"] lt adj by (simp add: page_count_def area_size_def)
  have "v + ?n < usize_max \<and> rs_map (resident a) (v + ?n) = None" if "rs_map (resident b) v \<noteq> None" for v
  proof -
    have "v < page_count b" by (rule inb [OF that])
    then have "v + ?n < (end_va b - start_va a) div PAGE_SIZE" by (simp add: total)
    also have "\<dots> \<le> end_va b - start_va a" by (rule div_le_dividend)
    finally have "v + ?n < usize_max" using lt(3) by simp
    then show ?thesis using ina [of "v + ?n"] by (cases "rs_map (resident a) (v + ?n)") auto
  qed
  from merge_from_at_correct [OF rok this] obtain r where R: "merge_from_at (resident a) ?n (resident b) = Some (r, rs_new)"
      "rs_ok r" "rs_pages r = rs_pages (resident a) + rs_pages (resident b)"
      "\<And>v. rs_map r v = (if ?n \<le> v \<and> rs_map (resident b) (v - ?n) \<noteq> None
        then rs_map (resident b) (v - ?n) else rs_map (resident a) v)" by blast
  define c where "c = a\<lparr>end_va := end_va b, resident := r\<rparr>"
  have "v < page_count b + ?n" if "rs_map r v \<noteq> None" for v
    using that ina [of v] inb [of "v - ?n"] by (auto simp: R(4) split: if_splits)
  then have okc: "area_ok c" using al lt adj R(2) total
    by (simp add: area_ok_def c_def page_count_def area_size_def)
  have "area_page c va = (if va < end_va a then area_page a va else area_page b va)" for va
  proof (cases "start_va a \<le> va \<and> va < end_va b")
    case False
    then show ?thesis using lt adj by (auto simp: area_page_def area_contains_def c_def)
  next
    case in_c: True
    show ?thesis
    proof (cases "va < end_va a")
      case True
      then have "\<not> ?n \<le> (va - start_va a) div PAGE_SIZE"
        using page_index_below [OF al(1,2), of va] in_c by (simp add: page_count_def area_size_def)
      then show ?thesis using True in_c by (simp add: area_page_def area_contains_def c_def R(4))
    next
      case False
      then have "(va - start_va a) div PAGE_SIZE = (va - start_va b) div PAGE_SIZE + ?n"
        using page_index_shift [OF al(1,2), of va] lt adj by (simp add: n)
      moreover have "rs_map (resident a) ((va - start_va b) div PAGE_SIZE + ?n) = None"
        using ina [of "(va - start_va b) div PAGE_SIZE + ?n"]
        by (cases "rs_map (resident a) ((va - start_va b) div PAGE_SIZE + ?n)") auto
      ultimately show ?thesis using False in_c adj
        by (auto simp: area_page_def area_contains_def c_def R(4))
    qed
  qed
  then show ?thesis using okc R(1,3) by (auto simp: merge_with_def c_def)
qed

section \<open>Frames and states of resident pages\<close>

lemma set_resident_state_correct:
  assumes "area_ok a"
  shows "rs_map (resident a) vpn = None \<Longrightarrow> set_resident_state a vpn st = (a, False)"
    and "rs_map (resident a) vpn = Some p \<Longrightarrow>
      \<exists>r. set_resident_state a vpn st = (a\<lparr>resident := r\<rparr>, True) \<and> area_ok (a\<lparr>resident := r\<rparr>)
        \<and> rs_map r = (rs_map (resident a))(vpn \<mapsto> p\<lparr>rp_state := st\<rparr>)"
proof -
  have ok: "rs_ok (resident a)" using assms by (simp add: area_ok_def)
  show "rs_map (resident a) vpn = None \<Longrightarrow> set_resident_state a vpn st = (a, False)"
    by (simp add: set_resident_state_def rs_lookup_mut_None [OF ok])
  assume m: "rs_map (resident a) vpn = Some p"
  from rs_lookup_mut_correct [OF ok m, of "\<lambda>p. p\<lparr>rp_state := st\<rparr>"] obtain r where
    r: "rs_lookup_mut (resident a) vpn (\<lambda>p. p\<lparr>rp_state := st\<rparr>) = Some r" "rs_ok r"
      "rs_map r = (rs_map (resident a))(vpn \<mapsto> p\<lparr>rp_state := st\<rparr>)" by blast
  have "vpn < page_count a" using assms m by (simp add: area_ok_def)
  then have "area_ok (a\<lparr>resident := r\<rparr>)"
    using assms r(2,3) by (auto simp: area_ok_def page_count_def area_size_def)
  then show "\<exists>r. set_resident_state a vpn st = (a\<lparr>resident := r\<rparr>, True) \<and> area_ok (a\<lparr>resident := r\<rparr>)
      \<and> rs_map r = (rs_map (resident a))(vpn \<mapsto> p\<lparr>rp_state := st\<rparr>)"
    using r by (auto simp: set_resident_state_def)
qed

section \<open>The properties of areas\<close>

definition backing_names_file :: "MapAreaBacking \<Rightarrow> bool" where
  "backing_names_file b = (case b of File f _ _ \<Rightarrow> fd_names_file f | _ \<Rightarrow> True)"

text \<open>Splitting an area at a page boundary inside it and merging the two halves gives an area
  with the same range, flags and backing in which every virtual address has its old resident
  page and which owns exactly the same pages; the two halves pass the merge test whenever the
  backing file has an identity, so a split caused by a partial operation can be healed.\<close>

theorem split_merge_roundtrip:
  assumes "area_ok a" and "start_va a < m" "m < end_va a" "m mod PAGE_SIZE = 0"
    and "backing_names_file (backing a)"
  shows "\<exists>l r c. split_at a m = Some (l, Some r) \<and> area_can_merge_with l r
    \<and> merge_with l r = Some c \<and> area_ok c \<and> start_va c = start_va a \<and> end_va c = end_va a
    \<and> area_flags c = area_flags a \<and> backing c = backing a \<and> area_page c = area_page a
    \<and> rs_pages (resident c) = rs_pages (resident a)"
proof -
  obtain l r where S: "split_at a m = Some (l, Some r)" "area_ok l" "area_ok r"
    "start_va l = start_va a" "end_va l = m" "start_va r = m" "end_va r = end_va a"
    "area_flags l = area_flags a" "area_flags r = area_flags a" "backing l = backing a"
    "backing r = split_right (backing a) (m - start_va a)"
    "\<And>va. area_page l va = (if va < m then area_page a va else None)"
    "\<And>va. area_page r va = (if m \<le> va then area_page a va else None)"
    "rs_pages (resident l) + rs_pages (resident r) = rs_pages (resident a)"
    using split_at_correct [OF assms(1-4)] by blast
  have "backing_can_merge_with (backing a) n (split_right (backing a) n)" for n
    using assms(5) by (cases "backing a") (auto simp: backing_names_file_def same_file_def same_file_identity_refl)
  then have "area_can_merge_with l r"
    by (simp add: area_can_merge_with_def area_size_def S)
  moreover obtain c where C: "merge_with l r = Some c" "area_ok c" "start_va c = start_va l"
    "end_va c = end_va r" "area_flags c = area_flags l" "backing c = backing l"
    "\<And>va. area_page c va = (if va < end_va l then area_page l va else area_page r va)"
    "rs_pages (resident c) = rs_pages (resident l) + rs_pages (resident r)"
    using merge_with_correct [OF S(2,3)] S(5,6) by auto
  moreover have "area_page c = area_page a" by (auto simp: fun_eq_iff C(7) S)
  ultimately show ?thesis using S by auto
qed

definition sample_area :: MapArea where
  "sample_area = \<lparr>start_va = 4096, end_va = 40960, area_flags = 23, resident = sample_store,
     backing = File (Ext4Regular \<lparr>er_ino = 12, er_offset = 0, er_ofd_owner = 1, er_readable = True,
       er_writable = False, er_append = False\<rparr>) 8192 False\<rparr>"

lemma sample_area_ok: "area_ok sample_area"
  unfolding area_ok_def
  by (simp add: sample_area_def sample_store_ok PAGE_SIZE_def usize_max_def page_count_def area_size_def)
     (auto simp: sample_store_def rs_map_def runs_map_def run_at_def split: if_splits)

theorem split_merge_roundtrip_witness:
  "area_ok sample_area \<and> start_va sample_area < 16384 \<and> 16384 < end_va sample_area \<and> (16384 :: nat) mod PAGE_SIZE = 0
   \<and> (\<exists>l r c. split_at sample_area 16384 = Some (l, Some r) \<and> area_can_merge_with l r
      \<and> merge_with l r = Some c \<and> area_page c = area_page sample_area)"
proof -
  have "start_va sample_area < 16384" "16384 < end_va sample_area" "(16384 :: nat) mod PAGE_SIZE = 0"
    by (simp_all add: sample_area_def PAGE_SIZE_def)
  moreover have "backing_names_file (backing sample_area)"
    by (simp add: sample_area_def backing_names_file_def fd_names_file_def)
  ultimately show ?thesis using split_merge_roundtrip [OF sample_area_ok, of 16384] sample_area_ok by auto
qed

text \<open>A split moves no page and no file offset: at every virtual address of the area the half
  that contains the address has the resident page and the offset into the backing object that
  the area had there before.\<close>

theorem split_keeps_addresses:
  assumes "area_ok a" and "start_va a < m" "m < end_va a" "m mod PAGE_SIZE = 0" and "area_contains a va"
  shows "\<exists>l r. split_at a m = Some (l, Some r) \<and> area_ok l \<and> area_ok r
    \<and> (if va < m
        then area_contains l va \<and> \<not> area_contains r va \<and> area_page l va = area_page a va
             \<and> area_backing_at l va = area_backing_at a va
        else area_contains r va \<and> \<not> area_contains l va \<and> area_page r va = area_page a va
             \<and> area_backing_at r va = area_backing_at a va)"
proof -
  obtain l r where "split_at a m = Some (l, Some r)" "area_ok l" "area_ok r"
    "start_va l = start_va a" "end_va l = m" "start_va r = m" "end_va r = end_va a"
    "backing l = backing a" "backing r = split_right (backing a) (m - start_va a)"
    "\<And>va. area_page l va = (if va < m then area_page a va else None)"
    "\<And>va. area_page r va = (if m \<le> va then area_page a va else None)"
    using split_at_correct [OF assms(1-4)] by blast
  then show ?thesis using assms(2,3,5)
    by (auto simp: area_contains_def area_backing_at_def split_right_twice)
qed

theorem split_keeps_addresses_witness:
  "area_contains sample_area 20480 \<and>
   (\<exists>l r. split_at sample_area 16384 = Some (l, Some r)
      \<and> area_backing_at r 20480 = area_backing_at sample_area 20480)"
proof -
  have "start_va sample_area < 16384" "16384 < end_va sample_area" "(16384 :: nat) mod PAGE_SIZE = 0"
    "area_contains sample_area 20480"
    by (simp_all add: sample_area_def PAGE_SIZE_def area_contains_def)
  then show ?thesis using split_keeps_addresses [OF sample_area_ok, of 16384 20480] by auto
qed

end
