(* ===== verification/Fd_Table.thy ===== *)
theory Fd_Table
  imports Kernel_Types
begin

unbundle bit_operations_syntax

text \<open>
  The per-process descriptor table \<open>FileDescriptorTable\<close> of \<open>os/src/fs/fd.rs\<close>: a fixed vector of
  slots with descriptor flags, a cached search hint and a cached number of close-on-exec slots.
  Cloning and dropping an open file have effects outside the table (pipe end counts, wake-ups),
  so every operation returns, beside its result and the new table, the sequence of clones and
  drops it performs; the pipe component interprets them. The theory shows that the two cached
  fields are always exact, that the cached hint makes allocation return the lowest free
  descriptor as POSIX requires, and that no open file is ever lost or duplicated.
\<close>

section \<open>State\<close>

definition MAX_FD_NUM :: usize where "MAX_FD_NUM = 1024"
definition FD_CLOEXEC :: usize where "FD_CLOEXEC = 1"

datatype fd_event = CloneFd FileDescriptor | DropFd FileDescriptor

record FileDescriptorTable =
  fds :: "FileDescriptor option list"
  fd_flags :: "usize list"
  next_fd_hint :: usize
  cloexec_count :: usize

definition fdt_new :: FileDescriptorTable where
  "fdt_new = \<lparr>fds = [Some Stdin, Some Stdout, Some Stderr] @ replicate (MAX_FD_NUM - 3) None,
     fd_flags = replicate MAX_FD_NUM 0, next_fd_hint = 3, cloexec_count = 0\<rparr>"

definition count_cloexec :: "usize \<Rightarrow> usize" where
  "count_cloexec flags = (if flags AND FD_CLOEXEC \<noteq> 0 then 1 else 0)"

section \<open>Slots\<close>

text \<open>The callers of the slot operations pass an index below \<open>MAX_FD_NUM\<close>, the length of both
  vectors, so the indexing never panics.\<close>

definition opt_drop :: "FileDescriptor option \<Rightarrow> fd_event list" where
  "opt_drop f = (case f of None \<Rightarrow> [] | Some g \<Rightarrow> [DropFd g])"

definition set_slot ::
  "FileDescriptorTable \<Rightarrow> usize \<Rightarrow> FileDescriptor \<Rightarrow> usize \<Rightarrow> FileDescriptorTable \<times> fd_event list" where
  "set_slot t index fd flags =
     (let count = cloexec_count t - count_cloexec (fd_flags t ! index);
          old = fds t ! index;
          new_flags = flags AND FD_CLOEXEC;
          hint = (if next_fd_hint t = MAX_FD_NUM \<or> index \<le> next_fd_hint t
                  then min (saturating_add index 1) MAX_FD_NUM else next_fd_hint t)
      in (\<lparr>fds = (fds t)[index := Some fd], fd_flags = (fd_flags t)[index := new_flags],
            next_fd_hint = hint, cloexec_count = count + count_cloexec new_flags\<rparr>, opt_drop old))"

definition clear_slot :: "FileDescriptorTable \<Rightarrow> usize \<Rightarrow> FileDescriptorTable \<times> FileDescriptor option" where
  "clear_slot t index =
     (\<lparr>fds = (fds t)[index := None], fd_flags = (fd_flags t)[index := 0],
       next_fd_hint = (if index < next_fd_hint t then index else next_fd_hint t),
       cloexec_count = cloexec_count t - count_cloexec (fd_flags t ! index)\<rparr>, fds t ! index)"

text \<open>\<open>iter().enumerate().take(hi).skip(lo).find_map(..)\<close>: the first empty slot of a window.\<close>

definition scan_free :: "FileDescriptorTable \<Rightarrow> usize \<Rightarrow> usize \<Rightarrow> usize option" where
  "scan_free t lo hi = find (\<lambda>i. fds t ! i = None) [lo..<min hi (length (fds t))]"

text \<open>A descriptor that finds no slot is dropped with the failed call.\<close>

definition alloc_slot_from ::
  "FileDescriptorTable \<Rightarrow> usize \<Rightarrow> usize \<Rightarrow> FileDescriptor \<Rightarrow> usize \<Rightarrow>
     usize option \<times> FileDescriptorTable \<times> fd_event list" where
  "alloc_slot_from t start limit0 fd flags =
     (let limit = min limit0 MAX_FD_NUM
      in if limit \<le> start then (None, t, [DropFd fd])
         else
           (let scan_start = (if start = 0 then min (next_fd_hint t) limit else start)
            in case scan_free t scan_start limit of
                 Some index \<Rightarrow> (case set_slot t index fd flags of (t', ev) \<Rightarrow> (Some index, t', ev))
               | None \<Rightarrow>
                   if start < scan_start
                   then (case scan_free t start scan_start of
                           Some index \<Rightarrow> (case set_slot t index fd flags of (t', ev) \<Rightarrow> (Some index, t', ev))
                         | None \<Rightarrow> (None, t, [DropFd fd]))
                   else (None, t, [DropFd fd])))"

definition alloc_with_flags_below where
  "alloc_with_flags_below t fd flags limit = alloc_slot_from t 0 limit fd flags"

definition alloc_with_flags where
  "alloc_with_flags t fd flags = alloc_with_flags_below t fd flags MAX_FD_NUM"

definition fdt_alloc where
  "fdt_alloc t fd = alloc_with_flags t fd 0"

definition alloc_from_with_flags_below where
  "alloc_from_with_flags_below t start fd flags limit = alloc_slot_from t start limit fd flags"

definition alloc_from_with_flags where
  "alloc_from_with_flags t start fd flags = alloc_from_with_flags_below t start fd flags MAX_FD_NUM"

definition alloc_from where
  "alloc_from t start fd = alloc_from_with_flags t start fd 0"

definition alloc_at ::
  "FileDescriptorTable \<Rightarrow> usize \<Rightarrow> FileDescriptor \<Rightarrow> (SysErrNo + unit) \<times> FileDescriptorTable \<times> fd_event list" where
  "alloc_at t index fd =
     (if MAX_FD_NUM \<le> index then (Inl EBADF, t, [DropFd fd])
      else (case set_slot t index fd 0 of (t', ev) \<Rightarrow> (Inr (), t', ev)))"

definition fdt_get :: "FileDescriptorTable \<Rightarrow> usize \<Rightarrow> FileDescriptor option" where
  "fdt_get t fd = (if MAX_FD_NUM \<le> fd then None else fds t ! fd)"

text \<open>\<open>remove\<close> moves the descriptor to the caller, \<open>free\<close> drops it.\<close>

definition fdt_remove :: "FileDescriptorTable \<Rightarrow> usize \<Rightarrow> (SysErrNo + FileDescriptor) \<times> FileDescriptorTable" where
  "fdt_remove t fd =
     (if MAX_FD_NUM \<le> fd then (Inl EBADF, t)
      else if fds t ! fd = None then (Inl EBADF, t)
      else (case clear_slot t fd of
              (t', None) \<Rightarrow> (Inl EBADF, t')
            | (t', Some f) \<Rightarrow> (Inr f, t')))"

definition fdt_free :: "FileDescriptorTable \<Rightarrow> usize \<Rightarrow> (SysErrNo + unit) \<times> FileDescriptorTable \<times> fd_event list" where
  "fdt_free t fd =
     (case fdt_remove t fd of
        (Inl e, t') \<Rightarrow> (Inl e, t', [])
      | (Inr f, t') \<Rightarrow> (Inr (), t', [DropFd f]))"

definition get_fd_flags :: "FileDescriptorTable \<Rightarrow> usize \<Rightarrow> SysErrNo + usize" where
  "get_fd_flags t fd = (if MAX_FD_NUM \<le> fd \<or> fds t ! fd = None then Inl EBADF else Inr (fd_flags t ! fd))"

definition set_fd_flags :: "FileDescriptorTable \<Rightarrow> usize \<Rightarrow> usize \<Rightarrow> (SysErrNo + unit) \<times> FileDescriptorTable" where
  "set_fd_flags t fd flags =
     (if MAX_FD_NUM \<le> fd \<or> fds t ! fd = None then (Inl EBADF, t)
      else (let old = fd_flags t ! fd; new = flags AND FD_CLOEXEC
            in (Inr (), t\<lparr>fd_flags := (fd_flags t)[fd := new],
                  cloexec_count := (cloexec_count t - count_cloexec old) + count_cloexec new\<rparr>)))"

fun close_on_exec_loop ::
  "usize list \<Rightarrow> FileDescriptorTable \<Rightarrow> FileDescriptor list \<Rightarrow> FileDescriptorTable \<times> FileDescriptor list" where
  "close_on_exec_loop [] t closed = (t, closed)"
| "close_on_exec_loop (index # is) t closed =
     (if fds t ! index \<noteq> None \<and> fd_flags t ! index AND FD_CLOEXEC \<noteq> 0
      then (case clear_slot t index of
              (t', Some file) \<Rightarrow> close_on_exec_loop is t' (closed @ [file])
            | (t', None) \<Rightarrow> close_on_exec_loop is t' closed)
      else close_on_exec_loop is t closed)"

definition close_on_exec :: "FileDescriptorTable \<Rightarrow> FileDescriptorTable \<times> FileDescriptor list" where
  "close_on_exec t =
     (if cloexec_count t = 0 then (t, []) else close_on_exec_loop [0..<MAX_FD_NUM] t [])"

definition close_all :: "FileDescriptorTable \<Rightarrow> FileDescriptorTable \<times> fd_event list" where
  "close_all t =
     (\<lparr>fds = replicate MAX_FD_NUM None, fd_flags = replicate MAX_FD_NUM 0, next_fd_hint = 0, cloexec_count = 0\<rparr>,
      concat (map opt_drop (fds t)))"

definition dup_below ::
  "FileDescriptorTable \<Rightarrow> usize \<Rightarrow> usize \<Rightarrow> (SysErrNo + usize) \<times> FileDescriptorTable \<times> fd_event list" where
  "dup_below t old_fd limit =
     (case fdt_get t old_fd of
        None \<Rightarrow> (Inl EBADF, t, [])
      | Some fd \<Rightarrow>
          (case alloc_with_flags_below t fd 0 limit of
             (Some new_fd, t', ev) \<Rightarrow> (Inr new_fd, t', CloneFd fd # ev)
           | (None, t', ev) \<Rightarrow> (Inl EMFILE, t', CloneFd fd # ev)))"

definition fdt_dup where
  "fdt_dup t old_fd = dup_below t old_fd MAX_FD_NUM"

definition dup2_below ::
  "FileDescriptorTable \<Rightarrow> usize \<Rightarrow> usize \<Rightarrow> usize \<Rightarrow> (SysErrNo + usize) \<times> FileDescriptorTable \<times> fd_event list" where
  "dup2_below t old_fd new_fd limit =
     (if MAX_FD_NUM \<le> old_fd \<or> fds t ! old_fd = None then (Inl EBADF, t, [])
      else if min limit MAX_FD_NUM \<le> new_fd then (Inl EBADF, t, [])
      else if old_fd = new_fd then (Inr new_fd, t, [])
      else
        (let (t1, ev1) = (if fds t ! new_fd \<noteq> None
                          then (case fdt_free t new_fd of (_, t', ev) \<Rightarrow> (t', ev)) else (t, []));
             fd = the (fds t1 ! old_fd);
             (t2, ev2) = set_slot t1 new_fd fd 0
         in (Inr new_fd, t2, ev1 @ [CloneFd fd] @ ev2)))"

definition fdt_dup2 where
  "fdt_dup2 t old_fd new_fd = dup2_below t old_fd new_fd MAX_FD_NUM"

definition fdt_len :: "FileDescriptorTable \<Rightarrow> usize" where
  "fdt_len t = length (filter (\<lambda>s. s \<noteq> None) (fds t))"

section \<open>The invariant\<close>

definition cloexec_slots :: "usize list \<Rightarrow> nat" where
  "cloexec_slots fl = sum_list (map count_cloexec fl)"

definition fdt_ok :: "FileDescriptorTable \<Rightarrow> bool" where
  "fdt_ok t \<longleftrightarrow> length (fds t) = MAX_FD_NUM \<and> length (fd_flags t) = MAX_FD_NUM
     \<and> next_fd_hint t \<le> MAX_FD_NUM \<and> (\<forall>i < next_fd_hint t. fds t ! i \<noteq> None)
     \<and> cloexec_count t = cloexec_slots (fd_flags t)
     \<and> (\<forall>i < MAX_FD_NUM. fds t ! i = None \<longrightarrow> fd_flags t ! i = 0)"


lemma MAX_FD_pos [simp]: "0 < MAX_FD_NUM" "MAX_FD_NUM \<le> usize_max"
  by (simp_all add: MAX_FD_NUM_def usize_max_def)

lemma count_cloexec_0 [simp]: "count_cloexec 0 = 0" "count_cloexec x \<le> 1"
  by (simp_all add: count_cloexec_def)

lemma count_cloexec_mask [simp]: "count_cloexec (x AND FD_CLOEXEC) = count_cloexec x"
  by (simp add: count_cloexec_def and.assoc)

lemma cloexec_slots_update:
  assumes "i < length fl"
  shows "cloexec_slots (fl[i := x]) = cloexec_slots fl - count_cloexec (fl ! i) + count_cloexec x"
    and "count_cloexec (fl ! i) \<le> cloexec_slots fl"
proof -
  have mem: "count_cloexec (fl ! i) \<le> cloexec_slots fl"
    using assms by (auto simp: cloexec_slots_def intro!: member_le_sum_list)
  then show "count_cloexec (fl ! i) \<le> cloexec_slots fl" .
  show "cloexec_slots (fl[i := x]) = cloexec_slots fl - count_cloexec (fl ! i) + count_cloexec x"
    using assms mem by (simp add: cloexec_slots_def map_update sum_list_update)
qed

lemma cloexec_slots_zero: "cloexec_slots fl = 0 \<longleftrightarrow> (\<forall>x \<in> set fl. count_cloexec x = 0)"
  by (simp add: cloexec_slots_def)

lemmas fdt_ok_lengths = fdt_ok_def [THEN iffD1, THEN conjunct1]

lemma set_slot_ok:
  assumes "fdt_ok t" "i < MAX_FD_NUM"
  shows "fdt_ok (fst (set_slot t i fd flags))"
proof -
  have len: "i < length (fds t)" "i < length (fd_flags t)" using assms by (auto simp: fdt_ok_def)
  have "saturating_add i 1 = i + 1"
    using assms(2) by (simp add: saturating_add_eq MAX_FD_NUM_def usize_max_def)
  then have hint: "\<forall>j < (if next_fd_hint t = MAX_FD_NUM \<or> i \<le> next_fd_hint t
      then min (saturating_add i 1) MAX_FD_NUM else next_fd_hint t). (fds t)[i := Some fd] ! j \<noteq> None"
    using assms by (auto simp: fdt_ok_def nth_list_update less_Suc_eq)
  show ?thesis using assms hint cloexec_slots_update(1) [OF len(2)]
    unfolding fdt_ok_def set_slot_def Let_def fst_conv
    by (simp add: nth_list_update)
qed

lemma clear_slot_ok:
  assumes "fdt_ok t" "i < MAX_FD_NUM"
  shows "fdt_ok (fst (clear_slot t i))"
proof -
  have len: "i < length (fds t)" "i < length (fd_flags t)" using assms by (auto simp: fdt_ok_def)
  show ?thesis using assms cloexec_slots_update(1) [OF len(2), of 0]
    unfolding fdt_ok_def clear_slot_def fst_conv
    by (auto simp: nth_list_update)
qed

lemma fdt_new_ok: "fdt_ok fdt_new"
proof -
  have "\<forall>i < 3. ([Some Stdin, Some Stdout, Some Stderr] @ xs) ! i \<noteq> None" for xs
    by (auto simp: less_Suc_eq numeral_3_eq_3)
  then show ?thesis
    by (simp add: fdt_ok_def fdt_new_def cloexec_slots_def MAX_FD_NUM_def sum_list_replicate)
qed

section \<open>Allocation finds the lowest free descriptor\<close>

lemma find_upt_Some:
  "find P [lo..<hi] = Some i \<longleftrightarrow> lo \<le> i \<and> i < hi \<and> P i \<and> (\<forall>j. lo \<le> j \<and> j < i \<longrightarrow> \<not> P j)"
proof
  assume "find P [lo..<hi] = Some i"
  then obtain k where k: "k < hi - lo" "P (lo + k)" "i = lo + k" "\<forall>j < k. \<not> P (lo + j)"
    by (auto simp: find_Some_iff)
  have "\<not> P j" if "lo \<le> j" "j < i" for j using k(3,4) that by (metis le_add_diff_inverse nat_add_left_cancel_less)
  with k show "lo \<le> i \<and> i < hi \<and> P i \<and> (\<forall>j. lo \<le> j \<and> j < i \<longrightarrow> \<not> P j)" by auto
next
  assume r: "lo \<le> i \<and> i < hi \<and> P i \<and> (\<forall>j. lo \<le> j \<and> j < i \<longrightarrow> \<not> P j)"
  then show "find P [lo..<hi] = Some i"
    unfolding find_Some_iff by (intro exI [of _ "i - lo"]) auto
qed

lemma find_upt_None: "find P [lo..<hi] = None \<longleftrightarrow> (\<forall>j. lo \<le> j \<and> j < hi \<longrightarrow> \<not> P j)"
  by (auto simp: find_None_iff)

text \<open>Specification: the first empty slot of a window.\<close>

definition lowest_free :: "FileDescriptorTable \<Rightarrow> usize \<Rightarrow> usize \<Rightarrow> usize option" where
  "lowest_free t start limit = find (\<lambda>i. fds t ! i = None) [start..<min limit MAX_FD_NUM]"

lemma scan_from_hint:
  assumes "fdt_ok t" "h = min (next_fd_hint t) limit" "limit \<le> MAX_FD_NUM"
  shows "scan_free t h limit = lowest_free t 0 limit" "scan_free t 0 h = None"
proof -
  have full: "fds t ! j \<noteq> None" if "j < h" for j using assms that by (simp add: fdt_ok_def)
  have lim: "min limit (length (fds t)) = limit" "min limit MAX_FD_NUM = limit"
    using assms by (auto simp: fdt_ok_def)
  show "scan_free t h limit = lowest_free t 0 limit"
  proof (cases "lowest_free t 0 limit")
    case None
    then have "scan_free t h limit = None" by (simp add: scan_free_def lowest_free_def lim find_upt_None)
    with None show ?thesis by simp
  next
    case (Some i)
    then have "i < limit" "fds t ! i = None" "\<forall>j < i. fds t ! j \<noteq> None"
      by (auto simp: lowest_free_def find_upt_Some lim)
    moreover have "h \<le> i" using full [of i] \<open>fds t ! i = None\<close> by (meson not_le)
    ultimately show ?thesis using Some by (simp add: scan_free_def find_upt_Some lim)
  qed
  show "scan_free t 0 h = None" using full by (simp add: scan_free_def find_upt_None)
qed

lemma alloc_slot_from_eq:
  assumes "fdt_ok t"
  shows "alloc_slot_from t start limit fd flags =
    (case lowest_free t start limit of
       None \<Rightarrow> (None, t, [DropFd fd])
     | Some i \<Rightarrow> (Some i, fst (set_slot t i fd flags), snd (set_slot t i fd flags)))"
proof -
  let ?l = "min limit MAX_FD_NUM"
  have len: "length (fds t) = MAX_FD_NUM" using assms by (simp add: fdt_ok_def)
  show ?thesis
  proof (cases "?l \<le> start")
    case True
    then show ?thesis by (simp add: alloc_slot_from_def lowest_free_def)
  next
    case False
    show ?thesis
    proof (cases "start = 0")
      case True
      have "lowest_free t 0 ?l = lowest_free t 0 limit" by (simp add: lowest_free_def)
      then show ?thesis using False True scan_from_hint [OF assms refl, of ?l]
        by (simp add: alloc_slot_from_def Let_def split: option.split prod.split)
    next
      case start: False
      have "scan_free t start ?l = lowest_free t start limit" by (simp add: scan_free_def lowest_free_def len)
      then show ?thesis using False start
        by (simp add: alloc_slot_from_def Let_def split: option.split prod.split)
    qed
  qed
qed

lemma lowest_free_bound: "lowest_free t start limit = Some i \<Longrightarrow> i < MAX_FD_NUM"
  by (simp add: lowest_free_def find_upt_Some)

lemma alloc_slot_from_ok: "fdt_ok t \<Longrightarrow> fdt_ok (fst (snd (alloc_slot_from t start limit fd flags)))"
  by (auto simp: alloc_slot_from_eq lowest_free_bound set_slot_ok split: option.split)

section \<open>No descriptor is lost or duplicated\<close>

text \<open>The open files a table holds, and those an event sequence clones and drops.\<close>

definition slot_files :: "FileDescriptor option list \<Rightarrow> FileDescriptor multiset" where
  "slot_files xs = image_mset the (filter_mset (\<lambda>s. s \<noteq> None) (mset xs))"

definition open_files :: "FileDescriptorTable \<Rightarrow> FileDescriptor multiset" where
  "open_files t = slot_files (fds t)"

definition opt_files :: "FileDescriptor option \<Rightarrow> FileDescriptor multiset" where
  "opt_files f = (case f of None \<Rightarrow> {#} | Some g \<Rightarrow> {#g#})"

fun cloned :: "fd_event list \<Rightarrow> FileDescriptor multiset" where
  "cloned [] = {#}"
| "cloned (CloneFd f # ev) = add_mset f (cloned ev)"
| "cloned (DropFd f # ev) = cloned ev"

fun dropped :: "fd_event list \<Rightarrow> FileDescriptor multiset" where
  "dropped [] = {#}"
| "dropped (CloneFd f # ev) = dropped ev"
| "dropped (DropFd f # ev) = add_mset f (dropped ev)"

lemma cloned_append [simp]: "cloned (a @ b) = cloned a + cloned b"
  by (induction a rule: cloned.induct) auto

lemma dropped_append [simp]: "dropped (a @ b) = dropped a + dropped b"
  by (induction a rule: dropped.induct) auto

lemma opt_drop_events [simp]: "dropped (opt_drop f) = opt_files f" "cloned (opt_drop f) = {#}"
  by (simp_all add: opt_drop_def opt_files_def split: option.split)

lemma slot_files_simps [simp]:
  "slot_files [] = {#}" "slot_files (x # xs) = opt_files x + slot_files xs"
  by (auto simp: slot_files_def opt_files_def split: option.split)

lemma slot_files_update:
  "i < length xs \<Longrightarrow> slot_files (xs[i := y]) + opt_files (xs ! i) = slot_files xs + opt_files y"
proof (induction xs arbitrary: i)
  case (Cons x xs)
  then show ?case by (cases i) (simp_all add: ac_simps)
qed simp

lemma slot_files_replicate [simp]: "slot_files (replicate n None) = {#}"
  by (induction n) (simp_all add: opt_files_def)

lemma dropped_all: "dropped (concat (map opt_drop xs)) = slot_files xs" "cloned (concat (map opt_drop xs)) = {#}"
  by (induction xs) simp_all

lemma set_slot_files:
  assumes "fdt_ok t" "i < MAX_FD_NUM" "set_slot t i fd flags = (t', ev)"
  shows "open_files t' + dropped ev = add_mset fd (open_files t)" "cloned ev = {#}"
proof -
  have "open_files t' + dropped ev = open_files t + opt_files (Some fd)"
    using assms slot_files_update [of i "fds t" "Some fd"]
    by (auto simp: set_slot_def open_files_def Let_def fdt_ok_def)
  then show "open_files t' + dropped ev = add_mset fd (open_files t)" by (simp add: opt_files_def)
  show "cloned ev = {#}" using assms(3) by (auto simp: set_slot_def Let_def)
qed

lemma alloc_slot_from_files:
  assumes "fdt_ok t" "alloc_slot_from t start limit fd flags = (res, t', ev)"
  shows "open_files t' + dropped ev = add_mset fd (open_files t)" "cloned ev = {#}"
proof -
  have "open_files t' + dropped ev = add_mset fd (open_files t) \<and> cloned ev = {#}"
  proof (cases "lowest_free t start limit")
    case None
    then show ?thesis using assms(2) by (auto simp: alloc_slot_from_eq [OF assms(1)])
  next
    case (Some i)
    then have "set_slot t i fd flags = (t', ev)"
      using assms(2) by (auto simp: alloc_slot_from_eq [OF assms(1)])
    from set_slot_files [OF assms(1) lowest_free_bound [OF Some] this] show ?thesis by simp
  qed
  then show "open_files t' + dropped ev = add_mset fd (open_files t)" "cloned ev = {#}" by auto
qed

lemma clear_slot_files:
  assumes "fdt_ok t" "i < MAX_FD_NUM"
  shows "open_files (fst (clear_slot t i)) + opt_files (fds t ! i) = open_files t"
  using assms slot_files_update [of i "fds t" None]
  by (auto simp: clear_slot_def open_files_def fdt_ok_def opt_files_def [of None])

lemma fdt_remove_files:
  assumes "fdt_ok t"
  shows "fdt_ok (snd (fdt_remove t i))"
    and "fdt_remove t i = (Inr f, t') \<Longrightarrow> add_mset f (open_files t') = open_files t"
    and "fdt_remove t i = (Inl e, t') \<Longrightarrow> t' = t"
proof -
  show "fdt_ok (snd (fdt_remove t i))"
    using assms clear_slot_ok [OF assms, of i]
    by (auto simp: fdt_remove_def clear_slot_def split: option.splits)
  show "fdt_remove t i = (Inr f, t') \<Longrightarrow> add_mset f (open_files t') = open_files t"
    using clear_slot_files [OF assms, of i]
    by (auto simp: fdt_remove_def clear_slot_def opt_files_def split: option.splits if_splits)
  show "fdt_remove t i = (Inl e, t') \<Longrightarrow> t' = t"
    by (auto simp: fdt_remove_def clear_slot_def split: option.splits if_splits)
qed

lemma set_fd_flags_ok:
  assumes "fdt_ok t"
  shows "fdt_ok (snd (set_fd_flags t i fl))" "open_files (snd (set_fd_flags t i fl)) = open_files t"
proof -
  show "fdt_ok (snd (set_fd_flags t i fl))"
  proof (cases "MAX_FD_NUM \<le> i \<or> fds t ! i = None")
    case False
    then have "i < length (fd_flags t)" using assms by (simp add: fdt_ok_def)
    from cloexec_slots_update(1) [OF this, of "fl AND FD_CLOEXEC"] False assms show ?thesis
      unfolding set_fd_flags_def fdt_ok_def Let_def by (auto simp: nth_list_update)
  qed (use assms in \<open>simp add: set_fd_flags_def\<close>)
  show "open_files (snd (set_fd_flags t i fl)) = open_files t"
    by (simp add: set_fd_flags_def open_files_def Let_def)
qed

definition cloexec_at :: "FileDescriptorTable \<Rightarrow> usize \<Rightarrow> bool" where
  "cloexec_at t i \<longleftrightarrow> fds t ! i \<noteq> None \<and> fd_flags t ! i AND FD_CLOEXEC \<noteq> 0"

lemma cloexec_at_count: "fdt_ok t \<Longrightarrow> i < MAX_FD_NUM \<Longrightarrow> cloexec_at t i \<longleftrightarrow> count_cloexec (fd_flags t ! i) \<noteq> 0"
  by (auto simp: cloexec_at_def count_cloexec_def fdt_ok_def)

text \<open>One turn of the loop closes slot \<open>index\<close> when it is marked.\<close>

definition close_marked :: "FileDescriptorTable \<Rightarrow> usize \<Rightarrow> FileDescriptorTable" where
  "close_marked t index = (if cloexec_at t index then fst (clear_slot t index) else t)"

lemma close_on_exec_loop_Cons:
  "close_on_exec_loop (i # is) t closed =
     close_on_exec_loop is (close_marked t i) (closed @ (if cloexec_at t i then [the (fds t ! i)] else []))"
  by (auto simp: close_marked_def cloexec_at_def clear_slot_def)

lemma close_marked_slots:
  assumes "fdt_ok t" "i < MAX_FD_NUM"
  shows "fdt_ok (close_marked t i)"
    and "fds (close_marked t i) ! j = (if j = i \<and> cloexec_at t i then None else fds t ! j)"
    and "j \<noteq> i \<Longrightarrow> cloexec_at (close_marked t i) j = cloexec_at t j"
    and "open_files (close_marked t i) + mset (if cloexec_at t i then [the (fds t ! i)] else []) = open_files t"
  using assms clear_slot_ok [OF assms] clear_slot_files [OF assms]
  by (auto simp: close_marked_def clear_slot_def cloexec_at_def opt_files_def fdt_ok_def nth_list_update)

lemma close_on_exec_loop_ok:
  "fdt_ok t \<Longrightarrow> distinct is \<Longrightarrow> \<forall>i \<in> set is. i < MAX_FD_NUM \<Longrightarrow> close_on_exec_loop is t closed = (t', out) \<Longrightarrow>
   fdt_ok t' \<and> open_files t' + mset out = open_files t + mset closed
   \<and> (\<forall>j. fds t' ! j = (if j \<in> set is \<and> cloexec_at t j then None else fds t ! j))
   \<and> out = closed @ map (\<lambda>i. the (fds t ! i)) (filter (cloexec_at t) is)"
proof (induction "is" arbitrary: t closed)
  case (Cons i "is")
  have i: "i < MAX_FD_NUM" and rest: "distinct is" "\<forall>i \<in> set is. i < MAX_FD_NUM" "i \<notin> set is"
    using Cons.prems by auto
  note M = close_marked_slots [OF Cons.prems(1) i]
  have ne: "j \<noteq> i" if "j \<in> set is" for j using that rest(3) by auto
  have same: "filter (cloexec_at (close_marked t i)) is = filter (cloexec_at t) is"
    by (rule filter_cong [OF refl]) (simp add: M(3) ne)
  have same': "map (\<lambda>j. the (fds (close_marked t i) ! j)) (filter (cloexec_at t) is) = map (\<lambda>j. the (fds t ! j)) (filter (cloexec_at t) is)"
    using ne by (auto simp: M(2))
  from Cons.IH [OF M(1) rest(1,2), of "closed @ (if cloexec_at t i then [the (fds t ! i)] else [])"]
  have IH: "fdt_ok t'" "open_files t' + mset out = open_files (close_marked t i)
        + mset (closed @ (if cloexec_at t i then [the (fds t ! i)] else []))"
      "\<And>j. fds t' ! j = (if j \<in> set is \<and> cloexec_at (close_marked t i) j then None else fds (close_marked t i) ! j)"
      "out = (closed @ (if cloexec_at t i then [the (fds t ! i)] else []))
        @ map (\<lambda>j. the (fds t ! j)) (filter (cloexec_at t) is)"
    using Cons.prems(4) unfolding close_on_exec_loop_Cons same same' by blast+
  have "open_files t' + mset out = open_files t + mset closed"
    using IH(2) M(4) by (simp add: ac_simps)
  moreover have "fds t' ! j = (if j \<in> set (i # is) \<and> cloexec_at t j then None else fds t ! j)" for j
    using M(3) [of j] rest(3) by (auto simp: IH(3) M(2))
  ultimately show ?case using IH(1,4) by simp
qed simp

text \<open>The early return on a zero count is harmless: an exact count of zero means no slot is
  marked.\<close>

lemma close_on_exec_eq:
  assumes "fdt_ok t"
  shows "close_on_exec t = close_on_exec_loop [0..<MAX_FD_NUM] t []"
proof (cases "cloexec_count t = 0")
  case True
  then have none: "\<not> cloexec_at t i" if "i < MAX_FD_NUM" for i
    using assms that cloexec_at_count [OF assms that] by (auto simp: fdt_ok_def cloexec_slots_zero)
  have "close_on_exec_loop is t [] = (t, [])" if "\<forall>i \<in> set is. i < MAX_FD_NUM" for "is"
    using that none
    by (induction "is") (simp_all del: close_on_exec_loop.simps(2) add: close_on_exec_loop_Cons close_marked_def)
  then show ?thesis using True by (simp add: close_on_exec_def)
qed (simp add: close_on_exec_def)

lemma close_all_ok: "fdt_ok (fst (close_all t))"
  by (simp add: close_all_def fdt_ok_def cloexec_slots_def sum_list_replicate)

section \<open>Sequences of calls\<close>

datatype fd_call =
    CAlloc usize usize FileDescriptor usize
  | CAllocAt usize FileDescriptor
  | CRemove usize
  | CFree usize
  | CSetFlags usize usize
  | CCloseOnExec
  | CCloseAll
  | CDup usize usize
  | CDup2 usize usize usize

text \<open>The table after a call, the clones and drops it performed and the descriptors it handed
  to its caller.\<close>

fun fd_exec :: "fd_call \<Rightarrow> FileDescriptorTable \<Rightarrow> FileDescriptorTable \<times> fd_event list \<times> FileDescriptor list" where
  "fd_exec (CAlloc start limit fd flags) t = (case alloc_slot_from t start limit fd flags of (_, t', ev) \<Rightarrow> (t', ev, []))"
| "fd_exec (CAllocAt i fd) t = (case alloc_at t i fd of (_, t', ev) \<Rightarrow> (t', ev, []))"
| "fd_exec (CRemove i) t = (case fdt_remove t i of (Inl _, t') \<Rightarrow> (t', [], []) | (Inr f, t') \<Rightarrow> (t', [], [f]))"
| "fd_exec (CFree i) t = (case fdt_free t i of (_, t', ev) \<Rightarrow> (t', ev, []))"
| "fd_exec (CSetFlags i fl) t = (snd (set_fd_flags t i fl), [], [])"
| "fd_exec CCloseOnExec t = (case close_on_exec t of (t', out) \<Rightarrow> (t', [], out))"
| "fd_exec CCloseAll t = (case close_all t of (t', ev) \<Rightarrow> (t', ev, []))"
| "fd_exec (CDup i limit) t = (case dup_below t i limit of (_, t', ev) \<Rightarrow> (t', ev, []))"
| "fd_exec (CDup2 i j limit) t = (case dup2_below t i j limit of (_, t', ev) \<Rightarrow> (t', ev, []))"

text \<open>The descriptor a call moves into the table.\<close>

fun call_gives :: "fd_call \<Rightarrow> FileDescriptor multiset" where
  "call_gives (CAlloc _ _ fd _) = {#fd#}"
| "call_gives (CAllocAt _ fd) = {#fd#}"
| "call_gives _ = {#}"

lemma dup_below_step:
  assumes "fdt_ok t" "dup_below t i limit = (r, t', ev)"
  shows "fdt_ok t'" "open_files t' + dropped ev = open_files t + cloned ev"
proof -
  have "fdt_ok t' \<and> open_files t' + dropped ev = open_files t + cloned ev"
  proof (cases "fdt_get t i")
    case None
    then show ?thesis using assms by (simp add: dup_below_def)
  next
    case (Some fd)
    obtain r1 t1 ev1 where a: "alloc_slot_from t 0 limit fd 0 = (r1, t1, ev1)" by (metis prod_cases3)
    then have "t' = t1" "ev = CloneFd fd # ev1"
      using assms(2) Some by (auto simp: dup_below_def alloc_with_flags_below_def split: option.splits)
    then show ?thesis
      using alloc_slot_from_ok [OF assms(1), of 0 limit fd 0] alloc_slot_from_files [OF assms(1) a] a by simp
  qed
  then show "fdt_ok t'" "open_files t' + dropped ev = open_files t + cloned ev" by auto
qed

lemma fdt_free_step:
  assumes "fdt_ok t" "fdt_free t i = (r, t', ev)"
  shows "fdt_ok t'" "open_files t' + dropped ev = open_files t" "cloned ev = {#}"
  using fdt_remove_files [OF assms(1), of i] assms(2)
  by (auto simp: fdt_free_def split: prod.splits sum.splits)

lemma dup2_below_step:
  assumes "fdt_ok t" "dup2_below t i j limit = (r, t', ev)"
  shows "fdt_ok t'" "open_files t' + dropped ev = open_files t + cloned ev"
proof -
  have "fdt_ok t' \<and> open_files t' + dropped ev = open_files t + cloned ev"
  proof (cases "MAX_FD_NUM \<le> i \<or> fds t ! i = None \<or> min limit MAX_FD_NUM \<le> j \<or> i = j")
    case True
    then have "t' = t \<and> ev = []" using assms(2) by (auto simp: dup2_below_def split: if_splits)
    then show ?thesis using assms(1) by simp
  next
    case False
    then have j: "j < MAX_FD_NUM" by (simp add: not_le)
    obtain t1 ev1 where o: "(if fds t ! j \<noteq> None then (case fdt_free t j of (_, t', ev) \<Rightarrow> (t', ev)) else (t, []))
        = (t1, ev1)" by fastforce
    have t1: "fdt_ok t1" "open_files t1 + dropped ev1 = open_files t" "cloned ev1 = {#}"
      using o fdt_free_step [OF assms(1), of j] assms(1) by (auto split: if_splits prod.splits)
    define fd where "fd = the (fds t1 ! i)"
    obtain t2 ev2 where s: "set_slot t1 j fd 0 = (t2, ev2)" by fastforce
    have "dup2_below t i j limit = (Inr j, t2, ev1 @ [CloneFd fd] @ ev2)"
      using False unfolding dup2_below_def o by (simp add: s fd_def [symmetric] Let_def)
    then have "t' = t2" "ev = ev1 @ [CloneFd fd] @ ev2" using assms(2) by auto
    then show ?thesis
      using set_slot_ok [OF t1(1) j, of fd 0] set_slot_files [OF t1(1) j s] s t1 by (simp add: ac_simps)
  qed
  then show "fdt_ok t'" "open_files t' + dropped ev = open_files t + cloned ev" by auto
qed

lemma alloc_at_step:
  assumes "fdt_ok t" "alloc_at t i fd = (r, t', ev)"
  shows "fdt_ok t'" "open_files t' + dropped ev = add_mset fd (open_files t)" "cloned ev = {#}"
  using assms set_slot_ok [OF assms(1), of i fd 0] set_slot_files [OF assms(1), of i fd 0]
  by (auto simp: alloc_at_def split: if_splits prod.splits)

lemma close_on_exec_step:
  assumes "fdt_ok t" "close_on_exec t = (t', out)"
  shows "fdt_ok t'" "open_files t' + mset out = open_files t"
  using close_on_exec_loop_ok [OF assms(1), of "[0..<MAX_FD_NUM]" "[]" t' out] assms
  by (auto simp: close_on_exec_eq)

lemma fd_exec_step:
  assumes "fdt_ok t" "fd_exec c t = (t', ev, out)"
  shows "fdt_ok t' \<and> open_files t' + dropped ev + mset out = open_files t + cloned ev + call_gives c"
proof (cases c)
  case (CAlloc start limit fd flags)
  obtain r where "alloc_slot_from t start limit fd flags = (r, t', ev)" and out: "out = []"
    using assms(2) CAlloc by (auto split: prod.splits)
  from alloc_slot_from_files [OF assms(1) this(1)] alloc_slot_from_ok [OF assms(1), of start limit fd flags] this(1)
  show ?thesis by (simp add: CAlloc out)
next
  case (CAllocAt i fd)
  then show ?thesis using assms alloc_at_step [OF assms(1), of i fd] by (auto split: prod.splits)
next
  case (CRemove i)
  then show ?thesis using assms(2) fdt_remove_files [OF assms(1), of i] assms(1)
    by (auto split: prod.splits sum.splits)
next
  case (CFree i)
  then show ?thesis using assms fdt_free_step [OF assms(1), of i] by (auto split: prod.splits)
next
  case (CSetFlags i fl)
  then show ?thesis using assms set_fd_flags_ok [OF assms(1), of i fl] by auto
next
  case CCloseOnExec
  then show ?thesis using assms close_on_exec_step [OF assms(1)] by (auto split: prod.splits)
next
  case CCloseAll
  then show ?thesis using assms(2) close_all_ok [of t]
    by (auto simp: close_all_def dropped_all open_files_def)
next
  case (CDup i limit)
  then show ?thesis using assms dup_below_step [OF assms(1), of i limit] by (auto split: prod.splits)
next
  case (CDup2 i j limit)
  then show ?thesis using assms dup2_below_step [OF assms(1), of i j limit] by (auto split: prod.splits)
qed

fun fd_run :: "fd_call list \<Rightarrow> FileDescriptorTable \<Rightarrow> FileDescriptorTable \<times> fd_event list \<times> FileDescriptor list" where
  "fd_run [] t = (t, [], [])"
| "fd_run (c # cs) t =
     (case fd_exec c t of (t1, ev1, out1) \<Rightarrow>
        case fd_run cs t1 of (t2, ev2, out2) \<Rightarrow> (t2, ev1 @ ev2, out1 @ out2))"

lemma fd_run_step:
  "fdt_ok t \<Longrightarrow> fd_run cs t = (t', ev, out) \<Longrightarrow>
   fdt_ok t' \<and> open_files t' + dropped ev + mset out = open_files t + cloned ev + sum_list (map call_gives cs)"
proof (induction cs arbitrary: t ev out)
  case (Cons c cs)
  obtain t1 ev1 out1 where 1: "fd_exec c t = (t1, ev1, out1)" by (metis prod_cases3)
  obtain ev2 out2 where 2: "fd_run cs t1 = (t', ev2, out2)" "ev = ev1 @ ev2" "out = out1 @ out2"
    using Cons.prems(2) by (auto simp: 1 split: prod.splits)
  from fd_exec_step [OF Cons.prems(1) 1] Cons.IH [OF _ 2(1)]
  have I: "fdt_ok t'" "open_files t1 + dropped ev1 + mset out1 = open_files t + cloned ev1 + call_gives c"
    "open_files t' + dropped ev2 + mset out2 = open_files t1 + cloned ev2 + sum_list (map call_gives cs)" by auto
  have "open_files t' + dropped ev + mset out
      = (open_files t' + dropped ev2 + mset out2) + dropped ev1 + mset out1"
    by (simp add: 2 ac_simps)
  also have "\<dots> = (open_files t1 + dropped ev1 + mset out1) + cloned ev2 + sum_list (map call_gives cs)"
    unfolding I(3) by (simp only: ac_simps)
  also have "\<dots> = open_files t + cloned ev + sum_list (map call_gives (c # cs))"
    unfolding I(2) by (simp add: 2 ac_simps)
  finally show ?case using I(1) by simp
qed simp

section \<open>The properties of the table\<close>


text \<open>Open files are conserved: over any sequence of calls, the files still in the table
  together with those dropped and those handed to a caller are exactly the initial standard
  streams, the files moved in and the clones made by \<open>dup\<close>; nothing leaks and nothing is
  dropped twice.\<close>

theorem fd_conservation:
  "case fd_run calls fdt_new of (t, ev, out) \<Rightarrow>
     open_files t + dropped ev + mset out
       = {#Stdin, Stdout, Stderr#} + cloned ev + sum_list (map call_gives calls)"
proof -
  have "open_files fdt_new = {#Stdin, Stdout, Stderr#}"
    by (simp add: open_files_def fdt_new_def opt_files_def)
  then show ?thesis using fd_run_step [OF fdt_new_ok, of calls] by (auto split: prod.split)
qed

text \<open>C29. Allocation from the cached hint is allocation of the lowest free descriptor not below
  \<open>start\<close>: if one exists below the limit it is the least such index, its slot holds the file, and
  no other slot changes; otherwise the call fails, the table is unchanged and the file is dropped.\<close>

theorem alloc_lowest:
  assumes "fdt_ok t"
  shows "case alloc_slot_from t start limit fd flags of (res, t', ev) \<Rightarrow>
    (case res of
       Some i \<Rightarrow> start \<le> i \<and> i < min limit MAX_FD_NUM \<and> fdt_get t i = None
         \<and> (\<forall>j. start \<le> j \<and> j < i \<longrightarrow> fdt_get t j \<noteq> None)
         \<and> (\<forall>j. fdt_get t' j = (if j = i then Some fd else fdt_get t j)) \<and> ev = []
     | None \<Rightarrow> (\<forall>j. start \<le> j \<and> j < min limit MAX_FD_NUM \<longrightarrow> fdt_get t j \<noteq> None) \<and> t' = t \<and> ev = [DropFd fd])"
proof (cases "lowest_free t start limit")
  case None
  then have "fdt_get t j \<noteq> None" if "start \<le> j" "j < min limit MAX_FD_NUM" for j
    using that by (simp add: lowest_free_def find_upt_None fdt_get_def)
  with None show ?thesis by (simp add: alloc_slot_from_eq [OF assms])
next
  case (Some i)
  then have i: "start \<le> i" "i < limit" "i < MAX_FD_NUM" "fds t ! i = None" "\<forall>j. start \<le> j \<and> j < i \<longrightarrow> fds t ! j \<noteq> None"
    by (auto simp: lowest_free_def find_upt_Some)
  have "length (fds t) = MAX_FD_NUM" using assms by (simp add: fdt_ok_def)
  then show ?thesis using Some i
    by (auto simp: alloc_slot_from_eq [OF assms] set_slot_def Let_def fdt_get_def nth_list_update opt_drop_def)
qed

lemma fdt_new_get: "fdt_get fdt_new 0 = Some Stdin" "fdt_get fdt_new 3 = None"
  by (simp_all add: fdt_get_def fdt_new_def MAX_FD_NUM_def nth_append)

theorem alloc_lowest_witness:
  "fdt_ok fdt_new \<and> (case alloc_slot_from fdt_new 0 16 LoopControl 1 of
     (res, t', ev) \<Rightarrow> res \<noteq> None \<and> ev = [])"
proof -
  obtain res t' ev where r: "alloc_slot_from fdt_new 0 16 LoopControl 1 = (res, t', ev)" by (metis prod_cases3)
  have "\<not> (\<forall>j. 0 \<le> j \<and> j < min 16 MAX_FD_NUM \<longrightarrow> fdt_get fdt_new j \<noteq> None)"
    using fdt_new_get(2) by (auto simp: MAX_FD_NUM_def intro: exI [of _ 3])
  then show ?thesis using alloc_lowest [OF fdt_new_ok, of 0 16 LoopControl 1] fdt_new_ok
    unfolding r by (simp split: option.splits)
qed

text \<open>\<open>close_on_exec\<close> empties exactly the slots marked \<open>FD_CLOEXEC\<close>, returns their files in slot
  order and leaves every other slot alone; its early return never skips a marked slot.\<close>

theorem close_on_exec_exact:
  assumes "fdt_ok t" "close_on_exec t = (t', out)"
  shows "(\<forall>j < MAX_FD_NUM. fdt_get t' j = (if fd_flags t ! j AND FD_CLOEXEC \<noteq> 0 then None else fdt_get t j))
    \<and> out = map (\<lambda>i. the (fdt_get t i)) (filter (\<lambda>i. fdt_get t i \<noteq> None \<and> fd_flags t ! i AND FD_CLOEXEC \<noteq> 0) [0..<MAX_FD_NUM])"
proof -
  from close_on_exec_loop_ok [OF assms(1), of "[0..<MAX_FD_NUM]" "[]" t' out] assms(2)
  have L: "\<And>j. fds t' ! j = (if j < MAX_FD_NUM \<and> cloexec_at t j then None else fds t ! j)"
    "out = map (\<lambda>i. the (fds t ! i)) (filter (cloexec_at t) [0..<MAX_FD_NUM])"
    by (auto simp: close_on_exec_eq [OF assms(1)])
  have "filter (cloexec_at t) [0..<MAX_FD_NUM]
      = filter (\<lambda>i. fdt_get t i \<noteq> None \<and> fd_flags t ! i AND FD_CLOEXEC \<noteq> 0) [0..<MAX_FD_NUM]"
    by (rule filter_cong) (auto simp: cloexec_at_def fdt_get_def)
  with L show ?thesis by (auto simp: fdt_get_def cloexec_at_def)
qed

definition sample_table :: FileDescriptorTable where
  "sample_table = fst (fd_run [CAlloc 0 16 LoopControl 1] fdt_new)"

lemma sample_table_ok: "fdt_ok sample_table"
  using fd_run_step [OF fdt_new_ok] unfolding sample_table_def by (metis prod.collapse)

theorem close_on_exec_exact_witness:
  "fdt_ok sample_table \<and> (\<exists>t' out. close_on_exec sample_table = (t', out) \<and> fdt_get t' 0 \<noteq> None)"
proof -
  have lf: "lowest_free fdt_new 0 16 = Some 3"
    unfolding lowest_free_def find_upt_Some using fdt_new_get(2)
    by (auto simp: MAX_FD_NUM_def fdt_get_def fdt_new_def nth_append less_Suc_eq numeral_3_eq_3)
  have tbl: "sample_table = fst (set_slot fdt_new 3 LoopControl 1)"
    by (simp add: sample_table_def alloc_slot_from_eq [OF fdt_new_ok] lf split: prod.split)
  have "fd_flags sample_table ! 0 = 0" "fdt_get sample_table 0 = Some Stdin"
    using fdt_new_get(1) by (simp_all add: tbl set_slot_def Let_def fdt_get_def fdt_new_def MAX_FD_NUM_def)
  moreover obtain t' out where "close_on_exec sample_table = (t', out)" by fastforce
  ultimately show ?thesis using close_on_exec_exact [OF sample_table_ok] sample_table_ok by auto
qed

end
