(* ===== verification/Pipe.thy ===== *)
theory Pipe
  imports Fd_Table
begin

text \<open>
  Pipes and event counters of \<open>os/src/fs/fd.rs\<close>: the shared state behind \<open>PipeRead\<close>,
  \<open>PipeWrite\<close> and \<open>EventFd\<close> descriptors, the pipe branches of \<open>read\<close> and \<open>write\<close>, the
  readiness tests of \<open>poll\<close>, and \<open>Clone\<close> and \<open>Drop\<close> of a descriptor with their effect on
  the end counts. A wake-up of a keyed wait queue is recorded as an event. The theory shows
  that a pipe is a bounded FIFO, that no state change can unblock a reader or writer without
  waking it, and that the end counts are exactly the numbers of live descriptors.
\<close>

section \<open>State\<close>

type_synonym byte = "8 word"

definition PIPE_CAPACITY :: usize where "PIPE_CAPACITY = 64 * 1024"
definition PIPE_SMALL_COPY :: usize where "PIPE_SMALL_COPY = 64"
definition u64_max :: nat where "u64_max = 2 ^ 64 - 1"

record PipeState =
  pipe_buf :: "byte list"
  readers :: usize
  writers :: usize

definition pipe_new :: PipeState where
  "pipe_new = \<lparr>pipe_buf = [], readers = 1, writers = 1\<rparr>"

record EventFdState =
  ev_counter :: nat
  ev_semaphore :: bool
  ev_nonblock :: bool

definition eventfd_new :: "nat \<Rightarrow> bool \<Rightarrow> bool \<Rightarrow> EventFdState" where
  "eventfd_new counter semaphore nonblock =
     \<lparr>ev_counter = counter, ev_semaphore = semaphore, ev_nonblock = nonblock\<rparr>"

datatype io_event =
    WakePipeReaders addr | WakePipeWriters addr
  | WakeEventfdReaders addr | WakeEventfdWriters addr
  | WakeIo
  | InoLastClose nat

record io_store =
  pipes :: "addr \<Rightarrow> PipeState option"
  eventfds :: "addr \<Rightarrow> EventFdState option"
  open_regular_refs :: "nat \<Rightarrow> usize option"

section \<open>The ring buffer\<close>

text \<open>The short copy pops byte by byte (\<open>pop_front().unwrap_or(0)\<close>).\<close>

fun pop_bytes :: "nat \<Rightarrow> byte list \<Rightarrow> byte list \<times> byte list" where
  "pop_bytes 0 q = ([], q)"
| "pop_bytes (Suc n) q =
     (case q of
        [] \<Rightarrow> (case pop_bytes n [] of (bs, q') \<Rightarrow> (0 # bs, q'))
      | b # q1 \<Rightarrow> (case pop_bytes n q1 of (bs, q') \<Rightarrow> (b # bs, q')))"

text \<open>The long copy takes the two slices of the ring: \<open>wrap\<close> is where the ring wraps, which the
  contents do not determine. The first component is what lands in the caller's buffer.\<close>

definition pipe_read_buffer :: "PipeState \<Rightarrow> usize \<Rightarrow> usize \<Rightarrow> byte list \<times> PipeState" where
  "pipe_read_buffer pipe wrap buf_len =
     (let n = min buf_len (length (pipe_buf pipe))
      in if n \<le> PIPE_SMALL_COPY
         then (case pop_bytes n (pipe_buf pipe) of (bs, q) \<Rightarrow> (bs, pipe\<lparr>pipe_buf := q\<rparr>))
         else
           (let front = take wrap (pipe_buf pipe);
                back = drop wrap (pipe_buf pipe);
                front_len = min n (length front);
                back_len = n - front_len;
                bs = take front_len front @ (if back_len \<noteq> 0 then take back_len back else [])
            in (bs, pipe\<lparr>pipe_buf := drop n (pipe_buf pipe)\<rparr>)))"

fun push_bytes :: "byte list \<Rightarrow> byte list \<Rightarrow> byte list" where
  "push_bytes [] q = q"
| "push_bytes (b # bs) q = push_bytes bs (q @ [b])"

definition pipe_write_buffer :: "PipeState \<Rightarrow> byte list \<Rightarrow> usize \<Rightarrow> usize \<times> PipeState" where
  "pipe_write_buffer pipe buf available =
     (let n = min (length buf) available
      in if n \<le> PIPE_SMALL_COPY then (n, pipe\<lparr>pipe_buf := push_bytes (take n buf) (pipe_buf pipe)\<rparr>)
         else (n, pipe\<lparr>pipe_buf := pipe_buf pipe @ take n buf\<rparr>))"

section \<open>Reading, writing and polling\<close>

text \<open>The \<open>PipeRead\<close> branch of \<open>read\<close> and the \<open>PipeWrite\<close> branch of \<open>write\<close>; the list is
  the wake-ups sent after the lock is released.\<close>

definition pipe_read ::
  "addr \<Rightarrow> PipeState \<Rightarrow> usize \<Rightarrow> usize \<Rightarrow> (SysErrNo + byte list) \<times> PipeState \<times> io_event list" where
  "pipe_read a pipe wrap buf_len =
     (if buf_len = 0 then (Inr [], pipe, [])
      else if pipe_buf pipe = [] then
        (if writers pipe = 0 then (Inr [], pipe, []) else (Inl EAGAIN, pipe, []))
      else
        (let was_full = (length (pipe_buf pipe) = PIPE_CAPACITY);
             (bs, pipe') = pipe_read_buffer pipe wrap buf_len;
             wake_writers = (was_full \<and> length (pipe_buf pipe') < PIPE_CAPACITY)
         in (Inr bs, pipe', if wake_writers then [WakePipeWriters a] else [])))"

definition pipe_write ::
  "addr \<Rightarrow> PipeState \<Rightarrow> byte list \<Rightarrow> (SysErrNo + usize) \<times> PipeState \<times> io_event list" where
  "pipe_write a pipe buf =
     (if buf = [] then (Inr 0, pipe, [])
      else if readers pipe = 0 then (Inl EPIPE, pipe, [])
      else
        (let available = PIPE_CAPACITY - length (pipe_buf pipe)
         in if available = 0 then (Inl EAGAIN, pipe, [])
            else
              (let was_empty = (pipe_buf pipe = []);
                   (written, pipe') = pipe_write_buffer pipe buf available
               in (Inr written, pipe', if was_empty \<and> written \<noteq> 0 then [WakePipeReaders a] else []))))"

definition pipe_read_would_block :: "PipeState \<Rightarrow> bool" where
  "pipe_read_would_block pipe \<longleftrightarrow> pipe_buf pipe = [] \<and> writers pipe > 0"

definition pipe_write_would_block :: "PipeState \<Rightarrow> bool" where
  "pipe_write_would_block pipe \<longleftrightarrow> readers pipe > 0 \<and> length (pipe_buf pipe) \<ge> PIPE_CAPACITY"

definition pipe_poll_read_ready :: "PipeState \<Rightarrow> bool" where
  "pipe_poll_read_ready pipe \<longleftrightarrow> pipe_buf pipe \<noteq> [] \<or> writers pipe = 0"

definition pipe_poll_write_ready :: "PipeState \<Rightarrow> bool" where
  "pipe_poll_write_ready pipe \<longleftrightarrow> readers pipe > 0 \<and> length (pipe_buf pipe) < PIPE_CAPACITY"

definition pipe_poll_hup :: "PipeState \<Rightarrow> bool" where
  "pipe_poll_hup pipe \<longleftrightarrow> writers pipe = 0"

definition pipe_poll_error :: "PipeState \<Rightarrow> bool" where
  "pipe_poll_error pipe \<longleftrightarrow> readers pipe = 0"

text \<open>The \<open>EventFd\<close> branches of \<open>read\<close> and \<open>write\<close>. A read delivers the 64-bit value, a write
  takes the value of the first eight bytes of its buffer.\<close>

definition eventfd_read ::
  "addr \<Rightarrow> EventFdState \<Rightarrow> usize \<Rightarrow> (SysErrNo + nat) \<times> EventFdState \<times> io_event list" where
  "eventfd_read a e buf_len =
     (if buf_len < 8 then (Inl EINVAL, e, [])
      else if ev_counter e = 0 then (Inl EAGAIN, e, [])
      else if ev_semaphore e
        then (Inr 1, e\<lparr>ev_counter := ev_counter e - 1\<rparr>, [WakeEventfdWriters a])
        else (Inr (ev_counter e), e\<lparr>ev_counter := 0\<rparr>, [WakeEventfdWriters a]))"

definition eventfd_write ::
  "addr \<Rightarrow> EventFdState \<Rightarrow> usize \<Rightarrow> nat \<Rightarrow> (SysErrNo + usize) \<times> EventFdState \<times> io_event list" where
  "eventfd_write a e buf_len value =
     (if buf_len < 8 then (Inl EINVAL, e, [])
      else if value = u64_max then (Inl EINVAL, e, [])
      else
        (let available = (u64_max - 1) - ev_counter e
         in if value > available then (Inl EAGAIN, e, [])
            else (Inr 8, e\<lparr>ev_counter := ev_counter e + value\<rparr>,
                  if ev_counter e = 0 \<and> value \<noteq> 0 then [WakeEventfdReaders a] else [])))"

definition eventfd_read_would_block :: "EventFdState \<Rightarrow> bool" where
  "eventfd_read_would_block e \<longleftrightarrow> ev_counter e = 0"

section \<open>Opening, cloning and dropping descriptors\<close>

definition create_pipe :: "addr \<Rightarrow> bool \<Rightarrow> io_store \<Rightarrow> (FileDescriptor \<times> FileDescriptor) \<times> io_store" where
  "create_pipe a nonblock s =
     ((PipeRead a nonblock, PipeWrite a nonblock), s\<lparr>pipes := (pipes s)(a \<mapsto> pipe_new)\<rparr>)"

definition create_eventfd :: "addr \<Rightarrow> nat \<Rightarrow> bool \<Rightarrow> bool \<Rightarrow> io_store \<Rightarrow> FileDescriptor \<times> io_store" where
  "create_eventfd a counter semaphore nonblock s =
     (EventFd a, s\<lparr>eventfds := (eventfds s)(a \<mapsto> eventfd_new counter semaphore nonblock)\<rparr>)"

definition open_regular_ino :: "nat \<Rightarrow> io_store \<Rightarrow> io_store" where
  "open_regular_ino ino s =
     s\<lparr>open_regular_refs := (open_regular_refs s)
        (ino \<mapsto> (case open_regular_refs s ino of None \<Rightarrow> 0 | Some c \<Rightarrow> c) + 1)\<rparr>"

text \<open>The reference-count part of \<open>close_regular_ino\<close>; what follows the last close (deferred
  unlink, write-back scheduling) is the event \<open>InoLastClose\<close>.\<close>

definition close_regular_ino :: "nat \<Rightarrow> io_store \<Rightarrow> io_store \<times> io_event list" where
  "close_regular_ino ino s =
     (case open_regular_refs s ino of
        None \<Rightarrow> (s, [])
      | Some cnt \<Rightarrow>
          if cnt > 1 then (s\<lparr>open_regular_refs := (open_regular_refs s)(ino \<mapsto> cnt - 1)\<rparr>, [])
          else (s\<lparr>open_regular_refs := (open_regular_refs s)(ino := None)\<rparr>, [InoLastClose ino]))"

definition with_pipe :: "addr \<Rightarrow> (PipeState \<Rightarrow> PipeState \<times> io_event list) \<Rightarrow> io_store \<Rightarrow> io_store \<times> io_event list" where
  "with_pipe a f s =
     (case pipes s a of
        None \<Rightarrow> (s, [])
      | Some p \<Rightarrow> (case f p of (p', ev) \<Rightarrow> (s\<lparr>pipes := (pipes s)(a \<mapsto> p')\<rparr>, ev)))"

definition pipe_drop_read :: "addr \<Rightarrow> PipeState \<Rightarrow> PipeState \<times> io_event list" where
  "pipe_drop_read a p =
     (if readers p > 0 then
        (let p' = p\<lparr>readers := readers p - 1\<rparr>
         in (p', if readers p' = 0 then [WakePipeReaders a, WakePipeWriters a] else [WakePipeReaders a]))
      else (p, []))"

definition pipe_drop_write :: "addr \<Rightarrow> PipeState \<Rightarrow> PipeState \<times> io_event list" where
  "pipe_drop_write a p =
     (if writers p > 0 then
        (let p' = p\<lparr>writers := writers p - 1\<rparr>
         in (p', if writers p' = 0 then [WakePipeReaders a, WakePipeWriters a] else [WakePipeWriters a]))
      else (p, []))"

text \<open>\<open>Clone\<close> returns an equal descriptor; its effect is on the shared state.\<close>

definition fd_clone :: "FileDescriptor \<Rightarrow> io_store \<Rightarrow> io_store" where
  "fd_clone f s =
     (case f of
        Ext4Regular e \<Rightarrow> open_regular_ino (er_ino e) s
      | PipeRead a _ \<Rightarrow> fst (with_pipe a (\<lambda>p. (p\<lparr>readers := readers p + 1\<rparr>, [])) s)
      | PipeWrite a _ \<Rightarrow> fst (with_pipe a (\<lambda>p. (p\<lparr>writers := writers p + 1\<rparr>, [])) s)
      | _ \<Rightarrow> s)"

definition fd_drop :: "FileDescriptor \<Rightarrow> io_store \<Rightarrow> io_store \<times> io_event list" where
  "fd_drop f s =
     (case f of
        PipeRead a _ \<Rightarrow> with_pipe a (pipe_drop_read a) s
      | PipeWrite a _ \<Rightarrow> with_pipe a (pipe_drop_write a) s
      | SocketFd _ \<Rightarrow> (s, [WakeIo])
      | EventFd a \<Rightarrow> (s, [WakeEventfdReaders a, WakeEventfdWriters a, WakeIo])
      | Ext4Regular e \<Rightarrow> close_regular_ino (er_ino e) s
      | _ \<Rightarrow> (s, []))"

text \<open>The clones and drops of a descriptor-table call, in order.\<close>

fun apply_fd_events :: "fd_event list \<Rightarrow> io_store \<Rightarrow> io_store" where
  "apply_fd_events [] s = s"
| "apply_fd_events (CloneFd f # ev) s = apply_fd_events ev (fd_clone f s)"
| "apply_fd_events (DropFd f # ev) s = apply_fd_events ev (fst (fd_drop f s))"

section \<open>A pipe is a bounded queue\<close>

lemma pop_bytes_eq: "n \<le> length q \<Longrightarrow> pop_bytes n q = (take n q, drop n q)"
  by (induction n arbitrary: q) (auto split: list.split prod.split)

lemma push_bytes_eq: "push_bytes bs q = q @ bs"
  by (induction bs arbitrary: q) simp_all

text \<open>Both copy paths are the same prefix of the queue, wherever the ring wraps.\<close>

lemma pipe_read_buffer_eq:
  "pipe_read_buffer p wrap n = (take n (pipe_buf p), p\<lparr>pipe_buf := drop n (pipe_buf p)\<rparr>)"
proof -
  let ?q = "pipe_buf p" and ?n = "min n (length (pipe_buf p))"
  have t: "take ?n ?q = take n ?q" "drop ?n ?q = drop n ?q" by (simp_all add: min_def)
  have "take (min ?n (length (take wrap ?q))) (take wrap ?q) @ take (?n - min ?n (length (take wrap ?q))) (drop wrap ?q)
      = take ?n (take wrap ?q @ drop wrap ?q)"
    unfolding take_append by (simp add: min_def)
  also have "take ?n (take wrap ?q @ drop wrap ?q) = take n ?q" by (simp add: t)
  finally have long: "take (min ?n (length (take wrap ?q))) (take wrap ?q)
      @ take (?n - min ?n (length (take wrap ?q))) (drop wrap ?q) = take n ?q" .
  have tail: "(if k \<noteq> 0 then take k xs else []) = take k xs" for k and xs :: "byte list" by simp
  show ?thesis
    unfolding pipe_read_buffer_def Let_def tail long using pop_bytes_eq [of ?n ?q] by (simp add: t)
qed

lemma pipe_write_buffer_eq:
  "pipe_write_buffer p buf av =
     (min (length buf) av, p\<lparr>pipe_buf := pipe_buf p @ take (min (length buf) av) buf\<rparr>)"
  by (simp add: pipe_write_buffer_def Let_def push_bytes_eq)

text \<open>One descriptor operation on a pipe.\<close>

datatype pipe_call = PRead usize usize | PWrite "byte list" | PCloneRead | PCloneWrite | PDropRead | PDropWrite

fun pipe_exec :: "addr \<Rightarrow> pipe_call \<Rightarrow> PipeState \<Rightarrow> PipeState \<times> io_event list" where
  "pipe_exec a (PRead wrap n) p = (case pipe_read a p wrap n of (_, p', ev) \<Rightarrow> (p', ev))"
| "pipe_exec a (PWrite bs) p = (case pipe_write a p bs of (_, p', ev) \<Rightarrow> (p', ev))"
| "pipe_exec a PCloneRead p = (p\<lparr>readers := readers p + 1\<rparr>, [])"
| "pipe_exec a PCloneWrite p = (p\<lparr>writers := writers p + 1\<rparr>, [])"
| "pipe_exec a PDropRead p = pipe_drop_read a p"
| "pipe_exec a PDropWrite p = pipe_drop_write a p"

text \<open>The bytes a call delivers to its reader and accepts from its writer.\<close>

fun pipe_out :: "addr \<Rightarrow> pipe_call \<Rightarrow> PipeState \<Rightarrow> byte list" where
  "pipe_out a (PRead wrap n) p = (case pipe_read a p wrap n of (Inr bs, _, _) \<Rightarrow> bs | _ \<Rightarrow> [])"
| "pipe_out a _ p = []"

fun pipe_in :: "addr \<Rightarrow> pipe_call \<Rightarrow> PipeState \<Rightarrow> byte list" where
  "pipe_in a (PWrite bs) p = (case pipe_write a p bs of (Inr n, _, _) \<Rightarrow> take n bs | _ \<Rightarrow> [])"
| "pipe_in a _ p = []"

fun pipe_run :: "addr \<Rightarrow> pipe_call list \<Rightarrow> PipeState \<Rightarrow> byte list \<times> byte list \<times> PipeState" where
  "pipe_run a [] p = ([], [], p)"
| "pipe_run a (c # cs) p =
     (case pipe_run a cs (fst (pipe_exec a c p)) of
        (o1, i1, p1) \<Rightarrow> (pipe_out a c p @ o1, pipe_in a c p @ i1, p1))"

lemma pipe_exec_fifo:
  "pipe_out a c p @ pipe_buf (fst (pipe_exec a c p)) = pipe_buf p @ pipe_in a c p"
  by (cases c) (auto simp: pipe_read_def pipe_write_def pipe_read_buffer_eq pipe_write_buffer_eq Let_def
      pipe_drop_read_def pipe_drop_write_def)

lemma pipe_exec_capacity:
  "length (pipe_buf p) \<le> PIPE_CAPACITY \<Longrightarrow> length (pipe_buf (fst (pipe_exec a c p))) \<le> PIPE_CAPACITY"
  by (cases c) (auto simp: pipe_read_def pipe_write_def pipe_read_buffer_eq pipe_write_buffer_eq Let_def
      pipe_drop_read_def pipe_drop_write_def)

section \<open>No wake-up is lost\<close>

lemma pipe_exec_wakes_reader:
  assumes "pipe_read_would_block p" "\<not> pipe_read_would_block (fst (pipe_exec a c p))"
  shows "WakePipeReaders a \<in> set (snd (pipe_exec a c p))"
  using assms
  by (cases c) (auto simp: pipe_read_would_block_def pipe_read_def pipe_write_def pipe_write_buffer_eq
      pipe_drop_read_def pipe_drop_write_def Let_def min_def split: if_splits)

lemma pipe_exec_wakes_writer:
  assumes "length (pipe_buf p) \<le> PIPE_CAPACITY"
    and "pipe_write_would_block p" "\<not> pipe_write_would_block (fst (pipe_exec a c p))"
  shows "WakePipeWriters a \<in> set (snd (pipe_exec a c p))"
  using assms
  by (cases c) (auto simp: pipe_write_would_block_def pipe_read_def pipe_write_def pipe_read_buffer_eq
      pipe_drop_read_def pipe_drop_write_def Let_def split: if_splits)

section \<open>The end counts are the numbers of live descriptors\<close>

definition is_reader_of :: "addr \<Rightarrow> FileDescriptor \<Rightarrow> bool" where
  "is_reader_of a f = (case f of PipeRead b _ \<Rightarrow> b = a | _ \<Rightarrow> False)"

definition is_writer_of :: "addr \<Rightarrow> FileDescriptor \<Rightarrow> bool" where
  "is_writer_of a f = (case f of PipeWrite b _ \<Rightarrow> b = a | _ \<Rightarrow> False)"

text \<open>\<open>counts_exact live s\<close>: every pipe's counts are those of the descriptors in \<open>live\<close>.\<close>

definition counts_exact :: "FileDescriptor multiset \<Rightarrow> io_store \<Rightarrow> bool" where
  "counts_exact live s \<longleftrightarrow>
     (\<forall>a p. pipes s a = Some p \<longrightarrow> readers p = size (filter_mset (is_reader_of a) live)
        \<and> writers p = size (filter_mset (is_writer_of a) live))"

lemma counts_exact_clone:
  assumes "counts_exact live s"
  shows "counts_exact (add_mset f live) (fd_clone f s)"
  using assms unfolding counts_exact_def fd_clone_def
  by (auto simp: is_reader_of_def is_writer_of_def with_pipe_def open_regular_ino_def
      split: FileDescriptor.split option.split)

lemma counts_exact_drop:
  assumes "counts_exact (add_mset f live) s"
  shows "counts_exact live (fst (fd_drop f s))"
  using assms unfolding counts_exact_def fd_drop_def
  by (auto simp: is_reader_of_def is_writer_of_def with_pipe_def close_regular_ino_def
      pipe_drop_read_def pipe_drop_write_def Let_def
      split: FileDescriptor.split option.split)

lemma counts_exact_events:
  "counts_exact live s \<Longrightarrow> dropped ev \<subseteq># live \<Longrightarrow> counts_exact (live + cloned ev - dropped ev) (apply_fd_events ev s)"
proof (induction ev arbitrary: live s rule: cloned.induct)
  case (2 f ev)
  have "dropped ev \<subseteq># live" using "2.prems"(2) by simp
  also have "live \<subseteq># add_mset f live" by simp
  finally have "dropped ev \<subseteq># add_mset f live" .
  from "2.IH" [OF counts_exact_clone [OF "2.prems"(1), of f] this] show ?case by simp
next
  case (3 f ev)
  then obtain l where l: "live = add_mset f l" by (metis dropped.simps(3) insert_subset_eq_iff insert_DiffM)
  with "3.prems" have "dropped ev \<subseteq># l" by simp
  from "3.IH" [OF counts_exact_drop this] "3.prems"(1) show ?case by (simp add: l)
qed simp

lemma open_files_mem:
  assumes "fdt_ok t" "fdt_get t i = Some f"
  shows "f \<in># open_files t"
proof -
  have i: "i < length (fds t)" "fds t ! i = Some f"
    using assms by (auto simp: fdt_get_def fdt_ok_def split: if_splits)
  have "slot_files (fds t) + opt_files None = slot_files ((fds t)[i := None]) + opt_files (fds t ! i)"
    using slot_files_update [OF i(1), of None] by simp
  then show ?thesis by (simp add: open_files_def i(2) opt_files_def)
qed

lemma dup_below_drops:
  assumes "fdt_ok t" "dup_below t i limit = (r, t', ev)"
  shows "dropped ev \<subseteq># open_files t"
proof (cases "fdt_get t i")
  case None
  then show ?thesis using assms by (simp add: dup_below_def)
next
  case (Some f)
  have mem: "f \<in># open_files t" by (rule open_files_mem [OF assms(1) Some])
  show ?thesis
  proof (cases "lowest_free t 0 limit")
    case None
    then show ?thesis using assms Some mem
      by (auto simp: dup_below_def alloc_with_flags_below_def alloc_slot_from_eq)
  next
    case (Some k)
    then have "fds t ! k = None" by (simp add: lowest_free_def find_upt_Some)
    then show ?thesis using assms Some \<open>fdt_get t i = Some f\<close>
      by (auto simp: dup_below_def alloc_with_flags_below_def alloc_slot_from_eq set_slot_def opt_drop_def Let_def)
  qed
qed

lemma dup2_below_drops:
  assumes "fdt_ok t" "dup2_below t i j limit = (r, t', ev)"
  shows "dropped ev \<subseteq># open_files t"
proof (cases "MAX_FD_NUM \<le> i \<or> fds t ! i = None \<or> min limit MAX_FD_NUM \<le> j \<or> i = j")
  case True
  then have "ev = []" using assms(2) by (auto simp: dup2_below_def split: if_splits)
  then show ?thesis by simp
next
  case False
  obtain t1 ev1 where o: "(if fds t ! j \<noteq> None then (case fdt_free t j of (_, t', ev) \<Rightarrow> (t', ev)) else (t, []))
      = (t1, ev1)" by fastforce
  have j: "j < length (fds t)" "\<not> MAX_FD_NUM \<le> j" using False assms(1) by (auto simp: fdt_ok_def not_le)
  have empty: "fds t1 ! j = None" using o j
    by (auto simp: fdt_free_def fdt_remove_def clear_slot_def split: if_splits)
  obtain t2 ev2 where s: "set_slot t1 j (the (fds t1 ! i)) 0 = (t2, ev2)" by fastforce
  have "dup2_below t i j limit = (Inr j, t2, ev1 @ [CloneFd (the (fds t1 ! i))] @ ev2)"
    using False unfolding dup2_below_def o by (simp add: s Let_def)
  moreover have "ev2 = []" using s empty by (auto simp: set_slot_def opt_drop_def Let_def)
  moreover have "open_files t1 + dropped ev1 = open_files t"
    using o fdt_free_step [OF assms(1), of j] by (auto split: if_splits prod.splits)
  then have "dropped ev1 \<subseteq># open_files t" by (metis mset_subset_eq_add_right)
  ultimately show ?thesis using assms(2) by auto
qed

lemma no_clone_drops:
  "cloned ev = {#} \<Longrightarrow> a + dropped ev + mset out = b + cloned ev + g \<Longrightarrow> dropped ev \<subseteq># b + g"
  by (metis add.right_neutral mset_subset_eq_add_left mset_subset_eq_add_right subset_mset.order_trans)

lemma fd_exec_drops:
  assumes "fdt_ok t" "fd_exec c t = (t', ev, out)"
  shows "dropped ev \<subseteq># open_files t + call_gives c"
proof (cases "\<exists>i l. c = CDup i l \<or> (\<exists>j. c = CDup2 i j l)")
  case True
  then show ?thesis
    using assms dup_below_drops [OF assms(1)] dup2_below_drops [OF assms(1)]
    by (auto split: prod.splits)
next
  case False
  have "cloned ev = {#}"
    using False assms(2) alloc_slot_from_files(2) [OF assms(1)] alloc_at_step(3) [OF assms(1)] fdt_free_step(3) [OF assms(1)]
    by (cases c) (auto simp: close_all_def dropped_all split: prod.splits sum.splits)
  then show ?thesis using fd_exec_step [OF assms] no_clone_drops by blast
qed

section \<open>The properties of pipes\<close>

text \<open>C30. A pipe is a bounded first-in first-out queue: over any interleaving of reads, writes,
  clones and closes of its ends, the bytes delivered followed by the bytes still buffered are
  the bytes accepted in order, and the buffer never exceeds its capacity; the wrap position of
  the ring and the choice of copy loop do not matter.\<close>

theorem pipe_fifo:
  "case pipe_run a calls pipe_new of (delivered, accepted, p) \<Rightarrow>
     delivered @ pipe_buf p = accepted \<and> length (pipe_buf p) \<le> PIPE_CAPACITY"
proof -
  have "length (pipe_buf p) \<le> PIPE_CAPACITY \<Longrightarrow> pipe_run a calls p = (dl, ac, p') \<Longrightarrow>
      dl @ pipe_buf p' = pipe_buf p @ ac \<and> length (pipe_buf p') \<le> PIPE_CAPACITY" for p dl ac p'
  proof (induction calls arbitrary: p dl ac)
    case (Cons c cs)
    obtain o1 i1 where r: "pipe_run a cs (fst (pipe_exec a c p)) = (o1, i1, p')"
        "dl = pipe_out a c p @ o1" "ac = pipe_in a c p @ i1"
      using Cons.prems(2) by (auto split: prod.splits)
    from Cons.IH [OF pipe_exec_capacity [OF Cons.prems(1)] r(1)]
    show ?case using pipe_exec_fifo [of a c p] r(2,3) by (metis append.assoc)
  qed simp
  from this [of pipe_new] show ?thesis by (auto simp: pipe_new_def split: prod.split)
qed

text \<open>C31. No lost wake-up on a pipe: whenever an operation on either end turns a state in which a
  reader (writer) would block into one in which it would not, it wakes that pipe's readers
  (writers). In particular closing the last writer wakes blocked readers, so they see end of
  file, and closing the last reader wakes blocked writers, so they see \<open>EPIPE\<close>.\<close>

theorem pipe_no_lost_wakeup:
  assumes "length (pipe_buf p) \<le> PIPE_CAPACITY"
  shows "(pipe_read_would_block p \<and> \<not> pipe_read_would_block (fst (pipe_exec a c p))
          \<longrightarrow> WakePipeReaders a \<in> set (snd (pipe_exec a c p)))
    \<and> (pipe_write_would_block p \<and> \<not> pipe_write_would_block (fst (pipe_exec a c p))
          \<longrightarrow> WakePipeWriters a \<in> set (snd (pipe_exec a c p)))"
  using pipe_exec_wakes_reader pipe_exec_wakes_writer assms by blast

theorem pipe_no_lost_wakeup_witness:
  "length (pipe_buf pipe_new) \<le> PIPE_CAPACITY \<and> pipe_read_would_block pipe_new
   \<and> WakePipeReaders 7 \<in> set (snd (pipe_exec 7 PDropWrite pipe_new))"
  using pipe_no_lost_wakeup [of pipe_new 7 PDropWrite]
  by (simp add: pipe_new_def pipe_read_would_block_def pipe_drop_write_def PIPE_CAPACITY_def)

text \<open>The end counts stay exact across the descriptor table: if the counts of every pipe are
  the numbers of live read and write descriptors (in the table, in the hands of the caller, and
  in other tables), then after any call on the table, with the clones and drops it performs
  applied to the pipes, they are again.\<close>

theorem pipe_counts_exact:
  assumes "fdt_ok t" "fd_exec c t = (t', ev, out)"
    and "counts_exact (open_files t + call_gives c + others) s"
  shows "counts_exact (open_files t' + mset out + others) (apply_fd_events ev s)"
proof -
  let ?live = "open_files t + call_gives c + others"
  have "dropped ev \<subseteq># ?live"
    using fd_exec_drops [OF assms(1,2)] by (meson mset_subset_eq_add_left subset_mset.order_trans)
  from counts_exact_events [OF assms(3) this]
  have "counts_exact (?live + cloned ev - dropped ev) (apply_fd_events ev s)" .
  moreover have "?live + cloned ev = open_files t' + mset out + others + dropped ev"
    using fd_exec_step [OF assms(1,2)] by (simp add: ac_simps)
  ultimately show ?thesis by simp
qed

theorem pipe_counts_exact_witness:
  "fdt_ok fdt_new \<and> counts_exact (open_files fdt_new + call_gives (CAlloc 0 16 (PipeRead 5 False) 0) + {#PipeWrite 5 False#})
     \<lparr>pipes = [5 \<mapsto> pipe_new], eventfds = Map.empty, open_regular_refs = Map.empty\<rparr>
   \<and> (\<exists>t' ev out. fd_exec (CAlloc 0 16 (PipeRead 5 False) 0) fdt_new = (t', ev, out)
      \<and> counts_exact (open_files t' + mset out + {#PipeWrite 5 False#})
          (apply_fd_events ev \<lparr>pipes = [5 \<mapsto> pipe_new], eventfds = Map.empty, open_regular_refs = Map.empty\<rparr>))"
proof -
  obtain t' ev out where e: "fd_exec (CAlloc 0 16 (PipeRead 5 False) 0) fdt_new = (t', ev, out)" by (metis prod_cases3)
  have c: "counts_exact (open_files fdt_new + call_gives (CAlloc 0 16 (PipeRead 5 False) 0) + {#PipeWrite 5 False#})
     \<lparr>pipes = [5 \<mapsto> pipe_new], eventfds = Map.empty, open_regular_refs = Map.empty\<rparr>"
    by (simp add: counts_exact_def open_files_def fdt_new_def opt_files_def is_reader_of_def is_writer_of_def pipe_new_def)
  from pipe_counts_exact [OF fdt_new_ok e c] c e fdt_new_ok show ?thesis by blast
qed

end
