(* ===== verification/Mem_File.thy ===== *)
theory Mem_File
  imports Pipe
begin

text \<open>
  In-memory files: \<open>MemFileContent\<close> of \<open>os/src/fs/fd.rs\<close>, which keeps small files inline and
  large ones as a vector of optional chunks (an absent chunk is a hole of zeros), and the
  \<open>MemFile\<close> branches of the descriptor's \<open>read\<close>, \<open>write\<close>, \<open>seek_signed\<close> and
  \<open>truncate\<close>. The theory shows that every operation refines a plain byte string: the sparse
  representation, the switch between the two representations and the chunk loops are invisible.
\<close>

section \<open>Representation\<close>

definition MAX_FILE_OFFSET :: usize where "MAX_FILE_OFFSET = 2 ^ 63 - 1"
definition MEM_FILE_INLINE_LIMIT :: usize where "MEM_FILE_INLINE_LIMIT = 1024 * 1024"
definition MEM_FILE_CHUNK_SIZE :: usize where "MEM_FILE_CHUNK_SIZE = 64 * 1024"

lemma chunk_pos [simp]: "0 < MEM_FILE_CHUNK_SIZE" "MEM_FILE_CHUNK_SIZE \<noteq> 0"
  by (simp_all add: MEM_FILE_CHUNK_SIZE_def)

lemma chunk_progress:
  "copied < n \<Longrightarrow> n - (copied + min (n - copied) (MEM_FILE_CHUNK_SIZE - pos mod MEM_FILE_CHUNK_SIZE)) < n - copied"
  using mod_less_divisor [OF chunk_pos(1), of pos] by linarith

type_synonym chunks = "byte list option list"

datatype MemFileContent =
    Inline "byte list"
  | Chunked (ch_len: usize) (ch_chunks: chunks)

definition mem_new :: MemFileContent where
  "mem_new = Inline []"

text \<open>\<open>content.chunks(MEM_FILE_CHUNK_SIZE)\<close>, an all-zero part becoming a hole.\<close>

function to_chunks :: "byte list \<Rightarrow> chunks" where
  "to_chunks bs =
     (if bs = [] then []
      else (let part = take MEM_FILE_CHUNK_SIZE bs
            in (if \<forall>b \<in> set part. b = 0 then None else Some part)
               # to_chunks (drop MEM_FILE_CHUNK_SIZE bs)))"
  by auto
termination
  by (relation "measure length") auto

declare to_chunks.simps [simp del]

definition from_slice :: "byte list \<Rightarrow> MemFileContent" where
  "from_slice bs =
     (if length bs \<le> MEM_FILE_INLINE_LIMIT then Inline bs else Chunked (length bs) (to_chunks bs))"

definition mem_len :: "MemFileContent \<Rightarrow> usize" where
  "mem_len c = (case c of Inline bs \<Rightarrow> length bs | Chunked n _ \<Rightarrow> n)"

section \<open>Reading\<close>

text \<open>\<open>buf[i..i + ys.len()].copy_from_slice(ys)\<close>.\<close>

definition splice_at :: "'a list \<Rightarrow> nat \<Rightarrow> 'a list \<Rightarrow> 'a list" where
  "splice_at xs i ys = take i xs @ ys @ drop (i + length ys) xs"

definition chunk_get :: "chunks \<Rightarrow> nat \<Rightarrow> byte list option" where
  "chunk_get cs i = (if i < length cs then cs ! i else None)"

text \<open>The copy loop over the chunks; \<open>out\<close> starts as zeros.\<close>

function read_loop :: "chunks \<Rightarrow> usize \<Rightarrow> usize \<Rightarrow> usize \<Rightarrow> byte list \<Rightarrow> byte list" where
  "read_loop cs offset to_read copied out =
     (if copied < to_read then
        (let pos = offset + copied;
             chunk_idx = pos div MEM_FILE_CHUNK_SIZE;
             chunk_off = pos mod MEM_FILE_CHUNK_SIZE;
             n = min (to_read - copied) (MEM_FILE_CHUNK_SIZE - chunk_off);
             out' = (case chunk_get cs chunk_idx of
                       Some chunk \<Rightarrow>
                         if chunk_off < length chunk
                         then splice_at out copied (take (min n (length chunk - chunk_off)) (drop chunk_off chunk))
                         else out
                     | None \<Rightarrow> out)
         in read_loop cs offset to_read (copied + n) out')
      else out)"
  by auto
termination
  by (relation "measure (\<lambda>(_, _, to_read, copied, _). to_read - copied)") (auto simp: Let_def intro: chunk_progress)

declare read_loop.simps [simp del]

text \<open>The bytes written to the front of the caller's buffer of \<open>buf_len\<close> bytes.\<close>

definition mem_read_at :: "MemFileContent \<Rightarrow> usize \<Rightarrow> usize \<Rightarrow> byte list" where
  "mem_read_at c offset buf_len =
     (if mem_len c \<le> offset \<or> buf_len = 0 then []
      else
        (let to_read = min buf_len (mem_len c - offset)
         in case c of
              Inline bs \<Rightarrow> take to_read (drop offset bs)
            | Chunked _ cs \<Rightarrow> read_loop cs offset to_read 0 (replicate to_read 0)))"

definition is_elf_image :: "MemFileContent \<Rightarrow> bool" where
  "is_elf_image c \<longleftrightarrow> mem_read_at c 0 4 = [0x7f, 0x45, 0x4c, 0x46]"

definition mem_to_vec :: "MemFileContent \<Rightarrow> byte list" where
  "mem_to_vec c = (case c of Inline bs \<Rightarrow> bs | Chunked n _ \<Rightarrow> mem_read_at c 0 n)"

section \<open>Resizing and writing\<close>

definition vec_resize :: "'a list \<Rightarrow> nat \<Rightarrow> 'a \<Rightarrow> 'a list" where
  "vec_resize xs n z = take n xs @ replicate (n - length xs) z"

definition truncate_last :: "chunks \<Rightarrow> nat \<Rightarrow> chunks" where
  "truncate_last cs target =
     (if cs = [] then [] else butlast cs @ [map_option (take target) (last cs)])"

definition resize_chunked :: "usize \<Rightarrow> chunks \<Rightarrow> usize \<Rightarrow> MemFileContent" where
  "resize_chunked len cs new_len =
     (let needed = (if new_len = 0 then 0 else (new_len + MEM_FILE_CHUNK_SIZE - 1) div MEM_FILE_CHUNK_SIZE);
          cs1 = vec_resize cs needed None;
          start = (needed - 1) * MEM_FILE_CHUNK_SIZE;
          target = min (new_len - start) MEM_FILE_CHUNK_SIZE;
          self = Chunked new_len (truncate_last cs1 target)
      in if new_len \<le> MEM_FILE_INLINE_LIMIT then Inline (mem_to_vec self) else self)"

definition mem_resize :: "MemFileContent \<Rightarrow> usize \<Rightarrow> MemFileContent" where
  "mem_resize c new_len =
     (case c of
        Inline bs \<Rightarrow>
          if new_len \<le> MEM_FILE_INLINE_LIMIT then Inline (vec_resize bs new_len 0)
          else resize_chunked (length bs) (to_chunks bs) new_len
      | Chunked len cs \<Rightarrow> resize_chunked len cs new_len)"

definition chunk_write :: "chunks \<Rightarrow> nat \<Rightarrow> nat \<Rightarrow> byte list \<Rightarrow> chunks" where
  "chunk_write cs idx off ys =
     (let cs1 = (if length cs \<le> idx then vec_resize cs (idx + 1) None else cs);
          chunk = (case cs1 ! idx of None \<Rightarrow> [] | Some ch \<Rightarrow> ch);
          chunk' = (if length chunk < off + length ys then vec_resize chunk (off + length ys) 0 else chunk)
      in cs1[idx := Some (splice_at chunk' off ys)])"

function write_loop :: "usize \<Rightarrow> byte list \<Rightarrow> usize \<Rightarrow> chunks \<Rightarrow> chunks" where
  "write_loop offset buf copied cs =
     (if copied < length buf then
        (let pos = offset + copied;
             chunk_idx = pos div MEM_FILE_CHUNK_SIZE;
             chunk_off = pos mod MEM_FILE_CHUNK_SIZE;
             n = min (length buf - copied) (MEM_FILE_CHUNK_SIZE - chunk_off)
         in write_loop offset buf (copied + n)
              (chunk_write cs chunk_idx chunk_off (take n (drop copied buf))))
      else cs)"
  by auto
termination
  by (relation "measure (\<lambda>(_, buf, copied, _). length buf - copied)") (auto simp: Let_def intro: chunk_progress)

declare write_loop.simps [simp del]

text \<open>\<open>end\<close> is computed without a check; the callers have bounded it by \<open>MAX_FILE_OFFSET\<close>.\<close>

definition mem_write_at :: "MemFileContent \<Rightarrow> usize \<Rightarrow> byte list \<Rightarrow> MemFileContent \<times> usize" where
  "mem_write_at c offset buf =
     (let fin = offset + length buf;
          c1 = (if fin > mem_len c then mem_resize c fin else c)
      in (case c1 of
            Inline bs \<Rightarrow> Inline (splice_at bs offset buf)
          | Chunked n cs \<Rightarrow> Chunked n (write_loop offset buf 0 cs), fin))"

section \<open>The bytes of a file\<close>

definition chunk_byte :: "chunks \<Rightarrow> nat \<Rightarrow> byte" where
  "chunk_byte cs i =
     (case chunk_get cs (i div MEM_FILE_CHUNK_SIZE) of
        Some ch \<Rightarrow> if i mod MEM_FILE_CHUNK_SIZE < length ch then ch ! (i mod MEM_FILE_CHUNK_SIZE) else 0
      | None \<Rightarrow> 0)"

definition mem_bytes :: "MemFileContent \<Rightarrow> byte list" where
  "mem_bytes c = (case c of Inline bs \<Rightarrow> bs | Chunked n cs \<Rightarrow> map (chunk_byte cs) [0..<n])"

text \<open>No chunk holds a byte beyond the end of the file: growing a file must expose zeros.\<close>

definition chunks_ok :: "usize \<Rightarrow> chunks \<Rightarrow> bool" where
  "chunks_ok n cs \<longleftrightarrow>
     (\<forall>k ch. chunk_get cs k = Some ch \<longrightarrow> length ch \<le> MEM_FILE_CHUNK_SIZE \<and> k * MEM_FILE_CHUNK_SIZE + length ch \<le> n)"

definition mem_ok :: "MemFileContent \<Rightarrow> bool" where
  "mem_ok c = (case c of Inline bs \<Rightarrow> True | Chunked n cs \<Rightarrow> chunks_ok n cs)"

lemma length_mem_bytes [simp]: "length (mem_bytes c) = mem_len c"
  by (simp add: mem_bytes_def mem_len_def split: MemFileContent.split)

lemma length_splice [simp]: "i + length ys \<le> length xs \<Longrightarrow> length (splice_at xs i ys) = length xs"
  by (simp add: splice_at_def)

lemma nth_splice:
  "i + length ys \<le> length xs \<Longrightarrow>
   splice_at xs i ys ! j = (if i \<le> j \<and> j < i + length ys then ys ! (j - i) else xs ! j)"
  by (auto simp: splice_at_def nth_append)

lemma length_vec_resize [simp]: "length (vec_resize xs n z) = n"
  by (simp add: vec_resize_def)

lemma nth_vec_resize: "j < n \<Longrightarrow> vec_resize xs n z ! j = (if j < length xs then xs ! j else z)"
  by (auto simp: vec_resize_def nth_append)

lemma same_chunk:
  assumes "pos mod C + j < (C :: nat)"
  shows "(pos + j) div C = pos div C" "(pos + j) mod C = pos mod C + j"
proof -
  define q r where "q = pos div C" and "r = pos mod C"
  have pos: "pos = r + q * C" by (simp add: q_def r_def)
  have "r + j < C" using assms by (simp add: r_def)
  then have "(r + j + q * C) div C = q" "(r + j + q * C) mod C = r + j" by simp_all
  then show "(pos + j) div C = pos div C" "(pos + j) mod C = pos mod C + j"
    using \<open>r + j < C\<close> by (simp_all add: pos ac_simps)
qed

lemma chunk_byte_in:
  assumes "pos mod MEM_FILE_CHUNK_SIZE + j < MEM_FILE_CHUNK_SIZE"
  shows "chunk_byte cs (pos + j) =
    (case chunk_get cs (pos div MEM_FILE_CHUNK_SIZE) of
       Some ch \<Rightarrow> if pos mod MEM_FILE_CHUNK_SIZE + j < length ch then ch ! (pos mod MEM_FILE_CHUNK_SIZE + j) else 0
     | None \<Rightarrow> 0)"
  by (simp add: chunk_byte_def same_chunk [OF assms] split: option.split)

section \<open>The read loop\<close>

text \<open>One turn copies \<open>n\<close> bytes of the file to the right place of a zeroed buffer.\<close>

definition read_turn :: "chunks \<Rightarrow> usize \<Rightarrow> usize \<Rightarrow> usize \<Rightarrow> byte list \<Rightarrow> byte list" where
  "read_turn cs pos copied n out =
     (case chunk_get cs (pos div MEM_FILE_CHUNK_SIZE) of
        Some chunk \<Rightarrow>
          if pos mod MEM_FILE_CHUNK_SIZE < length chunk
          then splice_at out copied (take (min n (length chunk - pos mod MEM_FILE_CHUNK_SIZE)) (drop (pos mod MEM_FILE_CHUNK_SIZE) chunk))
          else out
      | None \<Rightarrow> out)"

lemma read_turn:
  assumes "pos mod MEM_FILE_CHUNK_SIZE + n \<le> MEM_FILE_CHUNK_SIZE" "copied + n \<le> length out"
    and zeros: "\<forall>i. copied \<le> i \<and> i < length out \<longrightarrow> out ! i = 0"
  shows "length (read_turn cs pos copied n out) = length out"
    and "i < length out \<Longrightarrow> read_turn cs pos copied n out ! i =
      (if copied \<le> i \<and> i < copied + n then chunk_byte cs (pos + (i - copied)) else out ! i)"
proof -
  let ?o = "pos mod MEM_FILE_CHUNK_SIZE"
  have byte: "chunk_byte cs (pos + j) = (case chunk_get cs (pos div MEM_FILE_CHUNK_SIZE) of
       Some ch \<Rightarrow> if ?o + j < length ch then ch ! (?o + j) else 0 | None \<Rightarrow> 0)" if "j < n" for j
    using chunk_byte_in [of pos j cs] assms(1) that by simp
  show len: "length (read_turn cs pos copied n out) = length out"
    using assms(2) by (auto simp: read_turn_def split: option.split)
  assume i: "i < length out"
  show "read_turn cs pos copied n out ! i =
      (if copied \<le> i \<and> i < copied + n then chunk_byte cs (pos + (i - copied)) else out ! i)"
  proof (cases "chunk_get cs (pos div MEM_FILE_CHUNK_SIZE)")
    case None
    then show ?thesis using i zeros byte [of "i - copied"] by (auto simp: read_turn_def)
  next
    case (Some ch)
    show ?thesis
    proof (cases "?o < length ch")
      case False
      then show ?thesis using Some i zeros byte [of "i - copied"] by (auto simp: read_turn_def)
    next
      case True
      let ?ys = "take (min n (length ch - ?o)) (drop ?o ch)"
      have ys: "length ?ys = min n (length ch - ?o)" by simp
      have "splice_at out copied ?ys ! i = (if copied \<le> i \<and> i < copied + length ?ys then ?ys ! (i - copied) else out ! i)"
        by (rule nth_splice) (use assms(2) ys in linarith)
      then have at: "read_turn cs pos copied n out ! i
          = (if copied \<le> i \<and> i < copied + min n (length ch - ?o) then ?ys ! (i - copied) else out ! i)"
        using True Some by (simp add: read_turn_def)
      show ?thesis
      proof (cases "copied \<le> i \<and> i < copied + n")
        case in_n: True
        then obtain j where j: "i = copied + j" "j < n" by (metis add_less_cancel_left le_iff_add)
        show ?thesis using byte [OF j(2)] at Some i zeros j in_n by auto
      next
        case False
        then show ?thesis using at by auto
      qed
    qed
  qed
qed

lemma read_loop_turn:
  "copied < to_read \<Longrightarrow> read_loop cs offset to_read copied out =
     (let n = min (to_read - copied) (MEM_FILE_CHUNK_SIZE - (offset + copied) mod MEM_FILE_CHUNK_SIZE)
      in read_loop cs offset to_read (copied + n) (read_turn cs (offset + copied) copied n out))"
  by (subst read_loop.simps) (simp add: Let_def read_turn_def)

lemma read_loop_correct:
  "length out = to_read \<Longrightarrow> copied \<le> to_read \<Longrightarrow> \<forall>i. copied \<le> i \<and> i < to_read \<longrightarrow> out ! i = 0 \<Longrightarrow>
   length (read_loop cs offset to_read copied out) = to_read \<and>
   (\<forall>i < to_read. read_loop cs offset to_read copied out ! i =
      (if copied \<le> i then chunk_byte cs (offset + i) else out ! i))"
proof (induction cs offset to_read copied out rule: read_loop.induct)
  case (1 cs offset to_read copied out)
  show ?case
  proof (cases "copied < to_read")
    case False
    then show ?thesis using "1.prems" by (subst (1 2) read_loop.simps) simp
  next
    case True
    define pos where "pos = offset + copied"
    define n where "n = min (to_read - copied) (MEM_FILE_CHUNK_SIZE - pos mod MEM_FILE_CHUNK_SIZE)"
    have room: "pos mod MEM_FILE_CHUNK_SIZE + n \<le> MEM_FILE_CHUNK_SIZE"
      using mod_less_divisor [OF chunk_pos(1), of pos] unfolding n_def by linarith
    have le: "copied + n \<le> length out" using True "1.prems"(1) by (simp add: n_def)
    have z: "\<forall>i. copied \<le> i \<and> i < length out \<longrightarrow> out ! i = 0" using "1.prems"(1,3) by simp
    note T = read_turn [OF room le z]
    have IH: "length (read_loop cs offset to_read (copied + n) (read_turn cs pos copied n out)) = to_read \<and>
      (\<forall>i < to_read. read_loop cs offset to_read (copied + n) (read_turn cs pos copied n out) ! i =
        (if copied + n \<le> i then chunk_byte cs (offset + i) else read_turn cs pos copied n out ! i))"
    proof (rule "1.IH" [OF True pos_def refl refl n_def refl, folded read_turn_def])
      show "length (read_turn cs pos copied n out) = to_read" using T(1) "1.prems"(1) by simp
      show "copied + n \<le> to_read" using le "1.prems"(1) by simp
      show "\<forall>i. copied + n \<le> i \<and> i < to_read \<longrightarrow> read_turn cs pos copied n out ! i = 0"
        using T(2) z "1.prems"(1) by auto
    qed
    have eq: "read_loop cs offset to_read copied out
        = read_loop cs offset to_read (copied + n) (read_turn cs pos copied n out)"
      using read_loop_turn [OF True, of cs offset out] by (simp add: n_def pos_def Let_def)
    have "read_turn cs pos copied n out ! i = chunk_byte cs (offset + i)" if "copied \<le> i" "i < copied + n" for i
      using T(2) [of i] that le by (simp add: pos_def)
    moreover have "read_turn cs pos copied n out ! i = out ! i" if "i < copied" for i
      using T(2) [of i] that le by simp
    ultimately show ?thesis unfolding eq using IH "1.prems"(1) by auto
  qed
qed

lemma mem_read_at_eq: "mem_read_at c offset n = take n (drop offset (mem_bytes c))"
proof (cases "mem_len c \<le> offset \<or> n = 0")
  case True
  then show ?thesis by (auto simp: mem_read_at_def)
next
  case False
  let ?m = "min n (mem_len c - offset)"
  show ?thesis
  proof (cases c)
    case (Inline bs)
    have "take (min n (length bs - offset)) (drop offset bs) = take n (drop offset bs)"
      by (simp add: min_def)
    then show ?thesis using False by (auto simp: Inline mem_read_at_def mem_bytes_def mem_len_def)
  next
    case (Chunked len cs)
    have "length (read_loop cs offset ?m 0 (replicate ?m 0)) = ?m \<and>
        (\<forall>i < ?m. read_loop cs offset ?m 0 (replicate ?m 0) ! i = chunk_byte cs (offset + i))"
      using read_loop_correct [of "replicate ?m 0" ?m 0 cs offset] by simp
    then have "read_loop cs offset ?m 0 (replicate ?m 0) = take n (drop offset (mem_bytes c))"
      by (intro nth_equalityI) (auto simp: Chunked mem_bytes_def mem_len_def)
    then show ?thesis using False by (simp add: mem_read_at_def Chunked Let_def)
  qed
qed

lemma mem_to_vec_eq: "mem_to_vec c = mem_bytes c"
proof (cases c)
  case (Chunked n cs)
  have "length (mem_bytes c) = n" by (simp add: Chunked mem_len_def)
  then show ?thesis using mem_read_at_eq [of c 0 n] by (simp add: mem_to_vec_def Chunked)
qed (simp add: mem_to_vec_def mem_bytes_def)

section \<open>Converting a byte string to chunks\<close>

lemma to_chunks_Nil [simp]: "to_chunks [] = []"
  by (simp add: to_chunks.simps)

lemma to_chunks_Cons:
  "bs \<noteq> [] \<Longrightarrow> to_chunks bs =
     (if \<forall>b \<in> set (take MEM_FILE_CHUNK_SIZE bs). b = 0 then None else Some (take MEM_FILE_CHUNK_SIZE bs))
       # to_chunks (drop MEM_FILE_CHUNK_SIZE bs)"
  by (subst to_chunks.simps) (simp add: Let_def)

lemma chunk_get_Cons: "chunk_get (c # cs) k = (if k = 0 then c else chunk_get cs (k - 1))"
  by (auto simp: chunk_get_def nth_Cons')

lemma chunk_get_to_chunks:
  "chunk_get (to_chunks bs) k = Some ch \<Longrightarrow>
   ch = take MEM_FILE_CHUNK_SIZE (drop (k * MEM_FILE_CHUNK_SIZE) bs) \<and> k * MEM_FILE_CHUNK_SIZE < length bs"
proof (induction k arbitrary: bs)
  case 0
  then show ?case
    by (cases "bs = []") (auto simp: chunk_get_def to_chunks_Cons split: if_splits)
next
  case (Suc k)
  then have ne: "bs \<noteq> []" by (auto simp: chunk_get_def)
  with Suc.prems have "chunk_get (to_chunks (drop MEM_FILE_CHUNK_SIZE bs)) k = Some ch"
    by (simp add: to_chunks_Cons chunk_get_Cons split: if_splits)
  from Suc.IH [OF this] have "ch = take MEM_FILE_CHUNK_SIZE (drop (Suc k * MEM_FILE_CHUNK_SIZE) bs)"
    "k * MEM_FILE_CHUNK_SIZE < length bs - MEM_FILE_CHUNK_SIZE" by (simp_all add: ac_simps)
  moreover from this(2) have "MEM_FILE_CHUNK_SIZE + k * MEM_FILE_CHUNK_SIZE < length bs" by linarith
  ultimately show ?case by simp
qed

lemma chunk_get_to_chunks_None:
  "chunk_get (to_chunks bs) k = None \<Longrightarrow> \<forall>b \<in> set (take MEM_FILE_CHUNK_SIZE (drop (k * MEM_FILE_CHUNK_SIZE) bs)). b = 0"
proof (induction k arbitrary: bs)
  case 0
  then show ?case
    by (cases "bs = []") (auto simp: chunk_get_def to_chunks_Cons split: if_splits)
next
  case (Suc k)
  show ?case
  proof (cases "bs = []")
    case False
    with Suc.prems have "chunk_get (to_chunks (drop MEM_FILE_CHUNK_SIZE bs)) k = None"
      by (simp add: to_chunks_Cons chunk_get_Cons)
    from Suc.IH [OF this] show ?thesis by (simp add: ac_simps)
  qed simp
qed

lemma to_chunks_ok: "chunks_ok (length bs) (to_chunks bs)"
  unfolding chunks_ok_def by (auto dest!: chunk_get_to_chunks)

lemma to_chunks_byte:
  assumes "i < length bs"
  shows "chunk_byte (to_chunks bs) i = bs ! i"
proof -
  let ?C = MEM_FILE_CHUNK_SIZE
  let ?part = "take ?C (drop (i div ?C * ?C) bs)"
  have split: "i = i div ?C * ?C + i mod ?C" by simp
  have m: "i mod ?C < ?C" by (rule mod_less_divisor) simp
  have "i mod ?C < length bs - i div ?C * ?C" using assms split by linarith
  then have inside: "i mod ?C < length ?part" using m by simp
  have at: "?part ! (i mod ?C) = bs ! i" using inside m by simp
  show ?thesis
  proof (cases "chunk_get (to_chunks bs) (i div ?C)")
    case None
    from chunk_get_to_chunks_None [OF this] at inside have "bs ! i = 0" by (metis nth_mem)
    with None show ?thesis by (simp add: chunk_byte_def)
  next
    case (Some ch)
    from chunk_get_to_chunks [OF Some] have "ch = ?part" by simp
    with Some show ?thesis using at inside by (simp add: chunk_byte_def)
  qed
qed

lemma to_chunks_bytes: "mem_bytes (Chunked (length bs) (to_chunks bs)) = bs"
  by (rule nth_equalityI) (auto simp: mem_bytes_def to_chunks_byte)

section \<open>Resizing\<close>

lemma chunk_byte_beyond:
  assumes "chunks_ok n cs" "n \<le> i"
  shows "chunk_byte cs i = 0"
proof (cases "chunk_get cs (i div MEM_FILE_CHUNK_SIZE)")
  case (Some ch)
  then have "i div MEM_FILE_CHUNK_SIZE * MEM_FILE_CHUNK_SIZE + length ch \<le> n"
    using assms(1) by (simp add: chunks_ok_def)
  moreover have "i div MEM_FILE_CHUNK_SIZE * MEM_FILE_CHUNK_SIZE + i mod MEM_FILE_CHUNK_SIZE = i" by simp
  ultimately have "\<not> i mod MEM_FILE_CHUNK_SIZE < length ch" using assms(2) by linarith
  with Some show ?thesis by (simp add: chunk_byte_def)
qed (simp add: chunk_byte_def)

definition chunks_needed :: "usize \<Rightarrow> nat" where
  "chunks_needed n = (if n = 0 then 0 else (n + MEM_FILE_CHUNK_SIZE - 1) div MEM_FILE_CHUNK_SIZE)"

lemma chunks_needed_bounds:
  assumes "0 < n"
  shows "0 < chunks_needed n" "(chunks_needed n - 1) * MEM_FILE_CHUNK_SIZE < n" "n \<le> chunks_needed n * MEM_FILE_CHUNK_SIZE"
proof -
  let ?C = MEM_FILE_CHUNK_SIZE
  have eq: "chunks_needed n = (n - 1) div ?C + 1"
    using assms div_add_self2 [of ?C "n - 1"] by (simp add: chunks_needed_def)
  show "0 < chunks_needed n" by (simp add: eq)
  have "(n - 1) div ?C * ?C \<le> n - 1" by (rule div_times_less_eq_dividend)
  then have "(n - 1) div ?C * ?C < n" using assms by linarith
  then show "(chunks_needed n - 1) * ?C < n" by (simp add: eq)
  have "n - 1 < ((n - 1) div ?C + 1) * ?C" by (metis chunk_pos(1) dividend_less_div_times add.commute mult.commute add_mult_distrib nat_mult_1)
  then show "n \<le> chunks_needed n * ?C" by (simp add: eq)
qed

lemma chunk_get_snoc: "chunk_get (xs @ [y]) k = (if k < length xs then xs ! k else if k = length xs then y else None)"
  by (auto simp: chunk_get_def nth_append)

lemma chunk_get_truncate:
  assumes "0 < n"
  shows "chunk_get (truncate_last (vec_resize cs (chunks_needed n) None) target) k =
    (if k < chunks_needed n then (if k = chunks_needed n - 1 then map_option (take target) (chunk_get cs k) else chunk_get cs k)
     else None)"
proof -
  let ?m = "chunks_needed n" and ?r = "vec_resize cs (chunks_needed n) None"
  have m: "0 < ?m" by (rule chunks_needed_bounds(1) [OF assms])
  have len: "length ?r = ?m" by simp
  then have ne: "?r \<noteq> []" using m by (metis length_0_conv less_irrefl)
  have at: "?r ! k = chunk_get cs k" if "k < ?m" for k using that by (simp add: nth_vec_resize chunk_get_def)
  have "last ?r = chunk_get cs (?m - 1)" using ne len m at [of "?m - 1"] by (simp add: last_conv_nth)
  moreover have "butlast ?r ! k = chunk_get cs k" if "k < ?m - 1" for k
    using that len at [of k] by (simp add: nth_butlast)
  ultimately show ?thesis using ne len m
    by (auto simp: truncate_last_def chunk_get_snoc)
qed

lemma resize_chunked_bytes:
  assumes ok: "chunks_ok len cs"
  shows "mem_bytes (resize_chunked len cs n) = vec_resize (map (chunk_byte cs) [0..<len]) n 0"
    and "mem_ok (resize_chunked len cs n)"
proof -
  let ?C = MEM_FILE_CHUNK_SIZE
  define target where "target = min (n - (chunks_needed n - 1) * ?C) ?C"
  define cs' where "cs' = truncate_last (vec_resize cs (chunks_needed n) None) target"
  have get: "chunk_get cs' k = (if k < chunks_needed n then
      (if k = chunks_needed n - 1 then map_option (take target) (chunk_get cs k) else chunk_get cs k) else None)" if "0 < n" for k
    unfolding cs'_def by (rule chunk_get_truncate [OF that])
  have ok': "chunks_ok n cs'"
  proof (cases "n = 0")
    case True
    then show ?thesis
      by (simp add: chunks_ok_def cs'_def chunks_needed_def truncate_last_def vec_resize_def chunk_get_def)
  next
    case False
    have "length ch \<le> ?C \<and> k * ?C + length ch \<le> n" if g: "chunk_get cs' k = Some ch" for k ch
    proof (cases "k = chunks_needed n - 1")
      case True
      then obtain c0 where "chunk_get cs k = Some c0" "ch = take target c0"
        using g get False by (auto split: if_splits)
      then show ?thesis using True chunks_needed_bounds(2) [of n] False by (auto simp: target_def)
    next
      case k: False
      then have k': "k < chunks_needed n - 1" "chunk_get cs k = Some ch"
        using g get False by (auto split: if_splits)
      then have "length ch \<le> ?C" using ok by (simp add: chunks_ok_def)
      moreover have "(k + 1) * ?C \<le> (chunks_needed n - 1) * ?C" using k'(1) by (intro mult_le_mono1) simp
      ultimately show ?thesis using chunks_needed_bounds(2) [of n] False by simp
    qed
    then show ?thesis by (simp add: chunks_ok_def)
  qed
  have byte: "chunk_byte cs' i = chunk_byte cs i" if "i < n" for i
  proof -
    have n: "0 < n" using that by simp
    have k: "i div ?C < chunks_needed n"
      using that chunks_needed_bounds(3) [OF n] by (simp add: div_less_iff_less_mult)
    have "i mod ?C < target" if "i div ?C = chunks_needed n - 1"
    proof -
      have "i = (chunks_needed n - 1) * ?C + i mod ?C" using that by (metis div_mult_mod_eq)
      then show ?thesis using \<open>i < n\<close> mod_less_divisor [OF chunk_pos(1), of i] unfolding target_def by linarith
    qed
    then show ?thesis using k get [OF n, of "i div ?C"]
      by (auto simp: chunk_byte_def split: option.split)
  qed
  have bytes: "mem_bytes (Chunked n cs') = vec_resize (map (chunk_byte cs) [0..<len]) n 0"
    by (rule nth_equalityI) (auto simp: mem_bytes_def mem_len_def byte nth_vec_resize chunk_byte_beyond [OF ok])
  have eq: "resize_chunked len cs n = (if n \<le> MEM_FILE_INLINE_LIMIT then Inline (mem_to_vec (Chunked n cs')) else Chunked n cs')"
    by (simp add: resize_chunked_def cs'_def target_def chunks_needed_def Let_def)
  show "mem_bytes (resize_chunked len cs n) = vec_resize (map (chunk_byte cs) [0..<len]) n 0"
    using bytes by (simp add: eq mem_to_vec_eq) (simp add: mem_bytes_def)
  show "mem_ok (resize_chunked len cs n)" using ok' by (simp add: eq mem_ok_def)
qed

lemma mem_resize_bytes:
  assumes "mem_ok c"
  shows "mem_bytes (mem_resize c n) = vec_resize (mem_bytes c) n 0" "mem_ok (mem_resize c n)"
proof -
  have "mem_bytes (mem_resize c n) = vec_resize (mem_bytes c) n 0 \<and> mem_ok (mem_resize c n)"
  proof (cases c)
    case (Inline bs)
    have "map (chunk_byte (to_chunks bs)) [0..<length bs] = bs"
      using to_chunks_bytes [of bs] by (simp add: mem_bytes_def)
    then show ?thesis using resize_chunked_bytes [OF to_chunks_ok, of bs n]
      by (simp add: Inline mem_resize_def) (simp add: mem_bytes_def mem_ok_def)
  next
    case (Chunked len cs)
    then show ?thesis using resize_chunked_bytes [of len cs n] assms
      by (simp add: mem_resize_def mem_ok_def) (simp add: mem_bytes_def)
  qed
  then show "mem_bytes (mem_resize c n) = vec_resize (mem_bytes c) n 0" "mem_ok (mem_resize c n)" by auto
qed

section \<open>The write loop\<close>

definition chunk_at :: "chunks \<Rightarrow> nat \<Rightarrow> byte list" where
  "chunk_at cs k = (case chunk_get cs k of None \<Rightarrow> [] | Some ch \<Rightarrow> ch)"

definition chunk_patch :: "byte list \<Rightarrow> nat \<Rightarrow> byte list \<Rightarrow> byte list" where
  "chunk_patch ch off ys =
     splice_at (if length ch < off + length ys then vec_resize ch (off + length ys) 0 else ch) off ys"

lemma chunk_get_write:
  "chunk_get (chunk_write cs idx off ys) k =
     (if k = idx then Some (chunk_patch (chunk_at cs idx) off ys) else chunk_get cs k)"
  by (auto simp: chunk_get_def chunk_write_def chunk_at_def chunk_patch_def Let_def nth_vec_resize nth_list_update)

lemma chunk_patch_nth:
  "length (chunk_patch ch off ys) = max (length ch) (off + length ys)"
  "j < length (chunk_patch ch off ys) \<Longrightarrow> chunk_patch ch off ys ! j =
     (if off \<le> j \<and> j < off + length ys then ys ! (j - off) else if j < length ch then ch ! j else 0)"
proof -
  let ?b = "if length ch < off + length ys then vec_resize ch (off + length ys) 0 else ch"
  have room: "off + length ys \<le> length ?b" by simp
  show len: "length (chunk_patch ch off ys) = max (length ch) (off + length ys)"
    using room by (simp add: chunk_patch_def max_def)
  assume "j < length (chunk_patch ch off ys)"
  then have j: "j < max (length ch) (off + length ys)" by (simp add: len)
  have "chunk_patch ch off ys ! j = (if off \<le> j \<and> j < off + length ys then ys ! (j - off) else ?b ! j)"
    unfolding chunk_patch_def by (rule nth_splice [OF room])
  moreover have "?b ! j = (if j < length ch then ch ! j else 0)"
    using j by (auto simp: nth_vec_resize)
  ultimately show "chunk_patch ch off ys ! j =
     (if off \<le> j \<and> j < off + length ys then ys ! (j - off) else if j < length ch then ch ! j else 0)" by simp
qed

lemma chunk_byte_at:
  "chunk_byte cs i = (if i mod MEM_FILE_CHUNK_SIZE < length (chunk_at cs (i div MEM_FILE_CHUNK_SIZE))
     then chunk_at cs (i div MEM_FILE_CHUNK_SIZE) ! (i mod MEM_FILE_CHUNK_SIZE) else 0)"
  by (simp add: chunk_byte_def chunk_at_def split: option.split)

lemma shift_iff:
  "i = b + (im :: nat) \<Longrightarrow> p = b + pm \<Longrightarrow>
   (pm \<le> im \<and> im < pm + l \<longleftrightarrow> p \<le> i \<and> i < p + l) \<and> im - pm = i - p"
  by auto

lemma chunk_write_byte:
  assumes "pos mod MEM_FILE_CHUNK_SIZE + length ys \<le> MEM_FILE_CHUNK_SIZE"
  shows "chunk_byte (chunk_write cs (pos div MEM_FILE_CHUNK_SIZE) (pos mod MEM_FILE_CHUNK_SIZE) ys) i =
    (if pos \<le> i \<and> i < pos + length ys then ys ! (i - pos) else chunk_byte cs i)"
proof -
  let ?C = MEM_FILE_CHUNK_SIZE
  have i: "i = i div ?C * ?C + i mod ?C" and pos: "pos = pos div ?C * ?C + pos mod ?C" by simp_all
  have new: "chunk_at (chunk_write cs (pos div ?C) (pos mod ?C) ys) k =
      (if k = pos div ?C then chunk_patch (chunk_at cs k) (pos mod ?C) ys else chunk_at cs k)" for k
    by (simp add: chunk_at_def [of "chunk_write _ _ _ _"] chunk_get_write) (simp add: chunk_at_def)
  show ?thesis
  proof (cases "i div ?C = pos div ?C")
    case True
    have iff: "pos mod ?C \<le> i mod ?C \<and> i mod ?C < pos mod ?C + length ys \<longleftrightarrow> pos \<le> i \<and> i < pos + length ys"
      and diff: "i mod ?C - pos mod ?C = i - pos"
      using shift_iff [of i "pos div ?C * ?C" "i mod ?C" pos "pos mod ?C" "length ys"] i pos True by metis+
    show ?thesis
      unfolding chunk_byte_at new using True iff diff
      by (auto simp: chunk_patch_nth less_max_iff_disj)
  next
    case False
    have "\<not> (pos \<le> i \<and> i < pos + length ys)"
    proof
      assume a: "pos \<le> i \<and> i < pos + length ys"
      then have "pos mod ?C + (i - pos) < ?C" using assms by linarith
      from same_chunk(1) [OF this] a False show False by simp
    qed
    with False show ?thesis by (auto simp: chunk_byte_at new)
  qed
qed

lemma chunk_write_ok:
  assumes "chunks_ok n cs" "pos + length ys \<le> n" "pos mod MEM_FILE_CHUNK_SIZE + length ys \<le> MEM_FILE_CHUNK_SIZE"
  shows "chunks_ok n (chunk_write cs (pos div MEM_FILE_CHUNK_SIZE) (pos mod MEM_FILE_CHUNK_SIZE) ys)"
proof -
  let ?C = MEM_FILE_CHUNK_SIZE
  have pos: "pos = pos div ?C * ?C + pos mod ?C" by simp
  have old: "length (chunk_at cs k) \<le> ?C \<and> (k * ?C + length (chunk_at cs k) \<le> n \<or> chunk_at cs k = [])" for k
    using assms(1) by (auto simp: chunks_ok_def chunk_at_def split: option.split)
  have "pos div ?C * ?C + max (length (chunk_at cs (pos div ?C))) (pos mod ?C + length ys) \<le> n"
    using old [of "pos div ?C"] assms(2) pos by (auto simp: max_def)
  moreover have "max (length (chunk_at cs (pos div ?C))) (pos mod ?C + length ys) \<le> ?C"
    using old [of "pos div ?C"] assms(3) by simp
  ultimately show ?thesis
    using assms(1) by (auto simp: chunks_ok_def chunk_get_write chunk_patch_nth)
qed

lemma write_loop_correct:
  "chunks_ok n cs \<Longrightarrow> offset + length buf \<le> n \<Longrightarrow>
   chunks_ok n (write_loop offset buf copied cs) \<and>
   (\<forall>i. chunk_byte (write_loop offset buf copied cs) i =
      (if offset + copied \<le> i \<and> i < offset + length buf then buf ! (i - offset) else chunk_byte cs i))"
proof (induction offset buf copied cs rule: write_loop.induct)
  case (1 offset buf copied cs)
  show ?case
  proof (cases "copied < length buf")
    case False
    then show ?thesis using "1.prems" by (subst (1 2) write_loop.simps) auto
  next
    case True
    define pos where "pos = offset + copied"
    define k where "k = min (length buf - copied) (MEM_FILE_CHUNK_SIZE - pos mod MEM_FILE_CHUNK_SIZE)"
    define ys where "ys = take k (drop copied buf)"
    define cs1 where "cs1 = chunk_write cs (pos div MEM_FILE_CHUNK_SIZE) (pos mod MEM_FILE_CHUNK_SIZE) ys"
    have len: "length ys = k" by (simp add: ys_def k_def)
    have room: "pos mod MEM_FILE_CHUNK_SIZE + length ys \<le> MEM_FILE_CHUNK_SIZE"
      using mod_less_divisor [OF chunk_pos(1), of pos] unfolding len k_def by linarith
    have kle: "copied + k \<le> length buf" using True by (simp add: k_def)
    have ok1: "chunks_ok n cs1"
      unfolding cs1_def by (rule chunk_write_ok [OF "1.prems"(1) _ room]) (use "1.prems"(2) kle in \<open>simp add: pos_def len\<close>)
    have b1: "chunk_byte cs1 i = (if pos \<le> i \<and> i < pos + k then ys ! (i - pos) else chunk_byte cs i)" for i
      unfolding cs1_def using chunk_write_byte [OF room] by (simp add: len)
    have IH: "chunks_ok n (write_loop offset buf (copied + k) cs1) \<and>
       (\<forall>i. chunk_byte (write_loop offset buf (copied + k) cs1) i =
        (if offset + (copied + k) \<le> i \<and> i < offset + length buf then buf ! (i - offset) else chunk_byte cs1 i))"
      unfolding cs1_def ys_def
      by (rule "1.IH" [OF True pos_def refl refl k_def])
         (use ok1 "1.prems"(2) in \<open>simp_all add: cs1_def ys_def\<close>)
    have eq: "write_loop offset buf copied cs = write_loop offset buf (copied + k) cs1"
      using True by (subst write_loop.simps) (simp add: cs1_def ys_def k_def pos_def Let_def)
    have "ys ! (i - pos) = buf ! (i - offset)" if "pos \<le> i" "i < pos + k" for i
    proof -
      have "i - pos < k" "copied + (i - pos) = i - offset" using that by (simp_all add: pos_def)
      then show ?thesis using kle by (simp add: ys_def)
    qed
    then show ?thesis unfolding eq using IH b1 kle by (auto simp: pos_def)
  qed
qed

lemma splice_bytes:
  assumes "\<And>i. f i = (if off \<le> i \<and> i < off + length buf then buf ! (i - off) else g i)" "off + length buf \<le> n"
  shows "map f [0..<n] = splice_at (map g [0..<n]) off buf"
  by (rule nth_equalityI) (use assms in \<open>auto simp: nth_splice\<close>)

lemma mem_write_at_bytes:
  assumes "mem_ok c"
  shows "mem_bytes (fst (mem_write_at c off buf)) =
      splice_at (vec_resize (mem_bytes c) (max (mem_len c) (off + length buf)) 0) off buf"
    and "mem_ok (fst (mem_write_at c off buf))"
proof -
  define c1 where "c1 = (if off + length buf > mem_len c then mem_resize c (off + length buf) else c)"
  have c1: "mem_bytes c1 = vec_resize (mem_bytes c) (max (mem_len c) (off + length buf)) 0" "mem_ok c1"
    using mem_resize_bytes [OF assms, of "off + length buf"] assms by (auto simp: c1_def max_def vec_resize_def)
  have "length (mem_bytes c1) = max (mem_len c) (off + length buf)" unfolding c1(1) by simp
  then have len: "off + length buf \<le> mem_len c1" by simp
  have "mem_bytes (fst (mem_write_at c off buf)) = splice_at (mem_bytes c1) off buf \<and> mem_ok (fst (mem_write_at c off buf))"
  proof (cases c1)
    case (Inline bs)
    then show ?thesis by (simp add: mem_write_at_def Let_def c1_def [symmetric] mem_bytes_def mem_ok_def)
  next
    case (Chunked n cs)
    have ok: "chunks_ok n cs" "off + length buf \<le> n" using c1(2) len by (simp_all add: Chunked mem_ok_def mem_len_def)
    note W = write_loop_correct [OF ok, of 0]
    have "map (chunk_byte (write_loop off buf 0 cs)) [0..<n] = splice_at (map (chunk_byte cs) [0..<n]) off buf"
      by (rule splice_bytes) (use W ok in auto)
    then show ?thesis using W
      by (simp add: mem_write_at_def Let_def c1_def [symmetric] Chunked mem_bytes_def mem_ok_def)
  qed
  then show "mem_bytes (fst (mem_write_at c off buf)) =
      splice_at (vec_resize (mem_bytes c) (max (mem_len c) (off + length buf)) 0) off buf"
    "mem_ok (fst (mem_write_at c off buf))" by (simp_all add: c1)
qed

section \<open>Descriptors of in-memory files\<close>

text \<open>The \<open>MemFile\<close> branches of \<open>FileDescriptor\<close>: the record is the open file (its offset and
  mode), the content is the shared backing. \<open>isize\<close> offsets are integers of their range.\<close>

definition checked_file_end :: "usize \<Rightarrow> usize \<Rightarrow> SysErrNo + usize" where
  "checked_file_end offset len =
     (case checked_add offset len of
        None \<Rightarrow> Inl EFBIG
      | Some e \<Rightarrow> if e > MAX_FILE_OFFSET then Inl EFBIG else Inr e)"

definition checked_seek_from :: "usize \<Rightarrow> int \<Rightarrow> SysErrNo + usize" where
  "checked_seek_from base delta =
     (case (if delta \<ge> 0 then checked_add base (nat delta) else checked_sub base (nat (- delta))) of
        None \<Rightarrow> Inl EINVAL
      | Some next \<Rightarrow> if next > MAX_FILE_OFFSET then Inl EINVAL else Inr next)"

definition is_dev_null_path :: "string \<Rightarrow> bool" where
  "is_dev_null_path p \<longleftrightarrow> p = ''/dev/null'' \<or> p = ''/glibc/dev/null'' \<or> p = ''/musl/dev/null''"

definition is_dev_zero_path :: "string \<Rightarrow> bool" where
  "is_dev_zero_path p \<longleftrightarrow> p = ''/dev/zero'' \<or> p = ''/glibc/dev/zero'' \<or> p = ''/musl/dev/zero''"

definition memfd_read :: "mem_file_fd \<Rightarrow> MemFileContent \<Rightarrow> usize \<Rightarrow> SysErrNo + (byte list \<times> mem_file_fd)" where
  "memfd_read f c buf_len =
     (if \<not> mf_readable f then Inl EBADF
      else if is_dev_null_path (mf_name f) then Inr ([], f)
      else if is_dev_zero_path (mf_name f)
        then Inr (replicate buf_len 0, f\<lparr>mf_offset := saturating_add (mf_offset f) buf_len\<rparr>)
      else if mf_offset f \<ge> mem_len c then Inr ([], f)
      else (let bs = mem_read_at c (mf_offset f) buf_len
            in Inr (bs, f\<lparr>mf_offset := mf_offset f + length bs\<rparr>)))"

definition memfd_read_at :: "mem_file_fd \<Rightarrow> MemFileContent \<Rightarrow> usize \<Rightarrow> usize \<Rightarrow> SysErrNo + byte list" where
  "memfd_read_at f c offset buf_len =
     (if \<not> mf_readable f then Inl EBADF
      else if is_dev_null_path (mf_name f) then Inr []
      else if is_dev_zero_path (mf_name f) then Inr (replicate buf_len 0)
      else if offset \<ge> mem_len c then Inr []
      else Inr (mem_read_at c offset buf_len))"

text \<open>The result carries the number of bytes written, the open file and the new content.\<close>

definition memfd_write ::
  "mem_file_fd \<Rightarrow> MemFileContent \<Rightarrow> byte list \<Rightarrow> (SysErrNo + usize) \<times> mem_file_fd \<times> MemFileContent" where
  "memfd_write f c buf =
     (if \<not> mf_writable f then (Inl EBADF, f, c)
      else if is_dev_null_path (mf_name f) \<or> is_dev_zero_path (mf_name f) then (Inr (length buf), f, c)
      else if buf = [] then (Inr 0, f, c)
      else
        (let f1 = (if mf_append f then f\<lparr>mf_offset := mem_len c\<rparr> else f);
             start = mf_offset f1
         in case checked_file_end start (length buf) of
              Inl e \<Rightarrow> (Inl e, f1, c)
            | Inr fin \<Rightarrow> (Inr (length buf), f1\<lparr>mf_offset := fin\<rparr>, fst (mem_write_at c start buf))))"

definition memfd_write_at ::
  "mem_file_fd \<Rightarrow> MemFileContent \<Rightarrow> usize \<Rightarrow> byte list \<Rightarrow> (SysErrNo + usize) \<times> MemFileContent" where
  "memfd_write_at f c offset buf =
     (if \<not> mf_writable f then (Inl EBADF, c)
      else if is_dev_null_path (mf_name f) \<or> is_dev_zero_path (mf_name f) then (Inr (length buf), c)
      else if buf = [] then (Inr 0, c)
      else (case checked_file_end offset (length buf) of
              Inl e \<Rightarrow> (Inl e, c)
            | Inr _ \<Rightarrow> (Inr (length buf), fst (mem_write_at c offset buf))))"

definition memfd_seek_signed :: "mem_file_fd \<Rightarrow> MemFileContent \<Rightarrow> int \<Rightarrow> usize \<Rightarrow> (SysErrNo + usize) \<times> mem_file_fd" where
  "memfd_seek_signed f c offset whence =
     (case (if whence = 0 then checked_seek_from 0 offset
            else if whence = 1 then checked_seek_from (mf_offset f) offset
            else if whence = 2 then checked_seek_from (mem_len c) offset
            else Inl EINVAL) of
        Inl e \<Rightarrow> (Inl e, f)
      | Inr new_off \<Rightarrow> (Inr new_off, f\<lparr>mf_offset := new_off\<rparr>))"

definition memfd_truncate :: "mem_file_fd \<Rightarrow> MemFileContent \<Rightarrow> usize \<Rightarrow> SysErrNo \<Rightarrow> (SysErrNo + unit) \<times> MemFileContent" where
  "memfd_truncate f c new_len readonly_errno =
     (if new_len > MAX_FILE_OFFSET then (Inl EFBIG, c)
      else if \<not> mf_writable f then (Inl readonly_errno, c)
      else if is_dev_null_path (mf_name f) \<or> is_dev_zero_path (mf_name f) then (Inr (), c)
      else (Inr (), mem_resize c new_len))"

section \<open>The properties of in-memory files\<close>

datatype mem_call = MWrite usize "byte list" | MResize usize | MClear

fun mem_exec :: "mem_call \<Rightarrow> MemFileContent \<Rightarrow> MemFileContent" where
  "mem_exec (MWrite off buf) c = fst (mem_write_at c off buf)"
| "mem_exec (MResize n) c = mem_resize c n"
| "mem_exec MClear c = mem_new"

text \<open>The same calls on a plain byte string.\<close>

fun bytes_exec :: "mem_call \<Rightarrow> byte list \<Rightarrow> byte list" where
  "bytes_exec (MWrite off buf) bs = splice_at (vec_resize bs (max (length bs) (off + length buf)) 0) off buf"
| "bytes_exec (MResize n) bs = vec_resize bs n 0"
| "bytes_exec MClear bs = []"

lemma mem_exec_refines:
  assumes "mem_ok c"
  shows "mem_bytes (mem_exec m c) = bytes_exec m (mem_bytes c)" "mem_ok (mem_exec m c)"
  using mem_write_at_bytes [OF assms] mem_resize_bytes [OF assms]
  by (cases m; simp; simp add: mem_new_def mem_bytes_def mem_ok_def)+

lemma mem_run_refines:
  "mem_ok c \<Longrightarrow> mem_bytes (fold mem_exec ms c) = fold bytes_exec ms (mem_bytes c) \<and> mem_ok (fold mem_exec ms c)"
  by (induction ms arbitrary: c) (simp_all add: mem_exec_refines)

text \<open>C32. The chunked, hole-compressing representation of an in-memory file refines a plain byte
  string: after any sequence of writes, truncations and extensions starting from an empty file
  or a loaded image, reading at any offset returns exactly the bytes the plain string has there,
  zeros in every hole included, and the reported length is its length.\<close>

theorem memfile_refines_bytes:
  "mem_read_at (fold mem_exec ms (from_slice img)) off n = take n (drop off (fold bytes_exec ms img))
   \<and> mem_len (fold mem_exec ms (from_slice img)) = length (fold bytes_exec ms img)"
proof -
  have "mem_bytes (from_slice img) = img" "mem_ok (from_slice img)"
    using to_chunks_bytes [of img] to_chunks_ok [of img]
    by (auto simp: from_slice_def mem_ok_def) (simp add: mem_bytes_def)
  then have "mem_bytes (fold mem_exec ms (from_slice img)) = fold bytes_exec ms img"
    using mem_run_refines [of "from_slice img" ms] by simp
  then show ?thesis by (metis mem_read_at_eq length_mem_bytes)
qed

text \<open>A write to a writable in-memory file either fails with \<open>EFBIG\<close> and changes no byte, exactly
  when its end would pass the largest file offset, or stores the whole buffer: a read at the
  position written returns it, every byte outside the written range keeps its value, and the
  offset moves behind the data.\<close>

theorem memfd_write_read:
  assumes "mem_ok c" "mf_writable f" "buf \<noteq> []" "\<not> is_dev_null_path (mf_name f)" "\<not> is_dev_zero_path (mf_name f)"
    and "start = (if mf_append f then mem_len c else mf_offset f)"
  shows "case memfd_write f c buf of (res, f', c') \<Rightarrow>
    if start + length buf > MAX_FILE_OFFSET then res = Inl EFBIG \<and> c' = c
    else res = Inr (length buf) \<and> mf_offset f' = start + length buf \<and> mem_ok c'
      \<and> mem_read_at c' start (length buf) = buf
      \<and> (\<forall>i < mem_len c. i < start \<or> start + length buf \<le> i \<longrightarrow> mem_bytes c' ! i = mem_bytes c ! i)
      \<and> (\<forall>i. mem_len c \<le> i \<and> i < start \<longrightarrow> mem_bytes c' ! i = 0)"
proof -
  have small: "MAX_FILE_OFFSET \<le> usize_max" by (simp add: MAX_FILE_OFFSET_def usize_max_def)
  show ?thesis
  proof (cases "start + length buf > MAX_FILE_OFFSET")
    case True
    then have "checked_file_end start (length buf) = Inl EFBIG"
      by (simp add: checked_file_end_def checked_add_def)
    then show ?thesis using True assms(2-6) by (auto simp: memfd_write_def Let_def)
  next
    case False
    let ?c = "fst (mem_write_at c start buf)"
    let ?m = "max (mem_len c) (start + length buf)"
    have "checked_file_end start (length buf) = Inr (start + length buf)"
      using False small by (simp add: checked_file_end_def checked_add_def)
    then have w: "memfd_write f c buf = (Inr (length buf),
        (if mf_append f then f\<lparr>mf_offset := mem_len c\<rparr> else f)\<lparr>mf_offset := start + length buf\<rparr>, ?c)"
      using assms(2-6) by (auto simp: memfd_write_def Let_def)
    note B = mem_write_at_bytes [OF assms(1), of start buf]
    have room: "start + length buf \<le> length (vec_resize (mem_bytes c) ?m 0)" by simp
    have at: "mem_bytes ?c ! i = (if start \<le> i \<and> i < start + length buf then buf ! (i - start)
        else if i < mem_len c then mem_bytes c ! i else 0)" if "i < ?m" for i
      using that unfolding B(1) nth_splice [OF room] by (simp add: nth_vec_resize)
    have len: "length (mem_bytes ?c) = ?m" unfolding B(1) length_splice [OF room] by simp
    have "mem_read_at ?c start (length buf) = buf"
      unfolding mem_read_at_eq by (rule nth_equalityI) (auto simp: len at simp del: length_mem_bytes)
    then show ?thesis using False B(2) at by (auto simp: w less_max_iff_disj)
  qed
qed

definition sample_file :: mem_file_fd where
  "sample_file = \<lparr>mf_name = ''/tmp/x'', mf_backing = 1, mf_offset = 2, mf_ofd_owner = 1, mf_readable = True,
     mf_writable = True, mf_append = False, mf_linked = True, mf_node = None\<rparr>"

theorem memfd_write_read_witness:
  "mem_ok mem_new \<and> mf_writable sample_file \<and>
   (case memfd_write sample_file mem_new [7, 8] of (res, f', c') \<Rightarrow>
      res = Inr 2 \<and> mf_offset f' = 4 \<and> mem_read_at c' 2 2 = [7, 8])"
proof -
  have h: "mem_ok mem_new" "mf_writable sample_file" "\<not> is_dev_null_path (mf_name sample_file)"
    "\<not> is_dev_zero_path (mf_name sample_file)" "(2 :: nat) = (if mf_append sample_file then mem_len mem_new else mf_offset sample_file)"
    by (simp_all add: mem_ok_def mem_new_def sample_file_def is_dev_null_path_def is_dev_zero_path_def)
  obtain res f' c' where r: "memfd_write sample_file mem_new [7, 8] = (res, f', c')" by (metis prod_cases3)
  have small: "\<not> 2 + length [7, 8 :: byte] > MAX_FILE_OFFSET" by (simp add: MAX_FILE_OFFSET_def)
  have "[7, 8 :: byte] \<noteq> []" by simp
  from memfd_write_read [OF h(1,2) this h(3-5)] have F: "res = Inr (length [7, 8 :: byte])"
    "mf_offset f' = 2 + length [7, 8 :: byte]" "mem_read_at c' 2 (length [7, 8 :: byte]) = [7, 8]"
    unfolding r prod.case if_not_P [OF small] by blast+
  have len: "length [7, 8 :: byte] = 2" by simp
  show ?thesis using h(1,2) F [unfolded len] by (simp add: r)
qed

end
