(* ===== verification/Buddy.thy ===== *)
theory Buddy
  imports Prelude
begin

unbundle bit_operations_syntax

text \<open>
  The buddy frame allocator the kernel's central frame pool is built on
  (\<open>FrameAllocator\<close> of \<open>vendor/buddy_system_allocator/src/frame.rs\<close>): one ordered set of free
  blocks per size class. The theory shows that the free frames are conserved by splitting and
  merging, that blocks stay disjoint and aligned, and that an allocation of one frame fails only
  when no frame is free.
\<close>

section \<open>State and operations\<close>

definition ORDER :: nat where "ORDER = 32"

record FrameAllocator =
  free_list :: "usize list list"
  allocated :: usize
  total :: usize

definition buddy_new :: FrameAllocator where
  "buddy_new = \<lparr>free_list = replicate ORDER [], allocated = 0, total = 0\<rparr>"

text \<open>The ordered set of one class is a strictly increasing list.\<close>

definition fl_insert :: "usize list list \<Rightarrow> nat \<Rightarrow> usize \<Rightarrow> usize list list" where
  "fl_insert fl j x = fl[j := insort_insert x (fl ! j)]"

definition fl_remove :: "usize list list \<Rightarrow> nat \<Rightarrow> usize \<Rightarrow> usize list list" where
  "fl_remove fl j x = fl[j := remove1 x (fl ! j)]"

text \<open>\<open>next_power_of_two\<close> is \<open>2 ^ size_class\<close>, whose trailing zeros are the class again.\<close>

fun size_class :: "usize \<Rightarrow> nat" where
  "size_class n = (if n \<le> 1 then 0 else Suc (size_class ((n + 1) div 2)))"

definition next_power_of_two :: "usize \<Rightarrow> usize" where
  "next_power_of_two n = 2 ^ size_class n"

fun floor_class :: "usize \<Rightarrow> nat" where
  "floor_class n = (if n \<le> 1 then 0 else Suc (floor_class (n div 2)))"

definition prev_power_of_two :: "usize \<Rightarrow> usize" where
  "prev_power_of_two n = 2 ^ floor_class n"

text \<open>\<open>x & (!x + 1)\<close> at 64 bits.\<close>

definition lowbit :: "usize \<Rightarrow> usize" where
  "lowbit x = x AND (2 ^ 64 - x)"

definition add_size :: "usize \<Rightarrow> usize \<Rightarrow> usize" where
  "add_size current_start fin =
     (let low = (if current_start > 0 then lowbit current_start else 32)
      in min (min low (prev_power_of_two (fin - current_start))) (2 ^ (ORDER - 1)))"

text \<open>The loop of \<open>add_frame\<close>; \<open>floor_class\<close> of the power of two \<open>size\<close> is its trailing zeros.
  The loop ends because every turn advances; a turn of size zero would be the end of it.\<close>

function add_loop :: "usize \<Rightarrow> usize \<Rightarrow> usize list list \<Rightarrow> usize \<Rightarrow> usize list list \<times> usize" where
  "add_loop current_start fin fl tot =
     (if current_start < fin \<and> 0 < add_size current_start fin then
        (let size = add_size current_start fin
         in add_loop (current_start + size) fin (fl_insert fl (floor_class size) current_start) (tot + size))
      else (fl, tot))"
  by auto
termination
  by (relation "measure (\<lambda>(s, e, _, _). e - s)") auto

declare add_loop.simps [simp del] size_class.simps [simp del] floor_class.simps [simp del]

definition add_frame :: "FrameAllocator \<Rightarrow> usize \<Rightarrow> usize \<Rightarrow> FrameAllocator" where
  "add_frame b start fin =
     (case add_loop start fin (free_list b) 0 of (fl, tot) \<Rightarrow>
        b\<lparr>free_list := fl, total := wrapping_add (total b) tot\<rparr>)"

text \<open>Splitting from class \<open>class + d\<close> down to \<open>class\<close>; \<^const>\<open>False\<close> is the early return.\<close>

fun split_down :: "nat \<Rightarrow> nat \<Rightarrow> usize list list \<Rightarrow> usize list list \<times> bool" where
  "split_down class 0 fl = (fl, True)"
| "split_down class (Suc d) fl =
     (let j = class + Suc d
      in case fl ! j of
           [] \<Rightarrow> (fl, False)
         | block # _ \<Rightarrow>
             split_down class d
               (fl_remove (fl_insert (fl_insert fl (j - 1) (block + 2 ^ (j - 1))) (j - 1) block) j block))"

definition alloc_power_of_two :: "FrameAllocator \<Rightarrow> nat \<Rightarrow> FrameAllocator \<times> usize option" where
  "alloc_power_of_two b class =
     (case find (\<lambda>i. free_list b ! i \<noteq> []) [class..<length (free_list b)] of
        None \<Rightarrow> (b, None)
      | Some i \<Rightarrow>
          (case split_down class (i - class) (free_list b) of
             (fl, False) \<Rightarrow> (b\<lparr>free_list := fl\<rparr>, None)
           | (fl, True) \<Rightarrow>
               (case fl ! class of
                  [] \<Rightarrow> (b\<lparr>free_list := fl\<rparr>, None)
                | result # _ \<Rightarrow>
                    (b\<lparr>free_list := fl_remove fl class result,
                       allocated := wrapping_add (allocated b) (2 ^ class)\<rparr>, Some result))))"

definition buddy_alloc :: "FrameAllocator \<Rightarrow> usize \<Rightarrow> FrameAllocator \<times> usize option" where
  "buddy_alloc b n = alloc_power_of_two b (size_class n)"

function merge_up :: "nat \<Rightarrow> usize \<Rightarrow> usize list list \<Rightarrow> usize list list" where
  "merge_up class ptr fl =
     (if class < length fl then
        (let buddy = ptr XOR 2 ^ class
         in if buddy \<in> set (fl ! class)
            then merge_up (class + 1) (min ptr buddy) (fl_remove fl class buddy)
            else fl_insert fl class ptr)
      else fl)"
  by auto
termination
  by (relation "measure (\<lambda>(c, _, fl). length fl - c)") (auto simp: fl_remove_def)

declare merge_up.simps [simp del]

definition buddy_dealloc :: "FrameAllocator \<Rightarrow> usize \<Rightarrow> usize \<Rightarrow> FrameAllocator" where
  "buddy_dealloc b start_frame n =
     b\<lparr>free_list := merge_up (size_class n) start_frame (free_list b),
       allocated := wrapping_sub (allocated b) (2 ^ size_class n)\<rparr>"

section \<open>Blocks and the frames they cover\<close>

fun blk :: "nat \<times> usize \<Rightarrow> nat set" where
  "blk (j, x) = {x..<x + 2 ^ j}"

declare blk.simps [simp del]

definition blocks :: "usize list list \<Rightarrow> (nat \<times> usize) set" where
  "blocks fl = {(j, x). j < length fl \<and> x \<in> set (fl ! j)}"

definition free_frames :: "usize list list \<Rightarrow> nat set" where
  "free_frames fl = \<Union> (blk ` blocks fl)"

text \<open>A well-placed block: aligned, above frame 0 and below \<open>2 ^ 32\<close>.\<close>

fun placed :: "nat \<times> usize \<Rightarrow> bool" where
  "placed (j, x) \<longleftrightarrow> 2 ^ j dvd x \<and> 0 < x \<and> x + 2 ^ j \<le> 2 ^ ORDER"

definition fl_ok :: "usize list list \<Rightarrow> bool" where
  "fl_ok fl \<longleftrightarrow> length fl = ORDER \<and> (\<forall>xs \<in> set fl. sorted xs \<and> distinct xs)
     \<and> (\<forall>p \<in> blocks fl. placed p)
     \<and> (\<forall>p \<in> blocks fl. \<forall>q \<in> blocks fl. p \<noteq> q \<longrightarrow> blk p \<inter> blk q = {})"

lemma fl_okD:
  assumes "fl_ok fl"
  shows "length fl = ORDER" "p \<in> blocks fl \<Longrightarrow> placed p"
    "p \<in> blocks fl \<Longrightarrow> q \<in> blocks fl \<Longrightarrow> p \<noteq> q \<Longrightarrow> blk p \<inter> blk q = {}"
    "j < ORDER \<Longrightarrow> sorted (fl ! j)" "j < ORDER \<Longrightarrow> distinct (fl ! j)"
  using assms by (auto simp: fl_ok_def)

lemma blocks_mem: "(j, x) \<in> blocks fl \<longleftrightarrow> j < length fl \<and> x \<in> set (fl ! j)"
  by (simp add: blocks_def)

lemma blocks_insert: "j < length fl \<Longrightarrow> blocks (fl_insert fl j x) = insert (j, x) (blocks fl)"
  by (auto simp: blocks_def fl_insert_def nth_list_update set_insort_insert split: if_splits)

lemma blocks_remove:
  "j < length fl \<Longrightarrow> distinct (fl ! j) \<Longrightarrow> blocks (fl_remove fl j x) = blocks fl - {(j, x)}"
  by (auto simp: blocks_def fl_remove_def nth_list_update split: if_splits)

lemma length_fl [simp]: "length (fl_insert fl j x) = length fl" "length (fl_remove fl j x) = length fl"
  by (simp_all add: fl_insert_def fl_remove_def)

lemma blk_nonempty: "blk p \<noteq> {}"
  by (cases p) (simp add: blk.simps)

lemma fl_ok_remove:
  assumes "fl_ok fl" "(j, x) \<in> blocks fl"
  shows "fl_ok (fl_remove fl j x)" "free_frames (fl_remove fl j x) = free_frames fl - blk (j, x)"
    "blocks (fl_remove fl j x) = blocks fl - {(j, x)}"
proof -
  have j: "j < length fl" "j < ORDER" using assms fl_okD(1) by (auto simp: blocks_mem)
  show b: "blocks (fl_remove fl j x) = blocks fl - {(j, x)}"
    by (rule blocks_remove [OF j(1) fl_okD(5) [OF assms(1) j(2)]])
  have "sorted xs \<and> distinct xs" if "xs \<in> set (fl_remove fl j x)" for xs
  proof -
    have "xs = remove1 x (fl ! j) \<or> xs \<in> set fl"
      using that set_update_subset_insert [of fl j "remove1 x (fl ! j)"] by (auto simp: fl_remove_def)
    then show ?thesis using assms(1) fl_okD(4,5) [OF assms(1) j(2)] by (auto simp: fl_ok_def sorted_remove1)
  qed
  then show "fl_ok (fl_remove fl j x)" using assms(1) unfolding fl_ok_def b by auto
  have "blk p \<inter> blk (j, x) = {}" if "p \<in> blocks fl" "p \<noteq> (j, x)" for p
    by (rule fl_okD(3) [OF assms(1) that(1) assms(2) that(2)])
  then show "free_frames (fl_remove fl j x) = free_frames fl - blk (j, x)"
    using assms(2) unfolding free_frames_def b by blast
qed

lemma fl_ok_insert:
  assumes "fl_ok fl" "j < ORDER" "placed (j, x)" "blk (j, x) \<inter> free_frames fl = {}"
  shows "fl_ok (fl_insert fl j x)" "free_frames (fl_insert fl j x) = free_frames fl \<union> blk (j, x)"
    "blocks (fl_insert fl j x) = insert (j, x) (blocks fl)"
proof -
  have j: "j < length fl" using assms(1,2) fl_okD(1) by simp
  show b: "blocks (fl_insert fl j x) = insert (j, x) (blocks fl)" by (rule blocks_insert [OF j])
  have "sorted xs \<and> distinct xs" if "xs \<in> set (fl_insert fl j x)" for xs
  proof -
    have "xs = insort_insert x (fl ! j) \<or> xs \<in> set fl"
      using that set_update_subset_insert [of fl j "insort_insert x (fl ! j)"] by (auto simp: fl_insert_def)
    then show ?thesis using assms(1) fl_okD(4,5) [OF assms(1,2)]
      by (auto simp: fl_ok_def sorted_insort_insert distinct_insort_insert)
  qed
  moreover have "blk p \<inter> blk (j, x) = {}" if "p \<in> blocks fl" for p
    using assms(4) that by (auto simp: free_frames_def)
  ultimately show "fl_ok (fl_insert fl j x)" using assms(1,3) unfolding fl_ok_def b by auto
  show "free_frames (fl_insert fl j x) = free_frames fl \<union> blk (j, x)"
    unfolding free_frames_def b by auto
qed

lemma free_frames_bound: "fl_ok fl \<Longrightarrow> f \<in> free_frames fl \<Longrightarrow> 0 < f \<and> f < 2 ^ ORDER"
proof -
  assume ok: "fl_ok fl" and "f \<in> free_frames fl"
  then obtain p where p: "p \<in> blocks fl" "f \<in> blk p" by (auto simp: free_frames_def)
  then show "0 < f \<and> f < 2 ^ ORDER" using fl_okD(2) [OF ok p(1)] by (cases p) (auto simp: blk.simps)
qed

lemma free_frames_finite:
  assumes "fl_ok fl"
  shows "finite (free_frames fl)"
proof (rule finite_subset)
  show "free_frames fl \<subseteq> {..<2 ^ ORDER}"
  proof
    fix f assume "f \<in> free_frames fl"
    from free_frames_bound [OF assms this] show "f \<in> {..<2 ^ ORDER}" by blast
  qed
  show "finite {..<(2 :: nat) ^ ORDER}" by (rule finite_lessThan)
qed

section \<open>Splitting\<close>

lemma blk_split: "blk (Suc k, x) = blk (k, x) \<union> blk (k, x + 2 ^ k)" "blk (k, x) \<inter> blk (k, x + 2 ^ k) = {}"
  by (auto simp: blk.simps)

lemma placed_split: "placed (Suc k, x) \<Longrightarrow> placed (k, x) \<and> placed (k, x + 2 ^ k)"
  by (auto dest: dvd_mult_right)

lemma split_turn:
  assumes ok: "fl_ok fl" and m: "(Suc k, x) \<in> blocks fl"
  defines "fl' \<equiv> fl_remove (fl_insert (fl_insert fl k (x + 2 ^ k)) k x) (Suc k) x"
  shows "fl_ok fl'" "free_frames fl' = free_frames fl"
    "blocks fl' = insert (k, x) (insert (k, x + 2 ^ k) (blocks fl - {(Suc k, x)}))"
proof -
  have k: "Suc k < ORDER" using ok m fl_okD(1) by (auto simp: blocks_mem)
  have pl: "placed (k, x)" "placed (k, x + 2 ^ k)" using placed_split fl_okD(2) [OF ok m] by auto
  have sorted_dist: "sorted (fl ! Suc k)" "distinct (fl ! Suc k)" using fl_okD(4,5) [OF ok k] by auto
  have eq: "fl' = fl_insert (fl_insert (fl_remove fl (Suc k) x) k (x + 2 ^ k)) k x"
    using k fl_okD(1) [OF ok] by (simp add: fl'_def fl_insert_def fl_remove_def list_update_swap)
  note R = fl_ok_remove [OF ok m]
  have sub: "blk (Suc k, x) \<subseteq> free_frames fl" using m by (auto simp: free_frames_def)
  note I1 = fl_ok_insert [OF R(1) _ pl(2)]
  have "blk (k, x + 2 ^ k) \<inter> free_frames (fl_remove fl (Suc k) x) = {}"
    unfolding R(2) blk_split(1) by blast
  note I1 = fl_ok_insert [OF R(1) Suc_lessD [OF k] pl(2) this]
  have "blk (k, x) \<inter> free_frames (fl_insert (fl_remove fl (Suc k) x) k (x + 2 ^ k)) = {}"
    unfolding I1(2) R(2) blk_split(1) using blk_split(2) [of k x] by blast
  note I2 = fl_ok_insert [OF I1(1) Suc_lessD [OF k] pl(1) this]
  show "fl_ok fl'" unfolding eq by (rule I2(1))
  show "free_frames fl' = free_frames fl"
    unfolding eq I2(2) I1(2) R(2) using sub unfolding blk_split(1) by blast
  show "blocks fl' = insert (k, x) (insert (k, x + 2 ^ k) (blocks fl - {(Suc k, x)}))"
    unfolding eq I2(3) I1(3) R(3) ..
qed

lemma split_down_correct:
  "fl_ok fl \<Longrightarrow> class + d < ORDER \<Longrightarrow> fl ! (class + d) \<noteq> [] \<Longrightarrow>
   \<exists>fl'. split_down class d fl = (fl', True) \<and> fl_ok fl' \<and> free_frames fl' = free_frames fl \<and> fl' ! class \<noteq> []"
proof (induction d arbitrary: fl)
  case (Suc d)
  obtain x xs where hd: "fl ! (class + Suc d) = x # xs" using Suc.prems(3) by (cases "fl ! (class + Suc d)") auto
  have len: "length fl = ORDER" by (rule fl_okD(1) [OF Suc.prems(1)])
  have m: "(Suc (class + d), x) \<in> blocks fl" using hd Suc.prems(2) len by (simp add: blocks_mem)
  note T = split_turn [OF Suc.prems(1) m]
  let ?fl = "fl_remove (fl_insert (fl_insert fl (class + d) (x + 2 ^ (class + d))) (class + d) x) (Suc (class + d)) x"
  have "(class + d, x) \<in> blocks ?fl" unfolding T(3) by simp
  then have "?fl ! (class + d) \<noteq> []" by (auto simp: blocks_mem)
  from Suc.IH [OF T(1) _ this] Suc.prems(2) T(2) hd show ?case by simp
qed simp

lemma find_first_class:
  "find (\<lambda>i. fl ! i \<noteq> []) [c..<n] = Some i \<Longrightarrow> c \<le> i \<and> i < n \<and> fl ! i \<noteq> []"
  by (auto simp: find_Some_iff)

lemma alloc_power_of_two_correct:
  assumes ok: "fl_ok (free_list b)" and c: "class < ORDER"
  shows "case alloc_power_of_two b class of (b', res) \<Rightarrow> fl_ok (free_list b') \<and>
    (case res of
       Some p \<Rightarrow> blk (class, p) \<subseteq> free_frames (free_list b) \<and> 2 ^ class dvd p
         \<and> free_frames (free_list b') = free_frames (free_list b) - blk (class, p)
     | None \<Rightarrow> b' = b \<and> (\<forall>(j, x) \<in> blocks (free_list b). j < class))"
proof (cases "find (\<lambda>i. free_list b ! i \<noteq> []) [class..<length (free_list b)]")
  case None
  then have "\<forall>(j, x) \<in> blocks (free_list b). j < class"
    by (fastforce simp: find_None_iff blocks_mem)
  with None ok show ?thesis by (simp add: alloc_power_of_two_def)
next
  case (Some i)
  from find_first_class [OF this] have i: "class \<le> i" "i < ORDER" "free_list b ! i \<noteq> []"
    using fl_okD(1) [OF ok] by auto
  obtain fl where S: "split_down class (i - class) (free_list b) = (fl, True)" "fl_ok fl"
      "free_frames fl = free_frames (free_list b)" "fl ! class \<noteq> []"
    using split_down_correct [OF ok, of "class" "i - class"] i by auto
  obtain p ps where p: "fl ! class = p # ps" using S(4) by (cases "fl ! class") auto
  have m: "(class, p) \<in> blocks fl" using p c fl_okD(1) [OF S(2)] by (simp add: blocks_mem)
  have "2 ^ class dvd p" using fl_okD(2) [OF S(2) m] by simp
  moreover have "blk (class, p) \<subseteq> free_frames fl" using m by (auto simp: free_frames_def)
  ultimately show ?thesis using Some S p fl_ok_remove [OF S(2) m] by (simp add: alloc_power_of_two_def)
qed

section \<open>Merging\<close>

lemma xor_power_eq: "(x :: nat) XOR 2 ^ k = (if bit x k then x - 2 ^ k else x + 2 ^ k)"
proof -
  have flip: "x XOR 2 ^ k = flip_bit k x" by (simp add: flip_bit_eq_xor)
  have "unset_bit k x + 2 ^ k = x" if "bit x k"
  proof -
    have "set_bit k (unset_bit k x) = x"
      using that by (intro bit_eqI) (auto simp: bit_set_bit_iff bit_unset_bit_iff)
    then show ?thesis by (simp add: set_bit_eq bit_unset_bit_iff)
  qed
  then have "unset_bit k x = x - 2 ^ k" if "bit x k" using that by fastforce
  then show ?thesis by (simp add: flip flip_bit_eq_if set_bit_eq)
qed

text \<open>An aligned block and its buddy are the two halves of an aligned block of the next class.\<close>

lemma buddy_halves:
  assumes "2 ^ k dvd (x :: nat)"
  defines "y \<equiv> x XOR 2 ^ k"
  shows "2 ^ Suc k dvd min x y" "blk (Suc k, min x y) = blk (k, x) \<union> blk (k, y)" "max x y = min x y + 2 ^ k" "2 ^ k dvd y"
proof -
  obtain q where q: "x = q * 2 ^ k" using assms(1) by (metis dvd_def mult.commute)
  have bit: "bit x k \<longleftrightarrow> odd q" by (simp add: q bit_iff_odd)
  have "2 ^ Suc k dvd min x y \<and> blk (Suc k, min x y) = blk (k, x) \<union> blk (k, y) \<and> max x y = min x y + 2 ^ k \<and> 2 ^ k dvd y"
  proof (cases "odd q")
    case True
    then obtain r where r: "q = 2 * r + 1" by (auto elim: oddE)
    have xy: "x = r * 2 ^ Suc k + 2 ^ k" by (simp add: q r algebra_simps)
    then have y: "y = r * 2 ^ Suc k" using bit True by (simp add: y_def xor_power_eq)
    have mm: "min x y = y" "max x y = x" by (simp_all add: xy y)
    have "2 ^ Suc k dvd y" unfolding y by (rule dvd_triv_right)
    then have "2 ^ k dvd y" by (auto dest: dvd_mult_right)
    then show ?thesis unfolding mm using \<open>2 ^ Suc k dvd y\<close> blk_split(1) [of k y] by (auto simp: xy y)
  next
    case False
    then obtain r where r: "q = 2 * r" by (auto elim: evenE)
    have xq: "x = r * 2 ^ Suc k" by (simp add: q r algebra_simps)
    have y: "y = x + 2 ^ k" using bit False by (simp add: y_def xor_power_eq)
    have mm: "min x y = x" "max x y = y" by (simp_all add: y)
    have "2 ^ Suc k dvd x" unfolding xq by (rule dvd_triv_right)
    then have "2 ^ k dvd y" unfolding y by (auto dest: dvd_mult_right)
    then show ?thesis unfolding mm using \<open>2 ^ Suc k dvd x\<close> blk_split(1) [of k x] by (auto simp: y)
  qed
  then show "2 ^ Suc k dvd min x y" "blk (Suc k, min x y) = blk (k, x) \<union> blk (k, y)" "max x y = min x y + 2 ^ k" "2 ^ k dvd y"
    by auto
qed

text \<open>The top class never merges: its only block above frame 0 and below \<open>2 ^ 32\<close> is the upper half,
  whose buddy is the lower half, which starts at frame 0.\<close>

lemma placed_top: "placed (ORDER - 1, x) \<Longrightarrow> \<not> placed (ORDER - 1, x XOR 2 ^ (ORDER - 1))"
proof -
  assume p: "placed (ORDER - 1, x)"
  have o: "(2 :: nat) ^ ORDER = 2 * 2 ^ (ORDER - 1)" by (simp add: ORDER_def)
  obtain q where q: "x = 2 ^ (ORDER - 1) * q" using p by (auto elim: dvdE)
  have "q = 1" using p unfolding placed.simps q o by (cases q) auto
  then have "x = 2 ^ (ORDER - 1)" by (simp add: q)
  then show "\<not> placed (ORDER - 1, x XOR 2 ^ (ORDER - 1))" by simp
qed

lemma merge_up_correct:
  "fl_ok fl \<Longrightarrow> class < ORDER \<Longrightarrow> placed (class, ptr) \<Longrightarrow> blk (class, ptr) \<inter> free_frames fl = {} \<Longrightarrow>
   fl_ok (merge_up class ptr fl) \<and> free_frames (merge_up class ptr fl) = free_frames fl \<union> blk (class, ptr)"
proof (induction "class" ptr fl rule: merge_up.induct)
  case (1 k ptr fl)
  have len: "k < length fl" using "1.prems"(1,2) fl_okD(1) by simp
  define y where "y = ptr XOR 2 ^ k"
  show ?case
  proof (cases "y \<in> set (fl ! k)")
    case False
    then have "merge_up k ptr fl = fl_insert fl k ptr"
      using len by (subst merge_up.simps) (simp add: y_def)
    then show ?thesis using fl_ok_insert [OF "1.prems"] by simp
  next
    case True
    then have m: "(k, y) \<in> blocks fl" using len by (simp add: blocks_mem)
    have pk: "2 ^ k dvd ptr" "0 < ptr" "ptr + 2 ^ k \<le> 2 ^ ORDER"
      using "1.prems"(3) unfolding placed.simps by blast+
    have py: "placed (k, y)" by (rule fl_okD(2) [OF "1.prems"(1) m])
    have py': "0 < y" "y + 2 ^ k \<le> 2 ^ ORDER" using py unfolding placed.simps by blast+
    have "k \<noteq> ORDER - 1" using placed_top [of ptr] "1.prems"(3) py unfolding y_def by metis
    then have k1: "k + 1 < ORDER" using "1.prems"(2) by simp
    note H = buddy_halves [OF pk(1), folded y_def]
    have "max ptr y + 2 ^ k \<le> 2 ^ ORDER" using pk(3) py'(2) unfolding max_def by presburger
    then have "min ptr y + 2 ^ Suc k \<le> 2 ^ ORDER" unfolding H(3) power_Suc by linarith
    moreover have "0 < min ptr y" using pk(2) py'(1) by simp
    ultimately have pl: "placed (k + 1, min ptr y)" unfolding placed.simps using H(1) by simp
    note R = fl_ok_remove [OF "1.prems"(1) m]
    have sub: "blk (k, y) \<subseteq> free_frames fl" using m by (auto simp: free_frames_def)
    have H2: "blk (k + 1, min ptr y) = blk (k, ptr) \<union> blk (k, y)" using H(2) by simp
    have dis: "blk (k + 1, min ptr y) \<inter> free_frames (fl_remove fl k y) = {}"
      unfolding R(2) H2 using "1.prems"(4) by blast
    have step: "merge_up k ptr fl = merge_up (k + 1) (min ptr y) (fl_remove fl k y)"
      using len True by (subst merge_up.simps) (simp add: y_def Let_def)
    from "1.IH" [OF len y_def True R(1) k1 pl dis] show ?thesis
      unfolding step R(2) H2 using sub by blast
  qed
qed

section \<open>Adding a range\<close>

lemma lowbit_int: "0 < (x :: int) \<Longrightarrow> \<exists>k. x AND - x = 2 ^ k \<and> 2 ^ k dvd x"
proof (induction "nat x" arbitrary: x rule: less_induct)
  case less
  show ?case
  proof (cases "even x")
    case True
    then obtain y where y: "x = 2 * y" by (auto elim: evenE)
    have "nat y < nat x" "0 < y" using less.prems by (simp_all add: y)
    from less.hyps [OF this] obtain k where k: "y AND - y = 2 ^ k" "2 ^ k dvd y" by blast
    have "x AND - x = push_bit 1 y AND push_bit 1 (- y)" by (simp add: y push_bit_eq_mult mult.commute)
    also have "\<dots> = push_bit 1 (y AND - y)" by (simp only: push_bit_and)
    finally have "x AND - x = 2 * (y AND - y)" by (simp add: push_bit_eq_mult)
    then have "x AND - x = 2 ^ Suc k \<and> 2 ^ Suc k dvd x" using k by (simp add: y)
    then show ?thesis by blast
  next
    case False
    then obtain y where y: "x = 2 * y + 1" by (auto elim: oddE)
    have "- x = 2 * (NOT y) + 1" by (simp add: y not_int_def)
    then have "(- x) div 2 = NOT y" by simp
    moreover have "x div 2 = y" by (simp add: y)
    ultimately have "x AND - x = 1 + 2 * (y AND NOT y)"
      using False by (simp add: and_int_rec [of x "- x"])
    then have "x AND - x = 2 ^ 0 \<and> 2 ^ 0 dvd x" by simp
    then show ?thesis by blast
  qed
qed

lemma lowbit_power:
  assumes "0 < x" "x < 2 ^ 64"
  shows "\<exists>k. lowbit x = 2 ^ k \<and> 2 ^ k dvd x"
proof -
  obtain k where k: "int x AND - int x = 2 ^ k" "2 ^ k dvd int x" using lowbit_int [of "int x"] assms(1) by auto
  have dvd: "2 ^ k dvd x" using k(2) by (metis int_dvd_int_iff of_nat_numeral of_nat_power)
  have le: "(2 :: nat) ^ k \<le> x" using dvd assms(1) by (rule dvd_imp_le)
  have t1: "take_bit 64 (int x) = int x" using assms(2) by (simp add: take_bit_int_eq_self)
  have "int (2 ^ 64 - x) = take_bit 64 (- int x)"
  proof -
    have "(- int x) mod 2 ^ 64 = (- int x + 2 ^ 64) mod 2 ^ 64" by simp
    also have "\<dots> = - int x + 2 ^ 64" using assms by (intro mod_pos_pos_trivial) auto
    finally show ?thesis using assms(2) by (simp add: take_bit_eq_mod of_nat_diff)
  qed
  then have "int (lowbit x) = take_bit 64 (int x) AND take_bit 64 (- int x)"
    by (simp add: lowbit_def of_nat_and_eq t1)
  also have "\<dots> = take_bit 64 (2 ^ k)" by (simp only: take_bit_and [symmetric] k(1))
  also have "\<dots> = 2 ^ k"
  proof (rule take_bit_int_eq_self)
    have "int (2 ^ k) < int (2 ^ 64)" using le assms(2) unfolding of_nat_less_iff by linarith
    then show "(2 :: int) ^ k < 2 ^ 64" by simp
  qed simp
  finally have "lowbit x = 2 ^ k" by (metis of_nat_eq_iff of_nat_numeral of_nat_power)
  then show ?thesis using dvd by blast
qed

lemma floor_class_le: "0 < n \<Longrightarrow> 2 ^ floor_class n \<le> n"
proof (induction n rule: floor_class.induct)
  case (1 n)
  show ?case
  proof (cases "n \<le> 1")
    case True
    then show ?thesis using "1.prems" by (subst floor_class.simps) simp
  next
    case False
    then have "2 * 2 ^ floor_class (n div 2) \<le> n" using "1.IH" by simp
    then show ?thesis using False by (subst floor_class.simps) simp
  qed
qed

lemma floor_class_power [simp]: "floor_class (2 ^ k) = k"
proof (induction k)
  case (Suc k)
  have "(1 :: nat) \<le> 2 ^ k" by simp
  then have "\<not> (2 :: nat) ^ Suc k \<le> 1" unfolding power_Suc by linarith
  then show ?case using Suc by (subst floor_class.simps) simp
qed (simp add: floor_class.simps)

lemma size_class_1 [simp]: "size_class 1 = 0" "size_class (Suc 0) = 0"
  by (simp_all add: size_class.simps)

lemma min_power: "min (2 ^ a) (2 ^ b) = (2 :: nat) ^ min a b"
  by (simp add: min_def)

lemma add_size_power:
  assumes "0 < s" "s < e" "e \<le> 2 ^ ORDER"
  shows "\<exists>c. c < ORDER \<and> add_size s e = 2 ^ c \<and> 2 ^ c dvd s \<and> s + 2 ^ c \<le> e"
proof -
  have "s < 2 ^ 64" using assms(2,3) by (simp add: ORDER_def)
  then obtain k where k: "lowbit s = 2 ^ k" "2 ^ k dvd s" using lowbit_power [OF assms(1)] by blast
  define c where "c = min (min k (floor_class (e - s))) (ORDER - 1)"
  have "add_size s e = 2 ^ c"
    using assms(1) by (simp add: add_size_def prev_power_of_two_def k(1) min_power c_def Let_def)
  moreover have "(2 :: nat) ^ c dvd 2 ^ k" by (rule le_imp_power_dvd) (simp add: c_def)
  then have "2 ^ c dvd s" using k(2) by (rule dvd_trans)
  moreover have "(2 :: nat) ^ c \<le> 2 ^ floor_class (e - s)" by (intro power_increasing) (simp_all add: c_def)
  then have "s + 2 ^ c \<le> e" using floor_class_le [of "e - s"] assms(2) by linarith
  moreover have "c < ORDER" by (simp add: c_def ORDER_def)
  ultimately show ?thesis by blast
qed

lemma add_loop_correct:
  "fl_ok fl \<Longrightarrow> 0 < s \<Longrightarrow> e \<le> 2 ^ ORDER \<Longrightarrow> {s..<e} \<inter> free_frames fl = {} \<Longrightarrow>
   fl_ok (fst (add_loop s e fl tot)) \<and> free_frames (fst (add_loop s e fl tot)) = free_frames fl \<union> {s..<e}"
proof (induction s e fl tot rule: add_loop.induct)
  case (1 s e fl tot)
  show ?case
  proof (cases "s < e")
    case False
    then show ?thesis using "1.prems"(1) by (subst (1 2) add_loop.simps) simp
  next
    case True
    obtain c where c: "c < ORDER" "add_size s e = 2 ^ c" "2 ^ c dvd s" "s + 2 ^ c \<le> e"
      using add_size_power [OF "1.prems"(2) True "1.prems"(3)] by blast
    have cond: "s < e \<and> 0 < add_size s e" using True c(2) by simp
    have bl: "blk (c, s) = {s..<s + 2 ^ c}" by (simp add: blk.simps)
    have pl: "placed (c, s)" unfolding placed.simps using c(3,4) "1.prems"(2,3) by (meson le_trans)
    have "blk (c, s) \<inter> free_frames fl = {}" using "1.prems"(4) c(4) unfolding bl by fastforce
    note I = fl_ok_insert [OF "1.prems"(1) c(1) pl this]
    have "{s + 2 ^ c..<e} \<inter> free_frames (fl_insert fl c s) = {}"
      unfolding I(2) bl using "1.prems"(4) by (auto simp: disjoint_iff)
    with "1.IH" [OF cond refl] I "1.prems"(2,3)
    have IH: "fl_ok (fst (add_loop (s + 2 ^ c) e (fl_insert fl c s) (tot + 2 ^ c)))"
      "free_frames (fst (add_loop (s + 2 ^ c) e (fl_insert fl c s) (tot + 2 ^ c))) = free_frames (fl_insert fl c s) \<union> {s + 2 ^ c..<e}"
      by (simp_all add: c(2))
    have "add_loop s e fl tot = add_loop (s + 2 ^ c) e (fl_insert fl c s) (tot + 2 ^ c)"
      using cond by (subst add_loop.simps) (simp add: c(2) Let_def)
    moreover have "{s..<e} = {s..<s + 2 ^ c} \<union> {s + 2 ^ c..<e}" using c(4) by auto
    ultimately show ?thesis using IH unfolding I(2) bl by (simp add: Un_assoc)
  qed
qed

section \<open>A central pool of frames\<close>

definition block :: "usize \<Rightarrow> usize \<Rightarrow> nat set" where
  "block p n = {p..<p + next_power_of_two n}"

lemma block_one [simp]: "block p 1 = {p}" "block p (Suc 0) = {p}"
  by (auto simp: block_def next_power_of_two_def)

lemma block_blk: "block p n = blk (size_class n, p)"
  by (simp add: block_def next_power_of_two_def blk.simps)

text \<open>
  What the frame caches rely on: a pool owns a finite set of free frames; an allocation takes an
  aligned block out of it, one frame is available whenever any is free, and a block given back
  is free again.
\<close>

locale central_frames =
  fixes inv :: "'c \<Rightarrow> bool"
    and free :: "'c \<Rightarrow> nat set"
    and alloc :: "'c \<Rightarrow> usize \<Rightarrow> 'c \<times> usize option"
    and dealloc :: "'c \<Rightarrow> usize \<Rightarrow> usize \<Rightarrow> 'c"
  assumes finite_free: "inv c \<Longrightarrow> finite (free c)"
    and free_bound: "inv c \<Longrightarrow> f \<in> free c \<Longrightarrow> 0 < f \<and> f < 2 ^ 32"
    and alloc_Some: "inv c \<Longrightarrow> alloc c n = (c', Some p) \<Longrightarrow>
      inv c' \<and> block p n \<subseteq> free c \<and> free c' = free c - block p n \<and> next_power_of_two n dvd p"
    and alloc_None: "inv c \<Longrightarrow> alloc c n = (c', None) \<Longrightarrow> c' = c"
    and alloc_one: "inv c \<Longrightarrow> free c \<noteq> {} \<Longrightarrow> snd (alloc c 1) \<noteq> None"
    and dealloc_law: "inv c \<Longrightarrow> next_power_of_two n dvd p \<Longrightarrow> 0 < p \<Longrightarrow> p + next_power_of_two n \<le> 2 ^ 32 \<Longrightarrow>
      block p n \<inter> free c = {} \<Longrightarrow> inv (dealloc c p n) \<and> free (dealloc c p n) = free c \<union> block p n"
begin

lemma alloc_card:
  assumes "inv c" "alloc c n = (c', Some p)"
  shows "card (free c') + next_power_of_two n = card (free c)"
proof -
  note A = alloc_Some [OF assms]
  have "card (free c - block p n) = card (free c) - card (block p n)"
    using A finite_free [OF assms(1)] by (intro card_Diff_subset) (auto simp: block_def)
  moreover have "card (block p n) \<le> card (free c)"
    using A finite_free [OF assms(1)] by (intro card_mono) auto
  ultimately show ?thesis using A by (simp add: block_def)
qed

lemma dealloc_one:
  assumes "inv c" "0 < p" "p < 2 ^ 32" "p \<notin> free c"
  shows "inv (dealloc c p 1)" "free (dealloc c p 1) = insert p (free c)"
proof -
  have one: "next_power_of_two 1 = 1" by (simp add: next_power_of_two_def)
  have "inv (dealloc c p 1) \<and> free (dealloc c p 1) = free c \<union> block p 1"
    by (rule dealloc_law) (use assms one in auto)
  then show "inv (dealloc c p 1)" "free (dealloc c p 1) = insert p (free c)" by auto
qed

end

definition buddy_ok :: "FrameAllocator \<Rightarrow> bool" where
  "buddy_ok b \<longleftrightarrow> fl_ok (free_list b)"

definition buddy_free :: "FrameAllocator \<Rightarrow> nat set" where
  "buddy_free b = free_frames (free_list b)"

lemma buddy_new_ok: "buddy_ok buddy_new" "buddy_free buddy_new = {}"
proof -
  have "blocks (replicate ORDER []) = {}" by (auto simp: blocks_def)
  then show "buddy_ok buddy_new" "buddy_free buddy_new = {}"
    by (simp_all add: buddy_ok_def buddy_free_def buddy_new_def fl_ok_def free_frames_def)
qed

lemma add_frame_correct:
  assumes "buddy_ok b" "0 < s" "e \<le> 2 ^ ORDER" "{s..<e} \<inter> buddy_free b = {}"
  shows "buddy_ok (add_frame b s e)" "buddy_free (add_frame b s e) = buddy_free b \<union> {s..<e}"
  using add_loop_correct [OF assms(1) [unfolded buddy_ok_def] assms(2,3) assms(4) [unfolded buddy_free_def], of 0]
  by (simp_all add: add_frame_def buddy_ok_def buddy_free_def split: prod.split) auto

lemma alloc_class_too_big: "buddy_ok b \<Longrightarrow> ORDER \<le> class \<Longrightarrow> alloc_power_of_two b class = (b, None)"
  by (simp add: alloc_power_of_two_def buddy_ok_def fl_ok_def)

lemma buddy_alloc_Some:
  assumes "buddy_ok b" "buddy_alloc b n = (b', Some p)"
  shows "buddy_ok b'" "block p n \<subseteq> buddy_free b" "buddy_free b' = buddy_free b - block p n" "next_power_of_two n dvd p"
proof -
  have "size_class n < ORDER"
    using assms alloc_class_too_big [of b "size_class n"] by (fastforce simp: buddy_alloc_def)
  from alloc_power_of_two_correct [OF assms(1) [unfolded buddy_ok_def] this] assms(2)
  show "buddy_ok b'" "block p n \<subseteq> buddy_free b" "buddy_free b' = buddy_free b - block p n" "next_power_of_two n dvd p"
    by (simp_all add: buddy_alloc_def buddy_ok_def buddy_free_def block_blk next_power_of_two_def)
qed

lemma buddy_alloc_None:
  assumes "buddy_ok b" "buddy_alloc b n = (b', None)"
  shows "b' = b" "size_class n = 0 \<Longrightarrow> buddy_free b = {}"
proof -
  have "b' = b \<and> (size_class n = 0 \<longrightarrow> buddy_free b = {})"
  proof (cases "size_class n < ORDER")
    case True
    from alloc_power_of_two_correct [OF assms(1) [unfolded buddy_ok_def] this] assms(2)
    have "b' = b" "\<forall>(j, x) \<in> blocks (free_list b). j < size_class n" by (auto simp: buddy_alloc_def)
    then show ?thesis by (auto simp: buddy_free_def free_frames_def)
  next
    case False
    then show ?thesis using assms alloc_class_too_big [of b "size_class n"]
      by (auto simp: buddy_alloc_def ORDER_def)
  qed
  then show "b' = b" "size_class n = 0 \<Longrightarrow> buddy_free b = {}" by auto
qed

lemma buddy_dealloc_correct:
  assumes "buddy_ok b" "next_power_of_two n dvd p" "0 < p" "p + next_power_of_two n \<le> 2 ^ ORDER"
    and "block p n \<inter> buddy_free b = {}"
  shows "buddy_ok (buddy_dealloc b p n)" "buddy_free (buddy_dealloc b p n) = buddy_free b \<union> block p n"
proof -
  have "(2 :: nat) ^ size_class n < 2 ^ ORDER" using assms(3,4) unfolding next_power_of_two_def by linarith
  then have k: "size_class n < ORDER" by (metis nat_power_less_imp_less zero_less_numeral)
  have "placed (size_class n, p)" using assms(2-4) unfolding placed.simps next_power_of_two_def by blast
  from merge_up_correct [OF assms(1) [unfolded buddy_ok_def] k this] assms(5)
  show "buddy_ok (buddy_dealloc b p n)" "buddy_free (buddy_dealloc b p n) = buddy_free b \<union> block p n"
    by (simp_all add: buddy_dealloc_def buddy_ok_def buddy_free_def block_blk)
qed

interpretation buddy: central_frames buddy_ok buddy_free buddy_alloc buddy_dealloc
proof unfold_locales
  fix c c' :: FrameAllocator and n p f :: usize
  have order: "(2 :: nat) ^ ORDER = 2 ^ 32" by (simp add: ORDER_def)
  assume ok: "buddy_ok c"
  then have fl: "fl_ok (free_list c)" by (simp add: buddy_ok_def)
  show "finite (buddy_free c)" unfolding buddy_free_def by (rule free_frames_finite [OF fl])
  show "0 < f \<and> f < 2 ^ 32" if "f \<in> buddy_free c"
    using free_frames_bound [OF fl] that unfolding buddy_free_def order by blast
  show "buddy_ok c' \<and> block p n \<subseteq> buddy_free c \<and> buddy_free c' = buddy_free c - block p n \<and> next_power_of_two n dvd p"
    if "buddy_alloc c n = (c', Some p)" using buddy_alloc_Some [OF ok that] by blast
  show "c' = c" if "buddy_alloc c n = (c', None)" by (rule buddy_alloc_None(1) [OF ok that])
  show "snd (buddy_alloc c 1) \<noteq> None" if "buddy_free c \<noteq> {}"
    using buddy_alloc_None(2) [OF ok, of 1] that by (metis prod.collapse size_class_1(1))
  show "buddy_ok (buddy_dealloc c p n) \<and> buddy_free (buddy_dealloc c p n) = buddy_free c \<union> block p n"
    if "next_power_of_two n dvd p" "0 < p" "p + next_power_of_two n \<le> 2 ^ 32" "block p n \<inter> buddy_free c = {}"
    using buddy_dealloc_correct [OF ok that(1,2) _ that(4)] that(3) unfolding order by blast
qed

end
