(* ===== verification/Frames.thy ===== *)
theory Frames
  imports Buddy
begin

text \<open>
  Physical frames: \<open>os/src/mm/frame_allocator.rs\<close>. Per-CPU caches sit in front of the central
  buddy pool; a \<open>FrameTracker\<close> counts the owners of a frame and gives it back when the last
  owner goes. The central pool's \<open>alloc\<close> and \<open>dealloc\<close> are arguments of the operations that
  call them, so that the lemmas rest on the interface \<open>central_frames\<close>; the kernel's own
  functions are the instances on the buddy allocator. Every operation is one atomic step: the
  source holds the pool's lock, or the lock of the one cache it touches with interrupts off, and
  ownership passes between the steps through local variables only.
\<close>

section \<open>State\<close>

definition MAX_CPUS :: usize where "MAX_CPUS = 12"
definition FRAME_CACHE_CAPACITY :: usize where "FRAME_CACHE_CAPACITY = 256"
definition FRAME_CACHE_REFILL :: usize where "FRAME_CACHE_REFILL = 64"
definition FRAME_CACHE_FLUSH :: usize where "FRAME_CACHE_FLUSH = 64"
definition u32_max :: nat where "u32_max = 2 ^ 32 - 1"

text \<open>\<open>LocalFrameCache\<close>: the used prefix \<open>frames[..len]\<close> of the array.\<close>

type_synonym LocalFrameCache = "usize list"

record 'c frame_state =
  central :: 'c
  caches :: "LocalFrameCache list"
  refs :: "usize \<Rightarrow> nat"
  regions :: "(usize \<times> usize) list"
  total_managed :: usize
  free_managed :: usize

definition cache_pop :: "LocalFrameCache \<Rightarrow> usize option \<times> LocalFrameCache" where
  "cache_pop c = (if length c = 0 then (None, c) else (Some (last c), butlast c))"

definition cache_push :: "LocalFrameCache \<Rightarrow> usize \<Rightarrow> bool \<times> LocalFrameCache" where
  "cache_push c ppn = (if length c = FRAME_CACHE_CAPACITY then (False, c) else (True, c @ [ppn]))"

text \<open>\<open>drain\<close> into a buffer of \<open>n\<close> entries: the frames in the order they are popped.\<close>

fun cache_drain :: "nat \<Rightarrow> LocalFrameCache \<Rightarrow> usize list \<times> LocalFrameCache" where
  "cache_drain 0 c = ([], c)"
| "cache_drain (Suc n) c =
     (case cache_pop c of
        (None, c') \<Rightarrow> ([], c')
      | (Some ppn, c') \<Rightarrow> (case cache_drain n c' of (out, c'') \<Rightarrow> (ppn # out, c'')))"

definition is_managed_range :: "(usize \<times> usize) list \<Rightarrow> usize \<Rightarrow> usize \<Rightarrow> bool" where
  "is_managed_range regs start_ppn pages =
     (if pages = 0 then True
      else (case checked_add start_ppn pages of
              None \<Rightarrow> False
            | Some end_ppn \<Rightarrow> (\<exists>(s, e) \<in> set regs. start_ppn \<ge> s \<and> end_ppn \<le> e)))"

text \<open>\<open>frame_ref_counter\<close> panics for a frame outside every region.\<close>

definition has_ref_counter :: "(usize \<times> usize) list \<Rightarrow> usize \<Rightarrow> bool" where
  "has_ref_counter regs ppn \<longleftrightarrow> (\<exists>(s, e) \<in> set regs. s \<le> ppn \<and> ppn < e)"

section \<open>The central pool\<close>

text \<open>A block outside the managed regions is discarded and the same size tried again, so whether
  the loop ends depends on the pool: \<^const>\<open>None\<close> stands for a loop that does not.\<close>

partial_function (option) central_loop ::
  "('c \<Rightarrow> usize \<Rightarrow> 'c \<times> usize option) \<Rightarrow> (usize \<times> usize) list \<Rightarrow> 'c \<Rightarrow> usize \<Rightarrow> ('c \<times> (usize \<times> usize) option) option" where
  "central_loop al regs c pages =
     (if pages = 0 then Some (c, None)
      else (case al c pages of
              (c', Some ppn) \<Rightarrow>
                if is_managed_range regs ppn pages then Some (c', Some (ppn, pages))
                else central_loop al regs c' pages
            | (c', None) \<Rightarrow> central_loop al regs c' (pages div 2)))"

definition central_alloc_run ::
  "('c \<Rightarrow> usize \<Rightarrow> 'c \<times> usize option) \<Rightarrow> 'c frame_state \<Rightarrow> usize \<Rightarrow> ('c frame_state \<times> (usize \<times> usize) option) option" where
  "central_alloc_run al st max_pages =
     (if max_pages = 0 then Some (st, None)
      else map_option (\<lambda>(c, run). (st\<lparr>central := c\<rparr>, run))
             (central_loop al (regions st) (central st) (2 ^ floor_class max_pages)))"

definition central_dealloc_pages :: "('c \<Rightarrow> usize \<Rightarrow> usize \<Rightarrow> 'c) \<Rightarrow> usize list \<Rightarrow> 'c \<Rightarrow> 'c" where
  "central_dealloc_pages de pages c = fold (\<lambda>ppn c. de c ppn 1) pages c"

fun drain_caches :: "('c \<Rightarrow> usize \<Rightarrow> usize \<Rightarrow> 'c) \<Rightarrow> LocalFrameCache list \<Rightarrow> 'c \<Rightarrow> LocalFrameCache list \<times> 'c" where
  "drain_caches de [] c = ([], c)"
| "drain_caches de (k # ks) c =
     (case cache_drain FRAME_CACHE_CAPACITY k of (pages, k') \<Rightarrow>
        case drain_caches de ks (if pages \<noteq> [] then central_dealloc_pages de pages c else c) of
          (ks', c') \<Rightarrow> (k' # ks', c'))"

definition drain_all_frame_caches :: "('c \<Rightarrow> usize \<Rightarrow> usize \<Rightarrow> 'c) \<Rightarrow> 'c frame_state \<Rightarrow> 'c frame_state" where
  "drain_all_frame_caches de st =
     (case drain_caches de (caches st) (central st) of (ks, c) \<Rightarrow> st\<lparr>caches := ks, central := c\<rparr>)"

section \<open>Cached allocation\<close>

fun push_run :: "usize list \<Rightarrow> LocalFrameCache \<Rightarrow> usize list \<Rightarrow> LocalFrameCache \<times> usize list" where
  "push_run [] k overflow = (k, overflow)"
| "push_run (ppn # ps) k overflow =
     (case cache_push k ppn of
        (True, k') \<Rightarrow> push_run ps k' overflow
      | (False, k') \<Rightarrow> push_run ps k' (overflow @ [ppn]))"

definition refill :: "('c \<Rightarrow> usize \<Rightarrow> usize \<Rightarrow> 'c) \<Rightarrow> 'c frame_state \<Rightarrow> nat \<Rightarrow> usize \<times> usize \<Rightarrow> 'c frame_state \<times> usize" where
  "refill de st cpu run =
     (case run of (start_ppn, pages) \<Rightarrow>
        case push_run [start_ppn + 1..<start_ppn + pages] (caches st ! cpu) [] of (k, overflow) \<Rightarrow>
          (st\<lparr>caches := (caches st)[cpu := k],
             central := (if overflow = [] then central st else central_dealloc_pages de overflow (central st))\<rparr>,
           start_ppn))"

definition alloc_cached_frame ::
  "('c \<Rightarrow> usize \<Rightarrow> 'c \<times> usize option) \<Rightarrow> ('c \<Rightarrow> usize \<Rightarrow> usize \<Rightarrow> 'c) \<Rightarrow> 'c frame_state \<Rightarrow> nat \<Rightarrow>
     ('c frame_state \<times> usize option) option" where
  "alloc_cached_frame al de st cpu =
     (case cache_pop (caches st ! cpu) of
        (Some ppn, k) \<Rightarrow> Some (st\<lparr>caches := (caches st)[cpu := k]\<rparr>, Some ppn)
      | (None, _) \<Rightarrow>
          (case central_alloc_run al st FRAME_CACHE_REFILL of
             None \<Rightarrow> None
           | Some (st1, Some run) \<Rightarrow> (case refill de st1 cpu run of (st2, p) \<Rightarrow> Some (st2, Some p))
           | Some (st1, None) \<Rightarrow>
               (case central_alloc_run al (drain_all_frame_caches de st1) FRAME_CACHE_REFILL of
                  None \<Rightarrow> None
                | Some (st2, None) \<Rightarrow> Some (st2, None)
                | Some (st2, Some run) \<Rightarrow> (case refill de st2 cpu run of (st3, p) \<Rightarrow> Some (st3, Some p)))))"

definition cache_deallocated_frame :: "('c \<Rightarrow> usize \<Rightarrow> usize \<Rightarrow> 'c) \<Rightarrow> 'c frame_state \<Rightarrow> nat \<Rightarrow> usize \<Rightarrow> 'c frame_state" where
  "cache_deallocated_frame de st cpu ppn =
     (case cache_push (caches st ! cpu) ppn of
        (True, k) \<Rightarrow> st\<lparr>caches := (caches st)[cpu := k]\<rparr>
      | (False, k) \<Rightarrow>
          (case cache_drain FRAME_CACHE_FLUSH k of (flushed, k1) \<Rightarrow>
             case cache_push k1 ppn of (_, k2) \<Rightarrow>
               st\<lparr>caches := (caches st)[cpu := k2],
                  central := (if flushed = [] then central st else central_dealloc_pages de flushed (central st))\<rparr>))"

section \<open>Trackers\<close>

text \<open>Outer \<^const>\<open>None\<close>: a failed assertion, a missing counter, or a loop that does not end.\<close>

definition tracker_new :: "'c frame_state \<Rightarrow> usize \<Rightarrow> 'c frame_state option" where
  "tracker_new st ppn =
     (if \<not> has_ref_counter (regions st) ppn then None
      else if refs st ppn \<noteq> 0 then None
      else Some (st\<lparr>refs := (refs st)(ppn := 1)\<rparr>))"

definition tracker_clone :: "'c frame_state \<Rightarrow> usize \<Rightarrow> 'c frame_state option" where
  "tracker_clone st ppn =
     (if \<not> has_ref_counter (regions st) ppn then None
      else if refs st ppn = 0 \<or> refs st ppn = u32_max then None
      else Some (st\<lparr>refs := (refs st)(ppn := refs st ppn + 1)\<rparr>))"

definition dealloc_frame_inner :: "('c \<Rightarrow> usize \<Rightarrow> usize \<Rightarrow> 'c) \<Rightarrow> 'c frame_state \<Rightarrow> nat \<Rightarrow> usize \<Rightarrow> 'c frame_state" where
  "dealloc_frame_inner de st cpu ppn =
     (if \<not> is_managed_range (regions st) ppn 1 then st
      else cache_deallocated_frame de (st\<lparr>free_managed := wrapping_add (free_managed st) 1\<rparr>) cpu ppn)"

definition tracker_drop :: "('c \<Rightarrow> usize \<Rightarrow> usize \<Rightarrow> 'c) \<Rightarrow> 'c frame_state \<Rightarrow> nat \<Rightarrow> usize \<Rightarrow> 'c frame_state option" where
  "tracker_drop de st cpu ppn =
     (if \<not> has_ref_counter (regions st) ppn then None
      else if refs st ppn = 0 then None
      else (let st1 = st\<lparr>refs := (refs st)(ppn := refs st ppn - 1)\<rparr>
            in if refs st ppn = 1 then Some (dealloc_frame_inner de st1 cpu ppn) else Some st1))"

definition into_raw_ppn :: "'c frame_state \<Rightarrow> usize \<Rightarrow> ('c frame_state \<times> usize) option" where
  "into_raw_ppn st ppn =
     (if \<not> has_ref_counter (regions st) ppn then None
      else if refs st ppn \<noteq> 1 then None
      else Some (st\<lparr>refs := (refs st)(ppn := 0)\<rparr>, ppn))"

definition dealloc_frame :: "('c \<Rightarrow> usize \<Rightarrow> usize \<Rightarrow> 'c) \<Rightarrow> 'c frame_state \<Rightarrow> nat \<Rightarrow> usize \<Rightarrow> 'c frame_state option" where
  "dealloc_frame de st cpu ppn =
     (if \<not> has_ref_counter (regions st) ppn then None
      else if refs st ppn \<noteq> 0 then None
      else Some (dealloc_frame_inner de st cpu ppn))"

definition alloc_frame ::
  "('c \<Rightarrow> usize \<Rightarrow> 'c \<times> usize option) \<Rightarrow> ('c \<Rightarrow> usize \<Rightarrow> usize \<Rightarrow> 'c) \<Rightarrow> 'c frame_state \<Rightarrow> nat \<Rightarrow>
     ('c frame_state \<times> usize option) option" where
  "alloc_frame al de st cpu =
     (case alloc_cached_frame al de st cpu of
        None \<Rightarrow> None
      | Some (st1, None) \<Rightarrow> Some (st1, None)
      | Some (st1, Some ppn) \<Rightarrow>
          map_option (\<lambda>st2. (st2, Some ppn))
            (tracker_new (st1\<lparr>free_managed := wrapping_sub (free_managed st1) 1\<rparr>) ppn))"

definition add_frames_range :: "FrameAllocator frame_state \<Rightarrow> usize \<Rightarrow> usize \<Rightarrow> FrameAllocator frame_state" where
  "add_frames_range st start fin =
     (let start_ppn = max (wrapping_add start (PAGE_SIZE - 1) div PAGE_SIZE) 1;
          end_ppn = fin div PAGE_SIZE
      in if start_ppn < end_ppn
         then st\<lparr>central := add_frame (central st) start_ppn end_ppn,
                 regions := regions st @ [(start_ppn, end_ppn)],
                 total_managed := wrapping_add (total_managed st) (end_ppn - start_ppn),
                 free_managed := wrapping_add (free_managed st) (end_ppn - start_ppn)\<rparr>
         else st)"

definition frames_init :: "FrameAllocator frame_state" where
  "frames_init = \<lparr>central = buddy_new, caches = replicate MAX_CPUS [], refs = (\<lambda>_. 0), regions = [],
     total_managed = 0, free_managed = 0\<rparr>"

section \<open>Contiguous blocks\<close>

text \<open>A first failure drains the caches and retries; a block outside the regions is discarded.\<close>

partial_function (option) contiguous_loop ::
  "('c \<Rightarrow> usize \<Rightarrow> 'c \<times> usize option) \<Rightarrow> ('c \<Rightarrow> usize \<Rightarrow> usize \<Rightarrow> 'c) \<Rightarrow> usize \<Rightarrow> bool \<Rightarrow> 'c frame_state \<Rightarrow>
     ('c frame_state \<times> usize option) option" where
  "contiguous_loop al de pages drained st =
     (case al (central st) pages of
        (c, None) \<Rightarrow>
          if drained then Some (st\<lparr>central := c\<rparr>, None)
          else contiguous_loop al de pages True (drain_all_frame_caches de (st\<lparr>central := c\<rparr>))
      | (c, Some ppn) \<Rightarrow>
          if is_managed_range (regions st) ppn pages
          then Some (st\<lparr>central := c, free_managed := wrapping_sub (free_managed st) pages\<rparr>, Some ppn)
          else contiguous_loop al de pages drained (st\<lparr>central := c\<rparr>))"

definition alloc_contiguous_frames where
  "alloc_contiguous_frames al de st pages =
     (if pages = 0 then Some (st, Some 0) else contiguous_loop al de pages False st)"

definition dealloc_contiguous_frames ::
  "('c \<Rightarrow> usize \<Rightarrow> usize \<Rightarrow> 'c) \<Rightarrow> 'c frame_state \<Rightarrow> usize \<Rightarrow> usize \<Rightarrow> 'c frame_state" where
  "dealloc_contiguous_frames de st start_ppn pages =
     (if pages \<noteq> 0 then
        (if \<not> is_managed_range (regions st) start_ppn pages then st
         else st\<lparr>central := de (central st) start_ppn pages,
                 free_managed := wrapping_add (free_managed st) pages\<rparr>)
      else st)"

section \<open>Caches\<close>

lemma cache_pop_mset: "cache_pop c = (Some p, c') \<Longrightarrow> mset c = add_mset p (mset c') \<and> length c' < length c"
  by (cases c rule: rev_cases) (auto simp: cache_pop_def)

lemma cache_pop_None: "cache_pop c = (None, c') \<longleftrightarrow> c = [] \<and> c' = []"
  by (auto simp: cache_pop_def)

lemma cache_drain_mset: "cache_drain n c = (out, c') \<Longrightarrow> mset out + mset c' = mset c \<and> length out = min n (length c)"
proof (induction n arbitrary: c out)
  case (Suc n)
  show ?case
  proof (cases c rule: rev_cases)
    case Nil
    then show ?thesis using Suc.prems by (simp add: cache_pop_def)
  next
    case (snoc ys y)
    obtain o1 where d: "cache_drain n ys = (o1, c')" "out = y # o1"
      using Suc.prems by (auto simp: snoc cache_pop_def split: prod.splits)
    from Suc.IH [OF d(1)] show ?thesis by (simp add: snoc d(2))
  qed
qed simp

lemma cache_drain_all: "length c \<le> n \<Longrightarrow> \<exists>out. cache_drain n c = (out, []) \<and> mset out = mset c"
proof -
  assume l: "length c \<le> n"
  obtain out c' where d: "cache_drain n c = (out, c')" by fastforce
  from cache_drain_mset [OF d] l have "mset out + mset c' = mset c" "length out = length c" by auto
  then have "c' = []" by (metis add_cancel_right_right length_0_conv size_mset size_union)
  with d \<open>mset out + mset c' = mset c\<close> show ?thesis by auto
qed

lemma push_run_mset:
  "push_run ps k ov = (k', ov') \<Longrightarrow> length k \<le> FRAME_CACHE_CAPACITY \<Longrightarrow>
   mset k' + mset ov' = mset k + mset ps + mset ov \<and> length k' \<le> FRAME_CACHE_CAPACITY"
proof (induction ps arbitrary: k ov)
  case (Cons p ps)
  show ?case
  proof (cases "length k = FRAME_CACHE_CAPACITY")
    case True
    then show ?thesis using Cons.IH [of k "ov @ [p]"] Cons.prems by (simp add: cache_push_def)
  next
    case False
    then show ?thesis using Cons.IH [of "k @ [p]" ov] Cons.prems by (simp add: cache_push_def)
  qed
qed simp

lemma concat_update_mset:
  "i < length ks \<Longrightarrow> mset (concat (ks[i := k])) + mset (ks ! i) = mset (concat ks) + mset k"
proof (induction ks arbitrary: i)
  case (Cons x ks)
  then show ?case by (cases i) (simp_all add: ac_simps)
qed simp

lemma distinct_mset_eq: "mset xs = mset ys \<Longrightarrow> distinct xs = distinct ys \<and> set xs = set ys"
  using mset_eq_imp_distinct_iff mset_eq_setD by blast

section \<open>Managed frames\<close>

definition managed :: "(usize \<times> usize) list \<Rightarrow> nat set" where
  "managed regs = (\<Union>(s, e) \<in> set regs. {s..<e})"

text \<open>Regions lie above frame 0 and below \<open>2 ^ 32\<close> and do not touch, so that no block of the
  pool can straddle two of them.\<close>

definition regions_ok :: "(usize \<times> usize) list \<Rightarrow> bool" where
  "regions_ok regs \<longleftrightarrow> (\<forall>(s, e) \<in> set regs. 0 < s \<and> s < e \<and> e \<le> 2 ^ 32)
     \<and> (\<forall>(s, e) \<in> set regs. \<forall>(s', e') \<in> set regs. (s, e) \<noteq> (s', e') \<longrightarrow> e < s' \<or> e' < s)"

lemma managed_bound: "regions_ok regs \<Longrightarrow> f \<in> managed regs \<Longrightarrow> 0 < f \<and> f < 2 ^ 32"
  by (fastforce simp: regions_ok_def managed_def)

lemma managed_finite: "finite (managed regs)"
  by (auto simp: managed_def)

lemma managed_mem: "f \<in> managed regs \<longleftrightarrow> (\<exists>s e. (s, e) \<in> set regs \<and> s \<le> f \<and> f < e)"
  by (force simp: managed_def)

lemma managed_has_counter: "f \<in> managed regs \<longleftrightarrow> has_ref_counter regs f"
  unfolding managed_mem has_ref_counter_def by force

lemma run_in_region:
  assumes ok: "regions_ok regs" and "0 < n" and sub: "{p..<p + n} \<subseteq> managed regs"
  shows "\<exists>s e. (s, e) \<in> set regs \<and> s \<le> p \<and> p + n \<le> e"
  using assms(2,3)
proof (induction n)
  case (Suc n)
  show ?case
  proof (cases "n = 0")
    case True
    then have "p \<in> managed regs" using Suc.prems(2) by auto
    then show ?thesis using True unfolding managed_mem by force
  next
    case False
    have "{p..<p + n} \<subseteq> managed regs" using Suc.prems(2) by auto
    then obtain s e where se: "(s, e) \<in> set regs" "s \<le> p" "p + n \<le> e" using Suc.IH False by blast
    have "p + n \<in> managed regs" using Suc.prems(2) by auto
    then obtain s' e' where se': "(s', e') \<in> set regs" "s' \<le> p + n" "p + n < e'" unfolding managed_mem by blast
    have "(s, e) = (s', e')"
    proof (rule ccontr)
      assume ne: "(s, e) \<noteq> (s', e')"
      have "\<forall>(s, e) \<in> set regs. \<forall>(s', e') \<in> set regs. (s, e) \<noteq> (s', e') \<longrightarrow> e < s' \<or> e' < s"
        using ok by (simp add: regions_ok_def)
      from bspec [OF this se(1)] have "\<forall>(s', e') \<in> set regs. (s, e) \<noteq> (s', e') \<longrightarrow> e < s' \<or> e' < s" by simp
      from bspec [OF this se'(1)] ne have "e < s' \<or> e' < s" by simp
      then show False using se se' by linarith
    qed
    then have "e' = e" by simp
    then have "p + Suc n \<le> e" using se'(3) by simp
    then show ?thesis using se by blast
  qed
qed simp

lemma run_is_managed:
  assumes "regions_ok regs" "{p..<p + n} \<subseteq> managed regs"
  shows "is_managed_range regs p n"
proof (cases "n = 0")
  case False
  then obtain s e where se: "(s, e) \<in> set regs" "s \<le> p" "p + n \<le> e"
    using run_in_region [OF assms(1) _ assms(2)] by blast
  have "e \<le> 2 ^ 32" using assms(1) se(1) by (auto simp: regions_ok_def)
  then have "p + n \<le> usize_max" using se(3) by (simp add: usize_max_def)
  then show ?thesis using se False by (auto simp: is_managed_range_def checked_add_def)
qed (simp add: is_managed_range_def)

lemma size_class_power [simp]: "size_class (2 ^ k) = k"
proof (induction k)
  case (Suc k)
  have "(1 :: nat) \<le> 2 ^ k" by simp
  then have "\<not> (2 :: nat) ^ Suc k \<le> 1" unfolding power_Suc by linarith
  moreover have "(2 ^ Suc k + 1) div 2 = (2 :: nat) ^ k" by simp
  ultimately show ?case using Suc by (subst size_class.simps) simp
qed (simp add: size_class.simps)

lemma next_power_of_two_power [simp]: "next_power_of_two (2 ^ k) = 2 ^ k"
  by (simp add: next_power_of_two_def)

lemma le_next_power_of_two: "n \<le> next_power_of_two n"
  unfolding next_power_of_two_def
proof (induction n rule: size_class.induct)
  case (1 n)
  show ?case
  proof (cases "n \<le> 1")
    case False
    then have "(n + 1) div 2 \<le> 2 ^ size_class ((n + 1) div 2)" by (rule "1.IH")
    then show ?thesis using False by (subst size_class.simps) simp
  next
    case True
    then show ?thesis by (subst size_class.simps) simp
  qed
qed

section \<open>The free pool\<close>

definition cached :: "'c frame_state \<Rightarrow> nat set" where
  "cached st = set (concat (caches st))"

definition pool :: "('c \<Rightarrow> nat set) \<Rightarrow> 'c frame_state \<Rightarrow> nat set" where
  "pool fr st = fr (central st) \<union> cached st"

definition pool_ok :: "('c \<Rightarrow> bool) \<Rightarrow> ('c \<Rightarrow> nat set) \<Rightarrow> 'c frame_state \<Rightarrow> bool" where
  "pool_ok iv fr st \<longleftrightarrow> iv (central st) \<and> length (caches st) = MAX_CPUS
     \<and> (\<forall>k \<in> set (caches st). length k \<le> FRAME_CACHE_CAPACITY)
     \<and> distinct (concat (caches st)) \<and> fr (central st) \<inter> cached st = {}
     \<and> regions_ok (regions st) \<and> pool fr st \<subseteq> managed (regions st)"

context central_frames
begin

lemma central_dealloc_pages_law:
  "inv c \<Longrightarrow> distinct ps \<Longrightarrow> set ps \<inter> free c = {} \<Longrightarrow> \<forall>p \<in> set ps. 0 < p \<and> p < 2 ^ 32 \<Longrightarrow>
   inv (central_dealloc_pages dealloc ps c) \<and> free (central_dealloc_pages dealloc ps c) = free c \<union> set ps"
proof (induction ps arbitrary: c)
  case (Cons p ps)
  have D: "inv (dealloc c p 1)" "free (dealloc c p 1) = insert p (free c)"
    using dealloc_one [of c p] Cons.prems by auto
  have "set ps \<inter> free (dealloc c p 1) = {}" using Cons.prems D(2) by auto
  from Cons.IH [OF D(1) _ this] Cons.prems D(2) show ?case
    by (auto simp: central_dealloc_pages_def)
qed (simp add: central_dealloc_pages_def)

lemma drain_caches_law:
  "inv c \<Longrightarrow> \<forall>k \<in> set ks. length k \<le> FRAME_CACHE_CAPACITY \<Longrightarrow> distinct (concat ks) \<Longrightarrow>
   set (concat ks) \<inter> free c = {} \<Longrightarrow> \<forall>p \<in> set (concat ks). 0 < p \<and> p < 2 ^ 32 \<Longrightarrow>
   \<exists>c'. drain_caches dealloc ks c = (replicate (length ks) [], c') \<and> inv c' \<and> free c' = free c \<union> set (concat ks)"
proof (induction ks arbitrary: c)
  case (Cons k ks)
  obtain out where out: "cache_drain FRAME_CACHE_CAPACITY k = (out, [])" "mset out = mset k"
    using cache_drain_all [of k FRAME_CACHE_CAPACITY] Cons.prems(2) by auto
  have o: "distinct out" "set out = set k" using distinct_mset_eq [OF out(2)] Cons.prems(3) by auto
  define c1 where "c1 = (if out \<noteq> [] then central_dealloc_pages dealloc out c else c)"
  have c1: "inv c1" "free c1 = free c \<union> set k"
    using central_dealloc_pages_law [OF Cons.prems(1) o(1)] Cons.prems(1,4,5) o(2) by (auto simp: c1_def)
  have "set (concat ks) \<inter> free c1 = {}" using Cons.prems(3,4) c1(2) by auto
  from Cons.IH [OF c1(1) _ _ this] Cons.prems obtain c' where
    "drain_caches dealloc ks c1 = (replicate (length ks) [], c')" "inv c'" "free c' = free c1 \<union> set (concat ks)" by auto
  then show ?case using out(1) c1(2) by (auto simp: c1_def)
qed simp

lemma drain_all_law:
  assumes "pool_ok inv free st"
  shows "pool_ok inv free (drain_all_frame_caches dealloc st)"
    and "pool free (drain_all_frame_caches dealloc st) = pool free st"
    and "cached (drain_all_frame_caches dealloc st) = {}"
    and "drain_all_frame_caches dealloc st = st\<lparr>caches := caches (drain_all_frame_caches dealloc st),
      central := central (drain_all_frame_caches dealloc st)\<rparr>"
proof -
  have b: "\<forall>p \<in> set (concat (caches st)). 0 < p \<and> p < 2 ^ 32"
    using assms managed_bound [of "regions st"] by (auto simp: pool_ok_def pool_def cached_def)
  obtain c where D: "drain_caches dealloc (caches st) (central st) = (replicate (length (caches st)) [], c)"
      "inv c" "free c = free (central st) \<union> set (concat (caches st))"
    using drain_caches_law [OF _ _ _ _ b, of "central st"] assms unfolding pool_ok_def cached_def by blast
  let ?s = "drain_all_frame_caches dealloc st"
  have s: "?s = st\<lparr>caches := replicate (length (caches st)) [], central := c\<rparr>"
    by (simp add: drain_all_frame_caches_def D(1))
  show cd: "cached ?s = {}" by (auto simp: s cached_def)
  show pl: "pool free ?s = pool free st" using cd D(3) by (simp add: pool_def) (simp add: s cached_def)
  have "distinct (concat (replicate n []))" for n :: nat by (induction n) auto
  then show "pool_ok inv free ?s" using assms D(2) cd pl unfolding pool_ok_def by (auto simp: s)
  show "?s = st\<lparr>caches := caches ?s, central := central ?s\<rparr>" by (simp add: s)
qed

text \<open>The refill loop ends: under \<open>regions_ok\<close> no block of the pool is unmanaged, and halving
  the size reaches one frame, which is available whenever any is.\<close>

lemma central_loop_law:
  assumes "inv c" "regions_ok regs" "free c \<subseteq> managed regs"
  shows "\<exists>c' r. central_loop alloc regs c (2 ^ k) = Some (c', r) \<and> inv c' \<and>
    (case r of
       None \<Rightarrow> c' = c \<and> free c = {}
     | Some (p, n) \<Rightarrow> 0 < n \<and> n \<le> 2 ^ k \<and> {p..<p + n} \<subseteq> free c \<and> free c' = free c - {p..<p + n})"
proof (induction k)
  case (Suc k)
  obtain c' r where a: "alloc c (2 ^ Suc k) = (c', r)" by fastforce
  show ?case
  proof (cases r)
    case None
    have "c' = c" by (rule alloc_None [OF assms(1) a [unfolded None]])
    then have "central_loop alloc regs c (2 ^ Suc k) = central_loop alloc regs c (2 ^ k)"
      using a None by (subst central_loop.simps) simp
    then show ?thesis using Suc.IH by (fastforce split: option.splits)
  next
    case (Some p)
    note A = alloc_Some [OF assms(1) a [unfolded Some]]
    have sub: "{p..<p + 2 ^ Suc k} \<subseteq> managed regs" using A assms(3) unfolding block_def next_power_of_two_power by blast
    have "central_loop alloc regs c (2 ^ Suc k) = Some (c', Some (p, 2 ^ Suc k))"
      using a Some run_is_managed [OF assms(2) sub] by (subst central_loop.simps) simp
    then show ?thesis using A unfolding block_def next_power_of_two_power by auto
  qed
next
  case 0
  obtain c' r where a: "alloc c 1 = (c', r)" by fastforce
  show ?case
  proof (cases r)
    case None
    have "c' = c" by (rule alloc_None [OF assms(1) a [unfolded None]])
    moreover have "free c = {}" using alloc_one [OF assms(1)] a None by auto
    moreover have "central_loop alloc regs c 1 = Some (c', None)"
      using a None by (subst central_loop.simps) (simp add: central_loop.simps)
    ultimately show ?thesis using assms(1) by auto
  next
    case (Some p)
    note A = alloc_Some [OF assms(1) a [unfolded Some]]
    have "{p..<p + 1} \<subseteq> managed regs" using A assms(3) by auto
    then have "central_loop alloc regs c 1 = Some (c', Some (p, 1))"
      using a Some run_is_managed [OF assms(2), of p 1] by (subst central_loop.simps) simp
    then show ?thesis using A by auto
  qed
qed

lemma central_alloc_run_law:
  assumes ok: "pool_ok inv free st" and n: "0 < n"
  shows "\<exists>c' r. central_alloc_run alloc st n = Some (st\<lparr>central := c'\<rparr>, r) \<and> inv c' \<and>
    (case r of
       None \<Rightarrow> c' = central st \<and> free (central st) = {}
     | Some (p, n) \<Rightarrow> 0 < n \<and> {p..<p + n} \<subseteq> free (central st) \<and> free c' = free (central st) - {p..<p + n})"
proof -
  have "inv (central st)" "regions_ok (regions st)" "free (central st) \<subseteq> managed (regions st)"
    using ok by (auto simp: pool_ok_def pool_def)
  from central_loop_law [OF this, of "floor_class n"] obtain c' r where
    "central_loop alloc (regions st) (central st) (2 ^ floor_class n) = Some (c', r)" "inv c'"
    "case r of None \<Rightarrow> c' = central st \<and> free (central st) = {}
      | Some (p, m) \<Rightarrow> 0 < m \<and> m \<le> 2 ^ floor_class n \<and> {p..<p + m} \<subseteq> free (central st) \<and> free c' = free (central st) - {p..<p + m}"
    by blast
  then show ?thesis using n by (auto simp: central_alloc_run_def split: option.splits)
qed

lemma refill_law:
  assumes ok: "pool_ok inv free st" and cpu: "cpu < MAX_CPUS"
    and run: "0 < n" "{p..<p + n} \<subseteq> managed (regions st)" "{p..<p + n} \<inter> pool free st = {}"
  shows "\<exists>st'. refill dealloc st cpu (p, n) = (st', p) \<and> pool_ok inv free st'
    \<and> pool free st' = pool free st \<union> {p + 1..<p + n} \<and> st' = st\<lparr>caches := caches st', central := central st'\<rparr>"
proof -
  have len: "cpu < length (caches st)" using ok cpu by (simp add: pool_ok_def)
  let ?ps = "[p + 1..<p + n]" and ?k = "caches st ! cpu"
  obtain k ov where pr: "push_run ?ps ?k [] = (k, ov)" by fastforce
  have "length ?k \<le> FRAME_CACHE_CAPACITY" using ok len by (auto simp: pool_ok_def)
  from push_run_mset [OF pr this] have P: "mset k + mset ov = mset ?k + mset ?ps" "length k \<le> FRAME_CACHE_CAPACITY" by auto
  define ks where "ks = (caches st)[cpu := k]"
  have ks_mset: "mset (concat ks @ ov) = mset (concat (caches st) @ ?ps)"
  proof -
    have "mset (concat ks) + mset ?k + mset ov = mset (concat (caches st)) + (mset k + mset ov)"
      using concat_update_mset [OF len, of k] by (simp add: ks_def ac_simps)
    then show ?thesis unfolding P(1) by (simp add: ac_simps)
  qed
  have "set ?ps \<subseteq> {p..<p + n}" by auto
  then have fresh: "set ?ps \<inter> pool free st = {}" using run(3) by blast
  have "distinct (concat (caches st) @ ?ps)"
    using ok fresh unfolding pool_ok_def pool_def cached_def by auto
  then have D: "distinct (concat ks @ ov)" "set (concat ks) \<union> set ov = cached st \<union> {p + 1..<p + n}"
    using distinct_mset_eq [OF ks_mset] by (auto simp: cached_def)
  have disj: "(cached st \<union> {p + 1..<p + n}) \<inter> free (central st) = {}"
    using ok run(3) \<open>set ?ps \<subseteq> {p..<p + n}\<close> unfolding pool_ok_def pool_def set_upt by blast
  have ov_free: "set ov \<inter> free (central st) = {}" using disj D(2) by blast
  have "{p + 1..<p + n} \<subseteq> managed (regions st)" using run(2) by auto
  moreover have "cached st \<subseteq> managed (regions st)" using ok by (auto simp: pool_ok_def pool_def)
  ultimately have "set ov \<subseteq> managed (regions st)" using D(2) by blast
  then have ov_b: "\<forall>q \<in> set ov. 0 < q \<and> q < 2 ^ 32"
    using managed_bound ok by (auto simp: pool_ok_def)
  define c where "c = (if ov = [] then central st else central_dealloc_pages dealloc ov (central st))"
  have c: "inv c" "free c = free (central st) \<union> set ov"
    using central_dealloc_pages_law [OF _ _ ov_free ov_b] ok D(1) by (auto simp: c_def pool_ok_def)
  define st' where "st' = st\<lparr>caches := ks, central := c\<rparr>"
  have "refill dealloc st cpu (p, n) = (st', p)"
    unfolding refill_def prod.case pr st'_def ks_def c_def by (rule refl)
  moreover have pl: "pool free st' = pool free st \<union> {p + 1..<p + n}"
    using D(2) c(2) by (auto simp: pool_def cached_def st'_def)
  moreover have "pool_ok inv free st'"
  proof -
    have "\<forall>k' \<in> set ks. length k' \<le> FRAME_CACHE_CAPACITY"
      using ok P(2) set_update_subset_insert [of "caches st" cpu k] by (auto simp: ks_def pool_ok_def)
    moreover have "free c \<inter> set (concat ks) = {}" using c(2) D disj by auto
    moreover have "pool free st' \<subseteq> managed (regions st)"
      unfolding pl using ok run(2) by (auto simp: pool_ok_def)
    ultimately show ?thesis using ok c(1) D(1) by (simp add: pool_ok_def st'_def ks_def cached_def)
  qed
  ultimately show ?thesis by (auto simp: st'_def)
qed

text \<open>Taking a run out of a state with the same pool and refilling from it.\<close>

lemma take_run_law:
  assumes cpu: "cpu < MAX_CPUS"
    and s: "pool_ok inv free s" "pool free s = pool free st" "s = st\<lparr>caches := caches s, central := central s\<rparr>"
    and c: "inv c" "0 < n" "{p..<p + n} \<subseteq> free (central s)" "free c = free (central s) - {p..<p + n}"
  shows "\<exists>st'. refill dealloc (s\<lparr>central := c\<rparr>) cpu (p, n) = (st', p) \<and> pool_ok inv free st'
      \<and> st' = st\<lparr>caches := caches st', central := central st'\<rparr> \<and> p \<in> pool free st \<and> pool free st' = pool free st - {p}"
proof -
  have ok1: "pool_ok inv free (s\<lparr>central := c\<rparr>)"
    using s(1) c by (auto simp: pool_ok_def pool_def cached_def)
  have pl: "pool free (s\<lparr>central := c\<rparr>) = pool free st - {p..<p + n}"
    using s(1,2) c(3,4) by (auto simp: pool_ok_def pool_def cached_def)
  have "{p..<p + n} \<subseteq> managed (regions (s\<lparr>central := c\<rparr>))"
    using s(1) c(3) by (auto simp: pool_ok_def pool_def)
  from refill_law [OF ok1 cpu c(2) this] obtain st' where R:
    "refill dealloc (s\<lparr>central := c\<rparr>) cpu (p, n) = (st', p)" "pool_ok inv free st'"
    "pool free st' = pool free (s\<lparr>central := c\<rparr>) \<union> {p + 1..<p + n}"
    "st' = s\<lparr>central := c, caches := caches st', central := central st'\<rparr>"
    using pl by auto
  have sub: "{p..<p + n} \<subseteq> pool free st" using s(2) c(3) unfolding pool_def by blast
  moreover have "p \<in> {p..<p + n}" using c(2) by simp
  ultimately have "p \<in> pool free st" by blast
  moreover have "pool free st' = pool free st - {p}" unfolding R(3) pl using c(2) sub by auto
  moreover have "st' = st\<lparr>caches := caches st', central := central st'\<rparr>"
    using R(4) s(3) by (cases st; cases s; cases st') simp
  ultimately show ?thesis using R(1,2) by blast
qed

lemma cache_pop_law:
  assumes ok: "pool_ok inv free st" and cpu: "cpu < MAX_CPUS" and pop: "cache_pop (caches st ! cpu) = (Some p, k0)"
  defines "st' \<equiv> st\<lparr>caches := (caches st)[cpu := k0]\<rparr>"
  shows "pool_ok inv free st'" "p \<in> pool free st" "pool free st' = pool free st - {p}"
proof -
  have len: "cpu < length (caches st)" using ok cpu by (simp add: pool_ok_def)
  from cache_pop_mset [OF pop] have K: "mset (caches st ! cpu) = add_mset p (mset k0)"
    "length k0 < length (caches st ! cpu)" by auto
  have m: "mset (concat (caches st)) = mset (p # concat (caches st'))"
    using concat_update_mset [OF len, of k0] by (simp add: K(1) st'_def)
  then have S: "distinct (p # concat (caches st'))" "cached st = insert p (cached st')"
    using ok distinct_mset_eq [OF m] by (auto simp: pool_ok_def cached_def)
  have caps: "\<forall>k \<in> set (caches st'). length k \<le> FRAME_CACHE_CAPACITY"
  proof
    fix k assume "k \<in> set (caches st')"
    then have "k = k0 \<or> k \<in> set (caches st)"
      using set_update_subset_insert [of "caches st" cpu k0] by (auto simp: st'_def)
    moreover have "length (caches st ! cpu) \<le> FRAME_CACHE_CAPACITY" using ok len by (auto simp: pool_ok_def)
    ultimately show "length k \<le> FRAME_CACHE_CAPACITY" using ok K(2) by (auto simp: pool_ok_def)
  qed
  have "p \<notin> free (central st)" using ok S(2) by (auto simp: pool_ok_def)
  then show pl: "pool free st' = pool free st - {p}" and "p \<in> pool free st"
    using S by (auto simp: pool_def st'_def cached_def)
  show "pool_ok inv free st'"
    using ok S caps pl unfolding pool_ok_def by (auto simp: st'_def cached_def)
qed

lemma alloc_cached_frame_law:
  assumes ok: "pool_ok inv free st" and cpu: "cpu < MAX_CPUS"
  shows "\<exists>st' r. alloc_cached_frame alloc dealloc st cpu = Some (st', r) \<and> pool_ok inv free st'
    \<and> st' = st\<lparr>caches := caches st', central := central st'\<rparr>
    \<and> (case r of None \<Rightarrow> pool free st = {} \<and> pool free st' = {}
       | Some p \<Rightarrow> p \<in> pool free st \<and> pool free st' = pool free st - {p})"
proof -
  obtain k0 r0 where pop: "cache_pop (caches st ! cpu) = (r0, k0)" by fastforce
  show ?thesis
  proof (cases r0)
    case (Some p)
    from cache_pop_law [OF ok cpu pop [unfolded Some]] show ?thesis
      using pop Some by (auto simp: alloc_cached_frame_def)
  next
    case None
    obtain c1 r1 where run1: "central_alloc_run alloc st FRAME_CACHE_REFILL = Some (st\<lparr>central := c1\<rparr>, r1)" "inv c1"
        "case r1 of None \<Rightarrow> c1 = central st \<and> free (central st) = {}
          | Some (p, n) \<Rightarrow> 0 < n \<and> {p..<p + n} \<subseteq> free (central st) \<and> free c1 = free (central st) - {p..<p + n}"
      using central_alloc_run_law [OF ok, of FRAME_CACHE_REFILL] by (auto simp: FRAME_CACHE_REFILL_def)
    show ?thesis
    proof (cases r1)
      case (Some run)
      obtain p n where pn: "run = (p, n)" by fastforce
      from take_run_law [OF cpu ok refl _ run1(2), of n p] run1(3) show ?thesis
        using pop None run1(1) by (auto simp: alloc_cached_frame_def Some pn)
    next
      case r1: None
      let ?d = "drain_all_frame_caches dealloc st"
      note D = drain_all_law [OF ok]
      have same: "st\<lparr>central := c1\<rparr> = st" using run1(3) r1 by simp
      obtain c2 r2 where run2: "central_alloc_run alloc ?d FRAME_CACHE_REFILL = Some (?d\<lparr>central := c2\<rparr>, r2)" "inv c2"
          "case r2 of None \<Rightarrow> c2 = central ?d \<and> free (central ?d) = {}
            | Some (p, n) \<Rightarrow> 0 < n \<and> {p..<p + n} \<subseteq> free (central ?d) \<and> free c2 = free (central ?d) - {p..<p + n}"
        using central_alloc_run_law [OF D(1), of FRAME_CACHE_REFILL] by (auto simp: FRAME_CACHE_REFILL_def)
      show ?thesis
      proof (cases r2)
        case None
        then have "c2 = central ?d" "free (central ?d) = {}" using run2(3) by auto
        then have "?d\<lparr>central := c2\<rparr> = ?d" "pool free ?d = {}" using D(3) by (auto simp: pool_def)
        then show ?thesis using D pop \<open>r0 = None\<close> run1(1) r1 same run2(1) None
          by (auto simp: alloc_cached_frame_def)
      next
        case (Some run)
        obtain p n where pn: "run = (p, n)" by fastforce
        from take_run_law [OF cpu D(1,2,4) run2(2), of n p] run2(3) show ?thesis
          using pop None run1(1) r1 same run2(1) by (auto simp: alloc_cached_frame_def Some pn)
      qed
    qed
  qed
qed

lemma cache_deallocated_law:
  assumes ok: "pool_ok inv free st" and cpu: "cpu < MAX_CPUS"
    and p: "p \<in> managed (regions st)" "p \<notin> pool free st"
  shows "\<exists>st'. cache_deallocated_frame dealloc st cpu p = st' \<and> pool_ok inv free st'
    \<and> pool free st' = insert p (pool free st) \<and> st' = st\<lparr>caches := caches st', central := central st'\<rparr>"
proof -
  let ?k = "caches st ! cpu"
  have len: "cpu < length (caches st)" and cap: "length ?k \<le> FRAME_CACHE_CAPACITY"
    using ok cpu by (auto simp: pool_ok_def)
  text \<open>The frames flushed to the pool and the cache that results.\<close>
  obtain fl k where K: "mset k + mset fl = add_mset p (mset ?k)" "length k \<le> FRAME_CACHE_CAPACITY"
    "cache_deallocated_frame dealloc st cpu p = st\<lparr>caches := (caches st)[cpu := k],
       central := (if fl = [] then central st else central_dealloc_pages dealloc fl (central st))\<rparr>"
  proof (cases "length ?k = FRAME_CACHE_CAPACITY")
    case False
    then show ?thesis using that [of "?k @ [p]" "[]"] cap by (simp add: cache_deallocated_frame_def cache_push_def)
  next
    case True
    obtain fl k1 where d: "cache_drain FRAME_CACHE_FLUSH ?k = (fl, k1)" by fastforce
    from cache_drain_mset [OF d] True have D: "mset fl + mset k1 = mset ?k" "length fl = 64"
      by (auto simp: FRAME_CACHE_FLUSH_def FRAME_CACHE_CAPACITY_def)
    have "length fl + length k1 = length ?k" using arg_cong [OF D(1), of size] by simp
    then have l1: "length k1 < FRAME_CACHE_CAPACITY" using D(2) True by simp
    show ?thesis
    proof (rule that [of "k1 @ [p]" fl])
      show "mset (k1 @ [p]) + mset fl = add_mset p (mset ?k)" using D(1) by (simp add: ac_simps)
      show "length (k1 @ [p]) \<le> FRAME_CACHE_CAPACITY" using l1 by simp
      show "cache_deallocated_frame dealloc st cpu p = st\<lparr>caches := (caches st)[cpu := k1 @ [p]],
         central := (if fl = [] then central st else central_dealloc_pages dealloc fl (central st))\<rparr>"
        using True l1 by (simp add: cache_deallocated_frame_def cache_push_def d)
    qed
  qed
  define ks where "ks = (caches st)[cpu := k]"
  have ks_mset: "mset (concat ks @ fl) = mset (p # concat (caches st))"
  proof -
    have "mset (concat ks) + mset fl + mset ?k = mset (concat (caches st)) + (mset k + mset fl)"
      using concat_update_mset [OF len, of k] by (simp add: ks_def ac_simps)
    then show ?thesis unfolding K(1) by simp
  qed
  have "distinct (p # concat (caches st))" using ok p(2) by (auto simp: pool_ok_def pool_def cached_def)
  then have D: "distinct (concat ks @ fl)" "set (concat ks) \<union> set fl = insert p (cached st)"
    using distinct_mset_eq [OF ks_mset] by (auto simp: cached_def)
  have disj: "insert p (cached st) \<inter> free (central st) = {}" using ok p(2) by (auto simp: pool_ok_def pool_def)
  have fl_free: "set fl \<inter> free (central st) = {}" using disj D(2) by blast
  have "insert p (cached st) \<subseteq> managed (regions st)" using ok p(1) by (auto simp: pool_ok_def pool_def)
  then have "set fl \<subseteq> managed (regions st)" using D(2) by (metis Un_upper2 subset_trans)
  then have fl_b: "\<forall>q \<in> set fl. 0 < q \<and> q < 2 ^ 32" using managed_bound ok by (auto simp: pool_ok_def)
  define c where "c = (if fl = [] then central st else central_dealloc_pages dealloc fl (central st))"
  have c: "inv c" "free c = free (central st) \<union> set fl"
    using central_dealloc_pages_law [OF _ _ fl_free fl_b] ok D(1) by (auto simp: c_def pool_ok_def)
  define st' where "st' = st\<lparr>caches := ks, central := c\<rparr>"
  have pl: "pool free st' = insert p (pool free st)"
    using D(2) c(2) by (auto simp: pool_def cached_def st'_def)
  have "\<forall>k' \<in> set ks. length k' \<le> FRAME_CACHE_CAPACITY"
    using ok K(2) set_update_subset_insert [of "caches st" cpu k] by (auto simp: ks_def pool_ok_def)
  moreover have "free c \<inter> set (concat ks) = {}" using c(2) D disj by auto
  ultimately have "pool_ok inv free st'"
    using ok c(1) D(1) pl p(1) by (simp add: pool_ok_def st'_def ks_def cached_def)
  then show ?thesis using pl K(3) by (auto simp: st'_def ks_def c_def)
qed

end

section \<open>Ownership\<close>

text \<open>
  \<open>frames_ok raw extra\<close>: every managed frame is free (in the pool or a cache), owned by trackers,
  in \<open>raw\<close>, the frames handed out without a tracker (page tables, contiguous blocks), or in
  \<open>extra\<close>, the frames by which the pool rounds a contiguous block up while it is held, and only in
  one of these; the counter of free frames is the number of free and extra frames.
\<close>

definition tracked :: "'c frame_state \<Rightarrow> nat set" where
  "tracked st = {f. refs st f > 0}"

definition frames_ok :: "('c \<Rightarrow> bool) \<Rightarrow> ('c \<Rightarrow> nat set) \<Rightarrow> nat set \<Rightarrow> nat set \<Rightarrow> 'c frame_state \<Rightarrow> bool" where
  "frames_ok iv fr raw extra st \<longleftrightarrow> pool_ok iv fr st
     \<and> pool fr st \<inter> tracked st = {} \<and> (pool fr st \<union> tracked st) \<inter> raw = {}
     \<and> (pool fr st \<union> tracked st \<union> raw) \<inter> extra = {}
     \<and> pool fr st \<union> tracked st \<union> raw \<union> extra = managed (regions st)
     \<and> free_managed st = card (pool fr st) + card extra"

lemma parts_take:
  assumes "P \<inter> T = {}" "(P \<union> T) \<inter> R = {}" "(P \<union> T \<union> R) \<inter> E = {}" "P \<union> T \<union> R \<union> E = M"
    and "A \<union> B \<subseteq> P" "A \<inter> B = {}"
  shows "(P - (A \<union> B)) \<inter> T = {}" "(P - (A \<union> B) \<union> T) \<inter> (R \<union> A) = {}"
    "(P - (A \<union> B) \<union> T \<union> (R \<union> A)) \<inter> (E \<union> B) = {}" "P - (A \<union> B) \<union> T \<union> (R \<union> A) \<union> (E \<union> B) = M"
  using assms by auto

lemma parts_give:
  assumes "P \<inter> T = {}" "(P \<union> T) \<inter> R = {}" "(P \<union> T \<union> R) \<inter> E = {}" "P \<union> T \<union> R \<union> E = M"
    and "A \<subseteq> R" "B \<subseteq> E"
  shows "(P \<union> (A \<union> B)) \<inter> T = {}" "(P \<union> (A \<union> B) \<union> T) \<inter> (R - A) = {}"
    "(P \<union> (A \<union> B) \<union> T \<union> (R - A)) \<inter> (E - B) = {}" "P \<union> (A \<union> B) \<union> T \<union> (R - A) \<union> (E - B) = M"
  using assms by auto

lemma frames_ok_unowned:
  assumes "frames_ok iv fr raw extra st" "p \<in> pool fr st"
  shows "p \<in> managed (regions st)" "refs st p = 0" "p \<notin> raw" "p \<notin> extra"
proof -
  have "p \<notin> tracked st" using assms by (auto simp: frames_ok_def)
  then show "refs st p = 0" by (simp add: tracked_def)
qed (use assms in \<open>auto simp: frames_ok_def\<close>)

lemma frames_ok_finite:
  assumes "frames_ok iv fr raw extra st"
  shows "finite (pool fr st)" "finite raw" "finite extra" "finite (tracked st)"
proof -
  have "pool fr st \<union> tracked st \<union> raw \<union> extra = managed (regions st)" using assms by (simp add: frames_ok_def)
  then show "finite (pool fr st)" "finite raw" "finite extra" "finite (tracked st)"
    using managed_finite [of "regions st"] by (metis finite_Un)+
qed

lemma frames_ok_bound:
  assumes "frames_ok iv fr raw extra st"
  shows "card (pool fr st) + card raw + card extra + card (tracked st) \<le> 2 ^ 32"
proof -
  note fin = frames_ok_finite [OF assms]
  have d: "pool fr st \<inter> tracked st = {}" "(pool fr st \<union> tracked st) \<inter> raw = {}"
    "(pool fr st \<union> tracked st \<union> raw) \<inter> extra = {}"
    "pool fr st \<union> tracked st \<union> raw \<union> extra = managed (regions st)" "regions_ok (regions st)"
    using assms by (auto simp: frames_ok_def pool_ok_def)
  have "card (managed (regions st)) = card (pool fr st) + card (tracked st) + card raw + card extra"
    unfolding d(4) [symmetric] using fin d(1-3) by (simp add: card_Un_disjoint)
  moreover have "managed (regions st) \<subseteq> {..<2 ^ 32}" using managed_bound [OF d(5)] by auto
  then have "card (managed (regions st)) \<le> card {..<2 ^ 32 :: nat}" by (intro card_mono) simp_all
  ultimately show ?thesis by simp
qed

text \<open>Changing the pool and the counters, one frame at a time.\<close>

lemma frames_ok_take:
  assumes ok: "frames_ok iv fr raw extra st" and p: "p \<in> pool fr st"
    and st': "pool_ok iv fr st'" "pool fr st' = pool fr st - {p}" "refs st' = (refs st)(p := 1)"
      "regions st' = regions st" "free_managed st' = wrapping_sub (free_managed st) 1"
  shows "frames_ok iv fr raw extra st'"
proof -
  note fin = frames_ok_finite [OF ok]
  have pos: "0 < card (pool fr st)" using p fin(1) by (auto simp: card_gt_0_iff)
  have fm: "free_managed st = card (pool fr st) + card extra" using ok by (simp add: frames_ok_def)
  have "free_managed st \<le> usize_max" using frames_ok_bound [OF ok] fm by (simp add: usize_max_def)
  then have "free_managed st' = card (pool fr st') + card extra"
    using pos fm st'(2,5) p fin(1) by (simp add: wrapping_sub_eq)
  moreover have "tracked st' = insert p (tracked st)" by (auto simp: tracked_def st'(3))
  ultimately show ?thesis using ok p st'(1,2,4) unfolding frames_ok_def by auto
qed

lemma frames_ok_give:
  assumes ok: "frames_ok iv fr raw extra st" and p: "p \<in> tracked st \<union> raw"
    and st': "pool_ok iv fr st'" "pool fr st' = insert p (pool fr st)" "refs st' = (refs st)(p := 0)"
      "regions st' = regions st" "free_managed st' = wrapping_add (free_managed st) 1"
  shows "frames_ok iv fr (raw - {p}) extra st'"
proof -
  note fin = frames_ok_finite [OF ok]
  have fresh: "p \<notin> pool fr st" using ok p by (auto simp: frames_ok_def)
  have fm: "free_managed st = card (pool fr st) + card extra" using ok by (simp add: frames_ok_def)
  have "free_managed st + 1 \<le> usize_max" using frames_ok_bound [OF ok] fm by (simp add: usize_max_def)
  then have "free_managed st' = card (pool fr st') + card extra"
    using fm st'(2,5) fresh fin(1) by (simp add: wrapping_add_eq)
  moreover have "tracked st' = tracked st - {p}" by (auto simp: tracked_def st'(3))
  ultimately show ?thesis using ok p st'(1,2,4) unfolding frames_ok_def by auto
qed

lemma frames_ok_recount:
  assumes ok: "frames_ok iv fr raw extra st" and "refs st p > 0" "n > 0"
  shows "frames_ok iv fr raw extra (st\<lparr>refs := (refs st)(p := n)\<rparr>)"
proof -
  have "tracked (st\<lparr>refs := (refs st)(p := n)\<rparr>) = tracked st" using assms(2,3) by (auto simp: tracked_def)
  then show ?thesis using ok unfolding frames_ok_def pool_ok_def pool_def cached_def by simp
qed

context central_frames
begin

text \<open>Allocation: it never panics and never loops, it fails only when no frame is free anywhere,
  and the frame it returns was free and is then owned once.\<close>

lemma alloc_frame_law:
  assumes ok: "frames_ok inv free raw extra st" and cpu: "cpu < MAX_CPUS"
  shows "\<exists>st' r. alloc_frame alloc dealloc st cpu = Some (st', r) \<and> frames_ok inv free raw extra st'
    \<and> (case r of
         None \<Rightarrow> pool free st = {} \<and> refs st' = refs st
       | Some p \<Rightarrow> p \<in> pool free st \<and> pool free st' = pool free st - {p} \<and> refs st' = (refs st)(p := 1))"
proof -
  have pok: "pool_ok inv free st" using ok by (simp add: frames_ok_def)
  obtain st1 r where A: "alloc_cached_frame alloc dealloc st cpu = Some (st1, r)" "pool_ok inv free st1"
      "st1 = st\<lparr>caches := caches st1, central := central st1\<rparr>"
      "case r of None \<Rightarrow> pool free st = {} \<and> pool free st1 = {}
        | Some p \<Rightarrow> p \<in> pool free st \<and> pool free st1 = pool free st - {p}"
    using alloc_cached_frame_law [OF pok cpu] by blast
  have same: "refs st1 = refs st" "regions st1 = regions st" "free_managed st1 = free_managed st"
    using A(3) by (cases st; cases st1; simp)+
  show ?thesis
  proof (cases r)
    case None
    then have "frames_ok inv free raw extra st1" using ok A(2,4) same by (auto simp: frames_ok_def tracked_def)
    then show ?thesis using A(1,4) None same by (auto simp: alloc_frame_def)
  next
    case (Some p)
    then have p: "p \<in> pool free st" "pool free st1 = pool free st - {p}" using A(4) by auto
    have zero: "refs st p = 0" using ok p(1) by (auto simp: frames_ok_def tracked_def)
    have "p \<in> managed (regions st)" using ok p(1) by (auto simp: frames_ok_def)
    then have has: "has_ref_counter (regions st1) p" by (simp add: same managed_has_counter)
    define st' where "st' = st1\<lparr>free_managed := wrapping_sub (free_managed st1) 1, refs := (refs st1)(p := 1)\<rparr>"
    have "alloc_frame alloc dealloc st cpu = Some (st', Some p)"
      using A(1) Some has zero by (simp add: alloc_frame_def tracker_new_def st'_def same)
    moreover have pl: "pool free st' = pool free st - {p}" using p(2) by (simp add: st'_def pool_def cached_def)
    moreover have "pool_ok inv free st'" using A(2) by (simp add: st'_def pool_ok_def pool_def cached_def)
    then have "frames_ok inv free raw extra st'"
      by (rule frames_ok_take [OF ok p(1)]) (simp_all add: pl, simp_all add: st'_def same)
    ultimately show ?thesis using p(1) by (auto simp: st'_def same)
  qed
qed

lemma dealloc_inner_law:
  assumes ok: "pool_ok inv free st" and cpu: "cpu < MAX_CPUS" and p: "p \<in> managed (regions st)" "p \<notin> pool free st"
  shows "\<exists>st'. dealloc_frame_inner dealloc st cpu p = st' \<and> pool_ok inv free st' \<and> pool free st' = insert p (pool free st)
    \<and> refs st' = refs st \<and> regions st' = regions st \<and> free_managed st' = wrapping_add (free_managed st) 1"
proof -
  have reg: "regions_ok (regions st)" using ok by (simp add: pool_ok_def)
  have "{p..<p + 1} \<subseteq> managed (regions st)" using p(1) by auto
  then have man: "is_managed_range (regions st) p 1" by (rule run_is_managed [OF reg])
  let ?s = "st\<lparr>free_managed := wrapping_add (free_managed st) 1\<rparr>"
  have "pool_ok inv free ?s" "p \<notin> pool free ?s" "pool free ?s = pool free st"
    using ok p(2) by (simp_all add: pool_ok_def pool_def cached_def)
  then obtain st' where "cache_deallocated_frame dealloc ?s cpu p = st'" "pool_ok inv free st'"
      "pool free st' = insert p (pool free st)" "st' = ?s\<lparr>caches := caches st', central := central st'\<rparr>"
    using cache_deallocated_law [of ?s cpu p] cpu p(1) by auto
  moreover from this(4) have "refs st' = refs st" "regions st' = regions st"
      "free_managed st' = wrapping_add (free_managed st) 1"
    by (cases st; cases st'; simp)+
  ultimately show ?thesis using man by (simp add: dealloc_frame_inner_def)
qed

text \<open>Dropping a tracker: an owner less, and the frame is free again exactly when it was the last.\<close>

lemma tracker_drop_law:
  assumes ok: "frames_ok inv free raw extra st" and cpu: "cpu < MAX_CPUS" and p: "refs st p > 0"
  shows "\<exists>st'. tracker_drop dealloc st cpu p = Some st' \<and> frames_ok inv free raw extra st'
    \<and> refs st' = (refs st)(p := refs st p - 1)
    \<and> pool free st' = (if refs st p = 1 then insert p (pool free st) else pool free st)"
proof -
  have tr: "p \<in> tracked st" using p by (simp add: tracked_def)
  then have man: "p \<in> managed (regions st)" and fresh: "p \<notin> pool free st" and nraw: "p \<notin> raw"
    using ok by (auto simp: frames_ok_def)
  have has: "has_ref_counter (regions st) p" using man by (simp add: managed_has_counter)
  show ?thesis
  proof (cases "refs st p = 1")
    case False
    then have "refs st p - 1 > 0" using p by simp
    then show ?thesis
      using frames_ok_recount [OF ok p, of "refs st p - 1"] False p has
      by (auto simp: tracker_drop_def Let_def pool_def cached_def)
  next
    case True
    let ?s = "st\<lparr>refs := (refs st)(p := 0)\<rparr>"
    have "pool_ok inv free ?s" "pool free ?s = pool free st"
      using ok by (simp_all add: frames_ok_def pool_ok_def pool_def cached_def)
    then obtain st' where D: "dealloc_frame_inner dealloc ?s cpu p = st'" "pool_ok inv free st'"
        "pool free st' = insert p (pool free st)" "refs st' = (refs st)(p := 0)" "regions st' = regions st"
        "free_managed st' = wrapping_add (free_managed st) 1"
      using dealloc_inner_law [of ?s cpu p] cpu man fresh by auto
    have "frames_ok inv free (raw - {p}) extra st'"
      using frames_ok_give [OF ok _ D(2-6)] tr by simp
    then show ?thesis using D True has nraw by (simp add: tracker_drop_def Let_def)
  qed
qed

lemma dealloc_frame_law:
  assumes ok: "frames_ok inv free raw extra st" and cpu: "cpu < MAX_CPUS" and p: "p \<in> raw"
  shows "\<exists>st'. dealloc_frame dealloc st cpu p = Some st' \<and> frames_ok inv free (raw - {p}) extra st'
    \<and> pool free st' = insert p (pool free st) \<and> refs st' = refs st"
proof -
  have zero: "refs st p = 0" and man: "p \<in> managed (regions st)" and fresh: "p \<notin> pool free st"
    and pok: "pool_ok inv free st"
    using ok p by (auto simp: frames_ok_def tracked_def)
  obtain st' where D: "dealloc_frame_inner dealloc st cpu p = st'" "pool_ok inv free st'"
      "pool free st' = insert p (pool free st)" "refs st' = refs st" "regions st' = regions st"
      "free_managed st' = wrapping_add (free_managed st) 1"
    using dealloc_inner_law [OF pok cpu man fresh] by auto
  have r: "refs st' = (refs st)(p := 0)" using D(4) zero by auto
  have "frames_ok inv free (raw - {p}) extra st'"
    using frames_ok_give [OF ok _ D(2,3) r D(5,6)] p by simp
  then show ?thesis using D zero man by (auto simp: dealloc_frame_def managed_has_counter)
qed


lemma tracker_clone_law:
  assumes ok: "frames_ok inv free raw extra st" and p: "refs st p > 0" "refs st p < u32_max"
  shows "\<exists>st'. tracker_clone st p = Some st' \<and> frames_ok inv free raw extra st'
    \<and> refs st' = (refs st)(p := refs st p + 1) \<and> pool free st' = pool free st"
proof -
  have "p \<in> managed (regions st)" using ok p(1) by (auto simp: frames_ok_def tracked_def)
  then show ?thesis
    using frames_ok_recount [OF ok p(1), of "refs st p + 1"] p
    by (auto simp: tracker_clone_def managed_has_counter pool_def cached_def)
qed

text \<open>A tracker of a frame nobody shares turns into a raw frame number.\<close>

lemma into_raw_law:
  assumes ok: "frames_ok inv free raw extra st" and p: "refs st p = 1"
  shows "\<exists>st'. into_raw_ppn st p = Some (st', p) \<and> frames_ok inv free (insert p raw) extra st'
    \<and> refs st' = (refs st)(p := 0) \<and> pool free st' = pool free st"
proof -
  let ?s = "st\<lparr>refs := (refs st)(p := 0)\<rparr>"
  have tr: "p \<in> tracked st" using p by (simp add: tracked_def)
  then have "p \<in> managed (regions st)" using ok by (auto simp: frames_ok_def)
  then have "into_raw_ppn st p = Some (?s, p)" using p by (simp add: into_raw_ppn_def managed_has_counter)
  moreover have eq: "tracked ?s = tracked st - {p}" "pool free ?s = pool free st" "pool_ok inv free ?s"
    using ok by (auto simp: tracked_def frames_ok_def pool_ok_def pool_def cached_def)
  have "frames_ok inv free (insert p raw) extra ?s"
    using ok tr eq unfolding frames_ok_def by auto
  ultimately show ?thesis using eq(2) by simp
qed

text \<open>Contiguous blocks: the pool rounds the size up, and the frames past the request wait in
  \<open>extra\<close> until the block comes back.\<close>

lemma contiguous_take:
  assumes ok: "pool_ok inv free st" and n: "0 < n" and a: "alloc (central st) n = (c, Some p)"
  shows "contiguous_loop alloc dealloc n d st
      = Some (st\<lparr>central := c, free_managed := wrapping_sub (free_managed st) n\<rparr>, Some p)"
    and "block p n \<subseteq> free (central st)" "free c = free (central st) - block p n" "inv c" "next_power_of_two n dvd p"
proof -
  have iv: "inv (central st)" and reg: "regions_ok (regions st)" and sub: "free (central st) \<subseteq> managed (regions st)"
    using ok by (auto simp: pool_ok_def pool_def)
  note A = alloc_Some [OF iv a]
  have "{p..<p + n} \<subseteq> block p n" using le_next_power_of_two [of n] by (auto simp: block_def)
  then have "{p..<p + n} \<subseteq> managed (regions st)" using A sub by blast
  from run_is_managed [OF reg this]
  show "contiguous_loop alloc dealloc n d st
      = Some (st\<lparr>central := c, free_managed := wrapping_sub (free_managed st) n\<rparr>, Some p)"
    using a by (subst contiguous_loop.simps) simp
  show "block p n \<subseteq> free (central st)" "free c = free (central st) - block p n" "inv c" "next_power_of_two n dvd p"
    using A by auto
qed

lemma contiguous_loop_law:
  assumes ok: "pool_ok inv free st" and n: "0 < n"
  shows "\<exists>st' r. contiguous_loop alloc dealloc n d st = Some (st', r) \<and> pool_ok inv free st'
    \<and> refs st' = refs st \<and> regions st' = regions st
    \<and> (case r of
         None \<Rightarrow> pool free st' = pool free st \<and> free_managed st' = free_managed st
       | Some p \<Rightarrow> block p n \<subseteq> pool free st \<and> pool free st' = pool free st - block p n \<and> next_power_of_two n dvd p
           \<and> free_managed st' = wrapping_sub (free_managed st) n)"
proof -
  have taken: ?thesis
    if s: "pool_ok inv free s" "pool free s = pool free st" "refs s = refs st" "regions s = regions st"
      "free_managed s = free_managed st"
      and a: "alloc (central s) n = (c, Some p)"
      and eq: "contiguous_loop alloc dealloc n d st = contiguous_loop alloc dealloc n d' s" for s c p d'
  proof -
    note T = contiguous_take [OF s(1) n a]
    let ?s = "s\<lparr>central := c, free_managed := wrapping_sub (free_managed s) n\<rparr>"
    have disj: "cached s \<inter> free (central s) = {}" using s(1) by (auto simp: pool_ok_def)
    then have pl: "pool free ?s = pool free s - block p n" using T(2,3) by (auto simp: pool_def cached_def)
    have "block p n \<subseteq> pool free s" using T(2) by (auto simp: pool_def)
    moreover have "pool_ok inv free ?s"
      using s(1) T(3,4) pl by (auto simp: pool_ok_def pool_def cached_def)
    ultimately show ?thesis using eq T(1,5) pl s by (auto simp: T(1) [of d'])
  qed
  obtain c r where a: "alloc (central st) n = (c, r)" by fastforce
  show ?thesis
  proof (cases r)
    case (Some p)
    then show ?thesis using taken [OF ok refl refl refl refl, of c p d] a by simp
  next
    case None
    have c: "c = central st" using alloc_None a None ok by (auto simp: pool_ok_def)
    show ?thesis
    proof (cases d)
      case True
      then have "contiguous_loop alloc dealloc n d st = Some (st, None)"
        using a None c by (subst contiguous_loop.simps) simp
      then show ?thesis using ok by simp
    next
      case False
      define s where "s = drain_all_frame_caches dealloc st"
      note D = drain_all_law [OF ok, folded s_def]
      have step: "contiguous_loop alloc dealloc n d st = contiguous_loop alloc dealloc n True s"
        using a None c False by (subst contiguous_loop.simps) (simp add: s_def)
      have same: "refs s = refs st" "regions s = regions st" "free_managed s = free_managed st"
        using D(4) by (cases st; cases s; simp)+
      obtain c2 r2 where a2: "alloc (central s) n = (c2, r2)" by fastforce
      show ?thesis
      proof (cases r2)
        case (Some p)
        then show ?thesis using taken [OF D(1,2) same, of c2 p True] a2 step by simp
      next
        case None
        have "c2 = central s" using alloc_None a2 None D(1) by (auto simp: pool_ok_def)
        then have "contiguous_loop alloc dealloc n True s = Some (s, None)"
          using a2 None by (subst contiguous_loop.simps) simp
        then show ?thesis using D(1,2) same step by simp
      qed
    qed
  qed
qed

text \<open>A contiguous block of \<open>n\<close> frames is raw; what the pool rounded it up by is extra.\<close>

lemma contiguous_alloc_law:
  assumes ok: "frames_ok inv free raw extra st" and n: "0 < n"
  shows "\<exists>st' r. alloc_contiguous_frames alloc dealloc st n = Some (st', r) \<and> refs st' = refs st
    \<and> (case r of
         None \<Rightarrow> frames_ok inv free raw extra st' \<and> pool free st' = pool free st
       | Some p \<Rightarrow> block p n \<subseteq> pool free st \<and> next_power_of_two n dvd p
           \<and> pool free st' = pool free st - block p n
           \<and> frames_ok inv free (raw \<union> {p..<p + n}) (extra \<union> {p + n..<p + next_power_of_two n}) st')"
proof -
  have pok: "pool_ok inv free st" using ok by (simp add: frames_ok_def)
  obtain st' r where L: "contiguous_loop alloc dealloc n False st = Some (st', r)" "pool_ok inv free st'"
      "refs st' = refs st" "regions st' = regions st"
      "case r of None \<Rightarrow> pool free st' = pool free st \<and> free_managed st' = free_managed st
       | Some p \<Rightarrow> block p n \<subseteq> pool free st \<and> pool free st' = pool free st - block p n \<and> next_power_of_two n dvd p
           \<and> free_managed st' = wrapping_sub (free_managed st) n"
    using contiguous_loop_law [OF pok n, of False] by blast
  have call: "alloc_contiguous_frames alloc dealloc st n = Some (st', r)"
    using L(1) n by (simp add: alloc_contiguous_frames_def)
  show ?thesis
  proof (cases r)
    case None
    then have "frames_ok inv free raw extra st'"
      using ok L by (auto simp: frames_ok_def tracked_def)
    then show ?thesis using call L(3,5) None by simp
  next
    case (Some p)
    define q where "q = next_power_of_two n"
    have q: "n \<le> q" unfolding q_def by (rule le_next_power_of_two)
    have blk: "block p n = {p..<p + n} \<union> {p + n..<p + q}" "{p..<p + n} \<inter> {p + n..<p + q} = {}"
      using q by (auto simp: block_def q_def)
    have P: "block p n \<subseteq> pool free st" "pool free st' = pool free st - block p n" "q dvd p"
        "free_managed st' = wrapping_sub (free_managed st) n"
      using L(5) Some by (simp_all add: q_def)
    note fin = frames_ok_finite [OF ok]
    have cb: "card (block p n) = q" by (simp add: block_def q_def)
    have "q \<le> card (pool free st)" using card_mono [OF fin(1) P(1)] cb by simp
    moreover have "card (pool free st') = card (pool free st) - q"
      unfolding P(2) using card_Diff_subset [of "block p n" "pool free st"] P(1) fin(1) cb finite_subset by metis
    moreover have fm: "free_managed st = card (pool free st) + card extra" using ok by (simp add: frames_ok_def)
    moreover have ex: "extra \<inter> block p n = {}" using ok P(1) unfolding frames_ok_def by blast
    then have "card (extra \<union> {p + n..<p + q}) = card extra + (q - n)"
      using fin(3) blk(1) by (subst card_Un_disjoint) auto
    moreover have "free_managed st \<le> usize_max" using frames_ok_bound [OF ok] fm by (simp add: usize_max_def)
    ultimately have count: "free_managed st' = card (pool free st') + card (extra \<union> {p + n..<p + q})"
      using q P(4) by (simp add: wrapping_sub_eq)
    have tr: "tracked st' = tracked st" by (simp add: tracked_def L(3))
    have parts: "pool free st \<inter> tracked st = {}" "(pool free st \<union> tracked st) \<inter> raw = {}"
        "(pool free st \<union> tracked st \<union> raw) \<inter> extra = {}"
        "pool free st \<union> tracked st \<union> raw \<union> extra = managed (regions st)"
      using ok by (auto simp: frames_ok_def)
    have "frames_ok inv free (raw \<union> {p..<p + n}) (extra \<union> {p + n..<p + q}) st'"
      using parts_take [OF parts P(1) [unfolded blk(1)] blk(2)] L(2) count
      unfolding frames_ok_def tr L(4) P(2) blk(1) by simp
    then show ?thesis using call L(3) Some P blk(1) unfolding q_def by auto
  qed
qed

lemma contiguous_dealloc_law:
  assumes ok: "frames_ok inv free raw extra st" and n: "0 < n" "next_power_of_two n dvd p"
    and own: "{p..<p + n} \<subseteq> raw" "{p + n..<p + next_power_of_two n} \<subseteq> extra"
  shows "frames_ok inv free (raw - {p..<p + n}) (extra - {p + n..<p + next_power_of_two n})
      (dealloc_contiguous_frames dealloc st p n)"
    and "pool free (dealloc_contiguous_frames dealloc st p n) = pool free st \<union> block p n"
proof -
  define q where "q = next_power_of_two n"
  have q: "n \<le> q" unfolding q_def by (rule le_next_power_of_two)
  have blk: "block p n = {p..<p + n} \<union> {p + n..<p + q}" using q by (auto simp: block_def q_def)
  have own': "{p + n..<p + q} \<subseteq> extra" using own(2) by (simp add: q_def)
  have reg: "regions_ok (regions st)" and iv: "inv (central st)" using ok by (auto simp: frames_ok_def pool_ok_def)
  have sub: "block p n \<subseteq> managed (regions st)" using ok own own' blk unfolding frames_ok_def by blast
  have fresh: "block p n \<inter> pool free st = {}" using ok own own' blk unfolding frames_ok_def by blast
  have man: "is_managed_range (regions st) p n" using sub blk by (intro run_is_managed [OF reg]) blast
  have "p \<in> block p n" "p + q - 1 \<in> block p n" using n(1) q by (auto simp: block_def q_def)
  then have "0 < p" "p + q - 1 < 2 ^ 32" using managed_bound [OF reg] sub by blast+
  then have b: "0 < p" "p + q \<le> 2 ^ 32" by simp_all
  let ?s = "dealloc_contiguous_frames dealloc st p n"
  have D: "inv (dealloc (central st) p n)" "free (dealloc (central st) p n) = free (central st) \<union> block p n"
    using dealloc_law [OF iv n(2) b(1)] b(2) fresh by (auto simp: q_def pool_def)
  have s: "?s = st\<lparr>central := dealloc (central st) p n, free_managed := wrapping_add (free_managed st) n\<rparr>"
    using n(1) man by (simp add: dealloc_contiguous_frames_def)
  show pl: "pool free ?s = pool free st \<union> block p n" using D(2) by (auto simp: s pool_def cached_def)
  have "pool_ok inv free ?s"
    using ok D fresh sub pl by (auto simp: frames_ok_def pool_ok_def s pool_def cached_def)
  moreover have "free_managed ?s = card (pool free ?s) + card (extra - {p + n..<p + q})"
  proof -
    note fin = frames_ok_finite [OF ok]
    have fm: "free_managed st = card (pool free st) + card extra" using ok by (simp add: frames_ok_def)
    have "card (pool free ?s) = card (pool free st) + q"
      unfolding pl using fin(1) fresh by (subst card_Un_disjoint) (auto simp: block_def q_def)
    moreover have "card (extra - {p + n..<p + q}) = card extra - (q - n)" "q - n \<le> card extra"
      using card_Diff_subset [OF _ own'] card_mono [OF fin(3) own'] by auto
    moreover have "n \<le> card raw" using card_mono [OF fin(2) own(1)] by simp
    then have "free_managed st + n \<le> usize_max" using frames_ok_bound [OF ok] fm by (simp add: usize_max_def)
    ultimately show ?thesis using fm q by (simp add: s wrapping_add_eq)
  qed
  moreover have tr: "tracked ?s = tracked st" "regions ?s = regions st" by (simp_all add: tracked_def s)
  moreover have parts: "pool free st \<inter> tracked st = {}" "(pool free st \<union> tracked st) \<inter> raw = {}"
      "(pool free st \<union> tracked st \<union> raw) \<inter> extra = {}"
      "pool free st \<union> tracked st \<union> raw \<union> extra = managed (regions st)"
    using ok by (auto simp: frames_ok_def)
  note parts_give [OF parts own(1) own']
  ultimately show "frames_ok inv free (raw - {p..<p + n}) (extra - {p + n..<p + next_power_of_two n}) ?s"
    unfolding q_def [symmetric] frames_ok_def tr pl blk by blast
qed

end

section \<open>The frame pool over its life\<close>

lemma frames_init_ok: "frames_ok buddy_ok buddy_free {} {} frames_init"
proof -
  have "cached frames_init = {}" by (simp add: cached_def frames_init_def)
  then have "pool buddy_free frames_init = {}" by (simp add: pool_def frames_init_def buddy_new_ok)
  then show ?thesis
    by (simp add: frames_ok_def pool_ok_def frames_init_def tracked_def managed_def regions_ok_def
        buddy_new_ok cached_def FRAME_CACHE_CAPACITY_def concat_replicate_trivial)
qed

text \<open>Memory is added at boot, each range apart from the ranges already there.\<close>

lemma add_frames_range_ok:
  assumes ok: "frames_ok buddy_ok buddy_free raw extra st"
    and reg: "regions_ok (regions (add_frames_range st start fin))"
    and new: "\<forall>f. start div PAGE_SIZE \<le> f \<and> f < fin div PAGE_SIZE \<longrightarrow> f \<notin> managed (regions st)"
    and start: "start + PAGE_SIZE \<le> usize_max"
  shows "frames_ok buddy_ok buddy_free raw extra (add_frames_range st start fin)"
proof -
  define s where "s = max (wrapping_add start (PAGE_SIZE - 1) div PAGE_SIZE) 1"
  define e where "e = fin div PAGE_SIZE"
  show ?thesis
  proof (cases "s < e")
    case False
    then show ?thesis using ok unfolding add_frames_range_def Let_def s_def [symmetric] e_def [symmetric] by simp
  next
    case True
    let ?t = "add_frames_range st start fin"
    have t: "?t = st\<lparr>central := add_frame (central st) s e, regions := regions st @ [(s, e)],
        total_managed := wrapping_add (total_managed st) (e - s), free_managed := wrapping_add (free_managed st) (e - s)\<rparr>"
      using True unfolding add_frames_range_def Let_def s_def [symmetric] e_def [symmetric] by simp
    have "start div PAGE_SIZE \<le> s"
      using start by (simp add: s_def wrapping_add_eq PAGE_SIZE_def div_le_mono le_max_iff_disj)
    then have fresh: "{s..<e} \<inter> managed (regions st) = {}" using new by (auto simp: e_def)
    have b: "0 < s" "e \<le> 2 ^ ORDER" using reg by (auto simp: t regions_ok_def ORDER_def s_def)
    have iv: "buddy_ok (central st)" and sub: "pool buddy_free st \<subseteq> managed (regions st)"
      using ok by (auto simp: frames_ok_def pool_ok_def)
    have sub': "buddy_free (central st) \<subseteq> managed (regions st)" "cached st \<subseteq> managed (regions st)"
      using sub by (auto simp: pool_def)
    have dis: "{s..<e} \<inter> buddy_free (central st) = {}" using fresh sub'(1) by blast
    note A = add_frame_correct [OF iv b dis]
    have man: "managed (regions ?t) = managed (regions st) \<union> {s..<e}" by (auto simp: t managed_def)
    have pl: "pool buddy_free ?t = pool buddy_free st \<union> {s..<e}" using A(2) by (auto simp: t pool_def cached_def)
    have "pool_ok buddy_ok buddy_free ?t"
      using ok A pl man reg fresh sub'(2) sub unfolding frames_ok_def pool_ok_def by (auto simp: t cached_def)
    moreover have "free_managed ?t = card (pool buddy_free ?t) + card extra"
    proof -
      have "pool buddy_free st \<inter> {s..<e} = {}" using fresh sub by blast
      then have "card (pool buddy_free ?t) = card (pool buddy_free st) + (e - s)"
        unfolding pl using frames_ok_finite(1) [OF ok] by (subst card_Un_disjoint) auto
      moreover have "free_managed st + (e - s) \<le> usize_max"
        using frames_ok_bound [OF ok] ok b(2) by (simp add: frames_ok_def usize_max_def ORDER_def)
      ultimately show ?thesis using ok by (simp add: t wrapping_add_eq frames_ok_def)
    qed
    moreover have "tracked ?t = tracked st" by (simp add: t tracked_def)
    moreover have "tracked st \<subseteq> managed (regions st)" "raw \<subseteq> managed (regions st)" "extra \<subseteq> managed (regions st)"
      using ok by (auto simp: frames_ok_def)
    ultimately show ?thesis
      using ok fresh unfolding frames_ok_def man pl by auto
  qed
qed

text \<open>What the kernel may do with frames, in any order and on any CPU: boot ranges, allocate,
  share and drop trackers, turn an unshared one into a raw frame number and back into the pool,
  and take and return contiguous blocks. \<open>raw\<close> and \<open>blks\<close> record what callers hold without a tracker.\<close>

abbreviation k_alloc where "k_alloc \<equiv> alloc_frame buddy_alloc buddy_dealloc"
abbreviation k_drop where "k_drop \<equiv> tracker_drop buddy_dealloc"
abbreviation k_dealloc where "k_dealloc \<equiv> dealloc_frame buddy_dealloc"
abbreviation k_alloc_contiguous where "k_alloc_contiguous \<equiv> alloc_contiguous_frames buddy_alloc buddy_dealloc"
abbreviation k_dealloc_contiguous where "k_dealloc_contiguous \<equiv> dealloc_contiguous_frames buddy_dealloc"
abbreviation k_ok where "k_ok \<equiv> frames_ok buddy_ok buddy_free"
abbreviation k_pool where "k_pool \<equiv> pool buddy_free"

text \<open>The frames of contiguous blocks \<open>(p, n)\<close>: those the caller asked for and those rounded up.\<close>

definition blocks_asked :: "(usize \<times> usize) list \<Rightarrow> nat set" where
  "blocks_asked bs = (\<Union>(p, n) \<in> set bs. {p..<p + n})"

definition blocks_rest :: "(usize \<times> usize) list \<Rightarrow> nat set" where
  "blocks_rest bs = (\<Union>(p, n) \<in> set bs. {p + n..<p + next_power_of_two n})"

inductive frames_reach :: "FrameAllocator frame_state \<Rightarrow> nat set \<Rightarrow> (usize \<times> usize) list \<Rightarrow> bool" where
  fr_boot: "frames_reach frames_init {} []"
| fr_range: "frames_reach st raw bs \<Longrightarrow> regions_ok (regions (add_frames_range st start fin)) \<Longrightarrow>
    \<forall>f. start div PAGE_SIZE \<le> f \<and> f < fin div PAGE_SIZE \<longrightarrow> f \<notin> managed (regions st) \<Longrightarrow>
    start + PAGE_SIZE \<le> usize_max \<Longrightarrow> frames_reach (add_frames_range st start fin) raw bs"
| fr_alloc: "frames_reach st raw bs \<Longrightarrow> cpu < MAX_CPUS \<Longrightarrow> k_alloc st cpu = Some (st', r) \<Longrightarrow> frames_reach st' raw bs"
| fr_clone: "frames_reach st raw bs \<Longrightarrow> refs st p > 0 \<Longrightarrow> tracker_clone st p = Some st' \<Longrightarrow> frames_reach st' raw bs"
| fr_drop: "frames_reach st raw bs \<Longrightarrow> cpu < MAX_CPUS \<Longrightarrow> refs st p > 0 \<Longrightarrow> k_drop st cpu p = Some st' \<Longrightarrow>
    frames_reach st' raw bs"
| fr_raw: "frames_reach st raw bs \<Longrightarrow> into_raw_ppn st p = Some (st', p) \<Longrightarrow> frames_reach st' (insert p raw) bs"
| fr_dealloc: "frames_reach st raw bs \<Longrightarrow> cpu < MAX_CPUS \<Longrightarrow> p \<in> raw \<Longrightarrow> k_dealloc st cpu p = Some st' \<Longrightarrow>
    frames_reach st' (raw - {p}) bs"
| fr_contiguous: "frames_reach st raw bs \<Longrightarrow> 0 < n \<Longrightarrow> k_alloc_contiguous st n = Some (st', r) \<Longrightarrow>
    frames_reach st' raw (case r of None \<Rightarrow> bs | Some p \<Rightarrow> (p, n) # bs)"
| fr_return: "frames_reach st raw (xs @ (p, n) # ys) \<Longrightarrow>
    frames_reach (k_dealloc_contiguous st p n) raw (xs @ ys)"

text \<open>The invariant of every reachable state.\<close>

definition held :: "(usize \<times> usize) list \<Rightarrow> usize list" where
  "held bs = concat (map (\<lambda>(p, n). [p..<p + next_power_of_two n]) bs)"

definition frames_inv :: "FrameAllocator frame_state \<Rightarrow> nat set \<Rightarrow> (usize \<times> usize) list \<Rightarrow> bool" where
  "frames_inv st raw bs \<longleftrightarrow> k_ok (raw \<union> blocks_asked bs) (blocks_rest bs) st
     \<and> (\<forall>(p, n) \<in> set bs. 0 < n \<and> next_power_of_two n dvd p) \<and> distinct (held bs) \<and> raw \<inter> set (held bs) = {}"

lemma held_simps: "held [] = []" "held ((p, n) # bs) = [p..<p + next_power_of_two n] @ held bs"
  "held (xs @ ys) = held xs @ held ys"
  by (simp_all add: held_def)

lemma blocks_simps:
  "blocks_asked [] = {}" "blocks_asked ((p, n) # bs) = {p..<p + n} \<union> blocks_asked bs"
  "blocks_asked (xs @ ys) = blocks_asked xs \<union> blocks_asked ys"
  "blocks_rest [] = {}" "blocks_rest ((p, n) # bs) = {p + n..<p + next_power_of_two n} \<union> blocks_rest bs"
  "blocks_rest (xs @ ys) = blocks_rest xs \<union> blocks_rest ys"
  by (auto simp: blocks_asked_def blocks_rest_def)

lemma held_split: "set (held bs) = blocks_asked bs \<union> blocks_rest bs"
proof (induction bs)
  case (Cons b bs)
  obtain p n where b: "b = (p, n)" by fastforce
  have "{p..<p + next_power_of_two n} = {p..<p + n} \<union> {p + n..<p + next_power_of_two n}"
    using le_next_power_of_two [of n] by auto
  then show ?case using Cons by (auto simp: b held_simps blocks_simps)
qed (simp add: held_simps blocks_simps)

lemma frames_inv_init: "frames_inv frames_init {} []"
  using frames_init_ok by (simp add: frames_inv_def held_simps blocks_simps)

lemma frames_inv_keep: "frames_inv st raw bs \<Longrightarrow> k_ok (raw \<union> blocks_asked bs) (blocks_rest bs) st' \<Longrightarrow> frames_inv st' raw bs"
  by (simp add: frames_inv_def)

lemma frames_inv_raw:
  assumes inv: "frames_inv st raw bs" and r: "into_raw_ppn st p = Some (st', p)"
  shows "frames_inv st' (insert p raw) bs"
proof -
  have ok: "k_ok (raw \<union> blocks_asked bs) (blocks_rest bs) st" using inv by (simp add: frames_inv_def)
  have one: "refs st p = 1" using r by (simp add: into_raw_ppn_def split: if_splits)
  have "p \<in> tracked st" using one by (simp add: tracked_def)
  then have "p \<notin> set (held bs)" using ok unfolding frames_ok_def held_split by blast
  then show ?thesis using buddy.into_raw_law [OF ok one] r inv by (auto simp: frames_inv_def)
qed

lemma frames_inv_dealloc:
  assumes inv: "frames_inv st raw bs" and cpu: "cpu < MAX_CPUS" and p: "p \<in> raw" and d: "k_dealloc st cpu p = Some st'"
  shows "frames_inv st' (raw - {p}) bs"
proof -
  have ok: "k_ok (raw \<union> blocks_asked bs) (blocks_rest bs) st" using inv by (simp add: frames_inv_def)
  have "p \<notin> blocks_asked bs" using inv p unfolding frames_inv_def held_split by blast
  then have "raw \<union> blocks_asked bs - {p} = (raw - {p}) \<union> blocks_asked bs" by blast
  then show ?thesis using buddy.dealloc_frame_law [OF ok cpu, of p] p d inv by (auto simp: frames_inv_def)
qed

lemma frames_inv_contiguous:
  assumes inv: "frames_inv st raw bs" and n: "0 < n" and a: "k_alloc_contiguous st n = Some (st', r)"
  shows "frames_inv st' raw (case r of None \<Rightarrow> bs | Some p \<Rightarrow> (p, n) # bs)"
proof -
  have ok: "k_ok (raw \<union> blocks_asked bs) (blocks_rest bs) st" using inv by (simp add: frames_inv_def)
  have L: "case r of None \<Rightarrow> k_ok (raw \<union> blocks_asked bs) (blocks_rest bs) st' \<and> k_pool st' = k_pool st
       | Some p \<Rightarrow> block p n \<subseteq> k_pool st \<and> next_power_of_two n dvd p \<and> k_pool st' = k_pool st - block p n
           \<and> k_ok (raw \<union> blocks_asked bs \<union> {p..<p + n}) (blocks_rest bs \<union> {p + n..<p + next_power_of_two n}) st'"
    using buddy.contiguous_alloc_law [OF ok n] a by auto
  show ?thesis
  proof (cases r)
    case None
    then show ?thesis using L inv by (simp add: frames_inv_keep)
  next
    case (Some p)
    let ?q = "next_power_of_two n"
    have ok': "k_ok (raw \<union> blocks_asked ((p, n) # bs)) (blocks_rest ((p, n) # bs)) st'" and dvd: "?q dvd p"
      using L Some by (simp_all add: blocks_simps Un_ac)
    have sub: "{p..<p + ?q} \<subseteq> k_pool st"
      using L Some by (simp add: block_def)
    have "(raw \<union> set (held bs)) \<inter> k_pool st = {}" using ok unfolding frames_ok_def held_split by blast
    then have "{p..<p + ?q} \<inter> (raw \<union> set (held bs)) = {}" using sub by blast
    then show ?thesis using ok' dvd n inv Some by (auto simp: frames_inv_def held_simps)
  qed
qed

lemma frames_inv_return:
  assumes inv: "frames_inv st raw (xs @ (p, n) # ys)"
  shows "frames_inv (k_dealloc_contiguous st p n) raw (xs @ ys)"
proof -
  let ?b = "{p..<p + n}" and ?x = "{p + n..<p + next_power_of_two n}"
  let ?bs = "xs @ (p, n) # ys"
  have ok: "k_ok (raw \<union> blocks_asked ?bs) (blocks_rest ?bs) st" and n: "0 < n" "next_power_of_two n dvd p"
    using inv by (auto simp: frames_inv_def)
  have d: "distinct (held ?bs)" "raw \<inter> set (held ?bs) = {}" using inv by (auto simp: frames_inv_def)
  have "?b \<union> ?x = {p..<p + next_power_of_two n}" using le_next_power_of_two [of n] by auto
  then have fresh: "(?b \<union> ?x) \<inter> (raw \<union> set (held (xs @ ys))) = {}"
    using d by (auto simp: held_simps)
  have "k_ok (raw \<union> blocks_asked ?bs - ?b) (blocks_rest ?bs - ?x) (k_dealloc_contiguous st p n)"
    by (rule buddy.contiguous_dealloc_law(1) [OF ok n]) (auto simp: blocks_simps)
  moreover have "raw \<union> blocks_asked ?bs - ?b = raw \<union> blocks_asked (xs @ ys)"
    using fresh unfolding held_split blocks_simps by blast
  moreover have "blocks_rest ?bs - ?x = blocks_rest (xs @ ys)"
    using fresh unfolding held_split blocks_simps by blast
  ultimately show ?thesis using inv d by (auto simp: frames_inv_def held_simps)
qed

lemma frames_reach_inv: "frames_reach st raw bs \<Longrightarrow> frames_inv st raw bs"
proof (induction rule: frames_reach.induct)
  case fr_boot
  show ?case by (rule frames_inv_init)
next
  case (fr_range st raw bs start fin)
  then show ?case using add_frames_range_ok by (meson frames_inv_def frames_inv_keep)
next
  case (fr_alloc st raw bs cpu st' r)
  have ok: "k_ok (raw \<union> blocks_asked bs) (blocks_rest bs) st" using fr_alloc.IH by (simp add: frames_inv_def)
  show ?case using buddy.alloc_frame_law [OF ok fr_alloc.hyps(2)] fr_alloc by (auto intro: frames_inv_keep)
next
  case (fr_clone st raw bs p st')
  have ok: "k_ok (raw \<union> blocks_asked bs) (blocks_rest bs) st" using fr_clone.IH by (simp add: frames_inv_def)
  have "st' = st\<lparr>refs := (refs st)(p := refs st p + 1)\<rparr>" using fr_clone.hyps(3) by (simp add: tracker_clone_def split: if_splits)
  then show ?case using frames_ok_recount [OF ok fr_clone.hyps(2), of "refs st p + 1"] fr_clone.IH by (auto intro: frames_inv_keep)
next
  case (fr_drop st raw bs cpu p st')
  have ok: "k_ok (raw \<union> blocks_asked bs) (blocks_rest bs) st" using fr_drop.IH by (simp add: frames_inv_def)
  show ?case using buddy.tracker_drop_law [OF ok fr_drop.hyps(2,3)] fr_drop by (auto intro: frames_inv_keep)
qed (simp_all add: frames_inv_raw frames_inv_dealloc frames_inv_contiguous frames_inv_return)

text \<open>C26. In every state the kernel can reach, on every CPU, allocating a frame returns (no
  assertion fails and the refill loop ends); it reports failure exactly when no frame is free in
  the pool or in any cache; and the frame it returns belonged to nobody: no tracker counted it, it
  was not handed out raw and no contiguous block covers it.\<close>

theorem alloc_frame_exclusive:
  assumes "frames_reach st raw bs" "cpu < MAX_CPUS"
  shows "\<exists>st' r. alloc_frame buddy_alloc buddy_dealloc st cpu = Some (st', r)
    \<and> (r = None \<longleftrightarrow> pool buddy_free st = {})
    \<and> (\<forall>p. r = Some p \<longrightarrow> p \<in> managed (regions st) \<and> refs st p = 0 \<and> p \<notin> raw \<and> p \<notin> set (held bs)
          \<and> refs st' = (refs st)(p := 1) \<and> p \<notin> pool buddy_free st')"
proof -
  have ok: "k_ok (raw \<union> blocks_asked bs) (blocks_rest bs) st"
    using frames_reach_inv [OF assms(1)] by (simp add: frames_inv_def)
  obtain st' r where A: "k_alloc st cpu = Some (st', r)"
      "case r of None \<Rightarrow> k_pool st = {} \<and> refs st' = refs st
       | Some p \<Rightarrow> p \<in> k_pool st \<and> k_pool st' = k_pool st - {p} \<and> refs st' = (refs st)(p := 1)"
    using buddy.alloc_frame_law [OF ok assms(2)] by blast
  have own: "p \<in> managed (regions st) \<and> refs st p = 0 \<and> p \<notin> raw \<and> p \<notin> set (held bs)" if "p \<in> k_pool st" for p
    using frames_ok_unowned [OF ok that] by (auto simp: held_split)
  show ?thesis using A own by (cases r) auto
qed

text \<open>Dropping a tracker of a counted frame never fails an assertion; it takes one owner away,
  and the frame is free again exactly when that owner was the last, otherwise the pool is left as it was.\<close>

theorem tracker_drop_last_owner:
  assumes "frames_reach st raw bs" "cpu < MAX_CPUS" "refs st p > 0"
  shows "\<exists>st'. tracker_drop buddy_dealloc st cpu p = Some st' \<and> refs st' = (refs st)(p := refs st p - 1)
    \<and> (p \<in> pool buddy_free st' \<longleftrightarrow> refs st p = 1) \<and> pool buddy_free st' - {p} = pool buddy_free st - {p}"
proof -
  have ok: "k_ok (raw \<union> blocks_asked bs) (blocks_rest bs) st"
    using frames_reach_inv [OF assms(1)] by (simp add: frames_inv_def)
  have "p \<notin> k_pool st" using ok assms(3) unfolding frames_ok_def tracked_def by blast
  then show ?thesis using buddy.tracker_drop_law [OF ok assms(2,3)] by (auto split: if_splits)
qed

text \<open>C27. Frames are conserved: in every reachable state the managed frames are exactly the free
  ones, the ones trackers own, the raw ones and those of the contiguous blocks, each counted once;
  and the kernel's counter of free frames is the number of free frames plus those by which the pool
  rounded the outstanding contiguous blocks up.\<close>

theorem frames_conserved:
  assumes "frames_reach st raw bs"
  shows "card (pool buddy_free st) + card (tracked st) + card raw + length (held bs) = card (managed (regions st))
    \<and> free_managed st + card (blocks_asked bs) = card (pool buddy_free st) + length (held bs)"
proof -
  have inv: "frames_inv st raw bs" by (rule frames_reach_inv [OF assms])
  then have ok: "k_ok (raw \<union> blocks_asked bs) (blocks_rest bs) st" by (simp add: frames_inv_def)
  note fin = frames_ok_finite [OF ok]
  have h: "length (held bs) = card (set (held bs))" "raw \<inter> set (held bs) = {}"
    using inv by (simp_all add: frames_inv_def distinct_card)
  have f2: "finite raw" "finite (blocks_asked bs)" using fin(2) by auto
  have "blocks_asked bs \<inter> blocks_rest bs = {}" using ok unfolding frames_ok_def by blast
  then have c: "card (set (held bs)) = card (blocks_asked bs) + card (blocks_rest bs)"
    unfolding held_split using f2 fin(3) by (simp add: card_Un_disjoint)
  have p1: "managed (regions st) = (k_pool st \<union> tracked st) \<union> (raw \<union> set (held bs))"
    using ok unfolding frames_ok_def held_split by (simp add: Un_assoc)
  have p2: "k_pool st \<inter> tracked st = {}" using ok unfolding frames_ok_def by simp
  have p3: "(k_pool st \<union> tracked st) \<inter> (raw \<union> set (held bs)) = {}"
    using ok unfolding frames_ok_def held_split by (simp add: Int_Un_distrib Int_Un_distrib2)
  have "card (managed (regions st)) = card (k_pool st \<union> tracked st) + card (raw \<union> set (held bs))"
    unfolding p1 using fin(1,4) f2(1) p3 by (intro card_Un_disjoint) auto
  moreover have "card (k_pool st \<union> tracked st) = card (k_pool st) + card (tracked st)"
    using fin(1,4) p2 by (rule card_Un_disjoint)
  moreover have "card (raw \<union> set (held bs)) = card raw + length (held bs)"
    unfolding h(1) using f2(1) h(2) by (intro card_Un_disjoint) auto
  moreover have "free_managed st + card (blocks_asked bs) = card (k_pool st) + length (held bs)"
    using ok c h(1) by (simp add: frames_ok_def)
  ultimately show ?thesis by simp
qed

text \<open>A machine with four frames, on which the properties are instantiated.\<close>

definition demo_frames :: "FrameAllocator frame_state" where
  "demo_frames = add_frames_range frames_init 4096 20480"

lemma demo_frames_regions: "regions demo_frames = [(1, 5)]"
  by (simp add: demo_frames_def add_frames_range_def frames_init_def wrapping_add_eq PAGE_SIZE_def usize_max_def Let_def)

lemma demo_frames_reach: "frames_reach demo_frames {} []"
  unfolding demo_frames_def
  by (rule fr_range [OF fr_boot])
    (simp_all add: demo_frames_regions [unfolded demo_frames_def], simp_all add: regions_ok_def frames_init_def managed_def PAGE_SIZE_def usize_max_def)

lemma demo_frames_pool: "card (k_pool demo_frames) = 4"
proof -
  have "frames_inv demo_frames {} []" by (rule frames_reach_inv [OF demo_frames_reach])
  then have "k_pool demo_frames \<union> tracked demo_frames = managed (regions demo_frames)"
    by (simp add: frames_inv_def frames_ok_def blocks_simps)
  moreover have "tracked demo_frames = {}"
    by (simp add: tracked_def demo_frames_def add_frames_range_def frames_init_def Let_def)
  ultimately show ?thesis by (simp add: demo_frames_regions managed_def)
qed

lemma demo_frames_alloc:
  "\<exists>st p. k_alloc demo_frames 0 = Some (st, Some p) \<and> refs st p = 1 \<and> frames_reach st {} []"
proof -
  have ok: "k_ok {} {} demo_frames"
    using frames_reach_inv [OF demo_frames_reach] by (simp add: frames_inv_def blocks_simps)
  have ne: "k_pool demo_frames \<noteq> {}" using demo_frames_pool by auto
  obtain st r where A: "k_alloc demo_frames 0 = Some (st, r)"
      "case r of None \<Rightarrow> k_pool demo_frames = {} \<and> refs st = refs demo_frames
       | Some p \<Rightarrow> p \<in> k_pool demo_frames \<and> k_pool st = k_pool demo_frames - {p} \<and> refs st = (refs demo_frames)(p := 1)"
    using buddy.alloc_frame_law [OF ok, of 0] by (auto simp: MAX_CPUS_def)
  have "frames_reach st {} []" by (rule fr_alloc [OF demo_frames_reach _ A(1)]) (simp add: MAX_CPUS_def)
  then show ?thesis using A ne by (cases r) auto
qed

theorem alloc_frame_exclusive_witness:
  "\<exists>st' p. alloc_frame buddy_alloc buddy_dealloc demo_frames 0 = Some (st', Some p) \<and> p \<in> {1, 2, 3, 4} \<and> refs st' p = 1"
proof -
  have "managed (regions demo_frames) = {1, 2, 3, 4}" by (auto simp: demo_frames_regions managed_def)
  then show ?thesis
    using alloc_frame_exclusive [OF demo_frames_reach, of 0] demo_frames_pool by (fastforce simp: MAX_CPUS_def)
qed

theorem tracker_drop_last_owner_witness:
  "\<exists>st p st'. alloc_frame buddy_alloc buddy_dealloc demo_frames 0 = Some (st, Some p)
     \<and> tracker_drop buddy_dealloc st 0 p = Some st' \<and> p \<in> pool buddy_free st'"
proof -
  obtain st p where A: "k_alloc demo_frames 0 = Some (st, Some p)" "refs st p = 1" "frames_reach st {} []"
    using demo_frames_alloc by blast
  then show ?thesis using tracker_drop_last_owner [OF A(3), of 0 p] by (auto simp: MAX_CPUS_def)
qed

theorem frames_conserved_witness:
  "card (pool buddy_free demo_frames) + card (tracked demo_frames) = 4 \<and> free_managed demo_frames = 4"
  using frames_conserved [OF demo_frames_reach] demo_frames_pool
  by (simp add: held_simps blocks_simps demo_frames_regions managed_def)

end
