(* ===== verification/Kmem.thy ===== *)
theory Kmem
  imports Frames
begin

text \<open>
  Physical memory as the rest of the kernel uses it: the frame allocator of \<open>Frames\<close> together with
  the contents of the frames. A \<open>FrameTracker\<close> held anywhere in the kernel is one element of the
  multiset of owners; \<open>km_ok\<close> says that the reference counters are exactly that multiset.
  Allocation zeroes the frame (\<open>zero_phys_range\<close> in \<open>alloc_frame\<close>).
\<close>

type_synonym page_bytes = "8 word list"

record kmem =
  km_frames :: "FrameAllocator frame_state"
  km_bytes :: "usize \<Rightarrow> page_bytes"
  km_cpu :: nat

definition zero_page :: page_bytes where
  "zero_page = replicate PAGE_SIZE 0"

text \<open>Outer \<^const>\<open>None\<close>: a failed assertion.\<close>

definition km_alloc :: "kmem \<Rightarrow> (kmem \<times> usize option) option" where
  "km_alloc km =
     (case alloc_frame buddy_alloc buddy_dealloc (km_frames km) (km_cpu km) of
        None \<Rightarrow> None
      | Some (fs, None) \<Rightarrow> Some (km\<lparr>km_frames := fs\<rparr>, None)
      | Some (fs, Some ppn) \<Rightarrow> Some (km\<lparr>km_frames := fs, km_bytes := (km_bytes km)(ppn := zero_page)\<rparr>, Some ppn))"

definition km_clone :: "kmem \<Rightarrow> usize \<Rightarrow> kmem option" where
  "km_clone km ppn = map_option (\<lambda>fs. km\<lparr>km_frames := fs\<rparr>) (tracker_clone (km_frames km) ppn)"

definition km_drop :: "kmem \<Rightarrow> usize \<Rightarrow> kmem option" where
  "km_drop km ppn = map_option (\<lambda>fs. km\<lparr>km_frames := fs\<rparr>) (tracker_drop buddy_dealloc (km_frames km) (km_cpu km) ppn)"

definition km_ref_count :: "kmem \<Rightarrow> usize \<Rightarrow> nat" where
  "km_ref_count km ppn = refs (km_frames km) ppn"

definition km_copy :: "kmem \<Rightarrow> usize \<Rightarrow> usize \<Rightarrow> kmem" where
  "km_copy km src dst = km\<lparr>km_bytes := (km_bytes km)(dst := km_bytes km src)\<rparr>"

definition km_write :: "kmem \<Rightarrow> usize \<Rightarrow> page_bytes \<Rightarrow> kmem" where
  "km_write km dst bytes = km\<lparr>km_bytes := (km_bytes km)(dst := bytes)\<rparr>"

text \<open>Cloning or dropping a collection of trackers, one after the other.\<close>

fun km_clone_all :: "usize list \<Rightarrow> kmem \<Rightarrow> kmem option" where
  "km_clone_all [] km = Some km"
| "km_clone_all (p # ps) km = (case km_clone km p of None \<Rightarrow> None | Some km' \<Rightarrow> km_clone_all ps km')"

fun km_drop_all :: "usize list \<Rightarrow> kmem \<Rightarrow> kmem option" where
  "km_drop_all [] km = Some km"
| "km_drop_all (p # ps) km = (case km_drop km p of None \<Rightarrow> None | Some km' \<Rightarrow> km_drop_all ps km')"

section \<open>Owners\<close>

definition km_ok :: "nat set \<Rightarrow> nat set \<Rightarrow> kmem \<Rightarrow> usize multiset \<Rightarrow> bool" where
  "km_ok raw extra km M \<longleftrightarrow> frames_ok buddy_ok buddy_free raw extra (km_frames km) \<and> km_cpu km < MAX_CPUS
     \<and> refs (km_frames km) = count M"

abbreviation km_pool :: "kmem \<Rightarrow> nat set" where
  "km_pool km \<equiv> pool buddy_free (km_frames km)"

lemma km_ok_bytes [simp]: "km_ok raw extra (km\<lparr>km_bytes := b\<rparr>) M = km_ok raw extra km M"
  by (simp add: km_ok_def)

lemma km_ok_copy [simp]: "km_ok raw extra (km_copy km s d) M = km_ok raw extra km M"
  by (simp add: km_copy_def)

lemma km_ok_write [simp]: "km_ok raw extra (km_write km d b) M = km_ok raw extra km M"
  by (simp add: km_write_def)

lemma km_alloc_law:
  assumes "km_ok raw extra km M"
  shows "\<exists>km' r. km_alloc km = Some (km', r) \<and> (case r of
      None \<Rightarrow> km_ok raw extra km' M \<and> km_bytes km' = km_bytes km \<and> km_pool km = {}
    | Some p \<Rightarrow> km_ok raw extra km' (add_mset p M) \<and> p \<notin># M \<and> km_bytes km' = (km_bytes km)(p := zero_page))"
proof -
  have ok: "k_ok raw extra (km_frames km)" and cpu: "km_cpu km < MAX_CPUS" and r: "refs (km_frames km) = count M"
    using assms by (auto simp: km_ok_def)
  obtain fs r where A: "k_alloc (km_frames km) (km_cpu km) = Some (fs, r)" "k_ok raw extra fs"
      "case r of None \<Rightarrow> km_pool km = {} \<and> refs fs = refs (km_frames km)
       | Some p \<Rightarrow> p \<in> km_pool km \<and> k_pool fs = km_pool km - {p} \<and> refs fs = (refs (km_frames km))(p := 1)"
    using buddy.alloc_frame_law [OF ok cpu] by blast
  show ?thesis
  proof (cases r)
    case None
    then show ?thesis using A cpu \<open>refs _ = count M\<close> by (auto simp: km_alloc_def km_ok_def)
  next
    case (Some p)
    have "count M p = 0" using frames_ok_unowned(2) [OF ok, of p] A(3) Some r by simp
    moreover from this have "(count M)(p := 1) = count (add_mset p M)" by (auto simp: fun_eq_iff)
    ultimately show ?thesis using A Some cpu r by (auto simp: km_alloc_def km_ok_def not_in_iff)
  qed
qed

lemma km_clone_law:
  assumes "km_ok raw extra km M" "p \<in># M" "count M p < u32_max"
  shows "\<exists>km'. km_clone km p = Some km' \<and> km_ok raw extra km' (add_mset p M) \<and> km_bytes km' = km_bytes km"
proof -
  have ok: "k_ok raw extra (km_frames km)" and r: "refs (km_frames km) = count M" using assms by (auto simp: km_ok_def)
  have "refs (km_frames km) p > 0" "refs (km_frames km) p < u32_max" using assms(2,3) r by auto
  from buddy.tracker_clone_law [OF ok this] obtain fs where
    "tracker_clone (km_frames km) p = Some fs" "k_ok raw extra fs" "refs fs = (count M)(p := count M p + 1)" using r by auto
  moreover have "(count M)(p := count M p + 1) = count (add_mset p M)" by (auto simp: fun_eq_iff)
  ultimately show ?thesis using assms(1) by (auto simp: km_clone_def km_ok_def)
qed

lemma km_drop_law:
  assumes "km_ok raw extra km (add_mset p M)"
  shows "\<exists>km'. km_drop km p = Some km' \<and> km_ok raw extra km' M \<and> km_bytes km' = km_bytes km"
proof -
  have ok: "k_ok raw extra (km_frames km)" and cpu: "km_cpu km < MAX_CPUS" and r: "refs (km_frames km) = count (add_mset p M)"
    using assms by (auto simp: km_ok_def)
  have "refs (km_frames km) p > 0" using r by simp
  from buddy.tracker_drop_law [OF ok cpu this] obtain fs where
    "k_drop (km_frames km) (km_cpu km) p = Some fs" "k_ok raw extra fs"
    "refs fs = (refs (km_frames km))(p := refs (km_frames km) p - 1)" by auto
  moreover have "(refs (km_frames km))(p := refs (km_frames km) p - 1) = count M" using r by (auto simp: fun_eq_iff)
  ultimately show ?thesis using cpu by (auto simp: km_drop_def km_ok_def)
qed

lemma km_drop_all_law:
  "km_ok raw extra km (mset ps + M) \<Longrightarrow>
   \<exists>km'. km_drop_all ps km = Some km' \<and> km_ok raw extra km' M \<and> km_bytes km' = km_bytes km"
proof (induction ps arbitrary: km)
  case (Cons p ps)
  obtain km1 where "km_drop km p = Some km1" "km_ok raw extra km1 (mset ps + M)" "km_bytes km1 = km_bytes km"
    using km_drop_law [of raw extra km p "mset ps + M"] Cons.prems by auto
  then show ?case using Cons.IH [of km1] by auto
qed simp

lemma km_clone_all_law:
  "km_ok raw extra km M \<Longrightarrow> set ps \<subseteq> set_mset M \<Longrightarrow> \<forall>p. count M p + length ps < u32_max \<Longrightarrow>
   \<exists>km'. km_clone_all ps km = Some km' \<and> km_ok raw extra km' (mset ps + M) \<and> km_bytes km' = km_bytes km"
proof (induction ps arbitrary: km M)
  case (Cons p ps)
  have "count M p < u32_max" using spec [OF Cons.prems(3), of p] by simp
  then obtain km1 where 1: "km_clone km p = Some km1" "km_ok raw extra km1 (add_mset p M)" "km_bytes km1 = km_bytes km"
    using km_clone_law [OF Cons.prems(1), of p] Cons.prems(2) by auto
  have "\<forall>q. count (add_mset p M) q + length ps < u32_max" using Cons.prems(3) by (auto simp: Suc_lessD)
  then show ?case using Cons.IH [OF 1(2)] Cons.prems(2) 1 by auto
qed simp

end
