(* ===== verification/Vma.thy ===== *)
theory Vma
  imports Map_Area
begin

text \<open>
  The ordered vector of areas of an address space (\<open>os/src/mm/memory_set.rs\<close>): the two binary
  searches, overlap and coverage tests, the search for a free range, splitting at an address,
  sorting and the two coalescing passes. What an address space means at a virtual address is its
  \<open>view\<close>; the theory shows that splitting and coalescing leave the view and the owned pages alone,
  that the searches find what a linear scan would find and that \<open>find_free_area\<close> is first fit.
\<close>

section \<open>Alignment and search\<close>

definition align_down :: "usize \<Rightarrow> usize" where
  "align_down v = v div PAGE_SIZE * PAGE_SIZE"

definition align_up :: "usize \<Rightarrow> usize option" where
  "align_up v = map_option (\<lambda>w. w div PAGE_SIZE * PAGE_SIZE) (checked_add v (PAGE_SIZE - 1))"

function search_containing :: "MapArea list \<Rightarrow> usize \<Rightarrow> nat \<Rightarrow> nat \<Rightarrow> nat option" where
  "search_containing areas addr left right =
     (if left < right then
        (let mid = left + (right - left) div 2
         in if addr < start_va (areas ! mid) then search_containing areas addr left mid
            else if addr \<ge> end_va (areas ! mid) then search_containing areas addr (mid + 1) right
            else Some mid)
      else None)"
  by pat_completeness auto
termination by (relation "measure (\<lambda>(_, _, l, r). r - l)") auto

declare search_containing.simps [simp del]

definition area_index_containing :: "MapArea list \<Rightarrow> usize \<Rightarrow> nat option" where
  "area_index_containing areas addr = search_containing areas addr 0 (length areas)"

function search_ending_after :: "MapArea list \<Rightarrow> usize \<Rightarrow> nat \<Rightarrow> nat \<Rightarrow> nat" where
  "search_ending_after areas addr left right =
     (if left < right then
        (let mid = left + (right - left) div 2
         in if end_va (areas ! mid) \<le> addr then search_ending_after areas addr (mid + 1) right
            else search_ending_after areas addr left mid)
      else left)"
  by pat_completeness auto
termination by (relation "measure (\<lambda>(_, _, l, r). r - l)") auto

declare search_ending_after.simps [simp del]

definition first_area_ending_after :: "MapArea list \<Rightarrow> usize \<Rightarrow> nat" where
  "first_area_ending_after areas addr = search_ending_after areas addr 0 (length areas)"

definition range_overlaps :: "MapArea list \<Rightarrow> usize \<Rightarrow> usize \<Rightarrow> bool" where
  "range_overlaps areas start fin =
     (if start \<ge> fin then False
      else (let index = first_area_ending_after areas start
            in index < length areas \<and> start_va (areas ! index) < fin))"

lemma search_containing_sound:
  "search_containing areas addr l r = Some i \<Longrightarrow> r \<le> length areas \<Longrightarrow>
   i < length areas \<and> area_contains (areas ! i) addr"
proof (induction areas addr l r rule: search_containing.induct)
  case (1 areas addr l r)
  show ?case
    using "1.prems" "1.IH"(1) [OF _ refl] "1.IH"(2) [OF _ refl]
    by (subst (asm) search_containing.simps) (auto simp: Let_def area_contains_def split: if_splits)
qed

lemma area_index_sound:
  "area_index_containing areas addr = Some i \<Longrightarrow> i < length areas \<and> area_contains (areas ! i) addr"
  unfolding area_index_containing_def by (rule search_containing_sound) auto

function range_covered :: "MapArea list \<Rightarrow> usize \<Rightarrow> usize \<Rightarrow> bool" where
  "range_covered areas cursor fin =
     (if cursor < fin then
        (case area_index_containing areas cursor of
           None \<Rightarrow> False
         | Some index \<Rightarrow> range_covered areas (end_va (areas ! index)) fin)
      else True)"
  by pat_completeness auto
termination
  by (relation "measure (\<lambda>(_, c, e). e - c)") (auto dest!: area_index_sound simp: area_contains_def)

declare range_covered.simps [simp del]

function skip_ended :: "MapArea list \<Rightarrow> usize \<Rightarrow> nat \<Rightarrow> nat" where
  "skip_ended areas candidate index =
     (if index < length areas \<and> end_va (areas ! index) \<le> candidate
      then skip_ended areas candidate (index + 1) else index)"
  by pat_completeness auto
termination by (relation "measure (\<lambda>(as, _, i). length as - i)") auto

declare skip_ended.simps [simp del]

lemma skip_ended_correct:
  "index \<le> skip_ended areas c index"
  "index \<le> j \<Longrightarrow> j < skip_ended areas c index \<Longrightarrow> end_va (areas ! j) \<le> c"
  "skip_ended areas c index < length areas \<Longrightarrow> c < end_va (areas ! skip_ended areas c index)"
  "index \<le> length areas \<Longrightarrow> skip_ended areas c index \<le> length areas"
proof -
  have "index \<le> skip_ended areas c index
    \<and> (\<forall>j. index \<le> j \<and> j < skip_ended areas c index \<longrightarrow> end_va (areas ! j) \<le> c)
    \<and> (skip_ended areas c index < length areas \<longrightarrow> c < end_va (areas ! skip_ended areas c index))
    \<and> (index \<le> length areas \<longrightarrow> skip_ended areas c index \<le> length areas)"
  proof (induction areas c index rule: skip_ended.induct)
    case (1 areas c index)
    show ?case
    proof (cases "index < length areas \<and> end_va (areas ! index) \<le> c")
      case True
      then have step: "skip_ended areas c index = skip_ended areas c (index + 1)"
        by (subst skip_ended.simps) simp
      have "end_va (areas ! j) \<le> c" if "index \<le> j" "j < skip_ended areas c (index + 1)" for j
        using "1.IH" [OF True] True that by (cases "j = index") auto
      then show ?thesis using "1.IH" [OF True] True unfolding step by auto
    next
      case False
      then have "skip_ended areas c index = index" by (subst skip_ended.simps) auto
      then show ?thesis using False by auto
    qed
  qed
  then show "index \<le> skip_ended areas c index"
    "index \<le> j \<Longrightarrow> j < skip_ended areas c index \<Longrightarrow> end_va (areas ! j) \<le> c"
    "skip_ended areas c index < length areas \<Longrightarrow> c < end_va (areas ! skip_ended areas c index)"
    "index \<le> length areas \<Longrightarrow> skip_ended areas c index \<le> length areas" by blast+
qed

function free_loop :: "MapArea list \<Rightarrow> usize \<Rightarrow> usize \<Rightarrow> usize \<Rightarrow> nat \<Rightarrow> usize option" where
  "free_loop areas len limit candidate index =
     (case checked_add candidate len of
        None \<Rightarrow> None
      | Some fin \<Rightarrow>
          if fin > limit then None
          else
            (let i = skip_ended areas candidate index
             in if i \<ge> length areas \<or> start_va (areas ! i) \<ge> fin then Some candidate
                else (case align_up (end_va (areas ! i)) of
                        None \<Rightarrow> None
                      | Some c \<Rightarrow> free_loop areas len limit c (i + 1))))"
  by pat_completeness auto
termination
proof (relation "measure (\<lambda>(as, _, _, _, i). length as - i)", simp)
  fix areas :: "MapArea list" and candidate index i :: nat
  assume "i = skip_ended areas candidate index"
  then have "index \<le> i" by (simp add: skip_ended_correct)
  then show "\<And>len limit fin c. \<not> (i \<ge> length areas \<or> start_va (areas ! i) \<ge> fin) \<Longrightarrow>
    ((areas, len, limit, c, i + 1), areas, len, limit, candidate, index) \<in> measure (\<lambda>(as, _, _, _, i). length as - i)"
    by auto
qed

declare free_loop.simps [simp del]

definition find_free_area :: "MapArea list \<Rightarrow> usize \<Rightarrow> usize \<Rightarrow> usize \<Rightarrow> usize option" where
  "find_free_area areas hint len limit =
     (if len = 0 then None
      else (case align_up (max hint PAGE_SIZE) of
              None \<Rightarrow> None
            | Some candidate \<Rightarrow> free_loop areas len limit candidate (first_area_ending_after areas candidate)))"

section \<open>Splitting and coalescing\<close>

definition list_insert :: "nat \<Rightarrow> 'a \<Rightarrow> 'a list \<Rightarrow> 'a list" where
  "list_insert i x xs = take i xs @ x # drop i xs"

definition split_area_at :: "MapArea list \<Rightarrow> usize \<Rightarrow> MapArea list option" where
  "split_area_at areas addr =
     (if addr mod PAGE_SIZE \<noteq> 0 then Some areas
      else (case area_index_containing areas addr of
              None \<Rightarrow> Some areas
            | Some index \<Rightarrow>
                (case split_at (areas ! index) addr of
                   None \<Rightarrow> None
                 | Some (l, None) \<Rightarrow> Some (areas[index := l])
                 | Some (l, Some r) \<Rightarrow> Some (list_insert (index + 1) r (areas[index := l])))))"

definition sort_areas :: "MapArea list \<Rightarrow> MapArea list" where
  "sort_areas areas = sort_key start_va areas"

fun coalesce_loop :: "MapArea list \<Rightarrow> MapArea list \<Rightarrow> MapArea list option" where
  "coalesce_loop merged [] = Some merged"
| "coalesce_loop merged (area # rest) =
     (if merged \<noteq> [] \<and> area_can_merge_with (last merged) area
      then (case merge_with (last merged) area of
              None \<Rightarrow> None
            | Some m \<Rightarrow> coalesce_loop (butlast merged @ [m]) rest)
      else coalesce_loop (merged @ [area]) rest)"

definition coalesce_areas :: "MapArea list \<Rightarrow> MapArea list option" where
  "coalesce_areas areas = coalesce_loop [] (sort_areas areas)"

function coalesce_from :: "MapArea list \<Rightarrow> nat \<Rightarrow> usize \<Rightarrow> MapArea list option" where
  "coalesce_from areas index fin =
     (if index + 1 < length areas then
        (if start_va (areas ! index) \<ge> fin then Some areas
         else if area_can_merge_with (areas ! index) (areas ! (index + 1))
         then (case merge_with (areas ! index) (areas ! (index + 1)) of
                 None \<Rightarrow> None
               | Some m \<Rightarrow> coalesce_from ((take (index + 1) areas @ drop (index + 2) areas)[index := m]) index fin)
         else coalesce_from areas (index + 1) fin)
      else Some areas)"
  by pat_completeness auto
termination by (relation "measure (\<lambda>(as, i, _). length as - i)") auto

declare coalesce_from.simps [simp del]

definition coalesce_changed_range :: "MapArea list \<Rightarrow> usize \<Rightarrow> usize \<Rightarrow> MapArea list option" where
  "coalesce_changed_range areas start fin =
     (if length areas < 2 then Some areas
      else coalesce_from areas (first_area_ending_after areas start - 1) fin)"

section \<open>What an address space maps\<close>

text \<open>Areas in address order, none overlapping the next.\<close>

definition areas_apart :: "MapArea list \<Rightarrow> bool" where
  "areas_apart areas \<longleftrightarrow> (\<forall>a \<in> set areas. area_ok a)
     \<and> sorted_wrt (\<lambda>a b. end_va a \<le> start_va b \<or> end_va b \<le> start_va a) areas"

definition areas_ok :: "MapArea list \<Rightarrow> bool" where
  "areas_ok areas \<longleftrightarrow> (\<forall>a \<in> set areas. area_ok a) \<and> sorted_wrt (\<lambda>a b. end_va a \<le> start_va b) areas"

text \<open>At a virtual address: the protection, the backing object with the offset into it, and the
  resident page.\<close>

type_synonym area_view = "PTEFlags \<times> MapAreaBacking \<times> ResidentPage option"

definition area_view :: "MapArea \<Rightarrow> VirtAddr \<Rightarrow> area_view" where
  "area_view a va = (area_flags a, area_backing_at a va, area_page a va)"

definition view :: "MapArea list \<Rightarrow> VirtAddr \<Rightarrow> area_view option" where
  "view areas va = map_option (\<lambda>a. area_view a va) (find (\<lambda>a. area_contains a va) areas)"

definition space_pages :: "MapArea list \<Rightarrow> ResidentPage multiset" where
  "space_pages areas = (\<Sum>a \<leftarrow> areas. rs_pages (resident a))"

text \<open>Two descriptors of one file back an area the same way.\<close>

fun backing_same :: "MapAreaBacking \<Rightarrow> MapAreaBacking \<Rightarrow> bool" where
  "backing_same (File f o1 s) (File g o2 t) = ((f = g \<or> same_file f g) \<and> o1 = o2 \<and> s = t)"
| "backing_same a b = (a = b)"

definition view_same :: "area_view option \<Rightarrow> area_view option \<Rightarrow> bool" where
  "view_same = rel_option (\<lambda>(f, b, p) (g, c, q). f = g \<and> backing_same b c \<and> p = q)"

lemma backing_same_refl [simp]: "backing_same b b"
  by (cases b) auto

lemma backing_same_trans: "backing_same a b \<Longrightarrow> backing_same b c \<Longrightarrow> backing_same a c"
  by (cases a; cases b; cases c) (auto simp: same_file_def intro: same_file_identity_trans)

lemma view_same_refl [simp]: "view_same v v"
  by (cases v) (auto simp: view_same_def)

lemma view_same_Some [simp]:
  "view_same (Some (f, b, p)) (Some (g, c, q)) \<longleftrightarrow> f = g \<and> backing_same b c \<and> p = q"
  by (simp add: view_same_def)

lemma view_same_None: "view_same None v \<longleftrightarrow> v = None" "view_same v None \<longleftrightarrow> v = None"
  by (cases v; auto simp: view_same_def)+

lemma view_same_trans: "view_same u v \<Longrightarrow> view_same v w \<Longrightarrow> view_same u w"
  by (cases u; cases v; cases w) (auto simp: view_same_def intro: backing_same_trans)

lemma view_simps [simp]:
  "view [] va = None"
  "view (a # as) va = (if area_contains a va then Some (area_view a va) else view as va)"
  by (simp_all add: view_def)

lemma view_append: "view (xs @ ys) va = (case view xs va of None \<Rightarrow> view ys va | Some x \<Rightarrow> Some x)"
  by (induction xs) auto

lemma view_None: "view areas va = None \<longleftrightarrow> (\<forall>a \<in> set areas. \<not> area_contains a va)"
  by (induction areas) auto

lemma space_pages_simps [simp]:
  "space_pages [] = {#}" "space_pages (a # as) = rs_pages (resident a) + space_pages as"
  "space_pages (xs @ ys) = space_pages xs + space_pages ys"
  by (simp_all add: space_pages_def)

lemma areas_ok_simps [simp]:
  "areas_ok []" "areas_ok (a # as) \<longleftrightarrow> area_ok a \<and> (\<forall>b \<in> set as. end_va a \<le> start_va b) \<and> areas_ok as"
  by (auto simp: areas_ok_def)

lemma areas_ok_append:
  "areas_ok (xs @ ys) \<longleftrightarrow> areas_ok xs \<and> areas_ok ys \<and> (\<forall>a \<in> set xs. \<forall>b \<in> set ys. end_va a \<le> start_va b)"
  by (auto simp: areas_ok_def sorted_wrt_append)

lemma areas_ok_apart: "areas_ok as \<Longrightarrow> areas_apart as"
  unfolding areas_ok_def areas_apart_def by (auto elim: sorted_wrt_mono_rel [rotated])

lemma areas_ok_nth:
  assumes "areas_ok as" "i < j" "j < length as"
  shows "end_va (as ! i) \<le> start_va (as ! j)"
  using assms by (auto simp: areas_ok_def sorted_wrt_iff_nth_less)

lemma areas_ok_area: "areas_ok as \<Longrightarrow> i < length as \<Longrightarrow> area_ok (as ! i)"
  by (auto simp: areas_ok_def)

lemma area_ok_lt: "area_ok a \<Longrightarrow> start_va a < end_va a"
  by (simp add: area_ok_def)

text \<open>Only one area contains an address, so the view does not depend on the order.\<close>

lemma areas_apart_unique:
  assumes "areas_apart as" "a \<in> set as" "b \<in> set as" "area_contains a va" "area_contains b va"
  shows "a = b"
proof -
  obtain i j where ij: "i < length as" "j < length as" "a = as ! i" "b = as ! j"
    using assms(2,3) by (auto simp: in_set_conv_nth)
  have "\<not> i < j" "\<not> j < i"
    using assms(1,4,5) ij unfolding areas_apart_def sorted_wrt_iff_nth_less area_contains_def by fastforce+
  then have "i = j" by simp
  then show ?thesis using ij by simp
qed

lemma view_apart:
  assumes "areas_apart as"
  shows "view as va = Some x \<longleftrightarrow> (\<exists>a \<in> set as. area_contains a va \<and> x = area_view a va)"
proof
  assume "view as va = Some x"
  then show "\<exists>a \<in> set as. area_contains a va \<and> x = area_view a va"
    by (auto simp: view_def dest: find_SomeD)
next
  assume "\<exists>a \<in> set as. area_contains a va \<and> x = area_view a va"
  then obtain a where a: "a \<in> set as" "area_contains a va" "x = area_view a va" by blast
  obtain b where b: "find (\<lambda>a. area_contains a va) as = Some b"
    using a by (cases "find (\<lambda>a. area_contains a va) as") (auto simp: find_None_iff)
  then have "b \<in> set as" "area_contains b va" by (auto dest: find_SomeD)
  then have "b = a" using areas_apart_unique [OF assms] a by blast
  then show "view as va = Some x" using b a by (simp add: view_def)
qed

lemma view_perm:
  assumes "areas_apart as" "areas_apart bs" "set as = set bs"
  shows "view as = view bs"
proof
  fix va
  have "view as va = Some x \<longleftrightarrow> view bs va = Some x" for x
    unfolding view_apart [OF assms(1)] view_apart [OF assms(2)] assms(3) by simp
  then show "view as va = view bs va" by (metis not_Some_eq)
qed

section \<open>The searches are exact\<close>

lemma search_containing_complete:
  assumes "areas_ok as" "i < length as" "area_contains (as ! i) addr" "l \<le> i" "i < r" "r \<le> length as"
  shows "search_containing as addr l r = Some i"
  using assms
proof (induction as addr l r rule: search_containing.induct)
  case (1 as addr l r)
  define mid where "mid = l + (r - l) div 2"
  have lr: "l < r" and mid: "l \<le> mid" "mid < r" using "1.prems" by (auto simp: mid_def)
  have c: "start_va (as ! i) \<le> addr" "addr < end_va (as ! i)" using "1.prems"(3) by (auto simp: area_contains_def)
  note ok = "1.prems"(1)
  have lt: "start_va (as ! mid) < end_va (as ! mid)" using area_ok_lt areas_ok_area [OF ok] mid "1.prems" by simp
  consider "i < mid" | "i = mid" | "mid < i" by linarith
  then show ?case
  proof cases
    case 1
    then have "end_va (as ! i) \<le> start_va (as ! mid)" using areas_ok_nth [OF ok] mid "1.prems" by simp
    then have "addr < start_va (as ! mid)" using c by simp
    then show ?thesis using "1.IH"(1) [OF lr mid_def] "1.prems" 1 mid lr
      by (subst search_containing.simps) (simp add: mid_def [symmetric] Let_def)
  next
    case 2
    then show ?thesis using c lr by (subst search_containing.simps) (simp add: mid_def [symmetric] Let_def)
  next
    case 3
    then have "end_va (as ! mid) \<le> start_va (as ! i)" using areas_ok_nth [OF ok] mid "1.prems" by simp
    then have "\<not> addr < start_va (as ! mid)" "end_va (as ! mid) \<le> addr" using c lt by simp_all
    then show ?thesis using "1.IH"(2) [OF lr mid_def] "1.prems" 3 mid lr
      by (subst search_containing.simps) (simp add: mid_def [symmetric] Let_def)
  qed
qed

lemma area_index_iff:
  assumes "areas_ok as"
  shows "area_index_containing as addr = Some i \<longleftrightarrow> i < length as \<and> area_contains (as ! i) addr"
  using search_containing_complete [OF assms, of i addr 0 "length as"] area_index_sound [of as addr i]
  by (auto simp: area_index_containing_def)

lemma area_index_None:
  assumes "areas_ok as"
  shows "area_index_containing as addr = None \<longleftrightarrow> view as addr = None"
proof (cases "area_index_containing as addr")
  case None
  then have "\<not> area_contains (as ! i) addr" if "i < length as" for i
    using area_index_iff [OF assms, of addr i] that by simp
  then show ?thesis using None by (auto simp: view_None in_set_conv_nth)
next
  case (Some i)
  then have "area_contains (as ! i) addr" "as ! i \<in> set as" using area_index_sound by auto
  then show ?thesis using Some by (auto simp: view_None)
qed

lemma view_index:
  assumes "areas_ok as" "area_index_containing as addr = Some i"
  shows "view as addr = Some (area_view (as ! i) addr)"
  using assms unfolding area_index_iff [OF assms(1)] view_apart [OF areas_ok_apart [OF assms(1)]] by auto

lemma area_ends_increase:
  assumes "areas_ok as" "i < j" "j < length as"
  shows "end_va (as ! i) < end_va (as ! j)"
  using areas_ok_nth [OF assms] area_ok_lt [OF areas_ok_area [OF assms(1,3)]] by simp

lemma search_ending_after_correct:
  assumes "areas_ok as" "l \<le> r" "r \<le> length as" "\<forall>j < l. end_va (as ! j) \<le> addr"
    "\<forall>j. r \<le> j \<and> j < length as \<longrightarrow> addr < end_va (as ! j)"
  shows "search_ending_after as addr l r \<le> length as
    \<and> (\<forall>j < search_ending_after as addr l r. end_va (as ! j) \<le> addr)
    \<and> (\<forall>j. search_ending_after as addr l r \<le> j \<and> j < length as \<longrightarrow> addr < end_va (as ! j))"
  using assms
proof (induction as addr l r rule: search_ending_after.induct)
  case (1 as addr l r)
  show ?case
  proof (cases "l < r")
    case False
    then show ?thesis using "1.prems" by (subst (1 2 3) search_ending_after.simps) simp
  next
    case True
    define mid where "mid = l + (r - l) div 2"
    have mid: "l \<le> mid" "mid < r" using True by (auto simp: mid_def)
    have step: "search_ending_after as addr l r =
        (if end_va (as ! mid) \<le> addr then search_ending_after as addr (mid + 1) r else search_ending_after as addr l mid)"
      using True by (subst search_ending_after.simps) (simp add: mid_def [symmetric] Let_def)
    note mono = area_ends_increase [OF "1.prems"(1)]
    show ?thesis
    proof (cases "end_va (as ! mid) \<le> addr")
      case le: True
      have "\<forall>j < mid + 1. end_va (as ! j) \<le> addr"
      proof (intro allI impI)
        fix j assume "j < mid + 1"
        then show "end_va (as ! j) \<le> addr" using mono [of j mid] le mid "1.prems"(3) by (cases "j = mid") auto
      qed
      then show ?thesis unfolding step using "1.IH"(1) [OF True mid_def le] le mid "1.prems" by simp
    next
      case gt: False
      have "\<forall>j. mid \<le> j \<and> j < length as \<longrightarrow> addr < end_va (as ! j)"
      proof (intro allI impI)
        fix j assume "mid \<le> j \<and> j < length as"
        then show "addr < end_va (as ! j)" using mono [of mid j] gt by (cases "j = mid") auto
      qed
      from "1.IH"(2) [OF True mid_def gt "1.prems"(1) mid(1) _ "1.prems"(4) this]
      show ?thesis unfolding step using gt mid(2) "1.prems"(3) by simp
    qed
  qed
qed

lemma first_area_correct:
  assumes "areas_ok as"
  shows "first_area_ending_after as addr \<le> length as"
    and "j < first_area_ending_after as addr \<Longrightarrow> end_va (as ! j) \<le> addr"
    and "first_area_ending_after as addr \<le> j \<Longrightarrow> j < length as \<Longrightarrow> addr < end_va (as ! j)"
proof -
  let ?k = "first_area_ending_after as addr"
  have "?k \<le> length as \<and> (\<forall>j < ?k. end_va (as ! j) \<le> addr) \<and> (\<forall>j. ?k \<le> j \<and> j < length as \<longrightarrow> addr < end_va (as ! j))"
    unfolding first_area_ending_after_def by (rule search_ending_after_correct [OF assms]) simp_all
  then show "?k \<le> length as" "j < ?k \<Longrightarrow> end_va (as ! j) \<le> addr"
    "?k \<le> j \<Longrightarrow> j < length as \<Longrightarrow> addr < end_va (as ! j)" by blast+
qed

lemma range_overlaps_iff:
  assumes ok: "areas_ok as" and "s < e"
  shows "range_overlaps as s e \<longleftrightarrow> (\<exists>a \<in> set as. area_overlaps a s e)"
proof
  let ?k = "first_area_ending_after as s"
  assume "range_overlaps as s e"
  then have "?k < length as" "start_va (as ! ?k) < e" using assms(2) by (auto simp: range_overlaps_def Let_def)
  then show "\<exists>a \<in> set as. area_overlaps a s e"
    using first_area_correct(3) [OF ok, of s ?k] by (auto simp: area_overlaps_def intro!: bexI [of _ "as ! ?k"])
next
  let ?k = "first_area_ending_after as s"
  assume "\<exists>a \<in> set as. area_overlaps a s e"
  then obtain j where j: "j < length as" "start_va (as ! j) < e" "s < end_va (as ! j)"
    by (auto simp: area_overlaps_def in_set_conv_nth)
  then have "?k \<le> j" using first_area_correct(2) [OF ok, of j s] by force
  then have "start_va (as ! ?k) < e"
  proof (cases "?k = j")
    case False
    then have "end_va (as ! ?k) \<le> start_va (as ! j)" using \<open>?k \<le> j\<close> areas_ok_nth [OF ok, of ?k j] j by simp
    then show ?thesis using area_ok_lt [OF areas_ok_area [OF ok, of ?k]] \<open>?k \<le> j\<close> j by simp
  qed (use j in simp)
  then show "range_overlaps as s e" using \<open>?k \<le> j\<close> j assms(2) by (simp add: range_overlaps_def Let_def)
qed

lemma range_covered_iff:
  assumes "areas_ok as"
  shows "range_covered as s e \<longleftrightarrow> (\<forall>va. s \<le> va \<and> va < e \<longrightarrow> view as va \<noteq> None)"
  using assms
proof (induction as s e rule: range_covered.induct)
  case (1 as s e)
  show ?case
  proof (cases "s < e")
    case False
    then show ?thesis by (subst range_covered.simps) auto
  next
    case True
    show ?thesis
    proof (cases "area_index_containing as s")
      case None
      then have "view as s = None" using area_index_None [OF "1.prems"] by simp
      then show ?thesis using None True by (subst range_covered.simps) auto
    next
      case (Some i)
      then have i: "i < length as" "area_contains (as ! i) s" using area_index_sound by auto
      have "view as va \<noteq> None" if "s \<le> va" "va < end_va (as ! i)" for va
        using i that by (auto simp: view_None area_contains_def intro!: bexI [of _ "as ! i"])
      moreover have "range_covered as s e = range_covered as (end_va (as ! i)) e"
        using True Some by (subst range_covered.simps) simp
      ultimately show ?thesis using "1.IH" [OF True Some "1.prems"] i(2)
        unfolding area_contains_def by (metis le_less_trans less_imp_le not_le)
    qed
  qed
qed

section \<open>First fit\<close>

definition range_free :: "MapArea list \<Rightarrow> usize \<Rightarrow> usize \<Rightarrow> bool" where
  "range_free areas s e \<longleftrightarrow> (\<forall>va. s \<le> va \<and> va < e \<longrightarrow> view areas va = None)"

lemma range_free_overlaps:
  assumes "areas_ok as" "s < e"
  shows "range_free as s e \<longleftrightarrow> (\<forall>a \<in> set as. \<not> area_overlaps a s e)"
proof
  assume free: "range_free as s e"
  show "\<forall>a \<in> set as. \<not> area_overlaps a s e"
  proof (intro ballI notI)
    fix a assume a: "a \<in> set as" "area_overlaps a s e"
    have "area_ok a" using assms(1) a(1) by (auto simp: areas_ok_def)
    then have "area_contains a (max s (start_va a))" "max s (start_va a) < e"
      using a(2) assms(2) by (auto simp: area_overlaps_def area_contains_def area_ok_def)
    then show False using free a(1) unfolding range_free_def view_None by (meson max.cobounded1)
  qed
next
  assume "\<forall>a \<in> set as. \<not> area_overlaps a s e"
  then show "range_free as s e" by (auto simp: range_free_def view_None area_overlaps_def area_contains_def)
qed

lemma align_up_Some:
  assumes "align_up v = Some w"
  shows "v \<le> w" "w mod PAGE_SIZE = 0" "c mod PAGE_SIZE = 0 \<Longrightarrow> v \<le> c \<Longrightarrow> w \<le> c"
proof -
  have w: "w = (v + (PAGE_SIZE - 1)) div PAGE_SIZE * PAGE_SIZE"
    using assms by (auto simp: align_up_def checked_add_Some)
  show "w mod PAGE_SIZE = 0" by (simp add: w)
  have "w + (v + (PAGE_SIZE - 1)) mod PAGE_SIZE = v + (PAGE_SIZE - 1)" unfolding w by (rule div_mult_mod_eq)
  moreover have "(v + (PAGE_SIZE - 1)) mod PAGE_SIZE < PAGE_SIZE" by simp
  ultimately show "v \<le> w" using PAGE_SIZE_pos(1) by linarith
  assume c: "c mod PAGE_SIZE = 0" "v \<le> c"
  have "v + (PAGE_SIZE - 1) < c + PAGE_SIZE" using c(2) PAGE_SIZE_pos(1) by linarith
  also have "c + PAGE_SIZE = Suc (c div PAGE_SIZE) * PAGE_SIZE" using page_div_mult [OF c(1)] by simp
  finally have "(v + (PAGE_SIZE - 1)) div PAGE_SIZE < Suc (c div PAGE_SIZE)" by (rule less_mult_imp_div_less)
  then show "w \<le> c" unfolding w using page_div_mult [OF c(1)] by (metis less_Suc_eq_le mult_le_mono1)
qed

lemma align_up_None: "align_up v = None \<longleftrightarrow> usize_max < v + (PAGE_SIZE - 1)"
  by (simp add: align_up_def checked_add_None)

text \<open>No aligned address lies above a value that cannot be rounded up.\<close>

lemma align_up_None_above:
  assumes "align_up v = None" "c mod PAGE_SIZE = 0" "v \<le> c"
  shows "usize_max < c"
proof (rule ccontr)
  assume "\<not> usize_max < c"
  then have "c < 2 ^ 52 * PAGE_SIZE" by (simp add: usize_max_def PAGE_SIZE_def)
  then have "c div PAGE_SIZE < 2 ^ 52" by (rule less_mult_imp_div_less)
  then have "c div PAGE_SIZE \<le> 2 ^ 52 - 1" by simp
  then have "c \<le> (2 ^ 52 - 1) * PAGE_SIZE" using page_div_mult [OF assms(2)] by (metis mult_le_mono1)
  then show False using assms(1,3) by (simp add: align_up_None usize_max_def PAGE_SIZE_def)
qed

text \<open>From a state of the loop in which every area before \<open>index\<close> ends at or before the
  candidate, the result is the lowest free aligned range from the candidate on.\<close>

definition first_fit :: "MapArea list \<Rightarrow> usize \<Rightarrow> usize \<Rightarrow> usize \<Rightarrow> usize option \<Rightarrow> bool" where
  "first_fit areas from len limit r \<longleftrightarrow>
     (let good = (\<lambda>c. from \<le> c \<and> c mod PAGE_SIZE = 0 \<and> c + len \<le> limit \<and> range_free areas c (c + len))
      in case r of None \<Rightarrow> (\<forall>c. \<not> good c) | Some x \<Rightarrow> good x \<and> (\<forall>c. good c \<longrightarrow> x \<le> c))"

lemma first_fit_skip:
  assumes "first_fit areas from' len limit r" "from \<le> from'"
    and "\<And>c. from \<le> c \<Longrightarrow> c mod PAGE_SIZE = 0 \<Longrightarrow> c + len \<le> limit \<Longrightarrow> range_free areas c (c + len) \<Longrightarrow> from' \<le> c"
  shows "first_fit areas from len limit r"
  using assms unfolding first_fit_def by (cases r) (auto simp: Let_def)

lemma first_fit_none:
  assumes "\<And>c. from \<le> c \<Longrightarrow> c mod PAGE_SIZE = 0 \<Longrightarrow> c + len \<le> limit \<Longrightarrow> range_free areas c (c + len) \<Longrightarrow> False"
  shows "first_fit areas from len limit None"
  unfolding first_fit_def Let_def option.case by (intro allI notI; elim conjE; rule assms)

lemma free_loop_first_fit:
  assumes "areas_ok areas" "0 < len" "limit \<le> usize_max" "candidate mod PAGE_SIZE = 0" "index \<le> length areas"
    and "\<forall>j < index. end_va (areas ! j) \<le> candidate"
  shows "first_fit areas candidate len limit (free_loop areas len limit candidate index)"
  using assms
proof (induction areas len limit candidate index rule: free_loop.induct)
  case (1 areas len limit candidate index)
  note ok = "1.prems"(1)
  define i where "i = skip_ended areas candidate index"
  have i: "i \<le> length areas" "index \<le> i" using skip_ended_correct "1.prems"(5) by (auto simp: i_def)
  have before: "end_va (areas ! j) \<le> candidate" if "j < i" for j
    using skip_ended_correct(2) [of index j areas candidate] "1.prems"(6) that by (cases "j < index") (auto simp: i_def)
  show ?case
  proof (cases "checked_add candidate len")
    case None
    then have "free_loop areas len limit candidate index = None" by (subst free_loop.simps) simp
    then show ?thesis using None "1.prems"(3) by (auto simp: checked_add_None intro!: first_fit_none)
  next
    case (Some fin)
    then have fin: "fin = candidate + len" by (simp add: checked_add_Some)
    show ?thesis
    proof (cases "fin > limit")
      case True
      then have "free_loop areas len limit candidate index = None" using Some by (subst free_loop.simps) simp
      then show ?thesis using True fin by (auto intro!: first_fit_none)
    next
      case False
      show ?thesis
      proof (cases "i \<ge> length areas \<or> start_va (areas ! i) \<ge> fin")
        case True
        have "\<not> area_overlaps (areas ! j) candidate fin" if j: "j < length areas" for j
        proof (cases "j < i")
          case False
          then have "start_va (areas ! i) \<le> start_va (areas ! j)"
            using areas_ok_nth [OF ok, of i j] area_ok_lt [OF areas_ok_area [OF ok, of i]] j
            by (cases "i = j") auto
          then show ?thesis using True False j by (auto simp: area_overlaps_def)
        qed (use before [of j] in \<open>auto simp: area_overlaps_def\<close>)
        then have "range_free areas candidate fin"
          using range_free_overlaps [OF ok, of candidate fin] fin "1.prems"(2) by (auto simp: in_set_conv_nth)
        moreover have "free_loop areas len limit candidate index = Some candidate"
          using Some False True by (subst free_loop.simps) (simp add: i_def [symmetric] Let_def)
        ultimately show ?thesis using False "1.prems"(4) fin by (auto simp: first_fit_def Let_def)
      next
        case blocked: False
        then have il: "i < length areas" "start_va (areas ! i) < fin" by auto
        have beyond: "end_va (areas ! i) \<le> c"
          if c: "candidate \<le> c" "range_free areas c (c + len)" for c
        proof (rule ccontr)
          assume "\<not> end_va (areas ! i) \<le> c"
          then have "area_overlaps (areas ! i) c (c + len)" using il c(1) fin by (auto simp: area_overlaps_def)
          then show False using range_free_overlaps [OF ok, of c "c + len"] c(2) il(1) "1.prems"(2) by auto
        qed
        show ?thesis
        proof (cases "align_up (end_va (areas ! i))")
          case None
          then have "free_loop areas len limit candidate index = None"
            using Some False blocked by (subst free_loop.simps) (simp add: i_def [symmetric] Let_def)
          moreover have "first_fit areas candidate len limit None"
          proof (rule first_fit_none)
            fix c assume c: "candidate \<le> c" "c mod PAGE_SIZE = 0" "c + len \<le> limit" "range_free areas c (c + len)"
            show False using align_up_None_above [OF None c(2) beyond [OF c(1,4)]] c(3) "1.prems"(3) by linarith
          qed
          ultimately show ?thesis by simp
        next
          case c: (Some c)
          have step: "free_loop areas len limit candidate index = free_loop areas len limit c (i + 1)"
            using Some False blocked c by (subst free_loop.simps) (simp add: i_def [symmetric] Let_def)
          have "candidate \<le> c" using align_up_Some(1) [OF c] skip_ended_correct(3) [of areas candidate index] il(1)
            by (simp add: i_def)
          have "\<forall>j < i + 1. end_va (areas ! j) \<le> c"
            using before align_up_Some(1) [OF c] \<open>candidate \<le> c\<close> by (auto simp: less_Suc_eq intro: le_trans)
          then have "first_fit areas c len limit (free_loop areas len limit c (i + 1))"
            using "1.IH" [OF Some False i_def blocked c ok "1.prems"(2,3) align_up_Some(2) [OF c]] il(1) by simp
          then show ?thesis unfolding step
            by (rule first_fit_skip) (use \<open>candidate \<le> c\<close> beyond align_up_Some(3) [OF c] in auto)
        qed
      qed
    qed
  qed
qed

lemma find_free_area_first_fit:
  assumes ok: "areas_ok areas" and "0 < len" "limit \<le> usize_max"
  shows "first_fit areas (max hint PAGE_SIZE) len limit (find_free_area areas hint len limit)"
proof (cases "align_up (max hint PAGE_SIZE)")
  case None
  then have "find_free_area areas hint len limit = None" by (simp add: find_free_area_def)
  moreover have "first_fit areas (max hint PAGE_SIZE) len limit None"
  proof (rule first_fit_none)
    fix c assume c: "max hint PAGE_SIZE \<le> c" "c mod PAGE_SIZE = 0" "c + len \<le> limit"
    show False using align_up_None_above [OF None c(2,1)] c(3) assms(3) by linarith
  qed
  ultimately show ?thesis by simp
next
  case (Some c)
  have "first_fit areas c len limit (free_loop areas len limit c (first_area_ending_after areas c))"
    using free_loop_first_fit [OF ok assms(2,3) align_up_Some(2) [OF Some]] first_area_correct(1,2) [OF ok] by blast
  then have "first_fit areas (max hint PAGE_SIZE) len limit (free_loop areas len limit c (first_area_ending_after areas c))"
    by (rule first_fit_skip) (use align_up_Some [OF Some] in auto)
  then show ?thesis using Some assms(2) by (simp add: find_free_area_def)
qed

section \<open>Splitting at an address\<close>

lemma split_area_at_correct:
  assumes ok: "areas_ok as"
  shows "\<exists>bs. split_area_at as addr = Some bs \<and> areas_ok bs \<and> view bs = view as \<and> space_pages bs = space_pages as
    \<and> (addr mod PAGE_SIZE = 0 \<longrightarrow> (\<forall>b \<in> set bs. \<not> (start_va b < addr \<and> addr < end_va b)))
    \<and> (\<forall>b \<in> set bs. \<exists>a \<in> set as. start_va a \<le> start_va b \<and> end_va b \<le> end_va a)"
proof (cases "addr mod PAGE_SIZE = 0")
  case False
  then show ?thesis using ok by (auto simp: split_area_at_def)
next
  case al: True
  show ?thesis
  proof (cases "area_index_containing as addr")
    case None
    then have "\<forall>b \<in> set as. \<not> area_contains b addr" using area_index_None [OF ok] view_None by blast
    then show ?thesis using ok None al by (auto simp: split_area_at_def area_contains_def)
  next
    case (Some i)
    then have i: "i < length as" "area_contains (as ! i) addr" using area_index_sound by auto
    let ?a = "as ! i"
    have split: "as = take i as @ ?a # drop (Suc i) as" using id_take_nth_drop [OF i(1)] .
    have upd: "as[i := x] = take i as @ x # drop (Suc i) as" for x using upd_conv_take_nth_drop [OF i(1)] .
    have aok: "area_ok ?a" by (rule areas_ok_area [OF ok i(1)])
    have sides: "areas_ok (take i as)" "areas_ok (drop (Suc i) as)" "\<forall>b \<in> set (take i as). end_va b \<le> start_va ?a"
      "\<forall>b \<in> set (drop (Suc i) as). end_va ?a \<le> start_va b"
      "\<forall>b \<in> set (take i as). \<forall>c \<in> set (drop (Suc i) as). end_va b \<le> start_va c"
      using ok by (subst (asm) split, simp add: areas_ok_append)+
    show ?thesis
    proof (cases "addr \<le> start_va ?a")
      case True
      then have "split_at ?a addr = Some (?a, None)" by (simp add: split_at_def)
      then have "split_area_at as addr = Some as" using Some al by (simp add: split_area_at_def)
      moreover have "\<not> (start_va b < addr \<and> addr < end_va b)" if "b \<in> set as" for b
        using areas_apart_unique [OF areas_ok_apart [OF ok] that nth_mem [OF i(1)] _ i(2)] True
        by (auto simp: area_contains_def)
      ultimately show ?thesis using ok by auto
    next
      case False
      then have inside: "start_va ?a < addr" "addr < end_va ?a" using i(2) by (auto simp: area_contains_def)
      obtain l r where S: "split_at ?a addr = Some (l, Some r)" "area_ok l" "area_ok r"
        "start_va l = start_va ?a" "end_va l = addr" "start_va r = addr" "end_va r = end_va ?a"
        "area_flags l = area_flags ?a" "area_flags r = area_flags ?a" "backing l = backing ?a"
        "backing r = split_right (backing ?a) (addr - start_va ?a)"
        "\<And>va. area_page l va = (if va < addr then area_page ?a va else None)"
        "\<And>va. area_page r va = (if addr \<le> va then area_page ?a va else None)"
        "rs_pages (resident l) + rs_pages (resident r) = rs_pages (resident ?a)"
        using split_at_correct [OF aok inside al] by blast
      define bs where "bs = take i as @ l # r # drop (Suc i) as"
      have run: "split_area_at as addr = Some bs"
        using Some al S(1) i(1) by (simp add: split_area_at_def list_insert_def upd bs_def)
      have okb: "areas_ok bs" using sides S(2-7) inside unfolding bs_def areas_ok_append by (auto intro: le_trans)
      have "area_backing_at r va = area_backing_at ?a va" if "addr \<le> va" for va
        using S(6,11) inside(1) that by (simp add: area_backing_at_def split_right_twice)
      moreover have "area_backing_at l va = area_backing_at ?a va" for va by (simp add: area_backing_at_def S)
      ultimately have two: "view (l # r # ds) va = view (?a # ds) va" for va ds
        using S(4-9,12,13) inside by (auto simp: area_view_def area_contains_def)
      have "view bs va = view (take i as @ ?a # drop (Suc i) as) va" for va
        unfolding bs_def view_append two ..
      then have "view bs = view as" using split by auto
      moreover have "space_pages bs = space_pages (take i as @ ?a # drop (Suc i) as)"
        using S(14) by (simp add: bs_def add.assoc)
      then have "space_pages bs = space_pages as" using split by simp
      moreover have "\<not> (start_va b < addr \<and> addr < end_va b)" if "b \<in> set bs" for b
        using that sides(3,4) S(4-7) inside by (auto simp: bs_def)
      moreover have "\<exists>a \<in> set as. start_va a \<le> start_va b \<and> end_va b \<le> end_va a" if "b \<in> set bs" for b
        using that S(4-7) inside i(1) by (auto simp: bs_def intro: in_set_takeD in_set_dropD bexI [of _ ?a] simp del: bex_simps)
      ultimately show ?thesis using run okb by blast
    qed
  qed
qed

section \<open>Coalescing\<close>

lemma sorted_wrt_sym_perm:
  assumes sym: "\<And>a b. R a b = R b a"
  shows "sorted_wrt R xs \<Longrightarrow> mset ys = mset xs \<Longrightarrow> sorted_wrt R ys"
proof (induction ys arbitrary: xs)
  case (Cons y ys)
  have "y \<in> set xs" using Cons.prems(2) by (metis list.set_intros(1) mset_eq_setD)
  then obtain us vs where xs: "xs = us @ y # vs" by (auto simp: in_set_conv_decomp)
  have m: "mset ys = mset (us @ vs)" using Cons.prems(2) by (simp add: xs)
  have "sorted_wrt R (us @ vs)" "\<forall>b \<in> set (us @ vs). R y b"
    using Cons.prems(1) sym by (auto simp: xs sorted_wrt_append)
  then show ?case using Cons.IH [OF _ m] mset_eq_setD [OF m] by auto
qed simp

lemma sort_areas_ok:
  assumes "areas_apart as"
  shows "areas_ok (sort_areas as)"
proof -
  let ?s = "sort_areas as"
  have perm: "mset ?s = mset as" by (simp add: sort_areas_def)
  have aok: "\<forall>a \<in> set ?s. area_ok a" using assms by (simp add: areas_apart_def sort_areas_def)
  have "end_va (?s ! i) \<le> start_va (?s ! j)" if ij: "i < j" "j < length ?s" for i j
  proof -
    have srt: "start_va (?s ! i) \<le> start_va (?s ! j)"
      using sorted_nth_mono [of "map start_va ?s" i j] ij by (simp add: sort_areas_def)
    have "sorted_wrt (\<lambda>a b. end_va a \<le> start_va b \<or> end_va b \<le> start_va a) ?s"
      using assms perm by (intro sorted_wrt_sym_perm [of _ as ?s]) (auto simp: areas_apart_def)
    then have "end_va (?s ! i) \<le> start_va (?s ! j) \<or> end_va (?s ! j) \<le> start_va (?s ! i)"
      using ij by (simp add: sorted_wrt_iff_nth_less)
    moreover have "start_va (?s ! j) < end_va (?s ! j)" using aok ij by (simp add: area_ok_lt)
    ultimately show ?thesis using srt by linarith
  qed
  then show ?thesis using aok by (simp add: areas_ok_def sorted_wrt_iff_nth_less)
qed

lemma sort_areas_view:
  assumes "areas_apart as"
  shows "view (sort_areas as) = view as" "space_pages (sort_areas as) = space_pages as"
proof -
  show "view (sort_areas as) = view as"
    by (rule view_perm [OF areas_ok_apart [OF sort_areas_ok [OF assms]] assms]) (simp add: sort_areas_def)
  have "mset (map (\<lambda>a. rs_pages (resident a)) (sort_areas as)) = mset (map (\<lambda>a. rs_pages (resident a)) as)"
    by (simp add: sort_areas_def)
  then show "space_pages (sort_areas as) = space_pages as"
    unfolding space_pages_def by (metis sum_mset_sum_list)
qed

text \<open>Merging two neighbours keeps the view of both.\<close>

lemma backing_merge_same:
  assumes "backing_can_merge_with b n c"
  shows "backing_same (split_right c d) (split_right b (n + d))"
  using assms
  by (cases "(b, n, c)" rule: backing_can_merge_with.cases)
    (auto simp: saturating_add_assoc same_file_def same_file_identity_sym)

lemma merge_view:
  assumes ok: "area_ok a" "area_ok b" and m: "area_can_merge_with a b" "merge_with a b = Some c"
  shows "area_ok c" "start_va c = start_va a" "end_va c = end_va b"
    "rs_pages (resident c) = rs_pages (resident a) + rs_pages (resident b)"
    "view_same (view (a # b # ys) va) (view (c # ys) va)"
proof -
  have adj: "end_va a = start_va b" and fl: "area_flags a = area_flags b"
    and bk: "backing_can_merge_with (backing a) (end_va a - start_va a) (backing b)"
    using m(1) by (auto simp: area_can_merge_with_def area_size_def)
  have lt: "start_va a < end_va a" "start_va b < end_va b" using ok by (auto simp: area_ok_def)
  have C: "area_ok c" "start_va c = start_va a" "end_va c = end_va b" "area_flags c = area_flags a" "backing c = backing a"
    "\<And>va. area_page c va = (if va < end_va a then area_page a va else area_page b va)"
    "rs_pages (resident c) = rs_pages (resident a) + rs_pages (resident b)"
    using merge_with_correct [OF ok adj] m(2) by auto
  then show "area_ok c" "start_va c = start_va a" "end_va c = end_va b"
    "rs_pages (resident c) = rs_pages (resident a) + rs_pages (resident b)" by auto
  have "backing_same (area_backing_at b va) (area_backing_at c va)" if "start_va b \<le> va"
  proof -
    have "va - start_va a = (end_va a - start_va a) + (va - start_va b)" using that adj lt by simp
    then show ?thesis using backing_merge_same [OF bk, of "va - start_va b"] C(2,5) by (simp add: area_backing_at_def)
  qed
  moreover have "area_backing_at c va = area_backing_at a va" by (simp add: area_backing_at_def C)
  ultimately show "view_same (view (a # b # ys) va) (view (c # ys) va)"
    using C(2-6) adj fl lt by (auto simp: area_view_def area_contains_def split: if_splits)
qed

lemma view_same_append:
  "view_same (view ys va) (view zs va) \<Longrightarrow> view_same (view (xs @ ys) va) (view (xs @ zs) va)"
  by (simp add: view_append split: option.split)

lemma areas_ok_merge:
  assumes "areas_ok (xs @ a # b # ys)" "area_ok c" "start_va c = start_va a" "end_va c = end_va b"
  shows "areas_ok (xs @ c # ys)"
  using assms by (auto simp: areas_ok_append)

lemma coalesce_loop_correct:
  "areas_ok (merged @ rest) \<Longrightarrow>
   \<exists>bs. coalesce_loop merged rest = Some bs \<and> areas_ok bs
     \<and> (\<forall>va. view_same (view (merged @ rest) va) (view bs va)) \<and> space_pages bs = space_pages (merged @ rest)"
proof (induction merged rest rule: coalesce_loop.induct)
  case (2 merged area rest)
  show ?case
  proof (cases "merged \<noteq> [] \<and> area_can_merge_with (last merged) area")
    case False
    then have "coalesce_loop merged (area # rest) = coalesce_loop (merged @ [area]) rest" by auto
    then show ?thesis using "2.IH"(2) [OF False] "2.prems" by simp
  next
    case True
    define pre where "pre = butlast merged"
    define a where "a = last merged"
    have m: "merged = pre @ [a]" using True by (simp add: pre_def a_def)
    have aok: "area_ok a" "area_ok area" and adj: "end_va a = start_va area"
      using "2.prems" True by (auto simp: m areas_ok_append area_can_merge_with_def)
    obtain c where c: "merge_with a area = Some c" using merge_with_correct [OF aok adj] by blast
    have can: "area_can_merge_with a area" using True by (simp add: m)
    note V = merge_view [OF aok can c]
    have ok': "areas_ok ((pre @ [c]) @ rest)" using areas_ok_merge [of pre a area rest c] "2.prems" V(1-3) by (simp add: m)
    from "2.IH"(1) [OF True, of c] c ok' obtain bs where B: "coalesce_loop (pre @ [c]) rest = Some bs" "areas_ok bs"
      "\<forall>va. view_same (view ((pre @ [c]) @ rest) va) (view bs va)" "space_pages bs = space_pages ((pre @ [c]) @ rest)"
      by (auto simp: m pre_def [symmetric] a_def [symmetric])
    have "view_same (view (merged @ area # rest) va) (view bs va)" for va
      using view_same_trans [OF view_same_append [OF V(5), of pre] B(3) [rule_format, of va, simplified]] by (simp add: m)
    then show ?thesis using B c can V(4) by (auto simp: m add_ac)
  qed
qed auto

lemma coalesce_areas_correct:
  assumes "areas_apart as"
  shows "\<exists>bs. coalesce_areas as = Some bs \<and> areas_ok bs
     \<and> (\<forall>va. view_same (view as va) (view bs va)) \<and> space_pages bs = space_pages as"
  using coalesce_loop_correct [of "[]" "sort_areas as"] sort_areas_ok [OF assms] sort_areas_view [OF assms]
  by (simp add: coalesce_areas_def)

lemma coalesce_from_correct:
  "areas_ok as \<Longrightarrow> \<exists>bs. coalesce_from as index fin = Some bs \<and> areas_ok bs
     \<and> (\<forall>va. view_same (view as va) (view bs va)) \<and> space_pages bs = space_pages as"
proof (induction as index fin rule: coalesce_from.induct)
  case (1 as index fin)
  show ?case
  proof (cases "index + 1 < length as \<and> \<not> start_va (as ! index) \<ge> fin")
    case False
    then have "coalesce_from as index fin = Some as" by (subst coalesce_from.simps) auto
    then show ?thesis using "1.prems" by simp
  next
    case True
    then have i: "index + 1 < length as" and nf: "\<not> start_va (as ! index) \<ge> fin" by auto
    let ?a = "as ! index" and ?b = "as ! (index + 1)"
    show ?thesis
    proof (cases "area_can_merge_with ?a ?b")
      case False
      then have "coalesce_from as index fin = coalesce_from as (index + 1) fin"
        using i nf by (subst coalesce_from.simps) simp
      then show ?thesis using "1.IH"(2) [OF i nf False "1.prems"] by simp
    next
      case can: True
      define pre where "pre = take index as"
      define post where "post = drop (index + 2) as"
      have as: "as = pre @ ?a # ?b # post"
        using i by (simp add: pre_def post_def Cons_nth_drop_Suc id_take_nth_drop)
      have aok: "area_ok ?a" "area_ok ?b" and adj: "end_va ?a = start_va ?b"
        using areas_ok_area [OF "1.prems"] i can by (auto simp: area_can_merge_with_def)
      obtain c where c: "merge_with ?a ?b = Some c" using merge_with_correct [OF aok adj] by blast
      note V = merge_view [OF aok can c]
      have ok': "areas_ok (pre @ c # post)" using areas_ok_merge [of pre ?a ?b post c] "1.prems" V(1-3) as by simp
      have upd: "(take (index + 1) as @ drop (index + 2) as)[index := c] = pre @ c # post"
        using i by (simp add: pre_def post_def take_Suc_conv_app_nth list_update_append)
      have step: "coalesce_from as index fin = coalesce_from (pre @ c # post) index fin"
        using i nf can c upd by (subst coalesce_from.simps) simp
      from "1.IH"(1) [OF i nf can c] ok' upd obtain bs where
        B: "coalesce_from (pre @ c # post) index fin = Some bs" "areas_ok bs"
          "\<forall>va. view_same (view (pre @ c # post) va) (view bs va)" "space_pages bs = space_pages (pre @ c # post)"
        by auto
      have "view_same (view as va) (view bs va)" for va
        using view_same_trans [OF view_same_append [OF V(5), of pre] B(3) [rule_format, of va]] as by simp
      moreover have "space_pages bs = space_pages (pre @ ?a # ?b # post)" using B(4) V(4) by (simp add: add_ac)
      then have "space_pages bs = space_pages as" unfolding as [symmetric] .
      ultimately show ?thesis using step B by auto
    qed
  qed
qed

lemma coalesce_changed_correct:
  assumes "areas_ok as"
  shows "\<exists>bs. coalesce_changed_range as s e = Some bs \<and> areas_ok bs
     \<and> (\<forall>va. view_same (view as va) (view bs va)) \<and> space_pages bs = space_pages as"
  using coalesce_from_correct [OF assms] assms by (simp add: coalesce_changed_range_def)

section \<open>Properties of the area vector\<close>

text \<open>The binary search for the area of an address returns an index exactly when an area
  contains the address, and then the index of that area.\<close>

theorem area_search_exact:
  assumes "areas_ok as"
  shows "area_index_containing as addr = Some i \<longleftrightarrow> i < length as \<and> start_va (as ! i) \<le> addr \<and> addr < end_va (as ! i)"
  using area_index_iff [OF assms] by (simp add: area_contains_def)

text \<open>\<open>find_free_area\<close> is first fit and complete: it returns the lowest page-aligned address not
  below the hint and the first page whose range fits below the limit and touches no area, and it
  fails only when there is no such address.\<close>

theorem find_free_area_lowest:
  assumes "areas_ok areas" "0 < len" "limit \<le> usize_max"
  shows "case find_free_area areas hint len limit of
      Some c \<Rightarrow> max hint PAGE_SIZE \<le> c \<and> c mod PAGE_SIZE = 0 \<and> c + len \<le> limit \<and> \<not> range_overlaps areas c (c + len)
        \<and> (\<forall>d. max hint PAGE_SIZE \<le> d \<and> d mod PAGE_SIZE = 0 \<and> d + len \<le> limit \<and> \<not> range_overlaps areas d (d + len) \<longrightarrow> c \<le> d)
    | None \<Rightarrow> (\<forall>d. max hint PAGE_SIZE \<le> d \<and> d mod PAGE_SIZE = 0 \<and> d + len \<le> limit \<longrightarrow> range_overlaps areas d (d + len))"
proof -
  have eq: "range_free areas d (d + len) \<longleftrightarrow> \<not> range_overlaps areas d (d + len)" for d
    using range_free_overlaps [OF assms(1), of d "d + len"] range_overlaps_iff [OF assms(1), of d "d + len"] assms(2)
    by simp
  show ?thesis
    using find_free_area_first_fit [OF assms, of hint] unfolding first_fit_def Let_def eq
    by (cases "find_free_area areas hint len limit") auto
qed

definition sample_areas :: "MapArea list" where
  "sample_areas = [sample_area, area_new 49152 53248 19, area_new 53248 57344 23]"

lemma sample_areas_ok: "areas_ok sample_areas"
proof -
  have "area_ok (area_new s e f)" if "s < e" "e \<le> usize_max" "s mod PAGE_SIZE = 0" "e mod PAGE_SIZE = 0" for s e f
    using that by (simp add: area_ok_def area_new_def with_backing_def rs_map_empty rs_new_def rs_ok_def runs_ok_def runs_size_def)
  then show ?thesis
    using sample_area_ok by (auto simp: sample_areas_def usize_max_def PAGE_SIZE_def)
      (simp_all add: sample_area_def area_new_def with_backing_def)
qed

theorem area_search_exact_witness:
  "area_index_containing sample_areas 50000 = Some 1"
  using area_search_exact [OF sample_areas_ok, of 50000 1]
  by (simp add: sample_areas_def area_new_def with_backing_def)

theorem find_free_area_lowest_witness:
  "areas_ok sample_areas \<and> find_free_area sample_areas 5000 8192 1000000 \<noteq> None"
proof -
  have "range_overlaps sample_areas 57344 (57344 + 8192) = False"
    using range_overlaps_iff [OF sample_areas_ok, of 57344 "57344 + 8192"]
    by (simp add: sample_areas_def sample_area_def area_new_def with_backing_def area_overlaps_def)
  then show ?thesis
    using find_free_area_lowest [OF sample_areas_ok, of 8192 1000000 5000] sample_areas_ok
    by (auto simp: usize_max_def PAGE_SIZE_def split: option.splits dest!: spec [of _ 57344])
qed

end
