(* ===== verification/Page_Table.thy ===== *)
theory Page_Table
  imports Map_Area
begin

text \<open>
  The three-level page table of the riscv64 and loongarch64 builds
  (\<open>patch/polyhal/src/pagetable/mod.rs\<close>): single and batched mapping and unmapping of 4 KiB
  leaves, and translation. A table is the tree of its valid entries; the physical frames that
  hold the tables are not addressed by number. The kernel's shared upper half, architecture
  encodings of an entry and TLB flushes are left out. The batched forms reuse the leaf table of
  the previous page; they are shown to be the page-by-page forms.
\<close>

section \<open>Tables\<close>

type_synonym leaf_entry = "usize \<times> MappingFlags"
type_synonym leaf_table = "nat \<Rightarrow> leaf_entry option"
type_synonym page_table = "nat \<Rightarrow> (nat \<Rightarrow> leaf_table option) option"

definition pt_empty :: page_table where
  "pt_empty = (\<lambda>_. None)"

text \<open>\<open>(raw >> (12 + 9 n)) & 0x1ff\<close>.\<close>

definition pn_index :: "VirtAddr \<Rightarrow> nat \<Rightarrow> nat" where
  "pn_index vaddr n = vaddr div 2 ^ (12 + 9 * n) mod 512"

text \<open>A leaf table is named by its path from the root.\<close>

type_synonym leaf_path = "nat \<times> nat"

definition leaf_table_for_mapping :: "page_table \<Rightarrow> VirtAddr \<Rightarrow> page_table \<times> leaf_path" where
  "leaf_table_for_mapping pt vaddr =
     (let i2 = pn_index vaddr 2; i1 = pn_index vaddr 1;
          mid = (case pt i2 of None \<Rightarrow> (\<lambda>_. None) | Some m \<Rightarrow> m);
          leaf = (case mid i1 of None \<Rightarrow> (\<lambda>_. None) | Some l \<Rightarrow> l)
      in (pt(i2 \<mapsto> mid(i1 \<mapsto> leaf)), (i2, i1)))"

definition leaf_table_for_unmapping :: "page_table \<Rightarrow> VirtAddr \<Rightarrow> leaf_path option" where
  "leaf_table_for_unmapping pt vaddr =
     (case pt (pn_index vaddr 2) of
        None \<Rightarrow> None
      | Some mid \<Rightarrow> (case mid (pn_index vaddr 1) of None \<Rightarrow> None | Some _ \<Rightarrow> Some (pn_index vaddr 2, pn_index vaddr 1)))"

definition leaf_read :: "page_table \<Rightarrow> leaf_path \<Rightarrow> nat \<Rightarrow> leaf_entry option" where
  "leaf_read pt p i =
     (case pt (fst p) of None \<Rightarrow> None | Some mid \<Rightarrow> (case mid (snd p) of None \<Rightarrow> None | Some leaf \<Rightarrow> leaf i))"

definition leaf_write :: "page_table \<Rightarrow> leaf_path \<Rightarrow> nat \<Rightarrow> leaf_entry option \<Rightarrow> page_table" where
  "leaf_write pt p i e =
     (case pt (fst p) of
        None \<Rightarrow> pt
      | Some mid \<Rightarrow>
          (case mid (snd p) of None \<Rightarrow> pt | Some leaf \<Rightarrow> pt(fst p \<mapsto> mid(snd p \<mapsto> leaf(i := e)))))"

section \<open>Operations\<close>

definition va_tag :: "VirtAddr \<Rightarrow> usize" where
  "va_tag vaddr = vaddr div 2 ^ 21"

text \<open>The loop carries the tag (\<open>vaddr >> 21\<close>) of the leaf table it holds; the initial tag
  \<open>usize::MAX\<close> is no address's tag.\<close>

fun map_pages_loop ::
  "page_table \<Rightarrow> usize \<Rightarrow> leaf_path \<Rightarrow> nat \<Rightarrow> (VirtAddr \<times> usize \<times> MappingFlags) list \<Rightarrow> page_table \<times> nat" where
  "map_pages_loop pt leaf_tag path mapped [] = (pt, mapped)"
| "map_pages_loop pt leaf_tag path mapped ((vaddr, paddr, flags) # rest) =
     (let current_tag = va_tag vaddr;
          (pt1, path1) = (if current_tag \<noteq> leaf_tag then leaf_table_for_mapping pt vaddr else (pt, path))
      in map_pages_loop (leaf_write pt1 path1 (pn_index vaddr 0) (Some (paddr, flags))) current_tag path1 (mapped + 1) rest)"

definition map_pages_without_flush :: "page_table \<Rightarrow> (VirtAddr \<times> usize \<times> MappingFlags) list \<Rightarrow> page_table \<times> nat" where
  "map_pages_without_flush pt pages = map_pages_loop pt usize_max (0, 0) 0 pages"

definition pt_map_page :: "page_table \<Rightarrow> VirtAddr \<Rightarrow> usize \<Rightarrow> MappingFlags \<Rightarrow> page_table" where
  "pt_map_page pt vaddr paddr flags = fst (map_pages_without_flush pt [(vaddr, paddr, flags)])"

fun unmap_pages_loop ::
  "page_table \<Rightarrow> usize \<Rightarrow> leaf_path option \<Rightarrow> nat \<Rightarrow> VirtAddr list \<Rightarrow> page_table \<times> nat" where
  "unmap_pages_loop pt leaf_tag path unmapped [] = (pt, unmapped)"
| "unmap_pages_loop pt leaf_tag path unmapped (vaddr # rest) =
     (let current_tag = va_tag vaddr;
          path1 = (if current_tag \<noteq> leaf_tag then leaf_table_for_unmapping pt vaddr else path)
      in case path1 of
           None \<Rightarrow> unmap_pages_loop pt current_tag path1 unmapped rest
         | Some p \<Rightarrow>
             if leaf_read pt p (pn_index vaddr 0) \<noteq> None
             then unmap_pages_loop (leaf_write pt p (pn_index vaddr 0) None) current_tag path1 (unmapped + 1) rest
             else unmap_pages_loop pt current_tag path1 unmapped rest)"

definition unmap_pages_without_flush :: "page_table \<Rightarrow> VirtAddr list \<Rightarrow> page_table \<times> nat" where
  "unmap_pages_without_flush pt pages = unmap_pages_loop pt usize_max None 0 pages"

definition pt_unmap_page :: "page_table \<Rightarrow> VirtAddr \<Rightarrow> page_table" where
  "pt_unmap_page pt vaddr =
     (case pt (pn_index vaddr 2) of
        None \<Rightarrow> pt
      | Some mid \<Rightarrow>
          (case mid (pn_index vaddr 1) of
             None \<Rightarrow> pt
           | Some leaf \<Rightarrow> pt(pn_index vaddr 2 \<mapsto> mid(pn_index vaddr 1 \<mapsto> leaf(pn_index vaddr 0 := None)))))"

definition pt_translate :: "page_table \<Rightarrow> VirtAddr \<Rightarrow> (usize \<times> MappingFlags) option" where
  "pt_translate pt vaddr =
     (case pt (pn_index vaddr 2) of
        None \<Rightarrow> None
      | Some mid \<Rightarrow>
          (case mid (pn_index vaddr 1) of
             None \<Rightarrow> None
           | Some leaf \<Rightarrow>
               (case leaf (pn_index vaddr 0) of
                  None \<Rightarrow> None
                | Some (paddr, flags) \<Rightarrow> Some (paddr + vaddr mod PAGE_SIZE, flags))))"

section \<open>Translation after each operation\<close>

text \<open>The leaf of an address, and the addresses the three indices can tell apart.\<close>

definition pt_leaf :: "page_table \<Rightarrow> VirtAddr \<Rightarrow> leaf_entry option" where
  "pt_leaf pt vaddr = leaf_read pt (pn_index vaddr 2, pn_index vaddr 1) (pn_index vaddr 0)"

definition VA_LIMIT :: usize where
  "VA_LIMIT = 2 ^ 39"

lemma pt_translate_leaf: "pt_translate pt va = map_option (\<lambda>(p, f). (p + va mod PAGE_SIZE, f)) (pt_leaf pt va)"
  by (auto simp: pt_translate_def pt_leaf_def leaf_read_def split: option.splits)

lemma pn_index_split:
  assumes "va < VA_LIMIT"
  shows "va div PAGE_SIZE = (pn_index va 2 * 512 + pn_index va 1) * 512 + pn_index va 0"
proof -
  define n where "n = va div PAGE_SIZE"
  have n: "n < 512 * (512 * 512)"
    using assms by (simp add: n_def VA_LIMIT_def PAGE_SIZE_def less_mult_imp_div_less)
  have e0: "pn_index va 0 = n mod 512" by (simp add: pn_index_def n_def PAGE_SIZE_def)
  have e1: "pn_index va 1 = n div 512 mod 512" by (simp add: pn_index_def n_def PAGE_SIZE_def div_mult2_eq [symmetric])
  have e2: "pn_index va 2 = n div 512 div 512"
  proof -
    have "pn_index va 2 = n div 512 div 512 mod 512" by (simp add: pn_index_def n_def PAGE_SIZE_def div_mult2_eq [symmetric])
    moreover have "n div 512 div 512 < 512" using n by (simp add: less_mult_imp_div_less mult.assoc)
    ultimately show ?thesis by simp
  qed
  have "n = n div 512 * 512 + n mod 512" by (simp only: div_mult_mod_eq)
  moreover have "n div 512 = n div 512 div 512 * 512 + n div 512 mod 512" by (simp only: div_mult_mod_eq)
  ultimately show ?thesis unfolding n_def [symmetric] e0 e1 e2 by simp
qed

lemma same_indices:
  assumes "va < VA_LIMIT" "vb < VA_LIMIT"
  shows "pn_index va 2 = pn_index vb 2 \<and> pn_index va 1 = pn_index vb 1 \<and> pn_index va 0 = pn_index vb 0 \<longleftrightarrow>
    va div PAGE_SIZE = vb div PAGE_SIZE"
proof
  assume "va div PAGE_SIZE = vb div PAGE_SIZE"
  moreover have "pn_index v n = v div PAGE_SIZE div 2 ^ (9 * n) mod 512" for v n
    by (simp add: pn_index_def PAGE_SIZE_def div_mult2_eq [symmetric] power_add)
  ultimately show "pn_index va 2 = pn_index vb 2 \<and> pn_index va 1 = pn_index vb 1 \<and> pn_index va 0 = pn_index vb 0" by simp
qed (use pn_index_split [OF assms(1)] pn_index_split [OF assms(2)] in simp)

lemma leaf_read_mapping: "leaf_read (fst (leaf_table_for_mapping pt va)) p i = leaf_read pt p i"
  by (auto simp: leaf_table_for_mapping_def leaf_read_def Let_def split: option.splits)

lemma path_of_mapping: "snd (leaf_table_for_mapping pt va) = (pn_index va 2, pn_index va 1)"
  by (simp add: leaf_table_for_mapping_def Let_def)

definition has_leaf_table :: "page_table \<Rightarrow> leaf_path \<Rightarrow> bool" where
  "has_leaf_table pt p \<longleftrightarrow> (\<exists>mid leaf. pt (fst p) = Some mid \<and> mid (snd p) = Some leaf)"

lemma mapping_has_leaf: "has_leaf_table (fst (leaf_table_for_mapping pt va)) (pn_index va 2, pn_index va 1)"
  by (simp add: leaf_table_for_mapping_def has_leaf_table_def Let_def)

lemma leaf_write_has: "has_leaf_table pt q \<Longrightarrow> has_leaf_table (leaf_write pt p i e) q"
  by (auto simp: leaf_write_def has_leaf_table_def split: option.splits)

lemma leaf_read_write:
  "has_leaf_table pt p \<Longrightarrow> leaf_read (leaf_write pt p i e) q j = (if p = q \<and> i = j then e else leaf_read pt q j)"
  by (cases p; cases q) (auto simp: leaf_read_def leaf_write_def has_leaf_table_def split: option.splits)

section \<open>The batches\<close>

text \<open>The tag of an address determines the path to its leaf table.\<close>

definition tag_path :: "usize \<Rightarrow> leaf_path" where
  "tag_path tag = (tag div 512 mod 512, tag mod 512)"

lemma tag_path_eq: "tag_path (va_tag va) = (pn_index va 2, pn_index va 1)"
  by (simp add: va_tag_def tag_path_def pn_index_def div_mult2_eq [symmetric])

lemma tag_valid: "va < VA_LIMIT \<Longrightarrow> va_tag va \<noteq> usize_max"
  using div_le_dividend [of va "2 ^ 21"] by (simp add: va_tag_def VA_LIMIT_def usize_max_def)

lemma pt_leaf_write:
  assumes "va < VA_LIMIT" "w < VA_LIMIT" "has_leaf_table pt (tag_path (va_tag va))"
  shows "pt_leaf (leaf_write pt (tag_path (va_tag va)) (pn_index va 0) e) w
    = (if va div PAGE_SIZE = w div PAGE_SIZE then e else pt_leaf pt w)"
  using leaf_read_write [OF assms(3)] same_indices [OF assms(1,2)] by (auto simp: pt_leaf_def tag_path_eq)

definition map_turn :: "VirtAddr \<Rightarrow> VirtAddr \<times> usize \<times> MappingFlags \<Rightarrow> leaf_entry option \<Rightarrow> leaf_entry option" where
  "map_turn w x old = (if fst x div PAGE_SIZE = w div PAGE_SIZE then Some (snd x) else old)"

lemma map_pages_loop_correct:
  assumes "\<forall>x \<in> set pages. fst x < VA_LIMIT" "w < VA_LIMIT"
    "tag = usize_max \<or> path = tag_path tag \<and> has_leaf_table pt path"
  shows "pt_leaf (fst (map_pages_loop pt tag path n pages)) w = fold (map_turn w) pages (pt_leaf pt w)
    \<and> snd (map_pages_loop pt tag path n pages) = n + length pages"
  using assms
proof (induction pt tag path n pages rule: map_pages_loop.induct)
  case (2 pt tag path n va pa fl rest)
  define tag1 where "tag1 = va_tag va"
  have va: "va < VA_LIMIT" using "2.prems"(1) by simp
  obtain pt1 path1 where s: "(if tag1 \<noteq> tag then leaf_table_for_mapping pt va else (pt, path)) = (pt1, path1)"
    by (cases "if tag1 \<noteq> tag then leaf_table_for_mapping pt va else (pt, path)") blast
  have P: "path1 = tag_path tag1 \<and> has_leaf_table pt1 path1 \<and> pt_leaf pt1 w = pt_leaf pt w"
  proof (cases "tag1 = tag")
    case True
    then show ?thesis using s "2.prems"(3) tag_valid [OF va] by (auto simp: tag1_def)
  next
    case False
    then have e: "pt1 = fst (leaf_table_for_mapping pt va)" "path1 = snd (leaf_table_for_mapping pt va)"
      using s by (auto dest: arg_cong [of _ _ fst] arg_cong [of _ _ snd])
    show ?thesis
      using mapping_has_leaf [of pt va] unfolding e path_of_mapping pt_leaf_def leaf_read_mapping tag1_def tag_path_eq by simp
  qed
  let ?pt = "leaf_write pt1 path1 (pn_index va 0) (Some (pa, fl))"
  have leaf: "pt_leaf ?pt w = map_turn w (va, pa, fl) (pt_leaf pt w)"
    using pt_leaf_write [OF va "2.prems"(2), of pt1 "Some (pa, fl)"] P by (auto simp: tag1_def map_turn_def)
  have "has_leaf_table ?pt path1" using P by (blast intro: leaf_write_has)
  then have IH: "pt_leaf (fst (map_pages_loop ?pt tag1 path1 (n + 1) rest)) w = fold (map_turn w) rest (pt_leaf ?pt w)
    \<and> snd (map_pages_loop ?pt tag1 path1 (n + 1) rest) = n + 1 + length rest"
    using "2.IH" [OF tag1_def s [symmetric] refl] "2.prems"(1,2) P by simp
  have "map_pages_loop pt tag path n ((va, pa, fl) # rest) = map_pages_loop ?pt tag1 path1 (n + 1) rest"
    using s by (simp add: Let_def tag1_def [symmetric])
  then show ?case using IH leaf by simp
qed simp

lemma map_pages_correct:
  assumes "\<forall>x \<in> set pages. fst x < VA_LIMIT" "w < VA_LIMIT"
  shows "pt_leaf (fst (map_pages_without_flush pt pages)) w = fold (map_turn w) pages (pt_leaf pt w)"
    and "snd (map_pages_without_flush pt pages) = length pages"
  using map_pages_loop_correct [OF assms, of usize_max "(0, 0)" pt 0] by (auto simp: map_pages_without_flush_def)

definition unmap_turn :: "VirtAddr \<Rightarrow> VirtAddr \<Rightarrow> leaf_entry option \<Rightarrow> leaf_entry option" where
  "unmap_turn w x old = (if x div PAGE_SIZE = w div PAGE_SIZE then None else old)"

lemma unmapping_path:
  "leaf_table_for_unmapping pt va =
     (if has_leaf_table pt (tag_path (va_tag va)) then Some (tag_path (va_tag va)) else None)"
  by (auto simp: leaf_table_for_unmapping_def has_leaf_table_def tag_path_eq split: option.splits)

lemma pt_leaf_no_table: "\<not> has_leaf_table pt (tag_path (va_tag va)) \<Longrightarrow> pt_leaf pt va = None"
  by (auto simp: pt_leaf_def leaf_read_def has_leaf_table_def tag_path_eq split: option.splits)

lemma pt_leaf_page:
  assumes "va < VA_LIMIT" "w < VA_LIMIT" "va div PAGE_SIZE = w div PAGE_SIZE"
  shows "pt_leaf pt va = pt_leaf pt w"
  using same_indices [OF assms(1,2)] assms(3) by (simp add: pt_leaf_def)

lemma unmap_pages_loop_correct:
  assumes "\<forall>x \<in> set pages. x < VA_LIMIT" "w < VA_LIMIT"
    "tag = usize_max \<or> path = (if has_leaf_table pt (tag_path tag) then Some (tag_path tag) else None)"
  shows "pt_leaf (fst (unmap_pages_loop pt tag path n pages)) w = fold (unmap_turn w) pages (pt_leaf pt w)"
  using assms
proof (induction pages arbitrary: pt tag path n)
  case (Cons va rest)
  define tag1 where "tag1 = va_tag va"
  define path1 where "path1 = (if tag1 \<noteq> tag then leaf_table_for_unmapping pt va else path)"
  have va: "va < VA_LIMIT" using Cons.prems(1) by simp
  have P: "path1 = (if has_leaf_table pt (tag_path tag1) then Some (tag_path tag1) else None)"
    using Cons.prems(3) tag_valid [OF va] by (auto simp: path1_def unmapping_path tag1_def)
  show ?case
  proof (cases "has_leaf_table pt (tag_path tag1) \<and> pt_leaf pt va \<noteq> None")
    case True
    let ?pt = "leaf_write pt (tag_path tag1) (pn_index va 0) None"
    have "leaf_read pt (tag_path tag1) (pn_index va 0) \<noteq> None" using True by (simp add: pt_leaf_def tag1_def tag_path_eq)
    then have "unmap_pages_loop pt tag path n (va # rest) = unmap_pages_loop ?pt tag1 path1 (n + 1) rest"
      using True P by (simp add: Let_def tag1_def [symmetric] path1_def [symmetric])
    moreover have "pt_leaf ?pt w = unmap_turn w va (pt_leaf pt w)"
      using pt_leaf_write [OF va Cons.prems(2), of pt None] True by (simp add: tag1_def unmap_turn_def)
    moreover have "has_leaf_table ?pt (tag_path tag1)" using True by (simp add: leaf_write_has)
    then have "path1 = (if has_leaf_table ?pt (tag_path tag1) then Some (tag_path tag1) else None)" using P True by simp
    ultimately show ?thesis using Cons.IH [of tag1 path1 ?pt "n + 1"] Cons.prems(1,2) by simp
  next
    case False
    have none: "pt_leaf pt va = None" using False pt_leaf_no_table [of pt va] unfolding tag1_def by blast
    then have "leaf_read pt (tag_path tag1) (pn_index va 0) = None" by (simp add: pt_leaf_def tag1_def tag_path_eq)
    then have "unmap_pages_loop pt tag path n (va # rest) = unmap_pages_loop pt tag1 path1 n rest"
      using P by (simp add: Let_def tag1_def [symmetric] path1_def [symmetric])
    moreover have "unmap_turn w va (pt_leaf pt w) = pt_leaf pt w"
      using none pt_leaf_page [OF va Cons.prems(2)] by (auto simp: unmap_turn_def)
    ultimately show ?thesis using Cons.IH [of tag1 path1 pt n] Cons.prems(1,2) P by simp
  qed
qed simp

lemma unmap_pages_correct:
  assumes "\<forall>x \<in> set pages. x < VA_LIMIT" "w < VA_LIMIT"
  shows "pt_leaf (fst (unmap_pages_without_flush pt pages)) w = fold (unmap_turn w) pages (pt_leaf pt w)"
  using unmap_pages_loop_correct [OF assms, of usize_max None pt 0] by (simp add: unmap_pages_without_flush_def)

lemma pt_map_page_leaf:
  assumes "va < VA_LIMIT" "w < VA_LIMIT"
  shows "pt_leaf (pt_map_page pt va pa fl) w = (if va div PAGE_SIZE = w div PAGE_SIZE then Some (pa, fl) else pt_leaf pt w)"
  using map_pages_correct(1) [of "[(va, pa, fl)]" w pt] assms by (simp add: pt_map_page_def map_turn_def)

lemma pt_unmap_page_leaf:
  assumes "va < VA_LIMIT" "w < VA_LIMIT"
  shows "pt_leaf (pt_unmap_page pt va) w = (if va div PAGE_SIZE = w div PAGE_SIZE then None else pt_leaf pt w)"
proof -
  have "pt_unmap_page pt va = leaf_write pt (tag_path (va_tag va)) (pn_index va 0) None"
    by (simp add: pt_unmap_page_def leaf_write_def tag_path_eq split: option.split)
  then show ?thesis
    using pt_leaf_write [OF assms, of pt None] pt_leaf_no_table [of pt va] pt_leaf_page [OF assms]
    by (cases "has_leaf_table pt (tag_path (va_tag va))")
      (auto simp: leaf_write_def has_leaf_table_def split: option.splits)
qed

section \<open>The interface of the memory sets\<close>

text \<open>What an address space relies on: after mapping or unmapping a page, the leaf of that page
  is the one given and every other page keeps its leaf.\<close>

locale leaf_map =
  fixes leaf :: "'t \<Rightarrow> VirtAddr \<Rightarrow> leaf_entry option"
    and map_one :: "'t \<Rightarrow> VirtAddr \<Rightarrow> usize \<Rightarrow> MappingFlags \<Rightarrow> 't"
    and unmap_one :: "'t \<Rightarrow> VirtAddr \<Rightarrow> 't"
  assumes leaf_map_one: "va < VA_LIMIT \<Longrightarrow> w < VA_LIMIT \<Longrightarrow>
      leaf (map_one t va pa fl) w = (if va div PAGE_SIZE = w div PAGE_SIZE then Some (pa, fl) else leaf t w)"
    and leaf_unmap_one: "va < VA_LIMIT \<Longrightarrow> w < VA_LIMIT \<Longrightarrow>
      leaf (unmap_one t va) w = (if va div PAGE_SIZE = w div PAGE_SIZE then None else leaf t w)"
begin

lemma unmap_each:
  assumes "w < VA_LIMIT"
  shows "\<forall>x \<in> set xs. x < VA_LIMIT \<Longrightarrow>
    leaf (fold (\<lambda>va t. unmap_one t va) xs t) w = (if \<exists>x \<in> set xs. x div PAGE_SIZE = w div PAGE_SIZE then None else leaf t w)"
  by (induction xs arbitrary: t) (auto simp: leaf_unmap_one assms)

lemma map_each:
  assumes "w < VA_LIMIT"
  shows "\<forall>x \<in> set xs. fst x < VA_LIMIT \<Longrightarrow>
    leaf (fold (\<lambda>(va, pa, fl) t. map_one t va pa fl) xs t) w = fold (map_turn w) xs (leaf t w)"
  by (induction xs arbitrary: t) (auto simp: leaf_map_one assms map_turn_def)

text \<open>Remapping a page is mapping it once.\<close>

lemma remap_one:
  assumes "va < VA_LIMIT" "w < VA_LIMIT"
  shows "leaf (map_one (unmap_one t va) va pa fl) w = leaf (map_one t va pa fl) w"
  using assms by (simp add: leaf_map_one leaf_unmap_one)

end

interpretation sv39: leaf_map pt_leaf pt_map_page pt_unmap_page
  by unfold_locales (simp_all add: pt_map_page_leaf pt_unmap_page_leaf)

text \<open>The batched forms, which keep the leaf table of the previous page instead of walking from
  the root, are the page-by-page forms: at every address they leave the same translation as mapping
  or unmapping the pages one after the other.\<close>

theorem page_batches_sequential:
  assumes "w < VA_LIMIT" "\<forall>x \<in> set pages. fst x < VA_LIMIT" "\<forall>x \<in> set gone. x < VA_LIMIT"
  shows "pt_translate (fst (map_pages_without_flush pt pages)) w
      = pt_translate (fold (\<lambda>(va, pa, fl) t. pt_map_page t va pa fl) pages pt) w
    \<and> snd (map_pages_without_flush pt pages) = length pages
    \<and> pt_translate (fst (unmap_pages_without_flush pt gone)) w
      = pt_translate (fold (\<lambda>va t. pt_unmap_page t va) gone pt) w"
proof -
  have u: "fold (unmap_turn w) xs l = (if \<exists>x \<in> set xs. x div PAGE_SIZE = w div PAGE_SIZE then None else l)" for xs l
    by (induction xs arbitrary: l) (auto simp: unmap_turn_def)
  show ?thesis
    using map_pages_correct [OF assms(2,1), of pt] sv39.map_each [OF assms(1,2), of pt]
      unmap_pages_correct [OF assms(3,1), of pt] sv39.unmap_each [OF assms(1,3), of pt]
    by (simp add: pt_translate_leaf u)
qed

theorem page_batches_sequential_witness:
  "pt_translate (fst (map_pages_without_flush pt_empty [(4096, 81920, MAP_R), (8192, 86016, MAP_W)])) 8200 = Some (86024, MAP_W)"
proof -
  have "pt_translate (pt_map_page (pt_map_page pt_empty 4096 81920 MAP_R) 8192 86016 MAP_W) 8200 = Some (86024, MAP_W)"
    unfolding pt_translate_leaf by (subst pt_map_page_leaf) (simp_all add: VA_LIMIT_def PAGE_SIZE_def)
  then show ?thesis
    using page_batches_sequential [of 8200 "[(4096, 81920, MAP_R), (8192, 86016, MAP_W)]" "[]" pt_empty]
    by (simp add: VA_LIMIT_def)
qed

end
