(* ===== verification/Memory_Set.thy ===== *)
theory Memory_Set
  imports Vma Page_Table Kmem
begin

unbundle bit_operations_syntax

text \<open>
  Address spaces: \<open>MemorySet\<close> of \<open>os/src/mm/memory_set.rs\<close> with its areas, its page table and the
  frames its resident pages own. This theory holds the operations that change the layout of an
  address space: mapping, unmapping, protecting, discarding and releasing ranges. Every operation
  returns the new state of physical memory; the outer \<^const>\<open>None\<close> of a result is a panic. The page
  table holds the leaves of user addresses; TLB shootdowns do not appear.
\<close>

record MemorySet =
  ms_pt :: page_table
  address_space_id :: usize
  ms_areas :: "MapArea list"

section \<open>Leaves of an area\<close>

definition has_leaf_permission :: "PTEFlags \<Rightarrow> bool" where
  "has_leaf_permission flags = flags_intersect flags (PTE_R OR PTE_W OR PTE_X)"

definition effective_mapping_flags :: "PTEFlags \<Rightarrow> MappingFlags" where
  "effective_mapping_flags flags =
     mapping_flags_from (if flags_contain flags PTE_COW then flags_remove flags PTE_W else flags)"

definition effective_mapping_flags_for_page :: "PTEFlags \<Rightarrow> ResidentPage \<Rightarrow> MappingFlags" where
  "effective_mapping_flags_for_page flags page =
     mapping_flags_from (if rp_state page = Cow then flags_remove flags PTE_W else flags)"

definition is_private_cow_candidate :: "MapArea \<Rightarrow> bool" where
  "is_private_cow_candidate area =
     ((case backing area of Anonymous \<Rightarrow> True | File _ _ shared \<Rightarrow> \<not> shared | _ \<Rightarrow> False)
      \<and> has_frames area \<and> flags_contain (area_flags area) PTE_W \<and> has_leaf_permission (area_flags area))"

definition is_readonly_share_candidate :: "MapArea \<Rightarrow> bool" where
  "is_readonly_share_candidate area =
     ((case backing area of Anonymous \<Rightarrow> True | File _ _ _ \<Rightarrow> True | _ \<Rightarrow> False)
      \<and> has_frames area \<and> \<not> flags_contain (area_flags area) PTE_W \<and> has_leaf_permission (area_flags area))"

definition is_shared_mapping :: "MapArea \<Rightarrow> bool" where
  "is_shared_mapping area =
     (case backing area of
        AnonymousShared \<Rightarrow> True | SharedMemory _ _ _ \<Rightarrow> True | File _ _ shared \<Rightarrow> shared | Anonymous \<Rightarrow> False)"

definition page_va :: "MapArea \<Rightarrow> usize \<Rightarrow> VirtAddr" where
  "page_va area idx = start_va area + idx * PAGE_SIZE"

definition page_leaves :: "MapArea \<Rightarrow> usize \<Rightarrow> usize \<Rightarrow> (VirtAddr \<times> usize \<times> MappingFlags) list" where
  "page_leaves area s e =
     map (\<lambda>(idx, page). (page_va area idx, rp_frame page * PAGE_SIZE, effective_mapping_flags_for_page (area_flags area) page))
       (rs_iter_range (resident area) s e)"

definition map_area_pages :: "page_table \<Rightarrow> MapArea \<Rightarrow> page_table" where
  "map_area_pages pt area =
     (if \<not> has_leaf_permission (area_flags area) then pt
      else fst (map_pages_without_flush pt (page_leaves area 0 (page_count area))))"

definition map_area_page :: "page_table \<Rightarrow> MapArea \<Rightarrow> usize \<Rightarrow> page_table" where
  "map_area_page pt area vpn =
     (case rs_lookup (resident area) vpn of
        None \<Rightarrow> pt
      | Some page \<Rightarrow>
          if \<not> has_leaf_permission (area_flags area) then pt
          else pt_map_page pt (page_va area vpn) (rp_frame page * PAGE_SIZE)
                 (effective_mapping_flags_for_page (area_flags area) page))"

definition map_area_page_window :: "page_table \<Rightarrow> MapArea \<Rightarrow> usize \<Rightarrow> usize \<Rightarrow> page_table" where
  "map_area_page_window pt area start_idx pages =
     (if \<not> has_leaf_permission (area_flags area) then pt
      else (let end_idx = min (saturating_add start_idx pages) (page_count area)
            in fst (map_pages_without_flush pt (page_leaves area start_idx end_idx))))"

definition unmap_area_pages_without_shootdown :: "page_table \<Rightarrow> MapArea \<Rightarrow> PTEFlags \<Rightarrow> page_table" where
  "unmap_area_pages_without_shootdown pt area flags =
     (if \<not> has_leaf_permission flags \<or> \<not> has_frames area then pt
      else fold (\<lambda>(idx, _) pt. pt_unmap_page pt (page_va area idx)) (rs_iter_range (resident area) 0 (page_count area)) pt)"

definition unmap_area_resident_range_without_flush :: "page_table \<Rightarrow> MapArea \<Rightarrow> usize \<Rightarrow> usize \<Rightarrow> page_table \<times> nat" where
  "unmap_area_resident_range_without_flush pt area start_idx end_idx =
     (if \<not> has_leaf_permission (area_flags area) \<or> start_idx \<ge> end_idx then (pt, 0)
      else unmap_pages_without_flush pt (map (\<lambda>(idx, _). page_va area idx) (rs_iter_range (resident area) start_idx end_idx)))"

definition unmap_area_pages :: "page_table \<Rightarrow> MapArea \<Rightarrow> PTEFlags \<Rightarrow> page_table" where
  "unmap_area_pages pt area flags = unmap_area_pages_without_shootdown pt area flags"

definition remap_area_pages :: "page_table \<Rightarrow> MapArea \<Rightarrow> PTEFlags \<Rightarrow> page_table" where
  "remap_area_pages pt area old_flags = map_area_pages (unmap_area_pages pt area old_flags) area"

text \<open>The trackers a resident set owns, dropped with it.\<close>

definition drop_resident :: "ResidentSet \<Rightarrow> kmem \<Rightarrow> kmem option" where
  "drop_resident rs km = km_drop_all (map rp_frame (rs_iter rs)) km"

section \<open>Creating and inserting\<close>

definition new_bare :: "usize \<Rightarrow> MemorySet" where
  "new_bare asid = \<lparr>ms_pt = pt_empty, address_space_id = asid, ms_areas = []\<rparr>"

text \<open>The loop of \<open>insert_framed_area_with_backing\<close>; on failure the pages mapped so far are
  unmapped and the area is dropped with its frames.\<close>

fun framed_loop ::
  "kmem \<Rightarrow> page_table \<Rightarrow> MapArea \<Rightarrow> PTEFlags \<Rightarrow> usize \<Rightarrow> usize list \<Rightarrow>
     (kmem \<times> page_table \<times> (SysErrNo + MapArea)) option" where
  "framed_loop km pt area permission start_vpn [] = Some (km, pt, Inr area)"
| "framed_loop km pt area permission start_vpn (vpn # rest) =
     (case km_alloc km of
        None \<Rightarrow> None
      | Some (km1, None) \<Rightarrow>
          map_option (\<lambda>km2. (km2, fold (\<lambda>v pt. pt_unmap_page pt (v * PAGE_SIZE)) [start_vpn..<vpn] pt, Inl ENOMEM))
            (drop_resident (resident area) km1)
      | Some (km1, Some frame) \<Rightarrow>
          (let pt1 = (if has_leaf_permission permission
                      then pt_map_page pt (vpn * PAGE_SIZE) (frame * PAGE_SIZE) (effective_mapping_flags permission)
                      else pt)
           in case append_resident area frame of
                None \<Rightarrow> None
              | Some (Inl f) \<Rightarrow>
                  (case km_drop km1 f of
                     None \<Rightarrow> None
                   | Some km2 \<Rightarrow> map_option (\<lambda>km3. (km3, pt1, Inl EFAULT)) (drop_resident (resident area) km2))
              | Some (Inr area1) \<Rightarrow> framed_loop km1 pt1 area1 permission start_vpn rest))"

definition insert_framed_area_with_backing ::
  "kmem \<Rightarrow> MemorySet \<Rightarrow> VirtAddr \<Rightarrow> VirtAddr \<Rightarrow> PTEFlags \<Rightarrow> MapAreaBacking \<Rightarrow>
     (kmem \<times> MemorySet \<times> (SysErrNo + unit)) option" where
  "insert_framed_area_with_backing km ms s e permission bk =
     (let start = align_down s
      in case align_up e of
           None \<Rightarrow> Some (km, ms, Inl EINVAL)
         | Some fin \<Rightarrow>
             if start \<ge> fin then Some (km, ms, Inl EINVAL)
             else
               (let area = with_backing start fin permission bk
                in if \<not> has_leaf_permission permission
                   then map_option (\<lambda>as. (km, ms\<lparr>ms_areas := as\<rparr>, Inr ())) (coalesce_areas (ms_areas ms @ [area]))
                   else
                     (case framed_loop km (ms_pt ms) area permission (start div PAGE_SIZE) [start div PAGE_SIZE..<fin div PAGE_SIZE] of
                        None \<Rightarrow> None
                      | Some (km1, pt1, Inl err) \<Rightarrow> Some (km1, ms\<lparr>ms_pt := pt1\<rparr>, Inl err)
                      | Some (km1, pt1, Inr area1) \<Rightarrow>
                          (let area2 = (if is_shared_mapping area1 then set_all_resident_state area1 Shared else area1)
                           in map_option (\<lambda>as. (km1, ms\<lparr>ms_pt := pt1, ms_areas := as\<rparr>, Inr ()))
                                (coalesce_areas (ms_areas ms @ [area2]))))))"

definition insert_framed_area where
  "insert_framed_area km ms s e permission = insert_framed_area_with_backing km ms s e permission Anonymous"

definition insert_lazy_area_with_backing ::
  "MemorySet \<Rightarrow> VirtAddr \<Rightarrow> VirtAddr \<Rightarrow> PTEFlags \<Rightarrow> MapAreaBacking \<Rightarrow> (MemorySet \<times> (SysErrNo + unit)) option" where
  "insert_lazy_area_with_backing ms s e permission bk =
     (let start = align_down s
      in case align_up e of
           None \<Rightarrow> Some (ms, Inl EINVAL)
         | Some fin \<Rightarrow>
             if start \<ge> fin then Some (ms, Inl EINVAL)
             else map_option (\<lambda>as. (ms\<lparr>ms_areas := as\<rparr>, Inr ()))
                    (coalesce_areas (ms_areas ms @ [with_backing start fin permission bk])))"

text \<open>\<open>frames.to_vec()\<close> clones every tracker; the set replaced in the fresh area is empty.\<close>

definition insert_shared_framed_area ::
  "kmem \<Rightarrow> MemorySet \<Rightarrow> VirtAddr \<Rightarrow> VirtAddr \<Rightarrow> PTEFlags \<Rightarrow> MapAreaBacking \<Rightarrow> FrameTracker list \<Rightarrow>
     (kmem \<times> MemorySet \<times> (SysErrNo + unit)) option" where
  "insert_shared_framed_area km ms s e permission bk frames =
     (let start = align_down s
      in case align_up e of
           None \<Rightarrow> Some (km, ms, Inl EINVAL)
         | Some fin \<Rightarrow>
             if start \<ge> fin \<or> length frames \<noteq> (fin - start) div PAGE_SIZE then Some (km, ms, Inl EINVAL)
             else if range_overlaps (ms_areas ms) start fin then Some (km, ms, Inl ENOMEM)
             else
               (case km_clone_all frames km of
                  None \<Rightarrow> None
                | Some km1 \<Rightarrow>
                    (case replace_resident (with_backing start fin permission bk) frames of
                       None \<Rightarrow> None
                     | Some (area, _) \<Rightarrow>
                         (let pt1 = (if has_leaf_permission permission
                                     then fold (\<lambda>(idx, page) pt. pt_map_page pt (start + idx * PAGE_SIZE) (rp_frame page * PAGE_SIZE)
                                            (effective_mapping_flags permission)) (rs_iter_range (resident area) 0 (page_count area)) (ms_pt ms)
                                     else ms_pt ms)
                          in map_option (\<lambda>as. (km1, ms\<lparr>ms_pt := pt1, ms_areas := as\<rparr>, Inr ()))
                               (coalesce_areas (ms_areas ms @ [area]))))))"

section \<open>Queries\<close>

definition ms_translate :: "MemorySet \<Rightarrow> VirtAddr \<Rightarrow> usize option" where
  "ms_translate ms vaddr = map_option fst (pt_translate (ms_pt ms) vaddr)"

definition is_mapped :: "MemorySet \<Rightarrow> VirtAddr \<Rightarrow> bool" where
  "is_mapped ms vaddr \<longleftrightarrow> ms_translate ms vaddr \<noteq> None"

definition is_shared_mapping_at :: "MemorySet \<Rightarrow> usize \<Rightarrow> bool" where
  "is_shared_mapping_at ms addr =
     (case area_index_containing (ms_areas ms) addr of
        None \<Rightarrow> False
      | Some index \<Rightarrow> is_shared_mapping (ms_areas ms ! index))"

section \<open>Removing\<close>

definition bad_range :: "usize \<Rightarrow> usize \<Rightarrow> bool" where
  "bad_range start fin \<longleftrightarrow> start \<ge> fin \<or> start mod PAGE_SIZE \<noteq> 0 \<or> fin mod PAGE_SIZE \<noteq> 0"

text \<open>The page-table batch runs before the frames are dropped.\<close>

fun discard_loop ::
  "page_table \<Rightarrow> usize \<Rightarrow> usize \<Rightarrow> MapArea list \<Rightarrow> (page_table \<times> MapArea list \<times> ResidentSet list \<times> nat) option" where
  "discard_loop pt start fin [] = Some (pt, [], [], 0)"
| "discard_loop pt start fin (area # rest) =
     (if \<not> area_overlaps area start fin \<or> backing area \<noteq> Anonymous
      then map_option (\<lambda>(pt', as, rets, n). (pt', area # as, rets, n)) (discard_loop pt start fin rest)
      else
        (let overlap_start = max start (start_va area);
             overlap_end = min fin (end_va area);
             start_idx = (overlap_start - start_va area) div PAGE_SIZE;
             end_idx = (overlap_end - start_va area) div PAGE_SIZE;
             (pt1, revoked) = unmap_area_resident_range_without_flush pt area start_idx end_idx
         in case extract_resident_range area start_idx end_idx of
              None \<Rightarrow> None
            | Some (area1, owner) \<Rightarrow>
                map_option (\<lambda>(pt', as, rets, n).
                    (pt', area1 # as, (if \<not> rs_is_empty owner then owner # rets else rets), saturating_add (rs_len owner) n))
                  (discard_loop pt1 start fin rest)))"

fun drop_residents :: "ResidentSet list \<Rightarrow> kmem \<Rightarrow> kmem option" where
  "drop_residents [] km = Some km"
| "drop_residents (r # rs) km = (case drop_resident r km of None \<Rightarrow> None | Some km1 \<Rightarrow> drop_residents rs km1)"

definition discard_anonymous_range ::
  "kmem \<Rightarrow> MemorySet \<Rightarrow> usize \<Rightarrow> usize \<Rightarrow> (kmem \<times> MemorySet \<times> (SysErrNo + usize)) option" where
  "discard_anonymous_range km ms start fin =
     (if bad_range start fin then Some (km, ms, Inl EINVAL)
      else if \<not> range_covered (ms_areas ms) start fin then Some (km, ms, Inl ENOMEM)
      else
        (case discard_loop (ms_pt ms) start fin (ms_areas ms) of
           None \<Rightarrow> None
         | Some (pt, as, retired, discarded) \<Rightarrow>
             map_option (\<lambda>km1. (km1, ms\<lparr>ms_pt := pt, ms_areas := as\<rparr>, Inr discarded)) (drop_residents retired km)))"

fun unmap_loop ::
  "kmem \<Rightarrow> page_table \<Rightarrow> usize \<Rightarrow> usize \<Rightarrow> MapArea list \<Rightarrow> (kmem \<times> page_table \<times> MapArea list) option" where
  "unmap_loop km pt start fin [] = Some (km, pt, [])"
| "unmap_loop km pt start fin (area # rest) =
     (if area_overlaps area start fin
      then (case drop_resident (resident area) km of
              None \<Rightarrow> None
            | Some km1 \<Rightarrow> unmap_loop km1 (unmap_area_pages pt area (area_flags area)) start fin rest)
      else map_option (\<lambda>(km', pt', kept). (km', pt', area # kept)) (unmap_loop km pt start fin rest))"

definition unmap_range :: "kmem \<Rightarrow> MemorySet \<Rightarrow> usize \<Rightarrow> usize \<Rightarrow> (kmem \<times> MemorySet \<times> (SysErrNo + unit)) option" where
  "unmap_range km ms start fin =
     (if bad_range start fin then Some (km, ms, Inl EINVAL)
      else
        (case split_area_at (ms_areas ms) start of
           None \<Rightarrow> None
         | Some as1 \<Rightarrow>
             (case split_area_at as1 fin of
                None \<Rightarrow> None
              | Some as2 \<Rightarrow>
                  (case unmap_loop km (ms_pt ms) start fin as2 of
                     None \<Rightarrow> None
                   | Some (km1, pt1, kept) \<Rightarrow>
                       map_option (\<lambda>as. (km1, ms\<lparr>ms_pt := pt1, ms_areas := as\<rparr>, Inr ())) (coalesce_areas kept)))))"

definition unmap_area :: "kmem \<Rightarrow> MemorySet \<Rightarrow> VirtAddr \<Rightarrow> (kmem \<times> MemorySet) option" where
  "unmap_area km ms s =
     (case find (\<lambda>a. start_va a = s) (ms_areas ms) of
        None \<Rightarrow> Some (km, ms)
      | Some area \<Rightarrow> map_option (\<lambda>(km', ms', _). (km', ms')) (unmap_range km ms s (end_va area)))"

fun release_loop :: "page_table \<Rightarrow> MapArea list \<Rightarrow> page_table" where
  "release_loop pt [] = pt"
| "release_loop pt (area # rest) = release_loop (unmap_area_pages pt area (area_flags area)) rest"

definition release_user_areas :: "kmem \<Rightarrow> MemorySet \<Rightarrow> (kmem \<times> MemorySet) option" where
  "release_user_areas km ms =
     map_option (\<lambda>km1. (km1, ms\<lparr>ms_pt := release_loop (ms_pt ms) (ms_areas ms), ms_areas := []\<rparr>))
       (drop_residents (map resident (ms_areas ms)) km)"

section \<open>Protecting\<close>

fun already_protected :: "PTEFlags \<Rightarrow> usize \<Rightarrow> MapArea list \<Rightarrow> bool" where
  "already_protected flags fin [] = True"
| "already_protected flags fin (area # rest) =
     (if start_va area < fin
      then (if flags_remove (area_flags area) PTE_COW \<noteq> flags then False else already_protected flags fin rest)
      else True)"

definition protect_flags :: "kmem \<Rightarrow> PTEFlags \<Rightarrow> MapArea \<Rightarrow> PTEFlags" where
  "protect_flags km flags area =
     (let private_file_backed = (case backing area of File _ _ shared \<Rightarrow> \<not> shared | _ \<Rightarrow> False);
          anonymous = (backing area = Anonymous)
      in if (anonymous \<or> private_file_backed) \<and> flags_contain flags PTE_W \<and> has_frames area
            \<and> (flags_contain (area_flags area) PTE_COW \<or> (\<exists>page \<in> set (rs_iter (resident area)). km_ref_count km (rp_frame page) > 1))
         then flags OR PTE_COW else flags)"

definition protect_area :: "kmem \<Rightarrow> page_table \<Rightarrow> PTEFlags \<Rightarrow> MapArea \<Rightarrow> page_table \<times> MapArea" where
  "protect_area km pt flags area =
     (let old_flags = area_flags area
      in if flags_remove old_flags PTE_COW = flags then (pt, area)
         else
           (let new_flags = protect_flags km flags area;
                area1 = area\<lparr>area_flags := new_flags\<rparr>
            in if has_frames area1 \<and> (has_leaf_permission old_flags \<or> has_leaf_permission new_flags)
               then (if has_leaf_permission new_flags then (map_area_pages pt area1, area1)
                     else (unmap_area_pages_without_shootdown pt area1 old_flags, area1))
               else (pt, area1)))"

fun protect_loop :: "kmem \<Rightarrow> page_table \<Rightarrow> PTEFlags \<Rightarrow> usize \<Rightarrow> MapArea list \<Rightarrow> page_table \<times> MapArea list" where
  "protect_loop km pt flags fin [] = (pt, [])"
| "protect_loop km pt flags fin (area # rest) =
     (if start_va area < fin
      then (case protect_area km pt flags area of (pt1, area1) \<Rightarrow>
              case protect_loop km pt1 flags fin rest of (pt2, rest1) \<Rightarrow> (pt2, area1 # rest1))
      else (pt, area # rest))"

definition protect_range ::
  "kmem \<Rightarrow> MemorySet \<Rightarrow> usize \<Rightarrow> usize \<Rightarrow> PTEFlags \<Rightarrow> (MemorySet \<times> (SysErrNo + unit)) option" where
  "protect_range km ms start fin flags =
     (if bad_range start fin then Some (ms, Inl EINVAL)
      else if \<not> range_covered (ms_areas ms) start fin then Some (ms, Inl ENOMEM)
      else if already_protected flags fin (drop (first_area_ending_after (ms_areas ms) start) (ms_areas ms))
      then Some (ms, Inr ())
      else
        (case split_area_at (ms_areas ms) start of
           None \<Rightarrow> None
         | Some as1 \<Rightarrow>
             (case split_area_at as1 fin of
                None \<Rightarrow> None
              | Some as2 \<Rightarrow>
                  (let index = first_area_ending_after as2 start
                   in case protect_loop km (ms_pt ms) flags fin (drop index as2) of
                        (pt1, changed) \<Rightarrow>
                          map_option (\<lambda>as. (ms\<lparr>ms_pt := pt1, ms_areas := as\<rparr>, Inr ()))
                            (coalesce_changed_range (take index as2 @ changed) start fin)))))"

section \<open>Pages of an area\<close>

lemma set_take_drop_zip:
  "set (take a (drop b (zip [k..<k + length run] run))) = {(k + i, run ! i) | i. b \<le> i \<and> i < b + a \<and> i < length run}"
    (is "?l = ?r")
proof (rule set_eqI)
  fix x
  show "x \<in> ?l \<longleftrightarrow> x \<in> ?r"
  proof
    assume "x \<in> ?l"
    then obtain j where "j < length (take a (drop b (zip [k..<k + length run] run)))"
      "x = take a (drop b (zip [k..<k + length run] run)) ! j" by (metis in_set_conv_nth)
    then show "x \<in> ?r" by (auto intro!: exI [of _ "b + j"])
  next
    assume "x \<in> ?r"
    then obtain i where i: "x = (k + i, run ! i)" "b \<le> i" "i < b + a" "i < length run" by blast
    then have "take a (drop b (zip [k..<k + length run] run)) ! (i - b) = x"
      "i - b < length (take a (drop b (zip [k..<k + length run] run)))" by auto
    then show "x \<in> ?l" by (metis nth_mem)
  qed
qed

lemma rs_iter_range_set:
  assumes "rs_ok rs"
  shows "(idx, page) \<in> set (rs_iter_range rs s e) \<longleftrightarrow> rs_map rs idx = Some page \<and> s \<le> idx \<and> idx < e"
proof -
  have ok: "runs_ok (rs_runs rs)" using assms by (simp add: rs_ok_def)
  have one: "(idx, page) \<in> set (take (min (e - k) (length run) - min (s - k) (length run))
        (drop (min (s - k) (length run)) (zip [k..<k + length run] run)))
      \<longleftrightarrow> run_at k run idx = Some page \<and> s \<le> idx \<and> idx < e" for k run
    unfolding set_take_drop_zip run_at_Some
    by (auto intro!: exI [of _ "idx - k"] simp: min_def split: if_splits)
  have before: "k < e" if "run_at k run idx = Some page" "idx < e" for k run using that by (auto simp: run_at_Some)
  have "(idx, page) \<in> set (rs_iter_range rs s e) \<longleftrightarrow>
      (\<exists>k run. (k, run) \<in> set (rs_runs rs) \<and> k < e \<and> run_at k run idx = Some page \<and> s \<le> idx \<and> idx < e)"
    unfolding rs_iter_range_def using one by (auto simp: Let_def split: prod.splits)
  also have "\<dots> \<longleftrightarrow> rs_map rs idx = Some page \<and> s \<le> idx \<and> idx < e"
    unfolding rs_map_def runs_map_Some [OF ok] using before by blast
  finally show ?thesis .
qed

lemma rs_iter_pages: "mset (rs_iter rs) = rs_pages rs"
  by (simp add: rs_iter_def rs_pages_def runs_pages_def)

lemma page_va_page:
  assumes "area_ok a" "idx < page_count a"
  shows "page_va a idx div PAGE_SIZE = w div PAGE_SIZE \<longleftrightarrow> area_contains a w \<and> (w - start_va a) div PAGE_SIZE = idx"
    and "page_va a idx < end_va a"
proof -
  obtain i where i: "start_va a = i * PAGE_SIZE" using assms(1) by (metis area_ok_def page_div_mult)
  obtain j where j: "end_va a = j * PAGE_SIZE" using assms(1) by (metis area_ok_def page_div_mult)
  have lt: "start_va a < end_va a" using assms(1) by (simp add: area_ok_def)
  have "end_va a - start_va a = (j - i) * PAGE_SIZE" by (simp add: i j diff_mult_distrib)
  then have pc: "page_count a = j - i" by (simp add: page_count_def area_size_def)
  have ij: "i + idx < j" using assms(2) pc lt by simp
  have va: "page_va a idx = (i + idx) * PAGE_SIZE" by (simp add: page_va_def i add_mult_distrib)
  show "page_va a idx < end_va a" unfolding va j using ij by simp
  have d: "page_va a idx div PAGE_SIZE = i + idx" by (simp add: va)
  have shift: "w div PAGE_SIZE = i + (w - i * PAGE_SIZE) div PAGE_SIZE" if "i * PAGE_SIZE \<le> w"
  proof -
    have "w = (w - i * PAGE_SIZE) + i * PAGE_SIZE" using that by simp
    then have "w div PAGE_SIZE = ((w - i * PAGE_SIZE) + i * PAGE_SIZE) div PAGE_SIZE" by simp
    then show ?thesis by simp
  qed
  show "page_va a idx div PAGE_SIZE = w div PAGE_SIZE \<longleftrightarrow> area_contains a w \<and> (w - start_va a) div PAGE_SIZE = idx"
  proof
    assume "page_va a idx div PAGE_SIZE = w div PAGE_SIZE"
    then have w: "w div PAGE_SIZE = i + idx" by (simp add: d)
    have "(i + idx) * PAGE_SIZE \<le> w" using w div_times_less_eq_dividend [of w PAGE_SIZE] by simp
    moreover have "w < (i + idx + 1) * PAGE_SIZE" using w dividend_less_div_times [of PAGE_SIZE w] by simp
    moreover have "(i + idx + 1) * PAGE_SIZE \<le> j * PAGE_SIZE" using ij by (intro mult_le_mono1) simp
    ultimately have c: "start_va a \<le> w" "w < end_va a" by (auto simp: i j add_mult_distrib)
    have "(w - start_va a) div PAGE_SIZE = idx" using w shift c(1) unfolding i by simp
    then show "area_contains a w \<and> (w - start_va a) div PAGE_SIZE = idx" using c by (simp add: area_contains_def)
  next
    assume "area_contains a w \<and> (w - start_va a) div PAGE_SIZE = idx"
    then have "i * PAGE_SIZE \<le> w" "(w - i * PAGE_SIZE) div PAGE_SIZE = idx" by (auto simp: area_contains_def i)
    then show "page_va a idx div PAGE_SIZE = w div PAGE_SIZE" using shift by (simp add: d)
  qed
qed

lemma area_page_map:
  assumes "area_ok a"
  shows "rs_map (resident a) idx = Some page \<longleftrightarrow> idx < page_count a \<and> area_page a (page_va a idx) = Some page"
proof (cases "idx < page_count a")
  case True
  have "area_contains a (page_va a idx) \<and> (page_va a idx - start_va a) div PAGE_SIZE = idx"
    using page_va_page(1) [OF assms True, of "page_va a idx"] by simp
  then show ?thesis using True by (simp add: area_page_def)
qed (use assms in \<open>auto simp: area_ok_def\<close>)

text \<open>The leaves an area publishes, and those it revokes.\<close>

lemma leaves_turn:
  assumes ok: "area_ok a" and e: "e \<le> page_count a"
  shows "fold (map_turn w) (page_leaves a s e) old =
    (if area_contains a w \<and> s \<le> (w - start_va a) div PAGE_SIZE \<and> (w - start_va a) div PAGE_SIZE < e
     then (case area_page a w of
             None \<Rightarrow> old
           | Some p \<Rightarrow> Some (rp_frame p * PAGE_SIZE, effective_mapping_flags_for_page (area_flags a) p))
     else old)"
proof -
  let ?i = "(w - start_va a) div PAGE_SIZE"
  let ?hit = "\<lambda>l. if area_contains a w \<and> (\<exists>p. (?i, p) \<in> set l) then
      (case area_page a w of None \<Rightarrow> old
       | Some p \<Rightarrow> Some (rp_frame p * PAGE_SIZE, effective_mapping_flags_for_page (area_flags a) p)) else old"
  let ?f = "\<lambda>(idx, page). (page_va a idx, rp_frame page * PAGE_SIZE, effective_mapping_flags_for_page (area_flags a) page)"
  have rok: "rs_ok (resident a)" using ok by (simp add: area_ok_def)
  have "\<forall>(idx, page) \<in> set l. rs_map (resident a) idx = Some page \<Longrightarrow> fold (map_turn w) (map ?f l) old = ?hit l" for l
  proof (induction l rule: rev_induct)
    case (snoc x l)
    obtain idx page where x: "x = (idx, page)" by fastforce
    have m: "rs_map (resident a) idx = Some page" using snoc.prems by (simp add: x)
    then have lt: "idx < page_count a" using ok by (simp add: area_ok_def)
    have hit: "page_va a idx div PAGE_SIZE = w div PAGE_SIZE \<longleftrightarrow> area_contains a w \<and> ?i = idx"
      by (rule page_va_page(1) [OF ok lt])
    have "area_page a w = Some page" if "area_contains a w" "?i = idx" using that m by (simp add: area_page_def)
    then show ?case using snoc hit by (auto simp: x map_turn_def)
  qed simp
  moreover have "\<forall>(idx, page) \<in> set (rs_iter_range (resident a) s e). rs_map (resident a) idx = Some page"
    by (auto simp: rs_iter_range_set [OF rok])
  ultimately have "fold (map_turn w) (page_leaves a s e) old = ?hit (rs_iter_range (resident a) s e)"
    unfolding page_leaves_def by blast
  moreover have "(\<exists>p. (?i, p) \<in> set (rs_iter_range (resident a) s e)) \<longleftrightarrow> rs_map (resident a) ?i \<noteq> None \<and> s \<le> ?i \<and> ?i < e"
    by (auto simp: rs_iter_range_set [OF rok])
  ultimately show ?thesis by (auto simp: area_page_def split: option.split)
qed

lemma page_leaves_limit:
  assumes "area_ok a" "end_va a \<le> VA_LIMIT" "x \<in> set (page_leaves a s e)"
  shows "fst x < VA_LIMIT"
proof -
  have rok: "rs_ok (resident a)" using assms(1) by (simp add: area_ok_def)
  obtain idx page where x: "fst x = page_va a idx" "rs_map (resident a) idx = Some page"
    using assms(3) by (auto simp: page_leaves_def rs_iter_range_set [OF rok])
  then have "idx < page_count a" using assms(1) by (simp add: area_ok_def)
  then show ?thesis using page_va_page(2) [OF assms(1), of idx] assms(2) x(1) by simp
qed

lemma page_index_lt: "area_ok a \<Longrightarrow> area_contains a w \<Longrightarrow> (w - start_va a) div PAGE_SIZE < page_count a"
  using page_index_below [of "start_va a" "end_va a" w]
  by (simp add: area_ok_def area_contains_def page_count_def area_size_def)

lemma map_area_pages_leaf:
  assumes ok: "area_ok a" "end_va a \<le> VA_LIMIT" and w: "w < VA_LIMIT"
  shows "pt_leaf (map_area_pages pt a) w =
    (if has_leaf_permission (area_flags a) \<and> area_contains a w
     then (case area_page a w of
             None \<Rightarrow> pt_leaf pt w
           | Some p \<Rightarrow> Some (rp_frame p * PAGE_SIZE, effective_mapping_flags_for_page (area_flags a) p))
     else pt_leaf pt w)"
proof -
  have "\<forall>x \<in> set (page_leaves a 0 (page_count a)). fst x < VA_LIMIT" using page_leaves_limit [OF ok] by blast
  from map_pages_correct(1) [OF this w, of pt] show ?thesis
    using leaves_turn [OF ok(1) order_refl, of w 0 "pt_leaf pt w"] page_index_lt [OF ok(1), of w]
    by (auto simp: map_area_pages_def)
qed

lemma map_area_page_leaf:
  assumes ok: "area_ok a" "end_va a \<le> VA_LIMIT" and w: "w < VA_LIMIT"
  shows "pt_leaf (map_area_page pt a idx) w =
    (if has_leaf_permission (area_flags a) \<and> area_contains a w \<and> (w - start_va a) div PAGE_SIZE = idx
     then (case area_page a w of
             None \<Rightarrow> pt_leaf pt w
           | Some p \<Rightarrow> Some (rp_frame p * PAGE_SIZE, effective_mapping_flags_for_page (area_flags a) p))
     else pt_leaf pt w)"
proof (cases "rs_map (resident a) idx")
  case None
  then show ?thesis using ok(1) by (auto simp: map_area_page_def area_ok_def rs_lookup_map area_page_def)
next
  case (Some p)
  have lt: "idx < page_count a" using ok(1) Some by (simp add: area_ok_def)
  have va: "page_va a idx < VA_LIMIT" using page_va_page(2) [OF ok(1) lt] ok(2) by simp
  have "rs_lookup (resident a) idx = Some p" using ok(1) Some by (simp add: area_ok_def rs_lookup_map)
  then show ?thesis
    using pt_map_page_leaf [OF va w] page_va_page(1) [OF ok(1) lt, of w] Some
    by (auto simp: map_area_page_def area_page_def)
qed

lemma has_frames_page: "area_ok a \<Longrightarrow> area_page a w \<noteq> None \<Longrightarrow> has_frames a"
  by (auto simp: has_frames_def area_page_def area_ok_def rs_empty_map rs_map_empty split: if_splits)

lemma unmap_area_pages_leaf:
  assumes ok: "area_ok a" "end_va a \<le> VA_LIMIT" and w: "w < VA_LIMIT"
  shows "pt_leaf (unmap_area_pages pt a fl) w =
    (if has_leaf_permission fl \<and> area_page a w \<noteq> None then None else pt_leaf pt w)"
proof -
  let ?l = "rs_iter_range (resident a) 0 (page_count a)"
  have rok: "rs_ok (resident a)" using ok(1) by (simp add: area_ok_def)
  have lt: "idx < page_count a" if "(idx, p) \<in> set ?l" for idx p using that by (simp add: rs_iter_range_set [OF rok])
  have lim: "\<forall>x \<in> set (map (\<lambda>(i, _). page_va a i) ?l). x < VA_LIMIT"
    using lt page_va_page(2) [OF ok(1)] ok(2) by (fastforce intro: less_le_trans)
  have fold_eq: "fold (\<lambda>(idx, _) pt. pt_unmap_page pt (page_va a idx)) l pt
      = fold (\<lambda>va pt. pt_unmap_page pt va) (map (\<lambda>(i, _). page_va a i) l) pt" for l pt
    by (induction l arbitrary: pt) auto
  have "(\<exists>x \<in> set (map (\<lambda>(i, _). page_va a i) ?l). x div PAGE_SIZE = w div PAGE_SIZE) \<longleftrightarrow> area_page a w \<noteq> None"
  proof
    assume "\<exists>x \<in> set (map (\<lambda>(i, _). page_va a i) ?l). x div PAGE_SIZE = w div PAGE_SIZE"
    then obtain idx p where i: "(idx, p) \<in> set ?l" "page_va a idx div PAGE_SIZE = w div PAGE_SIZE" by auto
    then show "area_page a w \<noteq> None"
      using page_va_page(1) [OF ok(1) lt [OF i(1)], of w] by (auto simp: area_page_def rs_iter_range_set [OF rok])
  next
    assume "area_page a w \<noteq> None"
    then obtain p where p: "area_contains a w" "rs_map (resident a) ((w - start_va a) div PAGE_SIZE) = Some p"
      by (auto simp: area_page_def split: if_splits)
    note i = page_index_lt [OF ok(1) p(1)]
    have "((w - start_va a) div PAGE_SIZE, p) \<in> set ?l" using p(2) i by (simp add: rs_iter_range_set [OF rok])
    then show "\<exists>x \<in> set (map (\<lambda>(i, _). page_va a i) ?l). x div PAGE_SIZE = w div PAGE_SIZE"
      using page_va_page(1) [OF ok(1) i, of w] p(1) by (force intro!: bexI)
  qed
  then have "pt_leaf (fold (\<lambda>(idx, _) pt. pt_unmap_page pt (page_va a idx)) ?l pt) w
      = (if area_page a w \<noteq> None then None else pt_leaf pt w)"
    using sv39.unmap_each [OF w lim, of pt] unfolding fold_eq by presburger
  then show ?thesis using has_frames_page [OF ok(1), of w]
    by (auto simp: unmap_area_pages_def unmap_area_pages_without_shootdown_def)
qed

section \<open>The invariant of an address space\<close>

text \<open>A leaf never grants more than the area and the page allow: it points at the resident page
  of its address, the area has leaf permission, and the flags are within those the page may be
  mapped with, so a page in state \<open>Cow\<close> is never writable.\<close>

definition leaf_ok :: "area_view option \<Rightarrow> leaf_entry \<Rightarrow> bool" where
  "leaf_ok v l \<longleftrightarrow> (\<exists>f b p. v = Some (f, b, Some p) \<and> has_leaf_permission f \<and> fst l = rp_frame p * PAGE_SIZE
     \<and> flags_contain (effective_mapping_flags_for_page f p) (snd l))"

definition pt_sound :: "page_table \<Rightarrow> MapArea list \<Rightarrow> bool" where
  "pt_sound pt as \<longleftrightarrow> (\<forall>va l. va < VA_LIMIT \<and> pt_leaf pt va = Some l \<longrightarrow> leaf_ok (view as va) l)"

definition areas_limit :: "MapArea list \<Rightarrow> bool" where
  "areas_limit as \<longleftrightarrow> (\<forall>a \<in> set as. end_va a \<le> VA_LIMIT)"

definition ms_ok :: "MemorySet \<Rightarrow> bool" where
  "ms_ok ms \<longleftrightarrow> areas_ok (ms_areas ms) \<and> areas_limit (ms_areas ms) \<and> pt_sound (ms_pt ms) (ms_areas ms)"

definition frames_of :: "MapArea list \<Rightarrow> usize multiset" where
  "frames_of as = image_mset rp_frame (space_pages as)"

abbreviation ms_frames :: "MemorySet \<Rightarrow> usize multiset" where
  "ms_frames ms \<equiv> frames_of (ms_areas ms)"

lemma frames_of_simps [simp]:
  "frames_of [] = {#}" "frames_of (a # as) = image_mset rp_frame (rs_pages (resident a)) + frames_of as"
  "frames_of (xs @ ys) = frames_of xs + frames_of ys"
  by (simp_all add: frames_of_def)

lemma leaf_ok_same: "view_same u v \<Longrightarrow> leaf_ok u l = leaf_ok v l"
  by (cases u; cases v) (auto simp: leaf_ok_def view_same_def)

lemma pt_sound_same:
  assumes "\<And>va. view_same (view as va) (view bs va)"
  shows "pt_sound pt as = pt_sound pt bs"
proof -
  have "leaf_ok (view as va) l = leaf_ok (view bs va) l" for va l by (rule leaf_ok_same [OF assms])
  then show ?thesis by (simp add: pt_sound_def)
qed

lemma areas_limit_view:
  assumes "areas_ok as"
  shows "areas_limit as \<longleftrightarrow> (\<forall>va. view as va \<noteq> None \<longrightarrow> va < VA_LIMIT)"
proof
  assume "areas_limit as"
  then show "\<forall>va. view as va \<noteq> None \<longrightarrow> va < VA_LIMIT" unfolding view_None
    by (auto simp: areas_limit_def area_contains_def intro: less_le_trans)
next
  assume v: "\<forall>va. view as va \<noteq> None \<longrightarrow> va < VA_LIMIT"
  show "areas_limit as" unfolding areas_limit_def
  proof
    fix a assume a: "a \<in> set as"
    then have lt: "start_va a < end_va a" using assms by (auto simp: areas_ok_def area_ok_def)
    then have "area_contains a (end_va a - 1)" by (auto simp: area_contains_def)
    then have "end_va a - 1 < VA_LIMIT" using v a unfolding view_None by blast
    then show "end_va a \<le> VA_LIMIT" using lt by simp
  qed
qed

lemma areas_limit_same:
  assumes "areas_ok as" "areas_ok bs" "\<And>va. view_same (view as va) (view bs va)"
  shows "areas_limit as = areas_limit bs"
proof -
  have "view as va = None \<longleftrightarrow> view bs va = None" for va
    using assms(3) [of va] by (cases "view as va"; cases "view bs va") (auto simp: view_same_def)
  then show ?thesis unfolding areas_limit_view [OF assms(1)] areas_limit_view [OF assms(2)] by simp
qed

lemma drop_resident_law:
  assumes "km_ok raw extra km (image_mset rp_frame (rs_pages rs) + M)"
  shows "\<exists>km'. drop_resident rs km = Some km' \<and> km_ok raw extra km' M \<and> km_bytes km' = km_bytes km"
proof -
  have "mset (map rp_frame (rs_iter rs)) = image_mset rp_frame (rs_pages rs)" by (simp add: rs_iter_pages)
  then show ?thesis using km_drop_all_law [of raw extra km "map rp_frame (rs_iter rs)" M] assms
    by (simp add: drop_resident_def)
qed

section \<open>Unmapping\<close>

lemma view_filter:
  assumes "areas_ok as"
  shows "view (filter P as) va = (if \<exists>a \<in> set as. area_contains a va \<and> P a then view as va else None)"
proof (cases "\<exists>a \<in> set as. area_contains a va \<and> P a")
  case True
  then obtain a where a: "a \<in> set as" "area_contains a va" "P a" by blast
  have ap: "areas_apart (filter P as)"
    using assms by (intro areas_ok_apart) (auto simp: areas_ok_def sorted_wrt_filter)
  have "view (filter P as) va = Some (area_view a va)" using a view_apart [OF ap, of va] by auto
  moreover have "view as va = Some (area_view a va)" using a view_apart [OF areas_ok_apart [OF assms], of va] by auto
  ultimately show ?thesis using True by simp
next
  case False
  then have "view (filter P as) va = None" by (auto simp: view_None)
  then show ?thesis unfolding if_not_P [OF False] .
qed

lemma unmap_loop_correct:
  assumes "\<forall>a \<in> set as. area_ok a \<and> end_va a \<le> VA_LIMIT" "km_ok raw extra km (frames_of as + M)"
  shows "\<exists>km' pt'. unmap_loop km pt s e as = Some (km', pt', filter (\<lambda>a. \<not> area_overlaps a s e) as)
    \<and> km_ok raw extra km' (frames_of (filter (\<lambda>a. \<not> area_overlaps a s e) as) + M) \<and> km_bytes km' = km_bytes km
    \<and> (\<forall>w < VA_LIMIT. pt_leaf pt' w =
         (if \<exists>a \<in> set as. area_overlaps a s e \<and> has_leaf_permission (area_flags a) \<and> area_page a w \<noteq> None
          then None else pt_leaf pt w))"
  using assms
proof (induction as arbitrary: km pt M)
  case (Cons a as)
  have aok: "area_ok a" "end_va a \<le> VA_LIMIT" using Cons.prems by auto
  show ?case
  proof (cases "area_overlaps a s e")
    case True
    obtain km1 where 1: "drop_resident (resident a) km = Some km1" "km_ok raw extra km1 (frames_of as + M)"
        "km_bytes km1 = km_bytes km"
      using drop_resident_law [of raw extra km "resident a" "frames_of as + M"] Cons.prems(2) by (auto simp: add_ac)
    let ?pt = "unmap_area_pages pt a (area_flags a)"
    from Cons.IH [OF _ 1(2), of ?pt] Cons.prems(1) obtain km' pt' where
      2: "unmap_loop km1 ?pt s e as = Some (km', pt', filter (\<lambda>a. \<not> area_overlaps a s e) as)"
        "km_ok raw extra km' (frames_of (filter (\<lambda>a. \<not> area_overlaps a s e) as) + M)" "km_bytes km' = km_bytes km1"
        "\<forall>w < VA_LIMIT. pt_leaf pt' w =
         (if \<exists>a \<in> set as. area_overlaps a s e \<and> has_leaf_permission (area_flags a) \<and> area_page a w \<noteq> None
          then None else pt_leaf ?pt w)" by auto
    show ?thesis using 1 2 True unmap_area_pages_leaf [OF aok, of _ pt "area_flags a"] by auto
  next
    case False
    let ?M = "image_mset rp_frame (rs_pages (resident a)) + M"
    have "km_ok raw extra km (frames_of as + ?M)" using Cons.prems(2) by (simp add: add_ac)
    from Cons.IH [OF _ this, of pt] Cons.prems(1) obtain km' pt' where
      "unmap_loop km pt s e as = Some (km', pt', filter (\<lambda>a. \<not> area_overlaps a s e) as)"
      "km_ok raw extra km' (frames_of (filter (\<lambda>a. \<not> area_overlaps a s e) as) + ?M)" "km_bytes km' = km_bytes km"
      "\<forall>w < VA_LIMIT. pt_leaf pt' w =
         (if \<exists>a \<in> set as. area_overlaps a s e \<and> has_leaf_permission (area_flags a) \<and> area_page a w \<noteq> None
          then None else pt_leaf pt w)" by auto
    then show ?thesis using False by (simp add: add_ac)
  qed
qed simp

text \<open>Two splits leave no area across either end of the range.\<close>

lemma split_twice:
  assumes "areas_ok as" "s mod PAGE_SIZE = 0" "e mod PAGE_SIZE = 0"
  shows "\<exists>as1 as2. split_area_at as s = Some as1 \<and> split_area_at as1 e = Some as2 \<and> areas_ok as2 \<and> view as2 = view as
    \<and> space_pages as2 = space_pages as
    \<and> (\<forall>b \<in> set as2. \<not> (start_va b < s \<and> s < end_va b) \<and> \<not> (start_va b < e \<and> e < end_va b))"
proof -
  obtain as1 where 1: "split_area_at as s = Some as1" "areas_ok as1" "view as1 = view as" "space_pages as1 = space_pages as"
      "\<forall>b \<in> set as1. \<not> (start_va b < s \<and> s < end_va b)"
    using split_area_at_correct [OF assms(1), of s] assms(2) by blast
  obtain as2 where 2: "split_area_at as1 e = Some as2" "areas_ok as2" "view as2 = view as1" "space_pages as2 = space_pages as1"
      "\<forall>b \<in> set as2. \<not> (start_va b < e \<and> e < end_va b)" "\<forall>b \<in> set as2. \<exists>a \<in> set as1. start_va a \<le> start_va b \<and> end_va b \<le> end_va a"
    using split_area_at_correct [OF 1(2), of e] assms(3) by blast
  have "\<not> (start_va b < s \<and> s < end_va b)" if "b \<in> set as2" for b
    using 1(5) 2(6) that by (meson le_less_trans less_le_trans)
  then show ?thesis using 1 2 by auto
qed

text \<open>With no area across its ends, a range is exactly the areas that overlap it.\<close>

lemma cut_overlap:
  assumes "area_ok b" "\<not> (start_va b < s \<and> s < end_va b)" "\<not> (start_va b < e \<and> e < end_va b)" "area_contains b va"
  shows "area_overlaps b s e \<longleftrightarrow> s \<le> va \<and> va < e"
  using assms by (auto simp: area_overlaps_def area_contains_def)

lemma unmap_range_correct:
  assumes ok: "ms_ok ms" and km: "km_ok raw extra km (ms_frames ms + M)" and r: "\<not> bad_range s e"
  shows "\<exists>km' ms'. unmap_range km ms s e = Some (km', ms', Inr ()) \<and> ms_ok ms'
    \<and> km_ok raw extra km' (ms_frames ms' + M) \<and> km_bytes km' = km_bytes km \<and> address_space_id ms' = address_space_id ms
    \<and> (\<forall>va. if s \<le> va \<and> va < e then view (ms_areas ms') va = None else view_same (view (ms_areas ms) va) (view (ms_areas ms') va))
    \<and> (\<forall>va < VA_LIMIT. pt_leaf (ms_pt ms') va = (if s \<le> va \<and> va < e then None else pt_leaf (ms_pt ms) va))"
proof -
  have al: "s mod PAGE_SIZE = 0" "e mod PAGE_SIZE = 0" using r by (auto simp: bad_range_def)
  have aok: "areas_ok (ms_areas ms)" and lim: "areas_limit (ms_areas ms)" and snd: "pt_sound (ms_pt ms) (ms_areas ms)"
    using ok by (auto simp: ms_ok_def)
  obtain as1 as2 where S: "split_area_at (ms_areas ms) s = Some as1" "split_area_at as1 e = Some as2" "areas_ok as2"
      "view as2 = view (ms_areas ms)" "space_pages as2 = space_pages (ms_areas ms)"
      "\<forall>b \<in> set as2. \<not> (start_va b < s \<and> s < end_va b) \<and> \<not> (start_va b < e \<and> e < end_va b)"
    using split_twice [OF aok al] by blast
  have lim2: "areas_limit as2" using lim unfolding areas_limit_view [OF aok] areas_limit_view [OF S(3)] S(4) .
  have all2: "\<forall>a \<in> set as2. area_ok a \<and> end_va a \<le> VA_LIMIT" using S(3) lim2 by (auto simp: areas_ok_def areas_limit_def)
  let ?k = "filter (\<lambda>a. \<not> area_overlaps a s e) as2"
  have km2: "km_ok raw extra km (frames_of as2 + M)" using km S(5) by (simp add: frames_of_def)
  obtain km' pt' where L: "unmap_loop km (ms_pt ms) s e as2 = Some (km', pt', ?k)" "km_ok raw extra km' (frames_of ?k + M)"
      "km_bytes km' = km_bytes km"
      "\<forall>w < VA_LIMIT. pt_leaf pt' w = (if \<exists>a \<in> set as2. area_overlaps a s e \<and> has_leaf_permission (area_flags a) \<and> area_page a w \<noteq> None
         then None else pt_leaf (ms_pt ms) w)"
    using unmap_loop_correct [OF all2 km2, of "ms_pt ms" s e] by blast
  have okk: "areas_ok ?k" using S(3) by (auto simp: areas_ok_def sorted_wrt_filter)
  obtain as3 where C: "coalesce_areas ?k = Some as3" "areas_ok as3" "\<And>va. view_same (view ?k va) (view as3 va)"
      "space_pages as3 = space_pages ?k"
    using coalesce_areas_correct [OF areas_ok_apart [OF okk]] by blast
  define ms' where "ms' = ms\<lparr>ms_pt := pt', ms_areas := as3\<rparr>"
  have run: "unmap_range km ms s e = Some (km', ms', Inr ())"
    using r S(1,2) L(1) C(1) by (simp add: unmap_range_def ms'_def)
  have cut: "area_overlaps b s e \<longleftrightarrow> s \<le> va \<and> va < e" if "b \<in> set as2" "area_contains b va" for b va
    using cut_overlap [of b s e va] S(6) all2 that by blast
  have vk: "view ?k va = (if s \<le> va \<and> va < e then None else view (ms_areas ms) va)" for va
  proof -
    have "view ?k va = (if \<exists>a \<in> set as2. area_contains a va \<and> \<not> (s \<le> va \<and> va < e) then view as2 va else None)"
      unfolding view_filter [OF S(3)] using cut by (metis (no_types, lifting))
    then show ?thesis unfolding S(4) [symmetric] using view_None [of as2 va] by (auto split: if_splits)
  qed
  have leaf: "pt_leaf pt' va = (if s \<le> va \<and> va < e then None else pt_leaf (ms_pt ms) va)" if va: "va < VA_LIMIT" for va
  proof (cases "s \<le> va \<and> va < e \<and> pt_leaf (ms_pt ms) va \<noteq> None")
    case True
    then obtain f b p where v: "view as2 va = Some (f, b, Some p)" "has_leaf_permission f"
      using snd va unfolding pt_sound_def S(4) leaf_ok_def by blast
    then obtain a where a: "a \<in> set as2" "area_contains a va" "area_view a va = (f, b, Some p)"
      using view_apart [OF areas_ok_apart [OF S(3)], of va] by metis
    then have "area_overlaps a s e \<and> has_leaf_permission (area_flags a) \<and> area_page a va \<noteq> None"
      using cut [of a va] True v(2) by (auto simp: area_view_def)
    then show ?thesis using L(4) va a(1) True by auto
  next
    case False
    have "area_contains a va" if "area_page a va \<noteq> None" for a using that by (auto simp: area_page_def split: if_splits)
    then have "\<not> (s \<le> va \<and> va < e) \<Longrightarrow> \<not> (\<exists>a \<in> set as2. area_overlaps a s e \<and> has_leaf_permission (area_flags a) \<and> area_page a va \<noteq> None)"
      using cut by blast
    then show ?thesis using L(4) va False by (metis (no_types, lifting))
  qed
  have "pt_sound pt' ?k" using snd by (auto simp: pt_sound_def vk leaf split: if_splits)
  then have "pt_sound pt' as3" using pt_sound_same [OF C(3)] by simp
  moreover have "areas_limit ?k" using lim2 by (simp add: areas_limit_def)
  then have "areas_limit as3" using areas_limit_same [OF okk C(2,3)] by simp
  ultimately have "ms_ok ms'" using C(2) by (simp add: ms_ok_def ms'_def)
  moreover have "km_ok raw extra km' (ms_frames ms' + M)" using L(2) C(4) by (simp add: ms'_def frames_of_def)
  moreover have "if s \<le> va \<and> va < e then view (ms_areas ms') va = None
      else view_same (view (ms_areas ms) va) (view (ms_areas ms') va)" for va
    using C(3) [of va] vk [of va] by (auto simp: ms'_def view_same_None)
  moreover have "pt_leaf (ms_pt ms') va = (if s \<le> va \<and> va < e then None else pt_leaf (ms_pt ms) va)" if "va < VA_LIMIT" for va
    using leaf [OF that] by (simp add: ms'_def)
  moreover have "address_space_id ms' = address_space_id ms" by (simp add: ms'_def)
  ultimately show ?thesis using run L(3) by blast
qed

section \<open>Protecting\<close>

text \<open>What \<open>mprotect\<close> asks for at an address: the new flags, possibly with the copy-on-write
  mark, over the old backing and page.\<close>

definition protected_view :: "PTEFlags \<Rightarrow> area_view option \<Rightarrow> area_view option \<Rightarrow> bool" where
  "protected_view flags v v' \<longleftrightarrow> (\<exists>f b p b' f'. v = Some (f, b, p) \<and> v' = Some (f', b', p) \<and> backing_same b b'
     \<and> flags_remove f' PTE_COW = flags)"

lemma flags_cow_cancel:
  assumes "flags AND PTE_COW = 0"
  shows "flags_remove (flags OR PTE_COW) PTE_COW = flags" "flags_remove flags PTE_COW = flags"
proof -
  have "flags AND NOT PTE_COW = flags"
    using assms by (metis (no_types) and.right_idem bit.conj_disj_distrib bit.compl_unique bit.conj_cancel_right bit.disj_cancel_right bit.disj_zero_right word_bw_comms(1) bit.conj_one_right)
  then show "flags_remove (flags OR PTE_COW) PTE_COW = flags" "flags_remove flags PTE_COW = flags"
    by (simp_all add: flags_remove_def bit.conj_disj_distrib2)
qed

definition sound_on :: "page_table \<Rightarrow> MapArea \<Rightarrow> bool" where
  "sound_on pt a \<longleftrightarrow> (\<forall>w l. w < VA_LIMIT \<and> area_contains a w \<and> pt_leaf pt w = Some l \<longrightarrow> leaf_ok (Some (area_view a w)) l)"

lemma pt_sound_areas:
  assumes "areas_ok as"
  shows "pt_sound pt as \<longleftrightarrow> (\<forall>a \<in> set as. sound_on pt a) \<and> (\<forall>w < VA_LIMIT. view as w = None \<longrightarrow> pt_leaf pt w = None)"
proof -
  have v: "view as w = Some (area_view a w)" if "a \<in> set as" "area_contains a w" for a w
    using view_apart [OF areas_ok_apart [OF assms], of w] that by blast
  show ?thesis
  proof
    assume s: "pt_sound pt as"
    have "sound_on pt a" if "a \<in> set as" for a
      using s v [OF that] unfolding sound_on_def pt_sound_def by metis
    moreover have "pt_leaf pt w = None" if "w < VA_LIMIT" "view as w = None" for w
      using s that unfolding pt_sound_def leaf_ok_def by (metis not_Some_eq)
    ultimately show "(\<forall>a \<in> set as. sound_on pt a) \<and> (\<forall>w < VA_LIMIT. view as w = None \<longrightarrow> pt_leaf pt w = None)" by blast
  next
    assume s: "(\<forall>a \<in> set as. sound_on pt a) \<and> (\<forall>w < VA_LIMIT. view as w = None \<longrightarrow> pt_leaf pt w = None)"
    show "pt_sound pt as" unfolding pt_sound_def
    proof (intro allI impI)
      fix w l assume w: "w < VA_LIMIT \<and> pt_leaf pt w = Some l"
      then obtain a where a: "a \<in> set as" "area_contains a w" using s view_None [of as w] by (metis option.distinct(1))
      then show "leaf_ok (view as w) l" using s w v [OF a] unfolding sound_on_def by metis
    qed
  qed
qed

lemma leaf_ok_own:
  assumes "has_leaf_permission (area_flags a)" "area_page a w = Some p"
  shows "leaf_ok (Some (area_view a w)) (rp_frame p * PAGE_SIZE, effective_mapping_flags_for_page (area_flags a) p)"
  using assms by (simp add: leaf_ok_def area_view_def flags_contain_def)

lemma sound_no_page: "sound_on pt a \<Longrightarrow> w < VA_LIMIT \<Longrightarrow> area_contains a w \<Longrightarrow> area_page a w = None \<Longrightarrow> pt_leaf pt w = None"
  unfolding sound_on_def leaf_ok_def area_view_def by (metis (no_types) Pair_inject not_Some_eq option.inject)

lemma sound_no_leaf: "sound_on pt a \<Longrightarrow> w < VA_LIMIT \<Longrightarrow> area_contains a w \<Longrightarrow> \<not> has_leaf_permission (area_flags a) \<Longrightarrow> pt_leaf pt w = None"
  unfolding sound_on_def leaf_ok_def area_view_def by (metis (no_types) Pair_inject not_Some_eq option.inject)

lemma map_area_pages_sound:
  assumes ok: "area_ok a" "end_va a \<le> VA_LIMIT" and empty: "\<And>w. w < VA_LIMIT \<Longrightarrow> area_contains a w \<Longrightarrow> area_page a w = None \<Longrightarrow> pt_leaf pt w = None"
    and leaf: "has_leaf_permission (area_flags a)"
  shows "sound_on (map_area_pages pt a) a"
  unfolding sound_on_def
proof (intro allI impI)
  fix w l assume w: "w < VA_LIMIT \<and> area_contains a w \<and> pt_leaf (map_area_pages pt a) w = Some l"
  then obtain p where p: "area_page a w = Some p"
    using map_area_pages_leaf [OF ok, of w pt] empty [of w] by (cases "area_page a w") (auto split: if_splits)
  then have "l = (rp_frame p * PAGE_SIZE, effective_mapping_flags_for_page (area_flags a) p)"
    using map_area_pages_leaf [OF ok, of w pt] w leaf by simp
  then show "leaf_ok (Some (area_view a w)) l" using leaf_ok_own [OF leaf p] by simp
qed

lemma protect_area_correct:
  assumes ok: "area_ok a" "end_va a \<le> VA_LIMIT" and snd: "sound_on pt a" and fl: "flags AND PTE_COW = 0"
    and r: "protect_area km pt flags a = (pt', a')"
  shows "area_ok a'" "start_va a' = start_va a" "end_va a' = end_va a" "backing a' = backing a" "resident a' = resident a"
    and "flags_remove (area_flags a') PTE_COW = flags" "sound_on pt' a'"
    and "w < VA_LIMIT \<Longrightarrow> \<not> area_contains a w \<Longrightarrow> pt_leaf pt' w = pt_leaf pt w"
proof -
  let ?a = "a\<lparr>area_flags := protect_flags km flags a\<rparr>"
  have cases: "a' = a \<and> pt' = pt \<and> flags_remove (area_flags a) PTE_COW = flags
    \<or> a' = ?a \<and> pt' = (if has_frames a \<and> (has_leaf_permission (area_flags a) \<or> has_leaf_permission (area_flags ?a))
        then (if has_leaf_permission (area_flags ?a) then map_area_pages pt ?a
              else unmap_area_pages_without_shootdown pt ?a (area_flags a)) else pt)"
    using r by (auto simp: protect_area_def Let_def has_frames_def split: if_splits)
  have oka: "area_ok ?a" "end_va ?a \<le> VA_LIMIT" using ok by (auto simp: area_ok_def page_count_def area_size_def)
  have pg: "area_page ?a w = area_page a w" "area_contains ?a w = area_contains a w" for w
    by (simp_all add: area_page_def area_contains_def)
  show "area_ok a'" "start_va a' = start_va a" "end_va a' = end_va a" "backing a' = backing a" "resident a' = resident a"
    using cases ok oka by auto
  have "flags_remove (protect_flags km flags a) PTE_COW = flags"
    using flags_cow_cancel [OF fl] by (simp add: protect_flags_def Let_def)
  then show "flags_remove (area_flags a') PTE_COW = flags" using cases by auto
  note U = unmap_area_pages_leaf [OF oka, unfolded unmap_area_pages_def pg]
  have no: "pt_leaf pt v = None" if "v < VA_LIMIT" "area_contains a v" "area_page a v = None" for v
    using sound_no_page [OF snd that] .
  show "sound_on pt' a'"
  proof (cases "a' = a \<and> pt' = pt")
    case True
    then show ?thesis using snd by simp
  next
    case False
    then have a': "a' = ?a" and pt': "pt' = (if has_frames a \<and> (has_leaf_permission (area_flags a) \<or> has_leaf_permission (area_flags ?a))
        then (if has_leaf_permission (area_flags ?a) then map_area_pages pt ?a
              else unmap_area_pages_without_shootdown pt ?a (area_flags a)) else pt)" using cases by auto
    show ?thesis
    proof (cases "has_frames a \<and> has_leaf_permission (area_flags ?a)")
      case True
      then show ?thesis unfolding a' pt' using map_area_pages_sound [OF oka, of pt] no by (simp add: pg)
    next
      case False
      have "pt_leaf pt' v = None" if v: "v < VA_LIMIT" "area_contains a v" for v
      proof (cases "area_page a v = None")
        case True
        then have "pt_leaf pt v = None" using no v by blast
        then show ?thesis using pt' False U [OF v(1), of pt "area_flags a"] by (auto split: if_splits)
      next
        case pgs: False
        then have hf: "has_frames a" using has_frames_page [OF ok(1)] by blast
        show ?thesis
        proof (cases "has_leaf_permission (area_flags a)")
          case True
          then show ?thesis using pt' False hf pgs U [OF v(1), of pt "area_flags a"] by auto
        next
          case nl: False
          then have "pt_leaf pt v = None" using sound_no_leaf [OF snd v] by simp
          then show ?thesis using pt' False hf nl by auto
        qed
      qed
      then show ?thesis unfolding a' by (auto simp: sound_on_def pg)
    qed
  qed
  show "pt_leaf pt' w = pt_leaf pt w" if w: "w < VA_LIMIT" "\<not> area_contains a w"
  proof -
    have "area_page a w = None" using w(2) by (simp add: area_page_def)
    then show ?thesis
      using cases map_area_pages_leaf [OF oka w(1), of pt, unfolded pg] U [OF w(1), of pt "area_flags a"] w(2) by auto
  qed
qed

lemma view_protected:
  assumes "start_va a' = start_va a" "end_va a' = end_va a" "backing a' = backing a" "resident a' = resident a"
    and "flags_remove (area_flags a') PTE_COW = flags" "area_contains a w"
  shows "protected_view flags (Some (area_view a w)) (Some (area_view a' w))"
  using assms by (auto simp: protected_view_def area_view_def area_backing_at_def area_page_def area_contains_def)

lemma protect_loop_correct:
  assumes "areas_ok as" "areas_limit as" "\<forall>a \<in> set as. sound_on pt a" "flags AND PTE_COW = 0"
    "protect_loop km pt flags e as = (pt', as')"
  shows "map start_va as' = map start_va as \<and> map end_va as' = map end_va as \<and> areas_ok as'
    \<and> space_pages as' = space_pages as \<and> (\<forall>a \<in> set as'. sound_on pt' a)
    \<and> (\<forall>w < VA_LIMIT. (\<forall>a \<in> set as. start_va a < e \<longrightarrow> \<not> area_contains a w) \<longrightarrow> pt_leaf pt' w = pt_leaf pt w)
    \<and> (\<forall>w. if \<exists>a \<in> set as. start_va a < e \<and> area_contains a w then protected_view flags (view as w) (view as' w)
           else view as' w = view as w)"
  using assms
proof (induction as arbitrary: pt as')
  case (Cons a as)
  have aok: "area_ok a" "end_va a \<le> VA_LIMIT" and snd: "sound_on pt a" and oks: "areas_ok as" "areas_limit as"
    and after: "\<And>b. b \<in> set as \<Longrightarrow> end_va a \<le> start_va b"
    using Cons.prems by (auto simp: areas_limit_def)
  show ?case
  proof (cases "start_va a < e")
    case False
    have "\<not> start_va b < e" if "b \<in> set as" for b using after [OF that] area_ok_lt [OF aok(1)] False by simp
    then show ?thesis using Cons.prems False by auto
  next
    case True
    obtain pt1 a1 where P: "protect_area km pt flags a = (pt1, a1)" by fastforce
    obtain as1 where L: "protect_loop km pt1 flags e as = (pt', as1)" "as' = a1 # as1"
      using Cons.prems(5) True P by (auto split: prod.splits)
    note A = protect_area_correct [OF aok snd Cons.prems(4) P]
    have apart: "\<not> area_contains a w" if "b \<in> set as" "area_contains b w" for b w
      using after [OF that(1)] that(2) by (auto simp: area_contains_def)
    have sb: "\<forall>b \<in> set as. sound_on pt1 b"
    proof
      fix b assume b: "b \<in> set as"
      then have "sound_on pt b" using Cons.prems(3) by simp
      then show "sound_on pt1 b" using A(8) apart [OF b] by (auto simp: sound_on_def)
    qed
    note IH = Cons.IH [OF oks sb Cons.prems(4) L(1)]
    have ord: "end_va a1 \<le> start_va b" if "b \<in> set as1" for b
    proof -
      have "start_va b \<in> set (map start_va as1)" using that by simp
      then have "start_va b \<in> start_va ` set as" using IH by (metis list.set_map)
      then show ?thesis using after A(3) by auto
    qed
    have keep: "pt_leaf pt' w = pt_leaf pt1 w" if "w < VA_LIMIT" "area_contains a w" for w
      using IH that apart by blast
    have "sound_on pt' a1" using A(7) keep A(2,3) by (auto simp: sound_on_def area_contains_def)
    moreover have "view (a1 # as1) w = view (a # as) w"
      if "\<forall>b \<in> set (a # as). start_va b < e \<longrightarrow> \<not> area_contains b w" for w
    proof -
      have "\<not> area_contains a w" "\<not> area_contains a1 w" using that True A(2,3) by (auto simp: area_contains_def)
      moreover have "view as1 w = view as w" using IH that by (meson list.set_intros(2))
      ultimately show ?thesis by simp
    qed
    moreover have "protected_view flags (view (a # as) w) (view (a1 # as1) w)"
      if "\<exists>b \<in> set (a # as). start_va b < e \<and> area_contains b w" for w
    proof (cases "area_contains a w")
      case True
      then show ?thesis using view_protected [OF A(2-6) True] A(2,3) by (simp add: area_contains_def)
    next
      case False
      then have "\<exists>b \<in> set as. start_va b < e \<and> area_contains b w" using that by auto
      then have "protected_view flags (view as w) (view as1 w)" using IH by presburger
      moreover have "\<not> area_contains a1 w" using False A(2,3) by (simp add: area_contains_def)
      ultimately show ?thesis using False by simp
    qed
    moreover have "pt_leaf pt' w = pt_leaf pt w"
      if "w < VA_LIMIT" "\<forall>b \<in> set (a # as). start_va b < e \<longrightarrow> \<not> area_contains b w" for w
    proof -
      have "pt_leaf pt' w = pt_leaf pt1 w" using IH that by (meson list.set_intros(2))
      then show ?thesis using A(8) [OF that(1)] that(2) True by simp
    qed
    ultimately show ?thesis using IH A(1-5) ord L(2) by (auto simp del: view_simps)
  qed
qed auto

lemma protected_same: "protected_view flags u v \<Longrightarrow> view_same v w \<Longrightarrow> protected_view flags u w"
  by (cases w) (auto simp: protected_view_def view_same_None intro: backing_same_trans)

lemma already_protected_areas:
  assumes "areas_ok as" "already_protected flags e as" "a \<in> set as" "start_va a < e"
  shows "flags_remove (area_flags a) PTE_COW = flags"
  using assms
proof (induction as)
  case (Cons b as)
  have "start_va b < e"
    using Cons.prems(1,3,4) area_ok_lt [of b] by (auto intro: le_less_trans less_trans)
  then show ?case using Cons by (auto split: if_splits)
qed simp

lemma protect_range_correct:
  assumes ok: "ms_ok ms" and r: "\<not> bad_range s e" and fl: "flags AND PTE_COW = 0"
    and cov: "range_covered (ms_areas ms) s e"
  shows "\<exists>ms'. protect_range km ms s e flags = Some (ms', Inr ()) \<and> ms_ok ms' \<and> ms_frames ms' = ms_frames ms
    \<and> (\<forall>va. if s \<le> va \<and> va < e then protected_view flags (view (ms_areas ms) va) (view (ms_areas ms') va)
           else view_same (view (ms_areas ms) va) (view (ms_areas ms') va))
    \<and> (\<forall>va < VA_LIMIT. \<not> (s \<le> va \<and> va < e) \<longrightarrow> pt_leaf (ms_pt ms') va = pt_leaf (ms_pt ms) va)"
proof -
  have al: "s mod PAGE_SIZE = 0" "e mod PAGE_SIZE = 0" "s < e" using r by (auto simp: bad_range_def)
  have aok: "areas_ok (ms_areas ms)" and lim: "areas_limit (ms_areas ms)" and snd: "pt_sound (ms_pt ms) (ms_areas ms)"
    using ok by (auto simp: ms_ok_def)
  have inside: "view (ms_areas ms) va \<noteq> None" if "s \<le> va" "va < e" for va
    using cov that unfolding range_covered_iff [OF aok] by blast
  let ?i = "first_area_ending_after (ms_areas ms) s"
  show ?thesis
  proof (cases "already_protected flags e (drop ?i (ms_areas ms))")
    case True
    have "protected_view flags (view (ms_areas ms) va) (view (ms_areas ms) va)" if va: "s \<le> va" "va < e" for va
    proof -
      obtain x where "view (ms_areas ms) va = Some x" using inside [OF va] by blast
      then obtain a where a: "a \<in> set (ms_areas ms)" "area_contains a va" "view (ms_areas ms) va = Some (area_view a va)"
        using view_apart [OF areas_ok_apart [OF aok]] by metis
      then obtain j where j: "j < length (ms_areas ms)" "a = ms_areas ms ! j" by (auto simp: in_set_conv_nth)
      then have "?i \<le> j" using first_area_correct(2) [OF aok, of j s] a(2) va by (force simp: area_contains_def)
      then have "a = drop ?i (ms_areas ms) ! (j - ?i)" "j - ?i < length (drop ?i (ms_areas ms))" using j by auto
      then have "a \<in> set (drop ?i (ms_areas ms))" by (metis nth_mem)
      moreover have "areas_ok (drop ?i (ms_areas ms))" using aok by (metis append_take_drop_id areas_ok_append)
      ultimately have "flags_remove (area_flags a) PTE_COW = flags"
        using already_protected_areas [OF _ True] a(2) va by (auto simp: area_contains_def)
      then show ?thesis using a(3) by (auto simp: protected_view_def area_view_def)
    qed
    moreover have "protect_range km ms s e flags = Some (ms, Inr ())" using r cov True by (simp add: protect_range_def)
    ultimately show ?thesis using ok by auto
  next
    case False
    obtain as1 as2 where S: "split_area_at (ms_areas ms) s = Some as1" "split_area_at as1 e = Some as2" "areas_ok as2"
        "view as2 = view (ms_areas ms)" "space_pages as2 = space_pages (ms_areas ms)"
        "\<forall>b \<in> set as2. \<not> (start_va b < s \<and> s < end_va b) \<and> \<not> (start_va b < e \<and> e < end_va b)"
      using split_twice [OF aok al(1,2)] by blast
    let ?k = "first_area_ending_after as2 s"
    let ?pre = "take ?k as2" and ?post = "drop ?k as2"
    have app: "as2 = ?pre @ ?post" by simp
    have okp: "areas_ok ?pre" "areas_ok ?post" "\<forall>a \<in> set ?pre. \<forall>b \<in> set ?post. end_va a \<le> start_va b"
      using S(3) by (metis app areas_ok_append)+
    have lim2: "areas_limit as2" using lim unfolding areas_limit_view [OF aok] areas_limit_view [OF S(3)] S(4) .
    have snd2: "pt_sound (ms_pt ms) as2" using snd by (simp add: pt_sound_def S(4))
    then have so: "\<forall>a \<in> set as2. sound_on (ms_pt ms) a" using pt_sound_areas [OF S(3)] by blast
    have limp: "areas_limit ?post" "\<forall>a \<in> set ?post. sound_on (ms_pt ms) a" using lim2 so by (auto simp: areas_limit_def dest: in_set_dropD)
    obtain pt1 ch where L: "protect_loop km (ms_pt ms) flags e ?post = (pt1, ch)" by fastforce
    note P = protect_loop_correct [OF okp(2) limp fl L]
    have range: "start_va a < e \<longleftrightarrow> s \<le> w \<and> w < e" if a: "a \<in> set ?post" "area_contains a w" for a w
    proof -
      obtain j where "j < length ?post" "a = ?post ! j" using a(1) by (auto simp: in_set_conv_nth)
      then have "s < end_va a" using first_area_correct(3) [OF S(3), of s "?k + j"] by simp
      moreover have "a \<in> set as2" using a(1) by (rule in_set_dropD)
      ultimately show ?thesis using S(6) a(2) by (force simp: area_contains_def)
    qed
    have pre: "w < s" if a: "a \<in> set ?pre" "area_contains a w" for a w
    proof -
      obtain j where "j < length ?pre" "a = ?pre ! j" using a(1) by (auto simp: in_set_conv_nth)
      then have "end_va a \<le> s" using first_area_correct(2) [OF S(3), of j s] by simp
      then show ?thesis using a(2) by (auto simp: area_contains_def)
    qed
    let ?as3 = "?pre @ ch"
    have starts: "start_va ` set ch = start_va ` set ?post" using P by (metis list.set_map)
    have ok3: "areas_ok ?as3"
      using okp P starts unfolding areas_ok_append by (metis (no_types, lifting) imageE imageI)
    have v3: "if s \<le> w \<and> w < e then protected_view flags (view as2 w) (view ?as3 w) else view ?as3 w = view as2 w" for w
    proof (cases "view ?pre w")
      case None
      then have "view (?pre @ ?post) w = view ?post w" "view ?as3 w = view ch w" by (simp_all only: view_append option.case)
      then have e1: "view as2 w = view ?post w" "view ?as3 w = view ch w" by simp_all
      show ?thesis
      proof (cases "\<exists>a \<in> set ?post. start_va a < e \<and> area_contains a w")
        case True
        then show ?thesis using P range unfolding e1 by metis
      next
        case False
        have nr: "\<not> (s \<le> w \<and> w < e)"
        proof
          assume w: "s \<le> w \<and> w < e"
          then have "view ?post w \<noteq> None" using inside [of w] S(4) e1(1) by simp
          then obtain a where a: "a \<in> set ?post" "area_contains a w" unfolding view_None by blast
          then have "start_va a < e" using range [OF a] w by simp
          then show False using False a by blast
        qed
        moreover have "view ch w = view ?post w" using P False by metis
        ultimately show ?thesis unfolding e1 if_not_P [OF nr] by simp
      qed
    next
      case (Some x)
      then obtain a where "a \<in> set ?pre" "area_contains a w" using view_None [of ?pre w] by auto
      then have "w < s" by (rule pre)
      moreover have "view as2 w = Some x" using Some by (subst app) (simp only: view_append option.case)
      ultimately show ?thesis using Some by (simp add: view_append)
    qed
    have leaf: "pt_leaf pt1 w = pt_leaf (ms_pt ms) w" if "w < VA_LIMIT" "\<not> (s \<le> w \<and> w < e)" for w
      using P that range by blast
    have snd3: "pt_sound pt1 ?as3" unfolding pt_sound_areas [OF ok3]
    proof (intro conjI ballI allI impI)
      fix a assume "a \<in> set ?as3"
      then consider "a \<in> set ch" | "a \<in> set ?pre" by auto
      then show "sound_on pt1 a"
      proof cases
        case 1
        then show ?thesis using P by blast
      next
        case 2
        then have "sound_on (ms_pt ms) a" using so by (meson in_set_takeD)
        then show ?thesis using leaf pre [OF 2] unfolding sound_on_def by (metis not_le)
      qed
    next
      fix w assume w: "w < VA_LIMIT" "view ?as3 w = None"
      then have n: "\<not> (s \<le> w \<and> w < e)" "view as2 w = None" using v3 [of w] by (auto simp: protected_view_def split: if_splits)
      then show "pt_leaf pt1 w = None" using leaf [OF w(1) n(1)] snd2 w(1) pt_sound_areas [OF S(3)] by simp
    qed
    obtain as4 where C: "coalesce_changed_range ?as3 s e = Some as4" "areas_ok as4"
        "\<And>va. view_same (view ?as3 va) (view as4 va)" "space_pages as4 = space_pages ?as3"
      using coalesce_changed_correct [OF ok3] by blast
    define ms' where "ms' = ms\<lparr>ms_pt := pt1, ms_areas := as4\<rparr>"
    have run: "protect_range km ms s e flags = Some (ms', Inr ())"
      using r cov False S(1,2) L C(1) by (simp add: protect_range_def ms'_def Let_def)
    have "end_va ` set ch = end_va ` set ?post" using P by (metis list.set_map)
    then have "areas_limit ?as3" using lim2 limp(1) unfolding areas_limit_def
      by (metis (no_types, lifting) Un_iff imageE imageI in_set_takeD set_append)
    then have "areas_limit as4" using areas_limit_same [OF ok3 C(2,3)] by simp
    moreover have "pt_sound pt1 as4" using snd3 pt_sound_same [OF C(3)] by simp
    ultimately have "ms_ok ms'" using C(2) by (simp add: ms_ok_def ms'_def)
    moreover have "space_pages ?as3 = space_pages as2" using P by (subst (2) app) (simp only: space_pages_simps)
    then have "ms_frames ms' = ms_frames ms" using C(4) S(5) by (simp add: ms'_def frames_of_def)
    moreover have "if s \<le> va \<and> va < e then protected_view flags (view (ms_areas ms) va) (view (ms_areas ms') va)
        else view_same (view (ms_areas ms) va) (view (ms_areas ms') va)" for va
      using v3 [of va] C(3) [of va] protected_same unfolding S(4) by (auto simp: ms'_def)
    moreover have "pt_leaf (ms_pt ms') va = pt_leaf (ms_pt ms) va" if "va < VA_LIMIT" "\<not> (s \<le> va \<and> va < e)" for va
      using leaf [OF that] by (simp add: ms'_def)
    ultimately show ?thesis using run by blast
  qed
qed

section \<open>Properties\<close>

text \<open>C33. Unmapping a page-aligned range always succeeds, whatever areas it cuts: afterwards no
  address of the range has an area or a page-table leaf, every other address keeps its protection,
  backing offset, resident page and leaf, and exactly the frames of the removed pages have been
  given up, none leaked and none dropped twice.\<close>

theorem unmap_range_exact:
  assumes "ms_ok ms" "km_ok raw extra km (ms_frames ms + M)" "\<not> bad_range s e"
  shows "\<exists>km' ms'. unmap_range km ms s e = Some (km', ms', Inr ()) \<and> ms_ok ms' \<and> km_ok raw extra km' (ms_frames ms' + M)
    \<and> (\<forall>va < VA_LIMIT. if s \<le> va \<and> va < e
         then view (ms_areas ms') va = None \<and> ms_translate ms' va = None
         else view_same (view (ms_areas ms) va) (view (ms_areas ms') va) \<and> ms_translate ms' va = ms_translate ms va)"
proof -
  obtain km' ms' where U: "unmap_range km ms s e = Some (km', ms', Inr ())" "ms_ok ms'" "km_ok raw extra km' (ms_frames ms' + M)"
      "\<forall>va. if s \<le> va \<and> va < e then view (ms_areas ms') va = None else view_same (view (ms_areas ms) va) (view (ms_areas ms') va)"
      "\<forall>va < VA_LIMIT. pt_leaf (ms_pt ms') va = (if s \<le> va \<and> va < e then None else pt_leaf (ms_pt ms) va)"
    using unmap_range_correct [OF assms] by blast
  have "if s \<le> va \<and> va < e then view (ms_areas ms') va = None \<and> ms_translate ms' va = None
      else view_same (view (ms_areas ms) va) (view (ms_areas ms') va) \<and> ms_translate ms' va = ms_translate ms va"
    if "va < VA_LIMIT" for va
    using U(4,5) that by (simp add: ms_translate_def pt_translate_leaf)
  then show ?thesis using U(1-3) by blast
qed

text \<open>C34. Changing the protection of a covered, page-aligned range always succeeds: every address of
  the range gets exactly the requested flags (up to the copy-on-write mark) and keeps its backing
  offset and resident page, every other address keeps everything, no frame changes hands, and the
  page table stays within what the new flags allow.\<close>

theorem protect_range_exact:
  assumes "ms_ok ms" "\<not> bad_range s e" "range_covered (ms_areas ms) s e" "flags AND PTE_COW = 0"
  shows "\<exists>ms'. protect_range km ms s e flags = Some (ms', Inr ()) \<and> ms_ok ms' \<and> ms_frames ms' = ms_frames ms
    \<and> (\<forall>va. if s \<le> va \<and> va < e then protected_view flags (view (ms_areas ms) va) (view (ms_areas ms') va)
           else view_same (view (ms_areas ms) va) (view (ms_areas ms') va))"
  using protect_range_correct [OF assms(1,2,4,3), of km] by blast

definition sample_ms :: MemorySet where
  "sample_ms = \<lparr>ms_pt = pt_empty, address_space_id = 1,
     ms_areas = [area_new 4096 12288 19, area_new 12288 20480 23]\<rparr>"

lemma area_new_ok: "s < e \<Longrightarrow> e \<le> usize_max \<Longrightarrow> s mod PAGE_SIZE = 0 \<Longrightarrow> e mod PAGE_SIZE = 0 \<Longrightarrow> area_ok (area_new s e f)"
  by (simp add: area_ok_def area_new_def with_backing_def rs_map_empty rs_new_def rs_ok_def runs_ok_def runs_size_def)

lemma pt_leaf_empty [simp]: "pt_leaf pt_empty va = None"
  by (simp add: pt_leaf_def pt_empty_def leaf_read_def)

lemma sample_ms_ok: "ms_ok sample_ms"
  by (simp add: sample_ms_def ms_ok_def areas_limit_def pt_sound_def area_new_ok usize_max_def PAGE_SIZE_def VA_LIMIT_def)
    (simp add: area_new_def with_backing_def)

lemma sample_ms_frames: "ms_frames sample_ms = {#}"
  by (simp add: sample_ms_def area_new_def with_backing_def rs_pages_def rs_new_def runs_pages_def)

definition sample_km :: kmem where
  "sample_km = \<lparr>km_frames = demo_frames, km_bytes = (\<lambda>_. zero_page), km_cpu = 0\<rparr>"

lemma sample_km_ok: "km_ok {} {} sample_km {#}"
proof -
  have "k_ok {} {} demo_frames" using frames_reach_inv [OF demo_frames_reach] by (simp add: frames_inv_def blocks_simps)
  moreover have "refs demo_frames = count {#}"
    by (auto simp: demo_frames_def add_frames_range_def frames_init_def Let_def)
  ultimately show ?thesis by (simp add: km_ok_def sample_km_def MAX_CPUS_def)
qed

theorem unmap_range_exact_witness:
  "\<exists>km' ms'. unmap_range sample_km sample_ms 8192 16384 = Some (km', ms', Inr ()) \<and> ms_ok ms' \<and> view (ms_areas ms') 8192 = None"
proof -
  have "\<not> bad_range 8192 16384" by (simp add: bad_range_def PAGE_SIZE_def)
  moreover have "km_ok {} {} sample_km (ms_frames sample_ms + {#})" using sample_km_ok sample_ms_frames by simp
  ultimately obtain km' ms' where "unmap_range sample_km sample_ms 8192 16384 = Some (km', ms', Inr ())" "ms_ok ms'"
      "\<forall>va < VA_LIMIT. if 8192 \<le> va \<and> va < 16384 then view (ms_areas ms') va = None \<and> ms_translate ms' va = None
         else view_same (view (ms_areas sample_ms) va) (view (ms_areas ms') va) \<and> ms_translate ms' va = ms_translate sample_ms va"
    using unmap_range_exact [OF sample_ms_ok, of "{}" "{}" sample_km "{#}" 8192 16384] by blast
  moreover have "(8192 :: nat) < VA_LIMIT" by (simp add: VA_LIMIT_def)
  ultimately show ?thesis by fastforce
qed

theorem protect_range_exact_witness:
  "\<exists>ms'. protect_range sample_km sample_ms 8192 16384 19 = Some (ms', Inr ()) \<and> ms_ok ms'
     \<and> protected_view 19 (view (ms_areas sample_ms) 12288) (view (ms_areas ms') 12288)"
proof -
  have "\<not> bad_range 8192 16384" by (simp add: bad_range_def PAGE_SIZE_def)
  moreover have "range_covered (ms_areas sample_ms) 8192 16384"
  proof -
    have "view (ms_areas sample_ms) va \<noteq> None" if "8192 \<le> va \<and> va < 16384" for va
      using that unfolding view_None by (simp add: sample_ms_def area_new_def with_backing_def area_contains_def) linarith
    then show ?thesis using range_covered_iff [of "ms_areas sample_ms" 8192 16384] sample_ms_ok unfolding ms_ok_def by blast
  qed
  moreover have "(19 :: PTEFlags) AND PTE_COW = 0" by (simp add: PTE_COW_def)
  ultimately have "\<exists>ms'. protect_range sample_km sample_ms 8192 16384 19 = Some (ms', Inr ()) \<and> ms_ok ms' \<and> ms_frames ms' = ms_frames sample_ms
    \<and> (\<forall>va. if 8192 \<le> va \<and> va < 16384 then protected_view 19 (view (ms_areas sample_ms) va) (view (ms_areas ms') va)
           else view_same (view (ms_areas sample_ms) va) (view (ms_areas ms') va))"
    by (rule protect_range_exact [OF sample_ms_ok])
  then obtain ms' where "protect_range sample_km sample_ms 8192 16384 19 = Some (ms', Inr ())" "ms_ok ms'"
      and v: "\<forall>va. if 8192 \<le> va \<and> va < 16384 then protected_view 19 (view (ms_areas sample_ms) va) (view (ms_areas ms') va)
           else view_same (view (ms_areas sample_ms) va) (view (ms_areas ms') va)" by blast
  moreover have "protected_view 19 (view (ms_areas sample_ms) 12288) (view (ms_areas ms') 12288)"
    using spec [OF v, of 12288] by (simp only: numeral_le_iff numeral_less_iff semiring_norm if_True simp_thms)
  ultimately show ?thesis by blast
qed

end
