(* ===== verification/Page_Fault.thy ===== *)
theory Page_Fault
  imports Memory_Set
begin

unbundle bit_operations_syntax

text \<open>
  Copy-on-write, demand paging and fork: \<open>resolve_cow_page\<close>, \<open>ensure_page_writable\<close>,
  \<open>ensure_page_readable\<close>, \<open>prepare_read\<close>, \<open>prepare_write\<close>, \<open>write_bytes\<close>, \<open>handle_page_fault\<close>
  and \<open>fork_cow\<close> of \<open>os/src/mm/memory_set.rs\<close>. What the fault handler asks of the file system
  (\<open>FileDescriptor::read_at\<close>, \<open>can_use_clean_page_cache\<close>, \<open>clean_page_cache_frames\<close>) is the
  argument \<open>fs_env\<close>. The clones of a backing's file descriptor are dropped again inside each
  operation and do not appear. A local that owns a \<open>FrameTracker\<close> is dropped where the source
  drops it.
\<close>

record fs_env =
  fe_read_at :: "FileDescriptor \<Rightarrow> usize \<Rightarrow> SysErrNo + page_bytes"
  fe_can_use_clean :: "nat \<Rightarrow> bool"
  fe_clean_frames :: "kmem \<Rightarrow> nat \<Rightarrow> usize \<Rightarrow> usize \<Rightarrow> usize \<Rightarrow> (kmem \<times> (SysErrNo + usize list)) option"

type_synonym 'a ms_result = "(kmem \<times> MemorySet \<times> (SysErrNo + 'a)) option"

definition CLEAN_FILE_FAULT_WINDOW_PAGES :: usize where "CLEAN_FILE_FAULT_WINDOW_PAGES = 64"
definition CLEAN_FILE_FAULT_READ_AHEAD_PAGES :: usize where "CLEAN_FILE_FAULT_READ_AHEAD_PAGES = 16"
definition ANONYMOUS_FAULT_WINDOW_PAGES :: usize where "ANONYMOUS_FAULT_WINDOW_PAGES = 8"

definition read_backing_page :: "fs_env \<Rightarrow> MapAreaBacking \<Rightarrow> usize \<Rightarrow> SysErrNo + page_bytes" where
  "read_backing_page env bk page_offset =
     (case bk of
        File file offset _ \<Rightarrow> fe_read_at env file (saturating_add page_offset offset)
      | _ \<Rightarrow> Inr zero_page)"

definition set_area :: "MemorySet \<Rightarrow> nat \<Rightarrow> MapArea \<Rightarrow> MemorySet" where
  "set_area ms index area = ms\<lparr>ms_areas := (ms_areas ms)[index := area]\<rparr>"

text \<open>Dropping a tracker on the way out of an operation.\<close>

definition drop_return :: "kmem \<Rightarrow> usize \<Rightarrow> MemorySet \<Rightarrow> SysErrNo + 'a \<Rightarrow> 'a ms_result" where
  "drop_return km f ms r = map_option (\<lambda>km1. (km1, ms, r)) (km_drop km f)"

section \<open>Copy on write\<close>

text \<open>The last part: the page turns private, its leaf is republished, and the frame it had before
  is dropped.\<close>

definition cow_install :: "kmem \<Rightarrow> MemorySet \<Rightarrow> nat \<Rightarrow> usize \<Rightarrow> usize \<Rightarrow> usize option \<Rightarrow> nat ms_result" where
  "cow_install km ms index page_start page_idx old_frame =
     (let area = fst (set_resident_state (ms_areas ms ! index) page_idx Private);
          ms1 = set_area ms index area;
          pt1 = map_area_page (pt_unmap_page (ms_pt ms1) page_start) area page_idx;
          ms2 = ms1\<lparr>ms_pt := pt1\<rparr>
      in case old_frame of
           None \<Rightarrow> Some (km, ms2, Inr 1)
         | Some f \<Rightarrow> drop_return km f ms2 (Inr 1))"

definition cow_replace :: "kmem \<Rightarrow> MemorySet \<Rightarrow> nat \<Rightarrow> usize \<Rightarrow> usize \<Rightarrow> usize \<Rightarrow> nat ms_result" where
  "cow_replace km ms index page_start page_idx frame =
     (case replace_resident_page (ms_areas ms ! index) page_idx frame of
        Inl f \<Rightarrow> drop_return km f ms (Inl EFAULT)
      | Inr (area, old) \<Rightarrow> cow_install km (set_area ms index area) index page_start page_idx (Some old))"

text \<open>\<open>lookup(page_idx).cloned()\<close> clones the tracker of the resident page before its reference
  count is read; the clone goes at the end of the \<open>if let\<close>.\<close>

definition cow_resident :: "kmem \<Rightarrow> MemorySet \<Rightarrow> nat \<Rightarrow> usize \<Rightarrow> usize \<Rightarrow> ResidentPage \<Rightarrow> nat ms_result" where
  "cow_resident km ms index page_start page_idx source_page =
     (if km_ref_count km (rp_frame source_page) > 1 then
        (case km_alloc km of
           None \<Rightarrow> None
         | Some (km1, None) \<Rightarrow> drop_return km1 (rp_frame source_page) ms (Inl ENOMEM)
         | Some (km1, Some frame) \<Rightarrow>
             (case km_drop (km_copy km1 (rp_frame source_page) frame) (rp_frame source_page) of
                None \<Rightarrow> None
              | Some km2 \<Rightarrow> cow_replace km2 ms index page_start page_idx frame))
      else
        (case km_drop km (rp_frame source_page) of
           None \<Rightarrow> None
         | Some km1 \<Rightarrow> cow_install km1 ms index page_start page_idx None))"

definition cow_absent :: "fs_env \<Rightarrow> kmem \<Rightarrow> MemorySet \<Rightarrow> nat \<Rightarrow> usize \<Rightarrow> usize \<Rightarrow> nat ms_result" where
  "cow_absent env km ms index page_start page_idx =
     (case km_alloc km of
        None \<Rightarrow> None
      | Some (km1, None) \<Rightarrow> Some (km1, ms, Inl ENOMEM)
      | Some (km1, Some frame) \<Rightarrow>
          (case read_backing_page env (backing (ms_areas ms ! index)) (page_start - start_va (ms_areas ms ! index)) of
             Inl err \<Rightarrow> drop_return km1 frame ms (Inl err)
           | Inr data \<Rightarrow>
               (case insert_resident_page (ms_areas ms ! index) page_idx frame Private of
                  Inl f \<Rightarrow> drop_return (km_write km1 frame data) f ms (Inl EFAULT)
                | Inr area \<Rightarrow> cow_install (km_write km1 frame data) (set_area ms index area) index page_start page_idx None)))"

definition private_backing :: "MapAreaBacking \<Rightarrow> bool" where
  "private_backing bk = (case bk of Anonymous \<Rightarrow> True | File _ _ shared \<Rightarrow> \<not> shared | _ \<Rightarrow> False)"

definition resolve_cow_page :: "fs_env \<Rightarrow> kmem \<Rightarrow> MemorySet \<Rightarrow> usize \<Rightarrow> nat ms_result" where
  "resolve_cow_page env km ms page_start =
     (case area_index_containing (ms_areas ms) page_start of
        None \<Rightarrow> Some (km, ms, Inl EFAULT)
      | Some index \<Rightarrow>
          (let area = ms_areas ms ! index;
               page_idx = (page_start - start_va area) div PAGE_SIZE;
               bad = (\<not> private_backing (backing area) \<or> \<not> flags_contain (area_flags area) PTE_COW
                      \<or> \<not> flags_contain (area_flags area) PTE_W)
           in case rs_lookup (resident area) page_idx of
                None \<Rightarrow> if bad then Some (km, ms, Inl EFAULT) else cow_absent env km ms index page_start page_idx
              | Some source_page \<Rightarrow>
                  (case km_clone km (rp_frame source_page) of
                     None \<Rightarrow> None
                   | Some km1 \<Rightarrow>
                       if bad then drop_return km1 (rp_frame source_page) ms (Inl EFAULT)
                       else cow_resident km1 ms index page_start page_idx source_page)))"

section \<open>Demand paging\<close>

text \<open>The \<open>while\<close> loops that count absent pages forward and backward.\<close>

fun scan_forward :: "ResidentSet \<Rightarrow> usize \<Rightarrow> nat \<Rightarrow> nat \<Rightarrow> nat" where
  "scan_forward rs page_idx k 0 = k"
| "scan_forward rs page_idx k (Suc m) =
     (if rs_lookup rs (page_idx + k) = None then scan_forward rs page_idx (k + 1) m else k)"

fun scan_backward :: "ResidentSet \<Rightarrow> usize \<Rightarrow> nat \<Rightarrow> nat \<Rightarrow> nat" where
  "scan_backward rs page_idx k 0 = k"
| "scan_backward rs page_idx k (Suc m) =
     (if rs_lookup rs (page_idx - k) = None then scan_backward rs page_idx (k + 1) m else k)"

definition anonymous_window :: "MapArea \<Rightarrow> usize \<Rightarrow> usize \<Rightarrow> usize \<times> nat" where
  "anonymous_window area page_start page_idx =
     (let pages_to_end = (end_va area - page_start) div PAGE_SIZE;
          max_forward = min pages_to_end ANONYMOUS_FAULT_WINDOW_PAGES;
          forward = scan_forward (resident area) page_idx 0 max_forward;
          max_backward = min (page_idx + 1) ANONYMOUS_FAULT_WINDOW_PAGES;
          backward = (if forward < ANONYMOUS_FAULT_WINDOW_PAGES
                      then scan_backward (resident area) page_idx 1 (max_backward - 1) else 1)
      in if backward > forward then (page_idx + 1 - backward, backward) else (page_idx, forward))"

text \<open>Allocate up to \<open>n\<close> frames; running out after the first is not an error.\<close>

fun alloc_window :: "kmem \<Rightarrow> nat \<Rightarrow> usize list \<Rightarrow> (kmem \<times> usize list) option" where
  "alloc_window km 0 frames = Some (km, frames)"
| "alloc_window km (Suc n) frames =
     (case km_alloc km of
        None \<Rightarrow> None
      | Some (km1, Some f) \<Rightarrow> alloc_window km1 n (frames @ [f])
      | Some (km1, None) \<Rightarrow> Some (km1, frames))"

definition fault_anonymous :: "kmem \<Rightarrow> MemorySet \<Rightarrow> nat \<Rightarrow> usize \<Rightarrow> usize \<Rightarrow> unit ms_result" where
  "fault_anonymous km ms index page_start page_idx =
     (case anonymous_window (ms_areas ms ! index) page_start page_idx of
        (window_start, window_pages) \<Rightarrow>
          (case alloc_window km window_pages [] of
             None \<Rightarrow> None
           | Some (km1, frames) \<Rightarrow>
               if frames = [] then Some (km1, ms, Inl (if window_pages = 0 then EFAULT else ENOMEM))
               else
                 (case insert_resident_run (ms_areas ms ! index) window_start frames Private of
                    Inl fs \<Rightarrow> map_option (\<lambda>km2. (km2, ms, Inl EFAULT)) (km_drop_all fs km1)
                  | Inr area \<Rightarrow>
                      Some (km1, (set_area ms index area)\<lparr>ms_pt := map_area_page_window (ms_pt ms) area window_start (length frames)\<rparr>,
                            Inr ()))))"

definition fault_clean :: "fs_env \<Rightarrow> kmem \<Rightarrow> MemorySet \<Rightarrow> nat \<Rightarrow> usize \<Rightarrow> usize \<Rightarrow> nat \<Rightarrow> usize \<Rightarrow> unit ms_result" where
  "fault_clean env km ms index page_start page_idx ino file_offset =
     (let area = ms_areas ms ! index;
          pages_to_end = (end_va area - page_start) div PAGE_SIZE;
          window_pages = scan_forward (resident area) page_idx 0 (min pages_to_end CLEAN_FILE_FAULT_WINDOW_PAGES)
      in if window_pages = 0 then Some (km, ms, Inl EFAULT)
         else
           (case fe_clean_frames env km ino file_offset window_pages CLEAN_FILE_FAULT_READ_AHEAD_PAGES of
              None \<Rightarrow> None
            | Some (km1, Inl err) \<Rightarrow> Some (km1, ms, Inl err)
            | Some (km1, Inr cache_frames) \<Rightarrow>
                if cache_frames = [] then Some (km1, ms, Inl ENOMEM)
                else
                  (case insert_resident_run area page_idx cache_frames FileClean of
                     Inl fs \<Rightarrow> map_option (\<lambda>km2. (km2, ms, Inl EFAULT)) (km_drop_all fs km1)
                   | Inr area1 \<Rightarrow>
                       Some (km1, (set_area ms index area1)\<lparr>ms_pt := map_area_page_window (ms_pt ms) area1 page_idx (length cache_frames)\<rparr>,
                             Inr ()))))"

definition backing_page_state :: "MapAreaBacking \<Rightarrow> PageState" where
  "backing_page_state bk =
     (case bk of AnonymousShared \<Rightarrow> Shared | SharedMemory _ _ _ \<Rightarrow> Shared | Anonymous \<Rightarrow> Private
      | File _ _ shared \<Rightarrow> if shared then Shared else FileClean)"

definition fault_backing :: "fs_env \<Rightarrow> kmem \<Rightarrow> MemorySet \<Rightarrow> nat \<Rightarrow> usize \<Rightarrow> usize \<Rightarrow> unit ms_result" where
  "fault_backing env km ms index page_start page_idx =
     (let area = ms_areas ms ! index
      in case km_alloc km of
           None \<Rightarrow> None
         | Some (km1, None) \<Rightarrow> Some (km1, ms, Inl ENOMEM)
         | Some (km1, Some frame) \<Rightarrow>
             (case read_backing_page env (backing area) (page_start - start_va area) of
                Inl err \<Rightarrow> drop_return km1 frame ms (Inl err)
              | Inr data \<Rightarrow>
                  (case insert_resident_page area page_idx frame (backing_page_state (backing area)) of
                     Inl f \<Rightarrow> drop_return (km_write km1 frame data) f ms (Inl EFAULT)
                   | Inr area1 \<Rightarrow>
                       Some (km_write km1 frame data,
                             (set_area ms index area1)\<lparr>ms_pt := map_area_page (ms_pt ms) area1 page_idx\<rparr>, Inr ()))))"

definition fault_permitted :: "PTEFlags \<Rightarrow> bool \<Rightarrow> bool \<Rightarrow> bool" where
  "fault_permitted flags is_store is_exec =
     (has_leaf_permission flags
      \<and> (if is_exec then flags_contain flags PTE_X else if is_store then flags_contain flags PTE_W else flags_contain flags PTE_R))"

definition clean_cache_page :: "fs_env \<Rightarrow> MapArea \<Rightarrow> usize \<Rightarrow> bool \<Rightarrow> (nat \<times> usize) option" where
  "clean_cache_page env area page_start is_store =
     (if \<not> is_store \<and> \<not> flags_contain (area_flags area) PTE_W then
        (case backing area of
           File (Ext4Regular e) offset _ \<Rightarrow>
             if fe_can_use_clean env (er_ino e) then Some (er_ino e, saturating_add offset (page_start - start_va area)) else None
         | _ \<Rightarrow> None)
      else None)"

definition handle_page_fault :: "fs_env \<Rightarrow> kmem \<Rightarrow> MemorySet \<Rightarrow> usize \<Rightarrow> bool \<Rightarrow> bool \<Rightarrow> unit ms_result" where
  "handle_page_fault env km ms fault_addr is_store is_exec =
     (let page_start = align_down fault_addr
      in case area_index_containing (ms_areas ms) fault_addr of
           None \<Rightarrow> Some (km, ms, Inl EFAULT)
         | Some index \<Rightarrow>
             (let area = ms_areas ms ! index;
                  page_idx = (page_start - start_va area) div PAGE_SIZE
              in if \<not> fault_permitted (area_flags area) is_store is_exec then Some (km, ms, Inl EFAULT)
                 else if is_store \<and> flags_contain (area_flags area) PTE_COW
                 then map_option (\<lambda>(km1, ms1, r). (km1, ms1, map_sum id (\<lambda>_. ()) r)) (resolve_cow_page env km ms page_start)
                 else if ms_translate ms page_start \<noteq> None then Some (km, ms, Inr ())
                 else if rs_lookup (resident area) page_idx \<noteq> None
                 then Some (km, ms\<lparr>ms_pt := map_area_page (ms_pt ms) area page_idx\<rparr>, Inr ())
                 else if backing area = Anonymous \<and> \<not> flags_contain (area_flags area) PTE_COW \<and> \<not> flags_contain (area_flags area) PTE_X
                 then fault_anonymous km ms index page_start page_idx
                 else (case clean_cache_page env area page_start is_store of
                         Some (ino, file_offset) \<Rightarrow> fault_clean env km ms index page_start page_idx ino file_offset
                       | None \<Rightarrow> fault_backing env km ms index page_start page_idx)))"

section \<open>Access for the kernel\<close>

definition ensure_page_writable :: "fs_env \<Rightarrow> kmem \<Rightarrow> MemorySet \<Rightarrow> usize \<Rightarrow> unit ms_result" where
  "ensure_page_writable env km ms page_start =
     (case area_index_containing (ms_areas ms) page_start of
        None \<Rightarrow> Some (km, ms, Inl EFAULT)
      | Some index \<Rightarrow>
          (let flags = area_flags (ms_areas ms ! index)
           in if \<not> has_leaf_permission flags \<or> \<not> flags_contain flags PTE_W then Some (km, ms, Inl EFAULT)
              else if flags_contain flags PTE_COW
              then map_option (\<lambda>(km1, ms1, r). (km1, ms1, map_sum id (\<lambda>_. ()) r)) (resolve_cow_page env km ms page_start)
              else if ms_translate ms page_start = None then handle_page_fault env km ms page_start True False
              else Some (km, ms, Inr ())))"

definition ensure_page_readable :: "fs_env \<Rightarrow> kmem \<Rightarrow> MemorySet \<Rightarrow> usize \<Rightarrow> unit ms_result" where
  "ensure_page_readable env km ms page_start =
     (case area_index_containing (ms_areas ms) page_start of
        None \<Rightarrow> Some (km, ms, Inl EFAULT)
      | Some index \<Rightarrow>
          (let flags = area_flags (ms_areas ms ! index)
           in if \<not> has_leaf_permission flags \<or> \<not> flags_contain flags PTE_R then Some (km, ms, Inl EFAULT)
              else if ms_translate ms page_start = None then handle_page_fault env km ms page_start False False
              else Some (km, ms, Inr ())))"

text \<open>The loops of \<open>prepare_read\<close> and \<open>prepare_write\<close> take one page at a time.\<close>

function prepare_loop ::
  "(kmem \<Rightarrow> MemorySet \<Rightarrow> usize \<Rightarrow> unit ms_result) \<Rightarrow> usize \<Rightarrow> usize \<Rightarrow> kmem \<Rightarrow> MemorySet \<Rightarrow> usize \<Rightarrow> unit ms_result" where
  "prepare_loop ensure base len km ms checked =
     (if checked < len then
        (case checked_add base checked of
           None \<Rightarrow> Some (km, ms, Inl EFAULT)
         | Some addr \<Rightarrow>
             (case ensure km ms (align_down addr) of
                None \<Rightarrow> None
              | Some (km1, ms1, Inl err) \<Rightarrow> Some (km1, ms1, Inl err)
              | Some (km1, ms1, Inr _) \<Rightarrow>
                  prepare_loop ensure base len km1 ms1 (checked + min (PAGE_SIZE - addr mod PAGE_SIZE) (len - checked))))
      else Some (km, ms, Inr ()))"
  by pat_completeness auto
termination
  by (relation "measure (\<lambda>(_, _, len, _, _, checked). len - checked)") (auto simp: PAGE_SIZE_def)

declare prepare_loop.simps [simp del]

definition prepare_read :: "fs_env \<Rightarrow> kmem \<Rightarrow> MemorySet \<Rightarrow> usize \<Rightarrow> usize \<Rightarrow> unit ms_result" where
  "prepare_read env km ms src len = prepare_loop (ensure_page_readable env) src len km ms 0"

definition prepare_write :: "fs_env \<Rightarrow> kmem \<Rightarrow> MemorySet \<Rightarrow> usize \<Rightarrow> usize \<Rightarrow> unit ms_result" where
  "prepare_write env km ms dst len = prepare_loop (ensure_page_writable env) dst len km ms 0"

text \<open>\<open>copy_nonoverlapping\<close> into one frame.\<close>

definition splice :: "page_bytes \<Rightarrow> nat \<Rightarrow> page_bytes \<Rightarrow> page_bytes" where
  "splice bytes off src = take off bytes @ src @ drop (off + length src) bytes"

function write_bytes_loop :: "usize \<Rightarrow> page_bytes \<Rightarrow> kmem \<Rightarrow> MemorySet \<Rightarrow> usize \<Rightarrow> kmem \<times> MemorySet \<times> (SysErrNo + unit)" where
  "write_bytes_loop dst src km ms copied =
     (if copied < length src then
        (case checked_add dst copied of
           None \<Rightarrow> (km, ms, Inl EFAULT)
         | Some addr \<Rightarrow>
             (case area_index_containing (ms_areas ms) addr of
                None \<Rightarrow> (km, ms, Inl EFAULT)
              | Some index \<Rightarrow>
                  (let area = ms_areas ms ! index;
                       page_idx = (align_down addr - start_va area) div PAGE_SIZE;
                       page_off = addr mod PAGE_SIZE;
                       copy_len = min (length src - copied) (PAGE_SIZE - page_off)
                   in case rs_lookup (resident area) page_idx of
                        None \<Rightarrow> (km, ms, Inl EFAULT)
                      | Some page \<Rightarrow>
                          (let km1 = km_write km (rp_frame page)
                                 (splice (km_bytes km (rp_frame page)) page_off (take copy_len (drop copied src)));
                               ms1 = (case backing area of
                                        File _ _ True \<Rightarrow> set_area ms index (fst (set_resident_state area page_idx FileDirty))
                                      | _ \<Rightarrow> ms)
                           in write_bytes_loop dst src km1 ms1 (copied + copy_len)))))
      else (km, ms, Inr ()))"
  by pat_completeness auto
termination
  by (relation "measure (\<lambda>(_, src, _, _, copied). length src - copied)") (auto simp: PAGE_SIZE_def)

declare write_bytes_loop.simps [simp del]

definition write_bytes :: "kmem \<Rightarrow> MemorySet \<Rightarrow> usize \<Rightarrow> page_bytes \<Rightarrow> kmem \<times> MemorySet \<times> (SysErrNo + unit)" where
  "write_bytes km ms dst src = write_bytes_loop dst src km ms 0"

fun invalidate_loop :: "page_table \<Rightarrow> usize \<Rightarrow> usize \<Rightarrow> MapArea list \<Rightarrow> page_table" where
  "invalidate_loop pt start fin [] = pt"
| "invalidate_loop pt start fin (area # rest) =
     invalidate_loop
       (if start_va area \<ge> start \<and> end_va area \<le> fin \<and> (case backing area of File _ _ _ \<Rightarrow> True | _ \<Rightarrow> False)
        then unmap_area_pages pt area (area_flags area) else pt) start fin rest"

definition invalidate_file_range :: "MemorySet \<Rightarrow> usize \<Rightarrow> usize \<Rightarrow> (MemorySet \<times> (SysErrNo + unit)) option" where
  "invalidate_file_range ms start fin =
     (if bad_range start fin then Some (ms, Inl EINVAL)
      else if \<not> range_covered (ms_areas ms) start fin then Some (ms, Inl ENOMEM)
      else
        (case split_area_at (ms_areas ms) start of
           None \<Rightarrow> None
         | Some as1 \<Rightarrow>
             (case split_area_at as1 fin of
                None \<Rightarrow> None
              | Some as2 \<Rightarrow>
                  map_option (\<lambda>as3. (ms\<lparr>ms_pt := invalidate_loop (ms_pt ms) start fin as2, ms_areas := as3\<rparr>, Inr ()))
                    (coalesce_areas as2))))"

section \<open>Editing the resident pages of one area\<close>



lemma resident_update_inj [simp]: "a\<lparr>resident := x\<rparr> = a\<lparr>resident := y\<rparr> \<longleftrightarrow> x = y"
  by (cases a) auto














section \<open>Resolving a copy-on-write fault\<close>

lemma set_area_twice [simp]:
  "set_area (set_area ms i x) i y = set_area ms i y" "set_area (ms\<lparr>ms_pt := pt\<rparr>) i x = (set_area ms i x)\<lparr>ms_pt := pt\<rparr>"
  "i < length (ms_areas ms) \<Longrightarrow> ms_areas (set_area ms i x) ! i = x" "ms_pt (set_area ms i x) = ms_pt ms"
  "length (ms_areas (set_area ms i x)) = length (ms_areas ms)"
  by (simp_all add: set_area_def)





lemma writable_leaf: "flags_contain f PTE_W \<Longrightarrow> has_leaf_permission f"
proof -
  assume "flags_contain f PTE_W"
  then have "(f AND (PTE_R OR PTE_W OR PTE_X)) AND PTE_W = PTE_W"
    by (simp add: flags_contain_def and.assoc pte_defs)
  then show ?thesis by (auto simp: has_leaf_permission_def flags_intersect_def PTE_W_def)
qed





section \<open>Demand paging\<close>





text \<open>The window of an anonymous fault has at most eight pages, none of them resident, and holds the
  faulting page.\<close>

lemma pages_to_end:
  assumes "area_ok a" "area_contains a va" "va mod PAGE_SIZE = 0" "q = (va - start_va a) div PAGE_SIZE"
  shows "q + (end_va a - va) div PAGE_SIZE = page_count a"
  using page_index_shift [of "start_va a" va "end_va a"] assms by (auto simp: area_ok_def area_contains_def page_count_def area_size_def)




text \<open>What a fault may do to the address space: fill empty pages, and move the faulting page.\<close>

definition faulted :: "VirtAddr \<Rightarrow> MapArea list \<Rightarrow> MapArea list \<Rightarrow> bool" where
  "faulted va as as' \<longleftrightarrow> (\<forall>w. view as' w = view as w
     \<or> (\<exists>f b p. view as w = Some (f, b, None) \<and> view as' w = Some (f, b, Some p))
     \<or> w div PAGE_SIZE = va div PAGE_SIZE \<and> (\<exists>f b p p'. view as w = Some (f, b, Some p) \<and> view as' w = Some (f, b, Some p')))"


lemma faulted_refl [simp]: "faulted va as as"
  by (simp add: faulted_def)



lemma translate_leaf: "ms_translate ms va \<noteq> None \<longleftrightarrow> pt_leaf (ms_pt ms) va \<noteq> None"
  by (simp add: ms_translate_def pt_translate_leaf)










lemma align_down_area:
  assumes "area_ok a" "area_contains a va"
  shows "area_contains a (align_down va)" "align_down va mod PAGE_SIZE = 0" "align_down va div PAGE_SIZE = va div PAGE_SIZE"
proof -
  obtain j where "start_va a = j * PAGE_SIZE" using assms(1) by (metis area_ok_def page_div_mult)
  then have "start_va a \<le> va div PAGE_SIZE * PAGE_SIZE" using assms(2)
    by (simp add: area_contains_def less_eq_div_iff_mult_less_eq)
  then show "area_contains a (align_down va)" using assms(2)
    by (auto simp: area_contains_def align_down_def intro: le_less_trans [OF div_times_less_eq_dividend])
  show "align_down va mod PAGE_SIZE = 0" "align_down va div PAGE_SIZE = va div PAGE_SIZE" by (simp_all add: align_down_def)
qed


section \<open>Protection and copy on write\<close>

text \<open>Protecting the whole of the only area of an address space.\<close>

lemma single_area:
  assumes "areas_ok [a]"
  shows "split_area_at [a] (start_va a) = Some [a]" "split_area_at [a] (end_va a) = Some [a]"
    and "first_area_ending_after [a] (start_va a) = 0" "range_covered [a] (start_va a) (end_va a)"
    and "\<not> bad_range (start_va a) (end_va a)"
proof -
  have ok: "area_ok a" "start_va a < end_va a" "start_va a mod PAGE_SIZE = 0" "end_va a mod PAGE_SIZE = 0"
    using assms by (auto simp: area_ok_def)
  have s: "area_index_containing [a] (start_va a) = Some 0"
    using area_index_iff [OF assms, of "start_va a" 0] ok(2) by (simp add: area_contains_def)
  have e: "area_index_containing [a] (end_va a) = None"
    using area_index_None [OF assms, of "end_va a"] by (simp add: area_contains_def)
  show "split_area_at [a] (start_va a) = Some [a]" using s by (simp add: split_area_at_def split_at_def)
  show "split_area_at [a] (end_va a) = Some [a]" using e by (simp add: split_area_at_def)
  show "first_area_ending_after [a] (start_va a) = 0"
    using first_area_correct(1,2) [OF assms, of "start_va a"] first_area_correct(2) [OF assms, of 0 "start_va a"] ok(2) by fastforce
  show "range_covered [a] (start_va a) (end_va a)" using s by (simp add: range_covered.simps [of "[a]" "start_va a"]) (simp add: range_covered.simps)
  show "\<not> bad_range (start_va a) (end_va a)" using ok by (simp add: bad_range_def)
qed

lemma protect_single:
  assumes "ms_ok ms" "ms_areas ms = [a]" "flags_remove (area_flags a) PTE_COW \<noteq> flags"
  shows "protect_range km ms (start_va a) (end_va a) flags =
    Some (ms\<lparr>ms_pt := fst (protect_area km (ms_pt ms) flags a), ms_areas := [snd (protect_area km (ms_pt ms) flags a)]\<rparr>, Inr ())"
proof -
  have ok: "areas_ok [a]" using assms(1,2) by (simp add: ms_ok_def)
  have lt: "start_va a < end_va a" using ok by (simp add: area_ok_def)
  show ?thesis
    by (simp add: protect_range_def assms single_area [OF ok] lt coalesce_changed_range_def Let_def split: prod.split)
qed

lemma leaf_permission_cow: "has_leaf_permission (f OR PTE_COW) = has_leaf_permission f"
  by (simp add: has_leaf_permission_def flags_intersect_def bit.conj_disj_distrib2 pte_defs)

lemma mapping_flags_writable: "flags_contain (mapping_flags_from f) MAP_W \<longleftrightarrow> flags_contain f PTE_W"
  by (simp add: mapping_flags_from_def Let_def map_flag_defs) (simp add: flags_contain_def [where f = "8 :: 64 word"])

lemma protect_area_leaf:
  assumes ok: "area_ok a" "end_va a \<le> VA_LIMIT" and p: "area_page a va = Some p"
    and fl: "flags_remove (area_flags a) PTE_COW \<noteq> flags" "has_leaf_permission flags"
  shows "snd (protect_area km pt flags a) = a\<lparr>area_flags := protect_flags km flags a\<rparr>"
    and "pt_leaf (fst (protect_area km pt flags a)) va =
      Some (rp_frame p * PAGE_SIZE, effective_mapping_flags_for_page (protect_flags km flags a) p)"
proof -
  let ?a = "a\<lparr>area_flags := protect_flags km flags a\<rparr>"
  have hf: "has_frames a" using has_frames_page [OF ok(1)] p by blast
  have "has_leaf_permission (protect_flags km flags a)"
    using fl(2) by (simp add: protect_flags_def Let_def leaf_permission_cow)
  then have pa: "protect_area km pt flags a = (map_area_pages pt ?a, ?a)" "has_leaf_permission (area_flags ?a)"
    using fl(1) hf by (simp_all add: protect_area_def Let_def has_frames_def)
  show "snd (protect_area km pt flags a) = ?a" by (simp add: pa(1))
  have oka: "area_ok ?a" "end_va ?a \<le> VA_LIMIT" using ok by (auto simp: area_ok_def page_count_def area_size_def)
  have c: "area_contains a va" using p by (auto simp: area_page_def split: if_splits)
  then have "va < VA_LIMIT" using ok(2) by (simp add: area_contains_def)
  from map_area_pages_leaf [OF oka this, of pt] show "pt_leaf (fst (protect_area km pt flags a)) va =
      Some (rp_frame p * PAGE_SIZE, effective_mapping_flags_for_page (protect_flags km flags a) p)"
    using pa p c by (simp add: area_contains_def area_page_def)
qed

lemma cow_flags_writable: "flags_contain (f OR PTE_COW) PTE_W = flags_contain f PTE_W"
  by (simp add: flags_contain_def bit.conj_disj_distrib2 pte_defs)

lemma no_write_flag: "\<not> flags_contain (flags_remove f PTE_W) PTE_W"
  by (simp add: flags_contain_def flags_remove_def and.assoc PTE_W_def)

section \<open>Properties\<close>



text \<open>C35. What \<open>mprotect\<close> does to shared clean pages: the comment in \<open>protect_range\<close> promises that the
  frames a private mapping shares stay read-only until the first store, but only pages in state
  \<open>Cow\<close> do. Making the area of a page in any other state writable, a clean page of the page cache
  with a second owner for instance, maps that very frame writable.\<close>

theorem mprotect_maps_shared_frame_writable:
  assumes "ms_ok ms" "ms_areas ms = [a]" "private_backing (backing a)" "area_page a va = Some p" "rp_state p \<noteq> Cow"
    "km_ref_count km (rp_frame p) > 1" "flags_remove (area_flags a) PTE_COW \<noteq> flags" "flags_contain flags PTE_W"
  shows "\<exists>ms' fl. protect_range km ms (start_va a) (end_va a) flags = Some (ms', Inr ())
    \<and> pt_leaf (ms_pt ms') va = Some (rp_frame p * PAGE_SIZE, fl) \<and> flags_contain fl MAP_W"
proof -
  have ok: "area_ok a" "end_va a \<le> VA_LIMIT" using assms(1,2) by (auto simp: ms_ok_def areas_limit_def)
  note L = protect_area_leaf [OF ok assms(4,7) writable_leaf [OF assms(8)], of km "ms_pt ms"]
  have "flags_contain (effective_mapping_flags_for_page (protect_flags km flags a) p) MAP_W"
    using assms(5,8) by (auto simp: effective_mapping_flags_for_page_def mapping_flags_writable protect_flags_def Let_def cow_flags_writable)
  then show ?thesis using protect_single [OF assms(1,2,7), of km] L(2) by auto
qed

text \<open>C36. A store that can never complete: after a fork whose child is gone, a private page is in state
  \<open>Cow\<close> with one owner. Taking write permission away and giving it back drops the copy-on-write
  mark of the area but not the state of the page, so the page is mapped read-only; the store fault
  that follows finds a translation, reports success and changes nothing, and the store faults
  again, forever.\<close>

theorem store_fault_never_resolved:
  assumes "ms_ok ms" "ms_areas ms = [a]" "area_flags a = 279" "area_page a va = Some p" "rp_state p = Cow"
    "\<forall>page \<in> set (rs_iter (resident a)). km_ref_count km (rp_frame page) \<le> 1"
  shows "\<exists>ms1 ms2 pa fl. protect_range km ms (start_va a) (end_va a) 19 = Some (ms1, Inr ())
    \<and> protect_range km ms1 (start_va a) (end_va a) 23 = Some (ms2, Inr ())
    \<and> handle_page_fault env km ms2 va True False = Some (km, ms2, Inr ())
    \<and> pt_leaf (ms_pt ms2) va = Some (pa, fl) \<and> \<not> flags_contain fl MAP_W"
proof -
  have ok: "area_ok a" "end_va a \<le> VA_LIMIT" using assms(1,2) by (auto simp: ms_ok_def areas_limit_def)
  have n1: "flags_remove (area_flags a) PTE_COW \<noteq> 19" using assms(3) by (simp add: flags_remove_def PTE_COW_def)
  have l1: "has_leaf_permission 19" "has_leaf_permission 23" by (simp_all add: has_leaf_permission_def flags_intersect_def pte_defs)
  define a1 where "a1 = a\<lparr>area_flags := 19\<rparr>"
  have f1: "protect_flags km 19 a = 19" by (simp add: protect_flags_def Let_def flags_contain_def PTE_W_def)
  define ms1 where "ms1 = ms\<lparr>ms_pt := fst (protect_area km (ms_pt ms) 19 a), ms_areas := [a1]\<rparr>"
  have r1: "protect_range km ms (start_va a) (end_va a) 19 = Some (ms1, Inr ())"
    using protect_single [OF assms(1,2) n1, of km] protect_area_leaf(1) [OF ok assms(4) n1 l1(1), of km "ms_pt ms"]
    by (simp add: f1 ms1_def a1_def)
  have ok1: "ms_ok ms1" "ms_areas ms1 = [a1]"
  proof -
    have "areas_ok [a]" using assms(1,2) by (simp add: ms_ok_def)
    moreover have "(19 :: PTEFlags) AND PTE_COW = 0" by (simp add: PTE_COW_def)
    ultimately have "\<exists>ms'. protect_range km ms (start_va a) (end_va a) 19 = Some (ms', Inr ()) \<and> ms_ok ms'"
      using protect_range_correct [OF assms(1), of "start_va a" "end_va a" 19 km] single_area [of a] assms(2) by auto
    then show "ms_ok ms1" using r1 by simp
  qed (simp add: ms1_def)
  have a1: "start_va a1 = start_va a" "end_va a1 = end_va a" "area_page a1 va = Some p" "area_ok a1" "end_va a1 \<le> VA_LIMIT"
    "resident a1 = resident a" "area_flags a1 = 19"
    using ok assms(4) by (auto simp: a1_def area_page_def area_contains_def area_ok_def page_count_def area_size_def split: if_splits)
  have n2: "flags_remove (area_flags a1) PTE_COW \<noteq> 23" using a1(7) by (simp add: flags_remove_def PTE_COW_def)
  have f2: "protect_flags km 23 a1 = 23"
    using assms(6) a1(6,7) by (auto simp: protect_flags_def Let_def flags_contain_def PTE_COW_def not_less)
  define a2 where "a2 = a1\<lparr>area_flags := 23\<rparr>"
  define ms2 where "ms2 = ms1\<lparr>ms_pt := fst (protect_area km (ms_pt ms1) 23 a1), ms_areas := [a2]\<rparr>"
  note L2 = protect_area_leaf [OF a1(4,5,3) n2 l1(2), of km "ms_pt ms1", unfolded f2]
  have r2: "protect_range km ms1 (start_va a) (end_va a) 23 = Some (ms2, Inr ())"
    using protect_single [OF ok1 n2, of km] L2(1) by (simp add: ms2_def a1(1,2) a2_def)
  have leaf: "pt_leaf (ms_pt ms2) va = Some (rp_frame p * PAGE_SIZE, effective_mapping_flags_for_page 23 p)"
    using L2(2) by (simp add: ms2_def)
  have nw: "\<not> flags_contain (effective_mapping_flags_for_page 23 p) MAP_W"
    using assms(5) no_write_flag by (simp add: effective_mapping_flags_for_page_def mapping_flags_writable)
  have c: "area_contains a va" using assms(4) by (auto simp: area_page_def split: if_splits)
  have ix: "area_index_containing (ms_areas ms2) va = Some 0"
  proof -
    have "areas_ok [a2]" using a1(4) by (simp add: a2_def area_ok_def page_count_def area_size_def)
    from area_index_iff [OF this, of va 0] show ?thesis using c by (simp add: ms2_def a2_def a1_def area_contains_def)
  qed
  have ps: "pt_leaf (ms_pt ms2) (align_down va) = pt_leaf (ms_pt ms2) va"
  proof (rule pt_leaf_page)
    show "align_down va < VA_LIMIT" "va < VA_LIMIT" "align_down va div PAGE_SIZE = va div PAGE_SIZE"
      using align_down_area [OF ok(1) c] c ok(2) by (auto simp: area_contains_def)
  qed
  have "ms_translate ms2 (align_down va) \<noteq> None" unfolding translate_leaf using ps leaf by simp
  then have "handle_page_fault env km ms2 va True False = Some (km, ms2, Inr ())"
    using ix l1(2) by (simp add: handle_page_fault_def Let_def ms2_def [symmetric] fault_permitted_def)
      (simp add: ms2_def a2_def flags_contain_def pte_defs)
  then show ?thesis using r1 r2 leaf nw by blast
qed

section \<open>Concrete instances\<close>

definition sample_env :: fs_env where
  "sample_env = \<lparr>fe_read_at = (\<lambda>_ _. Inr zero_page), fe_can_use_clean = (\<lambda>_. False), fe_clean_frames = (\<lambda>km _ _ _ _. Some (km, Inr []))\<rparr>"

definition one_page_ms :: "PTEFlags \<Rightarrow> PageState \<Rightarrow> MemorySet" where
  "one_page_ms fl st = \<lparr>ms_pt = pt_empty, address_space_id = 1,
     ms_areas = [\<lparr>start_va = 4096, end_va = 8192, area_flags = fl,
       resident = \<lparr>rs_runs = [(0, [page_with_state 7 st])], rs_count = 1\<rparr>, backing = Anonymous\<rparr>]\<rparr>"

definition owned_km :: "nat \<Rightarrow> kmem" where
  "owned_km n = sample_km\<lparr>km_frames := (km_frames sample_km)\<lparr>refs := (\<lambda>_. n)\<rparr>\<rparr>"

lemma one_page_ms_ok: "ms_ok (one_page_ms fl st)"
  by (simp add: one_page_ms_def ms_ok_def areas_limit_def pt_sound_def area_ok_def usize_max_def PAGE_SIZE_def VA_LIMIT_def
      rs_ok_def runs_ok_def runs_size_def page_count_def area_size_def) (simp add: rs_map_def runs_map_def run_at_def)

lemma one_page_at:
  "area_page (hd (ms_areas (one_page_ms fl st))) 4096 = Some (page_with_state 7 st)" "ms_areas (one_page_ms fl st) = [hd (ms_areas (one_page_ms fl st))]"
  by (simp_all add: one_page_ms_def area_page_def area_contains_def rs_map_def runs_map_def run_at_def)







theorem mprotect_maps_shared_frame_writable_witness:
  "\<exists>ms' fl. protect_range (owned_km 2) (one_page_ms 19 FileClean) 4096 8192 23 = Some (ms', Inr ())
    \<and> pt_leaf (ms_pt ms') 4096 = Some (7 * PAGE_SIZE, fl) \<and> flags_contain fl MAP_W"
proof -
  let ?a = "hd (ms_areas (one_page_ms 19 FileClean))"
  have h: "private_backing (backing ?a)" "rp_state (page_with_state 7 FileClean) \<noteq> Cow"
    "km_ref_count (owned_km 2) (rp_frame (page_with_state 7 FileClean)) > 1" "flags_remove (area_flags ?a) PTE_COW \<noteq> 23"
    "flags_contain 23 PTE_W"
    by (simp_all add: one_page_ms_def private_backing_def page_with_state_def owned_km_def km_ref_count_def flags_remove_def
        flags_contain_def pte_defs)
  have "start_va ?a = 4096" "end_va ?a = 8192" "rp_frame (page_with_state 7 FileClean) = 7"
    by (simp_all add: one_page_ms_def page_with_state_def)
  then show ?thesis
    using mprotect_maps_shared_frame_writable [OF one_page_ms_ok one_page_at(2) h(1) one_page_at(1) h(2-5)] by simp
qed

theorem store_fault_never_resolved_witness:
  "\<exists>ms1 ms2 pa fl. protect_range (owned_km 1) (one_page_ms 279 Cow) 4096 8192 19 = Some (ms1, Inr ())
    \<and> protect_range (owned_km 1) ms1 4096 8192 23 = Some (ms2, Inr ())
    \<and> handle_page_fault sample_env (owned_km 1) ms2 4096 True False = Some (owned_km 1, ms2, Inr ())
    \<and> pt_leaf (ms_pt ms2) 4096 = Some (pa, fl) \<and> \<not> flags_contain fl MAP_W"
proof -
  let ?a = "hd (ms_areas (one_page_ms 279 Cow))"
  have h: "area_flags ?a = 279" "rp_state (page_with_state 7 Cow) = Cow"
    "\<forall>page \<in> set (rs_iter (resident ?a)). km_ref_count (owned_km 1) (rp_frame page) \<le> 1"
    by (simp_all add: one_page_ms_def page_with_state_def owned_km_def km_ref_count_def)
  have "start_va ?a = 4096" "end_va ?a = 8192" by (simp_all add: one_page_ms_def)
  then show ?thesis
    using store_fault_never_resolved [OF one_page_ms_ok one_page_at(2) h(1) one_page_at(1) h(2,3), of sample_env] by simp
qed

end
