(* ===== verification/Fork.thy ===== *)
theory Fork
  imports Page_Fault
begin

unbundle bit_operations_syntax

text \<open>
  Forking an address space: \<open>MemorySet::fork_cow\<close> of \<open>os/src/mm/memory_set.rs\<close>. Shared mappings and
  read-only private ones share their frames with the child; writable private ones share them in
  state \<open>Cow\<close>, with the leaves of the parent republished without write permission; what is left
  (private areas without access) is copied page by page. On a failure the child built so far is
  dropped with its trackers.
\<close>

section \<open>One area\<close>




section \<open>The whole address space\<close>



section \<open>What a child may see\<close>



lemma area_flags_update [simp]:
  "area_ok (a\<lparr>area_flags := f\<rparr>) = area_ok a" "area_page (a\<lparr>area_flags := f\<rparr>) w = area_page a w"
  "area_contains (a\<lparr>area_flags := f\<rparr>) w = area_contains a w"
  by (simp_all add: area_ok_def page_count_def area_size_def area_page_def area_contains_def)


























section \<open>The loop over the areas\<close>







section \<open>The two address spaces\<close>






lemma private_split [simp]: "private_backing (split_right b d) = private_backing b"
  by (cases b) (auto simp: private_backing_def)







section \<open>Properties\<close>



end
