(* ===== verification/Writeback.thy ===== *)
theory Writeback
  imports Kernel_Types
begin

text \<open>
  The write-back bookkeeping of \<open>os/src/fs/ext4_vol.rs\<close>: the queue of inodes waiting for the
  write-back worker (\<open>WritebackQueue\<close>) and the dirty state of one cached file
  (\<open>PageCacheDirtyModel\<close>, \<open>mark_dirty_range\<close>, \<open>clip_dirty_ranges\<close>). Dirty bytes are kept as a
  sorted vector of separate ranges; the theory shows that the vector always denotes the right set
  of bytes.
\<close>

section \<open>The queue\<close>

text \<open>\<open>queued\<close> is a \<open>BTreeSet\<close>; a removed inode stays in \<open>pending\<close> until it is popped.\<close>

record WritebackQueue =
  wq_pending :: "nat list"
  wq_queued :: "nat set"

definition wq_new :: WritebackQueue where
  "wq_new = \<lparr>wq_pending = [], wq_queued = {}\<rparr>"

definition wq_push :: "WritebackQueue \<Rightarrow> nat \<Rightarrow> WritebackQueue" where
  "wq_push q ino =
     (if ino \<notin> wq_queued q then q\<lparr>wq_pending := wq_pending q @ [ino], wq_queued := insert ino (wq_queued q)\<rparr> else q)"

fun wq_pop_loop :: "nat list \<Rightarrow> nat set \<Rightarrow> nat list \<times> nat set \<times> nat option" where
  "wq_pop_loop [] queued = ([], queued, None)"
| "wq_pop_loop (ino # rest) queued =
     (if ino \<in> queued then (rest, queued - {ino}, Some ino) else wq_pop_loop rest queued)"

definition wq_pop :: "WritebackQueue \<Rightarrow> WritebackQueue \<times> nat option" where
  "wq_pop q =
     (case wq_pop_loop (wq_pending q) (wq_queued q) of (p, s, r) \<Rightarrow> (q\<lparr>wq_pending := p, wq_queued := s\<rparr>, r))"

definition wq_remove :: "WritebackQueue \<Rightarrow> nat \<Rightarrow> WritebackQueue" where
  "wq_remove q ino = q\<lparr>wq_queued := wq_queued q - {ino}\<rparr>"

definition wq_has_work :: "WritebackQueue \<Rightarrow> bool" where
  "wq_has_work q \<longleftrightarrow> wq_queued q \<noteq> {}"

definition wq_clear :: "WritebackQueue \<Rightarrow> WritebackQueue" where
  "wq_clear q = wq_new"

section \<open>Dirty ranges\<close>

record DirtyRange =
  dr_start :: usize
  dr_end :: usize

datatype PageCacheWritebackState = Clean | Dirty | Queued | Writeback | DirtyDuringWriteback

record PageCacheDirtyModel =
  dm_ranges :: "DirtyRange list"
  full_dirty :: bool
  size_dirty :: bool
  dm_writeback :: PageCacheWritebackState
  last_error :: "SysErrNo option"
  dm_seq :: "64 word"

definition dm_clean :: PageCacheDirtyModel where
  "dm_clean = \<lparr>dm_ranges = [], full_dirty = False, size_dirty = False, dm_writeback = Clean, last_error = None, dm_seq = 0\<rparr>"

definition dirty_whole_file :: PageCacheDirtyModel where
  "dirty_whole_file =
     \<lparr>dm_ranges = [], full_dirty = True, size_dirty = True, dm_writeback = Dirty, last_error = None, dm_seq = 1\<rparr>"

definition data_dirty :: "PageCacheDirtyModel \<Rightarrow> bool" where
  "data_dirty d \<longleftrightarrow> full_dirty d \<or> size_dirty d \<or> dm_ranges d \<noteq> []"

definition writeback_active :: "PageCacheDirtyModel \<Rightarrow> bool" where
  "writeback_active d \<longleftrightarrow> dm_writeback d = Writeback \<or> dm_writeback d = DirtyDuringWriteback"

definition refresh_writeback_state :: "PageCacheDirtyModel \<Rightarrow> PageCacheDirtyModel" where
  "refresh_writeback_state d =
     (if writeback_active d then d else d\<lparr>dm_writeback := if data_dirty d then Dirty else Clean\<rparr>)"

definition note_write :: "PageCacheDirtyModel \<Rightarrow> PageCacheDirtyModel" where
  "note_write d = d\<lparr>dm_seq := dm_seq d + 1,
     dm_writeback := (case dm_writeback d of
        Writeback \<Rightarrow> DirtyDuringWriteback | DirtyDuringWriteback \<Rightarrow> DirtyDuringWriteback | _ \<Rightarrow> Dirty)\<rparr>"

definition note_queued :: "PageCacheDirtyModel \<Rightarrow> PageCacheDirtyModel" where
  "note_queued d =
     (if data_dirty d \<and> (dm_writeback d = Dirty \<or> dm_writeback d = Queued) then d\<lparr>dm_writeback := Queued\<rparr> else d)"

definition begin_writeback :: "PageCacheDirtyModel \<Rightarrow> PageCacheDirtyModel \<times> 64 word option" where
  "begin_writeback d =
     (if writeback_active d \<or> \<not> data_dirty d then (d, None) else (d\<lparr>dm_writeback := Writeback\<rparr>, Some (dm_seq d)))"

fun remaining_ranges :: "DirtyRange \<Rightarrow> DirtyRange list \<Rightarrow> DirtyRange list" where
  "remaining_ranges c [] = []"
| "remaining_ranges c (r # rs) =
     (if dr_end r \<le> dr_start c \<or> dr_start r \<ge> dr_end c then [r]
      else (if dr_start r < dr_start c then [\<lparr>dr_start = dr_start r, dr_end = dr_start c\<rparr>] else [])
           @ (if dr_end c < dr_end r then [\<lparr>dr_start = dr_end c, dr_end = dr_end r\<rparr>] else []))
     @ remaining_ranges c rs"

definition finish_writeback ::
  "PageCacheDirtyModel \<Rightarrow> 64 word \<Rightarrow> DirtyRange option \<Rightarrow> bool \<Rightarrow> PageCacheDirtyModel \<times> bool" where
  "finish_writeback d sq completed committed_size =
     (let d' = (if dm_seq d = sq then
                  (let d1 = (case completed of None \<Rightarrow> d | Some c \<Rightarrow> d\<lparr>dm_ranges := remaining_ranges c (dm_ranges d)\<rparr>);
                       d2 = d1\<lparr>full_dirty := False\<rparr>;
                       d3 = (if committed_size then d2\<lparr>size_dirty := False\<rparr> else d2)
                   in d3\<lparr>dm_writeback := if data_dirty d3 then Dirty else Clean, last_error := None\<rparr>)
                else d\<lparr>dm_writeback := Dirty\<rparr>)
      in (d', data_dirty d'))"

definition fail_writeback :: "PageCacheDirtyModel \<Rightarrow> SysErrNo \<Rightarrow> PageCacheDirtyModel" where
  "fail_writeback d err = d\<lparr>last_error := Some err, dm_writeback := if data_dirty d then Dirty else Clean\<rparr>"

text \<open>The search of \<open>mark_dirty_range\<close>: ranges that touch the new one are removed and absorbed.\<close>

fun absorb :: "DirtyRange \<Rightarrow> DirtyRange list \<Rightarrow> DirtyRange list" where
  "absorb new [] = [new]"
| "absorb new (r # rs) =
     (if dr_end new < dr_start r then new # r # rs
      else if dr_start new > dr_end r then r # absorb new rs
      else absorb \<lparr>dr_start = min (dr_start new) (dr_start r), dr_end = max (dr_end new) (dr_end r)\<rparr> rs)"

definition mark_dirty :: "usize \<Rightarrow> PageCacheDirtyModel \<Rightarrow> usize \<Rightarrow> usize \<Rightarrow> PageCacheDirtyModel" where
  "mark_dirty sz d start fin =
     (if start \<ge> fin then d
      else
        (let new = \<lparr>dr_start = start, dr_end = min fin sz\<rparr>
         in if dr_start new \<ge> dr_end new then d
            else if dm_ranges d \<noteq> [] \<and> dr_start new \<ge> dr_start (last (dm_ranges d)) \<and> dr_end new \<le> dr_end (last (dm_ranges d)) then d
            else if dm_ranges d \<noteq> [] \<and> dr_start new \<ge> dr_start (last (dm_ranges d)) \<and> dr_start new \<le> dr_end (last (dm_ranges d))
            then d\<lparr>dm_ranges := butlast (dm_ranges d)
                     @ [(last (dm_ranges d))\<lparr>dr_end := max (dr_end (last (dm_ranges d))) (dr_end new)\<rparr>]\<rparr>
            else refresh_writeback_state (d\<lparr>dm_ranges := absorb new (dm_ranges d)\<rparr>)))"

definition clip_ranges :: "usize \<Rightarrow> DirtyRange list \<Rightarrow> DirtyRange list" where
  "clip_ranges len rs =
     concat (map (\<lambda>r. if dr_start r < min (dr_end r) len then [\<lparr>dr_start = dr_start r, dr_end = min (dr_end r) len\<rparr>] else []) rs)"

definition clip_dirty :: "PageCacheDirtyModel \<Rightarrow> usize \<Rightarrow> PageCacheDirtyModel" where
  "clip_dirty d len = refresh_writeback_state (d\<lparr>dm_ranges := clip_ranges len (dm_ranges d)\<rparr>)"

section \<open>What the ranges denote\<close>

definition range_bytes :: "DirtyRange \<Rightarrow> nat set" where
  "range_bytes r = {dr_start r..<dr_end r}"

definition dirty_bytes :: "DirtyRange list \<Rightarrow> nat set" where
  "dirty_bytes rs = (\<Union>r \<in> set rs. range_bytes r)"

definition ranges_ok :: "DirtyRange list \<Rightarrow> bool" where
  "ranges_ok rs \<longleftrightarrow> (\<forall>r \<in> set rs. dr_start r < dr_end r) \<and> sorted_wrt (\<lambda>a b. dr_end a < dr_start b) rs"

lemma dirty_bytes_simps [simp]:
  "dirty_bytes [] = {}" "dirty_bytes (r # rs) = range_bytes r \<union> dirty_bytes rs" "dirty_bytes (xs @ ys) = dirty_bytes xs \<union> dirty_bytes ys"
  by (auto simp: dirty_bytes_def)

lemma ranges_ok_simps [simp]:
  "ranges_ok []" "ranges_ok (r # rs) \<longleftrightarrow> dr_start r < dr_end r \<and> (\<forall>x \<in> set rs. dr_end r < dr_start x) \<and> ranges_ok rs"
  by (auto simp: ranges_ok_def)

lemma ranges_ok_append:
  "ranges_ok (xs @ ys) \<longleftrightarrow> ranges_ok xs \<and> ranges_ok ys \<and> (\<forall>x \<in> set xs. \<forall>y \<in> set ys. dr_end x < dr_start y)"
  by (auto simp: ranges_ok_def sorted_wrt_append)

lemma absorb_correct:
  "ranges_ok rs \<Longrightarrow> dr_start new < dr_end new \<Longrightarrow>
   ranges_ok (absorb new rs) \<and> dirty_bytes (absorb new rs) = range_bytes new \<union> dirty_bytes rs
   \<and> (\<forall>x \<in> set (absorb new rs). \<forall>b. b < dr_start new \<and> (\<forall>r \<in> set rs. b < dr_start r) \<longrightarrow> b < dr_start x)"
proof (induction new rs rule: absorb.induct)
  case (2 new r rs)
  consider "dr_end new < dr_start r" | "\<not> dr_end new < dr_start r" "dr_start new > dr_end r" |
    "\<not> dr_end new < dr_start r" "\<not> dr_start new > dr_end r" by blast
  then show ?case
  proof cases
    case 1
    then show ?thesis using 2(3,4) by force
  next
    case 2
    then show ?thesis using "2.IH"(1) "2.prems" by auto
  next
    case 3
    let ?new = "\<lparr>dr_start = min (dr_start new) (dr_start r), dr_end = max (dr_end new) (dr_end r)\<rparr>"
    have eq: "range_bytes ?new = range_bytes new \<union> range_bytes r" using 3 "2.prems" by (auto simp: range_bytes_def)
    have ab: "absorb new (r # rs) = absorb ?new rs" using 3 by simp
    have ok: "ranges_ok rs" "dr_start ?new < dr_end ?new" using "2.prems" by auto
    note J = "2.IH"(2) [OF 3 ok]
    note I1 = conjunct1 [OF J] and I2 = conjunct1 [OF conjunct2 [OF J]] and I3 = conjunct2 [OF conjunct2 [OF J]]
    have "b < dr_start x" if h: "x \<in> set (absorb ?new rs)" "b < dr_start new" "\<forall>y \<in> set (r # rs). b < dr_start y" for x b
    proof -
      have "b < dr_start ?new \<and> (\<forall>r \<in> set rs. b < dr_start r)" using h(2,3) by simp
      then show ?thesis using I3 h(1) by blast
    qed
    moreover have "dirty_bytes (absorb ?new rs) = range_bytes new \<union> dirty_bytes (r # rs)" unfolding I2 eq by auto
    ultimately show ?thesis unfolding ab using I1 by blast
  qed
qed simp

lemma mark_dirty_correct:
  assumes "ranges_ok (dm_ranges d)"
  shows "ranges_ok (dm_ranges (mark_dirty sz d s e))"
    and "dirty_bytes (dm_ranges (mark_dirty sz d s e)) = dirty_bytes (dm_ranges d) \<union> {s..<min e sz}"
proof -
  let ?rs = "dm_ranges d" and ?new = "\<lparr>dr_start = s, dr_end = min e sz\<rparr>"
  have R: "dm_ranges (refresh_writeback_state x) = dm_ranges x" for x by (simp add: refresh_writeback_state_def)
  have main: "ranges_ok (dm_ranges (mark_dirty sz d s e))
    \<and> dirty_bytes (dm_ranges (mark_dirty sz d s e)) = dirty_bytes ?rs \<union> {s..<min e sz}"
  proof (cases "s < min e sz")
    case False
    then show ?thesis using assms by (auto simp: mark_dirty_def Let_def)
  next
    case True
    note A = absorb_correct [OF assms, of ?new]
    show ?thesis
    proof (cases "?rs = []")
      case True
      then show ?thesis using \<open>s < min e sz\<close> by (auto simp: mark_dirty_def Let_def R range_bytes_def)
    next
      case False
      define l where "l = last ?rs"
      define b where "b = butlast ?rs"
      have rs: "?rs = b @ [l]" using False by (simp add: l_def b_def)
      have db: "dirty_bytes ?rs = dirty_bytes b \<union> range_bytes l" unfolding rs by simp
      have lok: "dr_start l < dr_end l" "\<forall>x \<in> set b. dr_end x < dr_start l" "ranges_ok b" using assms unfolding rs by (auto simp: ranges_ok_append)
      consider "s \<ge> dr_start l" "min e sz \<le> dr_end l" | "s \<ge> dr_start l" "s \<le> dr_end l" "\<not> min e sz \<le> dr_end l"
        | "\<not> (s \<ge> dr_start l \<and> min e sz \<le> dr_end l)" "\<not> (s \<ge> dr_start l \<and> s \<le> dr_end l)" by blast
      then show ?thesis
      proof cases
        case 1
        then have "mark_dirty sz d s e = d" using True False by (simp add: mark_dirty_def Let_def l_def)
        then show ?thesis using 1 assms by (auto simp: range_bytes_def db)
      next
        case 2
        then have "dm_ranges (mark_dirty sz d s e) = b @ [l\<lparr>dr_end := max (dr_end l) (min e sz)\<rparr>]"
          using True False by (simp add: mark_dirty_def Let_def l_def b_def)
        then show ?thesis using 2 lok True by (auto simp: ranges_ok_append range_bytes_def db)
      next
        case 3
        then have "dm_ranges (mark_dirty sz d s e) = absorb ?new ?rs"
          using True False by (auto simp: mark_dirty_def Let_def l_def R)
        then show ?thesis using A True by (auto simp: range_bytes_def)
      qed
    qed
  qed
  show "ranges_ok (dm_ranges (mark_dirty sz d s e))"
    and "dirty_bytes (dm_ranges (mark_dirty sz d s e)) = dirty_bytes ?rs \<union> {s..<min e sz}" using main by auto
qed

lemma remaining_correct:
  "ranges_ok rs \<Longrightarrow> dr_start c < dr_end c \<Longrightarrow>
   ranges_ok (remaining_ranges c rs) \<and> dirty_bytes (remaining_ranges c rs) = dirty_bytes rs - range_bytes c
   \<and> (\<forall>x \<in> set (remaining_ranges c rs). \<exists>r \<in> set rs. dr_start r \<le> dr_start x \<and> dr_end x \<le> dr_end r)"
proof (induction rs)
  case (Cons r rs)
  then have IH: "ranges_ok (remaining_ranges c rs)" "dirty_bytes (remaining_ranges c rs) = dirty_bytes rs - range_bytes c"
      "\<forall>x \<in> set (remaining_ranges c rs). \<exists>r \<in> set rs. dr_start r \<le> dr_start x \<and> dr_end x \<le> dr_end r" by auto
  have gap: "\<forall>x \<in> set (remaining_ranges c rs). dr_end r < dr_start x" using IH(3) Cons.prems by fastforce
  define p where "p = (if dr_end r \<le> dr_start c \<or> dr_start r \<ge> dr_end c then [r]
      else (if dr_start r < dr_start c then [\<lparr>dr_start = dr_start r, dr_end = dr_start c\<rparr>] else [])
           @ (if dr_end c < dr_end r then [\<lparr>dr_start = dr_end c, dr_end = dr_end r\<rparr>] else []))"
  have rr: "remaining_ranges c (r # rs) = p @ remaining_ranges c rs" by (simp add: p_def)
  have p: "ranges_ok p" "dirty_bytes p = range_bytes r - range_bytes c" "\<forall>x \<in> set p. dr_start r \<le> dr_start x \<and> dr_end x \<le> dr_end r"
    using Cons.prems by (auto simp: p_def range_bytes_def)
  have "ranges_ok (p @ remaining_ranges c rs)" using p IH(1) gap unfolding ranges_ok_append by fastforce
  then show ?case unfolding rr using p IH(2,3) by auto
qed simp

lemma clip_correct:
  assumes "ranges_ok rs"
  shows "ranges_ok (clip_ranges len rs)" "dirty_bytes (clip_ranges len rs) = dirty_bytes rs \<inter> {..<len}"
proof -
  have "ranges_ok (clip_ranges len rs) \<and> dirty_bytes (clip_ranges len rs) = dirty_bytes rs \<inter> {..<len}
    \<and> (\<forall>x \<in> set (clip_ranges len rs). \<exists>r \<in> set rs. dr_start r = dr_start x)"
    using assms by (induction rs) (auto simp: clip_ranges_def range_bytes_def)
  then show "ranges_ok (clip_ranges len rs)" "dirty_bytes (clip_ranges len rs) = dirty_bytes rs \<inter> {..<len}" by auto
qed

section \<open>The queue hands out what is queued\<close>

inductive wq_reachable :: "WritebackQueue \<Rightarrow> bool" where
  New: "wq_reachable wq_new"
| Push: "wq_reachable q \<Longrightarrow> wq_reachable (wq_push q ino)"
| Pop: "wq_reachable q \<Longrightarrow> wq_reachable (fst (wq_pop q))"
| Remove: "wq_reachable q \<Longrightarrow> wq_reachable (wq_remove q ino)"
| Clear: "wq_reachable q \<Longrightarrow> wq_reachable (wq_clear q)"

lemma wq_pop_loop_spec:
  "wq_pop_loop p s = (p', s', r) \<Longrightarrow>
   (case r of None \<Rightarrow> s' = s \<and> set p \<inter> s = {} \<and> p' = []
    | Some ino \<Rightarrow> ino \<in> s \<and> s' = s - {ino} \<and> (\<exists>skipped. p = skipped @ ino # p' \<and> set skipped \<inter> s = {}))"
proof (induction p s rule: wq_pop_loop.induct)
  case (2 ino rest queued)
  then show ?case
  proof (cases "ino \<in> queued")
    case False
    then have IH: "case r of None \<Rightarrow> s' = queued \<and> set rest \<inter> queued = {} \<and> p' = []
      | Some i \<Rightarrow> i \<in> queued \<and> s' = queued - {i} \<and> (\<exists>skipped. rest = skipped @ i # p' \<and> set skipped \<inter> queued = {})"
      using 2 by simp
    show ?thesis
    proof (cases r)
      case (Some i)
      then obtain skipped where "rest = skipped @ i # p'" "set skipped \<inter> queued = {}" using IH by auto
      then have "ino # rest = (ino # skipped) @ i # p' \<and> set (ino # skipped) \<inter> queued = {}" using False by simp
      then show ?thesis using IH Some by auto
    qed (use IH False in auto)
  qed auto
qed auto

lemma wq_queued_pending: "wq_reachable q \<Longrightarrow> wq_queued q \<subseteq> set (wq_pending q)"
proof (induction rule: wq_reachable.induct)
  case (Pop q)
  obtain p s r where l: "wq_pop_loop (wq_pending q) (wq_queued q) = (p, s, r)" by (cases "wq_pop_loop (wq_pending q) (wq_queued q)")
  show ?case
  proof (cases r)
    case (Some a)
    then obtain skipped where "s = wq_queued q - {a}" "wq_pending q = skipped @ a # p" "set skipped \<inter> wq_queued q = {}"
      using wq_pop_loop_spec [OF l] by auto
    then have "s \<subseteq> set p" using Pop.IH by auto
    then show ?thesis using l by (simp add: wq_pop_def)
  qed (use wq_pop_loop_spec [OF l] Pop.IH l in \<open>auto simp: wq_pop_def\<close>)
qed (auto simp: wq_new_def wq_push_def wq_remove_def wq_clear_def)

text \<open>Over any sequence of pushes, pops, removals and clears, \<open>pop\<close> returns an inode exactly when one is queued; the inode
  it returns is the first of the deque that is queued and the only one taken out. No queued inode is
  forgotten, although removed inodes stay in the deque.\<close>

theorem writeback_queue_exact:
  assumes "wq_reachable q" and "wq_pop q = (q', r)"
  shows "(r \<noteq> None \<longleftrightarrow> wq_has_work q) \<and> (r = None \<longrightarrow> wq_queued q' = wq_queued q)
    \<and> (\<forall>ino. r = Some ino \<longrightarrow> ino \<in> wq_queued q \<and> wq_queued q' = wq_queued q - {ino}
         \<and> (\<exists>skipped. wq_pending q = skipped @ ino # wq_pending q' \<and> set skipped \<inter> wq_queued q = {}))"
proof -
  obtain p s where l: "wq_pop_loop (wq_pending q) (wq_queued q) = (p, s, r)" and q': "q' = q\<lparr>wq_pending := p, wq_queued := s\<rparr>"
    using assms(2) by (auto simp: wq_pop_def split: prod.splits)
  show ?thesis using wq_pop_loop_spec [OF l] wq_queued_pending [OF assms(1)] by (cases r) (auto simp: q' wq_has_work_def)
qed

theorem writeback_queue_exact_witness:
  "wq_pop (wq_push (wq_push (wq_remove (wq_push wq_new 7) 7) 8) 7) = (\<lparr>wq_pending = [8, 7], wq_queued = {8}\<rparr>, Some 7)
   \<and> wq_has_work (wq_push (wq_push (wq_remove (wq_push wq_new 7) 7) 8) 7)"
proof -
  let ?q = "wq_push (wq_push (wq_remove (wq_push wq_new 7) 7) 8) 7"
  have r: "wq_reachable ?q" by (intro wq_reachable.intros)
  have p: "wq_pop ?q = (\<lparr>wq_pending = [8, 7], wq_queued = {8}\<rparr>, Some 7)"
    by (simp add: wq_pop_def wq_push_def wq_remove_def wq_new_def)
  show ?thesis using writeback_queue_exact [OF r p] p by auto
qed

text \<open>Finding: \<open>remove\<close> leaves the inode in the deque and a later \<open>push\<close> appends it again, so every turn of
  scheduling an inode and cancelling it (a write to a large file followed by a flush) makes the deque one entry longer; only \<open>pop\<close> and
  \<open>clear\<close> shorten it, and nothing starts the worker that pops.\<close>

theorem writeback_queue_grows:
  "wq_pending (((\<lambda>q. wq_remove (wq_push q ino) ino) ^^ n) wq_new) = replicate n ino
   \<and> wq_queued (((\<lambda>q. wq_remove (wq_push q ino) ino) ^^ n) wq_new) = {}"
  by (induction n) (auto simp: wq_new_def wq_push_def wq_remove_def replicate_append_same)

end
