(* ===== verification/File_Cache.thy ===== *)
theory File_Cache
  imports Writeback Mem_File
begin

text \<open>
  The whole-file cache of \<open>os/src/fs/ext4_vol.rs\<close>: \<open>CachedRegularFile\<close>, which holds a file
  densely up to 8 MiB and as a sparse map of pages above, its reads, writes and resizes, and the
  write-back of its dirty bytes in clusters (\<open>take_writeback_snapshot\<close>,
  \<open>apply_writeback_snapshot\<close>, \<open>finish_writeback_snapshot\<close>, \<open>flush_cached_ino\<close>).

  The frame of a cached page is never handed out, so a page is its bytes. The ext4 library is the
  argument \<open>x\<close> (a record of its operations), the frame allocator the argument \<open>fa\<close>; the
  invalidations of the other caches are the events of \<open>v_events\<close>. Every operation that holds the
  lock of the cache entry, and \<open>apply_writeback_snapshot\<close> under the mutation lock, is one step.
\<close>

section \<open>The libraries the cache stands on\<close>

type_synonym u32 = "32 word"
type_synonym file_times = "u32 \<times> u32 \<times> u32 \<times> u32"

text \<open>Operations of \<open>ext4_rs\<close>: the size and kind of an inode, the extent found for a logical
  block (first block, length, physical block), a block of the device, and the mutations, whose
  errors are already translated by \<open>map_ext4_err\<close>.\<close>

record 'd ext4_ops =
  x_size :: "'d \<Rightarrow> usize \<Rightarrow> usize"
  x_is_file :: "'d \<Rightarrow> usize \<Rightarrow> bool"
  x_times :: "'d \<Rightarrow> usize \<Rightarrow> file_times"
  x_extent :: "'d \<Rightarrow> usize \<Rightarrow> usize \<Rightarrow> (usize \<times> usize \<times> usize) option"
  x_read_offset :: "'d \<Rightarrow> usize \<Rightarrow> byte list"
  x_write_at :: "'d \<Rightarrow> usize \<Rightarrow> usize \<Rightarrow> byte list \<Rightarrow> 'd \<times> (SysErrNo + usize)"
  x_truncate :: "'d \<Rightarrow> usize \<Rightarrow> usize \<Rightarrow> 'd \<times> (SysErrNo + unit)"
  x_set_size :: "'d \<Rightarrow> usize \<Rightarrow> usize \<Rightarrow> 'd"
  x_set_times :: "'d \<Rightarrow> usize \<Rightarrow> file_times \<Rightarrow> 'd"
  x_release :: "'d \<Rightarrow> usize \<Rightarrow> u32 \<Rightarrow> 'd"

text \<open>\<open>alloc_frame\<close> (a zeroed frame or none) and the release of a number of frames.\<close>

record 'm frame_ops =
  f_alloc :: "'m \<Rightarrow> 'm \<times> bool"
  f_free :: "nat \<Rightarrow> 'm \<Rightarrow> 'm"

section \<open>State\<close>

definition BLOCK_SIZE :: usize where "BLOCK_SIZE = 4096"
definition U32_MAX :: usize where "U32_MAX = 2 ^ 32 - 1"
definition DENSE_REGULAR_CACHE_LIMIT :: usize where "DENSE_REGULAR_CACHE_LIMIT = 8 * 1024 * 1024"
definition ASYNC_WRITEBACK_MIN_FILE :: usize where "ASYNC_WRITEBACK_MIN_FILE = 256 * 1024"
definition WRITEBACK_CLUSTER_BYTES :: usize where "WRITEBACK_CLUSTER_BYTES = 256 * 1024"

lemma block_size_pos [simp]: "0 < BLOCK_SIZE" "BLOCK_SIZE \<noteq> 0"
  by (simp_all add: BLOCK_SIZE_def)

lemma cluster_pos [simp]: "0 < WRITEBACK_CLUSTER_BYTES"
  by (simp add: WRITEBACK_CLUSTER_BYTES_def)

record CachedRegularFile =
  cf_dense :: "byte list option"
  cf_pages :: "byte list btree"
  cf_size :: usize
  persisted_size :: usize
  truncate_to :: "usize option"
  cf_dirty :: PageCacheDirtyModel
  cf_times :: file_times
  cf_evicted :: bool

definition cached_file_new :: "usize \<Rightarrow> usize \<Rightarrow> byte list option \<Rightarrow> PageCacheDirtyModel \<Rightarrow> file_times \<Rightarrow> CachedRegularFile" where
  "cached_file_new sz persisted dense dirty tm =
     \<lparr>cf_dense = dense, cf_pages = [], cf_size = sz, persisted_size = persisted, truncate_to = None,
      cf_dirty = dirty, cf_times = tm, cf_evicted = False\<rparr>"

definition cf_is_dirty :: "CachedRegularFile \<Rightarrow> bool" where
  "cf_is_dirty c \<longleftrightarrow> \<not> cf_evicted c \<and> data_dirty (cf_dirty c)"

record WritebackSnapshot =
  s_ino :: usize
  target_len :: usize
  s_truncate_to :: "usize option"
  s_range :: "DirtyRange option"
  s_data :: "byte list"
  commit_size :: bool
  dirty_seq :: "64 word"
  s_times :: file_times

datatype WritebackSnapshotResult = NoCache | CleanCache | Failed SysErrNo | Busy | Snapshot WritebackSnapshot

datatype cache_event =
    InvalidateImage usize
  | InvalidateCleanIno usize
  | InvalidateCleanRange usize usize usize
  | InvalidatePblocks usize
  | InvalidateMetadata usize
  | WakeWritebackWaiters
  | ClearCleanPages
  | ClearPblocks

record ('d, 'm) volume =
  v_root :: "'d option"
  v_cache :: "CachedRegularFile btree"
  v_queue :: WritebackQueue
  v_times :: "file_times btree"
  v_refs :: "usize btree"
  v_unlinked :: "usize set"
  v_mem :: 'm
  v_events :: "cache_event list"

definition emit :: "cache_event list \<Rightarrow> ('d, 'm) volume \<Rightarrow> ('d, 'm) volume" where
  "emit es v = v\<lparr>v_events := v_events v @ es\<rparr>"

section \<open>Reading the device\<close>

definition extent_pblock_for_read :: "'d ext4_ops \<Rightarrow> 'd \<Rightarrow> usize \<Rightarrow> usize \<Rightarrow> usize option" where
  "extent_pblock_for_read x d ino lblock =
     (if \<not> x_is_file x d ino then None
      else case x_extent x d ino lblock of
             None \<Rightarrow> None
           | Some (first, len, pblock) \<Rightarrow>
               if len = 0 \<or> lblock < first \<or> min (first + len) U32_MAX \<le> lblock then None
               else Some (lblock - first + pblock))"

lemma part_progress:
  fixes left :: nat
  assumes "0 < left" and "0 < unit_size"
  shows "left - min left (unit_size - current mod unit_size) < left"
  using assms mod_less_divisor [OF assms(2), of current] by linarith

lemma copied_progress:
  fixes n :: nat
  assumes "copied < n" and "0 < unit_size"
  shows "n - (copied + min (n - copied) (unit_size - current mod unit_size)) < n - copied"
  using assms mod_less_divisor [OF assms(2), of current] by linarith

text \<open>The loop of \<open>extent_aware_read_at\<close> from byte \<open>current\<close> with \<open>left\<close> bytes to go: the bytes put
  into the buffer, which was filled with zeros before.\<close>

function extent_read_loop :: "'d ext4_ops \<Rightarrow> 'd \<Rightarrow> usize \<Rightarrow> usize \<Rightarrow> usize \<Rightarrow> SysErrNo + byte list" where
  "extent_read_loop x d ino current left =
     (if left = 0 then Inr []
      else
        (let block_off = current mod BLOCK_SIZE;
             lblock = current div BLOCK_SIZE;
             n = min left (BLOCK_SIZE - block_off)
         in if U32_MAX < lblock then Inl EFBIG
            else case (case extent_pblock_for_read x d ino lblock of
                         None \<Rightarrow> Inr (replicate n 0)
                       | Some pblock \<Rightarrow>
                           if usize_max div BLOCK_SIZE < pblock then Inl EFBIG
                           else (let block = x_read_offset x d (pblock * BLOCK_SIZE)
                                 in if length block < block_off + n then Inl EIO
                                    else Inr (take n (drop block_off block)))) of
                   Inl e \<Rightarrow> Inl e
                 | Inr part \<Rightarrow>
                     (case extent_read_loop x d ino (current + n) (left - n) of
                        Inl e \<Rightarrow> Inl e
                      | Inr rest \<Rightarrow> Inr (part @ rest))))"
  by auto
termination
  by (relation "measure (\<lambda>(_, _, _, _, left). left)") (auto simp: part_progress)

declare extent_read_loop.simps [simp del]

text \<open>The bytes read into a buffer of \<open>len\<close> bytes; the result's length is the count returned.\<close>

definition extent_aware_read_at :: "'d ext4_ops \<Rightarrow> 'd option \<Rightarrow> usize \<Rightarrow> usize \<Rightarrow> usize \<Rightarrow> SysErrNo + byte list" where
  "extent_aware_read_at x root ino offset len =
     (if len = 0 then Inr []
      else case root of
             None \<Rightarrow> Inl ENOENT
           | Some d \<Rightarrow>
               if \<not> x_is_file x d ino then Inl EINVAL
               else if x_size x d ino \<le> offset then Inr []
               else extent_read_loop x d ino offset (min len (x_size x d ino - offset)))"

section \<open>Reading and writing a cached file\<close>

definition slice_get :: "'a list \<Rightarrow> usize \<Rightarrow> usize \<Rightarrow> 'a list option" where
  "slice_get xs a b = (if a \<le> b \<and> b \<le> length xs then Some (take (b - a) (drop a xs)) else None)"

function copy_pages_loop :: "'d ext4_ops \<Rightarrow> 'd option \<Rightarrow> usize \<Rightarrow> CachedRegularFile \<Rightarrow> usize \<Rightarrow> usize \<Rightarrow> SysErrNo + byte list" where
  "copy_pages_loop x root ino c current left =
     (if left = 0 then Inr []
      else
        (let page_idx = current div PAGE_SIZE;
             page_off = current mod PAGE_SIZE;
             cnt = min left (PAGE_SIZE - page_off)
         in case (case bt_get page_idx (cf_pages c) of
                    Some page \<Rightarrow> Inr (take cnt (drop page_off page))
                  | None \<Rightarrow>
                      if current < persisted_size c
                      then (let disk_count = min cnt (persisted_size c - current)
                            in case extent_aware_read_at x root ino current disk_count of
                                 Inl e \<Rightarrow> Inl e
                               | Inr bs \<Rightarrow> if length bs \<noteq> disk_count then Inl EIO
                                           else Inr (bs @ replicate (cnt - disk_count) 0))
                      else Inr (replicate cnt 0)) of
              Inl e \<Rightarrow> Inl e
            | Inr part \<Rightarrow>
                (case copy_pages_loop x root ino c (current + cnt) (left - cnt) of
                   Inl e \<Rightarrow> Inl e
                 | Inr rest \<Rightarrow> Inr (part @ rest))))"
  by auto
termination
  by (relation "measure (\<lambda>(_, _, _, _, _, left). left)") (auto simp: part_progress)

declare copy_pages_loop.simps [simp del]

definition copy_cached_range :: "'d ext4_ops \<Rightarrow> 'd option \<Rightarrow> usize \<Rightarrow> CachedRegularFile \<Rightarrow> usize \<Rightarrow> usize \<Rightarrow> SysErrNo + byte list" where
  "copy_cached_range x root ino c start len =
     (case cf_dense c of
        Some dense \<Rightarrow>
          (case checked_add start len of
             None \<Rightarrow> Inl EFBIG
           | Some fin \<Rightarrow> (case slice_get dense start fin of None \<Rightarrow> Inl EIO | Some bs \<Rightarrow> Inr bs))
      | None \<Rightarrow> copy_pages_loop x root ino c start len)"

text \<open>\<open>dense.chunks(PAGE_SIZE)\<close>, each chunk copied to the front of a zeroed frame. On a failed
  allocation the frames taken so far are released.\<close>

function promote_loop :: "'m frame_ops \<Rightarrow> byte list \<Rightarrow> usize \<Rightarrow> byte list btree \<Rightarrow> 'm \<Rightarrow> 'm \<times> byte list btree option" where
  "promote_loop fa dense page_idx pages m =
     (if dense = [] then (m, Some pages)
      else case f_alloc fa m of
             (m', False) \<Rightarrow> (f_free fa (length pages) m', None)
           | (m', True) \<Rightarrow>
               promote_loop fa (drop PAGE_SIZE dense) (page_idx + 1)
                 (pages @ [(page_idx, take PAGE_SIZE dense @ replicate (PAGE_SIZE - length dense) 0)]) m')"
  by auto
termination
  by (relation "measure (\<lambda>(_, dense, _). length dense)") auto

declare promote_loop.simps [simp del]

definition promote_dense_regular_cache ::
  "'m frame_ops \<Rightarrow> CachedRegularFile \<Rightarrow> 'm \<Rightarrow> CachedRegularFile \<times> 'm \<times> (SysErrNo + unit)" where
  "promote_dense_regular_cache fa c m =
     (case cf_dense c of
        None \<Rightarrow> (c, m, Inr ())
      | Some dense \<Rightarrow>
          (case promote_loop fa dense 0 [] m of
             (m', None) \<Rightarrow> (c, m', Inl ENOMEM)
           | (m', Some pages) \<Rightarrow> (c\<lparr>cf_pages := pages, cf_dense := None\<rparr>, m', Inr ())))"

text \<open>The page to write into, put into the map if it was absent.\<close>

definition cached_page_for_write ::
  "'d ext4_ops \<Rightarrow> 'm frame_ops \<Rightarrow> 'd option \<Rightarrow> usize \<Rightarrow> CachedRegularFile \<Rightarrow> 'm \<Rightarrow> usize \<Rightarrow> bool
   \<Rightarrow> CachedRegularFile \<times> 'm \<times> (SysErrNo + byte list)" where
  "cached_page_for_write x fa root ino c m page_idx preserve =
     (case bt_get page_idx (cf_pages c) of
        Some page \<Rightarrow> (c, m, Inr page)
      | None \<Rightarrow>
          (case f_alloc fa m of
             (m', False) \<Rightarrow> (c, m', Inl ENOMEM)
           | (m', True) \<Rightarrow>
               (case (if \<not> preserve then Inr (replicate PAGE_SIZE 0)
                      else if usize_max < page_idx * PAGE_SIZE then Inl EFBIG
                      else if page_idx * PAGE_SIZE < persisted_size c
                      then (let read_len = min PAGE_SIZE (persisted_size c - page_idx * PAGE_SIZE)
                            in case extent_aware_read_at x root ino (page_idx * PAGE_SIZE) read_len of
                                 Inl e \<Rightarrow> Inl e
                               | Inr bs \<Rightarrow> if length bs \<noteq> read_len then Inl EIO
                                           else Inr (bs @ replicate (PAGE_SIZE - read_len) 0))
                      else Inr (replicate PAGE_SIZE 0)) of
                  Inl e \<Rightarrow> (c, f_free fa 1 m', Inl e)
                | Inr page \<Rightarrow> (c\<lparr>cf_pages := bt_insert page_idx page (cf_pages c)\<rparr>, m', Inr page))))"

text \<open>The page loop of \<open>cached_regular_write\<close>; the result is an error or the bytes copied.\<close>

function write_pages_loop ::
  "'d ext4_ops \<Rightarrow> 'm frame_ops \<Rightarrow> 'd option \<Rightarrow> usize \<Rightarrow> usize \<Rightarrow> byte list \<Rightarrow> usize \<Rightarrow> CachedRegularFile \<Rightarrow> 'm
   \<Rightarrow> CachedRegularFile \<times> 'm \<times> (SysErrNo + usize)" where
  "write_pages_loop x fa root ino offset buf copied c m =
     (if copied < length buf then
        (let current = offset + copied;
             page_idx = current div PAGE_SIZE;
             page_off = current mod PAGE_SIZE;
             cnt = min (length buf - copied) (PAGE_SIZE - page_off);
             preserve = (page_off \<noteq> 0 \<or> cnt \<noteq> PAGE_SIZE)
         in case cached_page_for_write x fa root ino c m page_idx preserve of
              (c', m', Inl e) \<Rightarrow> (c', m', if copied = 0 then Inl e else Inr copied)
            | (c', m', Inr page) \<Rightarrow>
                write_pages_loop x fa root ino offset buf (copied + cnt)
                  (c'\<lparr>cf_pages := bt_insert page_idx (splice_at page page_off (take cnt (drop copied buf))) (cf_pages c')\<rparr>) m')
      else (c, m, Inr copied))"
  by auto
termination
  by (relation "measure (\<lambda>(_, _, _, _, _, buf, copied, _). length buf - copied)")
     (auto simp: Let_def intro!: copied_progress)

declare write_pages_loop.simps [simp del]

section \<open>The cache entries\<close>

definition regular_cache_entry :: "usize \<Rightarrow> ('d, 'm) volume \<Rightarrow> CachedRegularFile option" where
  "regular_cache_entry ino v = bt_get ino (v_cache v)"

text \<open>A live entry: present and not evicted.\<close>

definition live_entry :: "usize \<Rightarrow> ('d, 'm) volume \<Rightarrow> CachedRegularFile option" where
  "live_entry ino v = (case regular_cache_entry ino v of Some c \<Rightarrow> if cf_evicted c then None else Some c | None \<Rightarrow> None)"

definition put_entry :: "usize \<Rightarrow> CachedRegularFile \<Rightarrow> ('d, 'm) volume \<Rightarrow> ('d, 'm) volume" where
  "put_entry ino c v = v\<lparr>v_cache := bt_insert ino c (v_cache v)\<rparr>"

definition is_regular_cached :: "usize \<Rightarrow> ('d, 'm) volume \<Rightarrow> bool" where
  "is_regular_cached ino v \<longleftrightarrow> regular_cache_entry ino v \<noteq> None"

definition is_regular_cache_dirty :: "usize \<Rightarrow> ('d, 'm) volume \<Rightarrow> bool" where
  "is_regular_cache_dirty ino v = (case regular_cache_entry ino v of None \<Rightarrow> False | Some c \<Rightarrow> cf_is_dirty c)"

definition queue_writeback_ino :: "usize \<Rightarrow> ('d, 'm) volume \<Rightarrow> ('d, 'm) volume" where
  "queue_writeback_ino ino v = emit [WakeWritebackWaiters] (v\<lparr>v_queue := wq_push (v_queue v) ino\<rparr>)"

definition cancel_queued_writeback :: "usize \<Rightarrow> ('d, 'm) volume \<Rightarrow> ('d, 'm) volume" where
  "cancel_queued_writeback ino v = v\<lparr>v_queue := wq_remove (v_queue v) ino\<rparr>"

definition cached_file_async_writeback_ok :: "CachedRegularFile \<Rightarrow> bool" where
  "cached_file_async_writeback_ok c \<longleftrightarrow> ASYNC_WRITEBACK_MIN_FILE \<le> cf_size c"

definition schedule_cached_writeback_if_ready :: "usize \<Rightarrow> ('d, 'm) volume \<Rightarrow> ('d, 'm) volume" where
  "schedule_cached_writeback_if_ready ino v =
     (case regular_cache_entry ino v of
        None \<Rightarrow> v
      | Some c \<Rightarrow>
          if \<not> cf_is_dirty c \<or> writeback_active (cf_dirty c) \<or> \<not> cached_file_async_writeback_ok c then v
          else queue_writeback_ino ino (put_entry ino (c\<lparr>cf_dirty := note_queued (cf_dirty c)\<rparr>) v))"

definition note_cached_data_write :: "u32 \<Rightarrow> CachedRegularFile \<Rightarrow> CachedRegularFile" where
  "note_cached_data_write now c = c\<lparr>cf_dirty := note_write (cf_dirty c), cf_times := (now, 0, now, 0)\<rparr>"

definition mark_dirty_range :: "CachedRegularFile \<Rightarrow> usize \<Rightarrow> usize \<Rightarrow> CachedRegularFile" where
  "mark_dirty_range c start fin = c\<lparr>cf_dirty := mark_dirty (cf_size c) (cf_dirty c) start fin\<rparr>"

definition clip_dirty_ranges :: "CachedRegularFile \<Rightarrow> usize \<Rightarrow> CachedRegularFile" where
  "clip_dirty_ranges c len = c\<lparr>cf_dirty := clip_dirty (cf_dirty c) len\<rparr>"

function fill_dense_loop :: "'d ext4_ops \<Rightarrow> 'd option \<Rightarrow> usize \<Rightarrow> usize \<Rightarrow> usize \<Rightarrow> SysErrNo + byte list" where
  "fill_dense_loop x root ino sz offset =
     (if offset < sz then
        (case extent_aware_read_at x root ino offset (sz - offset) of
           Inl e \<Rightarrow> Inl e
         | Inr bs \<Rightarrow>
             if bs = [] then Inl EIO
             else (case fill_dense_loop x root ino sz (offset + length bs) of
                     Inl e \<Rightarrow> Inl e
                   | Inr rest \<Rightarrow> Inr (bs @ rest)))
      else Inr [])"
  by auto
termination
  by (relation "measure (\<lambda>(_, _, _, sz, offset). sz - offset)") (auto simp: diff_less_mono2)

declare fill_dense_loop.simps [simp del]

definition ensure_regular_cache :: "'d ext4_ops \<Rightarrow> usize \<Rightarrow> ('d, 'm) volume \<Rightarrow> ('d, 'm) volume \<times> (SysErrNo + bool)" where
  "ensure_regular_cache x ino v =
     (if regular_cache_entry ino v \<noteq> None then (v, Inr True)
      else case v_root v of
             None \<Rightarrow> (v, Inl ENOENT)
           | Some d \<Rightarrow>
               (let sz = x_size x d ino
                in case (if sz \<le> DENSE_REGULAR_CACHE_LIMIT
                         then (case fill_dense_loop x (v_root v) ino sz 0 of Inl e \<Rightarrow> Inl e | Inr bs \<Rightarrow> Inr (Some bs))
                         else Inr None) of
                     Inl e \<Rightarrow> (v, Inl e)
                   | Inr dense \<Rightarrow> (put_entry ino (cached_file_new sz sz dense dm_clean (x_times x d ino)) v, Inr True)))"

section \<open>Operations on a cached file\<close>

text \<open>The bytes read, or no cache.\<close>

definition cached_regular_read :: "'d ext4_ops \<Rightarrow> usize \<Rightarrow> usize \<Rightarrow> usize \<Rightarrow> ('d, 'm) volume \<Rightarrow> (SysErrNo + byte list) option" where
  "cached_regular_read x ino offset len v =
     map_option (\<lambda>c. if cf_size c \<le> offset then Inr []
                     else copy_cached_range x (v_root v) ino c offset (min len (cf_size c - offset))) (live_entry ino v)"

definition cached_regular_size :: "usize \<Rightarrow> ('d, 'm) volume \<Rightarrow> usize option" where
  "cached_regular_size ino v = map_option cf_size (live_entry ino v)"

definition cached_regular_snapshot :: "'d ext4_ops \<Rightarrow> usize \<Rightarrow> ('d, 'm) volume \<Rightarrow> byte list option" where
  "cached_regular_snapshot x ino v =
     (case live_entry ino v of
        None \<Rightarrow> None
      | Some c \<Rightarrow> (case copy_cached_range x (v_root v) ino c 0 (cf_size c) of Inl _ \<Rightarrow> None | Inr bs \<Rightarrow> Some bs))"

text \<open>The part of \<open>cached_regular_resize\<close> that shrinks the file: whole pages beyond the new end are
  released and the rest of the last page is cleared.\<close>

definition shrink_cached :: "'m frame_ops \<Rightarrow> CachedRegularFile \<Rightarrow> 'm \<Rightarrow> usize \<Rightarrow> CachedRegularFile \<times> 'm" where
  "shrink_cached fa c m new_len =
     (let c1 = c\<lparr>persisted_size := min (persisted_size c) new_len,
                 truncate_to := Some (case truncate_to c of None \<Rightarrow> new_len | Some pending \<Rightarrow> min pending new_len)\<rparr>
      in case cf_dense c of
           Some dense \<Rightarrow> (clip_dirty_ranges (c1\<lparr>cf_dense := Some (take new_len dense)\<rparr>) new_len, m)
         | None \<Rightarrow>
             (let first_removed = (new_len + PAGE_SIZE - 1) div PAGE_SIZE;
                  kept = filter (\<lambda>(i, _). i < first_removed) (cf_pages c);
                  idx = new_len div PAGE_SIZE;
                  pages = (if new_len mod PAGE_SIZE \<noteq> 0
                           then (case bt_get idx kept of
                                   Some page \<Rightarrow> bt_insert idx (take (new_len mod PAGE_SIZE) page
                                                  @ replicate (PAGE_SIZE - new_len mod PAGE_SIZE) 0) kept
                                 | None \<Rightarrow> kept)
                           else kept)
              in (clip_dirty_ranges (c1\<lparr>cf_pages := pages\<rparr>) new_len, f_free fa (length (cf_pages c) - length kept) m)))"

definition resize_cached :: "'m frame_ops \<Rightarrow> u32 \<Rightarrow> CachedRegularFile \<Rightarrow> 'm \<Rightarrow> usize \<Rightarrow> CachedRegularFile \<times> 'm \<times> (SysErrNo + unit)" where
  "resize_cached fa now c m new_len =
     (let old_len = cf_size c
      in case (if DENSE_REGULAR_CACHE_LIMIT < new_len \<and> cf_dense c \<noteq> None then promote_dense_regular_cache fa c m else (c, m, Inr ())) of
           (c1, m1, Inl e) \<Rightarrow> (c1, m1, Inl e)
         | (c1, m1, Inr _) \<Rightarrow>
             (case (if new_len < old_len then shrink_cached fa c1 m1 new_len
                    else if new_len > old_len
                    then (c1\<lparr>cf_dense := map_option (\<lambda>bs. vec_resize bs new_len 0) (cf_dense c1)\<rparr>, m1)
                    else (c1, m1)) of
                (c2, m2) \<Rightarrow>
                  (let c3 = c2\<lparr>cf_size := new_len\<rparr>;
                       c4 = (if new_len > old_len then mark_dirty_range c3 old_len new_len else c3);
                       c5 = c4\<lparr>cf_dirty := (cf_dirty c4)\<lparr>size_dirty := True\<rparr>\<rparr>
                   in (note_cached_data_write now c5, m2, Inr ()))))"

definition cached_regular_resize :: "'m frame_ops \<Rightarrow> u32 \<Rightarrow> usize \<Rightarrow> usize \<Rightarrow> ('d, 'm) volume \<Rightarrow> ('d, 'm) volume \<times> (SysErrNo + unit)" where
  "cached_regular_resize fa now ino new_len v =
     (let v1 = emit [InvalidateImage ino] v;
          v2 = emit [InvalidateCleanIno ino, InvalidatePblocks ino] (cancel_queued_writeback ino v1)
      in case live_entry ino v2 of
           None \<Rightarrow> (v2, Inl ENOENT)
         | Some c \<Rightarrow>
             (case resize_cached fa now c (v_mem v2) new_len of
                (c', m', Inl e) \<Rightarrow> (put_entry ino c' (v2\<lparr>v_mem := m'\<rparr>), Inl e)
              | (c', m', Inr _) \<Rightarrow> (schedule_cached_writeback_if_ready ino (put_entry ino c' (v2\<lparr>v_mem := m'\<rparr>)), Inr ())))"

definition write_cached ::
  "'d ext4_ops \<Rightarrow> 'm frame_ops \<Rightarrow> u32 \<Rightarrow> 'd option \<Rightarrow> usize \<Rightarrow> CachedRegularFile \<Rightarrow> 'm \<Rightarrow> usize \<Rightarrow> byte list
   \<Rightarrow> CachedRegularFile \<times> 'm \<times> (SysErrNo + usize)" where
  "write_cached x fa now root ino c m offset buf =
     (let fin = offset + length buf; old_len = cf_size c
      in case (if DENSE_REGULAR_CACHE_LIMIT < fin \<and> cf_dense c \<noteq> None then promote_dense_regular_cache fa c m else (c, m, Inr ())) of
           (c1, m1, Inl e) \<Rightarrow> (c1, m1, Inl e)
         | (c1, m1, Inr _) \<Rightarrow>
             (case (case cf_dense c1 of
                      Some dense \<Rightarrow>
                        (c1\<lparr>cf_dense := Some (splice_at (if fin > length dense then vec_resize dense fin 0 else dense) offset buf)\<rparr>,
                         m1, Inr (length buf))
                    | None \<Rightarrow> write_pages_loop x fa root ino offset buf 0 c1 m1) of
                (c2, m2, Inl e) \<Rightarrow> (c2, m2, Inl e)
              | (c2, m2, Inr copied) \<Rightarrow>
                  (let written_end = offset + copied;
                       c3 = c2\<lparr>cf_size := max (cf_size c2) written_end\<rparr>;
                       c4 = mark_dirty_range c3 offset written_end;
                       c5 = (if written_end > old_len then c4\<lparr>cf_dirty := (cf_dirty c4)\<lparr>size_dirty := True\<rparr>\<rparr> else c4)
                   in (note_cached_data_write now c5, m2, Inr copied))))"

definition cached_regular_write ::
  "'d ext4_ops \<Rightarrow> 'm frame_ops \<Rightarrow> u32 \<Rightarrow> usize \<Rightarrow> usize \<Rightarrow> byte list \<Rightarrow> ('d, 'm) volume \<Rightarrow> ('d, 'm) volume \<times> (SysErrNo + usize)" where
  "cached_regular_write x fa now ino offset buf v =
     (let v1 = emit [InvalidateImage ino, InvalidateCleanRange ino offset (offset + length buf), InvalidatePblocks ino] v
      in case live_entry ino v1 of
           None \<Rightarrow> (v1, Inl ENOENT)
         | Some c \<Rightarrow>
             (case write_cached x fa now (v_root v1) ino c (v_mem v1) offset buf of
                (c', m', Inl e) \<Rightarrow> (put_entry ino c' (v1\<lparr>v_mem := m'\<rparr>), Inl e)
              | (c', m', Inr n) \<Rightarrow> (schedule_cached_writeback_if_ready ino (put_entry ino c' (v1\<lparr>v_mem := m'\<rparr>)), Inr n)))"

section \<open>Write-back\<close>

definition expand_full_dirty :: "CachedRegularFile \<Rightarrow> CachedRegularFile" where
  "expand_full_dirty c =
     (if full_dirty (cf_dirty c)
      then c\<lparr>cf_dirty := (cf_dirty c)\<lparr>dm_ranges := if cf_size c \<noteq> 0 then [\<lparr>dr_start = 0, dr_end = cf_size c\<rparr>] else [],
                                      full_dirty := False\<rparr>\<rparr>
      else c)"

definition snapshot_range :: "DirtyRange list \<Rightarrow> DirtyRange option" where
  "snapshot_range rs =
     (case rs of [] \<Rightarrow> None
      | r # _ \<Rightarrow> Some \<lparr>dr_start = dr_start r, dr_end = min (dr_end r) (saturating_add (dr_start r) WRITEBACK_CLUSTER_BYTES)\<rparr>)"

definition snapshot_commits :: "DirtyRange option \<Rightarrow> DirtyRange list \<Rightarrow> bool" where
  "snapshot_commits rng rs =
     (case (rng, rs) of
        (None, []) \<Rightarrow> True
      | (Some completed, [only]) \<Rightarrow> dr_start completed = dr_start only \<and> dr_end completed = dr_end only
      | _ \<Rightarrow> False)"

definition snapshot_cached :: "'d ext4_ops \<Rightarrow> 'd option \<Rightarrow> usize \<Rightarrow> CachedRegularFile \<Rightarrow> CachedRegularFile \<times> WritebackSnapshotResult" where
  "snapshot_cached x root ino c =
     (if \<not> cf_is_dirty c then (c, CleanCache)
      else case last_error (cf_dirty c) of
             Some e \<Rightarrow> (c, Failed e)
           | None \<Rightarrow>
               (let c1 = expand_full_dirty c
                in case begin_writeback (cf_dirty c1) of
                     (_, None) \<Rightarrow> (c1, Busy)
                   | (dirty, Some sq) \<Rightarrow>
                       (let c2 = c1\<lparr>cf_dirty := dirty\<rparr>;
                            rng = snapshot_range (dm_ranges dirty);
                            commit = snapshot_commits rng (dm_ranges dirty)
                        in case (case rng of
                                   None \<Rightarrow> Inr []
                                 | Some r \<Rightarrow> copy_cached_range x root ino c2 (dr_start r) (dr_end r - dr_start r)) of
                             Inl e \<Rightarrow> (c2\<lparr>cf_dirty := fail_writeback (cf_dirty c2) e\<rparr>, Failed e)
                           | Inr bytes \<Rightarrow>
                               (c2, Snapshot \<lparr>s_ino = ino, target_len = cf_size c2, s_truncate_to = truncate_to c2,
                                      s_range = rng, s_data = bytes, commit_size = commit, dirty_seq = sq,
                                      s_times = cf_times c2\<rparr>))))"

definition take_writeback_snapshot :: "'d ext4_ops \<Rightarrow> usize \<Rightarrow> ('d, 'm) volume \<Rightarrow> ('d, 'm) volume \<times> WritebackSnapshotResult" where
  "take_writeback_snapshot x ino v =
     (case live_entry ino v of
        None \<Rightarrow> (v, NoCache)
      | Some c \<Rightarrow> (case snapshot_cached x (v_root v) ino c of (c', r) \<Rightarrow> (put_entry ino c' v, r)))"

definition snapshot_truncation :: "WritebackSnapshot \<Rightarrow> usize" where
  "snapshot_truncation s = min (case s_truncate_to s of None \<Rightarrow> target_len s | Some t \<Rightarrow> t) (target_len s)"

text \<open>The device part of \<open>apply_writeback_snapshot\<close>: truncate, write the cluster, commit the size,
  check an emptied file, store the times.\<close>

definition apply_truncate :: "'d ext4_ops \<Rightarrow> WritebackSnapshot \<Rightarrow> 'd \<Rightarrow> 'd \<times> (SysErrNo + unit)" where
  "apply_truncate x s d =
     (if snapshot_truncation s < x_size x d (s_ino s) then x_truncate x d (s_ino s) (snapshot_truncation s) else (d, Inr ()))"

definition apply_data :: "'d ext4_ops \<Rightarrow> WritebackSnapshot \<Rightarrow> 'd \<Rightarrow> 'd \<times> (SysErrNo + unit)" where
  "apply_data x s d =
     (case s_range s of
        None \<Rightarrow> (d, Inr ())
      | Some r \<Rightarrow>
          (case x_write_at x d (s_ino s) (dr_start r) (s_data s) of
             (d', Inl e) \<Rightarrow> (d', Inl e)
           | (d', Inr written) \<Rightarrow> (d', if written \<noteq> length (s_data s) then Inl EIO else Inr ())))"

definition apply_size :: "'d ext4_ops \<Rightarrow> WritebackSnapshot \<Rightarrow> 'd \<Rightarrow> 'd" where
  "apply_size x s d =
     (if commit_size s \<and> x_size x d (s_ino s) < target_len s then x_set_size x d (s_ino s) (target_len s) else d)"

definition apply_device :: "'d ext4_ops \<Rightarrow> WritebackSnapshot \<Rightarrow> 'd \<Rightarrow> 'd \<times> (SysErrNo + unit)" where
  "apply_device x s d =
     (case apply_truncate x s d of
        (d1, Inl e) \<Rightarrow> (d1, Inl e)
      | (d1, Inr _) \<Rightarrow>
          (case apply_data x s d1 of
             (d2, Inl e) \<Rightarrow> (d2, Inl e)
           | (d2, Inr _) \<Rightarrow>
               (let d3 = apply_size x s d2
                in if target_len s = 0 \<and> x_size x d (s_ino s) \<noteq> 0 \<and> x_size x d3 (s_ino s) \<noteq> 0 then (d3, Inl EIO)
                   else (x_set_times x d3 (s_ino s) (s_times s), Inr ()))))"

definition apply_writeback_snapshot :: "'d ext4_ops \<Rightarrow> WritebackSnapshot \<Rightarrow> ('d, 'm) volume \<Rightarrow> ('d, 'm) volume \<times> (SysErrNo + unit)" where
  "apply_writeback_snapshot x s v =
     (let v1 = emit [InvalidatePblocks (s_ino s)] v
      in case v_root v1 of
           None \<Rightarrow> (v1, Inl ENOENT)
         | Some d \<Rightarrow>
             (case apply_device x s d of
                (d', Inl e) \<Rightarrow> (v1\<lparr>v_root := Some d'\<rparr>, Inl e)
              | (d', Inr _) \<Rightarrow>
                  (emit [InvalidatePblocks (s_ino s), InvalidateMetadata (s_ino s)]
                     (v1\<lparr>v_root := Some d', v_times := bt_remove (s_ino s) (v_times v1)\<rparr>), Inr ())))"

definition finish_cached :: "WritebackSnapshot \<Rightarrow> SysErrNo + unit \<Rightarrow> CachedRegularFile \<Rightarrow> CachedRegularFile \<times> bool" where
  "finish_cached s result c =
     (case result of
        Inl e \<Rightarrow> (c\<lparr>cf_dirty := fail_writeback (cf_dirty c) e\<rparr>, False)
      | Inr _ \<Rightarrow>
          (let c1 = (if dm_seq (cf_dirty c) = dirty_seq s \<and> truncate_to c = s_truncate_to s then c\<lparr>truncate_to := None\<rparr> else c)
           in case finish_writeback (cf_dirty c1) (dirty_seq s) (s_range s) (commit_size s) of
                (dirty, requeue) \<Rightarrow>
                  (c1\<lparr>cf_dirty := dirty,
                      persisted_size := if \<not> requeue then target_len s else min (persisted_size c1) (target_len s)\<rparr>, requeue)))"

definition finish_writeback_snapshot ::
  "WritebackSnapshot \<Rightarrow> SysErrNo + unit \<Rightarrow> ('d, 'm) volume \<Rightarrow> ('d, 'm) volume \<times> (SysErrNo + unit)" where
  "finish_writeback_snapshot s result v =
     (case live_entry (s_ino s) v of
        None \<Rightarrow> (v, result)
      | Some c \<Rightarrow>
          (case finish_cached s result c of
             (c', requeue) \<Rightarrow>
               (let v' = put_entry (s_ino s) c' v
                in (if requeue then schedule_cached_writeback_if_ready (s_ino s) v' else v', result))))"

definition acknowledge_writeback_error :: "usize \<Rightarrow> SysErrNo \<Rightarrow> ('d, 'm) volume \<Rightarrow> ('d, 'm) volume \<times> bool" where
  "acknowledge_writeback_error ino e v =
     (case live_entry ino v of
        None \<Rightarrow> (v, False)
      | Some c \<Rightarrow>
          (let c' = (if last_error (cf_dirty c) = Some e then c\<lparr>cf_dirty := (cf_dirty c)\<lparr>last_error := None\<rparr>\<rparr> else c)
           in (put_entry ino c' v, data_dirty (cf_dirty c'))))"

definition drain_queued_writeback_ino :: "'d ext4_ops \<Rightarrow> usize \<Rightarrow> ('d, 'm) volume \<Rightarrow> ('d, 'm) volume \<times> (SysErrNo + unit)" where
  "drain_queued_writeback_ino x ino v =
     (case take_writeback_snapshot x ino v of
        (v1, NoCache) \<Rightarrow> (v1, Inr ())
      | (v1, CleanCache) \<Rightarrow> (v1, Inr ())
      | (v1, Failed e) \<Rightarrow> (v1, Inl e)
      | (v1, Busy) \<Rightarrow> (queue_writeback_ino ino v1, Inr ())
      | (v1, Snapshot s) \<Rightarrow> (case apply_writeback_snapshot x s v1 of (v2, r) \<Rightarrow> finish_writeback_snapshot s r v2))"

text \<open>One turn of \<open>writeback_worker_main\<close> and the two opportunistic drains.\<close>

definition opportunistic_drain_one_queued_writeback :: "'d ext4_ops \<Rightarrow> ('d, 'm) volume \<Rightarrow> ('d, 'm) volume" where
  "opportunistic_drain_one_queued_writeback x v =
     (case wq_pop (v_queue v) of
        (q, None) \<Rightarrow> v\<lparr>v_queue := q\<rparr>
      | (q, Some ino) \<Rightarrow> fst (drain_queued_writeback_ino x ino (v\<lparr>v_queue := q\<rparr>)))"

definition opportunistic_drain_queued_writeback_ino :: "'d ext4_ops \<Rightarrow> usize \<Rightarrow> ('d, 'm) volume \<Rightarrow> ('d, 'm) volume" where
  "opportunistic_drain_queued_writeback_ino x ino v = fst (drain_queued_writeback_ino x ino (cancel_queued_writeback ino v))"

definition flush_time_override :: "'d ext4_ops \<Rightarrow> usize \<Rightarrow> ('d, 'm) volume \<Rightarrow> ('d, 'm) volume \<times> (SysErrNo + unit)" where
  "flush_time_override x ino v =
     (case bt_get ino (v_times v) of
        None \<Rightarrow> (v, Inr ())
      | Some tm \<Rightarrow>
          (case v_root v of
             None \<Rightarrow> (v, Inl ENOENT)
           | Some d \<Rightarrow>
               (emit [InvalidateMetadata ino]
                  (v\<lparr>v_root := Some (x_set_times x d ino tm), v_times := bt_remove ino (v_times v)\<rparr>), Inr ())))"

text \<open>The loop of \<open>flush_cached_ino\<close>. \<open>wait\<close> is \<open>wait_for_writeback_progress\<close>: what the other
  tasks do while this one yields, or \<open>EBUSY\<close>. \<^const>\<open>None\<close>: still looping when the fuel is used up.\<close>

fun flush_loop ::
  "'d ext4_ops \<Rightarrow> (('d, 'm) volume \<Rightarrow> ('d, 'm) volume \<times> (SysErrNo + unit)) \<Rightarrow> nat \<Rightarrow> usize \<Rightarrow> ('d, 'm) volume
   \<Rightarrow> (('d, 'm) volume \<times> (SysErrNo + unit)) option" where
  "flush_loop x wait 0 ino v = None"
| "flush_loop x wait (Suc fuel) ino v =
     (case take_writeback_snapshot x ino (cancel_queued_writeback ino v) of
        (v1, NoCache) \<Rightarrow> Some (flush_time_override x ino v1)
      | (v1, CleanCache) \<Rightarrow> Some (flush_time_override x ino v1)
      | (v1, Failed e) \<Rightarrow>
          (case acknowledge_writeback_error ino e v1 of
             (v2, True) \<Rightarrow> flush_loop x wait fuel ino v2
           | (v2, False) \<Rightarrow> Some (v2, Inl e))
      | (v1, Busy) \<Rightarrow>
          (case wait v1 of
             (v2, Inl e) \<Rightarrow> Some (v2, Inl e)
           | (v2, Inr _) \<Rightarrow> flush_loop x wait fuel ino v2)
      | (v1, Snapshot s) \<Rightarrow>
          (case apply_writeback_snapshot x s v1 of
             (v2, r) \<Rightarrow>
               (case finish_writeback_snapshot s r v2 of
                  (v3, Inl e) \<Rightarrow> Some (v3, Inl e)
                | (v3, Inr _) \<Rightarrow> flush_loop x wait fuel ino v3)))"

definition flush_cached_ino ::
  "'d ext4_ops \<Rightarrow> (('d, 'm) volume \<Rightarrow> ('d, 'm) volume \<times> (SysErrNo + unit)) \<Rightarrow> nat \<Rightarrow> usize \<Rightarrow> ('d, 'm) volume
   \<Rightarrow> (('d, 'm) volume \<times> (SysErrNo + unit)) option" where
  "flush_cached_ino x wait fuel ino v = flush_loop x wait fuel ino (cancel_queued_writeback ino v)"

section \<open>Opening, closing and replacing cached files\<close>

definition discard_regular_cache :: "usize \<Rightarrow> ('d, 'm) volume \<Rightarrow> ('d, 'm) volume" where
  "discard_regular_cache ino v =
     (let v1 = cancel_queued_writeback ino (emit [InvalidateImage ino] v);
          v2 = v1\<lparr>v_cache := bt_remove ino (v_cache v1)\<rparr>;
          v3 = emit [InvalidateCleanIno ino, InvalidatePblocks ino] v2
      in emit [InvalidateMetadata ino] (v3\<lparr>v_times := bt_remove ino (v_times v3)\<rparr>))"

definition has_open_regular_ref :: "usize \<Rightarrow> ('d, 'm) volume \<Rightarrow> bool" where
  "has_open_regular_ref ino v = (case bt_get ino (v_refs v) of None \<Rightarrow> False | Some n \<Rightarrow> n > 0)"

definition vol_open_regular_ino :: "usize \<Rightarrow> ('d, 'm) volume \<Rightarrow> ('d, 'm) volume" where
  "vol_open_regular_ino ino v =
     v\<lparr>v_refs := bt_insert ino ((case bt_get ino (v_refs v) of None \<Rightarrow> 0 | Some n \<Rightarrow> n) + 1) (v_refs v)\<rparr>"

text \<open>\<open>x_release\<close>: the inode loses its last link and is given back to the allocator.\<close>

definition finish_unlinked_regular :: "'d ext4_ops \<Rightarrow> u32 \<Rightarrow> usize \<Rightarrow> ('d, 'm) volume \<Rightarrow> ('d, 'm) volume \<times> (SysErrNo + unit)" where
  "finish_unlinked_regular x now ino v =
     (let v1 = discard_regular_cache ino (cancel_queued_writeback ino v)
      in case v_root v1 of
           None \<Rightarrow> (v1, Inl ENOENT)
         | Some d \<Rightarrow>
             (case (if x_size x d ino > 0 then x_truncate x d ino 0 else (d, Inr ())) of
                (d1, Inl e) \<Rightarrow> (v1\<lparr>v_root := Some d1\<rparr>, Inl e)
              | (d1, Inr _) \<Rightarrow> (v1\<lparr>v_root := Some (x_release x d1 ino now)\<rparr>, Inr ())))"

text \<open>The source repeats its checks after taking the reclaim lock; in one step they agree.\<close>

definition vol_close_regular_ino :: "'d ext4_ops \<Rightarrow> u32 \<Rightarrow> usize \<Rightarrow> ('d, 'm) volume \<Rightarrow> ('d, 'm) volume" where
  "vol_close_regular_ino x now ino v =
     (case bt_get ino (v_refs v) of
        None \<Rightarrow> v
      | Some n \<Rightarrow>
          if n > 1 then v\<lparr>v_refs := bt_insert ino (n - 1) (v_refs v)\<rparr>
          else
            (let v1 = v\<lparr>v_refs := bt_remove ino (v_refs v)\<rparr>
             in if ino \<in> v_unlinked v1
                then fst (finish_unlinked_regular x now ino (cancel_queued_writeback ino (v1\<lparr>v_unlinked := v_unlinked v1 - {ino}\<rparr>)))
                else if \<not> is_regular_cached ino v1 then v1
                else if is_regular_cache_dirty ino v1 then schedule_cached_writeback_if_ready ino v1
                else if has_open_regular_ref ino v1 then v1
                else discard_regular_cache ino v1))"

definition cache_empty_regular :: "u32 \<Rightarrow> usize \<Rightarrow> bool \<Rightarrow> ('d, 'm) volume \<Rightarrow> ('d, 'm) volume" where
  "cache_empty_regular now ino dirty v =
     put_entry ino (cached_file_new 0 0 (Some []) (if dirty then dirty_whole_file else dm_clean) (now, 0, now, 0))
       (emit [InvalidateImage ino, InvalidatePblocks ino] v)"

definition note_data_write :: "u32 \<Rightarrow> usize \<Rightarrow> ('d, 'm) volume \<Rightarrow> ('d, 'm) volume" where
  "note_data_write now ino v = emit [InvalidateMetadata ino] (v\<lparr>v_times := bt_insert ino (now, 0, now, 0) (v_times v)\<rparr>)"

definition uncached_regular_write ::
  "'d ext4_ops \<Rightarrow> u32 \<Rightarrow> usize \<Rightarrow> usize \<Rightarrow> byte list \<Rightarrow> ('d, 'm) volume \<Rightarrow> ('d, 'm) volume \<times> (SysErrNo + usize)" where
  "uncached_regular_write x now ino offset buf v =
     (if buf = [] then (v, Inr 0)
      else
        (let v1 = emit [InvalidateImage ino, InvalidatePblocks ino] v
         in case v_root v1 of
              None \<Rightarrow> (v1, Inl ENOENT)
            | Some d \<Rightarrow>
                (case x_write_at x d ino offset buf of
                   (d', Inl e) \<Rightarrow> (v1\<lparr>v_root := Some d'\<rparr>, Inl e)
                 | (d', Inr written) \<Rightarrow>
                     (let v2 = v1\<lparr>v_root := Some d'\<rparr>
                      in (if written \<noteq> 0
                          then note_data_write now ino
                                 (emit [InvalidateCleanRange ino offset (saturating_add offset written), InvalidatePblocks ino] v2)
                          else v2, Inr written)))))"

definition ext4_write_at ::
  "'d ext4_ops \<Rightarrow> 'm frame_ops \<Rightarrow> u32 \<Rightarrow> usize \<Rightarrow> usize \<Rightarrow> byte list \<Rightarrow> ('d, 'm) volume \<Rightarrow> ('d, 'm) volume \<times> (SysErrNo + usize)" where
  "ext4_write_at x fa now ino offset buf v =
     (case checked_file_end offset (length buf) of
        Inl e \<Rightarrow> (v, Inl e)
      | Inr _ \<Rightarrow>
          if buf = [] then (v, Inr 0)
          else
            (case ensure_regular_cache x ino (emit [InvalidatePblocks ino] v) of
               (v1, Inl e) \<Rightarrow> (v1, Inl e)
             | (v1, Inr True) \<Rightarrow> cached_regular_write x fa now ino offset buf v1
             | (v1, Inr False) \<Rightarrow> uncached_regular_write x now ino offset buf v1))"

fun flush_inos ::
  "(usize \<Rightarrow> ('d, 'm) volume \<Rightarrow> (('d, 'm) volume \<times> (SysErrNo + unit)) option) \<Rightarrow> usize list \<Rightarrow> ('d, 'm) volume \<Rightarrow> SysErrNo option
   \<Rightarrow> (('d, 'm) volume \<times> SysErrNo option) option" where
  "flush_inos flush [] v first_error = Some (v, first_error)"
| "flush_inos flush (ino # inos) v first_error =
     (case flush ino v of
        None \<Rightarrow> None
      | Some (v', Inr _) \<Rightarrow> flush_inos flush inos v' first_error
      | Some (v', Inl e) \<Rightarrow> flush_inos flush inos v' (case first_error of None \<Rightarrow> Some e | Some _ \<Rightarrow> first_error))"

definition flush_all_cached ::
  "'d ext4_ops \<Rightarrow> (('d, 'm) volume \<Rightarrow> ('d, 'm) volume \<times> (SysErrNo + unit)) \<Rightarrow> nat \<Rightarrow> ('d, 'm) volume
   \<Rightarrow> (('d, 'm) volume \<times> (SysErrNo + unit)) option" where
  "flush_all_cached x wait fuel v =
     (case flush_inos (flush_cached_ino x wait fuel) (map fst (filter (\<lambda>(_, c). cf_is_dirty c) (v_cache v))) v None of
        None \<Rightarrow> None
      | Some (v1, e1) \<Rightarrow>
          (case flush_inos (\<lambda>ino w. Some (flush_time_override x ino w)) (map fst (v_times v1)) v1 e1 of
             None \<Rightarrow> None
           | Some (v2, e2) \<Rightarrow>
               Some (emit [ClearCleanPages, ClearPblocks] v2, case e2 of None \<Rightarrow> Inr () | Some e \<Rightarrow> Inl e)))"

end
