(* ===== verification/File_Content.thy ===== *)
theory File_Content
  imports File_Cache
begin

text \<open>
  What a cached file holds. \<open>cached_byte\<close> reads one byte through the three representations (dense
  vector, cached page, device); every operation of \<open>File_Cache\<close> is shown to act on the resulting
  byte string the way the system call promises, whatever the representation and whether or not the
  file is promoted from dense to paged on the way.
\<close>

section \<open>Bytes on the device\<close>

definition disk_byte :: "'d ext4_ops \<Rightarrow> 'd \<Rightarrow> usize \<Rightarrow> usize \<Rightarrow> byte" where
  "disk_byte x d ino i =
     (case extent_pblock_for_read x d ino (i div BLOCK_SIZE) of
        None \<Rightarrow> 0
      | Some pblock \<Rightarrow> x_read_offset x d (pblock * BLOCK_SIZE) ! (i mod BLOCK_SIZE))"

text \<open>Positions inside one block or page.\<close>

lemma in_unit:
  fixes u :: nat
  assumes "0 < u" and "k < u - cur mod u"
  shows "(cur + k) div u = cur div u" and "(cur + k) mod u = cur mod u + k"
proof -
  have lt: "cur mod u + k < u" using assms by simp
  have eq: "cur + k = cur div u * u + (cur mod u + k)" by (simp flip: add.assoc)
  show "(cur + k) div u = cur div u"
  proof (rule div_nat_eqI)
    have a: "u * (cur div u) + cur mod u = cur" by simp
    show "u * (cur div u) \<le> cur + k" using a by linarith
    show "cur + k < u * Suc (cur div u)" unfolding mult_Suc_right using a lt by linarith
  qed
  show "(cur + k) mod u = cur mod u + k" by (subst eq, subst mod_mult_self3) (use lt in simp)
qed

lemma nth_append_shift:
  assumes "\<And>k. k < n \<Longrightarrow> part ! k = f (cur + k)" and "length part = n" and "n \<le> left"
    and "\<And>k. k < left - n \<Longrightarrow> rest ! k = f (cur + n + k)" and "length rest = left - n"
  shows "length (part @ rest) = left" and "k < left \<Longrightarrow> (part @ rest) ! k = f (cur + k)"
proof -
  show "length (part @ rest) = left" using assms by simp
  assume k: "k < left"
  show "(part @ rest) ! k = f (cur + k)"
  proof (cases "k < n")
    case False
    then have "k - n < left - n" using k by simp
    then show ?thesis using False assms(2) assms(4) [of "k - n"] by (simp add: nth_append)
  qed (use assms(1,2) in \<open>simp add: nth_append\<close>)
qed

lemma extent_read_loop_correct:
  "extent_read_loop x d ino cur left = Inr bs \<Longrightarrow>
   length bs = left \<and> (\<forall>k<left. bs ! k = disk_byte x d ino (cur + k))"
proof (induction x d ino cur left arbitrary: bs rule: extent_read_loop.induct)
  case (1 x d ino cur left)
  show ?case
  proof (cases "left = 0")
    case False
    define n where "n = min left (BLOCK_SIZE - cur mod BLOCK_SIZE)"
    define part where "part = (case extent_pblock_for_read x d ino (cur div BLOCK_SIZE) of
                         None \<Rightarrow> Inr (replicate n 0)
                       | Some pblock \<Rightarrow>
                           if usize_max div BLOCK_SIZE < pblock then Inl EFBIG
                           else (let block = x_read_offset x d (pblock * BLOCK_SIZE)
                                 in if length block < cur mod BLOCK_SIZE + n then Inl EIO
                                    else Inr (take n (drop (cur mod BLOCK_SIZE) block))))"
    have unfolded: "\<not> U32_MAX < cur div BLOCK_SIZE"
      "(case part of Inl e \<Rightarrow> Inl e | Inr p \<Rightarrow>
          (case extent_read_loop x d ino (cur + n) (left - n) of Inl e \<Rightarrow> Inl e | Inr rest \<Rightarrow> Inr (p @ rest))) = Inr bs"
      using "1.prems" False unfolding extent_read_loop.simps [of x d ino cur left] Let_def n_def part_def by (auto split: if_splits)
    then obtain p rest where p: "part = Inr p" and rest: "extent_read_loop x d ino (cur + n) (left - n) = Inr rest"
      and bs: "bs = p @ rest" by (auto split: sum.splits)
    have nle: "n \<le> left" "n \<le> BLOCK_SIZE - cur mod BLOCK_SIZE" by (auto simp: n_def)
    have IH: "length rest = left - n \<and> (\<forall>k<left - n. rest ! k = disk_byte x d ino (cur + n + k))"
      by (rule "1.IH" [OF False refl refl n_def unfolded(1) _ rest]) (unfold Let_def, rule p [unfolded part_def Let_def])
    have plen: "length p = n" using p by (auto simp: part_def Let_def split: option.splits if_splits)
    have pk: "p ! k = disk_byte x d ino (cur + k)" if "k < n" for k
      using p that in_unit [OF block_size_pos(1), of k cur] nle(2)
      by (auto simp: part_def disk_byte_def Let_def split: option.splits if_splits)
    show ?thesis unfolding bs
      using nth_append_shift [of n p "disk_byte x d ino" cur left rest, OF pk plen nle(1)] IH by auto
  qed (use "1.prems" in \<open>simp add: extent_read_loop.simps\<close>)
qed

lemma extent_aware_read_correct:
  assumes "extent_aware_read_at x (Some d) ino off len = Inr bs"
  shows "length bs \<le> len" and "k < length bs \<Longrightarrow> bs ! k = disk_byte x d ino (off + k)"
proof -
  have "length bs \<le> len \<and> (\<forall>k<length bs. bs ! k = disk_byte x d ino (off + k))"
    using assms by (auto simp: extent_aware_read_at_def split: if_splits dest!: extent_read_loop_correct)
  then show "length bs \<le> len" and "k < length bs \<Longrightarrow> bs ! k = disk_byte x d ino (off + k)" by auto
qed

section \<open>Bytes of a cached file\<close>

definition page_byte :: "(usize \<Rightarrow> byte) \<Rightarrow> usize \<Rightarrow> byte list btree \<Rightarrow> usize \<Rightarrow> byte" where
  "page_byte dk persisted pages i =
     (case bt_get (i div PAGE_SIZE) pages of
        Some page \<Rightarrow> page ! (i mod PAGE_SIZE)
      | None \<Rightarrow> if i < persisted then dk i else 0)"

definition cached_byte :: "(usize \<Rightarrow> byte) \<Rightarrow> CachedRegularFile \<Rightarrow> usize \<Rightarrow> byte" where
  "cached_byte dk c i =
     (case cf_dense c of
        Some bs \<Rightarrow> if i < length bs then bs ! i else 0
      | None \<Rightarrow> page_byte dk (persisted_size c) (cf_pages c) i)"

definition pages_ok :: "byte list btree \<Rightarrow> bool" where
  "pages_ok pages \<longleftrightarrow> bt_sorted pages \<and> (\<forall>(i, page) \<in> set pages. length page = PAGE_SIZE)"

definition cached_ok :: "(usize \<Rightarrow> byte) \<Rightarrow> CachedRegularFile \<Rightarrow> bool" where
  "cached_ok dk c \<longleftrightarrow> \<not> cf_evicted c \<and> pages_ok (cf_pages c) \<and> persisted_size c \<le> cf_size c
     \<and> (\<forall>bs. cf_dense c = Some bs \<longrightarrow> length bs = cf_size c)
     \<and> (\<forall>i \<ge> cf_size c. cached_byte dk c i = 0)"

definition file_bytes :: "(usize \<Rightarrow> byte) \<Rightarrow> CachedRegularFile \<Rightarrow> byte list" where
  "file_bytes dk c = map (cached_byte dk c) [0..<cf_size c]"

lemma file_bytes_nth [simp]: "length (file_bytes dk c) = cf_size c" "i < cf_size c \<Longrightarrow> file_bytes dk c ! i = cached_byte dk c i"
  by (simp_all add: file_bytes_def)

lemma pages_ok_insert:
  "pages_ok pages \<Longrightarrow> length page = PAGE_SIZE \<Longrightarrow> pages_ok (bt_insert i page pages)"
  by (auto simp: pages_ok_def set_bt_insert)

lemma pages_ok_get: "pages_ok pages \<Longrightarrow> bt_get i pages = Some page \<Longrightarrow> length page = PAGE_SIZE"
  by (auto simp: pages_ok_def bt_get_iff)

lemma copy_pages_loop_correct:
  "copy_pages_loop x (Some d) ino c cur left = Inr bs \<Longrightarrow> pages_ok (cf_pages c) \<Longrightarrow>
   length bs = left \<and> (\<forall>k<left. bs ! k = page_byte (disk_byte x d ino) (persisted_size c) (cf_pages c) (cur + k))"
proof (induction x "Some d" ino c cur left arbitrary: bs rule: copy_pages_loop.induct)
  case (1 x ino c cur left)
  show ?case
  proof (cases "left = 0")
    case False
    let ?f = "page_byte (disk_byte x d ino) (persisted_size c) (cf_pages c)"
    define n where "n = min left (PAGE_SIZE - cur mod PAGE_SIZE)"
    define dc where "dc = min n (persisted_size c - cur)"
    define part where "part = (case bt_get (cur div PAGE_SIZE) (cf_pages c) of
                    Some page \<Rightarrow> Inr (take n (drop (cur mod PAGE_SIZE) page))
                  | None \<Rightarrow>
                      if cur < persisted_size c
                      then (case extent_aware_read_at x (Some d) ino cur dc of
                                 Inl e \<Rightarrow> Inl e
                               | Inr bs \<Rightarrow> if length bs \<noteq> dc then Inl EIO
                                           else Inr (bs @ replicate (n - dc) 0))
                      else Inr (replicate n 0))"
    have unfolded:
      "(case part of Inl e \<Rightarrow> Inl e | Inr p \<Rightarrow>
          (case copy_pages_loop x (Some d) ino c (cur + n) (left - n) of Inl e \<Rightarrow> Inl e | Inr rest \<Rightarrow> Inr (p @ rest))) = Inr bs"
      using "1.prems"(1) False unfolding copy_pages_loop.simps [of x "Some d" ino c cur left] Let_def n_def part_def dc_def by simp
    then obtain p rest where p: "part = Inr p" and rest: "copy_pages_loop x (Some d) ino c (cur + n) (left - n) = Inr rest"
      and bs: "bs = p @ rest" by (auto split: sum.splits)
    have nle: "n \<le> left" "n \<le> PAGE_SIZE - cur mod PAGE_SIZE" by (auto simp: n_def)
    have IH: "length rest = left - n \<and> (\<forall>k<left - n. rest ! k = ?f (cur + n + k))"
      by (rule "1.hyps" [OF False refl refl n_def _ rest "1.prems"(2)]) (unfold Let_def, rule p [unfolded part_def dc_def])
    have plen: "length p = n \<and> (\<forall>k<n. p ! k = ?f (cur + k))"
    proof (cases "bt_get (cur div PAGE_SIZE) (cf_pages c)")
      case (Some page)
      then have "p = take n (drop (cur mod PAGE_SIZE) page)" using p by (simp add: part_def)
      moreover have "length page = PAGE_SIZE" using "1.prems"(2) Some by (rule pages_ok_get)
      ultimately show ?thesis using nle(2) in_unit [OF PAGE_SIZE_pos(1), of _ cur] Some
        by (auto simp: page_byte_def)
    next
      case None
      have idx: "bt_get ((cur + k) div PAGE_SIZE) (cf_pages c) = None" if "k < n" for k
        using that nle(2) in_unit(1) [OF PAGE_SIZE_pos(1), of k cur] None by simp
      show ?thesis
      proof (cases "cur < persisted_size c")
        case True
        then obtain q where q: "extent_aware_read_at x (Some d) ino cur dc = Inr q" "length q = dc" "p = q @ replicate (n - dc) 0"
          using p None by (auto simp: part_def split: sum.splits if_splits)
        have "p ! k = ?f (cur + k)" if k: "k < n" for k
        proof (cases "k < dc")
          case True
          then have "p ! k = disk_byte x d ino (cur + k)" using q extent_aware_read_correct(2) [OF q(1), of k] by (simp add: nth_append)
          then show ?thesis using idx [OF k] True by (auto simp: page_byte_def dc_def)
        next
          case False
          then have "p ! k = 0" using q k by (simp add: nth_append)
          then show ?thesis using idx [OF k] False k by (auto simp: page_byte_def dc_def)
        qed
        moreover have "length p = n" using q by (simp add: dc_def)
        ultimately show ?thesis by blast
      next
        case False
        then have "p = replicate n 0" using p None by (simp add: part_def)
        then show ?thesis using idx False by (auto simp: page_byte_def)
      qed
    qed
    show ?thesis unfolding bs using nth_append_shift [of n p ?f cur left rest, OF _ _ nle(1)] plen IH by auto
  qed (use "1.prems" in \<open>simp add: copy_pages_loop.simps\<close>)
qed

lemma copy_cached_range_correct:
  assumes "copy_cached_range x (Some d) ino c start len = Inr bs" and "pages_ok (cf_pages c)"
  shows "length bs = len" and "k < len \<Longrightarrow> bs ! k = cached_byte (disk_byte x d ino) c (start + k)"
proof -
  have "length bs = len \<and> (\<forall>k<len. bs ! k = cached_byte (disk_byte x d ino) c (start + k))"
    using assms copy_pages_loop_correct [of x d ino c start len bs]
    by (auto simp: copy_cached_range_def cached_byte_def slice_get_def checked_add_Some split: option.splits if_splits)
  then show "length bs = len" and "k < len \<Longrightarrow> bs ! k = cached_byte (disk_byte x d ino) c (start + k)" by auto
qed

section \<open>Promotion to pages\<close>

text \<open>Everything but the representation of the contents.\<close>

definition same_file_state :: "CachedRegularFile \<Rightarrow> CachedRegularFile \<Rightarrow> bool" where
  "same_file_state c c' \<longleftrightarrow> cf_size c' = cf_size c \<and> persisted_size c' = persisted_size c \<and> truncate_to c' = truncate_to c
     \<and> cf_dirty c' = cf_dirty c \<and> cf_times c' = cf_times c \<and> cf_evicted c' = cf_evicted c"

lemma bt_get_append: "bt_get j (xs @ ys) = (case bt_get j xs of None \<Rightarrow> bt_get j ys | Some v \<Rightarrow> Some v)"
  by (induction j xs rule: bt_get.induct) auto

definition dense_page :: "byte list \<Rightarrow> usize \<Rightarrow> byte list" where
  "dense_page dense j = take PAGE_SIZE (drop (j * PAGE_SIZE) dense) @ replicate (PAGE_SIZE - (length dense - j * PAGE_SIZE)) 0"

lemma dense_page_length [simp]: "length (dense_page dense j) = PAGE_SIZE"
  by (simp add: dense_page_def)

lemma dense_page_byte: "dense_page dense (i div PAGE_SIZE) ! (i mod PAGE_SIZE) = (if i < length dense then dense ! i else 0)"
proof -
  define q r where "q = i div PAGE_SIZE * PAGE_SIZE" and "r = i mod PAGE_SIZE"
  have "i = q + r" "r < PAGE_SIZE" by (simp_all add: q_def r_def)
  then have "(take PAGE_SIZE (drop q dense) @ replicate (PAGE_SIZE - (length dense - q)) 0) ! r = (if i < length dense then dense ! i else 0)"
    by (auto simp: nth_append)
  then show ?thesis by (simp add: dense_page_def q_def r_def)
qed

lemma promote_loop_lookup:
  "promote_loop fa (drop (idx * PAGE_SIZE) dense) idx pages m = (m', Some pages') \<Longrightarrow>
   pages_ok pages \<Longrightarrow> \<forall>(i, _) \<in> set pages. i < idx \<Longrightarrow>
   pages_ok pages' \<and> (\<forall>j. bt_get j pages' = (if j < idx then bt_get j pages
      else if j * PAGE_SIZE < length dense then Some (dense_page dense j) else None))"
proof (induction "length dense - idx * PAGE_SIZE" arbitrary: idx pages m rule: less_induct)
  case less
  show ?case
  proof (cases "drop (idx * PAGE_SIZE) dense = []")
    case True
    then have eq: "pages' = pages" and len: "length dense \<le> idx * PAGE_SIZE" using less.prems(1) by (auto simp: promote_loop.simps)
    have "bt_get j pages = None \<and> \<not> j * PAGE_SIZE < length dense" if "\<not> j < idx" for j
    proof -
      have "j \<notin> fst ` set pages" using less.prems(3) that by auto
      moreover have "idx * PAGE_SIZE \<le> j * PAGE_SIZE" using that by simp
      ultimately show ?thesis using len unfolding bt_get_None by linarith
    qed
    then show ?thesis using eq less.prems(2) by auto
  next
    case False
    then obtain m1 where al: "f_alloc fa m = (m1, True)" using less.prems(1)
      by (auto simp: promote_loop.simps split: prod.splits bool.splits)
    let ?pages = "pages @ [(idx, dense_page dense idx)]"
    have step: "promote_loop fa (drop ((idx + 1) * PAGE_SIZE) dense) (idx + 1) ?pages m1 = (m', Some pages')"
      using less.prems(1) False al by (simp add: promote_loop.simps [of fa "drop (idx * PAGE_SIZE) dense"] dense_page_def add.commute)
    have ok: "pages_ok ?pages" using less.prems(2,3)
      by (auto simp: pages_ok_def bt_sorted_def sorted_wrt_append)
    have lt: "length dense - (idx + 1) * PAGE_SIZE < length dense - idx * PAGE_SIZE"
      using False PAGE_SIZE_pos(1) unfolding drop_eq_Nil distrib_right mult_1 by linarith
    have below: "\<forall>(i, _) \<in> set ?pages. i < idx + 1" using less.prems(3) by auto
    note IH = less.hyps [OF lt step ok below]
    have "bt_get idx pages = None" using less.prems(3) by (auto simp: bt_get_None)
    then have "bt_get j ?pages = (if j = idx then Some (dense_page dense idx) else bt_get j pages)" for j
      by (auto simp: bt_get_append split: option.splits)
    moreover have "idx * PAGE_SIZE < length dense" using False by simp
    ultimately show ?thesis using IH by (auto simp: less_Suc_eq)
  qed
qed

lemma promote_correct:
  assumes "promote_dense_regular_cache fa c m = (c', m', r)" and "cached_ok dk c"
  shows "r \<noteq> Inr () \<Longrightarrow> c' = c"
    and "same_file_state c c'"
    and "cached_byte dk c' i = cached_byte dk c i" and "pages_ok (cf_pages c')"
    and "r = Inr () \<Longrightarrow> cf_dense c' = None"
    and "cf_dense c \<noteq> None \<Longrightarrow> r = Inr () \<Longrightarrow> i < cf_size c \<Longrightarrow> bt_get (i div PAGE_SIZE) (cf_pages c') \<noteq> None"
proof -
  have 1: "r \<noteq> Inr () \<longrightarrow> c' = c" "same_file_state c c'" "r = Inr () \<longrightarrow> cf_dense c' = None"
    using assms(1) by (auto simp: promote_dense_regular_cache_def same_file_state_def split: option.splits prod.splits)
  have 2: "cached_byte dk c' i = cached_byte dk c i \<and> pages_ok (cf_pages c')
    \<and> (cf_dense c \<noteq> None \<longrightarrow> r = Inr () \<longrightarrow> i < cf_size c \<longrightarrow> bt_get (i div PAGE_SIZE) (cf_pages c') \<noteq> None)"
  proof (cases "\<exists>dense. cf_dense c = Some dense \<and> r = Inr ()")
    case False
    then have "c' = c \<and> (cf_dense c = None \<or> r \<noteq> Inr ())" using assms(1)
      by (auto simp: promote_dense_regular_cache_def split: option.splits prod.splits)
    then show ?thesis using assms(2) by (auto simp: cached_ok_def)
  next
    case True
    then obtain dense where d: "cf_dense c = Some dense" and r: "r = Inr ()" by auto
    then obtain pages where p: "promote_loop fa (drop (0 * PAGE_SIZE) dense) 0 [] m = (m', Some pages)"
      and c': "c' = c\<lparr>cf_pages := pages, cf_dense := None\<rparr>"
      using assms(1) by (auto simp: promote_dense_regular_cache_def split: prod.splits option.splits)
    have pages: "pages_ok pages" "bt_get j pages = (if j * PAGE_SIZE < length dense then Some (dense_page dense j) else None)" for j
      using promote_loop_lookup [OF p] by (auto simp: pages_ok_def)
    have len: "length dense = cf_size c" "persisted_size c \<le> cf_size c" using assms(2) d by (auto simp: cached_ok_def)
    have small: "i < cf_size c \<longrightarrow> i div PAGE_SIZE * PAGE_SIZE < cf_size c" by (meson div_times_less_eq_dividend le_less_trans)
    then have "cached_byte dk c' i = cached_byte dk c i"
      using len by (auto simp: c' d cached_byte_def page_byte_def pages(2) dense_page_byte)
    moreover have "i < cf_size c \<longrightarrow> bt_get (i div PAGE_SIZE) pages \<noteq> None" using small len by (auto simp: pages(2))
    ultimately show ?thesis using pages(1) c' by auto
  qed
  show "r \<noteq> Inr () \<Longrightarrow> c' = c" and "same_file_state c c'"
    and "cached_byte dk c' i = cached_byte dk c i" and "pages_ok (cf_pages c')"
    and "r = Inr () \<Longrightarrow> cf_dense c' = None"
    and "cf_dense c \<noteq> None \<Longrightarrow> r = Inr () \<Longrightarrow> i < cf_size c \<Longrightarrow> bt_get (i div PAGE_SIZE) (cf_pages c') \<noteq> None"
    using 1 2 by auto
qed

section \<open>Writing\<close>

definition cached_at :: "CachedRegularFile \<Rightarrow> usize \<Rightarrow> bool" where
  "cached_at c i \<longleftrightarrow> cf_dense c \<noteq> None \<or> bt_get (i div PAGE_SIZE) (cf_pages c) \<noteq> None"

lemma cached_cong:
  assumes "cf_dense c' = cf_dense c" and "cf_pages c' = cf_pages c" and "persisted_size c' = persisted_size c"
  shows "cached_byte dk c' i = cached_byte dk c i" and "cached_at c' i = cached_at c i"
  by (simp_all only: cached_byte_def cached_at_def assms)

lemma page_for_write_correct:
  assumes "cached_page_for_write x fa (Some d) ino c m idx preserve = (c', m', r)"
    and "pages_ok (cf_pages c)" and "cf_dense c = None"
  shows "same_file_state c c'" and "cf_dense c' = None" and "pages_ok (cf_pages c')"
    and "r = Inl e \<Longrightarrow> c' = c"
    and "r = Inr page \<Longrightarrow> bt_get j (cf_pages c') = (if j = idx then Some page else bt_get j (cf_pages c))"
    and "r = Inr page \<Longrightarrow> length page = PAGE_SIZE"
    and "r = Inr page \<Longrightarrow> preserve \<Longrightarrow> k < PAGE_SIZE \<Longrightarrow>
      page ! k = page_byte (disk_byte x d ino) (persisted_size c) (cf_pages c) (idx * PAGE_SIZE + k)"
proof -
  let ?f = "page_byte (disk_byte x d ino) (persisted_size c) (cf_pages c)"
  have at: "(idx * PAGE_SIZE + k) div PAGE_SIZE = idx" "(idx * PAGE_SIZE + k) mod PAGE_SIZE = k" if "k < PAGE_SIZE" for k
    using that by simp_all
  have err: "c' = c" if "r = Inl e" for e
    using assms(1) that by (auto simp: cached_page_for_write_def split: option.splits prod.splits bool.splits sum.splits)
  then show "r = Inl e \<Longrightarrow> c' = c" .
  show "same_file_state c c'" and "cf_dense c' = None"
    using assms(1,3) by (auto simp: cached_page_for_write_def same_file_state_def split: option.splits prod.splits bool.splits sum.splits)
  have fresh: "length page = PAGE_SIZE \<and> (preserve \<longrightarrow> (\<forall>k<PAGE_SIZE. page ! k = ?f (idx * PAGE_SIZE + k)))"
    if miss: "bt_get idx (cf_pages c) = None" and r: "r = Inr page" for page
  proof (cases "preserve \<and> idx * PAGE_SIZE < persisted_size c")
    case False
    then have "page = replicate PAGE_SIZE 0" using assms(1) miss r
      by (auto simp: cached_page_for_write_def split: prod.splits bool.splits if_splits)
    then show ?thesis using False miss by (auto simp: page_byte_def at)
  next
    case True
    define n where "n = min PAGE_SIZE (persisted_size c - idx * PAGE_SIZE)"
    obtain bs where bs: "extent_aware_read_at x (Some d) ino (idx * PAGE_SIZE) n = Inr bs" "length bs = n"
      "page = bs @ replicate (PAGE_SIZE - n) 0"
      using assms(1) miss r True
      by (auto simp: cached_page_for_write_def Let_def n_def split: prod.splits bool.splits if_splits sum.splits)
    have "page ! k = ?f (idx * PAGE_SIZE + k)" if k: "k < PAGE_SIZE" for k
    proof (cases "k < n")
      case True
      then have "page ! k = disk_byte x d ino (idx * PAGE_SIZE + k)"
        using bs extent_aware_read_correct(2) [OF bs(1), of k] by (simp add: nth_append)
      moreover have "idx * PAGE_SIZE + k < persisted_size c" using True by (auto simp: n_def)
      ultimately show ?thesis using miss by (simp add: page_byte_def at [OF k])
    next
      case False
      then have "page ! k = 0" using bs k by (simp add: nth_append)
      moreover have "\<not> idx * PAGE_SIZE + k < persisted_size c" using False k by (auto simp: n_def)
      ultimately show ?thesis using miss by (simp add: page_byte_def at [OF k])
    qed
    then show ?thesis using bs by (simp add: n_def)
  qed
  have hit: "c' = c" "r = Inr page" if "bt_get idx (cf_pages c) = Some page" for page
    using assms(1) that by (simp_all add: cached_page_for_write_def)
  have put: "c' = c\<lparr>cf_pages := bt_insert idx page (cf_pages c)\<rparr>" if "bt_get idx (cf_pages c) = None" "r = Inr page" for page
    using assms(1) that by (auto simp: cached_page_for_write_def split: prod.splits bool.splits sum.splits)
  show "pages_ok (cf_pages c')"
  proof (cases "bt_get idx (cf_pages c)")
    case None
    then show ?thesis using put fresh assms(2) err by (cases r) (auto intro: pages_ok_insert)
  qed (use hit assms(2) in simp)
  assume r: "r = Inr page"
  show "bt_get j (cf_pages c') = (if j = idx then Some page else bt_get j (cf_pages c))"
    using hit put r by (cases "bt_get idx (cf_pages c)") (auto simp: bt_get_insert)
  show "length page = PAGE_SIZE"
    using hit fresh r pages_ok_get [OF assms(2)] by (cases "bt_get idx (cf_pages c)") auto
  assume p: "preserve" and k: "k < PAGE_SIZE"
  show "page ! k = ?f (idx * PAGE_SIZE + k)"
    using hit fresh r p k by (cases "bt_get idx (cf_pages c)") (auto simp: page_byte_def at)
qed

lemma write_pages_loop_correct:
  assumes "write_pages_loop x fa (Some d) ino offset buf copied c m = (c', m', r)"
    and "pages_ok (cf_pages c)" and "cf_dense c = None" and "copied \<le> length buf"
  shows "same_file_state c c' \<and> cf_dense c' = None \<and> pages_ok (cf_pages c')
    \<and> (\<forall>i. cached_at c i \<longrightarrow> cached_at c' i)
    \<and> (case r of
         Inl e \<Rightarrow> copied = 0 \<and> (\<forall>i. cached_byte (disk_byte x d ino) c' i = cached_byte (disk_byte x d ino) c i)
       | Inr n \<Rightarrow> copied \<le> n \<and> n \<le> length buf \<and> (copied = 0 \<and> buf \<noteq> [] \<longrightarrow> 0 < n)
           \<and> (\<forall>i. cached_byte (disk_byte x d ino) c' i =
                 (if offset + copied \<le> i \<and> i < offset + n then buf ! (i - offset) else cached_byte (disk_byte x d ino) c i))
           \<and> (\<forall>i. offset + copied \<le> i \<and> i < offset + n \<longrightarrow> cached_at c' i))"
  using assms
proof (induction x fa "Some d" ino offset buf copied c m rule: write_pages_loop.induct)
  case (1 x fa ino offset buf copied c m)
  let ?f = "cached_byte (disk_byte x d ino)"
  show ?case
  proof (cases "copied < length buf")
    case False
    then show ?thesis using "1.prems" by (auto simp: write_pages_loop.simps same_file_state_def)
  next
    case True
    define cur where "cur = offset + copied"
    define idx where "idx = cur div PAGE_SIZE"
    define off where "off = cur mod PAGE_SIZE"
    define n where "n = min (length buf - copied) (PAGE_SIZE - off)"
    define preserve where "preserve = (off \<noteq> 0 \<or> n \<noteq> PAGE_SIZE)"
    obtain c1 m1 r1 where pw: "cached_page_for_write x fa (Some d) ino c m idx preserve = (c1, m1, r1)"
      by (metis prod_cases3)
    note P = page_for_write_correct [OF pw "1.prems"(2,3)]
    have eq: "write_pages_loop x fa (Some d) ino offset buf copied c m =
      (case r1 of Inl e \<Rightarrow> (c1, m1, if copied = 0 then Inl e else Inr copied)
       | Inr page \<Rightarrow> write_pages_loop x fa (Some d) ino offset buf (copied + n)
                  (c1\<lparr>cf_pages := bt_insert idx (splice_at page off (take n (drop copied buf))) (cf_pages c1)\<rparr>) m1)"
      unfolding write_pages_loop.simps [of x fa "Some d" ino offset buf copied c m] Let_def
      using True pw by (simp add: cur_def idx_def off_def n_def preserve_def split: sum.splits)
    show ?thesis
    proof (cases r1)
      case (Inl e)
      then have "c' = c" using eq "1.prems"(1) P(4) by simp
      moreover have "r = (if copied = 0 then Inl e else Inr copied)" using Inl eq "1.prems"(1) by simp
      ultimately show ?thesis using "1.prems"(2,3,4) by (auto simp: same_file_state_def)
    next
      case (Inr page)
      define page' where "page' = splice_at page off (take n (drop copied buf))"
      define c2 where "c2 = c1\<lparr>cf_pages := bt_insert idx page' (cf_pages c1)\<rparr>"
      have rec: "write_pages_loop x fa (Some d) ino offset buf (copied + n) c2 m1 = (c', m', r)"
        using eq Inr "1.prems"(1) by (simp add: c2_def page'_def)
      have off: "off < PAGE_SIZE" "cur = idx * PAGE_SIZE + off" by (simp_all add: off_def idx_def)
      have n: "0 < n" "off + n \<le> PAGE_SIZE" "copied + n \<le> length buf" using True off(1) by (auto simp: n_def)
      have plen: "length page = PAGE_SIZE" using P(6) [OF Inr] .
      have p'len: "length page' = PAGE_SIZE" using plen n by (simp add: page'_def splice_at_def)
      have p'k: "page' ! k = (if off \<le> k \<and> k < off + n then buf ! (copied + (k - off)) else page ! k)" if "k < PAGE_SIZE" for k
        using that plen n by (auto simp: page'_def splice_at_def nth_append min_def)
      have same: "same_file_state c c2" "cf_dense c2 = None" using P(1,2) by (simp_all add: c2_def same_file_state_def)
      have ok2: "pages_ok (cf_pages c2)" using P(3) p'len by (simp add: c2_def pages_ok_insert)
      have get2: "bt_get j (cf_pages c2) = (if j = idx then Some page' else bt_get j (cf_pages c))" for j
        using P(5) [OF Inr] by (simp add: c2_def bt_get_insert)
      have bytes: "?f c2 i = (if cur \<le> i \<and> i < cur + n then buf ! (i - offset) else ?f c i)" for i
      proof (cases "i div PAGE_SIZE = idx")
        case False
        have "\<not> (cur \<le> i \<and> i < cur + n)"
        proof
          assume a: "cur \<le> i \<and> i < cur + n"
          then have "i = cur + (i - cur)" "i - cur < PAGE_SIZE - cur mod PAGE_SIZE" using n(2) by (auto simp: off_def)
          then have "i div PAGE_SIZE = cur div PAGE_SIZE" using in_unit(1) [OF PAGE_SIZE_pos(1), of "i - cur" cur] by simp
          then show False using False by (simp add: idx_def)
        qed
        then show ?thesis using False same "1.prems"(3) by (auto simp: cached_byte_def page_byte_def get2 same_file_state_def)
      next
        case i: True
        define k where "k = i mod PAGE_SIZE"
        have k: "k < PAGE_SIZE" "i = idx * PAGE_SIZE + k" using i by (auto simp: k_def)
        have "?f c2 i = page' ! k" using same i by (simp add: cached_byte_def page_byte_def get2 k_def)
        also have "\<dots> = (if off \<le> k \<and> k < off + n then buf ! (copied + (k - off)) else page ! k)" by (rule p'k [OF k(1)])
        also have "\<dots> = (if cur \<le> i \<and> i < cur + n then buf ! (i - offset) else ?f c i)"
        proof (cases "off \<le> k \<and> k < off + n")
          case True
          then have "copied + (k - off) = i - offset" using k off(2) by (simp add: cur_def)
          then show ?thesis using True k off(2) by simp
        next
          case False
          then have "preserve" using k n by (auto simp: preserve_def)
          then have "page ! k = ?f c i" using P(7) [OF Inr _ k(1)] "1.prems"(3) k(2) by (simp add: cached_byte_def)
          then show ?thesis using False k off(2) by auto
        qed
        finally show ?thesis .
      qed
      have hyp: "same_file_state c2 c' \<and> cf_dense c' = None \<and> pages_ok (cf_pages c')
        \<and> (\<forall>i. cached_at c2 i \<longrightarrow> cached_at c' i)
        \<and> (case r of
             Inl e \<Rightarrow> copied + n = 0 \<and> (\<forall>i. ?f c' i = ?f c2 i)
           | Inr k \<Rightarrow> copied + n \<le> k \<and> k \<le> length buf \<and> (copied + n = 0 \<and> buf \<noteq> [] \<longrightarrow> 0 < k)
               \<and> (\<forall>i. ?f c' i = (if offset + (copied + n) \<le> i \<and> i < offset + k then buf ! (i - offset) else ?f c2 i))
               \<and> (\<forall>i. offset + (copied + n) \<le> i \<and> i < offset + k \<longrightarrow> cached_at c' i))"
        by (rule "1.hyps" [OF True cur_def idx_def off_def n_def preserve_def pw [symmetric] refl Inr,
              folded page'_def, folded c2_def, OF rec ok2 same(2) n(3)])
      have grow: "cached_at c i \<Longrightarrow> cached_at c2 i" "cur \<le> i \<Longrightarrow> i < cur + n \<Longrightarrow> cached_at c2 i" for i
      proof -
        show "cached_at c i \<Longrightarrow> cached_at c2 i" using "1.prems"(3) by (simp add: cached_at_def get2)
        assume "cur \<le> i" "i < cur + n"
        then have "i = cur + (i - cur)" "i - cur < PAGE_SIZE - cur mod PAGE_SIZE" using n(2) by (auto simp: off_def)
        then have "i div PAGE_SIZE = idx" using in_unit(1) [OF PAGE_SIZE_pos(1), of "i - cur" cur] by (simp add: idx_def)
        then show "cached_at c2 i" by (simp add: cached_at_def get2)
      qed
      show ?thesis
      proof (cases r)
        case (Inr k)
        have "cached_at c' i" if "offset + copied \<le> i" "i < offset + k" for i
          using that hyp Inr grow(2) [of i] by (cases "i < cur + n") (auto simp: cur_def add.assoc)
        then show ?thesis using Inr hyp same grow n bytes by (auto simp: same_file_state_def cur_def)
      qed (use hyp n in auto)
    qed
  qed
qed

section \<open>Shrinking\<close>

lemma bt_get_filter_key: "bt_get j (filter (\<lambda>(i, _). P i) m) = (if P j then bt_get j m else None)"
  by (induction m) auto

lemma shrink_correct:
  assumes "shrink_cached fa c m n = (c', m')" and "cached_ok dk c"
  shows "cached_byte dk c' i = (if i < n then cached_byte dk c i else 0)" and "pages_ok (cf_pages c')"
    and "cf_dense c = Some bs \<Longrightarrow> cf_dense c' = Some (take n bs)" and "cf_dense c = None \<Longrightarrow> cf_dense c' = None"
    and "cached_at c i \<Longrightarrow> i < n \<Longrightarrow> cached_at c' i"
    and "persisted_size c' = min (persisted_size c) n" and "cf_size c' = cf_size c"
    and "truncate_to c' = Some (case truncate_to c of None \<Rightarrow> n | Some t \<Rightarrow> min t n)"
    and "cf_dirty c' = clip_dirty (cf_dirty c) n" and "cf_evicted c' = cf_evicted c" and "cf_times c' = cf_times c"
proof -
  show "persisted_size c' = min (persisted_size c) n" "cf_size c' = cf_size c" "cf_dense c = Some bs \<Longrightarrow> cf_dense c' = Some (take n bs)"
    "cf_dense c = None \<Longrightarrow> cf_dense c' = None" "cf_dirty c' = clip_dirty (cf_dirty c) n" "cf_evicted c' = cf_evicted c" "cf_times c' = cf_times c"
    "truncate_to c' = Some (case truncate_to c of None \<Rightarrow> n | Some t \<Rightarrow> min t n)"
    using assms(1) by (auto simp: shrink_cached_def Let_def clip_dirty_ranges_def split: option.splits)
  have main: "cached_byte dk c' i = (if i < n then cached_byte dk c i else 0) \<and> pages_ok (cf_pages c')
    \<and> (cached_at c i \<longrightarrow> i < n \<longrightarrow> cached_at c' i)"
  proof (cases "cf_dense c")
    case (Some bs)
    then have "cf_dense c' = Some (take n bs)" "cf_pages c' = cf_pages c"
      using assms(1) by (auto simp: shrink_cached_def Let_def clip_dirty_ranges_def)
    then show ?thesis using Some assms(2) by (auto simp: cached_byte_def cached_ok_def cached_at_def)
  next
    case None
    define fr where "fr = (n + PAGE_SIZE - 1) div PAGE_SIZE"
    define kept where "kept = filter (\<lambda>(i, _). i < fr) (cf_pages c)"
    define q where "q = n div PAGE_SIZE"
    define rm where "rm = n mod PAGE_SIZE"
    define clear where "clear = (\<lambda>page :: byte list. take rm page @ replicate (PAGE_SIZE - rm) 0)"
    have nq: "n = q * PAGE_SIZE + rm" "rm < PAGE_SIZE" by (simp_all add: q_def rm_def)
    have fr: "fr = (if rm = 0 then q else q + 1)"
    proof -
      have "fr = (q * PAGE_SIZE + (rm + (PAGE_SIZE - 1))) div PAGE_SIZE" using nq by (simp add: fr_def add.assoc)
      also have "\<dots> = q + (rm + (PAGE_SIZE - 1)) div PAGE_SIZE" by (subst div_mult_self3) auto
      also have "(rm + (PAGE_SIZE - 1)) div PAGE_SIZE = (if rm = 0 then 0 else 1)" using nq(2) by (simp add: div_nat_eqI)
      finally show ?thesis by simp
    qed
    have pg: "cf_dense c' = None" "cf_pages c' = (if rm \<noteq> 0 then (case bt_get q kept of Some page \<Rightarrow> bt_insert q (clear page) kept | None \<Rightarrow> kept) else kept)"
      using assms(1) None by (auto simp: shrink_cached_def Let_def clip_dirty_ranges_def fr_def kept_def q_def rm_def clear_def split: option.splits)
    have ok: "pages_ok (cf_pages c)" using assms(2) by (simp add: cached_ok_def)
    have kept: "pages_ok kept" using ok by (auto simp: pages_ok_def kept_def bt_sorted_def sorted_wrt_map_filter)
    have get: "bt_get j (cf_pages c') = (if j = q \<and> rm \<noteq> 0 then map_option clear (bt_get q (cf_pages c))
                 else if j < fr then bt_get j (cf_pages c) else None)" for j
      using pg(2) fr by (auto simp: kept_def bt_get_filter_key bt_get_insert split: option.splits)
    have len: "bt_get j (cf_pages c) = Some page \<Longrightarrow> length page = PAGE_SIZE" for j page using ok by (rule pages_ok_get)
    have clen: "length page = PAGE_SIZE \<Longrightarrow> length (clear page) = PAGE_SIZE" for page using nq(2) by (simp add: clear_def)
    have "pages_ok (cf_pages c')"
      using pg(2) kept len clen by (auto simp: kept_def bt_get_filter_key intro!: pages_ok_insert split: option.splits if_splits)
    moreover have "cached_byte dk c' i = (if i < n then cached_byte dk c i else 0)"
    proof -
      define j where "j = i div PAGE_SIZE"
      define k where "k = i mod PAGE_SIZE"
      have i: "i = j * PAGE_SIZE + k" "k < PAGE_SIZE" by (simp_all add: j_def k_def)
      have cmp: "i < n \<longleftrightarrow> j < q \<or> (j = q \<and> k < rm)"
      proof (cases j q rule: linorder_cases)
        case less
        then have "(j + 1) * PAGE_SIZE \<le> q * PAGE_SIZE" by (intro mult_le_mono1) simp
        then show ?thesis using less i nq by simp
      next
        case greater
        then have "(q + 1) * PAGE_SIZE \<le> j * PAGE_SIZE" by (intro mult_le_mono1) simp
        then show ?thesis using greater i nq by simp
      qed (use i nq in auto)
      have pers: "persisted_size c' = min (persisted_size c) n" by fact
      show ?thesis
      proof (cases "bt_get j (cf_pages c')")
        case None
        then have "i < n \<longrightarrow> bt_get j (cf_pages c) = None" using cmp fr by (auto simp: get split: if_splits)
        then show ?thesis using None \<open>cf_dense c = None\<close> pg(1) pers by (auto simp: cached_byte_def page_byte_def j_def)
      next
        case (Some page)
        then have "page ! k = (if i < n then (case bt_get j (cf_pages c) of Some p \<Rightarrow> p ! k | None \<Rightarrow> 0) else 0)"
          using cmp fr i(2) len by (auto simp: get clear_def nth_append split: if_splits option.splits)
        moreover have "bt_get j (cf_pages c) \<noteq> None" using Some by (auto simp: get split: if_splits)
        ultimately show ?thesis using Some \<open>cf_dense c = None\<close> pg(1) by (auto simp: cached_byte_def page_byte_def j_def k_def)
      qed
    qed
    moreover have "cached_at c i \<longrightarrow> i < n \<longrightarrow> cached_at c' i"
    proof (intro impI)
      assume a: "cached_at c i" "i < n"
      then have "i div PAGE_SIZE \<le> q" by (simp add: q_def div_le_mono)
      moreover have "i div PAGE_SIZE = q \<Longrightarrow> rm \<noteq> 0"
        using a(2) nq by (metis add.right_neutral div_times_less_eq_dividend not_le)
      ultimately show "cached_at c' i" using a(1) None pg(1) fr by (auto simp: cached_at_def get)
    qed
    ultimately show ?thesis by blast
  qed
  show "cached_byte dk c' i = (if i < n then cached_byte dk c i else 0)" and "pages_ok (cf_pages c')"
    and "cached_at c i \<Longrightarrow> i < n \<Longrightarrow> cached_at c' i" using main by auto
qed

section \<open>Writes and resizes act on the byte string\<close>

lemma refresh_fields [simp]:
  "dm_ranges (refresh_writeback_state d) = dm_ranges d" "full_dirty (refresh_writeback_state d) = full_dirty d"
  "size_dirty (refresh_writeback_state d) = size_dirty d" "dm_seq (refresh_writeback_state d) = dm_seq d"
  "last_error (refresh_writeback_state d) = last_error d"
  by (simp_all add: refresh_writeback_state_def)

lemma note_write_fields [simp]:
  "dm_ranges (note_write d) = dm_ranges d" "full_dirty (note_write d) = full_dirty d"
  "size_dirty (note_write d) = size_dirty d" "dm_seq (note_write d) = dm_seq d + 1" "last_error (note_write d) = last_error d"
  "writeback_active (note_write d) = writeback_active d"
  by (auto simp: note_write_def writeback_active_def split: PageCacheWritebackState.splits)

lemma mark_dirty_fields [simp]:
  "full_dirty (mark_dirty sz d s e) = full_dirty d" "size_dirty (mark_dirty sz d s e) = size_dirty d"
  "dm_seq (mark_dirty sz d s e) = dm_seq d" "last_error (mark_dirty sz d s e) = last_error d"
  "writeback_active (mark_dirty sz d s e) = writeback_active d"
  by (auto simp: mark_dirty_def Let_def refresh_writeback_state_def writeback_active_def)

lemma clip_dirty_fields [simp]:
  "full_dirty (clip_dirty d n) = full_dirty d" "size_dirty (clip_dirty d n) = size_dirty d"
  "dm_seq (clip_dirty d n) = dm_seq d" "last_error (clip_dirty d n) = last_error d"
  "dm_ranges (clip_dirty d n) = clip_ranges n (dm_ranges d)" "writeback_active (clip_dirty d n) = writeback_active d"
  by (auto simp: clip_dirty_def refresh_writeback_state_def writeback_active_def)

lemma write_cached_correct:
  assumes "write_cached x fa now (Some d) ino c m offset buf = (c', m', r)" and "cached_ok (disk_byte x d ino) c"
  defines "dk \<equiv> disk_byte x d ino"
  shows "cached_ok dk c' \<and> persisted_size c' = persisted_size c \<and> truncate_to c' = truncate_to c
    \<and> (\<forall>i < cf_size c. cached_at c i \<longrightarrow> cached_at c' i)
    \<and> (case r of
         Inl e \<Rightarrow> cf_size c' = cf_size c \<and> cf_dirty c' = cf_dirty c \<and> (\<forall>i. cached_byte dk c' i = cached_byte dk c i)
       | Inr n \<Rightarrow> n \<le> length buf \<and> (buf \<noteq> [] \<longrightarrow> 0 < n) \<and> cf_size c' = max (cf_size c) (offset + n)
           \<and> (\<forall>i. cached_byte dk c' i = (if offset \<le> i \<and> i < offset + n then buf ! (i - offset) else cached_byte dk c i))
           \<and> (\<forall>i. offset \<le> i \<and> i < offset + n \<longrightarrow> cached_at c' i)
           \<and> cf_dirty c' = note_write (if offset + n > cf_size c
                then (mark_dirty (cf_size c') (cf_dirty c) offset (offset + n))\<lparr>size_dirty := True\<rparr>
                else mark_dirty (cf_size c') (cf_dirty c) offset (offset + n)))"
proof -
  obtain c1 m1 r1 where pro: "(if DENSE_REGULAR_CACHE_LIMIT < offset + length buf \<and> cf_dense c \<noteq> None
      then promote_dense_regular_cache fa c m else (c, m, Inr ())) = (c1, m1, r1)" by (metis prod_cases3)
  have ok: "cached_ok dk c" using assms(2) by (simp add: dk_def)
  have 1: "same_file_state c c1" "\<And>i. cached_byte dk c1 i = cached_byte dk c i" "pages_ok (cf_pages c1)" "r1 \<noteq> Inr () \<Longrightarrow> c1 = c"
    "r1 = Inr () \<Longrightarrow> cf_dense c1 = None \<or> cf_dense c1 = cf_dense c" "\<And>i. i < cf_size c \<Longrightarrow> cached_at c i \<Longrightarrow> cached_at c1 i"
  proof -
    consider "promote_dense_regular_cache fa c m = (c1, m1, r1)" "cf_dense c \<noteq> None" | "c1 = c" "r1 = Inr ()" using pro by (auto split: if_splits)
    then have "same_file_state c c1 \<and> (\<forall>i. cached_byte dk c1 i = cached_byte dk c i) \<and> pages_ok (cf_pages c1) \<and> (r1 \<noteq> Inr () \<longrightarrow> c1 = c)
      \<and> (r1 = Inr () \<longrightarrow> cf_dense c1 = None \<or> cf_dense c1 = cf_dense c) \<and> (\<forall>i. i < cf_size c \<longrightarrow> cached_at c i \<longrightarrow> cached_at c1 i)"
    proof cases
      case 1
      note P = promote_correct [OF 1(1) ok]
      show ?thesis using P 1(2) by (cases "r1 = Inr ()") (auto simp: cached_at_def)
    qed (use ok in \<open>auto simp: same_file_state_def cached_ok_def\<close>)
    then show "same_file_state c c1" "\<And>i. cached_byte dk c1 i = cached_byte dk c i" "pages_ok (cf_pages c1)" "r1 \<noteq> Inr () \<Longrightarrow> c1 = c"
      "r1 = Inr () \<Longrightarrow> cf_dense c1 = None \<or> cf_dense c1 = cf_dense c" "\<And>i. i < cf_size c \<Longrightarrow> cached_at c i \<Longrightarrow> cached_at c1 i" by auto
  qed
  show ?thesis
  proof (cases r1)
    case (Inl e)
    then have "c' = c" "r = Inl e" using assms(1) pro 1(4) by (auto simp: write_cached_def Let_def)
    then show ?thesis using ok by auto
  next
    case (Inr u)
    define bv where "bv = (case cf_dense c1 of
                      Some dense \<Rightarrow>
                        (c1\<lparr>cf_dense := Some (splice_at (if offset + length buf > length dense then vec_resize dense (offset + length buf) 0 else dense) offset buf)\<rparr>,
                         m1, Inr (length buf))
                    | None \<Rightarrow> write_pages_loop x fa (Some d) ino offset buf 0 c1 m1)"
    obtain c2 m2 r2 where "bv = (c2, m2, r2)" by (cases bv)
    note body = this [unfolded bv_def]
    have B: "same_file_state c c2 \<and> pages_ok (cf_pages c2) \<and> (\<forall>i < cf_size c. cached_at c i \<longrightarrow> cached_at c2 i)
      \<and> (case r2 of Inl e \<Rightarrow> (\<forall>i. cached_byte dk c2 i = cached_byte dk c i) \<and> cf_dense c2 = None
         | Inr n \<Rightarrow> n \<le> length buf \<and> (buf \<noteq> [] \<longrightarrow> 0 < n)
            \<and> (\<forall>bs. cf_dense c2 = Some bs \<longrightarrow> length bs = max (cf_size c) (offset + n))
            \<and> (\<forall>i. cached_byte dk c2 i = (if offset \<le> i \<and> i < offset + n then buf ! (i - offset) else cached_byte dk c i))
            \<and> (\<forall>i. offset \<le> i \<and> i < offset + n \<longrightarrow> cached_at c2 i))"
    proof (cases "cf_dense c1")
      case None
      note W = write_pages_loop_correct [of x fa d ino offset buf 0 c1 m1 c2 m2 r2, OF _ 1(3) None]
      show ?thesis using W body None 1 by (auto simp: dk_def same_file_state_def split: sum.splits)
    next
      case (Some bs)
      let ?bs = "if offset + length buf > length bs then vec_resize bs (offset + length buf) 0 else bs"
      have len: "length bs = cf_size c" using 1(5) Some Inr ok by (auto simp: cached_ok_def)
      have c2: "c2 = c1\<lparr>cf_dense := Some (splice_at ?bs offset buf)\<rparr>" "r2 = Inr (length buf)" using body Some by auto
      have nth: "?bs ! i = (if i < length bs then bs ! i else 0)" if "i < length ?bs" for i
        using that by (auto simp: vec_resize_def nth_append)
      have blen: "length ?bs = max (cf_size c) (offset + length buf)" using len by (auto simp: vec_resize_def)
      have "cached_byte dk c2 i = (if offset \<le> i \<and> i < offset + length buf then buf ! (i - offset) else cached_byte dk c1 i)" for i
        using nth [of i] blen Some len by (auto simp: c2 cached_byte_def splice_at_def nth_append min_def split: if_splits)
      moreover have "length (splice_at ?bs offset buf) = max (cf_size c) (offset + length buf)"
        unfolding splice_at_def using blen by simp
      ultimately show ?thesis using 1 by (auto simp: c2 same_file_state_def cached_at_def)
    qed
    have res: "(c', m', r) = (case r2 of Inl e \<Rightarrow> (c2, m2, Inl e) | Inr copied \<Rightarrow>
       (let written_end = offset + copied;
                       c3 = c2\<lparr>cf_size := max (cf_size c2) written_end\<rparr>;
                       c4 = mark_dirty_range c3 offset written_end;
                       c5 = (if written_end > cf_size c then c4\<lparr>cf_dirty := (cf_dirty c4)\<lparr>size_dirty := True\<rparr>\<rparr> else c4)
                   in (note_cached_data_write now c5, m2, Inr copied)))"
      using assms(1) unfolding write_cached_def Let_def pro Inr prod.case sum.case body by simp
    show ?thesis
    proof (cases r2)
      case e: (Inl e)
      then have "c' = c2" "r = Inl e" using res by auto
      then show ?thesis using e B ok by (auto simp: cached_ok_def same_file_state_def)
    next
      case n: (Inr n)
      have r: "r = Inr n" using res n by (simp add: Let_def)
      have c': "cf_size c' = max (cf_size c) (offset + n)" "persisted_size c' = persisted_size c" "truncate_to c' = truncate_to c"
        "cf_evicted c' = cf_evicted c" "cf_pages c' = cf_pages c2" "cf_dense c' = cf_dense c2"
        "cf_dirty c' = note_write (if offset + n > cf_size c
                then (mark_dirty (cf_size c') (cf_dirty c) offset (offset + n))\<lparr>size_dirty := True\<rparr>
                else mark_dirty (cf_size c') (cf_dirty c) offset (offset + n))"
        using res n B by (auto simp: Let_def note_cached_data_write_def mark_dirty_range_def same_file_state_def)
      have eqv: "cached_byte dk c' i = cached_byte dk c2 i" "cached_at c' i = cached_at c2 i" for i
        by (rule cached_cong; use c' B in \<open>simp add: same_file_state_def\<close>)+
      have "cached_ok dk c'" using ok c' B n by (auto simp: cached_ok_def eqv)
      then show ?thesis using B c' r n by (auto simp: eqv)
    qed
  qed
qed

lemma resize_cached_correct:
  assumes "resize_cached fa now c m n = (c', m', r)" and ok: "cached_ok dk c"
  shows "cached_ok dk c' \<and> (\<forall>i < min n (cf_size c). cached_at c i \<longrightarrow> cached_at c' i)
    \<and> (case r of
         Inl e \<Rightarrow> c' = c
       | Inr _ \<Rightarrow> cf_size c' = n \<and> persisted_size c' = min (persisted_size c) n
           \<and> truncate_to c' = (if n < cf_size c then Some (case truncate_to c of None \<Rightarrow> n | Some t \<Rightarrow> min t n) else truncate_to c)
           \<and> (\<forall>i. cached_byte dk c' i = (if i < n then cached_byte dk c i else 0))
           \<and> (\<exists>d0. cf_dirty c' = note_write (d0\<lparr>size_dirty := True\<rparr>)
                \<and> d0 = (if n < cf_size c then clip_dirty (cf_dirty c) n
                         else if n > cf_size c then mark_dirty n (cf_dirty c) (cf_size c) n else cf_dirty c)))"
proof -
  define pv where "pv = (if DENSE_REGULAR_CACHE_LIMIT < n \<and> cf_dense c \<noteq> None then promote_dense_regular_cache fa c m else (c, m, Inr ()))"
  obtain c1 m1 r1 where pv: "pv = (c1, m1, r1)" by (cases pv)
  have 1: "same_file_state c c1 \<and> (\<forall>i. cached_byte dk c1 i = cached_byte dk c i) \<and> pages_ok (cf_pages c1) \<and> (r1 \<noteq> Inr () \<longrightarrow> c1 = c)
    \<and> (cf_dense c1 = None \<or> cf_dense c1 = cf_dense c) \<and> (\<forall>i. i < cf_size c \<longrightarrow> cached_at c i \<longrightarrow> cached_at c1 i)"
  proof (cases "DENSE_REGULAR_CACHE_LIMIT < n \<and> cf_dense c \<noteq> None")
    case True
    then have "promote_dense_regular_cache fa c m = (c1, m1, r1)" using pv by (simp add: pv_def)
    note P = promote_correct [OF this ok]
    show ?thesis using P True by (cases "r1 = Inr ()") (auto simp: cached_at_def)
  next
    case False
    then have "c1 = c" using pv unfolding pv_def by (metis prod.inject)
    then show ?thesis using ok by (auto simp: same_file_state_def cached_ok_def)
  qed
  have ok1: "cached_ok dk c1" using 1 ok by (auto simp: cached_ok_def same_file_state_def)
  show ?thesis
  proof (cases r1)
    case (Inl e)
    then have "c' = c" "r = Inl e" using assms(1) pv 1 by (auto simp: resize_cached_def Let_def pv_def)
    then show ?thesis using ok by (auto simp: same_file_state_def)
  next
    case (Inr u)
    define bv where "bv = (if n < cf_size c then shrink_cached fa c1 m1 n
                    else if n > cf_size c then (c1\<lparr>cf_dense := map_option (\<lambda>bs. vec_resize bs n 0) (cf_dense c1)\<rparr>, m1)
                    else (c1, m1))"
    obtain c2 m2 where bv: "bv = (c2, m2)" by (cases bv)
    have res: "r = Inr ()" "cf_dense c' = cf_dense c2" "cf_pages c' = cf_pages c2" "persisted_size c' = persisted_size c2"
      "truncate_to c' = truncate_to c2" "cf_evicted c' = cf_evicted c2" "cf_size c' = n"
      "cf_dirty c' = note_write ((if n > cf_size c then mark_dirty n (cf_dirty c2) (cf_size c) n else cf_dirty c2)\<lparr>size_dirty := True\<rparr>)"
      using assms(1) pv bv Inr unfolding resize_cached_def Let_def pv_def [symmetric] bv_def [symmetric]
      by (auto simp: pv_def [symmetric] bv_def [symmetric] note_cached_data_write_def mark_dirty_range_def split: if_splits)
    have eqv: "cached_byte dk c' i = cached_byte dk c2 i" "cached_at c' i = cached_at c2 i" for i
      by (rule cached_cong; use res in simp)+
    consider "n < cf_size c" | "n = cf_size c" | "n > cf_size c" by linarith
    then show ?thesis
    proof cases
      case 1
      have sh: "shrink_cached fa c1 m1 n = (c2, m2)" using bv 1 by (simp add: bv_def)
      note S = shrink_correct [OF sh ok1]
      note f = \<open>same_file_state c c1 \<and> _\<close>
      have den: "length bs = n" if "cf_dense c2 = Some bs" for bs
        using that S(3,4) ok1 f 1 by (cases "cf_dense c1") (auto simp: cached_ok_def same_file_state_def)
      have fs: "cf_size c1 = cf_size c" "persisted_size c1 = persisted_size c" "truncate_to c1 = truncate_to c" "cf_dirty c1 = cf_dirty c"
        "cf_evicted c1 = cf_evicted c" "\<And>i. cached_byte dk c1 i = cached_byte dk c i" "\<And>i. i < cf_size c \<Longrightarrow> cached_at c i \<Longrightarrow> cached_at c1 i"
        using f by (auto simp: same_file_state_def)
      have bytes: "cached_byte dk c' i = (if i < n then cached_byte dk c i else 0)" for i using S(1) [of i] by (simp add: eqv fs)
      have at: "cached_at c' i" if "i < min n (cf_size c)" "cached_at c i" for i using S(5) [of i] fs(7) [of i] that by (simp add: eqv)
      have ok': "cached_ok dk c'" using ok den by (simp add: cached_ok_def res bytes S(2,6,10) fs)
      have "cf_dirty c' = note_write ((clip_dirty (cf_dirty c) n)\<lparr>size_dirty := True\<rparr>)" using 1 by (simp add: res S(9) fs)
      then show ?thesis using ok' at bytes 1 by (auto simp: res S(6,8) fs)
    next
      case 2
      then have "c2 = c1" using bv by (simp add: bv_def)
      then show ?thesis using res eqv \<open>same_file_state c c1 \<and> _\<close> ok1 2 by (auto simp: cached_ok_def same_file_state_def)
    next
      case 3
      note f = \<open>same_file_state c c1 \<and> _\<close>
      have c2: "c2 = c1\<lparr>cf_dense := map_option (\<lambda>bs. vec_resize bs n 0) (cf_dense c1)\<rparr>" using bv 3 by (simp add: bv_def)
      have len: "length bs = cf_size c" if "cf_dense c1 = Some bs" for bs using that ok1 f by (auto simp: cached_ok_def same_file_state_def)
      have by2: "cached_byte dk c2 i = cached_byte dk c1 i" for i
        using 3 len by (auto simp: c2 cached_byte_def vec_resize_def nth_append split: option.splits)
      have at2: "cached_at c1 i \<Longrightarrow> cached_at c2 i" for i by (auto simp: c2 cached_at_def)
      have z: "cached_byte dk c i = 0" if "\<not> i < n" for i using that ok 3 by (simp add: cached_ok_def)
      show ?thesis using res eqv by2 at2 f ok1 3 z len by (auto simp: c2 cached_ok_def same_file_state_def vec_resize_def)
    qed
  qed
qed

end
