(* ===== verification/Durability.thy ===== *)
theory Durability
  imports File_Content
begin

text \<open>
  Write-back loses nothing. While a snapshot of one cluster is on its way to the device, other tasks
  go on writing and resizing the cached file; \<open>file_inv\<close> is the invariant that ties the dirty
  ranges, the pending truncation and the in-flight snapshot to the bytes on the device, and
  \<open>ext4_laws\<close> lists what is relied on of the ext4 library.
\<close>

section \<open>What is relied on of the library\<close>

text \<open>A write that starts at or before the end of the file changes only its own range, extends the
  file at most to its end and, when it reports all bytes written, has written them. A truncation
  keeps the bytes below the new length. Storing times changes neither size nor contents. Nothing is
  said about the contents of bytes that were never written.\<close>

definition write_law :: "'d ext4_ops \<Rightarrow> usize \<Rightarrow> bool" where
  "write_law x ino \<longleftrightarrow>
     (\<forall>d off bs d' r. x_write_at x d ino off bs = (d', r) \<and> bs \<noteq> [] \<and> off \<le> x_size x d ino \<longrightarrow>
        x_size x d ino \<le> x_size x d' ino \<and> x_size x d' ino \<le> max (x_size x d ino) (off + length bs)
        \<and> (\<forall>i < x_size x d ino. \<not> (off \<le> i \<and> i < off + length bs) \<longrightarrow> disk_byte x d' ino i = disk_byte x d ino i)
        \<and> (r = Inr (length bs) \<longrightarrow> off + length bs \<le> x_size x d' ino
             \<and> (\<forall>k < length bs. disk_byte x d' ino (off + k) = bs ! k)))"

definition truncate_law :: "'d ext4_ops \<Rightarrow> usize \<Rightarrow> bool" where
  "truncate_law x ino \<longleftrightarrow>
     (\<forall>d n d' r. x_truncate x d ino n = (d', r) \<and> n < x_size x d ino \<longrightarrow>
        n \<le> x_size x d' ino \<and> x_size x d' ino \<le> x_size x d ino \<and> (r = Inr () \<longrightarrow> x_size x d' ino = n)
        \<and> (\<forall>i < n. disk_byte x d' ino i = disk_byte x d ino i))"

definition times_law :: "'d ext4_ops \<Rightarrow> usize \<Rightarrow> bool" where
  "times_law x ino \<longleftrightarrow>
     (\<forall>d tm. x_size x (x_set_times x d ino tm) ino = x_size x d ino
        \<and> (\<forall>i. disk_byte x (x_set_times x d ino tm) ino i = disk_byte x d ino i))"

definition ext4_laws :: "'d ext4_ops \<Rightarrow> usize \<Rightarrow> bool" where
  "ext4_laws x ino \<longleftrightarrow> write_law x ino \<and> truncate_law x ino \<and> times_law x ino"

text \<open>A device that has room for files of \<open>cap\<close> bytes and does not fail.\<close>

definition reliable :: "'d ext4_ops \<Rightarrow> usize \<Rightarrow> usize \<Rightarrow> bool" where
  "reliable x ino cap \<longleftrightarrow>
     (\<forall>d off bs. off \<le> x_size x d ino \<and> bs \<noteq> [] \<and> off + length bs \<le> cap \<longrightarrow> snd (x_write_at x d ino off bs) = Inr (length bs))
     \<and> (\<forall>d n. n < x_size x d ino \<longrightarrow> snd (x_truncate x d ino n) = Inr ())"

section \<open>The invariant\<close>

datatype flight = Idle | Taken WritebackSnapshot | Applied WritebackSnapshot "SysErrNo + unit"

definition dirty_set :: "CachedRegularFile \<Rightarrow> usize set" where
  "dirty_set c = (if full_dirty (cf_dirty c) then {..<cf_size c} else dirty_bytes (dm_ranges (cf_dirty c)))"

definition device_end :: "usize \<Rightarrow> CachedRegularFile \<Rightarrow> usize" where
  "device_end sz c = (case truncate_to c of None \<Rightarrow> sz | Some t \<Rightarrow> min sz t)"

text \<open>The file proper: bytes that are not dirty are on the device, below a pending truncation.\<close>

definition data_inv :: "(usize \<Rightarrow> byte) \<Rightarrow> usize \<Rightarrow> CachedRegularFile \<Rightarrow> bool" where
  "data_inv dk sz c \<longleftrightarrow> cached_ok dk c \<and> cf_size c \<le> MAX_FILE_OFFSET
     \<and> ranges_ok (dm_ranges (cf_dirty c)) \<and> dirty_bytes (dm_ranges (cf_dirty c)) \<subseteq> {..<cf_size c}
     \<and> persisted_size c \<le> device_end sz c
     \<and> (\<forall>i < cf_size c. i \<notin> dirty_set c \<longrightarrow> i < device_end sz c \<and> dk i = cached_byte dk c i)
     \<and> (truncate_to c = None \<longrightarrow> sz \<le> cf_size c) \<and> (truncate_to c \<noteq> None \<longrightarrow> size_dirty (cf_dirty c))
     \<and> (full_dirty (cf_dirty c) \<longrightarrow> size_dirty (cf_dirty c))
     \<and> (\<forall>i \<in> dirty_set c. i < persisted_size c \<longrightarrow> cached_at c i)"

definition snapshot_bytes :: "WritebackSnapshot \<Rightarrow> usize set" where
  "snapshot_bytes s = (case s_range s of None \<Rightarrow> {} | Some r \<Rightarrow> range_bytes r)"

definition snapshot_start :: "WritebackSnapshot \<Rightarrow> usize" where
  "snapshot_start s = (case s_range s of None \<Rightarrow> 0 | Some r \<Rightarrow> dr_start r)"

text \<open>A snapshot on its way, whatever happened to the file since.\<close>

definition snap_inv :: "usize \<Rightarrow> WritebackSnapshot \<Rightarrow> CachedRegularFile \<Rightarrow> bool" where
  "snap_inv ino s c \<longleftrightarrow> s_ino s = ino \<and> \<not> full_dirty (cf_dirty c)
     \<and> (case s_range s of None \<Rightarrow> s_data s = [] | Some r \<Rightarrow> dr_start r < dr_end r \<and> dr_end r \<le> target_len s \<and> length (s_data s) = dr_end r - dr_start r)
     \<and> snapshot_start s \<le> snapshot_truncation s
     \<and> (\<forall>i < cf_size c. i \<notin> dirty_set c \<longrightarrow> i < snapshot_truncation s) \<and> persisted_size c \<le> snapshot_truncation s
     \<and> (\<forall>i \<in> snapshot_bytes s. i < cf_size c \<longrightarrow> i \<in> dirty_set c)
     \<and> (truncate_to c = None \<longrightarrow> target_len s \<le> cf_size c)"

text \<open>The file has not changed since the snapshot was taken.\<close>

definition unchanged :: "(usize \<Rightarrow> byte) \<Rightarrow> WritebackSnapshot \<Rightarrow> CachedRegularFile \<Rightarrow> bool" where
  "unchanged dk s c \<longleftrightarrow> cf_size c = target_len s \<and> truncate_to c = s_truncate_to s
     \<and> (\<forall>k < length (s_data s). s_data s ! k = cached_byte dk c (snapshot_start s + k))
     \<and> s_range s = snapshot_range (dm_ranges (cf_dirty c)) \<and> commit_size s = snapshot_commits (s_range s) (dm_ranges (cf_dirty c))"

definition flight_inv :: "usize \<Rightarrow> (usize \<Rightarrow> byte) \<Rightarrow> usize \<Rightarrow> CachedRegularFile \<Rightarrow> flight \<Rightarrow> bool" where
  "flight_inv ino dk sz c fl =
     (case fl of
        Idle \<Rightarrow> True
      | Taken s \<Rightarrow> snap_inv ino s c \<and> (dm_seq (cf_dirty c) = dirty_seq s \<longrightarrow> unchanged dk s c)
          \<and> snapshot_start s \<le> sz
          \<and> (commit_size s \<longrightarrow> target_len s \<le> max (min sz (snapshot_truncation s)) (snapshot_start s + length (s_data s)))
      | Applied s r \<Rightarrow> snap_inv ino s c \<and> (dm_seq (cf_dirty c) = dirty_seq s \<longrightarrow> unchanged dk s c)
          \<and> (r = Inr () \<longrightarrow> sz \<le> target_len s
               \<and> (\<forall>k < length (s_data s). snapshot_start s + k < sz \<and> dk (snapshot_start s + k) = s_data s ! k)))"

definition file_inv :: "'d ext4_ops \<Rightarrow> usize \<Rightarrow> 'd \<Rightarrow> CachedRegularFile \<Rightarrow> flight \<Rightarrow> bool" where
  "file_inv x ino d c fl \<longleftrightarrow> data_inv (disk_byte x d ino) (x_size x d ino) c
     \<and> (writeback_active (cf_dirty c) \<longleftrightarrow> fl \<noteq> Idle) \<and> flight_inv ino (disk_byte x d ino) (x_size x d ino) c fl"

text \<open>The sequence number must not come back to that of a snapshot in flight: fewer than \<open>2 ^ 64\<close>
  writes happen during one write-back.\<close>

definition seq_fresh :: "flight \<Rightarrow> CachedRegularFile \<Rightarrow> bool" where
  "seq_fresh fl c = (case fl of Idle \<Rightarrow> True | Taken s \<Rightarrow> dm_seq (cf_dirty c) + 1 \<noteq> dirty_seq s | Applied s _ \<Rightarrow> dm_seq (cf_dirty c) + 1 \<noteq> dirty_seq s)"

lemma size_dirty_active [simp]: "writeback_active (d\<lparr>size_dirty := b\<rparr>) = writeback_active d"
  by (simp add: writeback_active_def)

lemma data_invD:
  assumes "data_inv dk sz c"
  shows "cached_ok dk c" "ranges_ok (dm_ranges (cf_dirty c))" "dirty_bytes (dm_ranges (cf_dirty c)) \<subseteq> {..<cf_size c}"
    "persisted_size c \<le> device_end sz c" "persisted_size c \<le> cf_size c"
    "\<And>i. i < cf_size c \<Longrightarrow> i \<notin> dirty_set c \<Longrightarrow> i < device_end sz c \<and> dk i = cached_byte dk c i"
    "truncate_to c = None \<Longrightarrow> sz \<le> cf_size c" "truncate_to c \<noteq> None \<Longrightarrow> size_dirty (cf_dirty c)"
    "\<And>i. i \<in> dirty_set c \<Longrightarrow> i < persisted_size c \<Longrightarrow> cached_at c i" "cf_size c \<le> MAX_FILE_OFFSET"
    "full_dirty (cf_dirty c) \<Longrightarrow> size_dirty (cf_dirty c)"
  using assms by (auto simp: data_inv_def cached_ok_def)

section \<open>Writes\<close>

text \<open>A change of the file that keeps the dirty bytes covered keeps the snapshot in flight valid.\<close>

lemma flight_inv_changed:
  assumes fl: "flight_inv ino dk sz c fl" and fresh: "seq_fresh fl c" and sq: "dm_seq (cf_dirty c') = dm_seq (cf_dirty c) + 1"
    and full: "full_dirty (cf_dirty c') = full_dirty (cf_dirty c)"
    and dirty: "\<And>i. i < cf_size c' \<Longrightarrow> i \<notin> dirty_set c' \<Longrightarrow> i < cf_size c \<and> i \<notin> dirty_set c"
    and more: "persisted_size c' \<le> persisted_size c" "truncate_to c' = None \<Longrightarrow> truncate_to c = None \<and> cf_size c \<le> cf_size c'"
  shows "flight_inv ino dk sz c' fl"
proof -
  have S: "snap_inv ino s c'" if s: "snap_inv ino s c" for s
  proof -
    have "i \<in> dirty_set c'" if "i \<in> snapshot_bytes s" "i < cf_size c'" for i
      using s dirty [OF that(2)] that(1) by (auto simp: snap_inv_def)
    then show ?thesis using s full more dirty by (force simp: snap_inv_def)
  qed
  show ?thesis using fl fresh sq S by (auto simp: flight_inv_def seq_fresh_def split: flight.splits)
qed

text \<open>The same for a change of representation only.\<close>

lemma flight_inv_cong:
  assumes "flight_inv ino dk sz c fl" and "cf_dirty c' = cf_dirty c" and "cf_size c' = cf_size c"
    and "persisted_size c' = persisted_size c" and "truncate_to c' = truncate_to c" and "\<And>i. cached_byte dk c' i = cached_byte dk c i"
  shows "flight_inv ino dk sz c' fl"
  using assms by (auto simp: flight_inv_def snap_inv_def unchanged_def dirty_set_def split: flight.splits)

lemma write_cached_inv:
  assumes w: "write_cached x fa now (Some d) ino c m offset buf = (c', m', r)" and inv: "file_inv x ino d c fl"
    and off: "offset \<le> cf_size c" "offset + length buf \<le> MAX_FILE_OFFSET" and fresh: "seq_fresh fl c"
  shows "file_inv x ino d c' fl"
proof -
  define dk where "dk = disk_byte x d ino"
  define sz where "sz = x_size x d ino"
  have data: "data_inv dk sz c" and act: "writeback_active (cf_dirty c) \<longleftrightarrow> fl \<noteq> Idle" and fl: "flight_inv ino dk sz c fl"
    using inv by (auto simp: file_inv_def dk_def sz_def)
  note D = data_invD [OF data]
  have ok: "cached_ok (disk_byte x d ino) c" using data by (simp add: data_inv_def dk_def)
  note W = write_cached_correct [OF w ok, folded dk_def]
  show ?thesis
  proof (cases r)
    case (Inl e)
    then have same: "cached_ok dk c'" "cf_dirty c' = cf_dirty c" "cf_size c' = cf_size c" "persisted_size c' = persisted_size c"
      "truncate_to c' = truncate_to c" "\<And>i. cached_byte dk c' i = cached_byte dk c i" "\<And>i. i < cf_size c \<Longrightarrow> cached_at c i \<Longrightarrow> cached_at c' i"
      using W by auto
    have "data_inv dk sz c'" using data same by (auto simp: data_inv_def dirty_set_def device_end_def cached_ok_def)
    then show ?thesis using act flight_inv_cong [OF fl same(2-6)] same(2) by (simp add: file_inv_def dk_def sz_def)
  next
    case (Inr n)
    have sizes: "cf_size c' = max (cf_size c) (offset + n)" "persisted_size c' = persisted_size c" "truncate_to c' = truncate_to c"
      "cached_ok dk c'" and bytes: "\<And>i. cached_byte dk c' i = (if offset \<le> i \<and> i < offset + n then buf ! (i - offset) else cached_byte dk c i)"
      and at: "\<And>i. offset \<le> i \<Longrightarrow> i < offset + n \<Longrightarrow> cached_at c' i" "\<And>i. i < cf_size c \<Longrightarrow> cached_at c i \<Longrightarrow> cached_at c' i"
      and dirty: "cf_dirty c' = note_write (if offset + n > cf_size c
                then (mark_dirty (cf_size c') (cf_dirty c) offset (offset + n))\<lparr>size_dirty := True\<rparr>
                else mark_dirty (cf_size c') (cf_dirty c) offset (offset + n))"
      using W Inr by auto
    have rok: "ranges_ok (dm_ranges (cf_dirty c))" "dirty_bytes (dm_ranges (cf_dirty c)) \<subseteq> {..<cf_size c}" using data by (auto simp: data_inv_def)
    have nle: "cf_size c' \<le> MAX_FILE_OFFSET" using W Inr off(2) D(10) sizes(1) by auto
    have upto: "min (offset + n) (cf_size c') = offset + n" using sizes(1) by simp
    have d1: "full_dirty (cf_dirty c') = full_dirty (cf_dirty c)" "dm_seq (cf_dirty c') = dm_seq (cf_dirty c) + 1"
      "writeback_active (cf_dirty c') = writeback_active (cf_dirty c)" "size_dirty (cf_dirty c) \<Longrightarrow> size_dirty (cf_dirty c')"
      "ranges_ok (dm_ranges (cf_dirty c'))"
      "dirty_bytes (dm_ranges (cf_dirty c')) = dirty_bytes (dm_ranges (cf_dirty c)) \<union> {offset..<offset + n}"
      using mark_dirty_correct [OF rok(1), of "cf_size c'" offset "offset + n"] upto
      by (simp_all add: dirty)
    have ds: "dirty_set c' = dirty_set c \<union> {offset..<offset + n}"
      using d1(1,6) sizes(1) off by (auto simp: dirty_set_def)
    have clean: "i < cf_size c \<and> i \<notin> dirty_set c" if "i < cf_size c'" "i \<notin> dirty_set c'" for i
      using that off sizes(1) by (auto simp: ds)
    have "data_inv dk sz c'" unfolding data_inv_def
    proof (intro conjI allI impI ballI)
      fix i assume i: "i < cf_size c'" "i \<notin> dirty_set c'"
      have "\<not> (offset \<le> i \<and> i < offset + n)" using i(2) by (simp add: ds)
      then show "i < device_end sz c'" "dk i = cached_byte dk c' i"
        using D(6) clean [OF i] bytes [of i] by (auto simp: device_end_def sizes)
    next
      fix i assume i: "i \<in> dirty_set c'" "i < persisted_size c'"
      show "cached_at c' i" using at D(5) D(9) [of i] i by (cases "offset \<le> i \<and> i < offset + n") (auto simp: ds sizes(2))
    qed (use D sizes(2-4) d1 rok nle sizes(1) in \<open>auto simp: device_end_def\<close>)
    moreover have "flight_inv ino dk sz c' fl"
      by (rule flight_inv_changed [OF fl fresh d1(2,1) clean]) (use sizes in auto)
    ultimately show ?thesis using act d1(3) by (simp add: file_inv_def dk_def sz_def)
  qed
qed

lemma resize_cached_inv:
  assumes w: "resize_cached fa now c m n = (c', m', r)" and inv: "file_inv x ino d c fl" and fresh: "seq_fresh fl c"
    and n: "n \<le> MAX_FILE_OFFSET"
  shows "file_inv x ino d c' fl"
proof -
  define dk where "dk = disk_byte x d ino"
  define sz where "sz = x_size x d ino"
  have data: "data_inv dk sz c" and act: "writeback_active (cf_dirty c) \<longleftrightarrow> fl \<noteq> Idle" and fl: "flight_inv ino dk sz c fl"
    using inv by (auto simp: file_inv_def dk_def sz_def)
  note D = data_invD [OF data]
  have ok: "cached_ok dk c" using data by (simp add: data_inv_def)
  note W = resize_cached_correct [OF w ok]
  show ?thesis
  proof (cases r)
    case (Inl e)
    then show ?thesis using W inv by simp
  next
    case (Inr u)
    define d0 where "d0 = (if n < cf_size c then clip_dirty (cf_dirty c) n
                         else if n > cf_size c then mark_dirty n (cf_dirty c) (cf_size c) n else cf_dirty c)"
    have sizes: "cf_size c' = n" "persisted_size c' = min (persisted_size c) n" "cached_ok dk c'"
      "truncate_to c' = (if n < cf_size c then Some (case truncate_to c of None \<Rightarrow> n | Some t \<Rightarrow> min t n) else truncate_to c)"
      and bytes: "\<And>i. cached_byte dk c' i = (if i < n then cached_byte dk c i else 0)"
      and at: "\<And>i. i < min n (cf_size c) \<Longrightarrow> cached_at c i \<Longrightarrow> cached_at c' i"
      and dirty: "cf_dirty c' = note_write (d0\<lparr>size_dirty := True\<rparr>)"
      using W Inr by (auto simp: d0_def)
    have rok: "ranges_ok (dm_ranges (cf_dirty c))" "dirty_bytes (dm_ranges (cf_dirty c)) \<subseteq> {..<cf_size c}" using data by (auto simp: data_inv_def)
    have d0: "full_dirty d0 = full_dirty (cf_dirty c)" "dm_seq d0 = dm_seq (cf_dirty c)" "writeback_active d0 = writeback_active (cf_dirty c)"
      "ranges_ok (dm_ranges d0)"
      "dirty_bytes (dm_ranges d0) = (if n < cf_size c then dirty_bytes (dm_ranges (cf_dirty c)) \<inter> {..<n}
          else dirty_bytes (dm_ranges (cf_dirty c)) \<union> {cf_size c..<n})"
      using mark_dirty_correct [OF rok(1), of n "cf_size c" n] clip_correct [OF rok(1), of n] rok(1) by (auto simp: d0_def)
    have d1: "full_dirty (cf_dirty c') = full_dirty (cf_dirty c)" "dm_seq (cf_dirty c') = dm_seq (cf_dirty c) + 1"
      "writeback_active (cf_dirty c') = writeback_active (cf_dirty c)" "size_dirty (cf_dirty c')"
      "ranges_ok (dm_ranges (cf_dirty c'))" "dm_ranges (cf_dirty c') = dm_ranges d0"
      using d0 by (simp_all add: dirty)
    have ds: "dirty_set c' = (if n < cf_size c then dirty_set c \<inter> {..<n} else dirty_set c \<union> {cf_size c..<n})"
      using d1(1,6) d0(5) sizes(1) by (auto simp: dirty_set_def)
    have clean: "i < cf_size c \<and> i \<notin> dirty_set c" if "i < cf_size c'" "i \<notin> dirty_set c'" for i
      using that sizes(1) by (auto simp: ds split: if_splits)
    have "dirty_bytes (dm_ranges (cf_dirty c')) \<subseteq> {..<cf_size c'}" using rok(2) d0(5) d1(6) sizes(1) by (auto split: if_splits)
    moreover have "persisted_size c \<le> cf_size c" using ok by (simp add: cached_ok_def)
    moreover have dev: "device_end sz c' = (if n < cf_size c then min (device_end sz c) n else device_end sz c)"
      using sizes(4) by (auto simp: device_end_def split: option.splits)
    ultimately have "data_inv dk sz c'" unfolding data_inv_def
    proof (intro conjI allI impI ballI)
      fix i assume i: "i < cf_size c'" "i \<notin> dirty_set c'"
      then show "i < device_end sz c'" "dk i = cached_byte dk c' i"
        using D(6) clean [OF i] bytes [of i] sizes(1) by (simp_all add: dev)
    next
      fix i assume i: "i \<in> dirty_set c'" "i < persisted_size c'"
      show "cached_at c' i" using at [of i] D(5) D(9) [of i] i by (auto simp: ds sizes(2) split: if_splits)
    qed (use D sizes d1 dev n in \<open>auto split: if_splits\<close>)
    moreover have "flight_inv ino dk sz c' fl"
      by (rule flight_inv_changed [OF fl fresh d1(2,1) clean]) (use sizes in \<open>auto split: if_splits\<close>)
    ultimately show ?thesis using act d1(3) by (simp add: file_inv_def dk_def sz_def)
  qed
qed

section \<open>Taking a snapshot\<close>

lemma expand_full_dirty_fields [simp]:
  "cf_size (expand_full_dirty c) = cf_size c" "cf_dense (expand_full_dirty c) = cf_dense c" "cf_pages (expand_full_dirty c) = cf_pages c"
  "persisted_size (expand_full_dirty c) = persisted_size c" "truncate_to (expand_full_dirty c) = truncate_to c"
  "cf_evicted (expand_full_dirty c) = cf_evicted c" "cf_times (expand_full_dirty c) = cf_times c" "\<not> full_dirty (cf_dirty (expand_full_dirty c))"
  "size_dirty (cf_dirty (expand_full_dirty c)) = size_dirty (cf_dirty c)" "dm_seq (cf_dirty (expand_full_dirty c)) = dm_seq (cf_dirty c)"
  "writeback_active (cf_dirty (expand_full_dirty c)) = writeback_active (cf_dirty c)" "last_error (cf_dirty (expand_full_dirty c)) = last_error (cf_dirty c)"
  by (auto simp: expand_full_dirty_def writeback_active_def)

lemma expand_full_dirty_set:
  assumes "ranges_ok (dm_ranges (cf_dirty c))" and "dirty_bytes (dm_ranges (cf_dirty c)) \<subseteq> {..<cf_size c}"
  shows "dirty_set (expand_full_dirty c) = dirty_set c" and "dirty_bytes (dm_ranges (cf_dirty (expand_full_dirty c))) = dirty_set c"
    and "ranges_ok (dm_ranges (cf_dirty (expand_full_dirty c)))" and "dirty_set c \<subseteq> {..<cf_size c}"
  using assms by (auto simp: expand_full_dirty_def dirty_set_def range_bytes_def)

text \<open>\<open>data_inv\<close> depends on the contents and the dirty set only.\<close>

lemma data_inv_cong:
  assumes "data_inv dk sz c" and "cf_dense c' = cf_dense c" "cf_pages c' = cf_pages c" "cf_size c' = cf_size c" "persisted_size c' = persisted_size c"
    "truncate_to c' = truncate_to c" "cf_evicted c' = cf_evicted c" and "dirty_set c' = dirty_set c" "ranges_ok (dm_ranges (cf_dirty c'))"
    "dirty_bytes (dm_ranges (cf_dirty c')) \<subseteq> {..<cf_size c}" "size_dirty (cf_dirty c') = size_dirty (cf_dirty c)"
    "full_dirty (cf_dirty c') \<Longrightarrow> full_dirty (cf_dirty c)"
  shows "data_inv dk sz c'"
proof -
  have "cached_byte dk c' i = cached_byte dk c i" "cached_at c' i = cached_at c i" for i
    by (rule cached_cong; use assms in simp)+
  then show ?thesis using assms by (simp add: data_inv_def cached_ok_def device_end_def)
qed

lemma first_range_least: "ranges_ok (r # rs) \<Longrightarrow> i \<in> dirty_bytes (r # rs) \<Longrightarrow> dr_start r \<le> i"
  by (fastforce simp: dirty_bytes_def range_bytes_def)

lemma snapshot_range_in:
  assumes "snapshot_range rs = Some r" and "ranges_ok rs" and "dirty_bytes rs \<subseteq> {..<sz}" and "sz \<le> MAX_FILE_OFFSET"
  shows "dr_start r < dr_end r" and "range_bytes r \<subseteq> dirty_bytes rs" and "i \<in> dirty_bytes rs \<Longrightarrow> dr_start r \<le> i"
proof -
  obtain q qs where rs: "rs = q # qs" using assms(1) by (cases rs) (auto simp: snapshot_range_def)
  have r: "dr_start r = dr_start q" "dr_end r = min (dr_end q) (saturating_add (dr_start q) WRITEBACK_CLUSTER_BYTES)"
    using assms(1) by (auto simp: rs snapshot_range_def)
  have q: "dr_start q < dr_end q" using assms(2) by (simp add: rs)
  then have "dr_start q \<in> dirty_bytes rs" by (simp add: rs range_bytes_def)
  then have "dr_start q + 1 \<le> saturating_add (dr_start q) WRITEBACK_CLUSTER_BYTES"
    using assms(3,4) by (auto simp: saturating_add_def usize_max_def MAX_FILE_OFFSET_def WRITEBACK_CLUSTER_BYTES_def)
  then show "dr_start r < dr_end r" using r q by simp
  show "range_bytes r \<subseteq> dirty_bytes rs" using r by (auto simp: rs range_bytes_def)
  show "i \<in> dirty_bytes rs \<Longrightarrow> dr_start r \<le> i" using first_range_least [of q qs i] assms(2) r by (simp add: rs)
qed

lemma snapshot_inv:
  assumes take: "snapshot_cached x (Some d) ino c = (c', res)" and inv: "file_inv x ino d c fl"
  shows "case res of Snapshot s \<Rightarrow> fl = Idle \<and> file_inv x ino d c' (Taken s) | _ \<Rightarrow> file_inv x ino d c' fl"
    and "cached_byte (disk_byte x d ino) c' i = cached_byte (disk_byte x d ino) c i" and "cf_size c' = cf_size c"
proof -
  define dk where "dk = disk_byte x d ino"
  define sz where "sz = x_size x d ino"
  have data: "data_inv dk sz c" and act: "writeback_active (cf_dirty c) \<longleftrightarrow> fl \<noteq> Idle" and fl: "flight_inv ino dk sz c fl"
    using inv by (auto simp: file_inv_def dk_def sz_def)
  note D = data_invD [OF data]
  define c1 where "c1 = expand_full_dirty c"
  note E = expand_full_dirty_set [OF D(2,3), folded c1_def]
  have f1: "cf_size c1 = cf_size c" "cf_dense c1 = cf_dense c" "cf_pages c1 = cf_pages c" "persisted_size c1 = persisted_size c"
    "truncate_to c1 = truncate_to c" "cf_evicted c1 = cf_evicted c" "\<not> full_dirty (cf_dirty c1)" "size_dirty (cf_dirty c1) = size_dirty (cf_dirty c)"
    "dm_seq (cf_dirty c1) = dm_seq (cf_dirty c)" "writeback_active (cf_dirty c1) = writeback_active (cf_dirty c)" "cf_times c1 = cf_times c"
    by (simp_all add: c1_def)
  have eq: "cf_dense c' = cf_dense c \<and> cf_pages c' = cf_pages c \<and> persisted_size c' = persisted_size c \<and> cf_size c' = cf_size c"
    using take f1 unfolding snapshot_cached_def c1_def [symmetric]
    by (auto simp: Let_def begin_writeback_def split: if_splits option.splits sum.splits)
  then show "cached_byte (disk_byte x d ino) c' i = cached_byte (disk_byte x d ino) c i" "cf_size c' = cf_size c"
    by (auto intro: cached_cong)
  have same: "data_inv dk sz c2" if "c2 = c1\<lparr>cf_dirty := (cf_dirty c1)\<lparr>dm_writeback := w, last_error := e\<rparr>\<rparr>" for c2 w e
    by (rule data_inv_cong [OF data]) (use that f1 E in \<open>auto simp: dirty_set_def\<close>)
  have idem: "c1 = c" if "fl \<noteq> Idle"
    using that fl by (cases fl) (auto simp: flight_inv_def snap_inv_def c1_def expand_full_dirty_def)
  have idle: "file_inv x ino d c2 Idle" if "c2 = c1\<lparr>cf_dirty := (cf_dirty c1)\<lparr>dm_writeback := w, last_error := e\<rparr>\<rparr>" "w \<noteq> Writeback" "w \<noteq> DirtyDuringWriteback" for c2 w e
    using same [OF that(1)] that by (simp add: file_inv_def flight_inv_def writeback_active_def dk_def sz_def)
  have busy: "file_inv x ino d c1 fl"
    using idem inv idle [OF refl, where w = "dm_writeback (cf_dirty c1)" and e = "last_error (cf_dirty c1)"] act f1(10)
    by (cases "fl = Idle") (auto simp: writeback_active_def)
  consider "c' = c" "\<forall>s. res \<noteq> Snapshot s" | "c' = c1" "res = Busy" | "cf_is_dirty c" "\<not> writeback_active (cf_dirty c1)" "data_dirty (cf_dirty c1)"
      "last_error (cf_dirty c) = None"
    using take unfolding snapshot_cached_def c1_def [symmetric] by (auto simp: Let_def begin_writeback_def split: if_splits option.splits)
  then show "case res of Snapshot s \<Rightarrow> fl = Idle \<and> file_inv x ino d c' (Taken s) | _ \<Rightarrow> file_inv x ino d c' fl"
  proof cases
    case 1
    then show ?thesis using inv by (cases res) auto
  next
    case 2
    then show ?thesis using busy by simp
  next
    case 3
    have Idle: "fl = Idle" using 3(2) act f1(10) by simp
    define rs where "rs = dm_ranges (cf_dirty c1)"
    define c2 where "c2 = c1\<lparr>cf_dirty := (cf_dirty c1)\<lparr>dm_writeback := Writeback\<rparr>\<rparr>"
    define cp where "cp = (case snapshot_range rs of None \<Rightarrow> Inr [] | Some r \<Rightarrow> copy_cached_range x (Some d) ino c2 (dr_start r) (dr_end r - dr_start r))"
    have res: "(c', res) = (case cp of Inl e \<Rightarrow> (c2\<lparr>cf_dirty := fail_writeback (cf_dirty c2) e\<rparr>, Failed e)
       | Inr bytes \<Rightarrow> (c2, Snapshot \<lparr>s_ino = ino, target_len = cf_size c2, s_truncate_to = truncate_to c2,
                                      s_range = snapshot_range rs, s_data = bytes, commit_size = snapshot_commits (snapshot_range rs) rs,
                                      dirty_seq = dm_seq (cf_dirty c1), s_times = cf_times c2\<rparr>))"
      using take 3 unfolding snapshot_cached_def c1_def [symmetric] Let_def begin_writeback_def c2_def cp_def rs_def
      by (auto split: sum.splits option.splits)
    show ?thesis
    proof (cases cp)
      case (Inl e)
      then have "res = Failed e" "c' = c1\<lparr>cf_dirty := (cf_dirty c1)\<lparr>dm_writeback := if data_dirty (cf_dirty c2) then Dirty else Clean, last_error := Some e\<rparr>\<rparr>"
        using res by (auto simp: fail_writeback_def c2_def)
      then show ?thesis using idle [of c'] Idle by auto
    next
      case (Inr bytes)
      define s where "s = \<lparr>s_ino = ino, target_len = cf_size c2, s_truncate_to = truncate_to c2,
                                      s_range = snapshot_range rs, s_data = bytes, commit_size = snapshot_commits (snapshot_range rs) rs,
                                      dirty_seq = dm_seq (cf_dirty c1), s_times = cf_times c2\<rparr>"
      have c': "c' = c2" "res = Snapshot s" using res Inr by (auto simp: s_def)
      have d2: "data_inv dk sz c2" using same [of c2 "last_error (cf_dirty c1)" Writeback] by (simp add: c2_def)
      note D2 = data_invD [OF d2]
      have rs: "dm_ranges (cf_dirty c2) = rs" "dirty_set c2 = dirty_bytes rs" using f1(7) by (simp_all add: c2_def rs_def dirty_set_def)
      have R: "dr_start r < dr_end r" "range_bytes r \<subseteq> dirty_bytes rs" "\<And>i. i \<in> dirty_bytes rs \<Longrightarrow> dr_start r \<le> i" if "snapshot_range rs = Some r" for r
        using snapshot_range_in [OF that _ _ D2(10)] D2(2,3) rs(1) by auto
      have dat: "s_data s = [] \<and> snapshot_start s = 0" if "snapshot_range rs = None"
        using that Inr by (simp add: s_def cp_def snapshot_start_def)
      have dat2: "length (s_data s) = dr_end r - dr_start r" "\<forall>k < length (s_data s). s_data s ! k = cached_byte dk c2 (dr_start r + k)"
        "snapshot_start s = dr_start r" if "snapshot_range rs = Some r" for r
      proof -
        have "copy_cached_range x (Some d) ino c2 (dr_start r) (dr_end r - dr_start r) = Inr bytes" using that Inr by (simp add: cp_def)
        note C = copy_cached_range_correct [OF this]
        show "length (s_data s) = dr_end r - dr_start r" "\<forall>k < length (s_data s). s_data s ! k = cached_byte dk c2 (dr_start r + k)"
          using C D2(1) by (auto simp: s_def dk_def cached_ok_def)
        show "snapshot_start s = dr_start r" using that by (simp add: s_def snapshot_start_def)
      qed
      have tr: "snapshot_truncation s = min (case truncate_to c2 of None \<Rightarrow> cf_size c2 | Some t \<Rightarrow> t) (cf_size c2)"
        by (simp add: snapshot_truncation_def s_def split: option.splits)
      have dev: "i < device_end sz c2 \<Longrightarrow> i < cf_size c2 \<Longrightarrow> i < snapshot_truncation s" for i
        by (auto simp: tr device_end_def split: option.splits)
      have start: "snapshot_start s \<le> device_end sz c2 \<and> snapshot_start s \<le> cf_size c2"
      proof (cases "snapshot_range rs")
        case (Some r)
        have "dr_start r \<in> dirty_set c2" using R [OF Some] by (auto simp: rs range_bytes_def)
        then have lt: "dr_start r < cf_size c2" using D2(3) rs by auto
        have "dr_start r \<le> device_end sz c2" if "device_end sz c2 < cf_size c2" using D2(6) [OF that] R(3) [OF Some] rs(2) by blast
        then show ?thesis using lt dat2(3) [OF Some] by linarith
      qed (use dat in simp)
      have "snapshot_start s \<le> snapshot_truncation s" using start by (auto simp: tr device_end_def split: option.splits)
      moreover have "case s_range s of None \<Rightarrow> s_data s = [] | Some r \<Rightarrow> dr_start r < dr_end r \<and> dr_end r \<le> target_len s \<and> length (s_data s) = dr_end r - dr_start r"
      proof (cases "snapshot_range rs")
        case (Some r)
        have "dr_end r - 1 \<in> dirty_bytes rs" using R(1,2) [OF Some] by (auto simp: range_bytes_def)
        then have "dr_end r \<le> cf_size c2" using D2(3) rs(1) by auto
        then show ?thesis using R(1) [OF Some] dat2(1) [OF Some] Some by (simp add: s_def)
      qed (use dat in \<open>simp add: s_def\<close>)
      moreover have "persisted_size c2 \<le> snapshot_truncation s" using D2(4,5) by (auto simp: tr device_end_def split: option.splits)
      moreover have "\<forall>i \<in> snapshot_bytes s. i < cf_size c2 \<longrightarrow> i \<in> dirty_set c2"
        using R(2) by (auto simp: snapshot_bytes_def s_def rs split: option.splits)
      moreover have "s_ino s = ino" "target_len s = cf_size c2" "\<not> full_dirty (cf_dirty c2)" using f1(7) by (simp_all add: s_def c2_def)
      ultimately have si: "snap_inv ino s c2" using D2(6) dev by (auto simp: snap_inv_def)
      have un: "unchanged dk s c2" using dat dat2 rs(1) by (cases "snapshot_range rs") (auto simp: unchanged_def s_def)
      have "target_len s \<le> max (min sz (snapshot_truncation s)) (snapshot_start s + length (s_data s))" if cm: "commit_size s"
      proof (rule ccontr)
        assume neg: "\<not> ?thesis"
        define i where "i = target_len s - 1"
        have i: "i < cf_size c2" "\<not> i < min sz (snapshot_truncation s)" "snapshot_start s + length (s_data s) \<le> i"
          using neg by (auto simp: i_def s_def)
        have "i \<notin> dirty_bytes rs"
        proof (cases "snapshot_range rs")
          case None
          then show ?thesis using cm by (cases rs) (auto simp: s_def snapshot_commits_def snapshot_range_def)
        next
          case (Some r)
          then obtain q where "rs = [q]" "dr_start q = dr_start r" "dr_end q = dr_end r"
            using cm by (auto simp: s_def snapshot_commits_def split: list.splits)
          then show ?thesis using i(3) dat2(1,3) [OF Some] R(1) [OF Some] by (auto simp: range_bytes_def)
        qed
        then have "i < device_end sz c2" using D2(6) [OF i(1)] rs(2) by blast
        then show False using dev i by (auto simp: device_end_def split: option.splits)
      qed
      then have sn: "flight_inv ino dk sz c2 (Taken s)"
        using si un start by (auto simp: flight_inv_def device_end_def split: option.splits)
      then show ?thesis using Idle d2 c' by (simp add: file_inv_def writeback_active_def c2_def dk_def sz_def)
    qed
  qed
qed

section \<open>Applying a snapshot\<close>

text \<open>What the device holds after the snapshot, whether or not it reports success: the bytes below the
  truncation and outside the cluster are as they were.\<close>

lemma apply_device_correct:
  assumes laws: "ext4_laws x ino" and "s_ino s = ino" and ap: "apply_device x s d = (d', r)"
    and wf: "case s_range s of None \<Rightarrow> s_data s = [] | Some q \<Rightarrow> dr_start q < dr_end q \<and> dr_end q \<le> target_len s \<and> length (s_data s) = dr_end q - dr_start q"
    and start: "snapshot_start s \<le> snapshot_truncation s" "snapshot_start s \<le> x_size x d ino"
    and commit: "commit_size s \<Longrightarrow> target_len s \<le> max (min (x_size x d ino) (snapshot_truncation s)) (snapshot_start s + length (s_data s))"
  shows "min (x_size x d ino) (snapshot_truncation s) \<le> x_size x d' ino"
    and "x_size x d' ino \<le> max (x_size x d ino) (target_len s)"
    and "i < min (x_size x d ino) (snapshot_truncation s) \<Longrightarrow> i \<notin> snapshot_bytes s \<Longrightarrow> disk_byte x d' ino i = disk_byte x d ino i"
    and "r = Inr () \<Longrightarrow> x_size x d' ino \<le> target_len s"
    and "r = Inr () \<Longrightarrow> k < length (s_data s) \<Longrightarrow>
      snapshot_start s + k < x_size x d' ino \<and> disk_byte x d' ino (snapshot_start s + k) = s_data s ! k"
    and "reliable x ino cap \<Longrightarrow> target_len s \<le> cap \<Longrightarrow> r = Inr ()"
proof -
  define t where "t = snapshot_truncation s"
  have tl: "t \<le> target_len s" by (simp add: t_def snapshot_truncation_def)
  obtain d1 r1 where at: "apply_truncate x s d = (d1, r1)" by (cases "apply_truncate x s d")
  obtain d2 r2 where ad: "apply_data x s d1 = (d2, r2)" by (cases "apply_data x s d1")
  have T: "min (x_size x d ino) t \<le> x_size x d1 ino \<and> x_size x d1 ino \<le> x_size x d ino \<and> (r1 = Inr () \<longrightarrow> x_size x d1 ino = min (x_size x d ino) t)
    \<and> (\<forall>i < min (x_size x d ino) t. disk_byte x d1 ino i = disk_byte x d ino i)"
  proof (cases "t < x_size x d ino")
    case True
    then have "x_truncate x d ino t = (d1, r1)" using at assms(2) by (simp add: apply_truncate_def t_def)
    then show ?thesis using laws True unfolding ext4_laws_def truncate_law_def by fastforce
  next
    case False
    then have "d1 = d" "r1 = Inr ()" using at assms(2) by (auto simp: apply_truncate_def t_def)
    then show ?thesis using False by auto
  qed
  have W: "x_size x d1 ino \<le> x_size x d2 ino \<and> x_size x d2 ino \<le> max (x_size x d1 ino) (target_len s)
      \<and> (\<forall>i < x_size x d1 ino. i \<notin> snapshot_bytes s \<longrightarrow> disk_byte x d2 ino i = disk_byte x d1 ino i)
      \<and> (r2 = Inr () \<longrightarrow> (\<forall>k < length (s_data s). snapshot_start s + k < x_size x d2 ino \<and> disk_byte x d2 ino (snapshot_start s + k) = s_data s ! k)
           \<and> (s_data s \<noteq> [] \<longrightarrow> snapshot_start s + length (s_data s) \<le> x_size x d2 ino))" if r1: "r1 = Inr ()"
  proof (cases "s_range s")
    case None
    then show ?thesis using ad wf by (auto simp: apply_data_def)
  next
    case (Some q)
    have q: "dr_start q < dr_end q" "dr_end q \<le> target_len s" "length (s_data s) = dr_end q - dr_start q" "snapshot_start s = dr_start q"
      using wf Some by (auto simp: snapshot_start_def)
    obtain r3 where w: "x_write_at x d1 ino (dr_start q) (s_data s) = (d2, r3)" and r3: "r2 = Inr () \<Longrightarrow> r3 = Inr (length (s_data s))"
      using ad Some assms(2) by (auto simp: apply_data_def split: prod.splits sum.splits if_splits)
    have ne: "s_data s \<noteq> []" using q by auto
    have off: "dr_start q \<le> x_size x d1 ino" using T r1 start q(4) by (simp add: t_def)
    have "x_size x d1 ino \<le> x_size x d2 ino \<and> x_size x d2 ino \<le> max (x_size x d1 ino) (dr_start q + length (s_data s))
        \<and> (\<forall>i < x_size x d1 ino. \<not> (dr_start q \<le> i \<and> i < dr_start q + length (s_data s)) \<longrightarrow> disk_byte x d2 ino i = disk_byte x d1 ino i)
        \<and> (r3 = Inr (length (s_data s)) \<longrightarrow> dr_start q + length (s_data s) \<le> x_size x d2 ino
             \<and> (\<forall>k < length (s_data s). disk_byte x d2 ino (dr_start q + k) = s_data s ! k))"
      using laws w ne off unfolding ext4_laws_def write_law_def by blast
    then show ?thesis using q r3 by (auto simp: snapshot_bytes_def Some range_bytes_def)
  qed
  have nosize: "apply_size x s d2 = d2" if "r1 = Inr ()" "r2 = Inr ()"
  proof -
    have "commit_size s \<longrightarrow> target_len s \<le> x_size x d2 ino"
      using commit W [OF that(1)] T that start by (cases "s_data s = []") (auto simp: t_def)
    then show ?thesis using assms(2) by (auto simp: apply_size_def)
  qed
  have tm: "x_size x (x_set_times x e ino u) ino = x_size x e ino" "disk_byte x (x_set_times x e ino u) ino i = disk_byte x e ino i" for e u i
    using laws unfolding ext4_laws_def times_law_def by blast+
  consider "d' = d1" "r1 \<noteq> Inr ()" "r \<noteq> Inr ()" | "d' = d2" "r1 = Inr ()" "r \<noteq> Inr ()"
    | "r1 = Inr ()" "r2 = Inr ()" "d' = x_set_times x d2 ino (s_times s)" "r = Inr ()"
    using ap at ad nosize assms(2) by (auto simp: apply_device_def Let_def split: sum.splits if_splits)
  then have "min (x_size x d ino) t \<le> x_size x d' ino \<and> x_size x d' ino \<le> max (x_size x d ino) (target_len s)
    \<and> (\<forall>i < min (x_size x d ino) t. i \<notin> snapshot_bytes s \<longrightarrow> disk_byte x d' ino i = disk_byte x d ino i)
    \<and> (r = Inr () \<longrightarrow> x_size x d' ino \<le> target_len s \<and> (\<forall>k < length (s_data s). snapshot_start s + k < x_size x d' ino \<and> disk_byte x d' ino (snapshot_start s + k) = s_data s ! k))"
  proof cases
    case 1
    then show ?thesis using T by auto
  next
    case 2
    then show ?thesis using T W by auto
  next
    case 3
    then show ?thesis using T W tl by (auto simp: tm)
  qed
  then show "min (x_size x d ino) (snapshot_truncation s) \<le> x_size x d' ino"
    and "x_size x d' ino \<le> max (x_size x d ino) (target_len s)"
    and "i < min (x_size x d ino) (snapshot_truncation s) \<Longrightarrow> i \<notin> snapshot_bytes s \<Longrightarrow> disk_byte x d' ino i = disk_byte x d ino i"
    and "r = Inr () \<Longrightarrow> x_size x d' ino \<le> target_len s"
    and "r = Inr () \<Longrightarrow> k < length (s_data s) \<Longrightarrow>
      snapshot_start s + k < x_size x d' ino \<and> disk_byte x d' ino (snapshot_start s + k) = s_data s ! k"
    by (auto simp: t_def)
  assume rel: "reliable x ino cap" and cap: "target_len s \<le> cap"
  have r1: "r1 = Inr ()"
  proof (cases "t < x_size x d ino")
    case True
    then have "x_truncate x d ino t = (d1, r1)" using at assms(2) by (simp add: apply_truncate_def t_def)
    then show ?thesis using rel True by (metis reliable_def snd_conv)
  qed (use at assms(2) in \<open>simp add: apply_truncate_def t_def\<close>)
  have r2: "r2 = Inr ()"
  proof (cases "s_range s")
    case (Some q)
    have "dr_start q \<le> x_size x d1 ino" "s_data s \<noteq> []" "dr_start q + length (s_data s) \<le> cap"
      using T r1 start wf cap Some by (auto simp: t_def snapshot_start_def)
    then have "snd (x_write_at x d1 ino (dr_start q) (s_data s)) = Inr (length (s_data s))" using rel by (simp add: reliable_def)
    then show ?thesis using ad Some assms(2) by (auto simp: apply_data_def split: prod.splits sum.splits)
  qed (use ad in \<open>simp add: apply_data_def\<close>)
  have "x_size x d2 ino \<le> target_len s" using W [OF r1] T r1 tl by simp
  then show "r = Inr ()" using ap at ad r1 r2 nosize [OF r1 r2] assms(2) by (auto simp: apply_device_def Let_def split: if_splits)
qed

lemma apply_inv:
  assumes laws: "ext4_laws x ino" and inv: "file_inv x ino d c (Taken s)" and ap: "apply_device x s d = (d', r)"
  shows "file_inv x ino d' c (Applied s r)" and "i < cf_size c \<Longrightarrow> cached_byte (disk_byte x d' ino) c i = cached_byte (disk_byte x d ino) c i"
proof -
  define dk where "dk = disk_byte x d ino"
  define sz where "sz = x_size x d ino"
  define dk' where "dk' = disk_byte x d' ino"
  define sz' where "sz' = x_size x d' ino"
  define t where "t = snapshot_truncation s"
  have data: "data_inv dk sz c" and act: "writeback_active (cf_dirty c)" and fl: "flight_inv ino dk sz c (Taken s)"
    using inv by (auto simp: file_inv_def dk_def sz_def)
  note D = data_invD [OF data]
  have si: "snap_inv ino s c" and un: "dm_seq (cf_dirty c) = dirty_seq s \<Longrightarrow> unchanged dk s c" and st: "snapshot_start s \<le> sz"
    and cm: "commit_size s \<Longrightarrow> target_len s \<le> max (min sz t) (snapshot_start s + length (s_data s))"
    using fl by (auto simp: flight_inv_def t_def)
  have S: "s_ino s = ino" "case s_range s of None \<Rightarrow> s_data s = [] | Some q \<Rightarrow> dr_start q < dr_end q \<and> dr_end q \<le> target_len s \<and> length (s_data s) = dr_end q - dr_start q"
    "snapshot_start s \<le> t" "\<And>i. i < cf_size c \<Longrightarrow> i \<notin> dirty_set c \<Longrightarrow> i < t" "persisted_size c \<le> t"
    "\<And>i. i \<in> snapshot_bytes s \<Longrightarrow> i < cf_size c \<Longrightarrow> i \<in> dirty_set c" "truncate_to c = None \<Longrightarrow> target_len s \<le> cf_size c"
    using si by (auto simp: snap_inv_def t_def)
  note A = apply_device_correct [OF laws S(1) ap S(2) S(3) [unfolded t_def] st [unfolded sz_def] cm [unfolded sz_def t_def],
      folded dk_def sz_def dk'_def sz'_def t_def]
  have old: "dk' i = dk i" if "i < cf_size c" "i < device_end sz c" "i < t" "i \<notin> snapshot_bytes s" for i
    using A(3) [of i] that by (auto simp: device_end_def split: option.splits)
  have pers: "persisted_size c \<le> sz" using D(4) by (auto simp: device_end_def split: option.splits)
  have same: "cached_byte dk' c i = cached_byte dk c i" for i
  proof (cases "cf_dense c = None \<and> bt_get (i div PAGE_SIZE) (cf_pages c) = None \<and> i < persisted_size c")
    case True
    then have "\<not> cached_at c i" by (simp add: cached_at_def)
    then have "i \<notin> dirty_set c" using D(9) True by blast
    then have "dk' i = dk i" using old [of i] S(4) [of i] S(6) [of i] D(5) D(6) [of i] True by fastforce
    then show ?thesis using True by (simp add: cached_byte_def page_byte_def)
  qed (auto simp: cached_byte_def page_byte_def split: option.splits)
  then show "i < cf_size c \<Longrightarrow> cached_byte (disk_byte x d' ino) c i = cached_byte (disk_byte x d ino) c i" by (simp add: dk_def dk'_def)
  have dev: "i < device_end sz' c" if "i < device_end sz c" "i < t" for i
    using that A(1) by (auto simp: device_end_def split: option.splits)
  have "data_inv dk' sz' c" unfolding data_inv_def
  proof (intro conjI allI impI ballI)
    fix i assume i: "i < cf_size c" "i \<notin> dirty_set c"
    show "i < device_end sz' c" using dev D(6) [OF i] S(4) [OF i] by blast
    show "dk' i = cached_byte dk' c i" using D(6) [OF i] S(4) [OF i] S(6) [of i] old [of i] i by (auto simp: same)
  next
    show "cached_ok dk' c" using D(1) by (simp add: cached_ok_def same)
    show "persisted_size c \<le> device_end sz' c" using A(1) pers S(5) D(4) by (auto simp: device_end_def split: option.splits)
    assume "truncate_to c = None"
    then show "sz' \<le> cf_size c" using A(2) D(7) S(7) by simp
  qed (use D in auto)
  moreover have "unchanged dk' s c" if "dm_seq (cf_dirty c) = dirty_seq s" using un [OF that] by (simp add: unchanged_def same)
  ultimately show "file_inv x ino d' c (Applied s r)"
    using act si A(4,5) by (auto simp: file_inv_def flight_inv_def dk'_def sz'_def)
qed

section \<open>Finishing a snapshot\<close>

text \<open>A clean file can be read from the device up to its end.\<close>

lemma raise_persisted:
  assumes data: "data_inv dk sz c" and clean: "dirty_set c = {}" and p: "persisted_size c \<le> p" "p \<le> cf_size c"
  shows "data_inv dk sz (c\<lparr>persisted_size := p\<rparr>)" and "cached_byte dk (c\<lparr>persisted_size := p\<rparr>) i = cached_byte dk c i"
proof -
  note D = data_invD [OF data]
  let ?c = "c\<lparr>persisted_size := p\<rparr>"
  have all: "i < device_end sz c \<and> dk i = cached_byte dk c i" if "i < cf_size c" for i using D(6) [OF that] clean by simp
  have same: "cached_byte dk ?c i = cached_byte dk c i" for i
    using all [of i] p by (cases "cf_dense c") (auto simp: cached_byte_def page_byte_def split: option.splits)
  then show "cached_byte dk ?c i = cached_byte dk c i" .
  have "cf_size c \<le> device_end sz c" using all [of "cf_size c - 1"] by (cases "cf_size c") auto
  then have dev: "p \<le> device_end sz ?c" using p by (simp add: device_end_def)
  have "dirty_set ?c = {}" "device_end sz ?c = device_end sz c" using clean by (auto simp: dirty_set_def device_end_def split: if_splits)
  then show "data_inv dk sz ?c" using D p dev all by (simp add: data_inv_def cached_ok_def same)
qed

lemma finish_cached_inv:
  assumes inv: "file_inv x ino d c (Applied s r)" and fin: "finish_cached s r c = (c', requeue)"
  shows "file_inv x ino d c' Idle" and "cached_byte (disk_byte x d ino) c' i = cached_byte (disk_byte x d ino) c i" and "cf_size c' = cf_size c"
proof -
  define dk where "dk = disk_byte x d ino"
  define sz where "sz = x_size x d ino"
  have data: "data_inv dk sz c" and fl: "flight_inv ino dk sz c (Applied s r)"
    using inv by (auto simp: file_inv_def dk_def sz_def)
  note D = data_invD [OF data]
  have si: "snap_inv ino s c" and un: "dm_seq (cf_dirty c) = dirty_seq s \<Longrightarrow> unchanged dk s c"
    and ap: "r = Inr () \<Longrightarrow> sz \<le> target_len s" "\<And>k. r = Inr () \<Longrightarrow> k < length (s_data s) \<Longrightarrow> snapshot_start s + k < sz \<and> dk (snapshot_start s + k) = s_data s ! k"
    using fl by (auto simp: flight_inv_def)
  have idle: "file_inv x ino d c2 Idle" if "c2 = c\<lparr>cf_dirty := (cf_dirty c)\<lparr>dm_writeback := w, last_error := e\<rparr>\<rparr>" "w \<noteq> Writeback" "w \<noteq> DirtyDuringWriteback" for c2 w e
  proof -
    have "data_inv dk sz c2" by (rule data_inv_cong [OF data]) (use that D in \<open>auto simp: dirty_set_def\<close>)
    then show ?thesis using that by (simp add: file_inv_def flight_inv_def writeback_active_def dk_def sz_def)
  qed
  have full: "\<not> full_dirty (cf_dirty c)" using si by (simp add: snap_inv_def)
  have stl: "persisted_size c \<le> target_len s" using si by (auto simp: snap_inv_def snapshot_truncation_def)
  have main: "file_inv x ino d c' Idle \<and> (\<forall>i. cached_byte dk c' i = cached_byte dk c i) \<and> cf_size c' = cf_size c"
  proof (cases r)
    case (Inl e)
    then have "c' = c\<lparr>cf_dirty := (cf_dirty c)\<lparr>dm_writeback := if data_dirty (cf_dirty c) then Dirty else Clean, last_error := Some e\<rparr>\<rparr>"
      using fin by (auto simp: finish_cached_def fail_writeback_def)
    then show ?thesis using idle [of c'] by (auto intro: cached_cong)
  next
    case (Inr u)
    show ?thesis
    proof (cases "dm_seq (cf_dirty c) = dirty_seq s")
      case False
      define c2 where "c2 = c\<lparr>cf_dirty := (cf_dirty c)\<lparr>dm_writeback := Dirty, last_error := last_error (cf_dirty c)\<rparr>\<rparr>"
      have c': "c' = c2\<lparr>persisted_size := if \<not> data_dirty (cf_dirty c) then target_len s else min (persisted_size c) (target_len s)\<rparr>"
        using fin False Inr by (auto simp: finish_cached_def finish_writeback_def Let_def c2_def data_dirty_def)
      have i2: "file_inv x ino d c2 Idle" by (rule idle [OF c2_def]) auto
      have b2: "cached_byte dk c2 i = cached_byte dk c i" "cf_size c2 = cf_size c" "persisted_size c2 = persisted_size c" for i
        by (auto intro: cached_cong simp: c2_def)
      show ?thesis
      proof (cases "data_dirty (cf_dirty c)")
        case True
        then have "c' = c2" using c' stl b2(3) by simp
        then show ?thesis using i2 b2 by simp
      next
        case clean: False
        have d2: "data_inv dk sz c2" using i2 by (simp add: file_inv_def dk_def sz_def)
        have "dirty_set c2 = {}" using clean by (simp add: c2_def dirty_set_def data_dirty_def)
        moreover have "target_len s \<le> cf_size c2" using clean D(8) si by (auto simp: b2 snap_inv_def data_dirty_def)
        ultimately have R: "data_inv dk sz (c2\<lparr>persisted_size := target_len s\<rparr>)"
            "cached_byte dk (c2\<lparr>persisted_size := target_len s\<rparr>) i = cached_byte dk c2 i" for i
          using raise_persisted [OF d2, of "target_len s"] stl b2(3) by auto
        have "c' = c2\<lparr>persisted_size := target_len s\<rparr>" using c' clean by simp
        then show ?thesis using R b2 i2 by (simp add: file_inv_def flight_inv_def dk_def sz_def)
      qed
    next
      case True
      note U = un [OF True, unfolded unchanged_def]
      define rs where "rs = (case s_range s of None \<Rightarrow> dm_ranges (cf_dirty c) | Some q \<Rightarrow> remaining_ranges q (dm_ranges (cf_dirty c)))"
      define sd where "sd = (if commit_size s then False else size_dirty (cf_dirty c))"
      define c2 where "c2 = c\<lparr>truncate_to := None, cf_dirty := (cf_dirty c)\<lparr>dm_ranges := rs, full_dirty := False, size_dirty := sd,
          dm_writeback := if sd \<or> rs \<noteq> [] then Dirty else Clean, last_error := None\<rparr>\<rparr>"
      have c': "c' = c2\<lparr>persisted_size := if \<not> (sd \<or> rs \<noteq> []) then target_len s else min (persisted_size c) (target_len s)\<rparr>"
        using fin True Inr U by (auto simp: finish_cached_def finish_writeback_def Let_def c2_def data_dirty_def rs_def sd_def split: option.splits)
      have rsb: "ranges_ok rs" "dirty_bytes rs = dirty_bytes (dm_ranges (cf_dirty c)) - snapshot_bytes s"
        using remaining_correct [OF D(2)] si D(2) by (auto simp: rs_def snapshot_bytes_def snap_inv_def split: option.splits)
      have b2: "cached_byte dk c2 i = cached_byte dk c i" "cached_at c2 i = cached_at c i" "cf_size c2 = cf_size c" "persisted_size c2 = persisted_size c" for i
        by (auto intro: cached_cong simp: c2_def cached_at_def)
      have ds: "dirty_set c2 = dirty_set c - snapshot_bytes s" "dm_ranges (cf_dirty c2) = rs" "device_end sz c2 = sz"
        using full rsb(2) by (simp_all add: c2_def dirty_set_def device_end_def)
      have dle: "device_end sz c \<le> sz" by (simp add: device_end_def split: option.splits)
      have d2: "data_inv dk sz c2" unfolding data_inv_def
      proof (intro conjI allI impI ballI)
        fix i assume i: "i < cf_size c2" "i \<notin> dirty_set c2"
        have "i < sz \<and> dk i = cached_byte dk c i"
        proof (cases "i \<in> snapshot_bytes s")
          case True
          then obtain q where q: "s_range s = Some q" "dr_start q \<le> i" "i < dr_end q" by (auto simp: snapshot_bytes_def range_bytes_def split: option.splits)
          have "length (s_data s) = dr_end q - dr_start q" "snapshot_start s = dr_start q" using si q(1) by (auto simp: snap_inv_def snapshot_start_def)
          then show ?thesis using ap(2) [of "i - dr_start q"] U Inr q by auto
        next
          case False
          then show ?thesis using D(6) [of i] i dle by (auto simp: ds b2)
        qed
        then show "i < device_end sz c2" "dk i = cached_byte dk c2 i" by (simp_all add: ds b2)
      next
        fix i assume "i \<in> dirty_set c2" "i < persisted_size c2"
        then show "cached_at c2 i" using D(9) by (simp add: ds b2)
      next
        show "cached_ok dk c2" using D(1) b2 by (simp add: cached_ok_def c2_def)
        show "dirty_bytes (dm_ranges (cf_dirty c2)) \<subseteq> {..<cf_size c2}" using D(3) rsb(2) by (auto simp: ds b2)
        show "sz \<le> cf_size c2" using ap(1) U Inr by (simp add: b2)
      qed (use D rsb dle ds b2 in \<open>auto simp: c2_def\<close>)
      have ic: "file_inv x ino d c3 Idle" if "data_inv dk sz c3" "cf_dirty c3 = cf_dirty c2" for c3
        using that by (simp add: file_inv_def flight_inv_def writeback_active_def c2_def dk_def sz_def)
      show ?thesis
      proof (cases "sd \<or> rs \<noteq> []")
        case True
        then have "c' = c2" using c' stl b2(4) by simp
        then show ?thesis using ic [OF d2] b2 by simp
      next
        case clean: False
        have "dirty_set c2 = {}" using clean by (simp add: c2_def dirty_set_def)
        then have R: "data_inv dk sz (c2\<lparr>persisted_size := target_len s\<rparr>)"
            "cached_byte dk (c2\<lparr>persisted_size := target_len s\<rparr>) i = cached_byte dk c2 i" for i
          using raise_persisted [OF d2, of "target_len s"] stl b2(3,4) U by auto
        have "c' = c2\<lparr>persisted_size := target_len s\<rparr>" using c' clean by simp
        then show ?thesis using R b2 ic [OF R(1)] by simp
      qed
    qed
  qed
  then show "file_inv x ino d c' Idle" and "cached_byte (disk_byte x d ino) c' i = cached_byte (disk_byte x d ino) c i" and "cf_size c' = cf_size c"
    by (auto simp: dk_def)
qed

end
