(* ===== verification/Flush.thy ===== *)
theory Flush
  imports Durability
begin

text \<open>
  The cached file as its users see it: the operations of the volume interleaved with a write-back
  worker (\<open>file_step\<close>), the byte string they agree on, and \<open>flush_cached_ino\<close>, which ends with
  exactly these bytes on the device.
\<close>

section \<open>Operations on the volume\<close>

lemma live_put [simp]: "live_entry ino (put_entry ino c v) = (if cf_evicted c then None else Some c)"
  by (simp add: live_entry_def regular_cache_entry_def put_entry_def bt_get_insert)

lemma volume_fields [simp]:
  "v_root (put_entry ino c v) = v_root v" "v_root (emit es v) = v_root v" "v_root (cancel_queued_writeback ino v) = v_root v"
  "v_root (queue_writeback_ino ino v) = v_root v" "v_cache (emit es v) = v_cache v" "v_cache (cancel_queued_writeback ino v) = v_cache v"
  "v_cache (queue_writeback_ino ino v) = v_cache v" "v_mem (emit es v) = v_mem v" "v_mem (cancel_queued_writeback ino v) = v_mem v"
  by (simp_all add: put_entry_def emit_def cancel_queued_writeback_def queue_writeback_ino_def)






section \<open>The machine\<close>

definition spec_write :: "byte list \<Rightarrow> usize \<Rightarrow> byte list \<Rightarrow> byte list" where
  "spec_write bs off w = splice_at (vec_resize bs (max (length bs) (off + length w)) 0) off w"














section \<open>Opening a file\<close>






section \<open>Nothing is lost\<close>




section \<open>Flushing\<close>











section \<open>A device that satisfies the laws\<close>

text \<open>One file kept as a byte list, with room for a mebibyte, and an allocator that counts free frames.\<close>

definition list_device :: "byte list ext4_ops" where
  "list_device =
     \<lparr>x_size = (\<lambda>d _. length d), x_is_file = (\<lambda>_ _. True), x_times = (\<lambda>_ _. (0, 0, 0, 0)),
      x_extent = (\<lambda>_ _ _. Some (0, U32_MAX, 0)),
      x_read_offset = (\<lambda>d off. take BLOCK_SIZE (drop off d) @ replicate (BLOCK_SIZE - (length d - off)) 0),
      x_write_at = (\<lambda>d _ off bs. if off \<le> length d \<and> off + length bs \<le> 1048576 then (spec_write d off bs, Inr (length bs)) else (d, Inl ENOSPC)),
      x_truncate = (\<lambda>d _ n. (take n d, Inr ())), x_set_size = (\<lambda>d _ n. vec_resize d n 0),
      x_set_times = (\<lambda>d _ _. d), x_release = (\<lambda>_ _ _. [])\<rparr>"

definition counting_frames :: "nat frame_ops" where
  "counting_frames = \<lparr>f_alloc = (\<lambda>n. if n = 0 then (0, False) else (n - 1, True)), f_free = (+)\<rparr>"





text \<open>A file is created, three bytes are written and written back.\<close>

definition demo_volume :: "(byte list, nat) volume" where
  "demo_volume = \<lparr>v_root = Some [], v_cache = [], v_queue = wq_new, v_times = [], v_refs = [], v_unlinked = {}, v_mem = 0, v_events = []\<rparr>"

definition demo_file :: "byte list \<Rightarrow> DirtyRange list \<Rightarrow> bool \<Rightarrow> bool \<Rightarrow> PageCacheWritebackState \<Rightarrow> 64 word \<Rightarrow> usize \<Rightarrow> CachedRegularFile" where
  "demo_file bs rs full sd w sq p =
     \<lparr>cf_dense = Some bs, cf_pages = [], cf_size = length bs, persisted_size = p, truncate_to = None,
      cf_dirty = \<lparr>dm_ranges = rs, full_dirty = full, size_dirty = sd, dm_writeback = w, last_error = None, dm_seq = sq\<rparr>,
      cf_times = (0, 0, 0, 0), cf_evicted = False\<rparr>"

definition demo_state :: "byte list \<Rightarrow> CachedRegularFile \<Rightarrow> cache_event list \<Rightarrow> (byte list, nat) volume" where
  "demo_state d c es = demo_volume\<lparr>v_root := Some d, v_cache := [(5, c)], v_events := es\<rparr>"









abbreviation "demo_start \<equiv> demo_state [] (demo_file [] [] True True Dirty 1 0) [InvalidateImage 5, InvalidatePblocks 5]"






section \<open>Writing past the end\<close>

text \<open>C37. Finding: growing a file by \<open>cached_regular_resize\<close> marks every new byte dirty, because the ext4 library takes
  the blocks below the file size to be allocated; a write that starts past the end grows the file too, but leaves the bytes of the gap
  unmarked, so they are never written to the device although the cache shows them as zeros.\<close>

theorem sparse_write_gap_not_dirty:
  assumes "write_cached x fa now (Some d) ino c m offset buf = (c', m', Inr n)" and "cached_ok (disk_byte x d ino) c"
    and "ranges_ok (dm_ranges (cf_dirty c))" and "dirty_bytes (dm_ranges (cf_dirty c)) \<subseteq> {..<cf_size c}" and "\<not> full_dirty (cf_dirty c)"
    and "resize_cached fa now c m (offset + n) = (c2, m2, Inr u)" and "cf_size c \<le> i" and "i < offset"
  shows "i < cf_size c' \<and> cached_byte (disk_byte x d ino) c' i = 0 \<and> i \<notin> dirty_set c' \<and> i \<in> dirty_set c2"
proof -
  note W = write_cached_correct [OF assms(1,2)] and R = resize_cached_correct [OF assms(6,2)]
  have sz: "cf_size c' = max (cf_size c) (offset + n)" and dd: "cf_dirty c' = note_write (if offset + n > cf_size c
                then (mark_dirty (cf_size c') (cf_dirty c) offset (offset + n))\<lparr>size_dirty := True\<rparr>
                else mark_dirty (cf_size c') (cf_dirty c) offset (offset + n))"
    and by0: "cached_byte (disk_byte x d ino) c' i = cached_byte (disk_byte x d ino) c i"
    using W assms(8) by simp_all
  have upto: "min (offset + n) (cf_size c') = offset + n" using sz by simp
  have m: "dirty_bytes (dm_ranges (cf_dirty c')) = dirty_bytes (dm_ranges (cf_dirty c)) \<union> {offset..<offset + n}" "\<not> full_dirty (cf_dirty c')"
    using mark_dirty_correct(2) [OF assms(3), of "cf_size c'" offset "offset + n"] upto assms(5) by (simp_all add: dd)
  have "i \<notin> dirty_set c'" using m assms(4,7,8) by (auto simp: dirty_set_def)
  moreover have "i \<in> dirty_set c2"
  proof -
    have gt: "cf_size c < offset + n" using assms(7,8) by simp
    have cd: "cf_dirty c2 = note_write ((mark_dirty (offset + n) (cf_dirty c) (cf_size c) (offset + n))\<lparr>size_dirty := True\<rparr>)" using R gt by simp
    have "dm_ranges (cf_dirty c2) = dm_ranges (mark_dirty (offset + n) (cf_dirty c) (cf_size c) (offset + n))" "\<not> full_dirty (cf_dirty c2)"
      using assms(5) by (simp_all add: cd)
    then show ?thesis using mark_dirty_correct(2) [OF assms(3), of "offset + n" "cf_size c" "offset + n"] assms(7,8) by (auto simp: dirty_set_def)
  qed
  moreover have "cached_byte (disk_byte x d ino) c i = 0" using assms(2,7) by (simp add: cached_ok_def)
  ultimately show ?thesis using by0 sz assms(8) by simp
qed

theorem sparse_write_gap_not_dirty_witness:
  "\<exists>c' c2. write_cached list_device counting_frames 0 (Some []) 5 (demo_file [] [] False False Clean 1 0) 0 2 [7] = (c', 0, Inr 1)
     \<and> resize_cached counting_frames 0 (demo_file [] [] False False Clean 1 0) 0 3 = (c2, 0, Inr ())
     \<and> 1 < cf_size c' \<and> 1 \<notin> dirty_set c' \<and> 1 \<in> dirty_set c2"
proof -
  let ?c = "demo_file [] [] False False Clean 1 0"
  obtain c' where w: "write_cached list_device counting_frames 0 (Some []) 5 ?c 0 2 [7] = (c', 0, Inr 1)"
    by (simp add: write_cached_def demo_file_def DENSE_REGULAR_CACHE_LIMIT_def Let_def)
  obtain c2 where r: "resize_cached counting_frames 0 ?c 0 (2 + 1) = (c2, 0, Inr ())"
    by (simp add: resize_cached_def demo_file_def DENSE_REGULAR_CACHE_LIMIT_def Let_def)
  have ok: "cached_ok (disk_byte list_device [] 5) ?c" by (simp add: cached_ok_def demo_file_def pages_ok_def cached_byte_def)
  have "1 < cf_size c' \<and> cached_byte (disk_byte list_device [] 5) c' 1 = 0 \<and> 1 \<notin> dirty_set c' \<and> 1 \<in> dirty_set c2"
    by (rule sparse_write_gap_not_dirty [OF w ok _ _ _ r]) (simp_all add: demo_file_def)
  then show ?thesis using w r by auto
qed

end
