(* ===== verification/File_Lock.thy ===== *)
theory File_Lock
  imports Kernel_Types
begin

unbundle bit_operations_syntax

text \<open>
  Advisory file locks of \<open>os/src/syscall/fs.rs\<close>: byte-range record locks of processes and of open
  file descriptions (\<open>fcntl\<close>), whole-file locks (\<open>flock\<close>), the graph of waiting owners that is
  searched for deadlocks, and the releases on close and exit. The theory shows that the vector of
  records behaves as a table from file, owner and byte to the kind of lock held, that conflicting
  locks are never granted, and that the deadlock search is exact. Offsets of type \<open>u64\<close> are
  naturals; a wake-up of the waiters of a file is the event \<open>WakeFileLock\<close>.
\<close>

section \<open>Data\<close>

datatype FileLockKey = MemInode nat | MemPath string | Ext4Ino nat
datatype FileLockOwner = Posix nat | Ofd nat
datatype FileLockKind = ReadLock | WriteLock

record FileLockRange =
  lr_start :: nat
  lr_end :: "nat option"

record FileRecordLock =
  rl_file :: FileLockKey
  rl_owner :: FileLockOwner
  rl_pid :: nat
  rl_kind :: FileLockKind
  rl_range :: FileLockRange

record WholeFileLock =
  wl_file :: FileLockKey
  wl_owner :: nat
  wl_kind :: FileLockKind

record FileLockWaiter =
  lw_waiter :: FileLockOwner
  lw_waiting_for :: FileLockOwner

record UserFlock64 =
  l_type :: int
  l_whence :: int
  l_start :: int
  l_len :: int
  l_pid :: int

datatype lock_event = WakeFileLock FileLockKey

record lock_state =
  record_locks :: "FileRecordLock list"
  lock_waiters :: "FileLockWaiter list"
  whole_locks :: "WholeFileLock list"
  lock_events :: "lock_event list"

section \<open>Requests\<close>

definition F_WRLCK :: int where "F_WRLCK = 1"







definition signed_lock_base :: "int \<Rightarrow> usize \<Rightarrow> usize \<Rightarrow> SysErrNo + int" where
  "signed_lock_base whence current_offset file_size =
     (if whence = 0 then Inr 0 else if whence = 1 then Inr (int current_offset)
      else if whence = 2 then Inr (int file_size) else Inl EINVAL)"

text \<open>The sums are \<open>i128\<close> and cannot overflow; the casts to \<open>u64\<close> wrap.\<close>

definition as_u64 :: "int \<Rightarrow> nat" where
  "as_u64 i = nat (i mod 2 ^ 64)"

definition flock_range :: "UserFlock64 \<Rightarrow> usize \<Rightarrow> usize \<Rightarrow> SysErrNo + FileLockRange" where
  "flock_range fl current_offset file_size =
     (case signed_lock_base (l_whence fl) current_offset file_size of
        Inl e \<Rightarrow> Inl e
      | Inr base \<Rightarrow>
          (let start = base + l_start fl;
               len = l_len fl;
               (s, e) = (if len > 0 then (start, Some (start + len)) else if len < 0 then (start + len, Some start) else (start, None))
           in if s < 0 \<or> (case e of None \<Rightarrow> False | Some v \<Rightarrow> v < 0) then Inl EINVAL
              else Inr \<lparr>lr_start = as_u64 s, lr_end = map_option as_u64 e\<rparr>))"

section \<open>Ranges\<close>

definition lock_ranges_overlap :: "FileLockRange \<Rightarrow> FileLockRange \<Rightarrow> bool" where
  "lock_ranges_overlap l r \<longleftrightarrow>
     \<not> (case lr_end l of Some e \<Rightarrow> e \<le> lr_start r | None \<Rightarrow> False) \<and> \<not> (case lr_end r of Some e \<Rightarrow> e \<le> lr_start l | None \<Rightarrow> False)"

definition lock_ranges_touch_or_overlap :: "FileLockRange \<Rightarrow> FileLockRange \<Rightarrow> bool" where
  "lock_ranges_touch_or_overlap l r \<longleftrightarrow>
     \<not> (case lr_end l of Some e \<Rightarrow> e < lr_start r | None \<Rightarrow> False) \<and> \<not> (case lr_end r of Some e \<Rightarrow> e < lr_start l | None \<Rightarrow> False)"

definition merge_lock_ranges :: "FileLockRange \<Rightarrow> FileLockRange \<Rightarrow> FileLockRange" where
  "merge_lock_ranges l r =
     \<lparr>lr_start = min (lr_start l) (lr_start r),
      lr_end = (case (lr_end l, lr_end r) of (Some a, Some b) \<Rightarrow> Some (max a b) | _ \<Rightarrow> None)\<rparr>"

definition lock_overlap_start :: "FileLockRange \<Rightarrow> FileLockRange \<Rightarrow> nat option" where
  "lock_overlap_start l r = (if lock_ranges_overlap l r then Some (max (lr_start l) (lr_start r)) else None)"

definition lock_kinds_conflict :: "FileLockKind \<Rightarrow> FileLockKind \<Rightarrow> bool" where
  "lock_kinds_conflict l r \<longleftrightarrow> \<not> (l = ReadLock \<and> r = ReadLock)"

definition lock_range_nonempty :: "FileLockRange \<Rightarrow> bool" where
  "lock_range_nonempty r = (case lr_end r of Some e \<Rightarrow> lr_start r < e | None \<Rightarrow> True)"

definition subtract_lock_range :: "FileLockRange \<Rightarrow> FileLockRange \<Rightarrow> FileLockRange list" where
  "subtract_lock_range old gone =
     filter lock_range_nonempty
       ((if lr_start old < lr_start gone then [\<lparr>lr_start = lr_start old, lr_end = Some (lr_start gone)\<rparr>] else [])
        @ (case lr_end gone of
             Some cut_end \<Rightarrow>
               if (case lr_end old of Some e \<Rightarrow> e > cut_end | None \<Rightarrow> True)
               then [\<lparr>lr_start = max cut_end (lr_start old), lr_end = lr_end old\<rparr>] else []
           | None \<Rightarrow> []))"

section \<open>Record locks\<close>

definition conflicts_with :: "FileLockKey \<Rightarrow> FileLockOwner \<Rightarrow> FileLockKind \<Rightarrow> FileRecordLock \<Rightarrow> bool" where
  "conflicts_with file owner kind l \<longleftrightarrow> rl_file l = file \<and> rl_owner l \<noteq> owner \<and> lock_kinds_conflict (rl_kind l) kind"

fun conflict_loop ::
  "FileLockKey \<Rightarrow> FileLockOwner \<Rightarrow> FileLockKind \<Rightarrow> FileLockRange \<Rightarrow> FileRecordLock list \<Rightarrow> (nat \<times> FileRecordLock) option \<Rightarrow> (nat \<times> FileRecordLock) option" where
  "conflict_loop file owner kind rng [] best = best"
| "conflict_loop file owner kind rng (l # ls) best =
     (if \<not> conflicts_with file owner kind l then conflict_loop file owner kind rng ls best
      else case lock_overlap_start (rl_range l) rng of
             None \<Rightarrow> conflict_loop file owner kind rng ls best
           | Some s \<Rightarrow>
               conflict_loop file owner kind rng ls
                 (if (case best of None \<Rightarrow> True
                      | Some (best_start, best_lock) \<Rightarrow>
                          s < best_start \<or> s = best_start \<and> lr_start (rl_range l) < lr_start (rl_range best_lock))
                  then Some (s, l) else best))"

definition find_lock_conflict ::
  "FileRecordLock list \<Rightarrow> FileLockKey \<Rightarrow> FileLockOwner \<Rightarrow> FileLockKind \<Rightarrow> FileLockRange \<Rightarrow> FileRecordLock option" where
  "find_lock_conflict locks file owner kind rng = map_option snd (conflict_loop file owner kind rng locks None)"

definition unlock_match :: "FileLockKey \<Rightarrow> FileLockOwner \<Rightarrow> FileLockRange \<Rightarrow> FileRecordLock \<Rightarrow> bool" where
  "unlock_match file owner rng l \<longleftrightarrow> rl_file l = file \<and> rl_owner l = owner \<and> lock_ranges_overlap (rl_range l) rng"

definition remainders :: "FileLockRange \<Rightarrow> FileRecordLock \<Rightarrow> FileRecordLock list" where
  "remainders rng l = map (\<lambda>r. l\<lparr>rl_range := r\<rparr>) (subtract_lock_range (rl_range l) rng)"

lemma subtract_no_overlap: "x \<in> set (subtract_lock_range old gone) \<Longrightarrow> \<not> lock_ranges_overlap x gone"
  by (cases "lr_end gone") (auto simp: subtract_lock_range_def lock_ranges_overlap_def split: option.splits if_splits)

lemma remainders_no_match: "x \<in> set (remainders rng l) \<Longrightarrow> \<not> unlock_match file owner rng x"
  by (auto simp: remainders_def unlock_match_def dest: subtract_no_overlap)

lemma filter_remainders [simp]:
  "filter (unlock_match file owner rng) (remainders rng l) = []" "filter (\<lambda>x. \<not> unlock_match file owner rng x) (remainders rng l) = remainders rng l"
  using remainders_no_match by (force simp: filter_empty_conv filter_id_conv)+

text \<open>The loop with its index: a matching record is removed and what is left of it goes to the end.\<close>

function unlock_loop :: "FileLockKey \<Rightarrow> FileLockOwner \<Rightarrow> FileLockRange \<Rightarrow> nat \<Rightarrow> FileRecordLock list \<Rightarrow> bool \<Rightarrow> FileRecordLock list \<times> bool" where
  "unlock_loop file owner rng index locks changed =
     (if index < length locks then
        (if unlock_match file owner rng (locks ! index)
         then unlock_loop file owner rng index
                (take index locks @ drop (Suc index) locks @ remainders rng (locks ! index)) True
         else unlock_loop file owner rng (index + 1) locks changed)
      else (locks, changed))"
  by auto
termination
proof (relation "measures [\<lambda>(file, owner, rng, index, locks, _). length (filter (unlock_match file owner rng) (drop index locks)),
    \<lambda>(_, _, _, index, locks, _). length locks - index]", goal_cases)
  case (2 f owner rng index locks changed)
  have "drop index locks = locks ! index # drop (Suc index) locks" using 2 by (simp add: Cons_nth_drop_Suc)
  then show ?case using 2 by simp
next
  case (3 f owner rng index locks changed)
  have "drop index locks = locks ! index # drop (Suc index) locks" using 3 by (simp add: Cons_nth_drop_Suc)
  then show ?case using 3 by simp
qed simp

declare unlock_loop.simps [simp del]

definition apply_file_unlock :: "FileRecordLock list \<Rightarrow> FileLockKey \<Rightarrow> FileLockOwner \<Rightarrow> FileLockRange \<Rightarrow> FileRecordLock list \<times> bool" where
  "apply_file_unlock locks file owner rng = unlock_loop file owner rng 0 locks False"

definition mergeable :: "FileRecordLock \<Rightarrow> FileRecordLock \<Rightarrow> bool" where
  "mergeable l new \<longleftrightarrow> rl_file l = rl_file new \<and> rl_owner l = rl_owner new \<and> rl_kind l = rl_kind new
     \<and> lock_ranges_touch_or_overlap (rl_range l) (rl_range new)"

text \<open>The loop of \<open>push_merged_file_lock\<close> over the records from the index on.\<close>

fun push_merged_file_lock :: "FileRecordLock list \<Rightarrow> FileRecordLock \<Rightarrow> FileRecordLock list" where
  "push_merged_file_lock [] new = [new]"
| "push_merged_file_lock (l # ls) new =
     (if mergeable l new then push_merged_file_lock ls (new\<lparr>rl_range := merge_lock_ranges (rl_range new) (rl_range l)\<rparr>)
      else l # push_merged_file_lock ls new)"

definition apply_file_lock ::
  "FileLockKey \<Rightarrow> FileLockOwner \<Rightarrow> nat \<Rightarrow> FileLockKind option \<Rightarrow> FileLockRange \<Rightarrow> FileRecordLock list \<Rightarrow> FileRecordLock list \<times> FileLockOwner option" where
  "apply_file_lock file owner pid kind rng locks =
     (case kind of
        Some k \<Rightarrow>
          (case find_lock_conflict locks file owner k rng of
             Some conflict \<Rightarrow> (locks, Some (rl_owner conflict))
           | None \<Rightarrow>
               (push_merged_file_lock (fst (apply_file_unlock locks file owner rng))
                  \<lparr>rl_file = file, rl_owner = owner, rl_pid = pid, rl_kind = k, rl_range = rng\<rparr>, None))
      | None \<Rightarrow> (fst (apply_file_unlock locks file owner rng), None))"

section \<open>Waiters\<close>

definition remove_lock_waiter :: "FileLockOwner \<Rightarrow> FileLockWaiter list \<Rightarrow> FileLockWaiter list" where
  "remove_lock_waiter owner ws = filter (\<lambda>w. lw_waiter w \<noteq> owner) ws"

fun set_lock_waiter :: "FileLockOwner \<Rightarrow> FileLockOwner \<Rightarrow> FileLockWaiter list \<Rightarrow> FileLockWaiter list" where
  "set_lock_waiter waiter waiting_for [] = [\<lparr>lw_waiter = waiter, lw_waiting_for = waiting_for\<rparr>]"
| "set_lock_waiter waiter waiting_for (w # ws) =
     (if lw_waiter w = waiter then w\<lparr>lw_waiting_for := waiting_for\<rparr> # ws else w # set_lock_waiter waiter waiting_for ws)"

text \<open>\<open>left\<close> counts the turns the loop may still make.\<close>

fun deadlock_loop :: "FileLockWaiter list \<Rightarrow> FileLockOwner \<Rightarrow> nat \<Rightarrow> FileLockOwner \<Rightarrow> bool" where
  "deadlock_loop ws waiter 0 owner = False"
| "deadlock_loop ws waiter (Suc left) owner =
     (if owner = waiter then True
      else case find (\<lambda>w. lw_waiter w = owner) ws of
             None \<Rightarrow> False
           | Some w \<Rightarrow> deadlock_loop ws waiter left (lw_waiting_for w))"

definition file_lock_would_deadlock :: "FileLockWaiter list \<Rightarrow> FileLockOwner \<Rightarrow> FileLockOwner \<Rightarrow> bool" where
  "file_lock_would_deadlock ws waiter waiting_for \<longleftrightarrow>
     waiter = waiting_for \<or> deadlock_loop ws waiter (length ws + 1) waiting_for"

section \<open>System calls\<close>

definition wake_file_lock_waiters :: "FileLockKey \<Rightarrow> lock_state \<Rightarrow> lock_state" where
  "wake_file_lock_waiters file st = st\<lparr>lock_events := lock_events st @ [WakeFileLock file]\<rparr>"

definition drop_waiter :: "FileLockOwner \<Rightarrow> lock_state \<Rightarrow> lock_state" where
  "drop_waiter owner st = st\<lparr>lock_waiters := remove_lock_waiter owner (lock_waiters st)\<rparr>"

text \<open>What a call leaves: a result, or the task asleep on the file's key.\<close>

datatype lock_outcome = LockDone "SysErrNo + nat" | LockSleep FileLockKey

text \<open>One turn of the loop of \<open>sys_fcntl_file_lock\<close> for a lock request, up to the sleep.\<close>

definition fcntl_lock_turn ::
  "bool \<Rightarrow> bool \<Rightarrow> FileLockKey \<Rightarrow> FileLockOwner \<Rightarrow> nat \<Rightarrow> FileLockKind \<Rightarrow> FileLockRange \<Rightarrow> lock_state \<Rightarrow> lock_state \<times> lock_outcome" where
  "fcntl_lock_turn is_ofd blocking file owner pid kind rng st =
     (case apply_file_lock file owner pid (Some kind) rng (record_locks st) of
        (locks, None) \<Rightarrow> (drop_waiter owner (st\<lparr>record_locks := locks\<rparr>), LockDone (Inr 0))
      | (locks, Some conflict_owner) \<Rightarrow>
          if \<not> blocking then (drop_waiter owner (st\<lparr>record_locks := locks\<rparr>), LockDone (Inl EAGAIN))
          else if \<not> is_ofd then
            (if file_lock_would_deadlock (lock_waiters st) owner conflict_owner
             then (drop_waiter owner (st\<lparr>record_locks := locks\<rparr>), LockDone (Inl EDEADLK))
             else (st\<lparr>record_locks := locks, lock_waiters := set_lock_waiter owner conflict_owner (lock_waiters st)\<rparr>, LockSleep file))
          else (st\<lparr>record_locks := locks\<rparr>, LockSleep file))"

definition fcntl_unlock :: "FileLockKey \<Rightarrow> FileLockOwner \<Rightarrow> nat \<Rightarrow> FileLockRange \<Rightarrow> lock_state \<Rightarrow> lock_state \<times> lock_outcome" where
  "fcntl_unlock file owner pid rng st =
     (wake_file_lock_waiters file
        (drop_waiter owner (st\<lparr>record_locks := fst (apply_file_lock file owner pid None rng (record_locks st))\<rparr>)), LockDone (Inr 0))"



datatype lock_command = GetLk | SetLk | SetLkW | OfdGetLk | OfdSetLk | OfdSetLkW






section \<open>Whole-file locks and releases\<close>

definition whole_file_lock_conflicts :: "WholeFileLock list \<Rightarrow> FileLockKey \<Rightarrow> nat \<Rightarrow> FileLockKind \<Rightarrow> bool" where
  "whole_file_lock_conflicts locks file owner kind \<longleftrightarrow>
     (\<exists>l \<in> set locks. wl_file l = file \<and> wl_owner l \<noteq> owner \<and> lock_kinds_conflict (wl_kind l) kind)"


text \<open>One turn of the loop of \<open>sys_flock\<close>; \<open>first\<close> holds before the previous lock has been released.\<close>

definition flock_turn :: "bool \<Rightarrow> bool \<Rightarrow> FileLockKey \<Rightarrow> nat \<Rightarrow> FileLockKind \<Rightarrow> lock_state \<Rightarrow> lock_state \<times> lock_outcome" where
  "flock_turn first nonblock file owner kind st =
     (let locks = (if first then filter (\<lambda>l. \<not> (wl_file l = file \<and> wl_owner l = owner)) (whole_locks st) else whole_locks st)
      in if \<not> whole_file_lock_conflicts locks file owner kind
         then (st\<lparr>whole_locks := locks @ [\<lparr>wl_file = file, wl_owner = owner, wl_kind = kind\<rparr>]\<rparr>, LockDone (Inr 0))
         else (st\<lparr>whole_locks := locks\<rparr>, if nonblock then LockDone (Inl EAGAIN) else LockSleep file))"





fun wake_all_files :: "FileLockKey list \<Rightarrow> lock_state \<Rightarrow> lock_state" where
  "wake_all_files [] st = st"
| "wake_all_files (f # fs) st = wake_all_files fs (wake_file_lock_waiters f st)"






section \<open>What the records mean\<close>

definition range_set :: "FileLockRange \<Rightarrow> nat set" where
  "range_set r = {i. lr_start r \<le> i \<and> (case lr_end r of None \<Rightarrow> True | Some e \<Rightarrow> i < e)}"

definition holds :: "FileRecordLock list \<Rightarrow> FileLockKey \<Rightarrow> FileLockOwner \<Rightarrow> nat \<Rightarrow> FileLockKind \<Rightarrow> bool" where
  "holds locks file owner i k \<longleftrightarrow>
     (\<exists>l \<in> set locks. rl_file l = file \<and> rl_owner l = owner \<and> rl_kind l = k \<and> i \<in> range_set (rl_range l))"

definition compatible :: "FileRecordLock \<Rightarrow> FileRecordLock \<Rightarrow> bool" where
  "compatible a b \<longleftrightarrow> rl_file a \<noteq> rl_file b \<or> range_set (rl_range a) \<inter> range_set (rl_range b) = {}
     \<or> rl_owner a \<noteq> rl_owner b \<and> rl_kind a = ReadLock \<and> rl_kind b = ReadLock"

definition locks_ok :: "FileRecordLock list \<Rightarrow> bool" where
  "locks_ok locks \<longleftrightarrow> (\<forall>l \<in> set locks. lock_range_nonempty (rl_range l)) \<and> sorted_wrt compatible locks"

lemma nonempty_start: "lock_range_nonempty r \<Longrightarrow> lr_start r \<in> range_set r"
  by (auto simp: range_set_def lock_range_nonempty_def split: option.splits)

lemma overlap_iff:
  assumes "lock_range_nonempty l" and "lock_range_nonempty r"
  shows "lock_ranges_overlap l r \<longleftrightarrow> range_set l \<inter> range_set r \<noteq> {}"
proof
  assume "lock_ranges_overlap l r"
  then have "max (lr_start l) (lr_start r) \<in> range_set l \<inter> range_set r"
    using assms by (auto simp: lock_ranges_overlap_def range_set_def lock_range_nonempty_def split: option.splits)
  then show "range_set l \<inter> range_set r \<noteq> {}" by blast
qed (auto simp: lock_ranges_overlap_def range_set_def split: option.splits)

lemma subtract_correct:
  assumes "lock_ranges_overlap old gone"
  shows "(\<Union>r \<in> set (subtract_lock_range old gone). range_set r) = range_set old - range_set gone"
    and "\<forall>r \<in> set (subtract_lock_range old gone). lock_range_nonempty r"
  using assms
  by (cases "lr_end old"; cases "lr_end gone";
      force simp: subtract_lock_range_def range_set_def lock_ranges_overlap_def lock_range_nonempty_def split: if_splits)+

lemma subtract_disjoint:
  assumes "lock_ranges_overlap old gone" and "lock_range_nonempty gone"
  shows "sorted_wrt (\<lambda>a b. range_set a \<inter> range_set b = {}) (subtract_lock_range old gone)"
proof -
  let ?R = "\<lambda>a b. range_set a \<inter> range_set b = {}"
  have f: "sorted_wrt ?R (filter P (ls @ rs))" if "length ls \<le> 1" "length rs \<le> 1" "\<forall>a \<in> set ls. \<forall>b \<in> set rs. ?R a b" for P ls rs
  proof -
    have "sorted_wrt ?R (ls @ rs)" using that by (cases ls; cases rs) (auto simp: sorted_wrt_append)
    then show ?thesis by (rule sorted_wrt_filter)
  qed
  show ?thesis unfolding subtract_lock_range_def
    by (rule f) (use assms in \<open>auto simp: range_set_def lock_ranges_overlap_def lock_range_nonempty_def split: option.splits\<close>)
qed

lemma merge_correct:
  assumes "lock_ranges_touch_or_overlap l r" and "lock_range_nonempty l" and "lock_range_nonempty r"
  shows "range_set (merge_lock_ranges r l) = range_set r \<union> range_set l" and "lock_range_nonempty (merge_lock_ranges r l)"
  using assms by (cases "lr_end l"; cases "lr_end r";
      force simp: merge_lock_ranges_def range_set_def lock_ranges_touch_or_overlap_def lock_range_nonempty_def)+

lemma compatible_sym: "compatible a b \<Longrightarrow> compatible b a"
  by (auto simp: compatible_def)

lemma pairwise_swap:
  assumes "\<And>a b. R a b \<Longrightarrow> R b a"
  shows "sorted_wrt R (xs @ ys @ zs) \<longleftrightarrow> sorted_wrt R (ys @ xs @ zs)"
  using assms by (auto simp: sorted_wrt_append)

section \<open>Unlocking\<close>

lemma unlock_loop_eq:
  "fst (unlock_loop f owner rng index locks changed) =
   take index locks @ filter (\<lambda>l. \<not> unlock_match f owner rng l) (drop index locks)
     @ concat (map (remainders rng) (filter (unlock_match f owner rng) (drop index locks)))"
proof (induction f owner rng index locks changed rule: unlock_loop.induct)
  case (1 f owner rng index locks changed)
  show ?case
  proof (cases "index < length locks")
    case False
    then show ?thesis by (simp add: unlock_loop.simps)
  next
    case True
    have d: "drop index locks = locks ! index # drop (Suc index) locks" using True by (simp add: Cons_nth_drop_Suc)
    show ?thesis
    proof (cases "unlock_match f owner rng (locks ! index)")
      case m: True
      show ?thesis using "1.IH"(1) [OF True m] True m unfolding unlock_loop.simps [of f owner rng index locks changed] d by simp
    next
      case m: False
      have "take (Suc index) locks = take index locks @ [locks ! index]" using True by (simp add: take_Suc_conv_app_nth)
      then show ?thesis using "1.IH"(2) [OF True m] True m unfolding unlock_loop.simps [of f owner rng index locks changed] d by simp
    qed
  qed
qed

definition unlocked :: "FileLockKey \<Rightarrow> FileLockOwner \<Rightarrow> FileLockRange \<Rightarrow> FileRecordLock list \<Rightarrow> FileRecordLock list" where
  "unlocked f owner rng locks =
     filter (\<lambda>l. \<not> unlock_match f owner rng l) locks @ concat (map (remainders rng) (filter (unlock_match f owner rng) locks))"

lemma unlock_eq: "fst (apply_file_unlock locks f owner rng) = unlocked f owner rng locks"
  by (simp add: apply_file_unlock_def unlock_loop_eq unlocked_def)

lemma remainder_fields:
  assumes "x \<in> set (remainders rng l)" and "lock_ranges_overlap (rl_range l) rng"
  shows "rl_file x = rl_file l" "rl_owner x = rl_owner l" "rl_kind x = rl_kind l" "range_set (rl_range x) \<subseteq> range_set (rl_range l) - range_set rng"
    "lock_range_nonempty (rl_range x)"
  using assms subtract_correct(1,2) [OF assms(2)] by (auto simp: remainders_def)

lemma unlocked_mem:
  assumes "x \<in> set (unlocked f owner rng locks)"
  obtains l where "l \<in> set locks" "rl_file x = rl_file l" "rl_owner x = rl_owner l" "rl_kind x = rl_kind l" "range_set (rl_range x) \<subseteq> range_set (rl_range l)"
    "lock_range_nonempty (rl_range l) \<Longrightarrow> lock_range_nonempty (rl_range x)"
proof -
  consider "x \<in> set locks" | l where "l \<in> set locks" "lock_ranges_overlap (rl_range l) rng" "x \<in> set (remainders rng l)"
    using assms by (auto simp: unlocked_def unlock_match_def)
  then show ?thesis
  proof cases
    case 1
    then show ?thesis using that [of x] by simp
  next
    case 2
    then show ?thesis using that [of l] remainder_fields [OF 2(3,2)] by auto
  qed
qed

lemma unlocked_holds:
  assumes "\<forall>l \<in> set locks. lock_range_nonempty (rl_range l)" and "lock_range_nonempty rng"
  shows "holds (unlocked f owner rng locks) f' o' i k \<longleftrightarrow> holds locks f' o' i k \<and> \<not> (f' = f \<and> o' = owner \<and> i \<in> range_set rng)"
proof -
  have one: "(\<exists>x \<in> set (if unlock_match f owner rng l then remainders rng l else [l]). rl_file x = f' \<and> rl_owner x = o' \<and> rl_kind x = k \<and> i \<in> range_set (rl_range x))
     \<longleftrightarrow> rl_file l = f' \<and> rl_owner l = o' \<and> rl_kind l = k \<and> i \<in> range_set (rl_range l) \<and> \<not> (f' = f \<and> o' = owner \<and> i \<in> range_set rng)" if l: "l \<in> set locks" for l
  proof (cases "unlock_match f owner rng l")
    case True
    then have ov: "lock_ranges_overlap (rl_range l) rng" "rl_file l = f" "rl_owner l = owner" by (auto simp: unlock_match_def)
    have "(\<exists>x \<in> set (remainders rng l). i \<in> range_set (rl_range x)) \<longleftrightarrow> i \<in> range_set (rl_range l) - range_set rng"
      using subtract_correct(1) [OF ov(1)] by (auto simp: remainders_def)
    then show ?thesis using True ov by (auto simp: remainders_def)
  next
    case False
    then have "\<not> (rl_file l = f \<and> rl_owner l = owner) \<or> range_set (rl_range l) \<inter> range_set rng = {}"
      using overlap_iff [of "rl_range l" rng] assms l by (auto simp: unlock_match_def)
    then show ?thesis using False by auto
  qed
  have "set (unlocked f owner rng locks) = (\<Union>l \<in> set locks. set (if unlock_match f owner rng l then remainders rng l else [l]))"
    by (auto simp: unlocked_def split: if_splits)
  then have "holds (unlocked f owner rng locks) f' o' i k \<longleftrightarrow>
    (\<exists>l \<in> set locks. \<exists>x \<in> set (if unlock_match f owner rng l then remainders rng l else [l]). rl_file x = f' \<and> rl_owner x = o' \<and> rl_kind x = k \<and> i \<in> range_set (rl_range x))"
    by (simp add: holds_def)
  also have "\<dots> \<longleftrightarrow> holds locks f' o' i k \<and> \<not> (f' = f \<and> o' = owner \<and> i \<in> range_set rng)"
    using one by (auto simp: holds_def)
  finally show ?thesis .
qed

lemma compatible_sub:
  "compatible a b \<Longrightarrow> rl_file a' = rl_file a \<Longrightarrow> rl_owner a' = rl_owner a \<Longrightarrow> rl_kind a' = rl_kind a \<Longrightarrow> range_set (rl_range a') \<subseteq> range_set (rl_range a)
   \<Longrightarrow> compatible a' b"
  by (auto simp: compatible_def)

lemma unlocked_ok:
  assumes "locks_ok locks" and rng: "lock_range_nonempty rng"
  shows "locks_ok (unlocked f owner rng locks)"
proof -
  have ne: "\<forall>x \<in> set (unlocked f owner rng locks). lock_range_nonempty (rl_range x)"
    using assms(1) unlocked_mem by (metis locks_ok_def)
  have "sorted_wrt compatible (unlocked f owner rng locks)" using conjunct2 [OF assms(1) [unfolded locks_ok_def]]
  proof (induction locks)
    case (Cons l ls)
    have IH: "sorted_wrt compatible (unlocked f owner rng ls)" and l: "\<forall>y \<in> set ls. compatible l y" using Cons by auto
    have cross: "compatible x y" if y: "y \<in> set (unlocked f owner rng ls)" and x: "rl_file x = rl_file l" "rl_owner x = rl_owner l" "rl_kind x = rl_kind l"
      "range_set (rl_range x) \<subseteq> range_set (rl_range l)" for x y
    proof -
      obtain z where z: "z \<in> set ls" "rl_file y = rl_file z" "rl_owner y = rl_owner z" "rl_kind y = rl_kind z" "range_set (rl_range y) \<subseteq> range_set (rl_range z)"
        using unlocked_mem [OF y] by metis
      have "compatible x z" using compatible_sub [of l z x] l z(1) x by blast
      then show ?thesis using compatible_sub [OF compatible_sym, of x z y] z compatible_sym by metis
    qed
    show ?case
    proof (cases "unlock_match f owner rng l")
      case False
      then have "unlocked f owner rng (l # ls) = l # unlocked f owner rng ls" by (simp add: unlocked_def)
      then show ?thesis using IH cross [of _ l] by simp
    next
      case True
      then have ov: "lock_ranges_overlap (rl_range l) rng" by (simp add: unlock_match_def)
      have "sorted_wrt compatible (remainders rng l)"
        using subtract_disjoint [OF ov rng] by (auto simp: remainders_def sorted_wrt_map compatible_def elim: sorted_wrt_mono_rel [rotated])
      moreover have "\<forall>x \<in> set (remainders rng l). \<forall>y \<in> set (unlocked f owner rng ls). compatible x y"
        using cross remainder_fields [OF _ ov] by blast
      ultimately have "sorted_wrt compatible (remainders rng l @ unlocked f owner rng ls)" using IH by (simp add: sorted_wrt_append)
      then show ?thesis using True pairwise_swap [where R = compatible and xs = "remainders rng l" and ys = "filter (\<lambda>l. \<not> unlock_match f owner rng l) ls", OF compatible_sym]
        by (simp add: unlocked_def)
    qed
  qed (simp add: unlocked_def)
  then show ?thesis using ne by (simp add: locks_ok_def)
qed

section \<open>Locking\<close>

lemma push_mem:
  assumes "x \<in> set (push_merged_file_lock locks new)"
  shows "x \<in> set locks \<or> rl_file x = rl_file new \<and> rl_owner x = rl_owner new \<and> rl_kind x = rl_kind new"
  using assms by (induction locks new rule: push_merged_file_lock.induct) (auto split: if_splits)

lemma mergeable_merge:
  assumes "mergeable l new" and "lock_range_nonempty (rl_range l)" and "lock_range_nonempty (rl_range new)"
  shows "range_set (merge_lock_ranges (rl_range new) (rl_range l)) = range_set (rl_range new) \<union> range_set (rl_range l)"
    and "lock_range_nonempty (merge_lock_ranges (rl_range new) (rl_range l))"
    and "rl_file l = rl_file new" and "rl_owner l = rl_owner new" and "rl_kind l = rl_kind new"
  using merge_correct [of "rl_range l" "rl_range new"] assms by (auto simp: mergeable_def)

lemma push_holds:
  assumes "\<forall>l \<in> set locks. lock_range_nonempty (rl_range l)" and "lock_range_nonempty (rl_range new)"
  shows "holds (push_merged_file_lock locks new) f' o' i k \<longleftrightarrow>
      holds locks f' o' i k \<or> rl_file new = f' \<and> rl_owner new = o' \<and> rl_kind new = k \<and> i \<in> range_set (rl_range new)"
  using assms
proof (induction locks new rule: push_merged_file_lock.induct)
  case (2 l ls new)
  show ?case
  proof (cases "mergeable l new")
    case True
    have l: "lock_range_nonempty (rl_range l)" using 2(3) by simp
    note m = mergeable_merge(1,2) [OF True l 2(4)] and eq = mergeable_merge(3-5) [OF True l 2(4)]
    show ?thesis using "2.IH"(1) [OF True] 2(3) m eq True by (auto simp: holds_def)
  next
    case False
    then show ?thesis using "2.IH"(2) [OF False] 2(3,4) by (auto simp: holds_def)
  qed
qed (auto simp: holds_def)

lemma push_compatible:
  assumes "\<forall>l \<in> set locks. lock_range_nonempty (rl_range l) \<and> compatible x l" and "lock_range_nonempty (rl_range new)" and "compatible x new"
    and "y \<in> set (push_merged_file_lock locks new)"
  shows "compatible x y"
  using assms
proof (induction locks new rule: push_merged_file_lock.induct)
  case (2 l ls new)
  show ?case
  proof (cases "mergeable l new")
    case True
    have l: "lock_range_nonempty (rl_range l)" using 2(3) by simp
    note m = mergeable_merge(1,2) [OF True l 2(4)] and eq = mergeable_merge(3-5) [OF True l 2(4)]
    have "compatible x (new\<lparr>rl_range := merge_lock_ranges (rl_range new) (rl_range l)\<rparr>)"
      using 2(3,5) m(1) eq by (auto simp: compatible_def)
    then show ?thesis using "2.IH"(1) [OF True] 2(3,6) m(2) True by simp
  next
    case False
    then show ?thesis using "2.IH"(2) [OF False] 2(3-6) by auto
  qed
qed simp

lemma push_ok:
  assumes "locks_ok locks" and "lock_range_nonempty (rl_range new)" and "\<forall>l \<in> set locks. compatible l new"
  shows "locks_ok (push_merged_file_lock locks new)"
  using assms
proof (induction locks new rule: push_merged_file_lock.induct)
  case (2 l ls new)
  have ls: "locks_ok ls" and l: "lock_range_nonempty (rl_range l)" "\<forall>y \<in> set ls. compatible l y" using 2(3) by (auto simp: locks_ok_def)
  show ?case
  proof (cases "mergeable l new")
    case True
    note m = mergeable_merge(1,2) [OF True l(1) 2(4)] and eq = mergeable_merge(3-5) [OF True l(1) 2(4)]
    have "\<forall>y \<in> set ls. compatible y (new\<lparr>rl_range := merge_lock_ranges (rl_range new) (rl_range l)\<rparr>)"
      using 2(5) l(2) m(1) eq by (auto simp: compatible_def)
    then show ?thesis using "2.IH"(1) [OF True ls] m(2) True by simp
  next
    case False
    have "compatible l y" if "y \<in> set (push_merged_file_lock ls new)" for y
      using push_compatible [OF _ 2(4) _ that, of l] ls l 2(5) by (auto simp: locks_ok_def)
    then show ?thesis using "2.IH"(2) [OF False ls 2(4)] 2(5) l(1) False by (auto simp: locks_ok_def)
  qed
qed (simp add: locks_ok_def)

lemma conflict_loop_Cons:
  obtains b where "conflict_loop f owner k rng (l # ls) best = conflict_loop f owner k rng ls b"
    and "if conflicts_with f owner k l \<and> lock_ranges_overlap (rl_range l) rng then b = best \<and> best \<noteq> None \<or> (\<exists>s. b = Some (s, l)) else b = best"
proof (cases "conflicts_with f owner k l \<and> lock_ranges_overlap (rl_range l) rng")
  case False
  then show ?thesis using that [of best] by (auto simp: lock_overlap_start_def)
next
  case True
  then show ?thesis using that by (cases best) (auto simp: lock_overlap_start_def)
qed

lemma conflict_loop_exact:
  "(case conflict_loop f owner k rng locks best of
      None \<Rightarrow> best = None \<and> (\<forall>l \<in> set locks. \<not> (conflicts_with f owner k l \<and> lock_ranges_overlap (rl_range l) rng))
    | Some (s, c) \<Rightarrow> best = Some (s, c) \<or> c \<in> set locks \<and> conflicts_with f owner k c \<and> lock_ranges_overlap (rl_range c) rng)"
proof (induction locks arbitrary: best)
  case (Cons l ls)
  obtain b where b: "conflict_loop f owner k rng (l # ls) best = conflict_loop f owner k rng ls b"
    and h: "if conflicts_with f owner k l \<and> lock_ranges_overlap (rl_range l) rng then b = best \<and> best \<noteq> None \<or> (\<exists>s. b = Some (s, l)) else b = best"
    by (rule conflict_loop_Cons)
  show ?case using Cons.IH [of b] h unfolding b
    by (cases "conflict_loop f owner k rng ls b") (auto split: if_splits)
qed (auto split: option.splits)

lemma find_conflict_None:
  "find_lock_conflict locks f owner k rng = None \<longleftrightarrow>
   (\<forall>l \<in> set locks. \<not> (conflicts_with f owner k l \<and> lock_ranges_overlap (rl_range l) rng))"
proof
  assume "find_lock_conflict locks f owner k rng = None"
  then show "\<forall>l \<in> set locks. \<not> (conflicts_with f owner k l \<and> lock_ranges_overlap (rl_range l) rng)"
    using conflict_loop_exact [where best = None and f = f and owner = owner and k = k and rng = rng and locks = locks] by (simp add: find_lock_conflict_def)
next
  assume "\<forall>l \<in> set locks. \<not> (conflicts_with f owner k l \<and> lock_ranges_overlap (rl_range l) rng)"
  then show "find_lock_conflict locks f owner k rng = None"
    using conflict_loop_exact [where best = None and f = f and owner = owner and k = k and rng = rng and locks = locks] by (auto simp: find_lock_conflict_def split: option.splits)
qed

lemma find_conflict_Some:
  assumes "find_lock_conflict locks f owner k rng = Some c"
  shows "c \<in> set locks" "conflicts_with f owner k c" "lock_ranges_overlap (rl_range c) rng"
  using assms conflict_loop_exact [where best = None and f = f and owner = owner and k = k and rng = rng and locks = locks] by (auto simp: find_lock_conflict_def split: option.splits)

definition foreign_conflict :: "FileRecordLock list \<Rightarrow> FileLockKey \<Rightarrow> FileLockOwner \<Rightarrow> FileLockKind \<Rightarrow> FileLockRange \<Rightarrow> FileLockOwner \<Rightarrow> bool" where
  "foreign_conflict locks f owner k rng other \<longleftrightarrow>
     other \<noteq> owner \<and> (\<exists>i \<in> range_set rng. \<exists>k'. holds locks f other i k' \<and> lock_kinds_conflict k' k)"

lemma foreign_conflict_iff:
  assumes "\<forall>l \<in> set locks. lock_range_nonempty (rl_range l)" and "lock_range_nonempty rng"
  shows "foreign_conflict locks f owner k rng other \<longleftrightarrow>
    (\<exists>l \<in> set locks. rl_owner l = other \<and> conflicts_with f owner k l \<and> lock_ranges_overlap (rl_range l) rng)"
proof -
  have "lock_ranges_overlap (rl_range l) rng \<longleftrightarrow> range_set (rl_range l) \<inter> range_set rng \<noteq> {}" if "l \<in> set locks" for l
    using overlap_iff assms that by blast
  then show ?thesis by (fastforce simp: foreign_conflict_def holds_def conflicts_with_def)
qed

lemma lock_new_compatible:
  assumes ok: "locks_ok locks" and rng: "lock_range_nonempty rng" and free: "find_lock_conflict locks f owner k rng = None"
    and l: "l \<in> set (unlocked f owner rng locks)"
  shows "compatible l \<lparr>rl_file = f, rl_owner = owner, rl_pid = pid, rl_kind = k, rl_range = rng\<rparr>"
proof (cases "rl_file l = f \<and> range_set (rl_range l) \<inter> range_set rng \<noteq> {}")
  case True
  have ne: "\<forall>l \<in> set locks. lock_range_nonempty (rl_range l)" using ok by (simp add: locks_ok_def)
  obtain i where i: "i \<in> range_set (rl_range l)" "i \<in> range_set rng" using True by blast
  then have h: "holds (unlocked f owner rng locks) f (rl_owner l) i (rl_kind l)" using l True by (auto simp: holds_def)
  then have "rl_owner l \<noteq> owner" and "holds locks f (rl_owner l) i (rl_kind l)" using unlocked_holds [OF ne rng] i(2) by blast+
  moreover have "\<not> foreign_conflict locks f owner k rng (rl_owner l)"
    using free find_conflict_None foreign_conflict_iff [OF ne rng] by metis
  ultimately show ?thesis using i(2) by (auto simp: foreign_conflict_def compatible_def lock_kinds_conflict_def)
qed (auto simp: compatible_def)

text \<open>
  C10. The vector of record locks implements a table from file, owner and byte to the kind of lock held. A
  request for a nonempty range on a table with no conflicting locks leaves one with no conflicting locks
  and nonempty records. It is refused exactly when another owner holds a conflicting lock on some byte of
  the range; then nothing changes and the owner reported is one of those. Otherwise every byte of the
  range is held by the owner with the requested kind, or not at all for an unlock, and every other entry of the
  table is as it was.
\<close>

theorem file_locks_refine:
  assumes "locks_ok locks" and "lock_range_nonempty rng"
  shows "locks_ok (fst (apply_file_lock f owner pid kind rng locks))
    \<and> (snd (apply_file_lock f owner pid kind rng locks) = None \<longleftrightarrow> (\<forall>k other. kind = Some k \<longrightarrow> \<not> foreign_conflict locks f owner k rng other))
    \<and> (\<forall>other. snd (apply_file_lock f owner pid kind rng locks) = Some other \<longrightarrow>
         fst (apply_file_lock f owner pid kind rng locks) = locks \<and> (\<exists>k. kind = Some k \<and> foreign_conflict locks f owner k rng other))
    \<and> (snd (apply_file_lock f owner pid kind rng locks) = None \<longrightarrow>
         (\<forall>f' o' i k'. holds (fst (apply_file_lock f owner pid kind rng locks)) f' o' i k' \<longleftrightarrow>
            (if f' = f \<and> o' = owner \<and> i \<in> range_set rng then kind = Some k' else holds locks f' o' i k')))"
proof -
  have ne: "\<forall>l \<in> set locks. lock_range_nonempty (rl_range l)" using assms(1) by (simp add: locks_ok_def)
  note uh = unlocked_holds [OF ne assms(2)] and uo = unlocked_ok [OF assms]
  have une: "\<forall>l \<in> set (unlocked f owner rng locks). lock_range_nonempty (rl_range l)" using uo by (simp add: locks_ok_def)
  show ?thesis
  proof (cases kind)
    case None
    then show ?thesis using uh uo by (auto simp: apply_file_lock_def unlock_eq)
  next
    case (Some k)
    let ?new = "\<lparr>rl_file = f, rl_owner = owner, rl_pid = pid, rl_kind = k, rl_range = rng\<rparr>"
    show ?thesis
    proof (cases "find_lock_conflict locks f owner k rng")
      case c: (Some c)
      have "foreign_conflict locks f owner k rng (rl_owner c)"
        using find_conflict_Some [OF c] foreign_conflict_iff [OF ne assms(2)] by blast
      then show ?thesis using Some c assms(1) by (auto simp: apply_file_lock_def)
    next
      case c: None
      have r: "apply_file_lock f owner pid kind rng locks = (push_merged_file_lock (unlocked f owner rng locks) ?new, None)"
        using Some c by (simp add: apply_file_lock_def unlock_eq)
      have "locks_ok (push_merged_file_lock (unlocked f owner rng locks) ?new)"
        by (rule push_ok [OF uo]) (use assms(2) lock_new_compatible [OF assms c] in auto)
      moreover have "\<not> foreign_conflict locks f owner k rng other" for other
        using c find_conflict_None foreign_conflict_iff [OF ne assms(2)] by metis
      ultimately show ?thesis using push_holds [OF une, of ?new] assms(2) uh Some unfolding r by auto
    qed
  qed
qed

section \<open>Deadlocks\<close>

definition waits :: "FileLockWaiter list \<Rightarrow> (FileLockOwner \<times> FileLockOwner) set" where
  "waits ws = (\<lambda>w. (lw_waiter w, lw_waiting_for w)) ` set ws"

lemma find_waiter:
  assumes "distinct (map lw_waiter ws)"
  shows "find (\<lambda>w. lw_waiter w = a) ws = Some w \<longleftrightarrow> w \<in> set ws \<and> lw_waiter w = a"
  using assms by (induction ws) auto

lemma relpow_Suc_left: "(a, c) \<in> R ^^ Suc n \<longleftrightarrow> (\<exists>b. (a, b) \<in> R \<and> (b, c) \<in> R ^^ n)"
  by (meson relpow_Suc_D2 relpow_Suc_I2)

lemma deadlock_loop_iff:
  assumes d: "distinct (map lw_waiter ws)"
  shows "deadlock_loop ws waiter n owner \<longleftrightarrow> (\<exists>m < n. (owner, waiter) \<in> waits ws ^^ m)"
proof (induction n arbitrary: owner)
  case (Suc n)
  have split: "(\<exists>m < Suc n. (owner, waiter) \<in> waits ws ^^ m) \<longleftrightarrow> owner = waiter \<or> (\<exists>m < n. \<exists>b. (owner, b) \<in> waits ws \<and> (b, waiter) \<in> waits ws ^^ m)"
    unfolding Ex_less_Suc2 relpow_Suc_left by (simp add: conj_commute)
  show ?case
  proof (cases "find (\<lambda>w. lw_waiter w = owner) ws")
    case None
    then have "(owner, b) \<notin> waits ws" for b using find_None_iff [of _ ws] by (auto simp: waits_def)
    then show ?thesis using None split by simp
  next
    case (Some w)
    have "(owner, b) \<in> waits ws \<longleftrightarrow> b = lw_waiting_for w" for b
    proof -
      have "w \<in> set ws" "lw_waiter w = owner" using Some find_waiter [OF d, of owner w] by simp_all
      moreover have "v = w" if "v \<in> set ws" "lw_waiter v = owner" for v using find_waiter [OF d, of owner v] Some that by simp
      ultimately show ?thesis unfolding waits_def image_iff by blast
    qed
    then show ?thesis using Some split Suc.IH [of "lw_waiting_for w"] by simp
  qed
qed simp

lemma waits_finite: "finite (waits ws)" "card (waits ws) \<le> length ws"
  unfolding waits_def using card_image_le [of "set ws"] card_length [of ws] by (auto intro: le_trans)

lemma would_deadlock_iff:
  assumes "distinct (map lw_waiter ws)"
  shows "file_lock_would_deadlock ws waiter t \<longleftrightarrow> (t, waiter) \<in> (waits ws)\<^sup>*"
proof
  assume "file_lock_would_deadlock ws waiter t"
  then show "(t, waiter) \<in> (waits ws)\<^sup>*"
    using deadlock_loop_iff [OF assms] relpow_imp_rtrancl by (auto simp: file_lock_would_deadlock_def simp del: deadlock_loop.simps)
next
  assume "(t, waiter) \<in> (waits ws)\<^sup>*"
  then obtain m where "m \<le> card (waits ws)" "(t, waiter) \<in> waits ws ^^ m"
    using rtrancl_finite_eq_relpow [OF waits_finite(1), of ws] by auto
  then show "file_lock_would_deadlock ws waiter t"
    using waits_finite(2) [of ws] deadlock_loop_iff [OF assms, of waiter "length ws + 1" t]
    by (auto simp: file_lock_would_deadlock_def simp del: deadlock_loop.simps)
qed

lemma set_waiter_distinct [simp]: "distinct (map lw_waiter ws) \<Longrightarrow> distinct (map lw_waiter (set_lock_waiter a b ws))"
proof (induction ws)
  case (Cons w ws)
  have "lw_waiter ` set (set_lock_waiter a b ws) \<subseteq> insert a (lw_waiter ` set ws)" by (induction ws) auto
  then show ?case using Cons by auto
qed simp

lemma set_waiter_waits: "waits (set_lock_waiter a b ws) \<subseteq> insert (a, b) (waits ws)"
  by (induction ws) (auto simp: waits_def)


lemma remove_waiter_distinct [simp]: "distinct (map lw_waiter ws) \<Longrightarrow> distinct (map lw_waiter (remove_lock_waiter a ws))"
  by (simp add: remove_lock_waiter_def distinct_map_filter)

text \<open>
  C11. The deadlock search is exact although it looks no further than the number of waiting owners:
  it answers yes exactly when the owner to be waited for waits, directly or through others, for
  the owner that asks. A request is put to sleep without its answer being yes only if the graph of waiting owners stays free of cycles.
\<close>

theorem lock_deadlock_exact:
  assumes "distinct (map lw_waiter ws)"
  shows "(file_lock_would_deadlock ws waiter t \<longleftrightarrow> (t, waiter) \<in> (waits ws)\<^sup>*)
    \<and> (acyclic (waits ws) \<longrightarrow> \<not> file_lock_would_deadlock ws waiter t \<longrightarrow> acyclic (waits (set_lock_waiter waiter t ws)))"
  using would_deadlock_iff [OF assms] acyclic_subset [OF _ set_waiter_waits] by (simp add: acyclic_insert)

section \<open>The lock tables over any sequence of calls\<close>





definition whole_ok :: "WholeFileLock list \<Rightarrow> bool" where
  "whole_ok locks \<longleftrightarrow> (\<forall>a \<in> set locks. \<forall>b \<in> set locks. wl_file a = wl_file b \<longrightarrow> wl_owner a \<noteq> wl_owner b \<longrightarrow> wl_kind a = ReadLock)"

definition lock_inv :: "lock_state \<Rightarrow> bool" where
  "lock_inv st \<longleftrightarrow> locks_ok (record_locks st) \<and> distinct (map lw_waiter (lock_waiters st)) \<and> acyclic (waits (lock_waiters st)) \<and> whole_ok (whole_locks st)"



lemma wake_inv [simp]: "lock_inv (wake_file_lock_waiters f st) = lock_inv st"
  by (simp add: lock_inv_def wake_file_lock_waiters_def)

lemma wake_all_inv [simp]: "lock_inv (wake_all_files fs st) = lock_inv st"
  by (induction fs st rule: wake_all_files.induct) simp_all


















definition no_locks :: lock_state where
  "no_locks = \<lparr>record_locks = [], lock_waiters = [], whole_locks = [], lock_events = []\<rparr>"





section \<open>Examples\<close>

definition demo_file :: FileLockKey where "demo_file = Ext4Ino 12"
definition demo_whole :: FileLockRange where "demo_whole = \<lparr>lr_start = 0, lr_end = None\<rparr>"
definition demo_part :: FileLockRange where "demo_part = \<lparr>lr_start = 4, lr_end = Some 8\<rparr>"

text \<open>Process 1 locks the whole file for writing; process 2 goes to sleep for the bytes 4 to 7.\<close>

definition demo_locked :: lock_state where
  "demo_locked = fst (fcntl_lock_turn False True demo_file (Posix 1) 1 WriteLock demo_whole no_locks)"

definition demo_waiting :: lock_state where
  "demo_waiting = fst (fcntl_lock_turn False True demo_file (Posix 2) 2 ReadLock demo_part demo_locked)"

lemmas demo_lock_defs = demo_file_def demo_whole_def demo_part_def no_locks_def fcntl_lock_turn_def apply_file_lock_def find_lock_conflict_def
  unlock_eq unlocked_def unlock_match_def drop_waiter_def remove_lock_waiter_def conflicts_with_def lock_overlap_start_def lock_ranges_overlap_def
  lock_kinds_conflict_def file_lock_would_deadlock_def

lemma demo_locked_eq:
  "demo_locked = \<lparr>record_locks = [\<lparr>rl_file = Ext4Ino 12, rl_owner = Posix 1, rl_pid = 1, rl_kind = WriteLock, rl_range = \<lparr>lr_start = 0, lr_end = None\<rparr>\<rparr>],
     lock_waiters = [], whole_locks = [], lock_events = []\<rparr>"
  by (simp add: demo_locked_def demo_lock_defs)

lemma demo_waiting_eq:
  "demo_waiting = demo_locked\<lparr>lock_waiters := [\<lparr>lw_waiter = Posix 2, lw_waiting_for = Posix 1\<rparr>]\<rparr>"
  by (simp add: demo_waiting_def demo_locked_eq demo_lock_defs)


lemma demo_locked_ok: "locks_ok (record_locks demo_locked)" "lock_range_nonempty demo_part"
  by (simp_all add: demo_locked_eq locks_ok_def demo_part_def lock_range_nonempty_def)


theorem file_locks_refine_witness:
  "locks_ok (record_locks demo_locked) \<and> lock_range_nonempty demo_part
   \<and> snd (apply_file_lock demo_file (Posix 1) 1 (Some ReadLock) demo_part (record_locks demo_locked)) = None
   \<and> holds (fst (apply_file_lock demo_file (Posix 1) 1 (Some ReadLock) demo_part (record_locks demo_locked))) demo_file (Posix 1) 5 ReadLock
   \<and> snd (apply_file_lock demo_file (Posix 2) 2 (Some ReadLock) demo_part (record_locks demo_locked)) = Some (Posix 1)"
proof -
  have a: "snd (apply_file_lock demo_file (Posix 1) 1 (Some ReadLock) demo_part (record_locks demo_locked)) = None"
    and b: "snd (apply_file_lock demo_file (Posix 2) 2 (Some ReadLock) demo_part (record_locks demo_locked)) = Some (Posix 1)"
    by (simp_all add: demo_locked_eq demo_lock_defs)
  have "5 \<in> range_set demo_part" by (simp add: demo_part_def range_set_def)
  then have "holds (fst (apply_file_lock demo_file (Posix 1) 1 (Some ReadLock) demo_part (record_locks demo_locked))) demo_file (Posix 1) 5 ReadLock"
    using file_locks_refine [OF demo_locked_ok, of demo_file "Posix 1" 1 "Some ReadLock"] a by simp
  then show ?thesis using a b demo_locked_ok by simp
qed

theorem lock_deadlock_exact_witness:
  "distinct (map lw_waiter (lock_waiters demo_waiting)) \<and> file_lock_would_deadlock (lock_waiters demo_waiting) (Posix 1) (Posix 2)
   \<and> (Posix 2, Posix 1) \<in> (waits (lock_waiters demo_waiting))\<^sup>*"
proof -
  have d: "distinct (map lw_waiter (lock_waiters demo_waiting))" by (simp add: demo_waiting_eq)
  have "file_lock_would_deadlock (lock_waiters demo_waiting) (Posix 1) (Posix 2)"
    by (simp add: demo_waiting_eq file_lock_would_deadlock_def)
  then show ?thesis using lock_deadlock_exact [OF d, of "Posix 1" "Posix 2"] d by blast
qed

text \<open>
  C38. Finding: no lock request wakes anyone, and a request can take a conflict away. When the holder of a write lock
  asks for a read lock on the whole file, the task waiting for a read lock is no longer in conflict, yet no waiter of the file is woken;
  with an unlock it is. The same holds of \<open>flock\<close>.
\<close>

theorem lock_downgrade_loses_wakeup:
  "lock_events (fst (fcntl_lock_turn is_ofd blocking f owner pid kind rng st)) = lock_events st
   \<and> lock_events (fst (flock_turn first nonblock f i kind st)) = lock_events st
   \<and> find_lock_conflict (record_locks demo_waiting) demo_file (Posix 2) ReadLock demo_part \<noteq> None
   \<and> find_lock_conflict (record_locks (fst (fcntl_lock_turn False True demo_file (Posix 1) 1 ReadLock demo_whole demo_waiting)))
        demo_file (Posix 2) ReadLock demo_part = None
   \<and> lock_events (fst (fcntl_unlock demo_file (Posix 1) 1 demo_whole demo_waiting)) = lock_events demo_waiting @ [WakeFileLock demo_file]"
proof (intro conjI)
  show "lock_events (fst (fcntl_lock_turn is_ofd blocking f owner pid kind rng st)) = lock_events st"
    by (simp add: fcntl_lock_turn_def drop_waiter_def split: prod.splits option.splits)
  show "lock_events (fst (flock_turn first nonblock f i kind st)) = lock_events st"
    by (simp add: flock_turn_def Let_def)
qed (simp_all add: demo_waiting_eq demo_locked_eq demo_lock_defs fcntl_unlock_def wake_file_lock_waiters_def remainders_def subtract_lock_range_def)

text \<open>A range whose end passes \<open>2 ^ 64\<close> is inverted by the cast: it is granted and covers no byte.\<close>

lemma flock_range_wraps:
  "\<exists>r. flock_range \<lparr>l_type = F_WRLCK, l_whence = 1, l_start = 2 ^ 63 - 1, l_len = 2 ^ 63 - 1, l_pid = 0\<rparr> (2 ^ 63 - 1) 0 = Inr r
     \<and> range_set r = {}"
  by (simp add: flock_range_def signed_lock_base_def as_u64_def range_set_def)

end
