(* ===== verification/Ready_Queue.thy ===== *)
theory Ready_Queue
  imports Kernel_Types
begin

unbundle bit_operations_syntax

text \<open>
  The ready queues of \<open>os/src/task/manager.rs\<close> and the scheduling fields of a task
  (\<open>TaskControlBlock\<close> of \<open>os/src/task/mod.rs\<close>): queueing with deduplication, the choice of the next
  task by effective priority and affinity, removal, the registry of tasks and process identifiers. A task is named by its
  process identifier, which is never reused (\<open>PidAllocator::dealloc\<close> does nothing), so \<open>Arc::ptr_eq\<close> is equality of identifiers. The
  theory shows that the choice is the first task of the level that is due and that the queue's set mirrors its deque.
\<close>

section \<open>Tasks\<close>

datatype TaskStatus = Ready | Running | Zombie | Blocked | Stopped

datatype BlockReason = IoWait | PipeFdReady | PollWait | ChildExit | TimerWait | FutexWait | SignalWait

datatype WaitOutcome = Woken | TimedOut | Interrupted

text \<open>\<open>NO_CPU\<close> is \<^const>\<open>None\<close>.\<close>

record TaskControlBlock =
  is_kernel :: bool
  tk_tgid :: nat
  tk_pgid :: nat
  status :: TaskStatus
  block_reason :: "BlockReason option"
  wait_outcome :: "WaitOutcome option"
  wait_token :: usize
  sched_policy :: usize
  sched_priority :: usize
  affinity :: "64 word"
  blocking_cpu :: "nat option"
  running_cpu :: "nat option"

record ReadyQueue =
  rq_tasks :: "nat list"
  queued_pids :: "nat set"

datatype sched_event = NotifyRunnable "64 word" | NotifyCpu nat

record scheduler =
  tcb :: "nat \<Rightarrow> TaskControlBlock"
  user_queue :: ReadyQueue
  kernel_queue :: ReadyQueue
  rt_runs :: nat
  online_mask :: "64 word"
  sched_events :: "sched_event list"

definition SCHED_FIFO :: usize where "SCHED_FIFO = 1"
definition SCHED_RR :: usize where "SCHED_RR = 2"

definition effective_sched_priority :: "TaskControlBlock \<Rightarrow> usize" where
  "effective_sched_priority t = (if sched_policy t = SCHED_FIFO \<or> sched_policy t = SCHED_RR then sched_priority t else 0)"

definition affinity_mask :: "64 word \<Rightarrow> TaskControlBlock \<Rightarrow> 64 word" where
  "affinity_mask online t = affinity t AND online"

definition can_run_on_cpu :: "64 word \<Rightarrow> TaskControlBlock \<Rightarrow> nat \<Rightarrow> bool" where
  "can_run_on_cpu online t cpu \<longleftrightarrow> affinity_mask online t AND push_bit cpu 1 \<noteq> 0"

section \<open>The queue\<close>

definition rq_new :: ReadyQueue where
  "rq_new = \<lparr>rq_tasks = [], queued_pids = {}\<rparr>"

definition rq_push_back :: "ReadyQueue \<Rightarrow> nat \<Rightarrow> ReadyQueue \<times> bool" where
  "rq_push_back q p =
     (if p \<notin> queued_pids q then (q\<lparr>queued_pids := insert p (queued_pids q), rq_tasks := rq_tasks q @ [p]\<rparr>, True) else (q, False))"

definition rq_push_front :: "ReadyQueue \<Rightarrow> nat \<Rightarrow> ReadyQueue \<times> bool" where
  "rq_push_front q p =
     (if p \<notin> queued_pids q then (q\<lparr>queued_pids := insert p (queued_pids q), rq_tasks := p # rq_tasks q\<rparr>, True) else (q, False))"

definition rq_remove_at :: "ReadyQueue \<Rightarrow> nat \<Rightarrow> ReadyQueue \<times> nat option" where
  "rq_remove_at q i =
     (if i < length (rq_tasks q)
      then (q\<lparr>rq_tasks := take i (rq_tasks q) @ drop (Suc i) (rq_tasks q), queued_pids := queued_pids q - {rq_tasks q ! i}\<rparr>, Some (rq_tasks q ! i))
      else (q, None))"

definition queue_of :: "scheduler \<Rightarrow> bool \<Rightarrow> ReadyQueue" where
  "queue_of s kern = (if kern then kernel_queue s else user_queue s)"

definition set_queue :: "bool \<Rightarrow> ReadyQueue \<Rightarrow> scheduler \<Rightarrow> scheduler" where
  "set_queue kern q s = (if kern then s\<lparr>kernel_queue := q\<rparr> else s\<lparr>user_queue := q\<rparr>)"

section \<open>Publishing tasks\<close>

definition push_task ::
  "(ReadyQueue \<Rightarrow> nat \<Rightarrow> ReadyQueue \<times> bool) \<Rightarrow> bool \<Rightarrow> nat \<Rightarrow> bool \<Rightarrow> scheduler \<Rightarrow> scheduler" where
  "push_task push kern p notify s =
     (if status (tcb s p) \<noteq> Ready then s
      else (case push (queue_of s kern) p of
              (q, inserted) \<Rightarrow>
                (let s1 = set_queue kern q s
                 in if inserted \<and> notify
                    then s1\<lparr>sched_events := sched_events s1 @ [NotifyRunnable (affinity_mask (online_mask s) (tcb s p))]\<rparr>
                    else s1)))"

definition push_task_back :: "bool \<Rightarrow> nat \<Rightarrow> bool \<Rightarrow> scheduler \<Rightarrow> scheduler" where
  "push_task_back = push_task rq_push_back"

definition push_task_front :: "bool \<Rightarrow> nat \<Rightarrow> bool \<Rightarrow> scheduler \<Rightarrow> scheduler" where
  "push_task_front = push_task rq_push_front"

definition add_task :: "nat \<Rightarrow> scheduler \<Rightarrow> scheduler" where
  "add_task p s = push_task_back (is_kernel (tcb s p)) p True s"

definition add_task_local :: "nat \<Rightarrow> nat \<Rightarrow> scheduler \<Rightarrow> scheduler" where
  "add_task_local cpu p s = push_task_back (is_kernel (tcb s p)) p (\<not> can_run_on_cpu (online_mask s) (tcb s p) cpu) s"

definition add_task_front :: "nat \<Rightarrow> scheduler \<Rightarrow> scheduler" where
  "add_task_front p s = push_task_front (is_kernel (tcb s p)) p True s"

definition add_task_front_local :: "nat \<Rightarrow> nat \<Rightarrow> scheduler \<Rightarrow> scheduler" where
  "add_task_front_local cpu p s = push_task_front (is_kernel (tcb s p)) p (\<not> can_run_on_cpu (online_mask s) (tcb s p) cpu) s"

section \<open>Choosing the next task\<close>

definition RT_LOWER_RUN_BUDGET :: nat where "RT_LOWER_RUN_BUDGET = 1"

record choice =
  best_index :: "nat option"
  best_priority :: usize
  lower_rt_index :: "nat option"
  lower_rt_priority :: usize

definition no_choice :: choice where
  "no_choice = \<lparr>best_index = None, best_priority = 0, lower_rt_index = None, lower_rt_priority = 0\<rparr>"

definition consider_task :: "nat \<Rightarrow> usize \<Rightarrow> choice \<Rightarrow> choice" where
  "consider_task index prio c =
     (if prio > best_priority c then
        (let c1 = (if best_priority c > 0 \<and> best_priority c > lower_rt_priority c
                   then c\<lparr>lower_rt_index := best_index c, lower_rt_priority := best_priority c\<rparr> else c)
         in c1\<lparr>best_index := Some index, best_priority := prio\<rparr>)
      else if prio > 0 \<and> prio < best_priority c \<and> prio > lower_rt_priority c
      then c\<lparr>lower_rt_index := Some index, lower_rt_priority := prio\<rparr>
      else if best_index c = None then c\<lparr>best_index := Some index\<rparr>
      else c)"

function fetch_scan :: "(nat \<Rightarrow> TaskControlBlock) \<Rightarrow> 64 word \<Rightarrow> nat \<Rightarrow> ReadyQueue \<Rightarrow> nat \<Rightarrow> choice \<Rightarrow> ReadyQueue \<times> choice" where
  "fetch_scan t online cpu q index c =
     (if index < length (rq_tasks q) then
        (let task = t (rq_tasks q ! index)
         in if status task \<noteq> Ready then fetch_scan t online cpu (fst (rq_remove_at q index)) index c
            else if \<not> can_run_on_cpu online task cpu then fetch_scan t online cpu q (index + 1) c
            else fetch_scan t online cpu q (index + 1) (consider_task index (effective_sched_priority task) c))
      else (q, c))"
  by auto
termination
  by (relation "measure (\<lambda>(t, online, cpu, q, index, c). length (rq_tasks q) - index)") (auto simp: rq_remove_at_def)

declare fetch_scan.simps [simp del]

definition chosen_index :: "nat \<Rightarrow> choice \<Rightarrow> nat option" where
  "chosen_index runs c =
     (if best_priority c > 0
      then (if runs \<ge> RT_LOWER_RUN_BUDGET \<and> lower_rt_index c \<noteq> None then lower_rt_index c else best_index c)
      else best_index c)"

definition fetch_from_queue :: "nat \<Rightarrow> bool \<Rightarrow> scheduler \<Rightarrow> scheduler \<times> nat option" where
  "fetch_from_queue cpu kern s =
     (case fetch_scan (tcb s) (online_mask s) cpu (queue_of s kern) 0 no_choice of
        (q, c) \<Rightarrow>
          (case chosen_index (rt_runs s) c of
             None \<Rightarrow> (set_queue kern q s, None)
           | Some i \<Rightarrow>
               (case rq_remove_at q i of
                  (q1, None) \<Rightarrow> (set_queue kern q1 s, None)
                | (q1, Some p) \<Rightarrow>
                    (let prio = effective_sched_priority (tcb s p);
                         runs = (if best_priority c > 0 \<and> prio > 0 \<and> prio = best_priority c then rt_runs s + 1 else 0)
                     in ((set_queue kern q1 s)\<lparr>rt_runs := runs\<rparr>, Some p)))))"

definition fetch_task :: "nat \<Rightarrow> scheduler \<Rightarrow> scheduler \<times> nat option" where
  "fetch_task cpu s =
     (case fetch_from_queue cpu False s of
        (s1, Some p) \<Rightarrow> (s1, Some p)
      | (s1, None) \<Rightarrow> fetch_from_queue cpu True s1)"

function runnable_scan :: "(nat \<Rightarrow> TaskControlBlock) \<Rightarrow> 64 word \<Rightarrow> nat \<Rightarrow> ReadyQueue \<Rightarrow> nat \<Rightarrow> ReadyQueue \<times> bool" where
  "runnable_scan t online cpu q index =
     (if index < length (rq_tasks q) then
        (let task = t (rq_tasks q ! index)
         in if status task \<noteq> Ready then runnable_scan t online cpu (fst (rq_remove_at q index)) index
            else if can_run_on_cpu online task cpu then (q, True)
            else runnable_scan t online cpu q (index + 1))
      else (q, False))"
  by auto
termination
  by (relation "measure (\<lambda>(t, online, cpu, q, index). length (rq_tasks q) - index)") (auto simp: rq_remove_at_def)

declare runnable_scan.simps [simp del]

definition has_runnable_task :: "nat \<Rightarrow> bool \<Rightarrow> scheduler \<Rightarrow> scheduler \<times> bool" where
  "has_runnable_task cpu kern s =
     (case runnable_scan (tcb s) (online_mask s) cpu (queue_of s kern) 0 of (q, b) \<Rightarrow> (set_queue kern q s, b))"

definition has_task :: "nat \<Rightarrow> scheduler \<Rightarrow> scheduler \<times> bool" where
  "has_task cpu s = (case has_runnable_task cpu False s of (s1, True) \<Rightarrow> (s1, True) | (s1, False) \<Rightarrow> has_runnable_task cpu True s1)"

section \<open>Removing tasks\<close>

fun position :: "('a \<Rightarrow> bool) \<Rightarrow> 'a list \<Rightarrow> nat option" where
  "position P [] = None"
| "position P (x # xs) = (if P x then Some 0 else map_option Suc (position P xs))"

definition remove_task_from_queue :: "bool \<Rightarrow> nat \<Rightarrow> scheduler \<Rightarrow> scheduler \<times> nat option" where
  "remove_task_from_queue kern p s =
     (case position (\<lambda>x. x = p) (rq_tasks (queue_of s kern)) of
        None \<Rightarrow> (s, None)
      | Some i \<Rightarrow> (case rq_remove_at (queue_of s kern) i of (q, r) \<Rightarrow> (set_queue kern q s, r)))"

definition remove_task :: "nat \<Rightarrow> scheduler \<Rightarrow> scheduler \<times> nat option" where
  "remove_task p s =
     (case remove_task_from_queue False p s of (s1, Some x) \<Rightarrow> (s1, Some x) | (s1, None) \<Rightarrow> remove_task_from_queue True p s1)"

definition rq_remove_instances :: "nat \<Rightarrow> ReadyQueue \<Rightarrow> ReadyQueue \<times> nat" where
  "rq_remove_instances p q =
     (\<lparr>rq_tasks = filter (\<lambda>x. x \<noteq> p) (rq_tasks q), queued_pids = (if p \<in> set (rq_tasks q) then queued_pids q - {p} else queued_pids q)\<rparr>,
      length (filter (\<lambda>x. x = p) (rq_tasks q)))"

definition remove_task_instances :: "nat \<Rightarrow> scheduler \<Rightarrow> scheduler \<times> nat" where
  "remove_task_instances p s =
     (case rq_remove_instances p (user_queue s) of
        (q, n) \<Rightarrow> (case rq_remove_instances p (kernel_queue s) of
                     (q', n') \<Rightarrow> (s\<lparr>user_queue := q, kernel_queue := q'\<rparr>, n + n')))"

fun retain_loop :: "(nat \<Rightarrow> bool) \<Rightarrow> nat list \<Rightarrow> ReadyQueue \<Rightarrow> ReadyQueue" where
  "retain_loop keep [] kept = kept"
| "retain_loop keep (p # ps) kept = retain_loop keep ps (if keep p then fst (rq_push_back kept p) else kept)"

definition retain_tasks :: "(nat \<Rightarrow> bool) \<Rightarrow> scheduler \<Rightarrow> scheduler" where
  "retain_tasks keep s =
     s\<lparr>user_queue := retain_loop keep (rq_tasks (user_queue s)) rq_new, kernel_queue := retain_loop keep (rq_tasks (kernel_queue s)) rq_new\<rparr>"

section \<open>The set mirrors the deque\<close>

definition rq_ok :: "ReadyQueue \<Rightarrow> bool" where
  "rq_ok q \<longleftrightarrow> distinct (rq_tasks q) \<and> queued_pids q = set (rq_tasks q)"

lemma remove_nth_remove1: "i < length xs \<Longrightarrow> distinct xs \<Longrightarrow> take i xs @ drop (Suc i) xs = remove1 (xs ! i) xs"
proof (induction xs arbitrary: i)
  case (Cons x xs)
  then show ?case by (cases i) auto
qed simp

lemma rq_ok_push_back: "rq_ok q \<Longrightarrow> rq_ok (fst (rq_push_back q p))"
  by (auto simp: rq_ok_def rq_push_back_def)

lemma rq_ok_push_front: "rq_ok q \<Longrightarrow> rq_ok (fst (rq_push_front q p))"
  by (auto simp: rq_ok_def rq_push_front_def)

lemma rq_ok_remove_at: "rq_ok q \<Longrightarrow> rq_ok (fst (rq_remove_at q i))"
  by (auto simp: rq_ok_def rq_remove_at_def remove_nth_remove1 simp flip: set_append)

lemma rq_ok_instances: "rq_ok q \<Longrightarrow> rq_ok (fst (rq_remove_instances p q))"
  by (auto simp: rq_ok_def rq_remove_instances_def)

lemma rq_ok_retain: "rq_ok kept \<Longrightarrow> rq_ok (retain_loop keep ps kept)"
  by (induction keep ps kept rule: retain_loop.induct) (simp_all add: rq_ok_push_back)

section \<open>The choice\<close>

definition first_at :: "('a \<Rightarrow> bool) \<Rightarrow> 'a list \<Rightarrow> nat \<Rightarrow> bool" where
  "first_at P xs i \<longleftrightarrow> i < length xs \<and> P (xs ! i) \<and> (\<forall>j < i. \<not> P (xs ! j))"

lemma first_at_snoc: "first_at P xs i \<Longrightarrow> first_at P (xs @ [x]) i"
  by (auto simp: first_at_def nth_append)

lemma first_at_new: "\<forall>y \<in> set xs. \<not> P y \<Longrightarrow> P x \<Longrightarrow> first_at P (xs @ [x]) (length xs)"
  by (auto simp: first_at_def nth_append)

lemma first_at_filter: "first_at P xs i \<Longrightarrow> xs ! i = hd (filter P xs)"
proof (induction xs arbitrary: i)
  case (Cons x xs)
  show ?case
  proof (cases i)
    case (Suc j)
    then have "\<not> P x" using Cons.prems by (auto simp: first_at_def)
    moreover have "first_at P xs j" using Cons.prems Suc unfolding first_at_def by fastforce
    ultimately show ?thesis using Cons.IH Suc by simp
  qed (use Cons.prems in \<open>simp add: first_at_def\<close>)
qed (simp add: first_at_def)

lemma first_at_level: "first_at (\<lambda>p. run p \<and> prio p = L) xs i \<Longrightarrow> L \<in> prio ` set (filter run xs)"
  by (force simp: first_at_def)

text \<open>What the scan knows of the tasks it has passed: the top level, and the level below it that is above zero.\<close>

definition choice_ok :: "(nat \<Rightarrow> bool) \<Rightarrow> (nat \<Rightarrow> usize) \<Rightarrow> nat list \<Rightarrow> choice \<Rightarrow> bool" where
  "choice_ok run prio xs c \<longleftrightarrow>
     (\<forall>p \<in> set xs. run p \<longrightarrow> prio p \<le> best_priority c)
     \<and> (case best_index c of None \<Rightarrow> best_priority c = 0 \<and> (\<forall>p \<in> set xs. \<not> run p)
        | Some i \<Rightarrow> first_at (\<lambda>p. run p \<and> prio p = best_priority c) xs i)
     \<and> (\<forall>p \<in> set xs. run p \<longrightarrow> prio p < best_priority c \<longrightarrow> prio p \<le> lower_rt_priority c)
     \<and> (case lower_rt_index c of None \<Rightarrow> lower_rt_priority c = 0
        | Some i \<Rightarrow> 0 < lower_rt_priority c \<and> lower_rt_priority c < best_priority c \<and> first_at (\<lambda>p. run p \<and> prio p = lower_rt_priority c) xs i)"

lemma choice_ok_Nil: "choice_ok run prio [] no_choice"
  by (simp add: choice_ok_def no_choice_def)

lemma choice_ok_skip: "choice_ok run prio xs c \<Longrightarrow> \<not> run p \<Longrightarrow> choice_ok run prio (xs @ [p]) c"
  by (auto simp: choice_ok_def first_at_snoc split: option.splits)

lemma choice_ok_consider:
  assumes ok: "choice_ok run prio xs c" and run: "run p"
  shows "choice_ok run prio (xs @ [p]) (consider_task (length xs) (prio p) c)"
proof -
  have top: "\<forall>q \<in> set xs. run q \<longrightarrow> prio q \<le> best_priority c" and low: "\<forall>q \<in> set xs. run q \<longrightarrow> prio q < best_priority c \<longrightarrow> prio q \<le> lower_rt_priority c"
    using ok by (auto simp: choice_ok_def)
  consider (above) "prio p > best_priority c" | (between) "0 < prio p" "prio p < best_priority c" "prio p > lower_rt_priority c"
    | (other) "prio p \<le> best_priority c" "\<not> (0 < prio p \<and> prio p < best_priority c \<and> prio p > lower_rt_priority c)" by linarith
  then show ?thesis
  proof cases
    case above
    have new: "first_at (\<lambda>q. run q \<and> prio q = prio p) (xs @ [p]) (length xs)"
      by (rule first_at_new) (use top above run in fastforce)+
    show ?thesis
    proof (cases "best_priority c > 0")
      case True
      then obtain i where i: "best_index c = Some i" "first_at (\<lambda>q. run q \<and> prio q = best_priority c) xs i"
        using ok by (auto simp: choice_ok_def split: option.splits)
      have "lower_rt_priority c < best_priority c" using ok True by (auto simp: choice_ok_def split: option.splits)
      then show ?thesis using above True i new first_at_snoc [OF i(2)] top by (auto simp: consider_task_def choice_ok_def)
    next
      case False
      then have "lower_rt_index c = None" "lower_rt_priority c = 0" using ok by (auto simp: choice_ok_def split: option.splits)
      then show ?thesis using above False new top low by (auto simp: consider_task_def choice_ok_def)
    qed
  next
    case between
    have new: "first_at (\<lambda>q. run q \<and> prio q = prio p) (xs @ [p]) (length xs)"
      by (rule first_at_new) (use low between run in fastforce)+
    obtain i where i: "best_index c = Some i" "first_at (\<lambda>q. run q \<and> prio q = best_priority c) xs i"
      using ok between by (auto simp: choice_ok_def split: option.splits)
    show ?thesis using between new i first_at_snoc [OF i(2)] top low by (fastforce simp: consider_task_def choice_ok_def)
  next
    case other
    show ?thesis
    proof (cases "best_index c")
      case None
      then have "best_priority c = 0" "\<forall>q \<in> set xs. \<not> run q" "lower_rt_index c = None" using ok by (auto simp: choice_ok_def split: option.splits)
      then show ?thesis using other None run first_at_new [of xs "\<lambda>q. run q \<and> prio q = 0" p] ok by (auto simp: consider_task_def choice_ok_def)
    next
      case (Some i)
      then show ?thesis using other ok run by (auto simp: consider_task_def choice_ok_def first_at_snoc split: option.splits)
    qed
  qed
qed

text \<open>The scan drops what is not ready and keeps the order of the rest.\<close>

lemma fetch_scan_correct:
  assumes "rq_ok q" and "choice_ok (\<lambda>p. can_run_on_cpu online (t p) cpu) (\<lambda>p. effective_sched_priority (t p)) (take index (rq_tasks q)) c"
    and "\<forall>p \<in> set (take index (rq_tasks q)). status (t p) = Ready" and "index \<le> length (rq_tasks q)"
  shows "rq_ok (fst (fetch_scan t online cpu q index c))
    \<and> rq_tasks (fst (fetch_scan t online cpu q index c)) = filter (\<lambda>p. status (t p) = Ready) (rq_tasks q)
    \<and> choice_ok (\<lambda>p. can_run_on_cpu online (t p) cpu) (\<lambda>p. effective_sched_priority (t p)) (filter (\<lambda>p. status (t p) = Ready) (rq_tasks q))
        (snd (fetch_scan t online cpu q index c))"
  using assms
proof (induction t online cpu q index c rule: fetch_scan.induct)
  case (1 t online cpu q index c)
  let ?p = "rq_tasks q ! index"
  have snoc: "take (Suc index) (rq_tasks q) = take index (rq_tasks q) @ [?p]" if "index < length (rq_tasks q)"
    using that by (simp add: take_Suc_conv_app_nth)
  consider (finish) "\<not> index < length (rq_tasks q)" | (drop) "index < length (rq_tasks q)" "status (t ?p) \<noteq> Ready"
    | (skip) "index < length (rq_tasks q)" "status (t ?p) = Ready" "\<not> can_run_on_cpu online (t ?p) cpu"
    | (look) "index < length (rq_tasks q)" "status (t ?p) = Ready" "can_run_on_cpu online (t ?p) cpu" by blast
  then show ?case
  proof cases
    case finish
    then have "filter (\<lambda>p. status (t p) = Ready) (rq_tasks q) = rq_tasks q" using 1(6,7) by (simp add: filter_id_conv)
    then show ?thesis using finish 1(4,5,7) by (simp add: fetch_scan.simps)
  next
    case drop
    let ?q = "fst (rq_remove_at q index)"
    have ts: "rq_tasks ?q = take index (rq_tasks q) @ drop (Suc index) (rq_tasks q)" using drop by (simp add: rq_remove_at_def)
    have "filter (\<lambda>p. status (t p) = Ready) (take index (rq_tasks q) @ ?p # drop (Suc index) (rq_tasks q)) = filter (\<lambda>p. status (t p) = Ready) (rq_tasks ?q)"
      using drop(2) ts by simp
    then have "filter (\<lambda>p. status (t p) = Ready) (rq_tasks ?q) = filter (\<lambda>p. status (t p) = Ready) (rq_tasks q)"
      unfolding id_take_nth_drop [OF drop(1), symmetric] by (rule sym)
    then show ?thesis using "1.IH"(1) [OF drop(1) refl drop(2) rq_ok_remove_at [OF 1(4)]] 1(5-7) drop ts
      by (simp add: fetch_scan.simps [of t online cpu q index c] Let_def)
  next
    case skip
    then show ?thesis using "1.IH"(2) [OF skip(1) refl _ skip(3) 1(4)] 1(5,6) choice_ok_skip [OF 1(5), of ?p] snoc
      by (simp add: fetch_scan.simps [of t online cpu q index c] Let_def)
  next
    case look
    have "length (take index (rq_tasks q)) = index" using look by simp
    then show ?thesis using "1.IH"(3) [OF look(1) refl _ _ 1(4)] 1(6) choice_ok_consider [OF 1(5), of ?p] look snoc
      by (simp add: fetch_scan.simps [of t online cpu q index c] Let_def)
  qed
qed

text \<open>The level that is due: the top one, or after a run of the top level the one below it among the real-time levels.\<close>

definition due_level :: "usize list \<Rightarrow> nat \<Rightarrow> usize" where
  "due_level ps runs =
     (let top = Max (set ps); lows = {x \<in> set ps. 0 < x \<and> x < top}
      in if RT_LOWER_RUN_BUDGET \<le> runs \<and> lows \<noteq> {} then Max lows else top)"

definition task_priority :: "scheduler \<Rightarrow> nat \<Rightarrow> usize" where
  "task_priority s p = effective_sched_priority (tcb s p)"

definition ready_tasks :: "scheduler \<Rightarrow> bool \<Rightarrow> nat list" where
  "ready_tasks s kern = filter (\<lambda>p. status (tcb s p) = Ready) (rq_tasks (queue_of s kern))"

definition runnable_tasks :: "scheduler \<Rightarrow> bool \<Rightarrow> nat \<Rightarrow> nat list" where
  "runnable_tasks s kern cpu = filter (\<lambda>p. can_run_on_cpu (online_mask s) (tcb s p) cpu) (ready_tasks s kern)"

lemma queue_of_set [simp]: "queue_of (set_queue kern q s) kern' = (if kern = kern' then q else queue_of s kern')"
  by (auto simp: queue_of_def set_queue_def)

lemma set_queue_fields [simp]:
  "tcb (set_queue kern q s) = tcb s" "rt_runs (set_queue kern q s) = rt_runs s" "online_mask (set_queue kern q s) = online_mask s"
  "queue_of (s\<lparr>rt_runs := n\<rparr>) kern = queue_of s kern"
  by (auto simp: queue_of_def set_queue_def)

lemma choice_due:
  assumes ok: "choice_ok run prio xs c" and i: "chosen_index runs c = Some i"
  shows "i < length xs" and "xs ! i = hd (filter (\<lambda>p. prio p = due_level (map prio (filter run xs)) runs) (filter run xs))"
    and "best_priority c = Max (prio ` set (filter run xs))"
proof -
  let ?L = "map prio (filter run xs)"
  obtain b where b: "best_index c = Some b" "first_at (\<lambda>p. run p \<and> prio p = best_priority c) xs b"
    using ok i by (cases "best_index c") (auto simp: choice_ok_def chosen_index_def split: if_splits option.splits)
  have le: "\<forall>p \<in> set xs. run p \<longrightarrow> prio p \<le> best_priority c" and low: "\<forall>p \<in> set xs. run p \<longrightarrow> prio p < best_priority c \<longrightarrow> prio p \<le> lower_rt_priority c"
    using ok by (auto simp: choice_ok_def)
  have top: "Max (set ?L) = best_priority c" using first_at_level [OF b(2)] le by (intro Max_eqI) auto
  then show "best_priority c = Max (prio ` set (filter run xs))" by simp
  have "\<exists>L. first_at (\<lambda>p. run p \<and> prio p = L) xs i \<and> due_level ?L runs = L"
  proof (cases "lower_rt_index c")
    case None
    then have "{x \<in> set ?L. 0 < x \<and> x < Max (set ?L)} = {}" using ok low top by (auto simp: choice_ok_def)
    then have "due_level ?L runs = best_priority c" using top by (simp only: due_level_def Let_def simp_thms if_False)
    moreover have "i = b" using i b(1) None by (simp add: chosen_index_def split: if_splits)
    ultimately show ?thesis using b(2) by blast
  next
    case (Some l)
    then have l: "0 < lower_rt_priority c" "lower_rt_priority c < best_priority c" "first_at (\<lambda>p. run p \<and> prio p = lower_rt_priority c) xs l"
      using ok by (auto simp: choice_ok_def)
    have mem: "lower_rt_priority c \<in> {x \<in> set ?L. 0 < x \<and> x < Max (set ?L)}" using l first_at_level [OF l(3)] top by simp
    have "Max {x \<in> set ?L. 0 < x \<and> x < Max (set ?L)} = lower_rt_priority c" using mem low top by (intro Max_eqI) auto
    then have "due_level ?L runs = (if RT_LOWER_RUN_BUDGET \<le> runs then lower_rt_priority c else best_priority c)"
      using mem top unfolding due_level_def Let_def by (metis (no_types, lifting) empty_iff)
    moreover have "i = (if RT_LOWER_RUN_BUDGET \<le> runs then l else b)" using i b(1) Some l by (simp add: chosen_index_def split: if_splits)
    ultimately show ?thesis using l(3) b(2) by auto
  qed
  then obtain L where L: "first_at (\<lambda>p. run p \<and> prio p = L) xs i" "due_level ?L runs = L" by blast
  show "i < length xs" using L(1) by (simp add: first_at_def)
  show "xs ! i = hd (filter (\<lambda>p. prio p = due_level ?L runs) (filter run xs))"
    using first_at_filter [OF L(1)] unfolding L(2) filter_filter by simp
qed

lemma choice_none: "choice_ok run prio xs c \<Longrightarrow> chosen_index runs c = None \<longleftrightarrow> filter run xs = []"
  by (cases "best_index c") (auto simp: choice_ok_def chosen_index_def filter_empty_conv first_at_def split: option.splits)

text \<open>
  C25. Fetching from a ready queue whose set mirrors its deque hands out a task exactly when some queued task is ready and
  allowed on this CPU. It is the first in queue order of the level that is due: the highest effective priority, or, after a run of the top
  real-time level, the next lower real-time level. It leaves the queue together with the
  entries that are no longer ready; the others stay in order, the mirror stays exact, and the count of runs of the top level is kept.
\<close>

theorem fetch_exact:
  assumes "rq_ok (queue_of s kern)"
  shows "case fetch_from_queue cpu kern s of (s', r) \<Rightarrow>
     rq_ok (queue_of s' kern) \<and> queue_of s' (\<not> kern) = queue_of s (\<not> kern) \<and> tcb s' = tcb s
     \<and> (case r of
          None \<Rightarrow> runnable_tasks s kern cpu = [] \<and> rq_tasks (queue_of s' kern) = ready_tasks s kern \<and> rt_runs s' = rt_runs s
        | Some p \<Rightarrow>
            p \<in> set (runnable_tasks s kern cpu)
            \<and> p = hd (filter (\<lambda>x. task_priority s x = due_level (map (task_priority s) (runnable_tasks s kern cpu)) (rt_runs s)) (runnable_tasks s kern cpu))
            \<and> rq_tasks (queue_of s' kern) = remove1 p (ready_tasks s kern)
            \<and> rt_runs s' = (if 0 < task_priority s p \<and> (\<forall>x \<in> set (runnable_tasks s kern cpu). task_priority s x \<le> task_priority s p) then rt_runs s + 1 else 0))"
proof -
  let ?run = "\<lambda>p. can_run_on_cpu (online_mask s) (tcb s p) cpu" and ?xs = "ready_tasks s kern"
  obtain q c where f: "fetch_scan (tcb s) (online_mask s) cpu (queue_of s kern) 0 no_choice = (q, c)" by force
  have q: "rq_ok q" "rq_tasks q = ?xs" and c: "choice_ok ?run (task_priority s) ?xs c"
    using fetch_scan_correct [OF assms, of "online_mask s" "tcb s" cpu 0 no_choice] f
    by (simp_all add: choice_ok_Nil ready_tasks_def task_priority_def [abs_def])
  show ?thesis
  proof (cases "chosen_index (rt_runs s) c")
    case None
    then show ?thesis using f q choice_none [OF c] by (simp add: fetch_from_queue_def runnable_tasks_def)
  next
    case (Some i)
    note d = choice_due [OF c Some, folded runnable_tasks_def]
    let ?p = "?xs ! i"
    have r: "rq_remove_at q i = (fst (rq_remove_at q i), Some ?p)" and ts: "rq_tasks (fst (rq_remove_at q i)) = remove1 ?p ?xs"
      using d(1) q remove_nth_remove1 [of i ?xs] by (simp_all add: rq_remove_at_def rq_ok_def)
    have ne: "runnable_tasks s kern cpu \<noteq> []" using choice_none [OF c, of "rt_runs s"] Some by (simp add: runnable_tasks_def)
    have lvl: "filter (\<lambda>x. task_priority s x = due_level (map (task_priority s) (runnable_tasks s kern cpu)) (rt_runs s)) (runnable_tasks s kern cpu) \<noteq> []"
      (is "?F \<noteq> []")
    proof -
      let ?M = "task_priority s ` set (runnable_tasks s kern cpu)"
      have "due_level (map (task_priority s) (runnable_tasks s kern cpu)) (rt_runs s) \<in> ?M"
        using ne Max_in [of ?M] Max_in [of "{x \<in> ?M. 0 < x \<and> x < Max ?M}"] unfolding due_level_def Let_def by auto
      then show ?thesis by (auto simp: filter_empty_conv)
    qed
    have mem: "?p \<in> set (runnable_tasks s kern cpu)" using hd_in_set [OF lvl] d(2) by simp
    have top: "(\<forall>x \<in> set (runnable_tasks s kern cpu). task_priority s x \<le> task_priority s ?p) \<longleftrightarrow> task_priority s ?p = best_priority c"
    proof
      assume "\<forall>x \<in> set (runnable_tasks s kern cpu). task_priority s x \<le> task_priority s ?p"
      then show "task_priority s ?p = best_priority c" unfolding d(3) using mem by (intro Max_eqI [symmetric]) auto
    next
      assume "task_priority s ?p = best_priority c"
      then show "\<forall>x \<in> set (runnable_tasks s kern cpu). task_priority s x \<le> task_priority s ?p" unfolding d(3) by simp
    qed
    have e: "fetch_from_queue cpu kern s = ((set_queue kern (fst (rq_remove_at q i)) s)
        \<lparr>rt_runs := if best_priority c > 0 \<and> task_priority s ?p > 0 \<and> task_priority s ?p = best_priority c then rt_runs s + 1 else 0\<rparr>, Some ?p)"
      unfolding fetch_from_queue_def f prod.case Some option.case by (subst r) (simp add: Let_def task_priority_def)
    show ?thesis unfolding e prod.case option.case
      using ts mem d(2) top rq_ok_remove_at [OF q(1), of i] by (intro conjI) auto
  qed
qed

section \<open>Example\<close>

definition demo_task :: "usize \<Rightarrow> usize \<Rightarrow> TaskControlBlock" where
  "demo_task policy prio =
     \<lparr>is_kernel = False, tk_tgid = 0, tk_pgid = 0, status = Ready, block_reason = None, wait_outcome = None, wait_token = 0,
      sched_policy = policy, sched_priority = prio, affinity = 1, blocking_cpu = None, running_cpu = None\<rparr>"

text \<open>A normal task, one of priority 5 and one of priority 3; the top level has just run.\<close>

definition demo_sched :: scheduler where
  "demo_sched =
     \<lparr>tcb = (\<lambda>p. if p = 1 then demo_task 0 0 else if p = 2 then demo_task SCHED_FIFO 5 else demo_task SCHED_RR 3),
      user_queue = \<lparr>rq_tasks = [1, 2, 3], queued_pids = {1, 2, 3}\<rparr>, kernel_queue = rq_new, rt_runs = 1, online_mask = 1, sched_events = []\<rparr>"

lemma demo_sched_ok: "rq_ok (queue_of demo_sched False)"
  by (simp add: demo_sched_def queue_of_def rq_ok_def)

lemma demo_runnable: "runnable_tasks demo_sched False 0 = [1, 2, 3]"
  by (simp add: runnable_tasks_def ready_tasks_def demo_sched_def queue_of_def demo_task_def can_run_on_cpu_def affinity_mask_def)

lemma demo_due: "due_level (map (task_priority demo_sched) [1, 2, 3]) 1 = 3"
proof -
  have lows: "{x \<in> {0, 5, 3 :: nat}. 0 < x \<and> x < 5} = {3}" by auto
  have ps: "map (task_priority demo_sched) [1, 2, 3] = [0, 5, 3]"
    by (simp add: demo_sched_def task_priority_def effective_sched_priority_def demo_task_def SCHED_FIFO_def SCHED_RR_def)
  have "set [0, 5, 3 :: nat] = {0, 5, 3}" and "Max {0, 5, 3 :: nat} = 5" by simp_all
  then show ?thesis unfolding ps due_level_def Let_def using lows by (simp only: RT_LOWER_RUN_BUDGET_def) simp
qed

theorem fetch_exact_witness:
  "rq_ok (queue_of demo_sched False) \<and> snd (fetch_from_queue 0 False demo_sched) = Some 3"
proof -
  obtain s' r where f: "fetch_from_queue 0 False demo_sched = (s', r)" by force
  have "r \<noteq> None" using fetch_exact [OF demo_sched_ok, of 0] f demo_runnable by (auto split: option.splits)
  then obtain p where p: "r = Some p" by blast
  have "rt_runs demo_sched = 1" by (simp add: demo_sched_def)
  then have "p = hd (filter (\<lambda>x. task_priority demo_sched x = 3) [1, 2, 3])"
    using fetch_exact [OF demo_sched_ok, of 0] f p demo_runnable demo_due by simp
  also have "\<dots> = 3" by (simp add: demo_sched_def task_priority_def effective_sched_priority_def demo_task_def SCHED_FIFO_def SCHED_RR_def)
  finally show ?thesis using f p demo_sched_ok by simp
qed

end
