(* ===== verification/Wait_Queue.thy ===== *)
theory Wait_Queue
  imports Ready_Queue
begin

text \<open>
  Wait queues (\<open>os/src/task/wait_queue.rs\<close>), timer waiters (\<open>os/src/timer.rs\<close>) and the waking of tasks (\<open>os/src/task/mod.rs\<close>) as the
  operations of one caller. The theory \<open>Wakeup\<close> splits them at their critical sections and interleaves them. The interval timers that
  \<open>wake_expired_timers\<close> serves last belong to \<open>syscall/other.rs\<close> and are left out; their next deadline is an argument.
\<close>

record WaitKey =
  wk_object :: usize
  wk_event :: usize

record WaitEntry =
  we_task :: nat
  we_token :: usize
  we_key :: "WaitKey option"

record TimerWaiter =
  deadline_us :: usize
  tw_task :: nat
  tw_token :: usize

section \<open>The deque of waiters\<close>

text \<open>Both removal loops walk the deque by index and keep what does not match.\<close>

definition remove_waiters :: "nat \<Rightarrow> usize \<Rightarrow> WaitEntry list \<Rightarrow> WaitEntry list \<times> bool" where
  "remove_waiters p token ws =
     (filter (\<lambda>e. \<not> (we_task e = p \<and> we_token e = token)) ws, \<exists>e \<in> set ws. we_task e = p \<and> we_token e = token)"

definition remove_task_waiters :: "nat \<Rightarrow> WaitEntry list \<Rightarrow> WaitEntry list \<times> nat" where
  "remove_task_waiters p ws = (filter (\<lambda>e. we_task e \<noteq> p) ws, length (filter (\<lambda>e. we_task e = p) ws))"

definition register_waiters :: "nat \<Rightarrow> usize \<Rightarrow> WaitKey list \<Rightarrow> WaitEntry list \<Rightarrow> WaitEntry list" where
  "register_waiters p token keys ws =
     (if keys = [] then ws @ [\<lparr>we_task = p, we_token = token, we_key = None\<rparr>]
      else ws @ map (\<lambda>k. \<lparr>we_task = p, we_token = token, we_key = Some k\<rparr>) keys)"

text \<open>\<open>position\<close> followed by \<open>remove\<close>.\<close>

fun take_matching :: "(WaitEntry \<Rightarrow> bool) \<Rightarrow> WaitEntry list \<Rightarrow> (WaitEntry \<times> WaitEntry list) option" where
  "take_matching P [] = None"
| "take_matching P (e # ws) =
     (if P e then Some (e, ws) else map_option (\<lambda>(x, rest). (x, e # rest)) (take_matching P ws))"

section \<open>Timer waiters\<close>

definition add_timeout :: "usize \<Rightarrow> nat \<Rightarrow> usize \<Rightarrow> TimerWaiter list \<Rightarrow> TimerWaiter list" where
  "add_timeout deadline p token ts = ts @ [\<lparr>deadline_us = deadline, tw_task = p, tw_token = token\<rparr>]"

fun remove_timeout :: "nat \<Rightarrow> usize \<Rightarrow> TimerWaiter list \<Rightarrow> TimerWaiter list \<times> bool" where
  "remove_timeout p token [] = ([], False)"
| "remove_timeout p token (w # ws) =
     (if tw_task w = p \<and> tw_token w = token then (ws, True)
      else case remove_timeout p token ws of (rest, b) \<Rightarrow> (w # rest, b))"

definition remove_task_timeouts :: "nat \<Rightarrow> TimerWaiter list \<Rightarrow> TimerWaiter list \<times> nat" where
  "remove_task_timeouts p ts = (filter (\<lambda>w. tw_task w \<noteq> p) ts, length (filter (\<lambda>w. tw_task w = p) ts))"

definition next_timer_delay_us :: "TimerWaiter list \<Rightarrow> usize option \<Rightarrow> usize \<Rightarrow> usize \<Rightarrow> usize" where
  "next_timer_delay_us ts interval now_us default_us =
     (let deadlines = map deadline_us ts @ (case interval of None \<Rightarrow> [] | Some d \<Rightarrow> [d])
      in if deadlines = [] then default_us
         else (let deadline = Min (set deadlines)
               in if deadline \<le> now_us then 1 else max (min default_us (deadline - now_us)) 1))"

section \<open>Waking one task\<close>

definition set_task :: "nat \<Rightarrow> (TaskControlBlock \<Rightarrow> TaskControlBlock) \<Rightarrow> scheduler \<Rightarrow> scheduler" where
  "set_task p f s = s\<lparr>tcb := (tcb s)(p := f (tcb s p))\<rparr>"

definition next_wait_token :: "TaskControlBlock \<Rightarrow> TaskControlBlock" where
  "next_wait_token t = t\<lparr>wait_token := wrapping_add (wait_token t) 1\<rparr>"

definition set_status_if :: "TaskStatus \<Rightarrow> TaskStatus \<Rightarrow> TaskControlBlock \<Rightarrow> TaskControlBlock \<times> bool" where
  "set_status_if expected next t = (if status t \<noteq> expected then (t, False) else (t\<lparr>status := next\<rparr>, True))"

definition try_start_running :: "nat \<Rightarrow> TaskControlBlock \<Rightarrow> TaskControlBlock \<times> bool" where
  "try_start_running cpu t =
     (if status t \<noteq> Ready then (t, False)
      else if running_cpu t \<noteq> None then (t, False)
      else (t\<lparr>running_cpu := Some cpu, status := Running\<rparr>, True))"

definition release_running_cpu :: "nat \<Rightarrow> TaskControlBlock \<Rightarrow> TaskControlBlock" where
  "release_running_cpu cpu t = (if running_cpu t = Some cpu then t\<lparr>running_cpu := None\<rparr> else t)"

text \<open>
  The section of \<open>wake_task_token_with\<close> under the status lock: the task is made ready, or the wake-up is noted for a task that is about to
  block, or nothing is done.
\<close>

datatype wake_result = Published | Noted | Ignored

definition publish_wake :: "bool \<Rightarrow> WaitOutcome \<Rightarrow> TaskControlBlock \<Rightarrow> TaskControlBlock \<times> wake_result" where
  "publish_wake note_early outcome t =
     (if status t \<noteq> Blocked then
        (if note_early \<and> block_reason t \<noteq> None then (t\<lparr>wait_outcome := Some outcome\<rparr>, Noted) else (t, Ignored))
      else (t\<lparr>status := Ready, block_reason := None, wait_outcome := Some outcome\<rparr>, Published))"

definition hand_over :: "nat \<Rightarrow> scheduler \<Rightarrow> scheduler" where
  "hand_over p s =
     (case blocking_cpu (tcb s p) of
        None \<Rightarrow> add_task p s
      | Some owner \<Rightarrow> s\<lparr>sched_events := sched_events s @ [NotifyCpu owner]\<rparr>)"

definition wake_task :: "bool \<Rightarrow> nat \<Rightarrow> WaitOutcome \<Rightarrow> scheduler \<Rightarrow> scheduler \<times> bool" where
  "wake_task note_early p outcome s =
     (case publish_wake note_early outcome (tcb s p) of
        (t, Published) \<Rightarrow> (hand_over p (set_task p (\<lambda>_. t) s), True)
      | (t, Noted) \<Rightarrow> (set_task p (\<lambda>_. t) s, True)
      | (t, Ignored) \<Rightarrow> (s, False))"

definition wake_task_token_with :: "nat \<Rightarrow> usize \<Rightarrow> WaitOutcome \<Rightarrow> scheduler \<Rightarrow> scheduler \<times> bool" where
  "wake_task_token_with p token outcome s =
     (if wait_token (tcb s p) \<noteq> token then (s, False) else wake_task True p outcome s)"

definition wake_blocked_task :: "nat \<Rightarrow> WaitOutcome \<Rightarrow> scheduler \<Rightarrow> scheduler \<times> bool" where
  "wake_blocked_task p outcome s = wake_task False p outcome s"

section \<open>Waking the waiters of a queue\<close>

lemma take_matching_length: "take_matching P ws = Some (e, rest) \<Longrightarrow> length ws = Suc (length rest)"
  by (induction ws arbitrary: rest) (auto split: if_splits)

text \<open>\<open>limit\<close> is \<open>None\<close> for \<open>usize::MAX\<close>.\<close>

function wake_matching ::
  "nat option \<Rightarrow> (WaitEntry \<Rightarrow> bool) \<Rightarrow> nat \<Rightarrow> WaitEntry list \<Rightarrow> scheduler \<Rightarrow> WaitEntry list \<times> scheduler \<times> nat" where
  "wake_matching limit P woke ws s =
     (if (case limit of None \<Rightarrow> True | Some n \<Rightarrow> woke < n) then
        (case take_matching P ws of
           None \<Rightarrow> (ws, s, woke)
         | Some (e, rest) \<Rightarrow>
             (case wake_task_token_with (we_task e) (we_token e) Woken s of
                (s1, b) \<Rightarrow> wake_matching limit P (if b then woke + 1 else woke) rest s1))
      else (ws, s, woke))"
  by auto
termination
  by (relation "measure (\<lambda>(limit, P, woke, ws, s). length ws)") (auto dest: take_matching_length)

declare wake_matching.simps [simp del]

definition wake_n :: "nat \<Rightarrow> WaitEntry list \<Rightarrow> scheduler \<Rightarrow> WaitEntry list \<times> scheduler \<times> nat" where
  "wake_n n = wake_matching (Some n) (\<lambda>_. True) 0"

definition wake_all :: "WaitEntry list \<Rightarrow> scheduler \<Rightarrow> WaitEntry list \<times> scheduler \<times> nat" where
  "wake_all = wake_matching None (\<lambda>_. True) 0"

definition wake_key :: "WaitKey \<Rightarrow> WaitEntry list \<Rightarrow> scheduler \<Rightarrow> WaitEntry list \<times> scheduler \<times> nat" where
  "wake_key k = wake_matching None (\<lambda>e. we_key e = Some k) 0"

definition wake_key_n :: "WaitKey \<Rightarrow> nat \<Rightarrow> WaitEntry list \<Rightarrow> scheduler \<Rightarrow> WaitEntry list \<times> scheduler \<times> nat" where
  "wake_key_n k n = wake_matching (Some n) (\<lambda>e. we_key e = Some k) 0"

definition wake_unkeyed :: "WaitEntry list \<Rightarrow> scheduler \<Rightarrow> WaitEntry list \<times> scheduler \<times> nat" where
  "wake_unkeyed = wake_matching None (\<lambda>e. we_key e = None) 0"

definition wake_io_keyed_waiters :: "WaitKey \<Rightarrow> WaitEntry list \<Rightarrow> scheduler \<Rightarrow> WaitEntry list \<times> scheduler \<times> nat" where
  "wake_io_keyed_waiters k ws s =
     (case wake_key k ws s of (ws1, s1, n) \<Rightarrow> (case wake_unkeyed ws1 s1 of (ws2, s2, n') \<Rightarrow> (ws2, s2, n + n')))"

definition wake_io_keyed_waiter :: "WaitKey \<Rightarrow> WaitEntry list \<Rightarrow> scheduler \<Rightarrow> WaitEntry list \<times> scheduler \<times> nat" where
  "wake_io_keyed_waiter k ws s =
     (case wake_key_n k 1 ws s of (ws1, s1, n) \<Rightarrow> (case wake_unkeyed ws1 s1 of (ws2, s2, n') \<Rightarrow> (ws2, s2, n + n')))"

fun wake_timed_out :: "TimerWaiter list \<Rightarrow> scheduler \<Rightarrow> scheduler" where
  "wake_timed_out [] s = s"
| "wake_timed_out (w # ws) s = wake_timed_out ws (fst (wake_task_token_with (tw_task w) (tw_token w) TimedOut s))"

definition wake_expired_timers :: "usize \<Rightarrow> TimerWaiter list \<Rightarrow> scheduler \<Rightarrow> TimerWaiter list \<times> scheduler" where
  "wake_expired_timers now ts s =
     (filter (\<lambda>w. \<not> deadline_us w \<le> now) ts, wake_timed_out (filter (\<lambda>w. deadline_us w \<le> now) ts) s)"

end
