(* ===== verification/Wakeup.thy ===== *)
theory Wakeup
  imports Wait_Queue
begin

text \<open>
  Blocking and waking on several CPUs: \<open>sleep_until_keys_if_with_reason\<close> (\<open>os/src/task/wait_queue.rs\<close>), \<open>block_current_for_reason_until\<close>,
  \<open>block_current_and_run_next\<close>, \<open>requeue_after_user_run\<close>, \<open>wake_task_token_with\<close> (\<open>os/src/task/mod.rs\<close>) and \<open>wake_io_keyed_waiters\<close>,
  cut at every access to a field that another CPU reads or writes. A task has a program counter inside the sleep; wakers,
  interrupted hand-overs and CPUs about to start a task are agents that may stop for any time between two accesses. The ghost field \<open>event\<close> is the condition
  the sleeper tests: it is raised before the wake-up is sent, as the callers do. User tasks that are neither stopped nor killed; a sleep whose
  deadline has passed already returns before its first access and is no action; a requeued task goes to the end of the queue, whose order does not matter here;
  the interrupt a waker sends to the owning CPU changes no field.
\<close>

section \<open>Threads\<close>

datatype pc =
  AtUser | AtClear | AtReset | AtAnnounce | AtRegister | AtCheck | AtSignal | AtTimeout
  | AtEnter | AtClaim | AtPublish | AtRecheck | AtUndo | AtRestore | AtLoop | AtDisown | AtUnqueue | AtResume
  | AtFinish | AtClean | AtOutcome | AtParked | AtOff

text \<open>
  The list of an agent that wakes is what it still has to scan, the entry in hand included.
\<close>

type_synonym targets = "WaitKey option list"

datatype agent =
  Scan targets
  | Have nat usize WaitOutcome targets
  | Publish nat usize WaitOutcome targets
  | PublishBlocked nat WaitOutcome
  | Owner nat targets
  | Enqueue nat targets
  | RqStatus nat nat
  | RqDisown nat nat
  | RqCheck nat nat
  | RqReady nat nat
  | RqForget nat nat
  | RqSetReady nat nat
  | RqPush nat nat
  | Start nat nat

record machine =
  sched :: scheduler
  waiters :: "WaitEntry list"
  timers :: "TimerWaiter list"
  pc :: "nat \<Rightarrow> pc"
  sleep_keys :: "nat \<Rightarrow> WaitKey list"
  agents :: "agent list"
  event :: "WaitKey option \<Rightarrow> bool"

definition task :: "machine \<Rightarrow> nat \<Rightarrow> TaskControlBlock" where
  "task m p = tcb (sched m) p"

definition put :: "nat \<Rightarrow> (TaskControlBlock \<Rightarrow> TaskControlBlock) \<Rightarrow> machine \<Rightarrow> machine" where
  "put p f m = m\<lparr>sched := set_task p f (sched m)\<rparr>"

definition goto :: "nat \<Rightarrow> pc \<Rightarrow> machine \<Rightarrow> machine" where
  "goto p c m = m\<lparr>pc := (pc m)(p := c)\<rparr>"

definition spawn :: "agent \<Rightarrow> machine \<Rightarrow> machine" where
  "spawn a m = m\<lparr>agents := agents m @ [a]\<rparr>"

definition targets_of :: "WaitKey list \<Rightarrow> targets" where
  "targets_of ks = (if ks = [] then [None] else map Some ks)"

section \<open>The sleeper\<close>

definition sleep_begin :: "nat \<Rightarrow> WaitKey list \<Rightarrow> machine \<Rightarrow> machine" where
  "sleep_begin p ks m =
     (if wait_outcome (task m p) \<noteq> None
      then put p (\<lambda>t. t\<lparr>wait_outcome := None, block_reason := None\<rparr>)
             (m\<lparr>waiters := fst (remove_waiters p (wait_token (task m p)) (waiters m)),
                timers := fst (remove_timeout p (wait_token (task m p)) (timers m))\<rparr>)
      else goto p AtClear (m\<lparr>sleep_keys := (sleep_keys m)(p := ks)\<rparr>))"

definition sleep_clear :: "nat \<Rightarrow> machine \<Rightarrow> machine" where
  "sleep_clear p m =
     goto p AtReset (put p next_wait_token
       (m\<lparr>waiters := fst (remove_task_waiters p (waiters m)), timers := fst (remove_task_timeouts p (timers m))\<rparr>))"

definition sleep_reset :: "nat \<Rightarrow> machine \<Rightarrow> machine" where
  "sleep_reset p m = goto p AtAnnounce (put p (\<lambda>t. t\<lparr>wait_outcome := None\<rparr>) m)"

definition sleep_announce :: "nat \<Rightarrow> machine \<Rightarrow> machine" where
  "sleep_announce p m = goto p AtRegister (put p (\<lambda>t. t\<lparr>block_reason := Some IoWait\<rparr>) m)"

definition sleep_register :: "nat \<Rightarrow> machine \<Rightarrow> machine" where
  "sleep_register p m =
     goto p AtCheck (m\<lparr>waiters := register_waiters p (wait_token (task m p)) (sleep_keys m p) (waiters m)\<rparr>)"

definition sleep_cancel :: "nat \<Rightarrow> machine \<Rightarrow> machine" where
  "sleep_cancel p m =
     goto p AtUser (put p (\<lambda>t. t\<lparr>block_reason := None\<rparr>)
       (m\<lparr>waiters := fst (remove_waiters p (wait_token (task m p)) (waiters m))\<rparr>))"

text \<open>\<open>should_sleep\<close> fails, or answers that no event of the keys has happened.\<close>

definition sleep_check :: "bool \<Rightarrow> nat \<Rightarrow> machine \<Rightarrow> machine" where
  "sleep_check fails p m =
     (if fails \<or> (\<exists>t \<in> set (targets_of (sleep_keys m p)). event m t) then sleep_cancel p m else goto p AtSignal m)"

definition sleep_signal :: "bool \<Rightarrow> nat \<Rightarrow> machine \<Rightarrow> machine" where
  "sleep_signal pending p m = (if pending then sleep_cancel p m else goto p AtTimeout m)"

definition sleep_timeout :: "usize option \<Rightarrow> nat \<Rightarrow> machine \<Rightarrow> machine" where
  "sleep_timeout deadline p m =
     goto p AtEnter
       (case deadline of None \<Rightarrow> m | Some d \<Rightarrow> m\<lparr>timers := add_timeout d p (wait_token (task m p)) (timers m)\<rparr>)"

definition block_enter :: "nat \<Rightarrow> machine \<Rightarrow> machine" where
  "block_enter p m =
     (if wait_outcome (task m p) \<noteq> None then goto p AtFinish m
      else goto p AtClaim (put p (\<lambda>t. t\<lparr>block_reason := Some IoWait\<rparr>) m))"

definition block_claim :: "nat \<Rightarrow> machine \<Rightarrow> machine" where
  "block_claim p m = goto p AtPublish (put p (\<lambda>t. t\<lparr>blocking_cpu := running_cpu t\<rparr>) m)"

definition block_publish :: "nat \<Rightarrow> machine \<Rightarrow> machine" where
  "block_publish p m =
     (if snd (set_status_if Running Blocked (task m p)) then goto p AtRecheck (put p (\<lambda>t. fst (set_status_if Running Blocked t)) m)
      else goto p AtFinish (put p (\<lambda>t. t\<lparr>blocking_cpu := None\<rparr>) m))"

definition block_recheck :: "bool \<Rightarrow> nat \<Rightarrow> machine \<Rightarrow> machine" where
  "block_recheck parks p m =
     (if wait_outcome (task m p) \<noteq> None then goto p AtUndo m else goto p (if parks then AtParked else AtLoop) m)"

definition block_restore :: "nat \<Rightarrow> machine \<Rightarrow> machine" where
  "block_restore p m =
     goto p AtFinish (put p (\<lambda>t. case set_status_if Blocked Running t of (t', True) \<Rightarrow> t' | (_, False) \<Rightarrow> fst (set_status_if Ready Running t)) m)"

definition block_disown :: "pc \<Rightarrow> nat \<Rightarrow> machine \<Rightarrow> machine" where
  "block_disown c p m = goto p c (put p (\<lambda>t. t\<lparr>blocking_cpu := None\<rparr>) m)"

definition block_unqueue :: "nat \<Rightarrow> machine \<Rightarrow> machine" where
  "block_unqueue p m = goto p AtResume (m\<lparr>sched := fst (remove_task_instances p (sched m))\<rparr>)"

definition block_resume :: "nat \<Rightarrow> machine \<Rightarrow> machine" where
  "block_resume p m =
     goto p AtFinish
       (if snd (set_status_if Ready Running (task m p))
        then put p (\<lambda>t. (fst (set_status_if Ready Running t))\<lparr>block_reason := None\<rparr>) m else m)"

definition sleep_finish :: "nat \<Rightarrow> machine \<Rightarrow> machine" where
  "sleep_finish p m = goto p AtClean (put p (\<lambda>t. t\<lparr>block_reason := None\<rparr>) m)"

definition sleep_clean :: "nat \<Rightarrow> machine \<Rightarrow> machine" where
  "sleep_clean p m =
     goto p AtOutcome (m\<lparr>waiters := fst (remove_waiters p (wait_token (task m p)) (waiters m)),
                         timers := fst (remove_timeout p (wait_token (task m p)) (timers m))\<rparr>)"

definition sleep_outcome :: "nat \<Rightarrow> machine \<Rightarrow> machine" where
  "sleep_outcome p m = goto p AtUser (put p (\<lambda>t. t\<lparr>wait_outcome := None\<rparr>) m)"

text \<open>Leaving the CPU: the scheduler releases the claim and goes on to requeue the task.\<close>

definition leave_cpu :: "nat \<Rightarrow> machine \<Rightarrow> machine" where
  "leave_cpu p m =
     (case running_cpu (task m p) of
        None \<Rightarrow> m
      | Some cpu \<Rightarrow> spawn (RqStatus p cpu) (goto p AtOff (put p (release_running_cpu cpu) m)))"

text \<open>What the environment decides at a step.\<close>

record inputs =
  in_fails :: bool
  in_pending :: bool
  in_deadline :: "usize option"
  in_parks :: bool

definition sleeper_step :: "inputs \<Rightarrow> nat \<Rightarrow> machine \<Rightarrow> machine" where
  "sleeper_step i p m =
     (case pc m p of
        AtUser \<Rightarrow> leave_cpu p m
      | AtClear \<Rightarrow> sleep_clear p m
      | AtReset \<Rightarrow> sleep_reset p m
      | AtAnnounce \<Rightarrow> sleep_announce p m
      | AtRegister \<Rightarrow> sleep_register p m
      | AtCheck \<Rightarrow> sleep_check (in_fails i) p m
      | AtSignal \<Rightarrow> sleep_signal (in_pending i) p m
      | AtTimeout \<Rightarrow> sleep_timeout (in_deadline i) p m
      | AtEnter \<Rightarrow> block_enter p m
      | AtClaim \<Rightarrow> block_claim p m
      | AtPublish \<Rightarrow> block_publish p m
      | AtRecheck \<Rightarrow> block_recheck (in_parks i) p m
      | AtUndo \<Rightarrow> block_disown AtRestore p m
      | AtRestore \<Rightarrow> block_restore p m
      | AtLoop \<Rightarrow> if status (task m p) = Blocked then m else goto p AtDisown m
      | AtDisown \<Rightarrow> block_disown AtUnqueue p m
      | AtUnqueue \<Rightarrow> block_unqueue p m
      | AtResume \<Rightarrow> block_resume p m
      | AtFinish \<Rightarrow> sleep_finish p m
      | AtClean \<Rightarrow> sleep_clean p m
      | AtOutcome \<Rightarrow> sleep_outcome p m
      | AtParked \<Rightarrow> leave_cpu p m
      | AtOff \<Rightarrow> m)"

section \<open>Agents\<close>

text \<open>An agent makes one access; the result is the machine and what is left of the agent.\<close>

fun agent_step :: "agent \<Rightarrow> machine \<Rightarrow> machine \<times> agent list" where
  "agent_step (Scan []) m = (m, [])"
| "agent_step (Scan (t # ts)) m =
     (case take_matching (\<lambda>e. we_key e = t) (waiters m) of
        None \<Rightarrow> (m, [Scan ts])
      | Some (e, rest) \<Rightarrow> (m\<lparr>waiters := rest\<rparr>, [Have (we_task e) (we_token e) Woken (t # ts)]))"
| "agent_step (Have p token outcome ts) m =
     (m, [if wait_token (task m p) = token then Publish p token outcome ts else Scan ts])"
| "agent_step (Publish p token outcome ts) m =
     (case publish_wake True outcome (task m p) of
        (t, Published) \<Rightarrow> (put p (\<lambda>_. t) m, [Owner p ts])
      | (t, _) \<Rightarrow> (put p (\<lambda>_. t) m, [Scan ts]))"
| "agent_step (PublishBlocked p outcome) m =
     (case publish_wake False outcome (task m p) of
        (t, Published) \<Rightarrow> (put p (\<lambda>_. t) m, [Owner p []])
      | (t, _) \<Rightarrow> (m, []))"
| "agent_step (Owner p ts) m = (m, [if blocking_cpu (task m p) = None then Enqueue p ts else Scan ts])"
| "agent_step (Enqueue p ts) m = (m\<lparr>sched := add_task p (sched m)\<rparr>, [Scan ts])"
| "agent_step (RqStatus p cpu) m =
     (case status (task m p) of
        Zombie \<Rightarrow> (put p (\<lambda>t. t\<lparr>blocking_cpu := None\<rparr>) m, [])
      | Stopped \<Rightarrow> (put p (\<lambda>t. t\<lparr>blocking_cpu := None\<rparr>) m, [])
      | Blocked \<Rightarrow> (m, [RqDisown p cpu])
      | _ \<Rightarrow> (m, [RqReady p cpu]))"
| "agent_step (RqDisown p cpu) m = (put p (\<lambda>t. t\<lparr>blocking_cpu := None\<rparr>) m, [RqCheck p cpu])"
| "agent_step (RqCheck p cpu) m = (m, if status (task m p) = Ready then [RqPush p cpu] else [])"
| "agent_step (RqReady p cpu) m = (put p (\<lambda>t. t\<lparr>blocking_cpu := None\<rparr>) m, [RqForget p cpu])"
| "agent_step (RqForget p cpu) m = (put p (\<lambda>t. t\<lparr>block_reason := None\<rparr>) m, [RqSetReady p cpu])"
| "agent_step (RqSetReady p cpu) m =
     (if status (task m p) = Running \<or> status (task m p) = Ready
      then (put p (\<lambda>t. t\<lparr>status := Ready\<rparr>) m, [RqPush p cpu]) else (m, []))"
| "agent_step (RqPush p cpu) m = (m\<lparr>sched := add_task_local cpu p (sched m)\<rparr>, [])"
| "agent_step (Start p cpu) m =
     (if snd (try_start_running cpu (task m p))
      then (goto p AtUser (put p (\<lambda>t. fst (try_start_running cpu t)) m), []) else (m, []))"

fun requeues :: "agent \<Rightarrow> nat option" where
  "requeues (RqStatus p _) = Some p"
| "requeues (RqDisown p _) = Some p"
| "requeues (RqCheck p _) = Some p"
| "requeues (RqReady p _) = Some p"
| "requeues (RqForget p _) = Some p"
| "requeues (RqSetReady p _) = Some p"
| "requeues (RqPush p _) = Some p"
| "requeues _ = None"

section \<open>The machine\<close>

datatype action =
  Sleep nat "WaitKey list"
  | Advance nat inputs
  | AgentStep nat
  | Signal WaitKey
  | Consume "WaitKey option"
  | Expire nat
  | Interrupt nat WaitOutcome
  | Fetch nat nat
  | Purge nat

definition start_allowed :: "bool \<Rightarrow> machine \<Rightarrow> agent \<Rightarrow> bool" where
  "start_allowed prompt m a = (case a of Start p _ \<Rightarrow> prompt \<longrightarrow> Some p \<notin> requeues ` set (agents m) | _ \<Rightarrow> True)"

text \<open>
  The first argument restricts the machine to runs in which no CPU starts a task before the CPU that ran it last has finished requeueing it.
  A ready task that a CPU fetched is held by the agent \<open>Start\<close>; a scan of the queue drops what it finds not ready.
\<close>

fun exec :: "bool \<Rightarrow> action \<Rightarrow> machine \<Rightarrow> machine" where
  "exec prompt (Sleep p ks) m = (if pc m p = AtUser then sleep_begin p ks m else m)"
| "exec prompt (Advance p i) m = sleeper_step i p m"
| "exec prompt (AgentStep n) m =
     (if n < length (agents m) \<and> start_allowed prompt m (agents m ! n)
      then (case agent_step (agents m ! n) m of
              (m', next) \<Rightarrow> m'\<lparr>agents := take n (agents m) @ next @ drop (Suc n) (agents m)\<rparr>)
      else m)"
| "exec prompt (Signal k) m = spawn (Scan [Some k, None]) (m\<lparr>event := (event m)(Some k := True, None := True)\<rparr>)"
| "exec prompt (Consume t) m = m\<lparr>event := (event m)(t := False)\<rparr>"
| "exec prompt (Expire n) m =
     (if n < length (timers m)
      then spawn (Have (tw_task (timers m ! n)) (tw_token (timers m ! n)) TimedOut [])
             (m\<lparr>timers := take n (timers m) @ drop (Suc n) (timers m)\<rparr>)
      else m)"
| "exec prompt (Interrupt p outcome) m = spawn (PublishBlocked p outcome) m"
| "exec prompt (Fetch p cpu) m =
     (if p \<in> set (rq_tasks (user_queue (sched m))) \<and> status (task m p) = Ready
      then spawn (Start p cpu) (m\<lparr>sched := fst (remove_task_from_queue False p (sched m))\<rparr>) else m)"
| "exec prompt (Purge p) m =
     (if status (task m p) \<noteq> Ready then m\<lparr>sched := fst (remove_task_from_queue False p (sched m))\<rparr> else m)"

section \<open>The invariant of one task\<close>

text \<open>What an agent has in its hands: an entry of a task, the targets still to scan, or a ready task on its way to a queue or a CPU.\<close>

fun carries :: "agent \<Rightarrow> (nat \<times> usize) option" where
  "carries (Have p token _ _) = Some (p, token)"
| "carries (Publish p token _ _) = Some (p, token)"
| "carries _ = None"

fun scans :: "agent \<Rightarrow> targets" where
  "scans (Scan ts) = ts"
| "scans (Have _ _ _ ts) = ts"
| "scans (Publish _ _ _ ts) = ts"
| "scans (Owner _ ts) = ts"
| "scans (Enqueue _ ts) = ts"
| "scans _ = []"

fun brings :: "agent \<Rightarrow> nat option" where
  "brings (Owner p _) = Some p"
| "brings (Enqueue p _) = Some p"
| "brings (Start p _) = Some p"
| "brings a = requeues a"

text \<open>A requeueing agent that has not given up ownership yet, one that has seen the task running, and the states it can find the task in.\<close>

fun owns :: "agent \<Rightarrow> bool" where
  "owns (RqStatus _ _) = True"
| "owns (RqDisown _ _) = True"
| "owns (RqReady _ _) = True"
| "owns _ = False"

fun seen_running :: "agent \<Rightarrow> bool" where
  "seen_running (RqStatus _ _) = True"
| "seen_running (RqReady _ _) = True"
| "seen_running (RqForget _ _) = True"
| "seen_running (RqSetReady _ _) = True"
| "seen_running _ = False"

fun finds :: "agent \<Rightarrow> TaskStatus set" where
  "finds (RqStatus _ _) = {Running, Blocked, Ready}"
| "finds (RqDisown _ _) = {Blocked, Ready}"
| "finds (RqCheck _ _) = {Blocked, Ready}"
| "finds (RqReady _ _) = {Running, Ready}"
| "finds (RqForget _ _) = {Running, Ready}"
| "finds (RqSetReady _ _) = {Running, Ready}"
| "finds (RqPush _ _) = {Ready}"
| "finds _ = UNIV"

definition falling_asleep :: "pc \<Rightarrow> bool" where
  "falling_asleep c \<longleftrightarrow> c \<in> {AtCheck, AtSignal, AtTimeout, AtEnter, AtClaim, AtPublish}"

definition blocking :: "pc \<Rightarrow> bool" where
  "blocking c \<longleftrightarrow> c \<in> {AtRecheck, AtLoop, AtParked}"

definition waking_up :: "pc \<Rightarrow> bool" where
  "waking_up c \<longleftrightarrow> c \<in> {AtDisown, AtUnqueue, AtResume}"

definition taking_back :: "pc \<Rightarrow> bool" where
  "taking_back c \<longleftrightarrow> c \<in> {AtUndo, AtRestore}"

definition pc_ok :: "TaskControlBlock \<Rightarrow> pc \<Rightarrow> bool" where
  "pc_ok t c \<longleftrightarrow>
     (running_cpu t = None \<longleftrightarrow> c = AtOff)
     \<and> (if c = AtOff then True else if blocking c \<or> taking_back c then status t \<in> {Blocked, Ready} else if waking_up c then status t = Ready else status t = Running)
     \<and> (falling_asleep c \<or> c = AtRegister \<longrightarrow> block_reason t \<noteq> None)
     \<and> (c \<in> {AtLoop, AtParked, AtOff} \<and> status t = Blocked \<longrightarrow> wait_outcome t = None)"

definition owner_ok :: "nat \<Rightarrow> TaskControlBlock \<Rightarrow> pc \<Rightarrow> agent set \<Rightarrow> bool" where
  "owner_ok p t c A \<longleftrightarrow>
     (blocking_cpu t \<noteq> None \<longrightarrow> c \<in> {AtPublish, AtRecheck, AtLoop, AtParked, AtUndo, AtDisown} \<or> (\<exists>a \<in> A. requeues a = Some p \<and> owns a))
     \<and> (\<forall>a \<in> A. requeues a = Some p \<longrightarrow> c = AtOff \<and> status t \<in> finds a)
     \<and> (c = AtOff \<and> status t = Running \<longrightarrow> (\<exists>a \<in> A. requeues a = Some p \<and> seen_running a))"

definition not_stranded :: "nat \<Rightarrow> TaskControlBlock \<Rightarrow> pc \<Rightarrow> bool \<Rightarrow> agent set \<Rightarrow> bool" where
  "not_stranded p t c queued A \<longleftrightarrow> (c = AtOff \<and> status t = Ready \<longrightarrow> queued \<or> (\<exists>a \<in> A. brings a = Some p))"

definition asleep :: "TaskControlBlock \<Rightarrow> pc \<Rightarrow> bool" where
  "asleep t c \<longleftrightarrow> (falling_asleep c \<or> (blocking c \<or> c = AtOff) \<and> status t = Blocked) \<and> wait_outcome t = None"

definition reachable_by_wakers :: "nat \<Rightarrow> TaskControlBlock \<Rightarrow> pc \<Rightarrow> targets \<Rightarrow> WaitEntry set \<Rightarrow> agent set \<Rightarrow> (WaitKey option \<Rightarrow> bool) \<Rightarrow> bool" where
  "reachable_by_wakers p t c ts E A ev \<longleftrightarrow>
     (asleep t c \<longrightarrow>
        (\<exists>a \<in> A. carries a = Some (p, wait_token t))
        \<or> (\<forall>k \<in> set ts. \<lparr>we_task = p, we_token = wait_token t, we_key = k\<rparr> \<in> E \<and> (c \<noteq> AtCheck \<longrightarrow> ev k \<longrightarrow> (\<exists>a \<in> A. k \<in> set (scans a)))))"

definition queued :: "scheduler \<Rightarrow> nat \<Rightarrow> bool" where
  "queued s p \<longleftrightarrow> p \<in> set (rq_tasks (user_queue s))"

definition task_inv :: "machine \<Rightarrow> agent set \<Rightarrow> nat \<Rightarrow> bool" where
  "task_inv m A p \<longleftrightarrow>
     pc_ok (task m p) (pc m p) \<and> owner_ok p (task m p) (pc m p) A \<and> not_stranded p (task m p) (pc m p) (queued (sched m) p) A
     \<and> reachable_by_wakers p (task m p) (pc m p) (targets_of (sleep_keys m p)) (set (waiters m)) A (event m)"

definition queue_inv :: "machine \<Rightarrow> bool" where
  "queue_inv m \<longleftrightarrow> rq_ok (user_queue (sched m)) \<and> (\<forall>p. \<not> is_kernel (task m p))"

definition machine_inv :: "machine \<Rightarrow> bool" where
  "machine_inv m \<longleftrightarrow> queue_inv m \<and> (\<forall>p. task_inv m (set (agents m)) p)"

lemmas pc_sets = falling_asleep_def blocking_def waking_up_def taking_back_def

section \<open>Projections\<close>

lemma task_simps [simp]:
  "task (put p f m) q = (if q = p then f (task m p) else task m q)" "task (goto p c m) q = task m q" "task (spawn a m) q = task m q"
  "task (m\<lparr>waiters := w\<rparr>) q = task m q" "task (m\<lparr>timers := ts\<rparr>) q = task m q" "task (m\<lparr>sleep_keys := ks\<rparr>) q = task m q"
  "task (m\<lparr>agents := as\<rparr>) q = task m q" "task (m\<lparr>event := ev\<rparr>) q = task m q" "task (m\<lparr>pc := pcs\<rparr>) q = task m q"
  by (simp_all add: task_def put_def goto_def spawn_def set_task_def)

lemma machine_simps [simp]:
  "pc (put p f m) = pc m" "sleep_keys (put p f m) = sleep_keys m" "waiters (put p f m) = waiters m" "timers (put p f m) = timers m"
  "event (put p f m) = event m" "agents (put p f m) = agents m"
  "pc (goto p c m) = (pc m)(p := c)" "sleep_keys (goto p c m) = sleep_keys m" "waiters (goto p c m) = waiters m" "timers (goto p c m) = timers m"
  "event (goto p c m) = event m" "agents (goto p c m) = agents m" "sched (goto p c m) = sched m"
  "pc (spawn a m) = pc m" "sleep_keys (spawn a m) = sleep_keys m" "waiters (spawn a m) = waiters m" "timers (spawn a m) = timers m"
  "event (spawn a m) = event m" "agents (spawn a m) = agents m @ [a]" "sched (spawn a m) = sched m"
  by (simp_all add: put_def goto_def spawn_def)

lemma queued_simps [simp]: "queued (sched (put p f m)) q = queued (sched m) q"
  by (simp add: queued_def put_def set_task_def)

lemma user_queue_put [simp]: "user_queue (sched (put p f m)) = user_queue (sched m)"
  by (simp add: put_def set_task_def)

section \<open>Frames\<close>

text \<open>The invariant of a task only depends on its own fields, its own entries and the agents that have to do with it.\<close>

lemma task_inv_frame:
  assumes inv: "task_inv m A p"
    and same: "task m' p = task m p" "pc m' p = pc m p" "sleep_keys m' p = sleep_keys m p" "queued (sched m) p \<longrightarrow> queued (sched m') p"
    and entries: "\<And>e. we_task e = p \<Longrightarrow> we_token e = wait_token (task m p) \<Longrightarrow> e \<in> set (waiters m) \<Longrightarrow> e \<in> set (waiters m')"
    and keep: "\<And>a. a \<in> A \<Longrightarrow> requeues a = Some p \<or> brings a = Some p \<or> carries a = Some (p, wait_token (task m p)) \<Longrightarrow> a \<in> A'"
    and fresh: "\<And>a. a \<in> A' \<Longrightarrow> requeues a = Some p \<Longrightarrow> a \<in> A"
    and ev: "\<And>k. event m' k \<Longrightarrow> event m k \<or> (\<exists>a \<in> A'. k \<in> set (scans a))"
    and scanned: "\<And>k e a. e \<in> set (waiters m) \<Longrightarrow> we_task e = p \<Longrightarrow> we_key e = k \<Longrightarrow> a \<in> A \<Longrightarrow> k \<in> set (scans a) \<Longrightarrow> \<exists>a \<in> A'. k \<in> set (scans a)"
  shows "task_inv m' A' p"
proof -
  have "owner_ok p (task m p) (pc m p) A'" using inv keep fresh unfolding task_inv_def owner_ok_def by blast
  moreover have "not_stranded p (task m p) (pc m p) (queued (sched m') p) A'" using inv keep same(4) unfolding task_inv_def not_stranded_def by blast
  moreover have "reachable_by_wakers p (task m p) (pc m p) (targets_of (sleep_keys m p)) (set (waiters m')) A' (event m')"
  proof (cases "asleep (task m p) (pc m p)")
    case True
    let ?e = "\<lambda>k. \<lparr>we_task = p, we_token = wait_token (task m p), we_key = k\<rparr>"
    consider (held) a where "a \<in> A" "carries a = Some (p, wait_token (task m p))"
      | (listed) "\<forall>k \<in> set (targets_of (sleep_keys m p)). ?e k \<in> set (waiters m) \<and> (pc m p \<noteq> AtCheck \<longrightarrow> event m k \<longrightarrow> (\<exists>a \<in> A. k \<in> set (scans a)))"
      using inv True unfolding task_inv_def reachable_by_wakers_def by blast
    then show ?thesis
    proof cases
      case held
      then show ?thesis using keep unfolding reachable_by_wakers_def by blast
    next
      case listed
      have "?e k \<in> set (waiters m') \<and> (pc m p \<noteq> AtCheck \<longrightarrow> event m' k \<longrightarrow> (\<exists>a \<in> A'. k \<in> set (scans a)))"
        if k: "k \<in> set (targets_of (sleep_keys m p))" for k
      proof -
        have e: "?e k \<in> set (waiters m)" using listed k by blast
        then have "?e k \<in> set (waiters m')" using entries [of "?e k"] by simp
        moreover have "\<exists>a \<in> A'. k \<in> set (scans a)" if "pc m p \<noteq> AtCheck" "event m' k"
          using ev [OF that(2)] listed k that(1) scanned [OF e] by auto
        ultimately show ?thesis by blast
      qed
      then show ?thesis unfolding reachable_by_wakers_def by blast
    qed
  qed (simp add: reachable_by_wakers_def)
  ultimately show ?thesis using inv same unfolding task_inv_def by simp
qed

section \<open>The sleeper keeps the invariant\<close>

lemmas sleeper_defs = sleep_begin_def sleep_clear_def sleep_reset_def sleep_announce_def sleep_register_def sleep_cancel_def sleep_check_def sleep_signal_def
  sleep_timeout_def block_enter_def block_claim_def block_publish_def block_recheck_def block_restore_def block_disown_def block_unqueue_def block_resume_def
  sleep_finish_def sleep_clean_def sleep_outcome_def leave_cpu_def

lemma instances_other: "q \<noteq> p \<Longrightarrow> queued (fst (remove_task_instances p s)) q = queued s q"
  by (simp add: queued_def remove_task_instances_def rq_remove_instances_def)

lemma instances_tcb [simp]: "tcb (fst (remove_task_instances p s)) = tcb s"
  by (simp add: remove_task_instances_def rq_remove_instances_def)

lemma remove_waiters_other: "we_task e \<noteq> p \<Longrightarrow> e \<in> set ws \<Longrightarrow> e \<in> set (fst (remove_waiters p token ws))"
  by (simp add: remove_waiters_def)

lemma remove_task_waiters_other: "we_task e \<noteq> p \<Longrightarrow> e \<in> set ws \<Longrightarrow> e \<in> set (fst (remove_task_waiters p ws))"
  by (simp add: remove_task_waiters_def)

lemma register_keeps: "e \<in> set ws \<Longrightarrow> e \<in> set (register_waiters p token ks ws)"
  by (simp add: register_waiters_def)

lemma register_listed: "k \<in> set (targets_of ks) \<Longrightarrow> \<lparr>we_task = p, we_token = token, we_key = k\<rparr> \<in> set (register_waiters p token ks ws)"
  by (auto simp: register_waiters_def targets_of_def)

lemmas waiters_other = remove_waiters_other remove_task_waiters_other register_keeps

lemma sleeper_other:
  assumes "q \<noteq> p"
  shows "task (sleeper_step i p m) q = task m q" and "pc (sleeper_step i p m) q = pc m q" and "sleep_keys (sleeper_step i p m) q = sleep_keys m q"
    and "queued (sched (sleeper_step i p m)) q = queued (sched m) q" and "event (sleeper_step i p m) = event m"
    and "we_task e = q \<Longrightarrow> e \<in> set (waiters m) \<Longrightarrow> e \<in> set (waiters (sleeper_step i p m))"
    and "\<exists>cpu. set (agents (sleeper_step i p m)) = set (agents m) \<or> set (agents (sleeper_step i p m)) = insert (RqStatus p cpu) (set (agents m))"
proof -
  show "task (sleeper_step i p m) q = task m q" using assms
    by (cases "pc m p") (simp_all add: sleeper_step_def sleeper_defs split: option.split, simp_all add: task_def)
  show "pc (sleeper_step i p m) q = pc m q" using assms
    by (cases "pc m p") (simp_all add: sleeper_step_def sleeper_defs split: option.split)
  show "sleep_keys (sleeper_step i p m) q = sleep_keys m q"
    by (cases "pc m p") (simp_all add: sleeper_step_def sleeper_defs split: option.split)
  show "queued (sched (sleeper_step i p m)) q = queued (sched m) q" using assms
    by (cases "pc m p") (simp_all add: sleeper_step_def sleeper_defs instances_other split: option.split)
  show "event (sleeper_step i p m) = event m"
    by (cases "pc m p") (simp_all add: sleeper_step_def sleeper_defs split: option.split)
  show "we_task e = q \<Longrightarrow> e \<in> set (waiters m) \<Longrightarrow> e \<in> set (waiters (sleeper_step i p m))" using assms
    by (cases "pc m p") (simp_all add: sleeper_step_def sleeper_defs waiters_other split: option.split)
  show "\<exists>cpu. set (agents (sleeper_step i p m)) = set (agents m) \<or> set (agents (sleeper_step i p m)) = insert (RqStatus p cpu) (set (agents m))"
    by (cases "pc m p") (auto simp: sleeper_step_def sleeper_defs split: option.split)
qed

lemma sleeper_frame:
  assumes "q \<noteq> p" and inv: "task_inv m (set (agents m)) q"
  shows "task_inv (sleeper_step i p m) (set (agents (sleeper_step i p m))) q"
proof -
  obtain cpu where A: "set (agents (sleeper_step i p m)) = set (agents m) \<or> set (agents (sleeper_step i p m)) = insert (RqStatus p cpu) (set (agents m))"
    using sleeper_other(7) [OF assms(1)] by blast
  show ?thesis by (rule task_inv_frame [OF inv]) (use sleeper_other [OF assms(1), where i = i and m = m] A assms(1) in \<open>auto split: if_splits\<close>)
qed

lemmas inv_defs = task_inv_def pc_ok_def owner_ok_def not_stranded_def reachable_by_wakers_def asleep_def pc_sets

lemma sleeper_subject:
  assumes inv: "task_inv m (set (agents m)) p"
  shows "task_inv (sleeper_step i p m) (set (agents (sleeper_step i p m))) p"
proof (cases "pc m p")
  case AtUser
  then show ?thesis using inv by (auto simp: inv_defs sleeper_step_def leave_cpu_def release_running_cpu_def split: option.splits)
next
  case AtClear
  then show ?thesis using inv by (auto simp: inv_defs sleeper_step_def sleep_clear_def next_wait_token_def)
next
  case AtReset
  then show ?thesis using inv by (auto simp: inv_defs sleeper_step_def sleep_reset_def)
next
  case AtAnnounce
  then show ?thesis using inv by (auto simp: inv_defs sleeper_step_def sleep_announce_def)
next
  case AtRegister
  then show ?thesis using inv by (auto simp: inv_defs sleeper_step_def sleep_register_def register_listed)
next
  case AtCheck
  then show ?thesis using inv by (auto simp: inv_defs sleeper_step_def sleep_check_def sleep_cancel_def)
next
  case AtSignal
  then show ?thesis using inv by (auto simp: inv_defs sleeper_step_def sleep_signal_def sleep_cancel_def)
next
  case AtTimeout
  then show ?thesis using inv by (auto simp: inv_defs sleeper_step_def sleep_timeout_def split: option.splits)
next
  case AtEnter
  then show ?thesis using inv by (auto simp: inv_defs sleeper_step_def block_enter_def)
next
  case AtClaim
  then show ?thesis using inv by (auto simp: inv_defs sleeper_step_def block_claim_def)
next
  case AtPublish
  then show ?thesis using inv by (auto simp: inv_defs sleeper_step_def block_publish_def set_status_if_def)
next
  case AtRecheck
  then show ?thesis using inv by (auto simp: inv_defs sleeper_step_def block_recheck_def)
next
  case AtUndo
  then show ?thesis using inv by (auto simp: inv_defs sleeper_step_def block_disown_def)
next
  case AtRestore
  then show ?thesis using inv by (auto simp: inv_defs sleeper_step_def block_restore_def set_status_if_def)
next
  case AtLoop
  then show ?thesis using inv by (auto simp: inv_defs sleeper_step_def)
next
  case AtDisown
  then show ?thesis using inv by (auto simp: inv_defs sleeper_step_def block_disown_def)
next
  case AtUnqueue
  then show ?thesis using inv by (auto simp: inv_defs sleeper_step_def block_unqueue_def task_def)
next
  case AtResume
  then show ?thesis using inv by (auto simp: inv_defs sleeper_step_def block_resume_def set_status_if_def)
next
  case AtFinish
  then show ?thesis using inv by (auto simp: inv_defs sleeper_step_def sleep_finish_def)
next
  case AtClean
  then show ?thesis using inv by (auto simp: inv_defs sleeper_step_def sleep_clean_def)
next
  case AtOutcome
  then show ?thesis using inv by (auto simp: inv_defs sleeper_step_def sleep_outcome_def)
next
  case AtParked
  then show ?thesis using inv by (auto simp: inv_defs sleeper_step_def leave_cpu_def release_running_cpu_def split: option.splits)
next
  case AtOff
  then show ?thesis using inv by (simp add: sleeper_step_def)
qed

section \<open>Agents keep the invariant\<close>

lemma take_matching_Some:
  assumes "take_matching P ws = Some (e, rest)"
  shows "P e" and "set ws = insert e (set rest)"
  using assms by (induction ws arbitrary: rest) (auto split: if_splits)

lemma take_matching_None: "take_matching P ws = None \<longleftrightarrow> (\<forall>e \<in> set ws. \<not> P e)"
  by (induction ws) auto

lemma push_back_queued:
  assumes "rq_ok (user_queue s)" and "\<not> is_kernel (tcb s p)"
  shows "queued (push_task_back (is_kernel (tcb s p)) p notify s) q \<longleftrightarrow> queued s q \<or> q = p \<and> status (tcb s p) = Ready"
    and "tcb (push_task_back (is_kernel (tcb s p)) p notify s) = tcb s"
    and "rq_ok (user_queue (push_task_back (is_kernel (tcb s p)) p notify s))"
  using assms rq_ok_push_back [OF assms(1), of p]
  by (auto simp: queued_def push_task_back_def push_task_def queue_of_def set_queue_def rq_push_back_def rq_ok_def Let_def)

lemmas add_task_queued = push_back_queued [folded add_task_def add_task_local_def]

lemma add_task_facts:
  assumes "rq_ok (user_queue s)" and "\<not> is_kernel (tcb s p)"
  shows "queued (add_task p s) q \<longleftrightarrow> queued s q \<or> q = p \<and> status (tcb s p) = Ready" and "tcb (add_task p s) = tcb s" and "rq_ok (user_queue (add_task p s))"
    and "queued (add_task_local cpu p s) q \<longleftrightarrow> queued s q \<or> q = p \<and> status (tcb s p) = Ready" and "tcb (add_task_local cpu p s) = tcb s"
    and "rq_ok (user_queue (add_task_local cpu p s))"
  using push_back_queued [OF assms] by (simp_all add: add_task_def add_task_local_def)

text \<open>One agent in place of another.\<close>

lemma owner_swap:
  "owner_ok p t c (insert a B) \<Longrightarrow> requeues a \<noteq> Some p \<Longrightarrow> requeues b \<noteq> Some p \<Longrightarrow> owner_ok p t c (insert b B)"
  unfolding owner_ok_def by blast

lemma owner_drop: "owner_ok p t c (insert a B) \<Longrightarrow> requeues a \<noteq> Some p \<Longrightarrow> owner_ok p t c B"
  unfolding owner_ok_def by blast

lemma stranded_swap:
  "not_stranded p t c qd (insert a B) \<Longrightarrow> (brings a = Some p \<Longrightarrow> brings b = Some p) \<Longrightarrow> not_stranded p t c qd (insert b B)"
  unfolding not_stranded_def by blast

lemma reach_held: "carries b = Some (p, wait_token t) \<Longrightarrow> reachable_by_wakers p t c ts E (insert b B) ev"
  unfolding reachable_by_wakers_def by blast

lemma scan_inv:
  assumes inv: "task_inv m (insert (Scan (t # ts)) B) q"
    and e: "take_matching (\<lambda>e. we_key e = t) (waiters m) = Some (e, rest)"
  shows "task_inv (m\<lparr>waiters := rest\<rparr>) (insert (Have (we_task e) (we_token e) Woken (t # ts)) B) q"
proof (cases "we_task e = q \<and> we_token e = wait_token (task m q)")
  case True
  then show ?thesis using inv owner_swap [of q _ _ "Scan (t # ts)" B] stranded_swap [of q _ _ _ "Scan (t # ts)" B]
    unfolding task_inv_def by (simp add: reach_held)
next
  case False
  show ?thesis
    by (rule task_inv_frame [OF inv]) (use False take_matching_Some [OF e] in \<open>auto simp: task_def\<close>)
qed

lemma scan_end_inv:
  assumes inv: "task_inv m (insert (Scan (t # ts)) B) q" and "take_matching (\<lambda>e. we_key e = t) (waiters m) = None"
  shows "task_inv m (insert (Scan ts) B) q"
  by (rule task_inv_frame [OF inv]) (use assms(2) in \<open>auto simp: take_matching_None\<close>)

lemma token_inv:
  assumes inv: "task_inv m (insert (Have p token outcome ts) B) q"
  shows "task_inv m (insert (if wait_token (task m p) = token then Publish p token outcome ts else Scan ts) B) q"
proof (cases "p = q \<and> wait_token (task m p) = token")
  case True
  then have q: "q = p" and tok: "wait_token (task m p) = token" by auto
  show ?thesis using inv owner_swap [of q _ _ "Have p token outcome ts" B] stranded_swap [of q _ _ _ "Have p token outcome ts" B] tok
    unfolding task_inv_def q by (simp add: reach_held)
next
  case False
  show ?thesis by (rule task_inv_frame [OF inv]) (use False in \<open>auto split: if_splits\<close>)
qed

text \<open>What publishing a wake-up does to the task itself.\<close>

lemma publish_task:
  assumes w: "publish_wake early outcome t = (t', r)" and ok: "pc_ok t c"
  shows "pc_ok t' c" and "owner_ok p t c A \<Longrightarrow> owner_ok p t' c A" and "early \<or> r = Published \<Longrightarrow> \<not> asleep t' c"
    and "not_stranded p t c qd A \<Longrightarrow> r \<noteq> Published \<Longrightarrow> not_stranded p t' c qd A"
    and "\<not> early \<Longrightarrow> r \<noteq> Published \<Longrightarrow> t' = t"
proof -
  show "pc_ok t' c" using w ok unfolding publish_wake_def pc_ok_def pc_sets by (cases c) (auto split: if_splits)
  show "not_stranded p t c qd A \<Longrightarrow> r \<noteq> Published \<Longrightarrow> not_stranded p t' c qd A"
    using w by (auto simp: publish_wake_def not_stranded_def split: if_splits)
  show "\<not> early \<Longrightarrow> r \<noteq> Published \<Longrightarrow> t' = t" using w by (auto simp: publish_wake_def split: if_splits)
  show "early \<or> r = Published \<Longrightarrow> \<not> asleep t' c" using w ok unfolding publish_wake_def asleep_def pc_ok_def pc_sets by (cases c) (auto split: if_splits)
  assume o: "owner_ok p t c A"
  show "owner_ok p t' c A"
  proof (cases "status t = Blocked")
    case True
    have "Ready \<in> finds a" if "a \<in> A" "requeues a = Some p" for a
      using o that True by (cases a) (auto simp: owner_ok_def)
    then show ?thesis using w o True by (auto simp: publish_wake_def owner_ok_def)
  next
    case False
    then show ?thesis using w o by (auto simp: publish_wake_def owner_ok_def split: if_splits)
  qed
qed

lemma publish_inv:
  assumes inv: "task_inv m (insert (Publish p token outcome ts) B) q" and w: "publish_wake True outcome (task m p) = (t, r)"
    and b: "b = (if r = Published then Owner p ts else Scan ts)"
  shows "task_inv (put p (\<lambda>_. t) m) (insert b B) q"
proof (cases "q = p")
  case True
  have ok: "pc_ok (task m p) (pc m p)" using inv True by (simp add: task_inv_def)
  note f = publish_task [OF w ok]
  have "owner_ok p t (pc m p) (insert b B)"
    using owner_swap [OF f(2), of p "Publish p token outcome ts" B b] inv True b by (simp add: task_inv_def)
  moreover have "not_stranded p t (pc m p) (queued (sched m) p) (insert b B)"
  proof (cases "r = Published")
    case False
    then show ?thesis using stranded_swap [OF f(4), of p _ "Publish p token outcome ts" B b] inv True by (simp add: task_inv_def)
  qed (simp add: b not_stranded_def)
  ultimately show ?thesis using f(1,3) True by (simp add: task_inv_def reachable_by_wakers_def)
next
  case False
  show ?thesis by (rule task_inv_frame [OF inv]) (use False b in \<open>auto split: if_splits\<close>)
qed

lemma publish_blocked_inv:
  assumes inv: "task_inv m (insert (PublishBlocked p outcome) B) q" and w: "publish_wake False outcome (task m p) = (t, r)"
  shows "r = Published \<Longrightarrow> task_inv (put p (\<lambda>_. t) m) (insert (Owner p []) B) q" and "task_inv m B q"
proof -
  show "task_inv m B q" by (rule task_inv_frame [OF inv]) auto
  assume r: "r = Published"
  show "task_inv (put p (\<lambda>_. t) m) (insert (Owner p []) B) q"
  proof (cases "q = p")
    case True
    have ok: "pc_ok (task m p) (pc m p)" using inv True by (simp add: task_inv_def)
    note f = publish_task [OF w ok]
    have "owner_ok p t (pc m p) (insert (Owner p []) B)"
      using owner_swap [OF f(2), of p "PublishBlocked p outcome" B "Owner p []"] inv True by (simp add: task_inv_def)
    then show ?thesis using f(1,3) r True by (simp add: task_inv_def reachable_by_wakers_def not_stranded_def)
  next
    case False
    show ?thesis by (rule task_inv_frame [OF inv]) (use False in auto)
  qed
qed

lemma reach_swap:
  "reachable_by_wakers p t c ts E (insert a B) ev \<Longrightarrow> carries a = None \<Longrightarrow> set (scans a) \<subseteq> set (scans b) \<Longrightarrow> reachable_by_wakers p t c ts E (insert b B) ev"
  unfolding reachable_by_wakers_def by fastforce

lemma reach_drop:
  "reachable_by_wakers p t c ts E (insert a B) ev \<Longrightarrow> carries a = None \<Longrightarrow> scans a = [] \<Longrightarrow> reachable_by_wakers p t c ts E B ev"
  unfolding reachable_by_wakers_def by fastforce

lemma reach_cong:
  "status t' = status t \<Longrightarrow> wait_outcome t' = wait_outcome t \<Longrightarrow> wait_token t' = wait_token t \<Longrightarrow>
   reachable_by_wakers p t' c ts E A ev = reachable_by_wakers p t c ts E A ev"
  by (simp add: reachable_by_wakers_def asleep_def)

lemma brings_requeues: "requeues a = Some p \<Longrightarrow> brings a = Some p"
  by (cases a) auto

lemma finds_ready: "requeues a = Some p \<Longrightarrow> Ready \<in> finds a"
  by (cases a) auto

lemma owner_inv:
  assumes inv: "task_inv m (insert (Owner p ts) B) q"
  shows "task_inv m (insert (if blocking_cpu (task m p) = None then Enqueue p ts else Scan ts) B) q" (is "task_inv m (insert ?b B) q")
proof (cases "q = p")
  case True
  have "requeues ?b = None" by simp
  then have o: "owner_ok p (task m p) (pc m p) (insert ?b B)" using inv True owner_swap [of p _ _ "Owner p ts" B ?b] by (simp add: task_inv_def)
  have "not_stranded p (task m p) (pc m p) (queued (sched m) p) (insert ?b B)"
  proof (cases "blocking_cpu (task m p) = None")
    case False
    then have "pc m p = AtOff \<Longrightarrow> \<exists>a \<in> insert ?b B. requeues a = Some p" using o by (auto simp: owner_ok_def)
    then show ?thesis using brings_requeues unfolding not_stranded_def by blast
  qed (simp add: not_stranded_def)
  moreover have "reachable_by_wakers p (task m p) (pc m p) (targets_of (sleep_keys m p)) (set (waiters m)) (insert ?b B) (event m)"
    using inv True reach_swap [of p _ _ _ _ "Owner p ts" B _ ?b] by (simp add: task_inv_def)
  ultimately show ?thesis using inv True o by (simp add: task_inv_def)
next
  case False
  show ?thesis by (rule task_inv_frame [OF inv]) (use False in \<open>auto split: if_splits\<close>)
qed

lemma enqueue_inv:
  assumes "queue_inv m" and inv: "task_inv m (insert (Enqueue p ts) B) q"
  shows "task_inv (m\<lparr>sched := add_task p (sched m)\<rparr>) (insert (Scan ts) B) q"
proof -
  have s: "rq_ok (user_queue (sched m))" "\<not> is_kernel (tcb (sched m) p)" using assms(1) by (auto simp: queue_inv_def task_def)
  note f = add_task_facts [OF s]
  have t: "task (m\<lparr>sched := add_task p (sched m)\<rparr>) q = task m q" for q by (simp add: task_def f)
  show ?thesis
  proof (cases "q = p")
    case True
    then show ?thesis using inv owner_swap [of p _ _ "Enqueue p ts" B "Scan ts"] reach_swap [of p _ _ _ _ "Enqueue p ts" B _ "Scan ts"]
      by (simp add: task_inv_def t) (simp add: not_stranded_def f task_def)
  next
    case False
    show ?thesis by (rule task_inv_frame [OF inv]) (use False f t in auto)
  qed
qed

lemma requeue_push_inv:
  assumes "queue_inv m" and inv: "task_inv m (insert (RqPush p cpu) B) q"
  shows "task_inv (m\<lparr>sched := add_task_local cpu p (sched m)\<rparr>) B q"
proof -
  have s: "rq_ok (user_queue (sched m))" "\<not> is_kernel (tcb (sched m) p)" using assms(1) by (auto simp: queue_inv_def task_def)
  note f = add_task_facts [OF s]
  have t: "task (m\<lparr>sched := add_task_local cpu p (sched m)\<rparr>) q = task m q" for q by (simp add: task_def f)
  show ?thesis
  proof (cases "q = p")
    case True
    have "owner_ok p (task m p) (pc m p) B" using inv True unfolding task_inv_def owner_ok_def by fastforce
    then show ?thesis using inv True reach_drop [of p _ _ _ _ "RqPush p cpu" B]
      by (simp add: task_inv_def t) (simp add: not_stranded_def f task_def)
  next
    case False
    show ?thesis by (rule task_inv_frame [OF inv]) (use False f t in auto)
  qed
qed

text \<open>The other accesses of a requeueing CPU: the agent \<open>a\<close> becomes \<open>b\<close> and the task \<open>f\<close> of itself.\<close>

lemma requeue_inv:
  assumes inv: "task_inv m (insert a B) q" and a: "requeues a = Some p" "carries a = None" "scans a = []" and b: "requeues b = Some p"
    and f: "wait_outcome (f (task m p)) = wait_outcome (task m p)" "running_cpu (f (task m p)) = running_cpu (task m p)" "wait_token (f (task m p)) = wait_token (task m p)"
    and st: "status (task m p) \<in> finds a \<Longrightarrow> status (f (task m p)) \<in> finds b \<and> (status (f (task m p)) = status (task m p) \<or> status (task m p) \<noteq> Blocked \<and> status (f (task m p)) = Ready)
        \<and> (status (f (task m p)) = Running \<longrightarrow> seen_running b)"
    and bc: "blocking_cpu (f (task m p)) = None \<or> blocking_cpu (f (task m p)) = blocking_cpu (task m p) \<and> (owns a \<longrightarrow> owns b)"
  shows "task_inv (put p f m) (insert b B) q"
proof (cases "q = p")
  case True
  have o: "owner_ok p (task m p) (pc m p) (insert a B)" and off: "pc m p = AtOff" and fa: "status (task m p) \<in> finds a" and ok: "pc_ok (task m p) (pc m p)"
    using inv True a(1) by (auto simp: task_inv_def owner_ok_def)
  note s = st [OF fa]
  have "pc_ok (f (task m p)) (pc m p)" using ok f s off by (auto simp: pc_ok_def pc_sets)
  moreover have "owner_ok p (f (task m p)) (pc m p) (insert b B)"
    using o off s bc b finds_ready unfolding owner_ok_def by fastforce
  moreover have "not_stranded p (f (task m p)) (pc m p) (queued (sched m) p) (insert b B)"
    using brings_requeues [OF b] by (simp add: not_stranded_def)
  moreover have "reachable_by_wakers p (f (task m p)) (pc m p) (targets_of (sleep_keys m p)) (set (waiters m)) (insert b B) (event m)"
  proof (cases "status (f (task m p)) = status (task m p)")
    case same: True
    show ?thesis using inv True reach_swap [of p _ _ _ _ a B _ b] a unfolding reach_cong [OF same f(1,3)] by (simp add: task_inv_def)
  next
    case False
    then show ?thesis using s off by (auto simp: reachable_by_wakers_def asleep_def pc_sets)
  qed
  ultimately show ?thesis using True by (simp add: task_inv_def)
next
  case False
  show ?thesis by (rule task_inv_frame [OF inv]) (use False a b brings_requeues in \<open>auto\<close>)
qed

lemma requeue_check_inv:
  assumes inv: "task_inv m (insert (RqCheck p cpu) B) q" and "status (task m p) \<noteq> Ready"
  shows "task_inv m B q"
proof (cases "q = p")
  case True
  have "owner_ok p (task m p) (pc m p) B" using inv True unfolding task_inv_def owner_ok_def by fastforce
  then show ?thesis using inv True assms(2) reach_drop [of p _ _ _ _ "RqCheck p cpu" B] by (simp add: task_inv_def not_stranded_def)
next
  case False
  show ?thesis by (rule task_inv_frame [OF inv]) (use False in auto)
qed

lemma start_inv:
  assumes inv: "task_inv m (insert (Start p cpu) B) q" and guard: "Some p \<notin> requeues ` B"
  shows "snd (try_start_running cpu (task m p)) \<Longrightarrow> task_inv (goto p AtUser (put p (\<lambda>t. fst (try_start_running cpu t)) m)) B q"
    and "\<not> snd (try_start_running cpu (task m p)) \<Longrightarrow> task_inv m B q"
proof -
  have g: "requeues a \<noteq> Some p" if "a \<in> B" for a using guard that by force
  assume yes: "snd (try_start_running cpu (task m p))"
  show "task_inv (goto p AtUser (put p (\<lambda>t. fst (try_start_running cpu t)) m)) B q"
  proof (cases "q = p")
    case True
    then show ?thesis using inv yes g by (auto simp: task_inv_def pc_ok_def owner_ok_def not_stranded_def reachable_by_wakers_def asleep_def pc_sets try_start_running_def split: if_splits)
  next
    case False
    show ?thesis by (rule task_inv_frame [OF inv]) (use False in auto)
  qed
next
  assume no: "\<not> snd (try_start_running cpu (task m p))"
  show "task_inv m B q"
  proof (cases "q = p")
    case True
    have "pc m p = AtOff \<Longrightarrow> status (task m p) \<noteq> Ready" using no inv True by (auto simp: task_inv_def pc_ok_def try_start_running_def split: if_splits)
    then show ?thesis using inv True owner_drop [of p _ _ "Start p cpu" B] reach_drop [of p _ _ _ _ "Start p cpu" B]
      by (auto simp: task_inv_def not_stranded_def)
  next
    case False
    show ?thesis by (rule task_inv_frame [OF inv]) (use False in auto)
  qed
qed

section \<open>Every action keeps the invariant\<close>

lemma agent_inv:
  assumes q: "queue_inv m" and inv: "\<And>p. task_inv m (insert a B) p" and guard: "\<And>p cpu. a = Start p cpu \<Longrightarrow> Some p \<notin> requeues ` B"
    and s: "agent_step a m = (m', bs)"
  shows "task_inv m' (set bs \<union> B) p"
proof (cases a)
  case (Scan ts)
  show ?thesis
  proof (cases ts)
    case Nil
    have "task_inv m B p" by (rule task_inv_frame [OF inv]) (auto simp: Scan Nil)
    then show ?thesis using s Scan Nil by simp
  next
    case (Cons t ts')
    show ?thesis
    proof (cases "take_matching (\<lambda>e. we_key e = t) (waiters m)")
      case None
      then show ?thesis using s Scan Cons scan_end_inv [OF inv [of p, unfolded Scan Cons] None] by auto
    next
      case (Some er)
      obtain e rest where e: "er = (e, rest)" by (cases er)
      show ?thesis using s Scan Cons Some e scan_inv [OF inv [of p, unfolded Scan Cons] Some [unfolded e]] by auto
    qed
  qed
next
  case (Have x token outcome ts)
  show ?thesis using s token_inv [OF inv [of p, unfolded Have]] by (auto simp: Have)
next
  case (Publish x token outcome ts)
  obtain t r where w: "publish_wake True outcome (task m x) = (t, r)" by force
  show ?thesis using s publish_inv [OF inv [of p, unfolded Publish] w refl] w by (cases r) (auto simp: Publish)
next
  case (PublishBlocked x outcome)
  obtain t r where w: "publish_wake False outcome (task m x) = (t, r)" by force
  show ?thesis using s publish_blocked_inv [OF inv [of p, unfolded PublishBlocked] w] w by (cases r) (auto simp: PublishBlocked)
next
  case (Owner x ts)
  show ?thesis using s owner_inv [OF inv [of p, unfolded Owner]] by (auto simp: Owner)
next
  case (Enqueue x ts)
  show ?thesis using s enqueue_inv [OF q inv [of p, unfolded Enqueue]] by (auto simp: Enqueue)
next
  case (RqStatus x cpu)
  let ?b = "if status (task m x) = Blocked then RqDisown x cpu else RqReady x cpu"
  have "status (task m x) \<in> {Running, Blocked, Ready}" using inv [of x] by (auto simp: RqStatus task_inv_def owner_ok_def)
  then have b: "bs = [?b]" "m' = m" using s by (auto simp: RqStatus)
  have "task_inv (put x (\<lambda>t. t) m) (insert ?b B) p"
    by (rule requeue_inv [OF inv [of p, unfolded RqStatus]]) (auto split: if_splits)
  then show ?thesis using b by (simp add: put_def set_task_def)
next
  case (RqDisown x cpu)
  have "task_inv (put x (\<lambda>t. t\<lparr>blocking_cpu := None\<rparr>) m) (insert (RqCheck x cpu) B) p"
    by (rule requeue_inv [OF inv [of p, unfolded RqDisown]]) auto
  then show ?thesis using s by (auto simp: RqDisown)
next
  case (RqCheck x cpu)
  show ?thesis
  proof (cases "status (task m x) = Ready")
    case True
    have "task_inv (put x (\<lambda>t. t) m) (insert (RqPush x cpu) B) p"
      by (rule requeue_inv [OF inv [of p, unfolded RqCheck]]) (use True in auto)
    then show ?thesis using s True by (auto simp: RqCheck put_def set_task_def)
  next
    case False
    then show ?thesis using s requeue_check_inv [OF inv [of p, unfolded RqCheck]] by (auto simp: RqCheck)
  qed
next
  case (RqReady x cpu)
  have "task_inv (put x (\<lambda>t. t\<lparr>blocking_cpu := None\<rparr>) m) (insert (RqForget x cpu) B) p"
    by (rule requeue_inv [OF inv [of p, unfolded RqReady]]) auto
  then show ?thesis using s by (auto simp: RqReady)
next
  case (RqForget x cpu)
  have "task_inv (put x (\<lambda>t. t\<lparr>block_reason := None\<rparr>) m) (insert (RqSetReady x cpu) B) p"
    by (rule requeue_inv [OF inv [of p, unfolded RqForget]]) auto
  then show ?thesis using s by (auto simp: RqForget)
next
  case (RqSetReady x cpu)
  have st: "status (task m x) = Running \<or> status (task m x) = Ready" using inv [of x] by (auto simp: RqSetReady task_inv_def owner_ok_def)
  have "task_inv (put x (\<lambda>t. t\<lparr>status := Ready\<rparr>) m) (insert (RqPush x cpu) B) p"
    by (rule requeue_inv [OF inv [of p, unfolded RqSetReady]]) auto
  then show ?thesis using s st by (auto simp: RqSetReady)
next
  case (RqPush x cpu)
  show ?thesis using s requeue_push_inv [OF q inv [of p, unfolded RqPush]] by (auto simp: RqPush)
next
  case (Start x cpu)
  show ?thesis using s start_inv [OF inv [of p, unfolded Start] guard [OF Start]] by (auto simp: Start split: if_splits)
qed

lemma position_Some: "position P xs = Some i \<Longrightarrow> i < length xs \<and> P (xs ! i)"
  by (induction xs arbitrary: i) (auto split: if_splits)

lemma position_None: "position P xs = None \<longleftrightarrow> (\<forall>x \<in> set xs. \<not> P x)"
  by (induction xs) auto

lemma remove_from_user:
  assumes "rq_ok (user_queue s)"
  shows "queued (fst (remove_task_from_queue False p s)) q \<longleftrightarrow> queued s q \<and> q \<noteq> p" and "tcb (fst (remove_task_from_queue False p s)) = tcb s"
    and "rq_ok (user_queue (fst (remove_task_from_queue False p s)))"
proof (atomize (full), cases "position (\<lambda>x. x = p) (rq_tasks (user_queue s))")
  case None
  then show "(queued (fst (remove_task_from_queue False p s)) q \<longleftrightarrow> queued s q \<and> q \<noteq> p) \<and> tcb (fst (remove_task_from_queue False p s)) = tcb s
    \<and> rq_ok (user_queue (fst (remove_task_from_queue False p s)))"
  proof -
    have "remove_task_from_queue False p s = (s, None)" using None by (simp add: remove_task_from_queue_def queue_of_def)
    moreover have "p \<notin> set (rq_tasks (user_queue s))" using None position_None [of "\<lambda>x. x = p"] by auto
    ultimately show ?thesis using assms by (auto simp: queued_def)
  qed
next
  case (Some i)
  have d: "distinct (rq_tasks (user_queue s))" using assms by (simp add: rq_ok_def)
  have i: "i < length (rq_tasks (user_queue s))" "rq_tasks (user_queue s) ! i = p" using position_Some [OF Some] by auto
  show "(queued (fst (remove_task_from_queue False p s)) q \<longleftrightarrow> queued s q \<and> q \<noteq> p) \<and> tcb (fst (remove_task_from_queue False p s)) = tcb s
    \<and> rq_ok (user_queue (fst (remove_task_from_queue False p s)))"
  proof -
    have "remove_task_from_queue False p s = (s\<lparr>user_queue := fst (rq_remove_at (user_queue s) i)\<rparr>, Some p)"
      using Some i by (simp add: remove_task_from_queue_def queue_of_def set_queue_def rq_remove_at_def)
    moreover have "rq_tasks (fst (rq_remove_at (user_queue s) i)) = remove1 p (rq_tasks (user_queue s))"
      using remove_nth_remove1 [OF i(1) d] i by (simp add: rq_remove_at_def)
    ultimately show ?thesis using d rq_ok_remove_at [OF assms, of i] by (auto simp: queued_def)
  qed
qed

lemma sleep_begin_inv:
  assumes inv: "task_inv m (set (agents m)) q" and u: "pc m p = AtUser"
  shows "task_inv (sleep_begin p ks m) (set (agents m)) q"
proof (cases "q = p")
  case True
  have "pc_ok (task m p) AtUser" "owner_ok p (task m p) AtUser (set (agents m))" using inv u True by (auto simp: task_inv_def)
  then show ?thesis using u True
    by (auto simp: sleep_begin_def task_inv_def pc_ok_def owner_ok_def not_stranded_def reachable_by_wakers_def asleep_def pc_sets)
next
  case False
  show ?thesis by (rule task_inv_frame [OF inv]) (use False in \<open>auto simp: sleep_begin_def remove_waiters_other split: if_splits\<close>)
qed

lemma queue_inv_put: "(\<And>t. is_kernel (f t) = is_kernel t) \<Longrightarrow> queue_inv (put p f m) = queue_inv m"
  by (auto simp: queue_inv_def)

lemma queue_inv_simps [simp]:
  "queue_inv (goto p c m) = queue_inv m" "queue_inv (spawn a m) = queue_inv m" "queue_inv (m\<lparr>waiters := w\<rparr>) = queue_inv m"
  "queue_inv (m\<lparr>timers := ts\<rparr>) = queue_inv m" "queue_inv (m\<lparr>agents := as\<rparr>) = queue_inv m" "queue_inv (m\<lparr>event := ev\<rparr>) = queue_inv m"
  "queue_inv (m\<lparr>sleep_keys := ks\<rparr>) = queue_inv m"
  by (auto simp: queue_inv_def)

lemma kernel_flag [simp]:
  "is_kernel (fst (set_status_if a b t)) = is_kernel t" "is_kernel (next_wait_token t) = is_kernel t" "is_kernel (release_running_cpu cpu t) = is_kernel t"
  "is_kernel (fst (try_start_running cpu t)) = is_kernel t" "publish_wake early outcome t = (t', r) \<Longrightarrow> is_kernel t' = is_kernel t"
  by (auto simp: set_status_if_def next_wait_token_def release_running_cpu_def try_start_running_def publish_wake_def split: if_splits)

lemma sleeper_queue:
  assumes "queue_inv m"
  shows "queue_inv (sleeper_step i p m)"
proof -
  have i: "rq_ok (user_queue (fst (remove_task_instances p (sched m))))"
    using assms rq_ok_instances [of "user_queue (sched m)" p] by (auto simp: queue_inv_def remove_task_instances_def split: prod.splits)
  have "queue_inv (m\<lparr>sched := fst (remove_task_instances p (sched m))\<rparr>)" using assms i by (simp add: queue_inv_def task_def)
  then show ?thesis using assms
    by (cases "pc m p") (auto simp: sleeper_step_def sleeper_defs queue_inv_put set_status_if_def split: option.split bool.split)
qed

lemma agent_queue:
  assumes "queue_inv m" and "agent_step a m = (m', bs)"
  shows "queue_inv m'"
proof -
  have s: "rq_ok (user_queue (sched m))" "\<not> is_kernel (tcb (sched m) p)" for p using assms(1) by (auto simp: queue_inv_def task_def)
  have k: "is_kernel (task m p) \<Longrightarrow> False" for p using assms(1) by (simp add: queue_inv_def)
  have add: "queue_inv (m\<lparr>sched := add_task p (sched m)\<rparr>)" "queue_inv (m\<lparr>sched := add_task_local cpu p (sched m)\<rparr>)" for p cpu
    using assms(1) add_task_facts [OF s] by (simp_all add: queue_inv_def task_def)
  have pub: "queue_inv (put p (\<lambda>_. t) m)" if "publish_wake early outcome (task m p) = (t, r)" for p t r early outcome
    using assms(1) kernel_flag(5) [OF that] by (auto simp: queue_inv_def)
  show ?thesis
  proof (cases a)
    case (Scan ts)
    then show ?thesis using assms by (cases ts) (auto split: option.splits)
  qed (use assms add pub queue_inv_put in \<open>auto split: prod.splits wake_result.splits TaskStatus.splits if_splits\<close>)
qed

lemma task_inv_spawn: "task_inv (spawn a m) A p = task_inv m A p"
  by (simp add: task_inv_def)

lemma exec_inv:
  assumes "machine_inv m"
  shows "machine_inv (exec True act m)"
proof -
  have qi: "queue_inv m" and ti: "\<And>p. task_inv m (set (agents m)) p" using assms by (auto simp: machine_inv_def)
  have rq: "rq_ok (user_queue (sched m))" using qi by (simp add: queue_inv_def)
  note rem = remove_from_user [OF rq]
  show ?thesis
  proof (cases act)
    case (Sleep p ks)
    have "queue_inv (sleep_begin p ks m)" and "agents (sleep_begin p ks m) = agents m" using qi by (simp_all add: sleep_begin_def queue_inv_put)
    then show ?thesis using Sleep assms sleep_begin_inv [OF ti] by (auto simp: machine_inv_def)
  next
    case (Advance p i)
    have "task_inv (sleeper_step i p m) (set (agents (sleeper_step i p m))) q" for q
      using sleeper_subject [OF ti] sleeper_frame [OF _ ti] by (cases "q = p") auto
    then show ?thesis using Advance sleeper_queue [OF qi] by (simp add: machine_inv_def)
  next
    case (AgentStep n)
    show ?thesis
    proof (cases "n < length (agents m) \<and> start_allowed True m (agents m ! n)")
      case True
      let ?a = "agents m ! n" and ?B = "set (take n (agents m)) \<union> set (drop (Suc n) (agents m))"
      obtain m' bs where s: "agent_step ?a m = (m', bs)" by force
      have "set (agents m) = set (take n (agents m) @ ?a # drop (Suc n) (agents m))" using True by (simp add: id_take_nth_drop [symmetric])
      then have A: "set (agents m) = insert ?a ?B" by simp
      have "Some p \<notin> requeues ` ?B" if "?a = Start p cpu" for p cpu using True that A by (auto simp: start_allowed_def)
      then have "task_inv m' (set bs \<union> ?B) p" for p using agent_inv [OF qi _ _ s] ti A by metis
      then have "task_inv (m'\<lparr>agents := take n (agents m) @ bs @ drop (Suc n) (agents m)\<rparr>) (set (take n (agents m) @ bs @ drop (Suc n) (agents m))) p" for p
        by (simp add: task_inv_def Un_left_commute)
      then show ?thesis using AgentStep True s agent_queue [OF qi s] by (simp add: machine_inv_def)
    qed (use assms AgentStep in auto)
  next
    case (Signal k)
    have "task_inv (exec True act m) (set (agents (exec True act m))) p" for p
      by (rule task_inv_frame [OF ti]) (auto simp: Signal split: if_splits)
    then show ?thesis using Signal qi by (simp add: machine_inv_def)
  next
    case (Consume t)
    have "task_inv (exec True act m) (set (agents (exec True act m))) p" for p
      by (rule task_inv_frame [OF ti]) (auto simp: Consume split: if_splits)
    then show ?thesis using Consume qi by (simp add: machine_inv_def)
  next
    case (Expire n)
    have "task_inv (exec True act m) (set (agents (exec True act m))) p" for p
      by (rule task_inv_frame [OF ti]) (auto simp: Expire split: if_splits)
    then show ?thesis using Expire qi by (simp add: machine_inv_def)
  next
    case (Interrupt x outcome)
    have "task_inv (exec True act m) (set (agents (exec True act m))) p" for p
      by (rule task_inv_frame [OF ti]) (auto simp: Interrupt)
    then show ?thesis using Interrupt qi by (simp add: machine_inv_def)
  next
    case (Fetch x cpu)
    let ?m = "m\<lparr>sched := fst (remove_task_from_queue False x (sched m))\<rparr>"
    have t: "task ?m p = task m p" for p using rem(2) by (simp add: task_def)
    have "task_inv ?m (insert (Start x cpu) (set (agents m))) p" for p
    proof (cases "p = x")
      case True
      then show ?thesis using ti [of x] by (simp add: task_inv_def t) (auto simp: not_stranded_def owner_ok_def reachable_by_wakers_def)
    next
      case False
      show ?thesis by (rule task_inv_frame [OF ti]) (use False t rem in auto)
    qed
    moreover have "queue_inv ?m" using qi rem t by (simp add: queue_inv_def)
    ultimately show ?thesis using Fetch assms by (simp add: machine_inv_def task_inv_spawn)
  next
    case (Purge x)
    let ?m = "m\<lparr>sched := fst (remove_task_from_queue False x (sched m))\<rparr>"
    have t: "task ?m p = task m p" for p using rem(2) by (simp add: task_def)
    have "task_inv ?m (set (agents m)) p" if "status (task m x) \<noteq> Ready" for p
    proof (cases "p = x")
      case True
      then show ?thesis using ti [of x] that by (simp add: task_inv_def t not_stranded_def)
    next
      case False
      show ?thesis by (rule task_inv_frame [OF ti]) (use False t rem in auto)
    qed
    moreover have "queue_inv ?m" using qi rem t by (simp add: queue_inv_def)
    ultimately show ?thesis using Purge assms by (simp add: machine_inv_def)
  qed
qed

section \<open>No wake-up is lost, provided a task is not started before it is requeued\<close>

definition start_state :: "machine \<Rightarrow> bool" where
  "start_state m \<longleftrightarrow> queue_inv m \<and> agents m = []
     \<and> (\<forall>p. blocking_cpu (task m p) = None
          \<and> (if pc m p = AtUser then status (task m p) = Running \<and> running_cpu (task m p) \<noteq> None
             else pc m p = AtOff \<and> running_cpu (task m p) = None \<and> (status (task m p) = Ready \<and> queued (sched m) p \<or> status (task m p) = Zombie)))"

lemma start_state_inv:
  assumes "start_state m"
  shows "machine_inv m"
proof -
  have "task_inv m {} p" for p
    using spec [OF conjunct2 [OF conjunct2 [OF assms [unfolded start_state_def]]], of p]
    by (cases "pc m p = AtUser") (auto simp: task_inv_def pc_ok_def owner_ok_def not_stranded_def reachable_by_wakers_def asleep_def pc_sets)
  then show ?thesis using assms by (simp add: machine_inv_def start_state_def)
qed

lemma run_inv: "machine_inv m \<Longrightarrow> machine_inv (fold (exec True) acts m)"
  by (induction acts arbitrary: m) (simp_all add: exec_inv)

text \<open>
  C4. No wake-up is lost. Take any interleaving of tasks going to sleep on any keys, wakers, timer expiries, interrupts and scheduling CPUs,
  cut at every access to shared fields, in which no CPU starts a task before the CPU that ran it last has finished requeueing it. Whenever no
  wake-up, requeueing or start is under way, a task that sleeps is still registered under every key it waits for and none of
  its events has happened; a task that is off the CPU and ready is in the ready queue; and no task is left marked as running or owned without a CPU.
\<close>

theorem no_lost_wakeup:
  assumes "start_state m0" and m: "m = fold (exec True) acts m0" and quiet: "agents m = []"
  shows "(status (task m p) = Blocked \<and> pc m p \<in> {AtLoop, AtOff} \<longrightarrow>
       (\<forall>k \<in> set (targets_of (sleep_keys m p)). \<not> event m k \<and> \<lparr>we_task = p, we_token = wait_token (task m p), we_key = k\<rparr> \<in> set (waiters m)))
    \<and> (pc m p = AtOff \<and> status (task m p) = Ready \<longrightarrow> queued (sched m) p)
    \<and> (pc m p = AtOff \<longrightarrow> status (task m p) \<noteq> Running \<and> blocking_cpu (task m p) = None \<and> running_cpu (task m p) = None)"
proof -
  have inv: "task_inv m {} p" using run_inv [OF start_state_inv [OF assms(1)], of acts] m quiet by (simp add: machine_inv_def)
  have pc: "pc_ok (task m p) (pc m p)" and ow: "owner_ok p (task m p) (pc m p) {}" using inv by (simp_all add: task_inv_def)
  have "asleep (task m p) (pc m p)" if "status (task m p) = Blocked" "pc m p \<in> {AtLoop, AtOff}"
    using that pc by (auto simp: pc_ok_def asleep_def pc_sets)
  then have "status (task m p) = Blocked \<and> pc m p \<in> {AtLoop, AtOff} \<longrightarrow>
      (\<forall>k \<in> set (targets_of (sleep_keys m p)). \<not> event m k \<and> \<lparr>we_task = p, we_token = wait_token (task m p), we_key = k\<rparr> \<in> set (waiters m))"
    using inv unfolding task_inv_def reachable_by_wakers_def by auto
  moreover have "pc m p = AtOff \<and> status (task m p) = Ready \<longrightarrow> queued (sched m) p" using inv by (simp add: task_inv_def not_stranded_def)
  moreover have "pc m p = AtOff \<longrightarrow> status (task m p) \<noteq> Running \<and> blocking_cpu (task m p) = None \<and> running_cpu (task m p) = None"
    using pc ow by (auto simp: pc_ok_def owner_ok_def)
  ultimately show ?thesis by blast
qed

end
