(* ===== verification/Lost_Wakeup.thy ===== *)
theory Lost_Wakeup
  imports Wakeup
begin

unbundle bit_operations_syntax

text \<open>
  Concrete runs of the machine of \<open>Wakeup\<close>: one that shows what a sleeper and its waker do, and two that show what the code does not exclude.
\<close>

definition demo_key :: "nat \<Rightarrow> WaitKey" where
  "demo_key n = \<lparr>wk_object = n, wk_event = 0\<rparr>"

definition demo_inputs :: inputs where
  "demo_inputs = \<lparr>in_fails = False, in_pending = False, in_deadline = None, in_parks = True\<rparr>"

definition demo_on_cpu :: TaskControlBlock where
  "demo_on_cpu = (demo_task 0 0)\<lparr>status := Running, running_cpu := Some 0\<rparr>"

definition demo_machine :: machine where
  "demo_machine =
     \<lparr>sched = \<lparr>tcb = (\<lambda>_. demo_on_cpu), user_queue = rq_new, kernel_queue = rq_new, rt_runs = 0, online_mask = 1, sched_events = []\<rparr>,
      waiters = [], timers = [], pc = (\<lambda>_. AtUser), sleep_keys = (\<lambda>_. []), agents = [], event = (\<lambda>_. False)\<rparr>"

lemma demo_machine_start: "start_state demo_machine"
  by (simp add: start_state_def demo_machine_def queue_inv_def rq_ok_def rq_new_def task_def demo_on_cpu_def demo_task_def)

definition advance :: "nat \<Rightarrow> action list" where
  "advance n = replicate n (Advance 1 demo_inputs)"

definition agent_turns :: "nat \<Rightarrow> nat \<Rightarrow> action list" where
  "agent_turns n i = replicate n (AgentStep i)"

lemmas demo_exec = sleeper_step_def sleeper_defs advance_def agent_turns_def demo_inputs_def demo_key_def demo_on_cpu_def demo_task_def task_def put_def goto_def spawn_def set_task_def
  remove_waiters_def remove_task_waiters_def register_waiters_def remove_task_timeouts_def next_wait_token_def wrapping_add_def
  targets_of_def set_status_if_def release_running_cpu_def publish_wake_def add_task_def add_task_local_def push_task_back_def push_task_def
  queue_of_def set_queue_def rq_push_back_def rq_new_def remove_task_from_queue_def rq_remove_at_def try_start_running_def start_allowed_def
  can_run_on_cpu_def affinity_mask_def Let_def

section \<open>A wake-up lost to a late requeue\<close>

definition demo_tcb :: "TaskStatus \<Rightarrow> BlockReason option \<Rightarrow> WaitOutcome option \<Rightarrow> usize \<Rightarrow> nat option \<Rightarrow> nat option \<Rightarrow> TaskControlBlock" where
  "demo_tcb st br oc tok bc rc =
     \<lparr>is_kernel = False, tk_tgid = 0, tk_pgid = 0, status = st, block_reason = br, wait_outcome = oc, wait_token = tok,
      sched_policy = 0, sched_priority = 0, affinity = 1, blocking_cpu = bc, running_cpu = rc\<rparr>"

definition demo_state ::
  "TaskControlBlock \<Rightarrow> nat list \<Rightarrow> sched_event list \<Rightarrow> WaitEntry list \<Rightarrow> pc \<Rightarrow> WaitKey list \<Rightarrow> agent list \<Rightarrow> (WaitKey option \<Rightarrow> bool) \<Rightarrow> machine" where
  "demo_state t q es ws c ks as ev =
     \<lparr>sched = \<lparr>tcb = (\<lambda>_. demo_on_cpu)(1 := t), user_queue = \<lparr>rq_tasks = q, queued_pids = set q\<rparr>, kernel_queue = rq_new, rt_runs = 0, online_mask = 1, sched_events = es\<rparr>,
      waiters = ws, timers = [], pc = (\<lambda>_. AtUser)(1 := c), sleep_keys = (\<lambda>_. [])(1 := ks), agents = as, event = ev\<rparr>"

lemma replicate_turns: "replicate (numeral k) x = x # replicate (pred_numeral k) x"
  by (simp add: numeral_eq_Suc)

lemmas demo_run = replicate_turns demo_exec demo_state_def demo_tcb_def

text \<open>Task 1 goes to sleep on a key and is parked.\<close>

lemma demo_sleep:
  assumes "\<not> ev (Some (demo_key k))" and "tok < 5"
  shows "fold (exec False) (Sleep 1 [demo_key k] # advance 5) (demo_state (demo_tcb Running None None tok bc (Some c)) q es [] AtUser ks as ev) =
    demo_state (demo_tcb Running (Some IoWait) None (tok + 1) bc (Some c)) q es [\<lparr>we_task = 1, we_token = tok + 1, we_key = Some (demo_key k)\<rparr>] AtSignal [demo_key k] as ev"
  using assms by (simp add: demo_run del: fold_replicate)

lemma demo_block:
  "fold (exec False) (advance 6) (demo_state (demo_tcb Running br None tok None (Some c)) q es ws AtSignal ks as ev) =
    demo_state (demo_tcb Blocked (Some IoWait) None tok (Some c) (Some c)) q es ws AtParked ks as ev"
  by (simp add: demo_run del: fold_replicate)

text \<open>It leaves its CPU.\<close>

lemma demo_leave:
  "fold (exec False) (advance 1) (demo_state (demo_tcb st br oc tok bc (Some c)) q es ws AtParked ks as ev) =
    demo_state (demo_tcb st br oc tok bc None) q es ws AtOff ks (as @ [RqStatus 1 c]) ev"
  by (simp add: demo_run del: fold_replicate)

text \<open>The CPU that ran it gives up ownership; the first waker makes it ready and finds no owner, but does not queue it yet.\<close>

lemma demo_first_wake:
  "fold (exec False) (agent_turns 2 0 @ Signal (demo_key k) # agent_turns 4 1 @ agent_turns 2 0)
     (demo_state (demo_tcb Blocked br None tok (Some c) None) [] [] [\<lparr>we_task = 1, we_token = tok, we_key = Some (demo_key k)\<rparr>] AtOff ks [RqStatus 1 0] ev) =
   demo_state (demo_tcb Ready None (Some Woken) tok None None) [1] [] [] AtOff ks [Enqueue 1 [Some (demo_key k), None]] (ev(Some (demo_key k) := True, None := True))"
  by (simp add: demo_run del: fold_replicate)

text \<open>Another CPU starts the task, which takes the outcome and uses up the event.\<close>

lemma demo_restart:
  "fold (exec False) (Fetch 1 c # agent_turns 1 1 @ [Sleep 1 [], Consume (Some (demo_key k)), Consume None])
     (demo_state (demo_tcb Ready None (Some Woken) tok bc None) [1] es [] AtOff ks [a] ev) =
   demo_state (demo_tcb Running None None tok bc (Some c)) [] es [] AtUser ks [a] (ev(Some (demo_key k) := False, None := False))"
  by (simp add: demo_run del: fold_replicate)

text \<open>The second waker finds the CPU that is parking the task as its owner and leaves the rest to it.\<close>

lemma demo_second_wake:
  "fold (exec False) (Signal (demo_key k) # agent_turns 7 1)
     (demo_state (demo_tcb Blocked br None tok (Some c) rc) [] es [\<lparr>we_task = 1, we_token = tok, we_key = Some (demo_key k)\<rparr>] cc ks [a] ev) =
   demo_state (demo_tcb Ready None (Some Woken) tok (Some c) rc) [] es [] cc ks [a] (ev(Some (demo_key k) := True, None := True))"
  by (simp add: demo_run del: fold_replicate)

text \<open>The first waker queues the task.\<close>

lemma demo_late_enqueue:
  "fold (exec False) (agent_turns 4 0)
     (demo_state (demo_tcb Ready None oc tok bc None) [] [] [] AtOff ks [Enqueue 1 [Some k, None], a] ev) =
   demo_state (demo_tcb Ready None oc tok bc None) [1] [NotifyRunnable 1] [] AtOff ks [a] ev"
  by (simp add: demo_run del: fold_replicate)

text \<open>The CPU that parked the task finds it running, and withdraws its block reason; the third waker then sees a task that is not about to block.\<close>

lemma demo_withdraw:
  "fold (exec False) (agent_turns 3 0) (demo_state (demo_tcb Running br oc tok bc rc) q es ws c ks [RqStatus 1 n] ev) =
   demo_state (demo_tcb Running None oc tok None rc) q es ws c ks [RqSetReady 1 n] ev"
  by (simp add: demo_run del: fold_replicate)

lemma demo_third_wake:
  "fold (exec False) (Signal (demo_key k) # agent_turns 6 1)
     (demo_state (demo_tcb Running None None tok bc rc) q es [\<lparr>we_task = 1, we_token = tok, we_key = Some (demo_key k)\<rparr>] c ks [a] ev) =
   demo_state (demo_tcb Running None None tok bc rc) q es [] c ks [a] (ev(Some (demo_key k) := True, None := True))"
  by (simp add: demo_run del: fold_replicate)

lemma demo_give_up:
  "fold (exec False) (agent_turns 1 0) (demo_state (demo_tcb Blocked br oc tok bc rc) q es ws c ks [RqSetReady 1 n] ev) =
   demo_state (demo_tcb Blocked br oc tok bc rc) q es ws c ks [] ev"
  by (simp add: demo_run del: fold_replicate)

lemma demo_requeue_blocked:
  "fold (exec False) (agent_turns 3 0) (demo_state (demo_tcb Blocked br oc tok bc None) q es ws c ks [RqStatus 1 n] ev) =
   demo_state (demo_tcb Blocked br oc tok None None) q es ws c ks [] ev"
  by (simp add: demo_run del: fold_replicate)

lemma demo_machine_eq: "demo_machine = demo_state (demo_tcb Running None None 0 None (Some 0)) [] [] [] AtUser [] [] (\<lambda>_. False)"
  by (simp add: demo_machine_def demo_state_def demo_tcb_def demo_on_cpu_def demo_task_def rq_new_def fun_eq_iff)

definition race :: "action list" where
  "race =
     (Sleep 1 [demo_key 1] # advance 5) @ advance 6 @ advance 1 @ (agent_turns 2 0 @ Signal (demo_key 1) # agent_turns 4 1 @ agent_turns 2 0)
     @ (Fetch 1 2 # agent_turns 1 1 @ [Sleep 1 [], Consume (Some (demo_key 1)), Consume None])
     @ (Sleep 1 [demo_key 2] # advance 5) @ advance 6 @ (Signal (demo_key 2) # agent_turns 7 1) @ advance 1 @ agent_turns 4 0
     @ (Fetch 1 3 # agent_turns 1 1 @ [Sleep 1 [], Consume (Some (demo_key 2)), Consume None])
     @ (Sleep 1 [demo_key 3] # advance 5) @ agent_turns 3 0 @ (Signal (demo_key 3) # agent_turns 6 1) @ advance 6 @ agent_turns 1 0
     @ advance 1 @ agent_turns 3 0"

lemma demo_key_eq [simp]: "demo_key i = demo_key j \<longleftrightarrow> i = j"
  by (simp add: demo_key_def)

lemma race_result:
  "\<exists>es ev. fold (exec False) race demo_machine =
     demo_state (demo_tcb Blocked (Some IoWait) None (0 + 1 + 1 + 1) None None) [] es [] AtOff [demo_key 3] [] ev \<and> ev (Some (demo_key 3))"
  unfolding race_def fold_append o_apply demo_machine_eq
  apply (subst demo_sleep, simp, simp)
  apply (subst demo_block)
  apply (subst demo_leave, simp only: append_Nil)
  apply (subst demo_first_wake [unfolded fold_append o_apply])
  apply (subst demo_restart)
  apply (subst demo_sleep, simp, simp)
  apply (subst demo_block)
  apply (subst demo_second_wake)
  apply (subst demo_leave, simp only: append_Cons append_Nil)
  apply (subst demo_late_enqueue)
  apply (subst demo_restart)
  apply (subst demo_sleep, simp, simp)
  apply (subst demo_withdraw)
  apply (subst demo_third_wake)
  apply (subst demo_block)
  apply (subst demo_give_up)
  apply (subst demo_leave, simp only: append_Nil)
  apply (subst demo_requeue_blocked)
  apply (intro exI conjI)
  apply (rule refl)
  apply simp
  done

text \<open>
  C39. The code does not rule that restriction out: a CPU that has parked a task may be held up between reading its status and clearing its block
  reason, while another CPU starts the task and lets it sleep again. There is an interleaving of one task and three wake-ups
  after which nothing is under way, the task is blocked and off the CPU, the event it waits for has
  happened, and no waiter entry is left through which anybody could wake it.
\<close>

theorem requeue_race_loses_wakeup:
  "\<exists>acts m. start_state demo_machine \<and> m = fold (exec False) acts demo_machine
     \<and> agents m = [] \<and> status (task m 1) = Blocked \<and> pc m 1 = AtOff
     \<and> sleep_keys m 1 = [demo_key 3] \<and> event m (Some (demo_key 3)) \<and> waiters m = [] \<and> timers m = []"
proof -
  obtain es ev where r: "fold (exec False) race demo_machine =
      demo_state (demo_tcb Blocked (Some IoWait) None (0 + 1 + 1 + 1) None None) [] es [] AtOff [demo_key 3] [] ev" and "ev (Some (demo_key 3))"
    using race_result by blast
  then show ?thesis
    by (intro exI [of _ race] exI [of _ "fold (exec False) race demo_machine"])
      (simp add: demo_machine_start demo_state_def demo_tcb_def task_def)
qed

section \<open>A wake-up that outlives its sleep\<close>

lemma stale_wake:
  "fold (exec True) (Sleep 1 [demo_key 1] # advance 4 @ Signal (demo_key 1) # agent_turns 3 0 @ advance 1 @ agent_turns 3 0) demo_machine =
     demo_state (demo_tcb Running None (Some Woken) 1 None (Some 0)) [] [] [] AtUser [demo_key 1] [] ((\<lambda>_. False)(Some (demo_key 1) := True, None := True))"
  by (simp add: demo_machine_eq demo_run del: fold_replicate)

text \<open>
  A task that finds the event already there returns without taking the outcome that a waker has noted meanwhile. The outcome stays with the task, and
  its next sleep, on whatever keys and for however long, returns at once although none of its events has happened: \<open>sleep_until_us\<close> and with
  it \<open>nanosleep\<close> then end early.
\<close>

theorem stale_outcome_cuts_sleep:
  "\<exists>acts m. m = fold (exec True) acts demo_machine \<and> agents m = [] \<and> pc m 1 = AtUser
     \<and> (\<forall>ks. pc (exec True (Sleep 1 ks) m) 1 = AtUser) \<and> \<not> event m (Some (demo_key 2))"
  by (rule exI [of _ "Sleep 1 [demo_key 1] # advance 4 @ Signal (demo_key 1) # agent_turns 3 0 @ advance 1 @ agent_turns 3 0"])
    (simp only: stale_wake, simp add: demo_state_def demo_tcb_def task_def sleep_begin_def put_def)

section \<open>A sleeper that nobody wakes\<close>

lemma undisturbed:
  "fold (exec True) (Sleep 1 [demo_key 1] # advance 12 @ agent_turns 3 0) demo_machine =
     demo_state (demo_tcb Blocked (Some IoWait) None 1 None None) [] [] [\<lparr>we_task = 1, we_token = 1, we_key = Some (demo_key 1)\<rparr>] AtOff [demo_key 1] [] (\<lambda>_. False)"
  by (simp add: demo_machine_eq demo_run del: fold_replicate)

theorem no_lost_wakeup_witness:
  "\<lparr>we_task = 1, we_token = 1, we_key = Some (demo_key 1)\<rparr>
     \<in> set (waiters (fold (exec True) (Sleep 1 [demo_key 1] # advance 12 @ agent_turns 3 0) demo_machine))"
proof -
  let ?m = "fold (exec True) (Sleep 1 [demo_key 1] # advance 12 @ agent_turns 3 0) demo_machine"
  have s: "status (task ?m 1) = Blocked" "pc ?m 1 = AtOff" "agents ?m = []" "wait_token (task ?m 1) = 1" "targets_of (sleep_keys ?m 1) = [Some (demo_key 1)]"
    by (simp_all only: undisturbed) (simp_all add: demo_state_def demo_tcb_def task_def targets_of_def)
  show ?thesis using no_lost_wakeup [OF demo_machine_start refl s(3), of 1] s by auto
qed

end
