(* ===== verification/Signal.thy ===== *)
theory Signal
  imports Ready_Queue
begin

unbundle bit_operations_syntax

text \<open>
  Signals (\<open>os/src/syscall/signal.rs\<close>) and what they do to processes (thread groups, stopping, continuing and exit in
  \<open>os/src/task/mod.rs\<close>), for riscv64. A register or a mask is a 64-bit word, a signal number an \<^typ>\<open>int\<close> as the code's \<open>i32\<close>. Handler tables
  are shared between tasks (\<open>CLONE_SIGHAND\<close>) and therefore live in a store; thread groups are named by their identifier. Copies from user
  memory are arguments, copies to it results, except signal frames, which have a memory of their own: an address maps to what the bytes there decode to.
  Wake-ups, the release of a dead process's resources and the scheduler's queues are events.
\<close>

type_synonym reg = "64 word"

section \<open>Exit codes and thread groups\<close>

definition SIGNAL_EXIT_CODE_BASE :: int where "SIGNAL_EXIT_CODE_BASE = - 4096"

definition signal_exit_code :: "int \<Rightarrow> int" where
  "signal_exit_code signum = SIGNAL_EXIT_CODE_BASE - signum"

definition wait_status_from_exit_code :: "int \<Rightarrow> int" where
  "wait_status_from_exit_code exit_code =
     (if exit_code < SIGNAL_EXIT_CODE_BASE \<and> 1 \<le> SIGNAL_EXIT_CODE_BASE - exit_code \<and> SIGNAL_EXIT_CODE_BASE - exit_code \<le> 64
      then SIGNAL_EXIT_CODE_BASE - exit_code
      else (exit_code mod 256) * 256)"

datatype ChildWaitEvent = StoppedBy int | ContinuedBy int

record ChildWaitState =
  stopped_signal :: "int option"
  stopped_consumed :: bool
  continued_signal :: "int option"
  continued_consumed :: bool

definition child_wait_new :: ChildWaitState where
  "child_wait_new = \<lparr>stopped_signal = None, stopped_consumed = True, continued_signal = None, continued_consumed = True\<rparr>"

record ThreadGroup =
  tg_members :: "nat list"
  tg_exit_code :: int
  process_zombie :: bool
  stopped :: bool
  child_wait :: ChildWaitState

definition thread_group_new :: ThreadGroup where
  "thread_group_new = \<lparr>tg_members = [], tg_exit_code = 0, process_zombie = False, stopped = False, child_wait = child_wait_new\<rparr>"

definition add_member :: "nat \<Rightarrow> ThreadGroup \<Rightarrow> ThreadGroup" where
  "add_member p g = g\<lparr>tg_members := tg_members g @ [p]\<rparr>"

definition mark_process_zombie :: "int \<Rightarrow> ThreadGroup \<Rightarrow> ThreadGroup \<times> bool" where
  "mark_process_zombie code g =
     (if process_zombie g then (g, False) else (g\<lparr>process_zombie := True, tg_exit_code := code\<rparr>, True))"

definition mark_stopped :: "int \<Rightarrow> ThreadGroup \<Rightarrow> ThreadGroup" where
  "mark_stopped signum g =
     g\<lparr>stopped := True,
       child_wait := \<lparr>stopped_signal = Some signum, stopped_consumed = False, continued_signal = None, continued_consumed = True\<rparr>\<rparr>"

definition mark_continued :: "int \<Rightarrow> ThreadGroup \<Rightarrow> ThreadGroup \<times> bool" where
  "mark_continued signum g =
     (let w = (child_wait g)\<lparr>stopped_signal := None, stopped_consumed := True\<rparr>;
          w' = (if stopped g then w\<lparr>continued_signal := Some signum, continued_consumed := False\<rparr> else w)
      in (g\<lparr>stopped := False, child_wait := w'\<rparr>, stopped g))"

definition group_take_child_wait_event :: "bool \<Rightarrow> bool \<Rightarrow> bool \<Rightarrow> ThreadGroup \<Rightarrow> ThreadGroup \<times> ChildWaitEvent option" where
  "group_take_child_wait_event want_stopped want_continued consume g =
     (let w = child_wait g
      in if want_stopped \<and> \<not> stopped_consumed w \<and> stopped_signal w \<noteq> None
         then (g\<lparr>child_wait := (if consume then w\<lparr>stopped_consumed := True\<rparr> else w)\<rparr>, map_option StoppedBy (stopped_signal w))
         else if want_continued \<and> \<not> continued_consumed w \<and> continued_signal w \<noteq> None
         then (g\<lparr>child_wait := (if consume then w\<lparr>continued_consumed := True\<rparr> else w)\<rparr>, map_option ContinuedBy (continued_signal w))
         else (g, None))"

section \<open>Constants and masks\<close>

definition MAX_SIGNAL :: int where "MAX_SIGNAL = 64"
definition KERNEL_SIGSET_SIZE :: nat where "KERNEL_SIGSET_SIZE = 8"
definition SIG_DFL :: reg where "SIG_DFL = 0"
definition SIG_IGN :: reg where "SIG_IGN = 1"
definition SIGKILL :: int where "SIGKILL = 9"
definition SIGALRM :: int where "SIGALRM = 14"
definition SIGPIPE :: int where "SIGPIPE = 13"
definition SIGSEGV :: int where "SIGSEGV = 11"
definition SIGCHLD :: int where "SIGCHLD = 17"
definition SIGPROF :: int where "SIGPROF = 27"
definition SIGCONT :: int where "SIGCONT = 18"
definition SIGSTOP :: int where "SIGSTOP = 19"
definition SIGTSTP :: int where "SIGTSTP = 20"
definition SIGTTIN :: int where "SIGTTIN = 21"
definition SIGTTOU :: int where "SIGTTOU = 22"
definition SIGURG :: int where "SIGURG = 23"
definition SIGVTALRM :: int where "SIGVTALRM = 26"
definition SIGWINCH :: int where "SIGWINCH = 28"
definition SIG_BLOCK :: int where "SIG_BLOCK = 0"
definition SIG_UNBLOCK :: int where "SIG_UNBLOCK = 1"
definition SIG_SETMASK :: int where "SIG_SETMASK = 2"
definition SA_SIGINFO :: reg where "SA_SIGINFO = 0x4"
definition SA_UNSUPPORTED :: reg where "SA_UNSUPPORTED = 0x400"
definition SA_RESTORER :: reg where "SA_RESTORER = 0x04000000"
definition SA_NODEFER :: reg where "SA_NODEFER = 0x40000000"
definition SA_RESETHAND :: reg where "SA_RESETHAND = 0x80000000"

definition KNOWN_SIGACTION_FLAGS :: reg where
  "KNOWN_SIGACTION_FLAGS = 0x1 OR 0x2 OR SA_SIGINFO OR 0x800 OR SA_RESTORER OR 0x08000000 OR 0x10000000 OR 0x20000000 OR SA_NODEFER OR SA_RESETHAND"

definition SIGNAL_FRAME_MAGIC :: reg where "SIGNAL_FRAME_MAGIC = 0x574c4c5f53494746"
definition SI_USER :: int where "SI_USER = 0"
definition SI_KERNEL :: int where "SI_KERNEL = 0x80"
definition SI_TKILL :: int where "SI_TKILL = - 6"
definition CLD_EXITED :: int where "CLD_EXITED = 1"

lemmas signal_numbers = MAX_SIGNAL_def SIGKILL_def SIGALRM_def SIGPIPE_def SIGSEGV_def SIGCHLD_def SIGPROF_def SIGCONT_def SIGSTOP_def
  SIGTSTP_def SIGTTIN_def SIGTTOU_def SIGURG_def SIGVTALRM_def SIGWINCH_def

definition valid_signal :: "int \<Rightarrow> bool" where
  "valid_signal signum \<longleftrightarrow> signum > 0 \<and> signum \<le> MAX_SIGNAL"

definition signal_bit :: "int \<Rightarrow> reg" where
  "signal_bit signum = push_bit (nat signum - 1) 1"

definition unblockable_mask :: reg where
  "unblockable_mask = signal_bit SIGKILL OR signal_bit SIGSTOP"

definition sanitize_mask :: "reg \<Rightarrow> reg" where
  "sanitize_mask m = m AND NOT unblockable_mask"

definition sanitize_flags :: "reg \<Rightarrow> reg" where
  "sanitize_flags flags = flags AND KNOWN_SIGACTION_FLAGS AND NOT SA_UNSUPPORTED"

definition cannot_catch_or_ignore :: "int \<Rightarrow> bool" where
  "cannot_catch_or_ignore signum \<longleftrightarrow> signum = SIGKILL \<or> signum = SIGSTOP"

definition default_ignored :: "int \<Rightarrow> bool" where
  "default_ignored signum \<longleftrightarrow> signum \<in> {SIGCHLD, SIGCONT, SIGURG, SIGWINCH}"

definition default_stops :: "int \<Rightarrow> bool" where
  "default_stops signum \<longleftrightarrow> signum \<in> {SIGSTOP, SIGTSTP, SIGTTIN, SIGTTOU}"

text \<open>\<open>usize::trailing_zeros\<close>, 64 for 0.\<close>

definition trailing_zeros :: "reg \<Rightarrow> nat" where
  "trailing_zeros w = length (takeWhile (\<lambda>n. \<not> bit w n) [0..<64])"

definition lowest_signal :: "reg \<Rightarrow> int" where
  "lowest_signal w = int (trailing_zeros w) + 1"

record TimeSpec =
  tv_sec :: int
  tv_nsec :: int

definition duration_us_from_timespec :: "TimeSpec \<Rightarrow> SysErrNo + usize" where
  "duration_us_from_timespec ts =
     (if tv_sec ts < 0 \<or> tv_nsec ts < 0 \<or> tv_nsec ts \<ge> 1000000000 then Inl EINVAL
      else Inr (saturating_add (saturating_mul (nat (tv_sec ts)) 1000000) ((nat (tv_nsec ts) + 999) div 1000)))"

section \<open>Actions and pending signals\<close>

record KernelSigAction =
  sa_handler :: reg
  sa_flags :: reg
  sa_restorer :: reg
  sa_mask :: reg

type_synonym SignalActions = "KernelSigAction list"

definition DEFAULT_SIGACTION :: KernelSigAction where
  "DEFAULT_SIGACTION = \<lparr>sa_handler = SIG_DFL, sa_flags = 0, sa_restorer = 0, sa_mask = 0\<rparr>"

definition signal_actions_new :: SignalActions where
  "signal_actions_new = replicate 65 DEFAULT_SIGACTION"

text \<open>Both index the table; every caller passes a valid signal number.\<close>

definition get_action :: "SignalActions \<Rightarrow> int \<Rightarrow> KernelSigAction" where
  "get_action t signum = t ! nat signum"

definition set_action :: "int \<Rightarrow> KernelSigAction \<Rightarrow> SignalActions \<Rightarrow> SignalActions" where
  "set_action signum a t = t[nat signum := a]"

text \<open>\<open>UserSigAction\<close> has the fields of \<open>KernelSigAction\<close>; \<open>user_action\<close> is the identity.\<close>

definition kernel_action :: "KernelSigAction \<Rightarrow> KernelSigAction" where
  "kernel_action a = a\<lparr>sa_flags := sanitize_flags (sa_flags a), sa_mask := sanitize_mask (sa_mask a)\<rparr>"

record PendingSignalInfo =
  pi_code :: int
  sender_pid :: int
  sender_uid :: int

definition empty_info :: PendingSignalInfo where
  "empty_info = \<lparr>pi_code = SI_USER, sender_pid = 0, sender_uid = 0\<rparr>"

definition info_from :: "int \<Rightarrow> int \<Rightarrow> PendingSignalInfo" where
  "info_from tgid code = \<lparr>pi_code = code, sender_pid = tgid, sender_uid = 0\<rparr>"

record SignalState =
  blocked :: reg
  pending :: reg
  pending_info :: "PendingSignalInfo list"
  suspend_old_mask :: "reg option"

definition signal_state_new :: SignalState where
  "signal_state_new = \<lparr>blocked = 0, pending = 0, pending_info = replicate 65 empty_info, suspend_old_mask = None\<rparr>"

definition fork_from :: "reg \<Rightarrow> SignalState" where
  "fork_from b = signal_state_new\<lparr>blocked := sanitize_mask b\<rparr>"

definition clear_bit :: "int \<Rightarrow> SignalState \<Rightarrow> SignalState" where
  "clear_bit signum st =
     st\<lparr>pending := pending st AND NOT (signal_bit signum), pending_info := (pending_info st)[nat signum := empty_info]\<rparr>"

section \<open>Tasks\<close>

record SigTask =
  sk_kernel :: bool
  sk_tgid :: nat
  sk_pgid :: nat
  sk_status :: TaskStatus
  sk_exit_code :: int
  sk_parent :: "nat option"
  sk_actions :: nat
  signal_state :: SignalState
  signal_pending_hint :: nat

datatype sig_event =
  TaskExited nat int
  | ProcessReleased nat
  | WaitStatePurged nat
  | TaskRequeued nat
  | RunnableNotified
  | ChildWaitersWoken
  | SignalWaitersWoken
  | WokenInterrupted nat

record processes =
  sig_task :: "nat \<Rightarrow> SigTask"
  tables :: "nat \<Rightarrow> SignalActions"
  group :: "nat \<Rightarrow> ThreadGroup"
  live :: "nat list"
  current :: "nat option"
  orphan_reaper :: "nat option"
  sig_events :: "sig_event list"

definition upd :: "nat \<Rightarrow> (SigTask \<Rightarrow> SigTask) \<Rightarrow> processes \<Rightarrow> processes" where
  "upd p f w = w\<lparr>sig_task := (sig_task w)(p := f (sig_task w p))\<rparr>"

definition upd_state :: "nat \<Rightarrow> (SignalState \<Rightarrow> SignalState) \<Rightarrow> processes \<Rightarrow> processes" where
  "upd_state p f = upd p (\<lambda>t. t\<lparr>signal_state := f (signal_state t)\<rparr>)"

definition emit :: "sig_event \<Rightarrow> processes \<Rightarrow> processes" where
  "emit e w = w\<lparr>sig_events := sig_events w @ [e]\<rparr>"

definition group_of :: "processes \<Rightarrow> nat \<Rightarrow> ThreadGroup" where
  "group_of w p = group w (sk_tgid (sig_task w p))"

definition upd_group :: "nat \<Rightarrow> (ThreadGroup \<Rightarrow> ThreadGroup) \<Rightarrow> processes \<Rightarrow> processes" where
  "upd_group tgid f w = w\<lparr>group := (group w)(tgid := f (group w tgid))\<rparr>"

definition state_of :: "processes \<Rightarrow> nat \<Rightarrow> SignalState" where
  "state_of w p = signal_state (sig_task w p)"

definition action_of :: "processes \<Rightarrow> nat \<Rightarrow> int \<Rightarrow> KernelSigAction" where
  "action_of w p signum = get_action (tables w (sk_actions (sig_task w p))) signum"

definition set_action_of :: "nat \<Rightarrow> int \<Rightarrow> KernelSigAction \<Rightarrow> processes \<Rightarrow> processes" where
  "set_action_of p signum a w =
     (let r = sk_actions (sig_task w p) in w\<lparr>tables := (tables w)(r := set_action signum a (tables w r))\<rparr>)"

definition user_members :: "processes \<Rightarrow> nat \<Rightarrow> nat list" where
  "user_members w p = filter (\<lambda>q. \<not> sk_kernel (sig_task w q)) (tg_members (group_of w p))"

section \<open>Selecting pending signals\<close>

definition next_unblocked_pending :: "SignalState \<Rightarrow> int option" where
  "next_unblocked_pending st =
     (let m = pending st AND NOT (blocked st) in if m = 0 then None else Some (lowest_signal m))"

definition signal_is_unblocked :: "processes \<Rightarrow> nat \<Rightarrow> int \<Rightarrow> bool" where
  "signal_is_unblocked w p signum \<longleftrightarrow> blocked (state_of w p) AND signal_bit signum = 0"

text \<open>Every change of \<open>pending\<close> is followed by the store of the hint.\<close>

definition store_hint :: "SigTask \<Rightarrow> SigTask" where
  "store_hint t = t\<lparr>signal_pending_hint := (if pending (signal_state t) \<noteq> 0 then 1 else 0)\<rparr>"

definition clear_pending_signal :: "nat \<Rightarrow> int \<Rightarrow> processes \<Rightarrow> processes" where
  "clear_pending_signal p signum = upd p (\<lambda>t. store_hint (t\<lparr>signal_state := clear_bit signum (signal_state t)\<rparr>))"

definition has_pending_in_mask :: "processes \<Rightarrow> nat \<Rightarrow> reg \<Rightarrow> bool" where
  "has_pending_in_mask w p m \<longleftrightarrow> pending (state_of w p) AND m \<noteq> 0"

definition take_pending_from_mask :: "nat \<Rightarrow> reg \<Rightarrow> processes \<Rightarrow> processes \<times> (int \<times> PendingSignalInfo) option" where
  "take_pending_from_mask p m w =
     (let st = state_of w p; sel = pending st AND m
      in if sel = 0 then (w, None)
         else (clear_pending_signal p (lowest_signal sel) w, Some (lowest_signal sel, pending_info st ! nat (lowest_signal sel))))"

text \<open>The loop over the bits of the mask, lowest first.\<close>

lemma trailing_zeros_bit:
  assumes "w \<noteq> 0"
  shows "trailing_zeros w < 64" "bit w (trailing_zeros w)" "n < trailing_zeros w \<Longrightarrow> \<not> bit w n"
proof -
  have "\<exists>k. bit w k" using assms by (metis bit_eqI bit_0_eq bot_apply bot_bool_def)
  then obtain k where b: "bit w k" by blast
  then have k: "bit w k" "k < 64" using bit_imp_le_length [OF b] by simp_all
  let ?P = "\<lambda>n. \<not> bit w n"
  have ne: "takeWhile ?P [0..<64] \<noteq> [0..<64]" using k by (metis atLeastLessThan_iff set_upt takeWhile_eq_all_conv zero_le)
  then have "length (takeWhile ?P [0..<64]) \<noteq> 64" by (metis diff_zero length_upt takeWhile_eq_take take_all_iff order_refl)
  then show lt: "trailing_zeros w < 64"
    unfolding trailing_zeros_def using length_takeWhile_le [of ?P "[0..<64]"] by simp
  show "bit w (trailing_zeros w)"
    using nth_length_takeWhile [of ?P "[0..<64]"] lt by (simp add: trailing_zeros_def)
  show "n < trailing_zeros w \<Longrightarrow> \<not> bit w n"
    using nth_mem [of n "takeWhile ?P [0..<64]"] set_takeWhileD takeWhile_nth [of n ?P "[0..<64]"] lt
    by (metis (mono_tags, lifting) add_0 less_trans nth_upt trailing_zeros_def)
qed

lemma and_not_less: "bit w n \<Longrightarrow> unat (w AND NOT (2 ^ n)) < unat (w :: reg)"
proof -
  assume b: "bit w n"
  have "w AND NOT (2 ^ n) \<le> w" by (simp add: word_and_le2)
  moreover have "w AND NOT (2 ^ n) \<noteq> w"
  proof
    assume "w AND NOT (2 ^ n) = w"
    then have "bit (w AND NOT (2 ^ n)) n" using b by simp
    then show False using bit_imp_le_length [OF b] by (simp add: bit_and_iff bit_not_iff bit_exp_iff)
  qed
  ultimately have "w AND NOT (2 ^ n) < w" by (rule order.not_eq_order_implies_strict [rotated])
  then show ?thesis by (simp only: word_less_nat_alt)
qed

lemma signal_bit_lowest: "signal_bit (lowest_signal w) = 2 ^ trailing_zeros w"
  by (simp add: signal_bit_def lowest_signal_def nat_add_distrib)

function deliverable_scan :: "SignalActions \<Rightarrow> reg \<Rightarrow> bool" where
  "deliverable_scan t m =
     (if m = 0 then False
      else (let signum = lowest_signal m; h = sa_handler (get_action t signum)
            in if h > SIG_IGN \<or> h = SIG_DFL \<and> \<not> default_ignored signum then True
               else deliverable_scan t (m AND NOT (signal_bit signum))))"
  by auto
termination
  by (relation "measure (\<lambda>(t, m). unat m)") (simp_all add: signal_bit_lowest and_not_less trailing_zeros_bit)

declare deliverable_scan.simps [simp del]

definition has_deliverable_pending :: "processes \<Rightarrow> nat \<Rightarrow> bool" where
  "has_deliverable_pending w p =
     deliverable_scan (tables w (sk_actions (sig_task w p))) (pending (state_of w p) AND NOT (blocked (state_of w p)))"

section \<open>Marking a signal pending\<close>

definition wake_for_signal :: "nat \<Rightarrow> processes \<Rightarrow> processes" where
  "wake_for_signal p w =
     (if sk_status (sig_task w p) = Stopped then w
      else if has_deliverable_pending w p then emit (WokenInterrupted p) w else w)"

definition mark_pending :: "nat \<Rightarrow> int \<Rightarrow> PendingSignalInfo \<Rightarrow> processes \<Rightarrow> processes" where
  "mark_pending p signum info w =
     wake_for_signal p (emit SignalWaitersWoken
       (upd p (\<lambda>t. t\<lparr>signal_state := (signal_state t)\<lparr>pending := pending (signal_state t) OR signal_bit signum,
                                                      pending_info := (pending_info (signal_state t))[nat signum := info]\<rparr>,
                     signal_pending_hint := 1\<rparr>) w))"

text \<open>
  \<open>notify_child_exit\<close> queues \<open>SIGCHLD\<close>, which by default neither stops nor ends a process, so it is only marked pending
  (lemma \<open>queue_signal_SIGCHLD\<close> below).
\<close>

definition notify_child_exit :: "nat \<Rightarrow> processes \<Rightarrow> processes" where
  "notify_child_exit child w =
     (case sk_parent (sig_task w child) of
        None \<Rightarrow> w
      | Some q \<Rightarrow>
          if sk_kernel (sig_task w q) \<or> sk_status (sig_task w q) = Zombie then w
          else mark_pending q SIGCHLD \<lparr>pi_code = CLD_EXITED, sender_pid = int (sk_tgid (sig_task w child)), sender_uid = 0\<rparr> w)"

section \<open>Exit, stop and continue\<close>

definition finish_task_exit :: "int \<Rightarrow> nat \<Rightarrow> processes \<Rightarrow> processes" where
  "finish_task_exit code p w =
     emit (TaskExited p code) (upd p (\<lambda>t. t\<lparr>sk_exit_code := code, sk_status := Zombie\<rparr>) (emit (WaitStatePurged p) w))"

definition request_task_exit :: "int \<Rightarrow> nat \<Rightarrow> processes \<Rightarrow> processes" where
  "request_task_exit code p w =
     (if sk_status (sig_task w p) = Zombie then w
      else emit (TaskExited p code) (emit (WaitStatePurged p) (upd p (\<lambda>t. t\<lparr>sk_exit_code := code, sk_status := Zombie\<rparr>) w)))"

definition exit_member :: "int \<Rightarrow> nat \<Rightarrow> processes \<Rightarrow> processes" where
  "exit_member code p w = (if current w = Some p then finish_task_exit code p w else request_task_exit code p w)"

text \<open>The children of every member go to the reaper, if there is one.\<close>

definition adopt_orphans :: "nat list \<Rightarrow> processes \<Rightarrow> processes" where
  "adopt_orphans members w =
     w\<lparr>sig_task := (\<lambda>q. if (\<exists>m \<in> set members. sk_parent (sig_task w q) = Some m)
                        then (sig_task w q)\<lparr>sk_parent := orphan_reaper w\<rparr> else sig_task w q)\<rparr>"

definition finish_process_exit :: "nat \<Rightarrow> int \<Rightarrow> processes \<Rightarrow> processes" where
  "finish_process_exit p code w =
     (case mark_process_zombie code (group_of w p) of
        (_, False) \<Rightarrow> w
      | (g, True) \<Rightarrow>
          (let w1 = emit (ProcessReleased p) (upd_group (sk_tgid (sig_task w p)) (\<lambda>_. g) w);
               w2 = notify_child_exit p w1
           in emit ChildWaitersWoken (adopt_orphans (user_members w1 p) w2)))"

definition terminate_task_group :: "nat \<Rightarrow> int \<Rightarrow> processes \<Rightarrow> processes" where
  "terminate_task_group p code w =
     (if sk_kernel (sig_task w p) then w
      else finish_process_exit p code (emit RunnableNotified (fold (exit_member code) (user_members w p) w)))"

definition all_user_members_zombie :: "processes \<Rightarrow> nat \<Rightarrow> bool" where
  "all_user_members_zombie w p \<longleftrightarrow>
     user_members w p \<noteq> [] \<and> (\<forall>q \<in> set (user_members w p). sk_status (sig_task w q) = Zombie)"

definition exit_current :: "nat \<Rightarrow> int \<Rightarrow> processes \<Rightarrow> processes" where
  "exit_current p code w =
     (if sk_kernel (sig_task w p) then upd p (\<lambda>t. t\<lparr>sk_exit_code := code, sk_status := Zombie\<rparr>) w
      else (let w1 = finish_task_exit code p w
            in (if all_user_members_zombie w1 p then finish_process_exit p code w1 else w1)\<lparr>current := None\<rparr>))"

definition stop_member :: "nat \<Rightarrow> processes \<Rightarrow> processes" where
  "stop_member p w =
     (if sk_status (sig_task w p) = Zombie then w
      else upd p (\<lambda>t. t\<lparr>sk_status := Stopped\<rparr>) (emit (WaitStatePurged p) w))"

definition stop_task_group :: "nat \<Rightarrow> int \<Rightarrow> processes \<Rightarrow> processes" where
  "stop_task_group p signum w =
     (if sk_kernel (sig_task w p) \<or> process_zombie (group_of w p) then w
      else emit ChildWaitersWoken (fold stop_member (user_members w p) (upd_group (sk_tgid (sig_task w p)) (mark_stopped signum) w)))"

definition continue_member :: "nat \<Rightarrow> processes \<Rightarrow> processes" where
  "continue_member p w =
     (if sk_status (sig_task w p) = Stopped then emit (TaskRequeued p) (upd p (\<lambda>t. t\<lparr>sk_status := Ready\<rparr>) w) else w)"

definition continue_task_group :: "nat \<Rightarrow> int \<Rightarrow> processes \<Rightarrow> processes" where
  "continue_task_group p signum w =
     (if sk_kernel (sig_task w p) \<or> process_zombie (group_of w p) then w
      else (case mark_continued signum (group_of w p) of
              (g, was_stopped) \<Rightarrow>
                (let w1 = upd_group (sk_tgid (sig_task w p)) (\<lambda>_. g) w
                 in if \<not> was_stopped then w1 else emit ChildWaitersWoken (fold continue_member (user_members w1 p) w1))))"

section \<open>Sending\<close>

definition queue_signal :: "nat \<Rightarrow> int \<Rightarrow> PendingSignalInfo \<Rightarrow> processes \<Rightarrow> processes" where
  "queue_signal p signum info w0 =
     (let w = (if signum = SIGCONT then continue_task_group p SIGCONT w0 else w0);
          h = sa_handler (action_of w p signum)
      in if h = SIG_DFL \<and> default_stops signum \<and> (signum = SIGSTOP \<or> signal_is_unblocked w p signum)
         then stop_task_group p signum w
         else if h = SIG_DFL \<and> \<not> default_ignored signum \<and> signal_is_unblocked w p signum
         then terminate_task_group p (signal_exit_code signum) w
         else if signum = SIGCONT \<and> h = SIG_DFL then w
         else mark_pending p signum info w)"

lemma queue_signal_SIGCHLD: "queue_signal p SIGCHLD info w = mark_pending p SIGCHLD info w"
  by (simp add: queue_signal_def signal_numbers default_stops_def default_ignored_def)

definition first_some :: "('a \<Rightarrow> bool) \<Rightarrow> 'a list \<Rightarrow> 'a option \<Rightarrow> 'a option" where
  "first_some P xs y = (case find P xs of None \<Rightarrow> y | Some x \<Rightarrow> Some x)"

definition receiver :: "processes \<Rightarrow> nat list \<Rightarrow> int \<Rightarrow> nat option" where
  "receiver w targets signum =
     first_some (\<lambda>q. sk_status (sig_task w q) \<noteq> Zombie \<and> signal_is_unblocked w q signum) targets
       (first_some (\<lambda>q. sk_status (sig_task w q) \<noteq> Zombie) targets
         (case targets of [] \<Rightarrow> None | q # _ \<Rightarrow> Some q))"

definition deliver_to_process :: "nat list \<Rightarrow> int \<Rightarrow> PendingSignalInfo \<Rightarrow> processes \<Rightarrow> processes" where
  "deliver_to_process targets signum info w =
     (case receiver w targets signum of None \<Rightarrow> w | Some q \<Rightarrow> queue_signal q signum info w)"

text \<open>The identifiers of thread groups do not change while signals are sent, so the list is grouped by those at the start.\<close>

fun deliver_loop :: "nat list \<Rightarrow> int \<Rightarrow> PendingSignalInfo \<Rightarrow> nat list \<Rightarrow> nat list \<Rightarrow> processes \<Rightarrow> processes" where
  "deliver_loop targets signum info [] delivered w = w"
| "deliver_loop targets signum info (q # qs) delivered w =
     (let tgid = sk_tgid (sig_task w q)
      in if tgid \<in> set delivered then deliver_loop targets signum info qs delivered w
         else deliver_loop targets signum info qs (delivered @ [tgid])
                (deliver_to_process (filter (\<lambda>m. sk_tgid (sig_task w m) = tgid) targets) signum info w))"

definition deliver_to_processes :: "nat list \<Rightarrow> int \<Rightarrow> PendingSignalInfo \<Rightarrow> processes \<Rightarrow> processes" where
  "deliver_to_processes targets signum info w = deliver_loop targets signum info targets [] w"

definition find_thread_group :: "processes \<Rightarrow> nat \<Rightarrow> nat list" where
  "find_thread_group w tgid = filter (\<lambda>q. sk_tgid (sig_task w q) = tgid \<and> \<not> sk_kernel (sig_task w q)) (live w)"

definition find_process_group :: "processes \<Rightarrow> nat \<Rightarrow> nat list" where
  "find_process_group w pgid = filter (\<lambda>q. \<not> sk_kernel (sig_task w q) \<and> sk_pgid (sig_task w q) = pgid) (live w)"

definition all_user_tasks :: "processes \<Rightarrow> nat list" where
  "all_user_tasks w = filter (\<lambda>q. \<not> sk_kernel (sig_task w q)) (live w)"

definition kill_targets :: "processes \<Rightarrow> nat \<Rightarrow> int \<Rightarrow> nat list" where
  "kill_targets w cur pid =
     (if pid > 0 then find_thread_group w (nat pid)
      else if pid = 0 then find_process_group w (sk_pgid (sig_task w cur))
      else if pid = - 1 then all_user_tasks w
      else find_process_group w (nat (- pid)))"

text \<open>\<open>seen\<close> is \<open>was_thread_group_seen\<close>.\<close>

definition sys_kill :: "(nat \<Rightarrow> bool) \<Rightarrow> nat \<Rightarrow> int \<Rightarrow> int \<Rightarrow> processes \<Rightarrow> processes \<times> (SysErrNo + nat)" where
  "sys_kill seen cur pid signum w =
     (if signum \<noteq> 0 \<and> \<not> valid_signal signum then (w, Inl EINVAL)
      else (let targets = kill_targets w cur pid
            in if targets = [] then (w, if pid > 0 \<and> seen (nat pid) then Inr 0 else Inl ESRCH)
               else if signum = 0 then (w, Inr 0)
               else (deliver_to_processes targets signum (info_from (int (sk_tgid (sig_task w cur))) SI_USER) w, Inr 0)))"

definition sys_tkill :: "nat \<Rightarrow> int \<Rightarrow> int \<Rightarrow> processes \<Rightarrow> processes \<times> (SysErrNo + nat)" where
  "sys_tkill cur tid signum w =
     (if tid \<le> 0 then (w, Inl EINVAL)
      else if signum \<noteq> 0 \<and> \<not> valid_signal signum then (w, Inl EINVAL)
      else if nat tid \<notin> set (live w) then (w, Inl ESRCH)
      else if sk_kernel (sig_task w (nat tid)) then (w, Inl ESRCH)
      else (if signum \<noteq> 0 then queue_signal (nat tid) signum (info_from (int (sk_tgid (sig_task w cur))) SI_TKILL) w else w, Inr 0))"

definition sys_tgkill :: "nat \<Rightarrow> int \<Rightarrow> int \<Rightarrow> int \<Rightarrow> processes \<Rightarrow> processes \<times> (SysErrNo + nat)" where
  "sys_tgkill cur tgid tid signum w =
     (if tgid \<le> 0 \<or> tid \<le> 0 then (w, Inl EINVAL)
      else if signum \<noteq> 0 \<and> \<not> valid_signal signum then (w, Inl EINVAL)
      else if nat tid \<notin> set (live w) then (w, Inl ESRCH)
      else if sk_kernel (sig_task w (nat tid)) \<or> sk_tgid (sig_task w (nat tid)) \<noteq> nat tgid then (w, Inl ESRCH)
      else (if signum \<noteq> 0 then queue_signal (nat tid) signum (info_from (int (sk_tgid (sig_task w cur))) SI_TKILL) w else w, Inr 0))"

definition send_sigpipe_to_current :: "processes \<Rightarrow> processes" where
  "send_sigpipe_to_current w =
     (case current w of None \<Rightarrow> w | Some p \<Rightarrow> queue_signal p SIGPIPE (info_from (int (sk_tgid (sig_task w p))) SI_USER) w)"

definition send_interval_timer_signal :: "nat \<Rightarrow> nat \<Rightarrow> processes \<Rightarrow> processes" where
  "send_interval_timer_signal p which w =
     (let sender = (case current w of None \<Rightarrow> 0 | Some q \<Rightarrow> int (sk_tgid (sig_task w q)))
      in if which = 0 then queue_signal p SIGALRM (info_from sender SI_USER) w
         else if which = 1 then queue_signal p SIGVTALRM (info_from sender SI_USER) w
         else if which = 2 then queue_signal p SIGPROF (info_from sender SI_USER) w
         else w)"

section \<open>System calls on masks and actions\<close>

text \<open>
  A pointer argument is \<^const>\<open>None\<close> when null, and otherwise what the copy through it gives. The second component is what the call wrote
  through its last pointer.
\<close>

definition sys_sigaction ::
  "nat \<Rightarrow> int \<Rightarrow> (SysErrNo + KernelSigAction) option \<Rightarrow> (SysErrNo + unit) option \<Rightarrow> nat \<Rightarrow> processes
     \<Rightarrow> processes \<times> KernelSigAction option \<times> (SysErrNo + nat)" where
  "sys_sigaction p signum act oldact sigset_size w =
     (if \<not> valid_signal signum \<or> cannot_catch_or_ignore signum then (w, None, Inl EINVAL)
      else if sigset_size \<noteq> KERNEL_SIGSET_SIZE then (w, None, Inl EINVAL)
      else (case act of
              Some (Inl e) \<Rightarrow> (w, None, Inl e)
            | _ \<Rightarrow>
                (case oldact of
                   Some (Inl e) \<Rightarrow> (w, None, Inl e)
                 | _ \<Rightarrow>
                     (case act of Some (Inr a) \<Rightarrow> set_action_of p signum (kernel_action a) w | _ \<Rightarrow> w,
                      if oldact = None then None else Some (action_of w p signum),
                      Inr 0))))"

definition new_blocked :: "int \<Rightarrow> reg \<Rightarrow> reg \<Rightarrow> reg option" where
  "new_blocked how b m =
     (if how = SIG_BLOCK then Some (sanitize_mask (b OR m))
      else if how = SIG_UNBLOCK then Some (sanitize_mask (b AND NOT m))
      else if how = SIG_SETMASK then Some (sanitize_mask m)
      else None)"

definition sys_sigprocmask ::
  "nat \<Rightarrow> int \<Rightarrow> (SysErrNo + reg) option \<Rightarrow> (SysErrNo + unit) option \<Rightarrow> nat \<Rightarrow> processes
     \<Rightarrow> processes \<times> reg option \<times> (SysErrNo + nat)" where
  "sys_sigprocmask p how uset oldset sigset_size w =
     (if sigset_size \<noteq> KERNEL_SIGSET_SIZE then (w, None, Inl EINVAL)
      else (case uset of
              Some (Inl e) \<Rightarrow> (w, None, Inl e)
            | _ \<Rightarrow>
                (let old = blocked (state_of w p)
                 in case oldset of
                      Some (Inl e) \<Rightarrow> (w, None, Inl e)
                    | _ \<Rightarrow>
                        (let written = (if oldset = None then None else Some old)
                         in case uset of
                              Some (Inr m) \<Rightarrow>
                                (case new_blocked how old m of
                                   None \<Rightarrow> (w, written, Inl EINVAL)
                                 | Some b \<Rightarrow> (upd_state p (\<lambda>st. st\<lparr>blocked := b\<rparr>) w, written, Inr 0))
                            | _ \<Rightarrow> (w, written, Inr 0)))))"

text \<open>
  The waiting calls are split at their sleeps: one turn either returns or goes to sleep (\<^const>\<open>None\<close>), and the result of the sleep decides whether another
  turn follows.
\<close>

definition sys_sigtimedwait_args ::
  "(SysErrNo + reg) option \<Rightarrow> (SysErrNo + TimeSpec) option \<Rightarrow> nat \<Rightarrow> SysErrNo + reg \<times> usize option" where
  "sys_sigtimedwait_args uset timeout sigset_size =
     (case uset of
        None \<Rightarrow> Inl EFAULT
      | Some r \<Rightarrow>
          if sigset_size \<noteq> KERNEL_SIGSET_SIZE then Inl EINVAL
          else (case r of
                  Inl e \<Rightarrow> Inl e
                | Inr m \<Rightarrow>
                    (case timeout of
                       None \<Rightarrow> Inr (sanitize_mask m, None)
                     | Some (Inl e) \<Rightarrow> Inl e
                     | Some (Inr ts) \<Rightarrow>
                         (case duration_us_from_timespec ts of Inl e \<Rightarrow> Inl e | Inr d \<Rightarrow> Inr (sanitize_mask m, Some d)))))"

definition sigtimedwait_turn ::
  "nat \<Rightarrow> reg \<Rightarrow> (SysErrNo + unit) option \<Rightarrow> processes \<Rightarrow> processes \<times> (SysErrNo + int \<times> PendingSignalInfo) option" where
  "sigtimedwait_turn p m info w =
     (case take_pending_from_mask p m w of
        (w1, None) \<Rightarrow> (w1, None)
      | (w1, Some (signum, i)) \<Rightarrow> (w1, Some (case info of Some (Inl e) \<Rightarrow> Inl e | _ \<Rightarrow> Inr (signum, i))))"

fun sigtimedwait_woken :: "SysErrNo + WaitOutcome \<Rightarrow> SysErrNo option" where
  "sigtimedwait_woken (Inr TimedOut) = Some EAGAIN"
| "sigtimedwait_woken (Inr _) = None"
| "sigtimedwait_woken (Inl e) = Some e"

definition sigsuspend_begin :: "nat \<Rightarrow> reg \<Rightarrow> processes \<Rightarrow> processes" where
  "sigsuspend_begin p m = upd_state p (\<lambda>st. st\<lparr>suspend_old_mask := Some (blocked st), blocked := sanitize_mask m\<rparr>)"

definition sys_sigsuspend :: "nat \<Rightarrow> (SysErrNo + reg) option \<Rightarrow> nat \<Rightarrow> processes \<Rightarrow> processes \<times> SysErrNo option" where
  "sys_sigsuspend p uset sigset_size w =
     (case uset of
        None \<Rightarrow> (w, Some EFAULT)
      | Some r \<Rightarrow>
          if sigset_size \<noteq> KERNEL_SIGSET_SIZE then (w, Some EINVAL)
          else (case r of
                  Inl e \<Rightarrow> (w, Some e)
                | Inr m \<Rightarrow> (let w1 = sigsuspend_begin p m w in (w1, if has_deliverable_pending w1 p then Some EINTR else None))))"

definition sigsuspend_woken :: "nat \<Rightarrow> SysErrNo + WaitOutcome \<Rightarrow> processes \<Rightarrow> processes \<times> SysErrNo option" where
  "sigsuspend_woken p r w =
     (case r of
        Inr _ \<Rightarrow> (w, if has_deliverable_pending w p then Some EINTR else None)
      | Inl e \<Rightarrow>
          if e = EINTR then (w, Some EINTR)
          else (upd_state p (\<lambda>st. case suspend_old_mask st of None \<Rightarrow> st | Some b \<Rightarrow> st\<lparr>suspend_old_mask := None, blocked := b\<rparr>) w, Some e))"

fun reset_loop :: "nat \<Rightarrow> SignalActions \<Rightarrow> SignalActions" where
  "reset_loop 0 t = t"
| "reset_loop (Suc n) t =
     (let t' = reset_loop n t
      in if sa_handler (get_action t' (int (Suc n))) > SIG_IGN then set_action (int (Suc n)) DEFAULT_SIGACTION t' else t')"

definition reset_signal_handlers_for_exec :: "nat \<Rightarrow> processes \<Rightarrow> processes" where
  "reset_signal_handlers_for_exec p w =
     (let r = sk_actions (sig_task w p) in w\<lparr>tables := (tables w)(r := reset_loop 64 (tables w r))\<rparr>)"

text \<open>The part of \<open>clone\<close> that concerns signals: the child's table is the parent's own or a copy at a fresh place.\<close>

definition clone_signals :: "nat \<Rightarrow> nat \<Rightarrow> bool \<Rightarrow> nat \<Rightarrow> nat \<Rightarrow> processes \<Rightarrow> processes" where
  "clone_signals parent child is_thread sighand fresh w =
     (let t = sig_task w parent;
          tgid = (if is_thread then sk_tgid t else child);
          r = (if sighand \<noteq> 0 then sk_actions t else fresh);
          c = \<lparr>sk_kernel = False, sk_tgid = tgid, sk_pgid = sk_pgid t, sk_status = Ready, sk_exit_code = 0,
               sk_parent = (if is_thread then sk_parent t else Some parent), sk_actions = r,
               signal_state = fork_from (blocked (signal_state t)), signal_pending_hint = 0\<rparr>
      in w\<lparr>sig_task := (sig_task w)(child := c),
           tables := (if sighand \<noteq> 0 then tables w else (tables w)(fresh := tables w (sk_actions t))),
           group := (group w)(tgid := add_member child (if is_thread then group w tgid else thread_group_new)),
           live := live w @ [child]\<rparr>)"

section \<open>Frames\<close>

record TrapFrame =
  tf_x :: "reg list"
  tf_sstatus :: reg
  tf_sepc :: reg
  tf_fsx :: "reg list"
  tf_f :: "reg list"
  tf_fcsr :: reg

record UserSigInfo =
  si_signo :: int
  si_errno :: int
  si_code :: int
  si_pid :: int
  si_uid :: int

record UserMContext =
  gregs :: "reg list"
  fpregs :: "reg list"

record ArchSignalExtra =
  ax_sstatus :: reg
  ax_fsx :: "reg list"

text \<open>\<open>uc_flags\<close>, \<open>uc_link\<close> and \<open>uc_stack\<close> are always zero.\<close>

record UserUContext =
  uc_sigmask :: "reg list"
  uc_mcontext :: UserMContext

record SignalFrame =
  magic :: reg
  frame_size :: reg
  signo :: int
  old_mask :: reg
  siginfo :: UserSigInfo
  ucontext :: UserUContext
  arch_extra :: ArchSignalExtra

text \<open>
  \<open>size_of\<close> and \<open>offset_of\<close> for the \<open>repr(C)\<close> layout: 32 bytes of header, 128 of \<open>siginfo\<close>, 960 of \<open>ucontext\<close> aligned to 16, 24 of
  \<open>arch_extra\<close>, padded to 1152.
\<close>

definition SIGNAL_FRAME_SIZE :: reg where "SIGNAL_FRAME_SIZE = 1152"
definition OFFSET_SIGINFO :: reg where "OFFSET_SIGINFO = 32"
definition OFFSET_UCONTEXT :: reg where "OFFSET_UCONTEXT = 160"
definition USER_STACK_TOP :: reg where "USER_STACK_TOP = 0x7ffff000"

definition user_siginfo :: "int \<Rightarrow> PendingSignalInfo \<Rightarrow> UserSigInfo" where
  "user_siginfo signum i = \<lparr>si_signo = signum, si_errno = 0, si_code = pi_code i, si_pid = sender_pid i, si_uid = sender_uid i\<rparr>"

definition sigset_from_kernel :: "reg \<Rightarrow> reg list" where
  "sigset_from_kernel m = (replicate 16 0)[0 := m]"

definition to_kernel_mask :: "reg list \<Rightarrow> reg" where
  "to_kernel_mask bits = bits ! 0"

definition user_mcontext_from_trapframe :: "TrapFrame \<Rightarrow> UserMContext" where
  "user_mcontext_from_trapframe tf =
     \<lparr>gregs = (tf_x tf)[0 := tf_sepc tf], fpregs = (tf_f tf @ replicate 34 0)[32 := tf_fcsr tf]\<rparr>"

definition arch_extra_from_trapframe :: "TrapFrame \<Rightarrow> ArchSignalExtra" where
  "arch_extra_from_trapframe tf = \<lparr>ax_sstatus = tf_sstatus tf, ax_fsx = tf_fsx tf\<rparr>"

definition user_ucontext_from_trapframe :: "TrapFrame \<Rightarrow> reg \<Rightarrow> UserUContext" where
  "user_ucontext_from_trapframe tf m = \<lparr>uc_sigmask = sigset_from_kernel m, uc_mcontext = user_mcontext_from_trapframe tf\<rparr>"

definition restore_trapframe :: "UserMContext \<Rightarrow> ArchSignalExtra \<Rightarrow> TrapFrame \<Rightarrow> TrapFrame" where
  "restore_trapframe saved extra tf =
     tf\<lparr>tf_x := (gregs saved)[0 := 0], tf_sstatus := ax_sstatus extra, tf_sepc := gregs saved ! 0, tf_fsx := ax_fsx extra,
        tf_f := take 32 (fpregs saved), tf_fcsr := fpregs saved ! 32\<rparr>"

record user_memory =
  frame_at :: "reg \<Rightarrow> SignalFrame option"
  writable_at :: "reg \<Rightarrow> bool"

definition copy_frame_to_user :: "reg \<Rightarrow> SignalFrame \<Rightarrow> user_memory \<Rightarrow> SysErrNo + user_memory" where
  "copy_frame_to_user a f m = (if writable_at m a then Inr (m\<lparr>frame_at := (frame_at m)(a := Some f)\<rparr>) else Inl EFAULT)"

definition copy_frame_from_user :: "reg \<Rightarrow> user_memory \<Rightarrow> SysErrNo + SignalFrame" where
  "copy_frame_from_user a m = (case frame_at m a of None \<Rightarrow> Inl EFAULT | Some f \<Rightarrow> Inr f)"

definition make_frame :: "TrapFrame \<Rightarrow> int \<Rightarrow> reg \<Rightarrow> PendingSignalInfo \<Rightarrow> SignalFrame" where
  "make_frame ctx signum msk info =
     \<lparr>magic = SIGNAL_FRAME_MAGIC, frame_size = SIGNAL_FRAME_SIZE, signo = signum, old_mask = msk, siginfo = user_siginfo signum info,
      ucontext = user_ucontext_from_trapframe ctx msk, arch_extra = arch_extra_from_trapframe ctx\<rparr>"

definition setup_signal_frame ::
  "TrapFrame \<Rightarrow> int \<Rightarrow> KernelSigAction \<Rightarrow> reg \<Rightarrow> PendingSignalInfo \<Rightarrow> user_memory \<Rightarrow> SysErrNo + TrapFrame \<times> user_memory" where
  "setup_signal_frame ctx signum action msk info m =
     (if tf_x ctx ! 2 < SIGNAL_FRAME_SIZE then Inl EFAULT
      else (let frame_addr = (tf_x ctx ! 2 - SIGNAL_FRAME_SIZE) AND NOT 0xf
            in case copy_frame_to_user frame_addr (make_frame ctx signum msk info) m of
                 Inl e \<Rightarrow> Inl e
               | Inr m' \<Rightarrow>
                   (let ra = (if sa_flags action AND SA_RESTORER \<noteq> 0 \<and> sa_restorer action \<noteq> 0 then sa_restorer action else USER_STACK_TOP);
                        a1 = (if sa_flags action AND SA_SIGINFO \<noteq> 0 then frame_addr + OFFSET_SIGINFO else 0)
                    in Inr (ctx\<lparr>tf_sepc := sa_handler action,
                               tf_x := (tf_x ctx)[2 := frame_addr, 1 := ra, 10 := of_int signum, 11 := a1, 12 := frame_addr + OFFSET_UCONTEXT]\<rparr>, m'))))"

section \<open>Delivery on the way to user mode\<close>

definition enter_handler :: "nat \<Rightarrow> int \<Rightarrow> KernelSigAction \<Rightarrow> processes \<Rightarrow> processes \<times> reg \<times> PendingSignalInfo" where
  "enter_handler p signum action w =
     (let st = state_of w p;
          old = (case suspend_old_mask st of None \<Rightarrow> blocked st | Some b \<Rightarrow> b);
          info = pending_info st ! nat signum;
          b = (if sa_flags action AND SA_NODEFER = 0 then old OR sa_mask action OR signal_bit signum else old OR sa_mask action)
      in (upd p (\<lambda>t. store_hint (t\<lparr>signal_state := (clear_bit signum (signal_state t))\<lparr>suspend_old_mask := None, blocked := sanitize_mask b\<rparr>\<rparr>)) w,
          old, info))"

lemma clear_pending_less:
  assumes "next_unblocked_pending (state_of w p) = Some signum"
  shows "unat (pending (state_of (clear_pending_signal p signum w) p)) < unat (pending (state_of w p))"
proof -
  let ?m = "pending (state_of w p) AND NOT (blocked (state_of w p))"
  have m: "?m \<noteq> 0" "signum = lowest_signal ?m" using assms by (auto simp: next_unblocked_pending_def Let_def split: if_splits)
  have "bit (pending (state_of w p)) (trailing_zeros ?m)" using trailing_zeros_bit(2) [OF m(1)] by (simp add: bit_and_iff)
  then show ?thesis using and_not_less m(2)
    by (simp add: state_of_def clear_pending_signal_def upd_def store_hint_def clear_bit_def signal_bit_lowest)
qed

text \<open>The result says whether the task goes on to user mode.\<close>

function pending_loop :: "nat \<Rightarrow> TrapFrame \<Rightarrow> user_memory \<Rightarrow> processes \<Rightarrow> processes \<times> TrapFrame \<times> user_memory \<times> bool" where
  "pending_loop p ctx m w =
     (case next_unblocked_pending (state_of w p) of
        None \<Rightarrow> (w, ctx, m, True)
      | Some signum \<Rightarrow>
          (let action = action_of w p signum; h = sa_handler action
           in if h = SIG_IGN \<or> h = SIG_DFL \<and> default_ignored signum then pending_loop p ctx m (clear_pending_signal p signum w)
              else if h = SIG_DFL \<and> default_stops signum then (stop_task_group p signum (clear_pending_signal p signum w), ctx, m, False)
              else if h = SIG_DFL then (terminate_task_group p (signal_exit_code signum) (clear_pending_signal p signum w), ctx, m, False)
              else (case enter_handler p signum action w of
                      (w1, old, info) \<Rightarrow>
                        (let w2 = (if sa_flags action AND SA_RESETHAND \<noteq> 0 \<and> \<not> cannot_catch_or_ignore signum
                                   then set_action_of p signum DEFAULT_SIGACTION w1 else w1)
                         in case setup_signal_frame ctx signum action old info m of
                              Inl e \<Rightarrow> (terminate_task_group p (signal_exit_code SIGSEGV) w2, ctx, m, False)
                            | Inr (ctx', m') \<Rightarrow> (w2, ctx', m', True)))))"
  by auto
termination
  by (relation "measure (\<lambda>(p, ctx, m, w). unat (pending (state_of w p)))") (simp_all add: clear_pending_less)

declare pending_loop.simps [simp del]

definition handle_pending_for_task :: "nat \<Rightarrow> TrapFrame \<Rightarrow> user_memory \<Rightarrow> processes \<Rightarrow> processes \<times> TrapFrame \<times> user_memory \<times> bool" where
  "handle_pending_for_task p ctx m w =
     (if sk_kernel (sig_task w p) then (w, ctx, m, False)
      else if signal_pending_hint (sig_task w p) = 0 then (w, ctx, m, True)
      else if sk_status (sig_task w p) = Zombie then (w, ctx, m, False)
      else pending_loop p ctx m w)"

definition handle_pending_for_user :: "TrapFrame \<Rightarrow> user_memory \<Rightarrow> processes \<Rightarrow> processes \<times> TrapFrame \<times> user_memory \<times> bool" where
  "handle_pending_for_user ctx m w =
     (case current w of
        None \<Rightarrow> (w, ctx, m, True)
      | Some p \<Rightarrow> if sk_status (sig_task w p) = Zombie then (w, ctx, m, False) else handle_pending_for_task p ctx m w)"

definition handle_synchronous_fault_for_user ::
  "int \<Rightarrow> TrapFrame \<Rightarrow> user_memory \<Rightarrow> processes \<Rightarrow> processes \<times> TrapFrame \<times> user_memory \<times> bool" where
  "handle_synchronous_fault_for_user signum ctx m w =
     (case current w of
        None \<Rightarrow> (w, ctx, m, False)
      | Some p \<Rightarrow>
          if sk_kernel (sig_task w p) \<or> sk_status (sig_task w p) = Zombie \<or> \<not> valid_signal signum then (w, ctx, m, False)
          else if sa_handler (action_of w p signum) = SIG_IGN \<or> \<not> signal_is_unblocked w p signum
          then (terminate_task_group p (signal_exit_code signum) w, ctx, m, False)
          else handle_pending_for_user ctx m (queue_signal p signum \<lparr>pi_code = SI_KERNEL, sender_pid = 0, sender_uid = 0\<rparr> w))"

definition sys_sigreturn :: "nat \<Rightarrow> TrapFrame \<Rightarrow> user_memory \<Rightarrow> processes \<Rightarrow> processes \<times> TrapFrame \<times> (SysErrNo + unit)" where
  "sys_sigreturn p ctx m w =
     (case copy_frame_from_user (tf_x ctx ! 2) m of
        Inl e \<Rightarrow> (w, ctx, Inl e)
      | Inr f \<Rightarrow>
          if magic f \<noteq> SIGNAL_FRAME_MAGIC \<or> frame_size f \<noteq> SIGNAL_FRAME_SIZE then (w, ctx, Inl EINVAL)
          else (upd_state p (\<lambda>st. st\<lparr>blocked := sanitize_mask (to_kernel_mask (uc_sigmask (ucontext f)))\<rparr>) w,
                restore_trapframe (uc_mcontext (ucontext f)) (arch_extra f) ctx, Inr ()))"

text \<open>\<open>handle_syscall\<close>: after a successful \<open>sigreturn\<close> neither the result register nor the program counter is touched.\<close>

definition sigreturn_trap :: "nat \<Rightarrow> TrapFrame \<Rightarrow> user_memory \<Rightarrow> processes \<Rightarrow> processes \<times> TrapFrame" where
  "sigreturn_trap p ctx m w =
     (case sys_sigreturn p ctx m w of
        (w', ctx', Inr _) \<Rightarrow> (w', ctx')
      | (w', ctx', Inl e) \<Rightarrow> (w', ctx'\<lparr>tf_x := (tf_x ctx')[10 := as_ret e], tf_sepc := tf_sepc ctx' + 4\<rparr>))"

definition prepare_user_trapframe :: "TrapFrame \<Rightarrow> TrapFrame" where
  "prepare_user_trapframe tf =
     tf\<lparr>tf_sstatus := (tf_sstatus tf AND NOT (push_bit 8 1 OR push_bit 1 1)) OR push_bit 5 1 OR push_bit 13 3\<rparr>"

end
