(* ===== verification/Signal_Safety.thy ===== *)
theory Signal_Safety
  imports Signal
begin

unbundle bit_operations_syntax

text \<open>
  The invariant of signal state, masks and handler tables over every sequence of calls; that \<open>SIGKILL\<close> ends whom it is sent to; which
  signal is delivered; that a handler's return restores what it interrupted and never leaves user mode; and a mask that \<open>sigsuspend\<close> leaves behind.
\<close>

named_theorems sig_ok_rules "operations keep the invariant of signals"

section \<open>Bits of masks\<close>

lemma bit_signal_bit: "bit (signal_bit signum) n \<longleftrightarrow> n = nat signum - 1 \<and> n < 64"
  by (auto simp: signal_bit_def bit_exp_iff)

lemma bit_unblockable: "bit unblockable_mask n \<longleftrightarrow> n = 8 \<or> n = 18"
  by (auto simp: unblockable_mask_def bit_or_iff bit_signal_bit signal_numbers)

lemma clean_iff: "m AND unblockable_mask = 0 \<longleftrightarrow> \<not> bit m 8 \<and> \<not> bit m 18"
proof -
  have "m AND unblockable_mask = 0 \<longleftrightarrow> (\<forall>n < 64. bit m n \<longrightarrow> n \<noteq> 8 \<and> n \<noteq> 18)"
    unfolding bit_eq_iff [of "m AND unblockable_mask" 0] bit_and_iff bit_unblockable by auto
  also have "\<dots> \<longleftrightarrow> \<not> bit m 8 \<and> \<not> bit m 18" by (auto dest: spec [of _ 8] spec [of _ 18])
  finally show ?thesis .
qed

lemma clean_sanitize [simp]: "sanitize_mask m AND unblockable_mask = 0"
  by (simp add: clean_iff sanitize_mask_def bit_and_iff bit_not_iff bit_unblockable)

lemma sanitize_clean: "m AND unblockable_mask = 0 \<Longrightarrow> sanitize_mask m = m"
  unfolding clean_iff by (intro bit_eqI) (auto simp: sanitize_mask_def bit_and_iff bit_not_iff bit_unblockable)

lemma sanitize_flags_idem [simp]: "sanitize_flags (sanitize_flags f) = sanitize_flags f"
  by (intro bit_eqI) (auto simp: sanitize_flags_def bit_and_iff)

lemma lowest_signal_valid: "m \<noteq> 0 \<Longrightarrow> valid_signal (lowest_signal m)"
  using trailing_zeros_bit(1) [of m] by (simp add: valid_signal_def lowest_signal_def MAX_SIGNAL_def)

section \<open>Wait status\<close>

lemma wait_status_signal: "1 \<le> s \<Longrightarrow> s \<le> 64 \<Longrightarrow> wait_status_from_exit_code (signal_exit_code s) = s"
  by (simp add: wait_status_from_exit_code_def signal_exit_code_def SIGNAL_EXIT_CODE_BASE_def)

lemma wait_status_exit: "0 \<le> code \<Longrightarrow> wait_status_from_exit_code code = (code mod 256) * 256"
  by (simp add: wait_status_from_exit_code_def SIGNAL_EXIT_CODE_BASE_def)

text \<open>An exit code that the program chose is taken for a death by signal.\<close>

lemma exit_forges_signal: "wait_status_from_exit_code (- 4105) = SIGKILL"
  by (simp add: wait_status_from_exit_code_def SIGNAL_EXIT_CODE_BASE_def SIGKILL_def)

section \<open>The invariant\<close>

definition state_ok :: "SignalState \<Rightarrow> bool" where
  "state_ok st \<longleftrightarrow>
     blocked st AND unblockable_mask = 0 \<and> (\<forall>b. suspend_old_mask st = Some b \<longrightarrow> b AND unblockable_mask = 0)
     \<and> length (pending_info st) = 65 \<and> (\<forall>n < 64. \<not> bit (pending st) n \<longrightarrow> pending_info st ! Suc n = empty_info)"

definition task_ok :: "SigTask \<Rightarrow> bool" where
  "task_ok t \<longleftrightarrow> state_ok (signal_state t) \<and> signal_pending_hint t = (if pending (signal_state t) = 0 then 0 else 1)"

definition table_ok :: "SignalActions \<Rightarrow> bool" where
  "table_ok t \<longleftrightarrow>
     length t = 65 \<and> sa_handler (get_action t SIGKILL) = SIG_DFL \<and> sa_handler (get_action t SIGSTOP) = SIG_DFL
     \<and> (\<forall>a \<in> set t. sa_mask a AND unblockable_mask = 0 \<and> sanitize_flags (sa_flags a) = sa_flags a)"

definition signals_ok :: "processes \<Rightarrow> bool" where
  "signals_ok w \<longleftrightarrow> (\<forall>p. task_ok (sig_task w p)) \<and> (\<forall>r. table_ok (tables w r))"

definition members_ok :: "processes \<Rightarrow> bool" where
  "members_ok w \<longleftrightarrow> (\<forall>q \<in> set (live w). q \<in> set (tg_members (group_of w q)))"

lemma state_ok_new: "state_ok signal_state_new"
  by (simp add: state_ok_def signal_state_new_def nth_Cons')

lemma state_ok_fork: "state_ok (fork_from b)"
  using state_ok_new by (simp add: state_ok_def fork_from_def signal_state_new_def)

lemma state_ok_clear: "state_ok st \<Longrightarrow> valid_signal signum \<Longrightarrow> state_ok (clear_bit signum st)"
  by (auto simp: state_ok_def clear_bit_def bit_and_iff bit_not_iff bit_signal_bit nth_list_update valid_signal_def MAX_SIGNAL_def)

lemma pending_fork [simp]: "pending (fork_from b) = 0"
  by (simp add: fork_from_def signal_state_new_def)

lemma table_ok_new: "table_ok signal_actions_new"
  by (simp add: table_ok_def signal_actions_new_def get_action_def signal_numbers DEFAULT_SIGACTION_def sanitize_flags_def nth_Cons')

lemma get_set_action: "length t = 65 \<Longrightarrow> valid_signal i \<Longrightarrow> valid_signal j \<Longrightarrow>
    get_action (set_action i a t) j = (if i = j then a else get_action t j)"
  by (auto simp: get_action_def set_action_def nth_list_update valid_signal_def MAX_SIGNAL_def)

lemma table_ok_set:
  assumes "table_ok t" and "valid_signal signum" and "cannot_catch_or_ignore signum \<Longrightarrow> sa_handler a = SIG_DFL"
    and "sa_mask a AND unblockable_mask = 0" and "sanitize_flags (sa_flags a) = sa_flags a"
  shows "table_ok (set_action signum a t)"
proof -
  have v: "valid_signal SIGKILL" "valid_signal SIGSTOP" by (simp_all add: valid_signal_def signal_numbers)
  have l: "length t = 65" using assms(1) by (simp add: table_ok_def)
  have "set (set_action signum a t) \<subseteq> insert a (set t)" by (simp add: set_action_def set_update_subset_insert)
  moreover have "length (set_action signum a t) = 65" using l by (simp add: set_action_def)
  ultimately show ?thesis using assms
    unfolding table_ok_def get_set_action [OF l assms(2) v(1)] get_set_action [OF l assms(2) v(2)]
    by (auto simp: cannot_catch_or_ignore_def)
qed

lemma clean_default [simp]: "sa_mask DEFAULT_SIGACTION AND unblockable_mask = 0"
  "sanitize_flags (sa_flags DEFAULT_SIGACTION) = sa_flags DEFAULT_SIGACTION" "sa_handler DEFAULT_SIGACTION = SIG_DFL"
  by (simp_all add: DEFAULT_SIGACTION_def sanitize_flags_def)

section \<open>What every operation keeps\<close>

text \<open>
  The operations are built from a few updates. A property of the whole state that these updates keep is kept by every operation; the laws ask the update
  of a task to leave it in its group, not to revive it, and to keep its signal state well formed.
\<close>

definition same_place :: "SigTask \<Rightarrow> SigTask \<Rightarrow> bool" where
  "same_place t t' \<longleftrightarrow> sk_tgid t' = sk_tgid t \<and> sk_kernel t' = sk_kernel t \<and> (sk_status t = Zombie \<longrightarrow> sk_status t' = Zombie)"

lemma task_ok_clear: "task_ok t \<Longrightarrow> valid_signal signum \<Longrightarrow> task_ok (store_hint (t\<lparr>signal_state := clear_bit signum (signal_state t)\<rparr>))"
  by (auto simp: task_ok_def store_hint_def state_ok_clear)

lemma next_valid: "next_unblocked_pending st = Some signum \<Longrightarrow> valid_signal signum"
  by (auto simp: next_unblocked_pending_def Let_def intro: lowest_signal_valid split: if_splits)

lemma reset_loop_ok: "table_ok t \<Longrightarrow> n \<le> 64 \<Longrightarrow> table_ok (reset_loop n t)"
  by (induction n) (auto simp: Let_def valid_signal_def MAX_SIGNAL_def intro!: table_ok_set)

lemma same_place_state [simp]: "same_place t (store_hint (t\<lparr>signal_state := st\<rparr>))"
  by (simp add: same_place_def store_hint_def)

lemma emit_fields [simp]:
  "sig_task (emit e w) = sig_task w" "tables (emit e w) = tables w" "group (emit e w) = group w" "live (emit e w) = live w"
  "current (emit e w) = current w"
  by (simp_all add: emit_def)

lemma mark_stopped_members [simp]: "tg_members (mark_stopped signum g) = tg_members g"
  by (simp add: mark_stopped_def)

lemma mark_continued_members: "mark_continued signum g = (g', b) \<Longrightarrow> tg_members g' = tg_members g"
  by (auto simp: mark_continued_def Let_def)

lemma mark_process_zombie_members: "mark_process_zombie code g = (g', b) \<Longrightarrow> tg_members g' = tg_members g"
  by (auto simp: mark_process_zombie_def split: if_splits)

locale signal_closed =
  fixes I :: "processes \<Rightarrow> bool"
  assumes emit [simp]: "I (emit e w) = I w"
    and current: "I w \<Longrightarrow> I (w\<lparr>current := c\<rparr>)"
    and group: "tg_members (f (group w i)) = tg_members (group w i) \<Longrightarrow> I w \<Longrightarrow> I (upd_group i f w)"
    and task: "I w \<Longrightarrow> same_place (sig_task w p) (h (sig_task w p)) \<Longrightarrow> (task_ok (sig_task w p) \<Longrightarrow> task_ok (h (sig_task w p))) \<Longrightarrow> I (upd p h w)"
    and adopt: "I w \<Longrightarrow> I (adopt_orphans ms w)"
    and table: "I w \<Longrightarrow> (table_ok (tables w r) \<Longrightarrow> table_ok t) \<Longrightarrow> I (w\<lparr>tables := (tables w)(r := t)\<rparr>)"
begin

lemma closed_fold: "I w \<Longrightarrow> (\<And>x v. I v \<Longrightarrow> I (f x v)) \<Longrightarrow> I (fold f xs w)"
  by (induction xs arbitrary: w) auto

lemma closed_clear: "I w \<Longrightarrow> valid_signal signum \<Longrightarrow> I (clear_pending_signal p signum w)"
  unfolding clear_pending_signal_def by (rule task) (auto intro: task_ok_clear)

lemma closed_mark:
  assumes "I w" and v: "valid_signal signum"
  shows "I (mark_pending p signum info w)"
proof -
  have n: "nat signum - 1 < 64" "Suc (nat signum - 1) = nat signum" using v by (auto simp: valid_signal_def MAX_SIGNAL_def)
  have "pending st OR signal_bit signum \<noteq> 0" for st
  proof
    assume "pending st OR signal_bit signum = 0"
    then have "\<not> bit (pending st OR signal_bit signum) (nat signum - 1)" by simp
    then show False using n by (simp add: bit_or_iff bit_signal_bit)
  qed
  moreover have "state_ok (st\<lparr>pending := pending st OR signal_bit signum, pending_info := (pending_info st)[nat signum := info]\<rparr>)" if "state_ok st" for st
    using that n by (auto simp: state_ok_def bit_or_iff bit_signal_bit nth_list_update)
  ultimately have "I (upd p (\<lambda>t. t\<lparr>signal_state := (signal_state t)\<lparr>pending := pending (signal_state t) OR signal_bit signum,
      pending_info := (pending_info (signal_state t))[nat signum := info]\<rparr>, signal_pending_hint := 1\<rparr>) w)"
    by (intro task [OF assms(1)]) (auto simp: task_ok_def same_place_def)
  then show ?thesis by (auto simp: mark_pending_def wake_for_signal_def)
qed

lemma closed_notify [simp]: "I w \<Longrightarrow> I (notify_child_exit p w)"
  by (auto simp: notify_child_exit_def valid_signal_def signal_numbers intro!: closed_mark split: option.split)

lemma closed_status:
  assumes "I w" and "sk_status (sig_task w p) = Zombie \<Longrightarrow> st = Zombie"
  shows "I (upd p (\<lambda>t. t\<lparr>sk_status := st\<rparr>) w)" "I (upd p (\<lambda>t. t\<lparr>sk_exit_code := c, sk_status := st\<rparr>) w)"
  using assms by (auto simp: task_ok_def same_place_def intro!: task)

lemma closed_exit [simp]:
  "I w \<Longrightarrow> I (finish_task_exit code p w)" "I w \<Longrightarrow> I (request_task_exit code p w)"
  "I w \<Longrightarrow> I (stop_member p w)" "I w \<Longrightarrow> I (continue_member p w)"
  by (auto simp: finish_task_exit_def request_task_exit_def stop_member_def continue_member_def intro!: closed_status)

lemma closed_process_exit [simp]: "I w \<Longrightarrow> I (finish_process_exit p code w)"
  using mark_process_zombie_members
  by (auto simp: finish_process_exit_def group_of_def Let_def intro!: adopt closed_notify group split: prod.split bool.split)

lemma closed_terminate [simp]: "I w \<Longrightarrow> I (terminate_task_group p code w)"
  by (auto simp: terminate_task_group_def exit_member_def intro!: closed_process_exit closed_fold)

lemma closed_stop [simp]: "I w \<Longrightarrow> I (stop_task_group p signum w)"
  by (auto simp: stop_task_group_def intro!: closed_fold group)

lemma closed_continue [simp]: "I w \<Longrightarrow> I (continue_task_group p signum w)"
  using mark_continued_members by (auto simp: continue_task_group_def group_of_def Let_def intro!: closed_fold group split: prod.split)

lemma closed_queue: "I w \<Longrightarrow> valid_signal signum \<Longrightarrow> I (queue_signal p signum info w)"
  by (auto simp: queue_signal_def Let_def intro: closed_mark)

lemma closed_deliver: "I w \<Longrightarrow> valid_signal signum \<Longrightarrow> I (deliver_to_process targets signum info w)"
  by (auto simp: deliver_to_process_def intro: closed_queue split: option.split)

lemma closed_deliver_loop: "I w \<Longrightarrow> valid_signal signum \<Longrightarrow> I (deliver_loop targets signum info qs delivered w)"
  by (induction qs arbitrary: delivered w) (auto simp: Let_def intro: closed_deliver)

lemma closed_kill: "I w \<Longrightarrow> I (fst (sys_kill seen cur pid signum w))"
  by (auto simp: sys_kill_def Let_def deliver_to_processes_def intro: closed_deliver_loop)

lemma closed_tkill: "I w \<Longrightarrow> I (fst (sys_tkill cur tid signum w))"
  "I w \<Longrightarrow> I (fst (sys_tgkill cur tgid tid signum w))"
  by (auto simp: sys_tkill_def sys_tgkill_def intro: closed_queue)

lemma closed_set_action:
  assumes "I w" and "valid_signal signum" and "cannot_catch_or_ignore signum \<Longrightarrow> sa_handler a = SIG_DFL"
    and "sa_mask a AND unblockable_mask = 0" and "sanitize_flags (sa_flags a) = sa_flags a"
  shows "I (set_action_of p signum a w)"
  unfolding set_action_of_def Let_def using assms by (intro table table_ok_set) auto

lemma closed_sigaction: "I w \<Longrightarrow> I (fst (sys_sigaction p signum act oldact sz w))"
  by (auto simp: sys_sigaction_def kernel_action_def intro!: closed_set_action split: option.split sum.split)

lemma closed_upd_state:
  assumes "I w" and "\<And>st. state_ok st \<Longrightarrow> state_ok (f st)" and "\<And>st. pending (f st) = pending st"
  shows "I (upd_state p f w)"
  unfolding upd_state_def by (rule task [OF assms(1)]) (simp_all add: task_ok_def same_place_def assms(2,3))

lemma closed_sigprocmask: "I w \<Longrightarrow> I (fst (sys_sigprocmask p how uset oldset sz w))"
  by (auto simp: sys_sigprocmask_def Let_def new_blocked_def state_ok_def intro!: closed_upd_state split: option.split sum.split)

lemma closed_sigsuspend:
  "I w \<Longrightarrow> I (fst (sys_sigsuspend p uset sz w))" "I w \<Longrightarrow> I (fst (sigsuspend_woken p r w))"
  by (auto simp: sys_sigsuspend_def sigsuspend_begin_def sigsuspend_woken_def Let_def state_ok_def
      intro!: closed_upd_state split: option.split sum.split)

lemma closed_take: "I w \<Longrightarrow> I (fst (take_pending_from_mask p m w))"
  by (auto simp: take_pending_from_mask_def Let_def intro!: closed_clear lowest_signal_valid)

lemma closed_timedwait: "I w \<Longrightarrow> I (fst (sigtimedwait_turn p m info w))"
  using closed_take [of w p m] by (auto simp: sigtimedwait_turn_def split: prod.split option.split)

lemma closed_exec: "I w \<Longrightarrow> I (reset_signal_handlers_for_exec p w)"
  unfolding reset_signal_handlers_for_exec_def Let_def by (intro table reset_loop_ok) auto

lemma closed_sigreturn: "I w \<Longrightarrow> I (fst (sys_sigreturn p ctx m w))"
  by (auto simp: sys_sigreturn_def state_ok_def intro!: closed_upd_state split: sum.split)

lemma closed_enter:
  assumes ok: "I w" and v: "valid_signal signum" and e: "enter_handler p signum action w = (w1, old, info)"
  shows "I w1"
proof -
  have "state_ok (st\<lparr>suspend_old_mask := None, blocked := sanitize_mask b\<rparr>)" if "state_ok st" for st b
    using that by (simp add: state_ok_def)
  then have "task_ok (store_hint (t\<lparr>signal_state := (clear_bit signum (signal_state t))\<lparr>suspend_old_mask := None, blocked := sanitize_mask b\<rparr>\<rparr>))"
    if "task_ok t" for t b
    using that v by (auto simp: task_ok_def store_hint_def state_ok_clear)
  then show ?thesis using e ok by (auto simp: enter_handler_def Let_def same_place_def store_hint_def intro!: task)
qed

lemma closed_pending: "I w \<Longrightarrow> I (fst (pending_loop p ctx m w))"
proof (induction p ctx m w rule: pending_loop.induct)
  case (1 p ctx m w)
  show ?case
  proof (cases "next_unblocked_pending (state_of w p)")
    case None
    then show ?thesis using 1 by (simp add: pending_loop.simps)
  next
    case (Some signum)
    note v = next_valid [OF Some]
    obtain w1 old info where e: "enter_handler p signum (action_of w p signum) w = (w1, old, info)" by (metis prod_cases3)
    have w1: "I w1" by (rule closed_enter [OF 1(2) v e])
    then have w2: "I (set_action_of p signum DEFAULT_SIGACTION w1)" using v by (auto intro!: closed_set_action)
    have c: "I (clear_pending_signal p signum w)" by (rule closed_clear [OF 1(2) v])
    show ?thesis
      using 1(1) [OF Some refl refl] c w1 w2 e
      by (subst pending_loop.simps) (simp add: Some Let_def closed_terminate closed_stop split: sum.split)
  qed
qed

lemma closed_handle:
  "I w \<Longrightarrow> I (fst (handle_pending_for_task p ctx m w))" "I w \<Longrightarrow> I (fst (handle_pending_for_user ctx m w))"
  by (auto simp: handle_pending_for_task_def handle_pending_for_user_def closed_pending split: option.split)

lemma closed_fault: "I w \<Longrightarrow> I (fst (handle_synchronous_fault_for_user signum ctx m w))"
  by (auto simp: handle_synchronous_fault_for_user_def intro!: closed_handle closed_queue split: option.split)

lemma closed_exit_current: "I w \<Longrightarrow> I (exit_current p code w)"
  by (auto simp: exit_current_def Let_def intro!: closed_status current)

end

interpretation sig: signal_closed signals_ok
  by unfold_locales (auto simp: signals_ok_def emit_def upd_group_def upd_def adopt_orphans_def task_ok_def)

lemma sig_ok_clone: "signals_ok w \<Longrightarrow> signals_ok (clone_signals parent child is_thread sighand fresh w)"
  by (auto simp: clone_signals_def Let_def signals_ok_def task_ok_def state_ok_fork)

section \<open>Nobody changes group and no zombie revives\<close>

definition evolves :: "processes \<Rightarrow> processes \<Rightarrow> bool" where
  "evolves w0 w \<longleftrightarrow>
     live w = live w0 \<and> (\<forall>p. same_place (sig_task w0 p) (sig_task w p)) \<and> (\<forall>g. tg_members (group w g) = tg_members (group w0 g))"

interpretation ev: signal_closed "evolves w0" for w0
  by unfold_locales (auto simp: evolves_def upd_group_def upd_def adopt_orphans_def same_place_def)

lemma evolves_refl [simp]: "evolves w w"
  by (simp add: evolves_def same_place_def)

lemma evolves_members: "evolves w0 w \<Longrightarrow> members_ok w0 \<Longrightarrow> members_ok w"
  by (auto simp: evolves_def members_ok_def group_of_def same_place_def)

section \<open>Runs\<close>

text \<open>
  One call or one turn of a waiting call. Frames and memory are arbitrary arguments: between two traps the program may have changed
  all of its registers and memory. \<open>Clone\<close> needs a fresh identifier, which the allocator of process identifiers guarantees.
\<close>

datatype sig_call =
  Sigaction nat int "(SysErrNo + KernelSigAction) option" "(SysErrNo + unit) option" nat
  | Sigprocmask nat int "(SysErrNo + reg) option" "(SysErrNo + unit) option" nat
  | Sigsuspend nat "(SysErrNo + reg) option" nat
  | SuspendWoken nat "SysErrNo + WaitOutcome"
  | Timedwait nat reg "(SysErrNo + unit) option"
  | Kill "nat \<Rightarrow> bool" nat int int
  | Tkill nat int int
  | Tgkill nat int int int
  | Sigpipe
  | IntervalTimer nat nat
  | HandlePending nat TrapFrame user_memory
  | SyncFault int TrapFrame user_memory
  | Sigreturn nat TrapFrame user_memory
  | Exec nat
  | ExitCurrent nat int
  | Clone nat nat bool nat nat
  | Dispatch "nat option"

fun sig_do :: "sig_call \<Rightarrow> processes \<Rightarrow> processes" where
  "sig_do (Sigaction p signum act oldact sz) w = fst (sys_sigaction p signum act oldact sz w)"
| "sig_do (Sigprocmask p how uset oldset sz) w = fst (sys_sigprocmask p how uset oldset sz w)"
| "sig_do (Sigsuspend p uset sz) w = fst (sys_sigsuspend p uset sz w)"
| "sig_do (SuspendWoken p r) w = fst (sigsuspend_woken p r w)"
| "sig_do (Timedwait p m info) w = fst (sigtimedwait_turn p m info w)"
| "sig_do (Kill seen cur pid signum) w = fst (sys_kill seen cur pid signum w)"
| "sig_do (Tkill cur tid signum) w = fst (sys_tkill cur tid signum w)"
| "sig_do (Tgkill cur tgid tid signum) w = fst (sys_tgkill cur tgid tid signum w)"
| "sig_do Sigpipe w = send_sigpipe_to_current w"
| "sig_do (IntervalTimer p which) w = send_interval_timer_signal p which w"
| "sig_do (HandlePending p ctx m) w = fst (handle_pending_for_task p ctx m w)"
| "sig_do (SyncFault signum ctx m) w = fst (handle_synchronous_fault_for_user signum ctx m w)"
| "sig_do (Sigreturn p ctx m) w = fst (sys_sigreturn p ctx m w)"
| "sig_do (Exec p) w = reset_signal_handlers_for_exec p w"
| "sig_do (ExitCurrent p code) w = exit_current p code w"
| "sig_do (Clone parent child is_thread sighand fresh) w =
     (if child \<notin> set (live w) \<and> (\<forall>q \<in> set (live w). sk_tgid (sig_task w q) \<noteq> child)
      then clone_signals parent child is_thread sighand fresh w else w)"
| "sig_do (Dispatch c) w = w\<lparr>current := c\<rparr>"

definition boot :: "processes \<Rightarrow> bool" where
  "boot w \<longleftrightarrow>
     (\<forall>p. signal_state (sig_task w p) = signal_state_new \<and> signal_pending_hint (sig_task w p) = 0)
     \<and> (\<forall>r. tables w r = signal_actions_new) \<and> members_ok w"

fun clones :: "sig_call \<Rightarrow> bool" where
  "clones (Clone _ _ _ _ _) = True"
| "clones _ = False"

context signal_closed
begin

lemma closed_do:
  assumes "I w" and "\<not> clones call"
  shows "I (sig_do call w)"
  using assms
  by (cases call)
    (auto simp: closed_sigaction closed_sigprocmask closed_sigsuspend closed_timedwait closed_kill closed_tkill closed_handle closed_fault
      closed_sigreturn closed_exec closed_exit_current current send_sigpipe_to_current_def send_interval_timer_signal_def Let_def
      valid_signal_def signal_numbers intro!: closed_queue split: option.split)

end

lemma clone_members:
  assumes "members_ok w" and "child \<notin> set (live w)" and "\<forall>q \<in> set (live w). sk_tgid (sig_task w q) \<noteq> child"
  shows "members_ok (clone_signals parent child is_thread sighand fresh w)"
  using assms by (auto simp: members_ok_def clone_signals_def Let_def group_of_def add_member_def)

lemma do_ok:
  assumes "signals_ok w" and "members_ok w"
  shows "signals_ok (sig_do call w) \<and> members_ok (sig_do call w)"
proof (cases "clones call")
  case True
  then show ?thesis using assms by (cases call) (auto intro: sig_ok_clone clone_members)
next
  case False
  have "evolves w (sig_do call w)" using ev.closed_do [OF evolves_refl False] .
  then show ?thesis using sig.closed_do [OF assms(1) False] evolves_members assms(2) by blast
qed

lemma run_ok: "signals_ok w \<Longrightarrow> members_ok w \<Longrightarrow> signals_ok (fold sig_do calls w) \<and> members_ok (fold sig_do calls w)"
  by (induction calls arbitrary: w) (simp_all add: do_ok)

lemma boot_ok: "boot w \<Longrightarrow> signals_ok w \<and> members_ok w"
  by (auto simp: boot_def signals_ok_def task_ok_def state_ok_new table_ok_new) (simp add: signal_state_new_def)

text \<open>
  C24. After any sequence of signal calls, deliveries, faults, exits and clones from boot on, with arbitrary user registers and memory in between:
  no task blocks \<open>SIGKILL\<close> or \<open>SIGSTOP\<close>, not even in the mask \<open>sigsuspend\<close> saved, no table has a handler for them, the tables and the records of
  pending signals have their full length and hold sanitised masks and flags, a signal that is not pending leaves no sender information behind,
  and the hint that lets the fast path skip delivery is set exactly when something is pending.
\<close>

theorem signal_state_well_formed:
  assumes "boot w"
  shows "signals_ok (fold sig_do calls w)"
  using run_ok [of w calls] boot_ok [OF assms] by blast

section \<open>SIGKILL\<close>

lemma zombie_stays: "evolves w w' \<Longrightarrow> sk_status (sig_task w p) = Zombie \<Longrightarrow> sk_status (sig_task w' p) = Zombie"
  by (auto simp: evolves_def same_place_def)

lemma evolves_trans: "evolves u v \<Longrightarrow> evolves v w \<Longrightarrow> evolves u w"
  by (auto simp: evolves_def same_place_def)

lemma exit_member_evolves: "evolves w (exit_member code p w)"
  using ev.closed_exit(1,2) [of w w] by (simp add: exit_member_def)

lemma exit_member_zombie: "sk_status (sig_task (exit_member code p w) p) = Zombie"
  by (simp add: exit_member_def finish_task_exit_def request_task_exit_def upd_def)

lemma exit_members: "q \<in> set qs \<Longrightarrow> sk_status (sig_task (fold (exit_member code) qs w) q) = Zombie"
proof (induction qs arbitrary: w)
  case (Cons x qs)
  have "evolves (exit_member code x w) (fold (exit_member code) qs (exit_member code x w))"
    by (rule ev.closed_fold) (auto intro: evolves_trans exit_member_evolves)
  then show ?case using Cons zombie_stays [OF _ exit_member_zombie] by auto
qed simp

lemma terminate_group:
  assumes "\<not> sk_kernel (sig_task w p)" and "q \<in> set (user_members w p)"
  shows "sk_status (sig_task (terminate_task_group p code w) q) = Zombie"
  using assms exit_members [OF assms(2), of code w]
    zombie_stays [OF ev.closed_process_exit [OF evolves_refl], of "emit RunnableNotified (fold (exit_member code) (user_members w p) w)" q p code]
  by (simp add: terminate_task_group_def)

lemma queue_SIGKILL:
  assumes "signals_ok w"
  shows "queue_signal p SIGKILL info w = terminate_task_group p (signal_exit_code SIGKILL) w"
proof -
  have "table_ok (tables w (sk_actions (sig_task w p)))" and b: "\<not> bit (blocked (state_of w p)) 8"
    using assms by (auto simp: signals_ok_def task_ok_def state_ok_def clean_iff state_of_def)
  then have h: "sa_handler (action_of w p SIGKILL) = SIG_DFL" by (simp add: table_ok_def action_of_def)
  have "blocked (state_of w p) AND signal_bit SIGKILL = 0"
    by (rule bit_eqI) (use b in \<open>auto simp: bit_and_iff bit_signal_bit SIGKILL_def\<close>)
  then show ?thesis using h by (simp add: queue_signal_def Let_def default_stops_def default_ignored_def signal_is_unblocked_def signal_numbers)
qed

lemma receiver_mem: "targets \<noteq> [] \<Longrightarrow> \<exists>q \<in> set targets. receiver w targets signum = Some q"
  by (auto simp: receiver_def first_some_def neq_Nil_conv dest!: find_SomeD split: option.split)

lemma deliver_SIGKILL:
  assumes ok: "signals_ok w" "members_ok w" and ts: "ts \<noteq> []" and user: "\<forall>q \<in> set ts. q \<in> set (live w) \<and> \<not> sk_kernel (sig_task w q) \<and> sk_tgid (sig_task w q) = g"
    and q: "q \<in> set ts"
  shows "sk_status (sig_task (deliver_to_process ts SIGKILL info w) q) = Zombie"
proof -
  obtain r where r: "r \<in> set ts" "receiver w ts SIGKILL = Some r" using receiver_mem [OF ts] by blast
  have "q \<in> set (user_members w r)" using q r(1) user ok(2) by (auto simp: user_members_def members_ok_def group_of_def)
  then show ?thesis using terminate_group [of w r q] r user queue_SIGKILL [OF ok(1)] by (simp add: deliver_to_process_def)
qed

lemma kill_loop:
  assumes "signals_ok w" and "members_ok w" and "set qs \<subseteq> set targets"
    and "\<forall>q \<in> set targets. q \<in> set (live w) \<and> \<not> sk_kernel (sig_task w q)"
    and "\<forall>q \<in> set targets. sk_tgid (sig_task w q) \<in> set delivered \<longrightarrow> sk_status (sig_task w q) = Zombie"
    and "q \<in> set targets" and "q \<in> set qs \<or> sk_tgid (sig_task w q) \<in> set delivered"
  shows "sk_status (sig_task (deliver_loop targets SIGKILL info qs delivered w) q) = Zombie"
  using assms
proof (induction qs arbitrary: delivered w)
  case (Cons x qs)
  let ?g = "sk_tgid (sig_task w x)" and ?ts = "filter (\<lambda>m. sk_tgid (sig_task w m) = sk_tgid (sig_task w x)) targets"
  have v: "valid_signal SIGKILL" by (simp add: valid_signal_def signal_numbers)
  let ?w = "deliver_to_process ?ts SIGKILL info w"
  show ?case
  proof (cases "?g \<in> set delivered")
    case True
    then show ?thesis using Cons by (auto simp: Let_def)
  next
    case False
    have ev: "evolves w ?w" by (rule ev.closed_deliver [OF evolves_refl v])
    have z: "sk_status (sig_task ?w y) = Zombie" if "y \<in> set ?ts" for y
    proof (rule deliver_SIGKILL [OF Cons.prems(1,2) _ _ that])
      show "?ts \<noteq> []" using that by (metis list.set(1) empty_iff)
      show "\<forall>y \<in> set ?ts. y \<in> set (live w) \<and> \<not> sk_kernel (sig_task w y) \<and> sk_tgid (sig_task w y) = ?g" using Cons.prems(4) by simp
    qed
    have tg: "sk_tgid (sig_task ?w y) = sk_tgid (sig_task w y)" "sk_kernel (sig_task ?w y) = sk_kernel (sig_task w y)" for y
      using ev by (simp_all add: evolves_def same_place_def)
    have "sk_status (sig_task (deliver_loop targets SIGKILL info qs (delivered @ [?g]) ?w) q) = Zombie"
    proof (rule Cons.IH)
      show "signals_ok ?w" by (rule sig.closed_deliver [OF Cons.prems(1) v])
      show "members_ok ?w" by (rule evolves_members [OF ev Cons.prems(2)])
      show "\<forall>y \<in> set targets. y \<in> set (live ?w) \<and> \<not> sk_kernel (sig_task ?w y)" using Cons.prems(4) tg ev by (simp add: evolves_def)
      show "\<forall>y \<in> set targets. sk_tgid (sig_task ?w y) \<in> set (delivered @ [?g]) \<longrightarrow> sk_status (sig_task ?w y) = Zombie"
        using Cons.prems(5) tg z zombie_stays [OF ev] by auto
      show "q \<in> set qs \<or> sk_tgid (sig_task ?w q) \<in> set (delivered @ [?g])" using Cons.prems(7) tg by auto
    qed (use Cons.prems in auto)
    then show ?thesis using False by (simp add: Let_def)
  qed
qed auto

text \<open>
  C6. \<open>kill\<close> with \<open>SIGKILL\<close> succeeds when it has a target, and afterwards every target is a zombie: every thread of the process, every process of the group,
  or all processes, as the first argument says. Nothing that tasks did before, with masks, handlers, \<open>sigsuspend\<close> or \<open>sigreturn\<close> on forged frames, prevents it.
\<close>

theorem sigkill_ends_targets:
  assumes "boot w0" and "w = fold sig_do calls w0" and "kill_targets w cur pid \<noteq> []" and "q \<in> set (kill_targets w cur pid)"
  shows "snd (sys_kill seen cur pid SIGKILL w) = Inr 0 \<and> sk_status (sig_task (fst (sys_kill seen cur pid SIGKILL w)) q) = Zombie"
proof -
  have v: "valid_signal SIGKILL" "SIGKILL \<noteq> 0" by (simp_all add: valid_signal_def signal_numbers)
  have ok: "signals_ok w" "members_ok w" using run_ok boot_ok [OF assms(1)] assms(2) by blast+
  have "\<forall>q \<in> set (kill_targets w cur pid). q \<in> set (live w) \<and> \<not> sk_kernel (sig_task w q)"
    by (auto simp: kill_targets_def find_thread_group_def find_process_group_def all_user_tasks_def)
  from kill_loop [OF ok order_refl this _ assms(4), of "[]" "info_from (int (sk_tgid (sig_task w cur))) SI_USER"] assms(4)
  have "sk_status (sig_task (deliver_to_processes (kill_targets w cur pid) SIGKILL (info_from (int (sk_tgid (sig_task w cur))) SI_USER) w) q) = Zombie"
    by (simp add: deliver_to_processes_def)
  then show ?thesis using v assms(3) by (simp add: sys_kill_def Let_def)
qed

section \<open>Which signal is delivered, and how\<close>

definition ignored :: "KernelSigAction \<Rightarrow> int \<Rightarrow> bool" where
  "ignored a signum \<longleftrightarrow> sa_handler a = SIG_IGN \<or> sa_handler a = SIG_DFL \<and> default_ignored signum"

definition deliverable :: "processes \<Rightarrow> nat \<Rightarrow> int \<Rightarrow> bool" where
  "deliverable w p signum \<longleftrightarrow>
     valid_signal signum \<and> bit (pending (state_of w p)) (nat signum - 1) \<and> \<not> bit (blocked (state_of w p)) (nat signum - 1)
     \<and> \<not> ignored (action_of w p signum) signum"

lemma above_ignore: "SIG_IGN < h \<longleftrightarrow> h \<noteq> SIG_DFL \<and> h \<noteq> SIG_IGN"
proof -
  have "(1 :: reg) < h \<longleftrightarrow> \<not> h < 1 \<and> h \<noteq> 1" using linorder_less_linear [of h 1] by auto
  then show ?thesis by (simp add: SIG_IGN_def SIG_DFL_def)
qed

lemma next_pending_facts:
  "next_unblocked_pending st = None \<longleftrightarrow> pending st AND NOT (blocked st) = 0"
  "next_unblocked_pending st = Some r \<Longrightarrow> valid_signal r \<and> bit (pending st) (nat r - 1) \<and> \<not> bit (blocked st) (nat r - 1)"
  "next_unblocked_pending st = Some r \<Longrightarrow> n < nat r - 1 \<Longrightarrow> bit (pending st) n \<Longrightarrow> bit (blocked st) n"
proof -
  show "next_unblocked_pending st = None \<longleftrightarrow> pending st AND NOT (blocked st) = 0" by (simp add: next_unblocked_pending_def Let_def)
  assume r: "next_unblocked_pending st = Some r"
  let ?m = "pending st AND NOT (blocked st)"
  have m: "?m \<noteq> 0" "nat r - 1 = trailing_zeros ?m"
    using r by (auto simp: next_unblocked_pending_def Let_def lowest_signal_def split: if_splits)
  note tz = trailing_zeros_bit [OF m(1), folded m(2)]
  show "valid_signal r \<and> bit (pending st) (nat r - 1) \<and> \<not> bit (blocked st) (nat r - 1)"
    using next_valid [OF r] tz(1,2) by (simp add: bit_and_iff bit_not_iff)
  show "n < nat r - 1 \<Longrightarrow> bit (pending st) n \<Longrightarrow> bit (blocked st) n"
    using tz(1) tz(3) [of n] by (simp add: bit_and_iff bit_not_iff)
qed

lemma clear_fields:
  "state_of (clear_pending_signal p r w) p = clear_bit r (state_of w p)" "action_of (clear_pending_signal p r w) q = action_of w q"
  "sk_kernel (sig_task (clear_pending_signal p r w) q) = sk_kernel (sig_task w q)" "sk_status (sig_task (clear_pending_signal p r w) q) = sk_status (sig_task w q)"
  "group_of (clear_pending_signal p r w) q = group_of w q" "live (clear_pending_signal p r w) = live w"
  "user_members (clear_pending_signal p r w) q = user_members w q"
  by (auto simp: clear_pending_signal_def upd_def store_hint_def state_of_def action_of_def fun_eq_iff group_of_def user_members_def intro!: filter_cong)

lemma clear_bit_fields [simp]: "blocked (clear_bit r st) = blocked st" "suspend_old_mask (clear_bit r st) = suspend_old_mask st"
  "pending (clear_bit r st) = pending st AND NOT (signal_bit r)"
  by (simp_all add: clear_bit_def)

lemma clear_deliverable:
  assumes "ignored (action_of w p r) r" and "valid_signal r"
  shows "deliverable (clear_pending_signal p r w) p s = deliverable w p s"
proof (cases "s = r")
  case True
  then show ?thesis using assms by (simp add: deliverable_def clear_fields)
next
  case False
  then have "nat s - 1 \<noteq> nat r - 1" if "valid_signal s" using that assms(2) by (auto simp: valid_signal_def)
  then show ?thesis by (auto simp: deliverable_def clear_fields bit_and_iff bit_not_iff bit_signal_bit valid_signal_def MAX_SIGNAL_def)
qed

lemma pending_loop_step:
  assumes "next_unblocked_pending (state_of w p) = Some r" and "ignored (action_of w p r) r"
  shows "pending_loop p ctx m w = pending_loop p ctx m (clear_pending_signal p r w)"
  using assms by (subst pending_loop.simps) (auto simp: ignored_def Let_def)

lemma pending_loop_idle:
  assumes "\<forall>s. \<not> deliverable w p s"
  shows "\<exists>w'. pending_loop p ctx m w = (w', ctx, m, True) \<and> pending (state_of w' p) = pending (state_of w p) AND blocked (state_of w p)"
  using assms
proof (induction p ctx m w rule: pending_loop.induct)
  case (1 p ctx m w)
  show ?case
  proof (cases "next_unblocked_pending (state_of w p)")
    case None
    then have "pending (state_of w p) AND NOT (blocked (state_of w p)) = 0" by (simp add: next_pending_facts(1))
    then have "bit (pending (state_of w p)) n \<Longrightarrow> n < 64 \<Longrightarrow> bit (blocked (state_of w p)) n" for n
      using bit_and_iff [of "pending (state_of w p)" "NOT (blocked (state_of w p))" n] by (simp add: bit_not_iff)
    then have "pending (state_of w p) = pending (state_of w p) AND blocked (state_of w p)" by (intro bit_eqI) (auto simp: bit_and_iff)
    then show ?thesis using None by (simp add: pending_loop.simps)
  next
    case (Some r)
    note f = next_pending_facts(2) [OF Some]
    have ig: "ignored (action_of w p r) r" using 1(2) f by (auto simp: deliverable_def)
    have "(pending (state_of w p) AND NOT (signal_bit r)) AND blocked (state_of w p) = pending (state_of w p) AND blocked (state_of w p)"
      by (rule bit_eqI) (use f in \<open>auto simp: bit_and_iff bit_not_iff bit_signal_bit\<close>)
    then show ?thesis using 1(1) [OF Some refl refl] ig clear_deliverable [OF ig] f 1(2)
      unfolding pending_loop_step [OF Some ig] by (auto simp: ignored_def clear_fields)
  qed
qed

lemma stop_members:
  assumes "sk_status (sig_task w p) \<noteq> Zombie" and "p \<in> set qs \<or> sk_status (sig_task w p) = Stopped"
  shows "sk_status (sig_task (fold stop_member qs w) p) = Stopped"
  using assms
proof (induction qs arbitrary: w)
  case (Cons q qs)
  have "sk_status (sig_task (stop_member q w) p) = (if p = q then Stopped else sk_status (sig_task w p))"
    using Cons.prems(1) by (auto simp: stop_member_def upd_def)
  then show ?case using Cons by (cases "p = q") auto
qed simp

lemma stop_group:
  assumes "\<not> sk_kernel (sig_task w p)" and "\<not> process_zombie (group_of w p)" and "p \<in> set (user_members w p)" and "sk_status (sig_task w p) \<noteq> Zombie"
  shows "sk_status (sig_task (stop_task_group p signum w) p) = Stopped"
  using assms by (simp add: stop_task_group_def) (rule stop_members, simp_all add: upd_group_def)

text \<open>What the delivery of one signal means: the default actions, or the entry of a handler on a frame below the stack pointer.\<close>

definition frame_address :: "TrapFrame \<Rightarrow> reg" where
  "frame_address ctx = (tf_x ctx ! 2 - SIGNAL_FRAME_SIZE) AND NOT 0xf"

definition saved_mask :: "SignalState \<Rightarrow> reg" where
  "saved_mask st = (case suspend_old_mask st of None \<Rightarrow> blocked st | Some b \<Rightarrow> b)"

definition delivered :: "nat \<Rightarrow> int \<Rightarrow> TrapFrame \<Rightarrow> user_memory \<Rightarrow> processes \<Rightarrow> processes \<times> TrapFrame \<times> user_memory \<times> bool \<Rightarrow> bool" where
  "delivered p signum ctx m w r \<longleftrightarrow>
     (case r of (w', ctx', m', go) \<Rightarrow>
        (let a = action_of w p signum
         in if sa_handler a = SIG_DFL
            then \<not> go \<and> ctx' = ctx \<and> m' = m \<and> sk_status (sig_task w' p) = (if default_stops signum then Stopped else Zombie)
            else (go \<longleftrightarrow> SIGNAL_FRAME_SIZE \<le> tf_x ctx ! 2 \<and> writable_at m (frame_address ctx))
              \<and> (\<not> go \<longrightarrow> sk_status (sig_task w' p) = Zombie)
              \<and> (go \<longrightarrow>
                   tf_sepc ctx' = sa_handler a \<and> tf_x ctx' ! 10 = of_int signum \<and> tf_x ctx' ! 2 = frame_address ctx
                   \<and> frame_at m' = (frame_at m)(frame_address ctx \<mapsto> make_frame ctx signum (saved_mask (state_of w p)) (pending_info (state_of w p) ! nat signum))
                   \<and> \<not> bit (pending (state_of w' p)) (nat signum - 1)
                   \<and> blocked (state_of w' p) =
                       sanitize_mask (saved_mask (state_of w p) OR sa_mask a OR (if sa_flags a AND SA_NODEFER = 0 then signal_bit signum else 0)))))"

definition tf_ok :: "TrapFrame \<Rightarrow> bool" where
  "tf_ok tf \<longleftrightarrow> length (tf_x tf) = 32 \<and> tf_x tf ! 0 = 0 \<and> length (tf_f tf) = 32"

lemma setup_frame_cases:
  assumes "length (tf_x ctx) = 32"
  shows "case setup_signal_frame ctx signum a b info m of
      Inl e \<Rightarrow> \<not> (SIGNAL_FRAME_SIZE \<le> tf_x ctx ! 2 \<and> writable_at m (frame_address ctx))
    | Inr (ctx', m') \<Rightarrow> SIGNAL_FRAME_SIZE \<le> tf_x ctx ! 2 \<and> writable_at m (frame_address ctx) \<and> tf_sepc ctx' = sa_handler a
        \<and> tf_x ctx' ! 10 = of_int signum \<and> tf_x ctx' ! 2 = frame_address ctx
        \<and> frame_at m' = (frame_at m)(frame_address ctx \<mapsto> make_frame ctx signum b info)"
  using assms by (auto simp: setup_signal_frame_def copy_frame_to_user_def frame_address_def Let_def not_less split: sum.split)

lemma action_emit_set:
  "state_of (set_action_of q s a w) p = state_of w p" "user_members (set_action_of q s a w) p = user_members w p"
  "sig_task (set_action_of q s a w) = sig_task w"
  by (simp_all add: set_action_of_def state_of_def user_members_def group_of_def Let_def)

lemma handler_delivered:
  assumes "next_unblocked_pending (state_of w p) = Some s" and "\<not> ignored (action_of w p s) s" and "sa_handler (action_of w p s) \<noteq> SIG_DFL"
    and l: "length (tf_x ctx) = 32" and user: "\<not> sk_kernel (sig_task w p)" and mem: "p \<in> set (user_members w p)"
  shows "delivered p s ctx m w (pending_loop p ctx m w)"
proof -
  let ?a = "action_of w p s"
  obtain w1 old info where e: "enter_handler p s ?a w = (w1, old, info)" by (metis prod_cases3)
  let ?w2 = "if sa_flags ?a AND SA_RESETHAND \<noteq> 0 \<and> \<not> cannot_catch_or_ignore s then set_action_of p s DEFAULT_SIGACTION w1 else w1"
  have w1: "old = saved_mask (state_of w p)" "info = pending_info (state_of w p) ! nat s"
    "blocked (state_of w1 p) = sanitize_mask (saved_mask (state_of w p) OR sa_mask ?a OR (if sa_flags ?a AND SA_NODEFER = 0 then signal_bit s else 0))"
    "pending (state_of w1 p) = pending (state_of w p) AND NOT (signal_bit s)" "sk_kernel (sig_task w1 p) = sk_kernel (sig_task w p)"
    using e by (auto simp: enter_handler_def Let_def saved_mask_def state_of_def upd_def store_hint_def)
  have ev: "evolves w w1"
    using ev.closed_enter [OF evolves_refl next_valid [OF assms(1)] e] .
  then have um: "user_members w1 p = user_members w p"
    by (auto simp: user_members_def group_of_def evolves_def same_place_def intro!: filter_cong)
  have b: "\<not> bit (pending (state_of w1 p)) (nat s - 1)"
    using next_valid [OF assms(1)] unfolding w1(4) by (simp add: bit_and_iff bit_not_iff bit_signal_bit valid_signal_def MAX_SIGNAL_def)
  have z: "sk_status (sig_task (terminate_task_group p c ?w2) p) = Zombie" for c
    using user mem w1(5) um by (intro terminate_group) (auto simp: action_emit_set)
  have eq: "pending_loop p ctx m w =
      (case setup_signal_frame ctx s ?a old info m of
         Inl e \<Rightarrow> (terminate_task_group p (signal_exit_code SIGSEGV) ?w2, ctx, m, False)
       | Inr (ctx', m') \<Rightarrow> (?w2, ctx', m', True))"
    using assms(1-3) e by (subst pending_loop.simps) (auto simp: ignored_def Let_def split: sum.split)
  show ?thesis
    using setup_frame_cases [OF l, where signum = s and a = ?a and b = old and info = info and m = m] z w1(1-3) b assms(3) unfolding eq delivered_def Let_def
    by (cases "setup_signal_frame ctx s ?a old info m") (auto simp: action_emit_set)
qed

lemma default_delivered:
  assumes "next_unblocked_pending (state_of w p) = Some s" and "\<not> ignored (action_of w p s) s" and "sa_handler (action_of w p s) = SIG_DFL"
    and user: "\<not> sk_kernel (sig_task w p)" "sk_status (sig_task w p) \<noteq> Zombie" "\<not> process_zombie (group_of w p)" and mem: "p \<in> set (user_members w p)"
  shows "delivered p s ctx m w (pending_loop p ctx m w)"
proof -
  let ?w = "clear_pending_signal p s w"
  have "\<not> default_ignored s" using assms(2,3) by (simp add: ignored_def)
  moreover have "sk_status (sig_task (stop_task_group p s ?w) p) = Stopped" by (rule stop_group) (simp_all add: clear_fields user mem)
  moreover have "sk_status (sig_task (terminate_task_group p c ?w) p) = Zombie" for c
    by (rule terminate_group) (simp_all add: clear_fields user mem)
  ultimately show ?thesis using assms(1,3)
    by (subst pending_loop.simps) (simp add: delivered_def Let_def SIG_DFL_def SIG_IGN_def)
qed

lemma delivered_clear:
  assumes "delivered p s ctx m (clear_pending_signal p r w) res" and "r \<noteq> s" and "valid_signal r" and "valid_signal s"
  shows "delivered p s ctx m w res"
proof -
  have "nat r \<noteq> nat s" using assms(2-4) by (auto simp: valid_signal_def)
  then have i: "pending_info (clear_bit r st) ! nat s = pending_info st ! nat s" for st by (simp add: clear_bit_def)
  have sm: "saved_mask (clear_bit r st) = saved_mask st" for st by (simp add: saved_mask_def split: option.split)
  show ?thesis using assms(1) unfolding delivered_def clear_fields i sm .
qed

lemma pending_loop_delivers:
  assumes "deliverable w p s" and "\<forall>r < s. \<not> deliverable w p r"
    and "\<not> sk_kernel (sig_task w p)" "sk_status (sig_task w p) \<noteq> Zombie" "\<not> process_zombie (group_of w p)" "p \<in> set (user_members w p)"
    and "length (tf_x ctx) = 32"
  shows "delivered p s ctx m w (pending_loop p ctx m w)"
  using assms
proof (induction p ctx m w rule: pending_loop.induct)
  case (1 p ctx m w)
  have s: "valid_signal s" "bit (pending (state_of w p)) (nat s - 1)" "\<not> bit (blocked (state_of w p)) (nat s - 1)"
    using 1(2) by (auto simp: deliverable_def)
  have "next_unblocked_pending (state_of w p) \<noteq> None"
  proof
    assume "next_unblocked_pending (state_of w p) = None"
    then have "\<not> bit (pending (state_of w p) AND NOT (blocked (state_of w p))) (nat s - 1)" by (simp add: next_pending_facts(1))
    moreover have "nat s - 1 < 64" using s(1) by (auto simp: valid_signal_def MAX_SIGNAL_def)
    ultimately show False using s(2,3) by (simp add: bit_and_iff bit_not_iff)
  qed
  then obtain r where r: "next_unblocked_pending (state_of w p) = Some r" by blast
  note f = next_pending_facts(2) [OF r]
  have "nat s - 1 < nat r - 1" if "s < r" using that s(1) unfolding valid_signal_def by arith
  then have rs: "r \<le> s" using next_pending_facts(3) [OF r, of "nat s - 1"] s(2,3) by linarith
  show ?case
  proof (cases "ignored (action_of w p r) r")
    case True
    have "r \<noteq> s" using True 1(2) by (auto simp: deliverable_def)
    moreover have "delivered p s ctx m (clear_pending_signal p r w) (pending_loop p ctx m (clear_pending_signal p r w))"
      using 1(1) [OF r refl refl] True 1(2-8) clear_deliverable [OF True] f by (simp add: ignored_def clear_fields)
    ultimately show ?thesis unfolding pending_loop_step [OF r True] using delivered_clear f s(1) by blast
  next
    case False
    then have "deliverable w p r" using f by (simp add: deliverable_def)
    then have "r = s" using 1(3) rs order_le_less by blast
    then show ?thesis using handler_delivered default_delivered False r 1(2-8) by (cases "sa_handler (action_of w p s) = SIG_DFL") auto
  qed
qed

lemma deliverable_scan_iff:
  "deliverable_scan t m \<longleftrightarrow> (\<exists>n < 64. bit m n \<and> \<not> ignored (get_action t (int n + 1)) (int n + 1))"
proof (induction t m rule: deliverable_scan.induct)
  case (1 t m)
  show ?case
  proof (cases "m = 0")
    case True
    then show ?thesis by (simp add: deliverable_scan.simps)
  next
    case False
    let ?n = "trailing_zeros m" and ?s = "lowest_signal m"
    note tz = trailing_zeros_bit [OF False]
    have s: "?s = int ?n + 1" by (simp add: lowest_signal_def)
    let ?a = "get_action t ?s"
    have g: "sa_handler ?a > SIG_IGN \<or> sa_handler ?a = SIG_DFL \<and> \<not> default_ignored ?s \<longleftrightarrow> \<not> ignored ?a ?s"
      unfolding above_ignore ignored_def by (auto simp: SIG_DFL_def SIG_IGN_def)
    have b: "bit (m AND NOT (signal_bit ?s)) n \<longleftrightarrow> bit m n \<and> n \<noteq> ?n" if "n < 64" for n
      using that tz(1) by (auto simp: bit_and_iff bit_not_iff signal_bit_lowest bit_exp_iff)
    show ?thesis
    proof (cases "ignored ?a ?s")
      case True
      then have "deliverable_scan t m = deliverable_scan t (m AND NOT (signal_bit ?s))"
        using g True False by (subst deliverable_scan.simps) (auto simp: Let_def)
      then show ?thesis using 1 [OF False refl refl] g True b s by auto
    next
      case F: False
      then have "deliverable_scan t m" using g False by (subst deliverable_scan.simps) (simp add: Let_def)
      then show ?thesis using F tz s by auto
    qed
  qed
qed

lemma has_deliverable_iff: "has_deliverable_pending w p \<longleftrightarrow> (\<exists>s. deliverable w p s)"
proof -
  have "(\<exists>s. deliverable w p s) \<longleftrightarrow> (\<exists>n < 64. deliverable w p (int n + 1))"
  proof
    assume "\<exists>s. deliverable w p s"
    then obtain s where s: "deliverable w p s" by blast
    then have "nat s - 1 < 64" "int (nat s - 1) + 1 = s" by (auto simp: deliverable_def valid_signal_def MAX_SIGNAL_def)
    then show "\<exists>n < 64. deliverable w p (int n + 1)" using s by metis
  qed blast
  moreover have "nat (int n + 1) - 1 = n" "valid_signal (int n + 1) \<longleftrightarrow> n < 64" for n
    by (auto simp: valid_signal_def MAX_SIGNAL_def)
  ultimately show ?thesis
    unfolding has_deliverable_pending_def deliverable_scan_iff deliverable_def action_of_def bit_and_iff bit_not_iff by auto
qed

text \<open>
  C22. On the way back to user mode a live task takes the lowest-numbered signal that is pending, not blocked and not ignored, and
  drops the ignored ones below it. By default it stops or ends the process; otherwise the task enters the handler with the signal number in its first argument and
  a frame with its registers and mask below its stack pointer, the signal and the action's mask blocked, or the process ends if the frame does not fit. If there is no such signal
  the registers are untouched and exactly the unblocked pending signals are dropped. The check that decides whether a sleeping task is woken, \<open>has_deliverable_pending\<close>, agrees.
\<close>

theorem signal_delivery_exact:
  assumes "boot w0" and "w = fold sig_do calls w0" and "p \<in> set (live w)" and "\<not> sk_kernel (sig_task w p)"
    and "sk_status (sig_task w p) \<noteq> Zombie" and "\<not> process_zombie (group_of w p)" and "tf_ok ctx"
  shows "(has_deliverable_pending w p \<longleftrightarrow> (\<exists>s. deliverable w p s))
    \<and> (\<forall>s. deliverable w p s \<and> (\<forall>r < s. \<not> deliverable w p r) \<longrightarrow> delivered p s ctx m w (handle_pending_for_task p ctx m w))
    \<and> (\<not> has_deliverable_pending w p \<longrightarrow>
         (\<exists>w'. handle_pending_for_task p ctx m w = (w', ctx, m, True)
            \<and> pending (state_of w' p) = pending (state_of w p) AND blocked (state_of w p)))"
proof -
  have ok: "signals_ok w" "members_ok w" using run_ok boot_ok [OF assms(1)] assms(2) by blast+
  have mem: "p \<in> set (user_members w p)" using ok(2) assms(3,4) by (auto simp: members_ok_def user_members_def)
  have hint: "signal_pending_hint (sig_task w p) = 0 \<longleftrightarrow> pending (state_of w p) = 0" using ok(1) by (simp add: signals_ok_def task_ok_def state_of_def)
  have none: "\<exists>w'. handle_pending_for_task p ctx m w = (w', ctx, m, True) \<and> pending (state_of w' p) = pending (state_of w p) AND blocked (state_of w p)"
    if "\<not> has_deliverable_pending w p"
  proof (cases "signal_pending_hint (sig_task w p) = 0")
    case True
    then show ?thesis using hint assms(4) by (simp add: handle_pending_for_task_def)
  next
    case False
    then show ?thesis using pending_loop_idle [of w p ctx m] that assms(4,5) by (simp add: has_deliverable_iff handle_pending_for_task_def)
  qed
  have "delivered p s ctx m w (handle_pending_for_task p ctx m w)" if "deliverable w p s" "\<forall>r < s. \<not> deliverable w p r" for s
  proof -
    have "pending (state_of w p) \<noteq> 0" using that(1) by (auto simp: deliverable_def)
    then show ?thesis using pending_loop_delivers [OF that assms(4-6) mem] hint assms(4,5,7) by (simp add: handle_pending_for_task_def tf_ok_def)
  qed
  then show ?thesis using none has_deliverable_iff by blast
qed

section \<open>Returning from a handler\<close>

lemma restore_saved:
  assumes "tf_ok tf"
  shows "restore_trapframe (user_mcontext_from_trapframe tf) (arch_extra_from_trapframe tf) c = tf"
proof -
  have "(tf_x tf)[0 := tf_sepc tf, 0 := 0] = tf_x tf" using assms by (metis list_update_id list_update_overwrite tf_ok_def)
  then show ?thesis using assms
    by (cases tf, cases c) (simp add: restore_trapframe_def user_mcontext_from_trapframe_def arch_extra_from_trapframe_def tf_ok_def nth_append)
qed

lemma handler_frame:
  assumes "pending_loop p ctx m w = (w', ctx', m', True)" and "length (tf_x ctx) = 32" and "(ctx', m') \<noteq> (ctx, m)"
  shows "\<exists>s info. frame_at m' (tf_x ctx' ! 2) = Some (make_frame ctx s (saved_mask (state_of w p)) info)"
  using assms
proof (induction p ctx m w rule: pending_loop.induct)
  case (1 p ctx m w)
  show ?case
  proof (cases "next_unblocked_pending (state_of w p)")
    case None
    then show ?thesis using 1(2,4) by (simp add: pending_loop.simps)
  next
    case (Some r)
    show ?thesis
    proof (cases "ignored (action_of w p r) r")
      case True
      have "saved_mask (clear_bit r st) = saved_mask st" for st by (simp add: saved_mask_def split: option.split)
      then show ?thesis using 1(1) [OF Some refl refl] True 1(2-4) unfolding pending_loop_step [OF Some True] by (simp add: ignored_def clear_fields)
    next
      case False
      obtain w1 old info where e: "enter_handler p r (action_of w p r) w = (w1, old, info)" by (metis prod_cases3)
      have old: "old = saved_mask (state_of w p)" using e by (auto simp: enter_handler_def Let_def saved_mask_def)
      have "frame_at m' (tf_x ctx' ! 2) = Some (make_frame ctx r old info)"
        using 1(2,3) False Some e setup_frame_cases [OF 1(3), where signum = r and a = "action_of w p r" and b = old and info = info and m = m]
        by (subst (asm) pending_loop.simps) (auto simp: ignored_def Let_def split: if_splits sum.splits)
      then show ?thesis unfolding old by blast
    qed
  qed
qed

text \<open>
  C5. When a handler that was entered for a signal returns through \<open>sigreturn\<close> with its frame and stack pointer intact, the task continues exactly as if it had not been
  interrupted: whatever the handler did to the registers and to other state, all integer and floating-point registers, the
  program counter and the status register are those of the interrupted program, and the mask is the one before delivery, for a task in \<open>sigsuspend\<close> the one before that call.
\<close>

theorem handler_return_restores:
  assumes "boot w0" and "w = fold sig_do calls w0" and "tf_ok ctx" and h: "handle_pending_for_task p ctx m w = (w', ctx', m', True)" "(ctx', m') \<noteq> (ctx, m)"
    and "tf_x c ! 2 = tf_x ctx' ! 2" and "frame_at m2 (tf_x c ! 2) = frame_at m' (tf_x c ! 2)"
  shows "snd (sigreturn_trap p c m2 w2) = ctx \<and> blocked (state_of (fst (sigreturn_trap p c m2 w2)) p) = saved_mask (state_of w p)"
proof -
  have l: "length (tf_x ctx) = 32" using assms(3) by (simp add: tf_ok_def)
  have "pending_loop p ctx m w = (w', ctx', m', True)" using h by (auto simp: handle_pending_for_task_def split: if_splits)
  from handler_frame [OF this l h(2)] obtain s info where
    f: "frame_at m2 (tf_x c ! 2) = Some (make_frame ctx s (saved_mask (state_of w p)) info)" using assms(6,7) by auto
  have "signals_ok w" using run_ok boot_ok [OF assms(1)] assms(2) by blast
  then have "saved_mask (state_of w p) AND unblockable_mask = 0"
    by (simp add: signals_ok_def task_ok_def state_ok_def saved_mask_def state_of_def split: option.split)
  then show ?thesis using f restore_saved [OF assms(3)]
    by (simp add: sigreturn_trap_def sys_sigreturn_def copy_frame_from_user_def make_frame_def user_ucontext_from_trapframe_def
        sigset_from_kernel_def to_kernel_mask_def upd_state_def upd_def state_of_def sanitize_clean)
qed

text \<open>
  C23. \<open>sigreturn\<close> trusts nothing in the frame: whatever bytes the program has put at its stack pointer, the registers that reach user mode
  have supervisor mode and its interrupt enable cleared in the status register and interrupts enabled on return, and the mask that results blocks neither \<open>SIGKILL\<close> nor \<open>SIGSTOP\<close>.
\<close>

theorem sigreturn_stays_in_user_mode:
  assumes "boot w0" and "w = fold sig_do calls w0"
  shows "case sigreturn_trap p ctx m w of (w', ctx') \<Rightarrow>
     \<not> bit (tf_sstatus (prepare_user_trapframe ctx')) 8 \<and> \<not> bit (tf_sstatus (prepare_user_trapframe ctx')) 1
     \<and> bit (tf_sstatus (prepare_user_trapframe ctx')) 5 \<and> blocked (state_of w' p) AND unblockable_mask = 0"
proof -
  have "signals_ok w" using run_ok boot_ok [OF assms(1)] assms(2) by blast
  then have "signals_ok (fst (sys_sigreturn p ctx m w))" by (rule sig.closed_sigreturn)
  then have "blocked (state_of (fst (sigreturn_trap p ctx m w)) p) AND unblockable_mask = 0"
    by (auto simp: sigreturn_trap_def signals_ok_def task_ok_def state_ok_def state_of_def split: prod.split sum.split)
  moreover have "\<not> bit (tf_sstatus (prepare_user_trapframe c)) 8" "\<not> bit (tf_sstatus (prepare_user_trapframe c)) 1" "bit (tf_sstatus (prepare_user_trapframe c)) 5" for c
    by (simp_all add: prepare_user_trapframe_def bit_or_iff bit_and_iff bit_not_iff bit_push_bit_iff bit_exp_iff)
  ultimately show ?thesis by (simp split: prod.split) (metis fst_conv)
qed

end
