(* ===== verification/Signal_Runs.thy ===== *)
theory Signal_Runs
  imports Signal_Safety
begin

unbundle bit_operations_syntax

text \<open>Concrete runs of signal calls: two processes, one of which blocks, catches and waits for signals; the mask that \<open>sigsuspend\<close> leaves behind.\<close>

definition demo_proc :: "nat \<Rightarrow> SignalState \<Rightarrow> nat \<Rightarrow> TaskStatus \<Rightarrow> SigTask" where
  "demo_proc p st hint stat =
     \<lparr>sk_kernel = False, sk_tgid = p, sk_pgid = p, sk_status = stat, sk_exit_code = 0, sk_parent = None, sk_actions = p,
      signal_state = st, signal_pending_hint = hint\<rparr>"

definition demo_procs :: processes where
  "demo_procs =
     \<lparr>sig_task = (\<lambda>p. demo_proc p signal_state_new 0 Running), tables = (\<lambda>_. signal_actions_new),
      group = (\<lambda>g. thread_group_new\<lparr>tg_members := [g]\<rparr>), live = [1, 2], current = Some 1, orphan_reaper = None, sig_events = []\<rparr>"

lemma demo_boot: "boot demo_procs"
  by (simp add: boot_def demo_procs_def demo_proc_def members_ok_def group_of_def)

lemma trailing_zeros_exp: "n < 64 \<Longrightarrow> trailing_zeros (2 ^ n) = n"
proof -
  assume n: "n < 64"
  then have "(2 :: reg) ^ n \<noteq> 0" by simp
  from trailing_zeros_bit(2) [OF this] show ?thesis by (simp add: bit_exp_iff)
qed

lemmas demo_calls = sys_sigprocmask_def new_blocked_def sys_tkill_def sys_sigsuspend_def sigsuspend_begin_def queue_signal_def mark_pending_def
  wake_for_signal_def upd_state_def upd_def state_of_def action_of_def signal_is_unblocked_def KERNEL_SIGSET_SIZE_def Let_def
  SIG_BLOCK_def SIG_UNBLOCK_def SIG_SETMASK_def default_stops_def default_ignored_def valid_signal_def signal_numbers

definition block_stop :: sig_call where
  "block_stop = Sigprocmask 1 SIG_BLOCK (Some (Inr 0x80000)) None 8"

lemma sanitize_demo: "sanitize_mask 0x80000 = 0x80000" "sanitize_mask 0 = 0" "sanitize_mask (-1) = NOT unblockable_mask"
  by (simp_all add: sanitize_mask_def unblockable_mask_def signal_bit_def signal_numbers)

definition suspended_procs :: "SignalState \<Rightarrow> nat \<Rightarrow> TaskStatus \<Rightarrow> ThreadGroup \<Rightarrow> sig_event list \<Rightarrow> processes" where
  "suspended_procs st hint stat g es =
     demo_procs\<lparr>sig_task := (\<lambda>p. demo_proc p signal_state_new 0 Running)(1 := demo_proc 1 st hint stat),
                group := (\<lambda>g. thread_group_new\<lparr>tg_members := [g]\<rparr>)(1 := g), sig_events := es\<rparr>"

lemma demo_mask: "sig_do block_stop demo_procs = suspended_procs (signal_state_new\<lparr>blocked := 0x80000\<rparr>) 0 Running (thread_group_new\<lparr>tg_members := [1]\<rparr>) []"
  by (simp add: block_stop_def demo_calls suspended_procs_def demo_procs_def demo_proc_def signal_state_new_def sanitize_demo fun_eq_iff)

lemma lowest_demo: "lowest_signal 0x80000 = 20" "lowest_signal 0x200 = 10"
  using trailing_zeros_exp [of 19] trailing_zeros_exp [of 9] by (simp_all add: lowest_signal_def)

lemma default_table: "get_action signal_actions_new 20 = DEFAULT_SIGACTION" "get_action signal_actions_new 18 = DEFAULT_SIGACTION"
  by (simp_all add: get_action_def signal_actions_new_def)

abbreviation stop_pending :: "reg \<Rightarrow> reg option \<Rightarrow> SignalState" where
  "stop_pending b old \<equiv> \<lparr>blocked = b, pending = 0x80000, pending_info = (replicate 65 empty_info)[20 := info_from 2 SI_TKILL], suspend_old_mask = old\<rparr>"

lemma demo_tstp:
  "sig_do (Tkill 2 1 SIGTSTP) (suspended_procs (signal_state_new\<lparr>blocked := 0x80000\<rparr>) 0 Running g []) =
     suspended_procs (stop_pending 0x80000 None) 1 Running g [SignalWaitersWoken]"
  by (simp add: demo_calls suspended_procs_def demo_procs_def demo_proc_def signal_state_new_def has_deliverable_pending_def deliverable_scan.simps
      emit_def signal_bit_def default_table SIG_DFL_def fun_eq_iff)

lemma demo_suspended:
  "sys_sigsuspend 1 (Some (Inr 0)) 8 (suspended_procs (stop_pending 0x80000 None) 1 Running g es) =
     (suspended_procs (stop_pending 0 (Some 0x80000)) 1 Running g es, Some EINTR)"
  by (simp add: demo_calls suspended_procs_def demo_procs_def demo_proc_def has_deliverable_pending_def
      deliverable_scan.simps default_table SIG_DFL_def sanitize_demo lowest_demo DEFAULT_SIGACTION_def fun_eq_iff)

lemma demo_stopped:
  "\<exists>st es'. pending st = 0 \<and> blocked st = 0 \<and> suspend_old_mask st = Some 0x80000
     \<and> handle_pending_for_task 1 ctx m (suspended_procs (stop_pending 0 (Some 0x80000)) 1 Running (thread_group_new\<lparr>tg_members := [1]\<rparr>) es) =
         (suspended_procs st 0 Stopped (mark_stopped SIGTSTP (thread_group_new\<lparr>tg_members := [1]\<rparr>)) es', ctx, m, False)"
  by (rule exI [of _ "clear_bit 20 (stop_pending 0 (Some 0x80000))"], rule exI [of _ "es @ [WaitStatePurged 1, ChildWaitersWoken]"])
    (simp add: handle_pending_for_task_def pending_loop.simps next_unblocked_pending_def suspended_procs_def demo_procs_def demo_proc_def demo_calls
      lowest_demo default_table DEFAULT_SIGACTION_def SIG_DFL_def SIG_IGN_def clear_pending_signal_def store_hint_def clear_bit_def signal_bit_def
      stop_task_group_def group_of_def user_members_def upd_group_def stop_member_def emit_def thread_group_new_def fun_eq_iff)

lemma demo_continued:
  "\<exists>g' es'. sig_do (Tkill 2 1 SIGCONT) (suspended_procs st 0 Stopped (mark_stopped SIGTSTP (thread_group_new\<lparr>tg_members := [1]\<rparr>)) es) =
     suspended_procs st 0 Ready g' es'"
  by (rule exI [of _ "fst (mark_continued SIGCONT (mark_stopped SIGTSTP (thread_group_new\<lparr>tg_members := [1]\<rparr>)))"],
      rule exI [of _ "es @ [TaskRequeued 1, ChildWaitersWoken]"])
    (simp add: continue_task_group_def mark_continued_def mark_stopped_def suspended_procs_def demo_procs_def demo_proc_def demo_calls
      default_table DEFAULT_SIGACTION_def SIG_DFL_def group_of_def user_members_def upd_group_def continue_member_def emit_def thread_group_new_def fun_eq_iff)

text \<open>
  C40. \<open>sigsuspend\<close> does not always restore the mask. A task blocks \<open>SIGTSTP\<close>, has it pending and suspends with an empty mask: the call returns with \<open>EINTR\<close>,
  the signal stops the process on the way out, and after \<open>SIGCONT\<close> the task runs on, with the temporary mask
  instead of its own and with the saved mask kept for whatever handler comes next. No signal is pending that would restore it.
\<close>

theorem sigsuspend_mask_leaks:
  "\<exists>calls w w1 w2 go. boot demo_procs \<and> w = fold sig_do calls demo_procs
     \<and> sys_sigsuspend 1 (Some (Inr 0)) 8 w = (w1, Some EINTR) \<and> handle_pending_for_task 1 ctx m w1 = (w2, ctx, m, go)
     \<and> (let w3 = sig_do (Tkill 2 1 SIGCONT) w2
        in sk_status (sig_task w3 1) = Ready \<and> pending (state_of w3 1) = 0
          \<and> blocked (state_of w 1) = signal_bit SIGTSTP \<and> blocked (state_of w3 1) = 0 \<and> suspend_old_mask (state_of w3 1) = Some (signal_bit SIGTSTP))"
proof -
  let ?g = "thread_group_new\<lparr>tg_members := [1]\<rparr>"
  let ?w = "suspended_procs (stop_pending 0x80000 None) 1 Running ?g [SignalWaitersWoken]"
  have w: "?w = fold sig_do [block_stop, Tkill 2 1 SIGTSTP] demo_procs" by (simp only: fold_simps demo_mask demo_tstp)
  obtain st es where st: "pending st = 0" "blocked st = 0" "suspend_old_mask st = Some 0x80000"
    and h: "handle_pending_for_task 1 ctx m (suspended_procs (stop_pending 0 (Some 0x80000)) 1 Running ?g [SignalWaitersWoken]) =
      (suspended_procs st 0 Stopped (mark_stopped SIGTSTP ?g) es, ctx, m, False)"
    using demo_stopped by blast
  obtain g' es' where c: "sig_do (Tkill 2 1 SIGCONT) (suspended_procs st 0 Stopped (mark_stopped SIGTSTP ?g) es) = suspended_procs st 0 Ready g' es'"
    using demo_continued by blast
  have b: "signal_bit SIGTSTP = 0x80000" by (simp add: signal_bit_def signal_numbers)
  have s: "state_of (suspended_procs x hint k g l) 1 = x" "sk_status (sig_task (suspended_procs x hint k g l) 1) = k" for x hint k g l
    by (simp_all add: suspended_procs_def demo_proc_def state_of_def)
  show ?thesis
    by (rule exI [of _ "[block_stop, Tkill 2 1 SIGTSTP]"], rule exI [of _ ?w], intro exI conjI)
      (simp only: demo_boot, rule w, rule demo_suspended, rule h, simp only: c s st b Let_def SignalState.simps simp_thms)
qed

section \<open>A caught signal\<close>

definition catch_usr1 :: "sig_call list" where
  "catch_usr1 =
     [Sigaction 1 10 (Some (Inr \<lparr>sa_handler = 0x1000, sa_flags = 0, sa_restorer = 0, sa_mask = 0\<rparr>)) None 8, Tkill 2 1 10]"

definition caught_procs :: processes where
  "caught_procs =
     demo_procs\<lparr>sig_task := (\<lambda>p. demo_proc p signal_state_new 0 Running)(1 := demo_proc 1
                  \<lparr>blocked = 0, pending = 0x200, pending_info = (replicate 65 empty_info)[10 := info_from 2 SI_TKILL], suspend_old_mask = None\<rparr> 1 Running),
                tables := (\<lambda>_. signal_actions_new)(1 := signal_actions_new[10 := \<lparr>sa_handler = 0x1000, sa_flags = 0, sa_restorer = 0, sa_mask = 0\<rparr>]),
                sig_events := [SignalWaitersWoken, WokenInterrupted 1]\<rparr>"

lemma catch_usr1_run: "fold sig_do catch_usr1 demo_procs = caught_procs"
  by (simp add: catch_usr1_def caught_procs_def sys_sigaction_def set_action_of_def set_action_def get_action_def kernel_action_def demo_calls demo_procs_def demo_proc_def
      cannot_catch_or_ignore_def sanitize_demo sanitize_flags_def signal_state_new_def signal_actions_new_def signal_bit_def emit_def has_deliverable_pending_def
      deliverable_scan.simps lowest_demo SIG_DFL_def SIG_IGN_def fun_eq_iff)

definition demo_ctx :: TrapFrame where
  "demo_ctx = \<lparr>tf_x = (replicate 32 0)[2 := 0x8000], tf_sstatus = 0, tf_sepc = 0x4000, tf_fsx = [0, 0], tf_f = replicate 32 0, tf_fcsr = 0\<rparr>"

definition demo_memory :: user_memory where
  "demo_memory = \<lparr>frame_at = (\<lambda>_. None), writable_at = (\<lambda>_. True)\<rparr>"

lemma demo_ctx_ok: "tf_ok demo_ctx"
  by (simp add: tf_ok_def demo_ctx_def)

lemma caught_facts:
  "pending (state_of caught_procs 1) = 0x200" "blocked (state_of caught_procs 1) = 0" "sa_handler (action_of caught_procs 1 10) = 0x1000"
  by (simp_all add: caught_procs_def demo_proc_def state_of_def action_of_def get_action_def signal_actions_new_def)

lemma caught_deliverable: "deliverable caught_procs 1 s \<longleftrightarrow> s = 10"
proof -
  have b: "bit (0x200 :: reg) n \<longleftrightarrow> n = 9" for n using bit_exp_iff [where 'a = reg, of 9 n] by (cases "n = 9") auto
  have "valid_signal s \<and> nat s - 1 = 9 \<longleftrightarrow> s = 10" unfolding valid_signal_def MAX_SIGNAL_def by arith
  then show ?thesis unfolding deliverable_def caught_facts b ignored_def using caught_facts(3) by (auto simp: SIG_IGN_def SIG_DFL_def)
qed

theorem signal_state_well_formed_witness: "signals_ok (fold sig_do catch_usr1 demo_procs)"
  by (rule signal_state_well_formed [OF demo_boot])

theorem sigkill_ends_targets_witness:
  "sk_status (sig_task (fst (sys_kill (\<lambda>_. False) 2 1 SIGKILL (fold sig_do [block_stop] demo_procs))) 1) = Zombie"
proof -
  have t: "kill_targets (fold sig_do [block_stop] demo_procs) 2 1 = [1]"
    by (simp only: fold_simps demo_mask) (simp add: kill_targets_def find_thread_group_def suspended_procs_def demo_procs_def demo_proc_def)
  show ?thesis using sigkill_ends_targets [OF demo_boot refl, of "[block_stop]" 2 1 1] t by simp
qed

theorem signal_delivery_exact_witness:
  "deliverable caught_procs 1 10 \<and> delivered 1 10 demo_ctx demo_memory caught_procs (handle_pending_for_task 1 demo_ctx demo_memory caught_procs)"
proof -
  have c: "1 \<in> set (live caught_procs)" "\<not> sk_kernel (sig_task caught_procs 1)" "sk_status (sig_task caught_procs 1) \<noteq> Zombie"
    "\<not> process_zombie (group_of caught_procs 1)"
    by (simp_all add: caught_procs_def demo_procs_def demo_proc_def group_of_def thread_group_new_def)
  have d: "deliverable caught_procs 1 10" "\<forall>r < 10. \<not> deliverable caught_procs 1 r" using caught_deliverable by auto
  show ?thesis using signal_delivery_exact [OF demo_boot catch_usr1_run [symmetric] c demo_ctx_ok, of demo_memory] d by blast
qed

lemma caught_run:
  "\<exists>w' ctx' m'. handle_pending_for_task 1 demo_ctx demo_memory caught_procs = (w', ctx', m', True) \<and> (ctx', m') \<noteq> (demo_ctx, demo_memory)
     \<and> tf_sepc ctx' = 0x1000"
proof -
  have "next_unblocked_pending (state_of caught_procs 1) = Some 10"
    by (simp add: next_unblocked_pending_def caught_procs_def demo_proc_def state_of_def lowest_demo)
  then have "\<exists>w' ctx' m'. handle_pending_for_task 1 demo_ctx demo_memory caught_procs = (w', ctx', m', True) \<and> tf_sepc ctx' = 0x1000"
    by (simp add: handle_pending_for_task_def pending_loop.simps)
      (simp add: caught_procs_def demo_proc_def action_of_def get_action_def signal_actions_new_def SIG_DFL_def SIG_IGN_def Let_def
        setup_signal_frame_def copy_frame_to_user_def demo_memory_def demo_ctx_def SIGNAL_FRAME_SIZE_def split: prod.split)
  moreover have "tf_sepc demo_ctx \<noteq> 0x1000" by (simp add: demo_ctx_def)
  ultimately show ?thesis by blast
qed

theorem handler_return_restores_witness:
  "\<exists>w' ctx' m'. handle_pending_for_task 1 demo_ctx demo_memory caught_procs = (w', ctx', m', True) \<and> tf_sepc ctx' = 0x1000
     \<and> snd (sigreturn_trap 1 ctx' m' w') = demo_ctx"
  using caught_run handler_return_restores [OF demo_boot catch_usr1_run [symmetric] demo_ctx_ok] by blast

theorem sigreturn_stays_in_user_mode_witness:
  "\<not> bit (tf_sstatus (prepare_user_trapframe (snd (sigreturn_trap 1 demo_ctx demo_memory (fold sig_do [block_stop] demo_procs))))) 8"
  using sigreturn_stays_in_user_mode [OF demo_boot refl, where calls = "[block_stop]" and p = 1 and ctx = demo_ctx and m = demo_memory]
  by (auto split: prod.splits)

end
