(* ===== verification/Futex.thy ===== *)
theory Futex
  imports Wait_Queue
begin

unbundle bit_operations_syntax

text \<open>
  Futexes (\<open>os/src/syscall/other.rs\<close>): the vector of waiters, waking by key and bitset, requeueing, the operation word of \<open>FUTEX_WAKE_OP\<close>,
  the stages of a wait, and the walk over the robust list of a dying task. A user word is a 32-bit word; the address and key of an operation
  (\<open>futex_addr_key_for_op\<close>) and the words read from user memory are arguments of the operations, the words written results.
\<close>

type_synonym i32 = "32 word"

record FutexWaiter =
  fw_uaddr :: usize
  fw_key :: usize
  fw_bitset :: "64 word"
  fw_task :: nat
  fw_token :: usize

definition FUTEX_SHARED_KEY :: usize where "FUTEX_SHARED_KEY = usize_max"

text \<open>\<open>validate_futex_uaddr\<close>: the last argument is the result of the read that proves the word readable.\<close>

definition validate_futex_uaddr :: "usize \<Rightarrow> SysErrNo + i32 \<Rightarrow> SysErrNo + unit" where
  "validate_futex_uaddr uaddr r =
     (if uaddr = 0 then Inl EFAULT
      else if uaddr mod 4 \<noteq> 0 then Inl EINVAL
      else (case r of Inl e \<Rightarrow> Inl e | Inr _ \<Rightarrow> Inr ()))"

section \<open>Waking\<close>

fun take_waiter :: "(FutexWaiter \<Rightarrow> bool) \<Rightarrow> FutexWaiter list \<Rightarrow> (FutexWaiter \<times> FutexWaiter list) option" where
  "take_waiter P [] = None"
| "take_waiter P (x # ws) = (if P x then Some (x, ws) else map_option (\<lambda>(y, rest). (y, x # rest)) (take_waiter P ws))"

lemma take_waiter_length: "take_waiter P ws = Some (x, rest) \<Longrightarrow> length ws = Suc (length rest)"
  by (induction ws arbitrary: rest) (auto split: if_splits)

definition futex_matches :: "usize \<Rightarrow> usize \<Rightarrow> 64 word \<Rightarrow> FutexWaiter \<Rightarrow> bool" where
  "futex_matches uaddr key bitset x \<longleftrightarrow> fw_uaddr x = uaddr \<and> fw_key x = key \<and> fw_bitset x AND bitset \<noteq> 0"

function futex_wake_loop ::
  "nat \<Rightarrow> (FutexWaiter \<Rightarrow> bool) \<Rightarrow> nat \<Rightarrow> FutexWaiter list \<Rightarrow> scheduler \<Rightarrow> FutexWaiter list \<times> scheduler \<times> nat" where
  "futex_wake_loop n P woke ws s =
     (if woke < n then
        (case take_waiter P ws of
           None \<Rightarrow> (ws, s, woke)
         | Some (x, rest) \<Rightarrow>
             (case wake_task_token_with (fw_task x) (fw_token x) Woken s of
                (s1, b) \<Rightarrow> futex_wake_loop n P (if b then woke + 1 else woke) rest s1))
      else (ws, s, woke))"
  by auto
termination
  by (relation "measure (\<lambda>(n, P, woke, ws, s). length ws)") (auto dest: take_waiter_length)

declare futex_wake_loop.simps [simp del]

definition futex_wake_addr_key ::
  "usize \<Rightarrow> usize \<Rightarrow> nat \<Rightarrow> 64 word \<Rightarrow> FutexWaiter list \<Rightarrow> scheduler \<Rightarrow> FutexWaiter list \<times> scheduler \<times> nat" where
  "futex_wake_addr_key uaddr key n bitset ws s =
     (if uaddr = 0 \<or> n = 0 then (ws, s, 0) else futex_wake_loop n (futex_matches uaddr key bitset) 0 ws s)"

text \<open>\<open>shared\<close> is the result of \<open>futex_addr_key_for_op\<close> for a shared futex.\<close>

definition futex_wake_addr_private_and_shared ::
  "usize \<Rightarrow> (SysErrNo + usize \<times> usize) \<Rightarrow> usize \<Rightarrow> nat \<Rightarrow> FutexWaiter list \<Rightarrow> scheduler \<Rightarrow> FutexWaiter list \<times> scheduler \<times> nat" where
  "futex_wake_addr_private_and_shared task_key shared uaddr n ws s =
     (case futex_wake_addr_key uaddr task_key n (- 1) ws s of
        (ws1, s1, private_woke) \<Rightarrow>
          (if n - private_woke = 0 then (ws1, s1, private_woke)
           else (case shared of
                   Inl _ \<Rightarrow> (ws1, s1, private_woke)
                 | Inr (addr, key) \<Rightarrow>
                     (case futex_wake_addr_key addr key (n - private_woke) (- 1) ws1 s1 of
                        (ws2, s2, shared_woke) \<Rightarrow> (ws2, s2, private_woke + shared_woke)))))"

definition futex_wake_addr_bitset ::
  "usize \<Rightarrow> (SysErrNo + usize \<times> usize) \<Rightarrow> nat \<Rightarrow> 64 word \<Rightarrow> FutexWaiter list \<Rightarrow> scheduler \<Rightarrow> FutexWaiter list \<times> scheduler \<times> (SysErrNo + nat)" where
  "futex_wake_addr_bitset uaddr target n bitset ws s =
     (if uaddr = 0 \<or> n = 0 then (ws, s, Inr 0)
      else (case target of
              Inl e \<Rightarrow> (ws, s, Inl e)
            | Inr (addr, key) \<Rightarrow>
                (case futex_wake_addr_key addr key n bitset ws s of (ws1, s1, k) \<Rightarrow> (ws1, s1, Inr k))))"

section \<open>Requeueing\<close>

text \<open>Both loops walk the vector by index; the first removes what it collects, the second changes entries in place.\<close>

fun collect_waiters :: "(FutexWaiter \<Rightarrow> bool) \<Rightarrow> nat \<Rightarrow> FutexWaiter list \<Rightarrow> FutexWaiter list \<times> FutexWaiter list" where
  "collect_waiters P n [] = ([], [])"
| "collect_waiters P n (x # ws) =
     (if n = 0 then ([], x # ws)
      else if P x then (case collect_waiters P (n - 1) ws of (taken, rest) \<Rightarrow> (x # taken, rest))
      else (case collect_waiters P n ws of (taken, rest) \<Rightarrow> (taken, x # rest)))"

fun move_waiters :: "(FutexWaiter \<Rightarrow> bool) \<Rightarrow> usize \<Rightarrow> usize \<Rightarrow> nat \<Rightarrow> FutexWaiter list \<Rightarrow> FutexWaiter list \<times> nat" where
  "move_waiters P addr2 key2 n [] = ([], 0)"
| "move_waiters P addr2 key2 n (x # ws) =
     (if n = 0 then (x # ws, 0)
      else if P x then (case move_waiters P addr2 key2 (n - 1) ws of (ws', k) \<Rightarrow> (x\<lparr>fw_uaddr := addr2, fw_key := key2\<rparr> # ws', k + 1))
      else (case move_waiters P addr2 key2 n ws of (ws', k) \<Rightarrow> (x # ws', k)))"

fun wake_collected :: "FutexWaiter list \<Rightarrow> scheduler \<Rightarrow> scheduler \<times> nat" where
  "wake_collected [] s = (s, 0)"
| "wake_collected (x # xs) s =
     (case wake_task_token_with (fw_task x) (fw_token x) Woken s of
        (s1, b) \<Rightarrow> (case wake_collected xs s1 of (s2, k) \<Rightarrow> (s2, if b then k + 1 else k)))"

definition requeue_waiters ::
  "usize \<times> usize \<Rightarrow> usize \<times> usize \<Rightarrow> nat \<Rightarrow> nat \<Rightarrow> FutexWaiter list \<Rightarrow> FutexWaiter list \<times> FutexWaiter list \<times> nat" where
  "requeue_waiters from dest nr_wake nr_requeue ws =
     (let P = (\<lambda>x. fw_uaddr x = fst from \<and> fw_key x = snd from)
      in case collect_waiters P nr_wake ws of
           (to_wake, ws1) \<Rightarrow> (case move_waiters P (fst dest) (snd dest) nr_requeue ws1 of (ws2, requeued) \<Rightarrow> (to_wake, ws2, requeued)))"

text \<open>
  \<open>r1\<close>, \<open>r2\<close> are the reads that validate the two words, \<open>cmp\<close> the expected value with the read it is compared with, \<open>t1\<close>, \<open>t2\<close> the addresses and keys.
\<close>

definition futex_requeue_addr ::
  "usize \<Rightarrow> SysErrNo + i32 \<Rightarrow> usize \<Rightarrow> SysErrNo + i32 \<Rightarrow> nat \<Rightarrow> nat \<Rightarrow> (i32 \<times> (SysErrNo + i32)) option \<Rightarrow> SysErrNo + usize \<times> usize
     \<Rightarrow> SysErrNo + usize \<times> usize \<Rightarrow> FutexWaiter list \<Rightarrow> scheduler \<Rightarrow> FutexWaiter list \<times> scheduler \<times> (SysErrNo + nat)" where
  "futex_requeue_addr uaddr r1 uaddr2 r2 nr_wake nr_requeue cmp t1 t2 ws s =
     (case validate_futex_uaddr uaddr r1 of
        Inl e \<Rightarrow> (ws, s, Inl e)
      | Inr _ \<Rightarrow>
          (case (if nr_requeue \<noteq> 0 then validate_futex_uaddr uaddr2 r2 else Inr ()) of
             Inl e \<Rightarrow> (ws, s, Inl e)
           | Inr _ \<Rightarrow>
               (case (case cmp of None \<Rightarrow> Inr () | Some (expected, Inl e) \<Rightarrow> Inl e
                                | Some (expected, Inr v) \<Rightarrow> if v \<noteq> expected then Inl EAGAIN else Inr ()) of
                  Inl e \<Rightarrow> (ws, s, Inl e)
                | Inr _ \<Rightarrow>
                    (case t1 of
                       Inl e \<Rightarrow> (ws, s, Inl e)
                     | Inr from \<Rightarrow>
                         (case (if nr_requeue = 0 then Inr (uaddr2, snd from) else t2) of
                            Inl e \<Rightarrow> (ws, s, Inl e)
                          | Inr dest \<Rightarrow>
                              (case requeue_waiters from dest nr_wake nr_requeue ws of
                                 (to_wake, ws2, requeued) \<Rightarrow>
                                   (case wake_collected to_wake s of (s1, woke) \<Rightarrow> (ws2, s1, Inr (woke + requeued)))))))))"

section \<open>The operation word\<close>

definition sign_extend_12 :: "64 word \<Rightarrow> i32" where
  "sign_extend_12 v =
     (let x = ucast (v AND 0xfff) :: i32 in if x AND 0x800 \<noteq> 0 then x OR NOT 0xfff else x)"

definition futex_wake_op_arg :: "64 word \<Rightarrow> (nat \<times> i32 \<times> nat \<times> i32) option" where
  "futex_wake_op_arg encoded =
     (let op = drop_bit 28 encoded AND 0xf; cmp = drop_bit 24 encoded AND 0xf; raw = drop_bit 12 encoded AND 0xfff;
          cmparg = sign_extend_12 encoded; op' = op AND NOT 0x8
      in if op AND 0x8 \<noteq> 0
         then (if raw \<ge> 32 then None else Some (unat op', push_bit (unat raw) 1, unat cmp, cmparg))
         else Some (unat op', sign_extend_12 raw, unat cmp, cmparg))"

definition futex_op_apply :: "nat \<Rightarrow> i32 \<Rightarrow> i32 \<Rightarrow> i32 option" where
  "futex_op_apply op old oparg =
     (if op = 0 then Some oparg
      else if op = 1 then Some (old + oparg)
      else if op = 2 then Some (old OR oparg)
      else if op = 3 then Some (old AND NOT oparg)
      else if op = 4 then Some (old XOR oparg)
      else None)"

definition futex_cmp_matches :: "nat \<Rightarrow> i32 \<Rightarrow> i32 \<Rightarrow> bool option" where
  "futex_cmp_matches cmp old cmparg =
     (if cmp = 0 then Some (old = cmparg)
      else if cmp = 1 then Some (old \<noteq> cmparg)
      else if cmp = 2 then Some (sint old < sint cmparg)
      else if cmp = 3 then Some (sint old \<le> sint cmparg)
      else if cmp = 4 then Some (sint old > sint cmparg)
      else if cmp = 5 then Some (sint old \<ge> sint cmparg)
      else None)"

text \<open>The second component is the word stored at \<open>uaddr2\<close>; the store may fail.\<close>

definition futex_wake_op ::
  "usize \<Rightarrow> SysErrNo + i32 \<Rightarrow> usize \<Rightarrow> SysErrNo + i32 \<Rightarrow> (SysErrNo + unit) \<Rightarrow> nat \<Rightarrow> nat \<Rightarrow> 64 word \<Rightarrow> SysErrNo + usize \<times> usize
     \<Rightarrow> SysErrNo + usize \<times> usize \<Rightarrow> FutexWaiter list \<Rightarrow> scheduler \<Rightarrow> FutexWaiter list \<times> scheduler \<times> i32 option \<times> (SysErrNo + nat)" where
  "futex_wake_op uaddr r1 uaddr2 r2 stored nr_wake nr_wake2 encoded t1 t2 ws s =
     (case validate_futex_uaddr uaddr r1 of
        Inl e \<Rightarrow> (ws, s, None, Inl e)
      | Inr _ \<Rightarrow>
          (case validate_futex_uaddr uaddr2 r2 of
             Inl e \<Rightarrow> (ws, s, None, Inl e)
           | Inr _ \<Rightarrow>
               (case (futex_wake_op_arg encoded, r2) of
                  (None, _) \<Rightarrow> (ws, s, None, Inl EINVAL)
                | (Some _, Inl e) \<Rightarrow> (ws, s, None, Inl e)
                | (Some (op, oparg, cmp, cmparg), Inr old) \<Rightarrow>
                    (case futex_op_apply op old oparg of
                       None \<Rightarrow> (ws, s, None, Inl EINVAL)
                     | Some new \<Rightarrow>
                         (case stored of
                            Inl e \<Rightarrow> (ws, s, None, Inl e)
                          | Inr _ \<Rightarrow>
                              (case futex_cmp_matches cmp old cmparg of
                                 None \<Rightarrow> (ws, s, Some new, Inl EINVAL)
                               | Some holds \<Rightarrow>
                                   (case futex_wake_addr_bitset uaddr t1 nr_wake (- 1) ws s of
                                      (ws1, s1, Inl e) \<Rightarrow> (ws1, s1, Some new, Inl e)
                                    | (ws1, s1, Inr woke) \<Rightarrow>
                                        if \<not> holds then (ws1, s1, Some new, Inr woke)
                                        else (case futex_wake_addr_bitset uaddr2 t2 nr_wake2 (- 1) ws1 s1 of
                                                (ws2, s2, Inl e) \<Rightarrow> (ws2, s2, Some new, Inl e)
                                              | (ws2, s2, Inr woke2) \<Rightarrow> (ws2, s2, Some new, Inr (woke + woke2))))))))))"

section \<open>Waiting\<close>

fun remove_futex_waiter :: "nat \<Rightarrow> usize \<Rightarrow> FutexWaiter list \<Rightarrow> FutexWaiter list \<times> bool" where
  "remove_futex_waiter p token [] = ([], False)"
| "remove_futex_waiter p token (x # ws) =
     (if fw_task x = p \<and> fw_token x = token then (ws, True)
      else (case remove_futex_waiter p token ws of (rest, b) \<Rightarrow> (x # rest, b)))"

definition remove_futex_waiters_for_task :: "nat \<Rightarrow> FutexWaiter list \<Rightarrow> FutexWaiter list \<times> nat" where
  "remove_futex_waiters_for_task p ws = (filter (\<lambda>x. fw_task x \<noteq> p) ws, length (filter (\<lambda>x. fw_task x = p) ws))"

fun futex_outcome :: "WaitOutcome \<Rightarrow> SysErrNo + nat" where
  "futex_outcome TimedOut = Inl ETIMEDOUT"
| "futex_outcome Interrupted = Inl EINTR"
| "futex_outcome Woken = Inr 0"

record futex_state =
  fx_waiters :: "FutexWaiter list"
  fx_timers :: "TimerWaiter list"
  fx_sched :: scheduler

definition finish_resumed_futex_wait :: "nat \<Rightarrow> futex_state \<Rightarrow> futex_state \<times> (SysErrNo + nat) option" where
  "finish_resumed_futex_wait p st =
     (let t = tcb (fx_sched st) p
      in case wait_outcome t of
           None \<Rightarrow> (st, None)
         | Some outcome \<Rightarrow>
             (\<lparr>fx_waiters = fst (remove_futex_waiter p (wait_token t) (fx_waiters st)), fx_timers = fst (remove_timeout p (wait_token t) (fx_timers st)),
               fx_sched = set_task p (\<lambda>t. t\<lparr>wait_outcome := None, block_reason := None\<rparr>) (fx_sched st)\<rparr>,
              Some (futex_outcome outcome)))"

text \<open>Up to the registration: \<open>v1\<close> is the first read of the word, \<open>expired\<close> whether the deadline has passed.\<close>

definition futex_wait_register ::
  "nat \<Rightarrow> usize \<Rightarrow> i32 \<Rightarrow> 64 word \<Rightarrow> SysErrNo + i32 \<Rightarrow> bool \<Rightarrow> SysErrNo + usize \<times> usize \<Rightarrow> futex_state \<Rightarrow> futex_state \<times> (SysErrNo + nat) option" where
  "futex_wait_register p uaddr val bitset v1 expired target st =
     (if bitset = 0 then (st, Some (Inl EINVAL))
      else (case validate_futex_uaddr uaddr v1 of
              Inl e \<Rightarrow> (st, Some (Inl e))
            | Inr _ \<Rightarrow>
                (case v1 of
                   Inl e \<Rightarrow> (st, Some (Inl e))
                 | Inr v \<Rightarrow>
                     if v \<noteq> val then (st, Some (Inl EAGAIN))
                     else if expired then (st, Some (Inl ETIMEDOUT))
                     else (case target of
                             Inl e \<Rightarrow> (st, Some (Inl e))
                           | Inr (addr, key) \<Rightarrow>
                               (let s = set_task p (\<lambda>t. (next_wait_token t)\<lparr>wait_outcome := None, block_reason := Some FutexWait\<rparr>) (fx_sched st)
                                in (\<lparr>fx_waiters = fst (remove_futex_waiters_for_task p (fx_waiters st))
                                       @ [\<lparr>fw_uaddr = addr, fw_key = key, fw_bitset = bitset, fw_task = p, fw_token = wait_token (tcb s p)\<rparr>],
                                     fx_timers = fst (remove_task_timeouts p (fx_timers st)), fx_sched = s\<rparr>, None))))))"

definition futex_wait_cancel :: "nat \<Rightarrow> futex_state \<Rightarrow> futex_state" where
  "futex_wait_cancel p st =
     st\<lparr>fx_waiters := fst (remove_futex_waiter p (wait_token (tcb (fx_sched st) p)) (fx_waiters st)),
        fx_sched := set_task p (\<lambda>t. t\<lparr>block_reason := None, wait_outcome := None\<rparr>) (fx_sched st)\<rparr>"

text \<open>The second read \<open>v2\<close>, pending signals and the timeout; \<^const>\<open>None\<close> means the task blocks.\<close>

definition futex_wait_recheck ::
  "nat \<Rightarrow> i32 \<Rightarrow> SysErrNo + i32 \<Rightarrow> bool \<Rightarrow> usize option \<Rightarrow> futex_state \<Rightarrow> futex_state \<times> (SysErrNo + nat) option" where
  "futex_wait_recheck p val v2 pending deadline st =
     (case v2 of
        Inl e \<Rightarrow> (futex_wait_cancel p st, Some (Inl e))
      | Inr v \<Rightarrow>
          if v \<noteq> val then (futex_wait_cancel p st, Some (Inl EAGAIN))
          else if pending then (futex_wait_cancel p st, Some (Inl EINTR))
          else (case deadline of
                  None \<Rightarrow> (st, None)
                | Some d \<Rightarrow> (st\<lparr>fx_timers := add_timeout d p (wait_token (tcb (fx_sched st) p)) (fx_timers st)\<rparr>, None)))"

definition futex_wait_finish :: "nat \<Rightarrow> usize option \<Rightarrow> bool \<Rightarrow> bool \<Rightarrow> futex_state \<Rightarrow> futex_state \<times> (SysErrNo + nat)" where
  "futex_wait_finish p deadline pending expired st =
     (let t = tcb (fx_sched st) p; token = wait_token t;
          still_waiting = snd (remove_futex_waiter p token (fx_waiters st));
          outcome = (case wait_outcome t of
                       Some r \<Rightarrow> r
                     | None \<Rightarrow> if pending then Interrupted
                               else if still_waiting \<and> deadline \<noteq> None \<and> expired then TimedOut else Woken)
      in (\<lparr>fx_waiters = fst (remove_futex_waiter p token (fx_waiters st)),
           fx_timers = (if deadline \<noteq> None then fst (remove_timeout p token (fx_timers st)) else fx_timers st),
           fx_sched = set_task p (\<lambda>t. t\<lparr>block_reason := None, wait_outcome := None\<rparr>) (fx_sched st)\<rparr>,
          futex_outcome outcome))"

section \<open>Dispatch\<close>

text \<open>
  \<open>sys_futex_stub\<close> decodes the operation; the decoded call is run by the definitions above. \<open>rel\<close> and \<open>absolute\<close> are the deadlines the
  two timespec readers return.
\<close>

datatype futex_call =
    CallWait i32 "usize option" "64 word"
  | CallWake nat "64 word"
  | CallRequeue nat nat "i32 option"
  | CallWakeOp nat nat "64 word"

definition sys_futex_decode ::
  "usize \<Rightarrow> SysErrNo + i32 \<Rightarrow> 64 word \<Rightarrow> 64 word \<Rightarrow> 64 word \<Rightarrow> 64 word \<Rightarrow> SysErrNo + usize option \<Rightarrow> SysErrNo + usize option
     \<Rightarrow> SysErrNo + bool \<times> futex_call" where
  "sys_futex_decode uaddr r1 futex_op val timeout val3 rel absolute =
     (let op = futex_op AND 0x7f; priv = (futex_op AND 0x80 \<noteq> 0)
      in if op = 0 then (case rel of Inl e \<Rightarrow> Inl e | Inr d \<Rightarrow> Inr (priv, CallWait (ucast val) d (- 1)))
         else if op = 1 then (case validate_futex_uaddr uaddr r1 of Inl e \<Rightarrow> Inl e | Inr _ \<Rightarrow> Inr (priv, CallWake (unat val) (- 1)))
         else if op = 3 then Inr (priv, CallRequeue (unat val) (unat timeout) None)
         else if op = 4 then Inr (priv, CallRequeue (unat val) (unat timeout) (Some (ucast val3)))
         else if op = 5 then Inr (priv, CallWakeOp (unat val) (unat timeout) val3)
         else if op = 9 then (case absolute of Inl e \<Rightarrow> Inl e | Inr d \<Rightarrow> Inr (priv, CallWait (ucast val) d val3))
         else if op = 10 then
           (case validate_futex_uaddr uaddr r1 of
              Inl e \<Rightarrow> Inl e
            | Inr _ \<Rightarrow> if val3 = 0 then Inl EINVAL else Inr (priv, CallWake (unat val) val3))
         else Inl ENOSYS)"

section \<open>What a wake does\<close>

lemma collect_waiters_correct:
  "collect_waiters P n ws = (taken, rest) \<Longrightarrow>
     taken = take n (filter P ws) \<and> filter P rest = drop n (filter P ws) \<and> filter (\<lambda>x. \<not> P x) rest = filter (\<lambda>x. \<not> P x) ws
     \<and> mset ws = mset taken + mset rest"
proof (induction P n ws arbitrary: taken rest rule: collect_waiters.induct)
  case (2 P n x ws)
  show ?case
  proof (cases n)
    case 0
    then show ?thesis using 2 by simp
  next
    case (Suc k)
    then show ?thesis using 2 by (auto split: prod.splits if_splits)
  qed
qed simp

lemma collect_waiters_0 [simp]: "collect_waiters P 0 ws = ([], ws)"
  by (cases ws) simp_all

lemma take_waiter_None: "take_waiter P ws = None \<longleftrightarrow> filter P ws = []"
  by (induction ws) (auto split: if_splits)

lemma take_waiter_collect:
  "take_waiter P ws = Some (x, rest) \<Longrightarrow>
     filter P ws = x # filter P rest
     \<and> collect_waiters P (Suc k) ws = (case collect_waiters P k rest of (taken, ws') \<Rightarrow> (x # taken, ws'))"
proof (induction ws arbitrary: rest)
  case (Cons y ws)
  show ?case
  proof (cases "P y")
    case True
    then show ?thesis using Cons.prems by (auto split: prod.splits)
  next
    case False
    then obtain rest' where r: "take_waiter P ws = Some (x, rest')" "rest = y # rest'" using Cons.prems by auto
    show ?thesis using Cons.IH [OF r(1)] r(2) False by (cases k) (auto split: prod.splits)
  qed
qed simp

text \<open>The first \<open>k\<close> matching waiters leave the vector and are woken in order; \<open>k\<close> is the least number with enough successes, if there is one.\<close>

definition wake_spec ::
  "nat \<Rightarrow> (FutexWaiter \<Rightarrow> bool) \<Rightarrow> FutexWaiter list \<Rightarrow> scheduler \<Rightarrow> FutexWaiter list \<Rightarrow> scheduler \<Rightarrow> nat \<Rightarrow> bool" where
  "wake_spec n P ws s ws' s' woke \<longleftrightarrow>
     (\<exists>k \<le> length (filter P ws).
        collect_waiters P k ws = (take k (filter P ws), ws') \<and> wake_collected (take k (filter P ws)) s = (s', woke)
        \<and> woke \<le> n \<and> (woke < n \<longrightarrow> k = length (filter P ws)) \<and> (\<forall>j < k. snd (wake_collected (take j (filter P ws)) s) < n))"

lemma futex_wake_loop_correct:
  "woke \<le> n \<Longrightarrow> futex_wake_loop n P woke ws s = (ws', s', tot) \<Longrightarrow>
     woke \<le> tot \<and> wake_spec (n - woke) P ws s ws' s' (tot - woke)"
proof (induction n P woke ws s arbitrary: ws' s' tot rule: futex_wake_loop.induct)
  case (1 n P woke ws s)
  show ?case
  proof (cases "woke < n")
    case False
    then have "ws' = ws" "s' = s" "tot = woke" "n - woke = 0" using 1(3) by (auto simp: futex_wake_loop.simps [of n P woke])
    then show ?thesis by (auto simp: wake_spec_def intro!: exI [of _ 0])
  next
    case lt: True
    show ?thesis
    proof (cases "take_waiter P ws")
      case None
      then have "filter P ws = []" "ws' = ws" "s' = s" "tot = woke"
        using 1(3) lt take_waiter_None [of P ws] by (auto simp: futex_wake_loop.simps [of n P woke])
      then show ?thesis by (simp add: wake_spec_def)
    next
      case (Some xr)
      then obtain x rest where t: "take_waiter P ws = Some (x, rest)" by (cases xr) auto
      obtain s1 b where w: "wake_task_token_with (fw_task x) (fw_token x) Woken s = (s1, b)" by force
      let ?woke = "if b then woke + 1 else woke"
      have loop: "futex_wake_loop n P ?woke rest s1 = (ws', s', tot)" "?woke \<le> n"
        using 1(3) lt t w by (simp_all add: futex_wake_loop.simps [of n P woke])
      have ih: "?woke \<le> tot" "wake_spec (n - ?woke) P rest s1 ws' s' (tot - ?woke)"
        using 1(1) [OF lt t refl w [symmetric] loop(2) loop(1)] by auto
      then obtain k where k: "k \<le> length (filter P rest)" "collect_waiters P k rest = (take k (filter P rest), ws')"
        "wake_collected (take k (filter P rest)) s1 = (s', tot - ?woke)" "tot - ?woke \<le> n - ?woke"
        "tot - ?woke < n - ?woke \<longrightarrow> k = length (filter P rest)"
        "\<forall>j < k. snd (wake_collected (take j (filter P rest)) s1) < n - ?woke"
        by (auto simp: wake_spec_def)
      have fl: "filter P ws = x # filter P rest"
        "collect_waiters P (Suc k) ws = (x # take k (filter P rest), ws')"
        using take_waiter_collect [OF t, of k] k(2) by auto
      have early: "snd (wake_collected (take j (filter P ws)) s) < n - woke" if "j < Suc k" for j
      proof (cases j)
        case 0
        then show ?thesis using lt by simp
      next
        case (Suc i)
        then have "snd (wake_collected (take i (filter P rest)) s1) < n - ?woke" using k(6) that by simp
        then show ?thesis using Suc fl(1) w by (auto split: prod.splits if_splits)
      qed
      have "wake_spec (n - woke) P ws s ws' s' (tot - woke)"
        unfolding wake_spec_def
      proof (intro exI [of _ "Suc k"] conjI)
        show "wake_collected (take (Suc k) (filter P ws)) s = (s', tot - woke)"
          using k(3) w fl(1) ih(1) by (auto split: prod.splits if_splits)
        show "tot - woke \<le> n - woke" using k(4) ih(1) loop(2) by (auto split: if_splits)
        show "tot - woke < n - woke \<longrightarrow> Suc k = length (filter P ws)"
          using k(5) fl(1) ih(1) loop(2) by (auto split: if_splits)
      qed (use k(1) fl early in auto)
      then show ?thesis using ih(1) by (auto split: if_splits)
    qed
  qed
qed

lemma futex_wake_addr_key_spec:
  assumes "futex_wake_addr_key uaddr key n bits ws s = (ws', s', woke)" and "uaddr \<noteq> 0"
  shows "wake_spec n (futex_matches uaddr key bits) ws s ws' s' woke"
proof (cases "n = 0")
  case True
  then show ?thesis using assms by (auto simp: futex_wake_addr_key_def wake_spec_def intro!: exI [of _ 0])
next
  case False
  then have "futex_wake_loop n (futex_matches uaddr key bits) 0 ws s = (ws', s', woke)"
    using assms by (simp add: futex_wake_addr_key_def)
  then show ?thesis using futex_wake_loop_correct [of 0 n "futex_matches uaddr key bits" ws s ws' s' woke] by simp
qed

text \<open>
  C19. \<open>futex_wake_addr_key\<close> takes the waiters on the key whose bitset meets the argument from the front of the vector and wakes them in that
  order, until \<open>n\<close> of them accepted the wake-up or none is left; it returns how many accepted, never more than \<open>n\<close>, less only when
  every matching waiter was taken, and stops as soon as \<open>n\<close> is reached. The other waiters keep their place and order.
\<close>

theorem futex_wake_exact:
  assumes "futex_wake_addr_key uaddr key n bits ws s = (ws', s', woke)" and "uaddr \<noteq> 0"
  defines "ms \<equiv> filter (futex_matches uaddr key bits) ws"
  shows "\<exists>k \<le> length ms.
      wake_collected (take k ms) s = (s', woke) \<and> woke \<le> n \<and> (woke < n \<longrightarrow> k = length ms)
      \<and> (\<forall>j < k. snd (wake_collected (take j ms) s) < n)
      \<and> filter (futex_matches uaddr key bits) ws' = drop k ms
      \<and> filter (\<lambda>x. \<not> futex_matches uaddr key bits x) ws' = filter (\<lambda>x. \<not> futex_matches uaddr key bits x) ws
      \<and> mset ws = mset (take k ms) + mset ws'"
proof -
  note futex_wake_addr_key_spec [OF assms(1,2)]
  then obtain k where "k \<le> length ms" "collect_waiters (futex_matches uaddr key bits) k ws = (take k ms, ws')"
    "wake_collected (take k ms) s = (s', woke)" "woke \<le> n" "woke < n \<longrightarrow> k = length ms"
    "\<forall>j < k. snd (wake_collected (take j ms) s) < n"
    unfolding wake_spec_def ms_def by blast
  then show ?thesis using collect_waiters_correct [of "futex_matches uaddr key bits" k ws "take k ms" ws'] unfolding ms_def by blast
qed

section \<open>What a requeue does\<close>

lemma move_waiters_correct:
  "move_waiters P a k n ws = (ws', moved) \<Longrightarrow>
     moved = min n (length (filter P ws)) \<and> length ws' = length ws
     \<and> (\<forall>i < length ws. ws' ! i = (if P (ws ! i) \<and> length (filter P (take i ws)) < n then (ws ! i)\<lparr>fw_uaddr := a, fw_key := k\<rparr> else ws ! i))"
proof (induction P a k n ws arbitrary: ws' moved rule: move_waiters.induct)
  case (2 P a k n x ws)
  show ?case
  proof (cases n)
    case 0
    then show ?thesis using 2 by simp
  next
    case (Suc m)
    obtain ws1 m1 where r: "move_waiters P a k (if P x then m else n) ws = (ws1, m1)" by force
    have e: "ws' = (if P x then x\<lparr>fw_uaddr := a, fw_key := k\<rparr> else x) # ws1" "moved = (if P x then m1 + 1 else m1)"
      using 2(3) Suc r by (auto split: if_splits)
    have ih: "m1 = min (if P x then m else n) (length (filter P ws))" "length ws1 = length ws"
      "\<forall>i < length ws. ws1 ! i = (if P (ws ! i) \<and> length (filter P (take i ws)) < (if P x then m else n)
                                 then (ws ! i)\<lparr>fw_uaddr := a, fw_key := k\<rparr> else ws ! i)"
      using 2(1) [of ws1 m1] 2(2) [of ws1 m1] Suc r by (auto split: if_splits)
    show ?thesis
    proof (intro conjI allI impI)
      fix i assume i: "i < length (x # ws)"
      show "ws' ! i = (if P ((x # ws) ! i) \<and> length (filter P (take i (x # ws))) < n
                       then ((x # ws) ! i)\<lparr>fw_uaddr := a, fw_key := k\<rparr> else (x # ws) ! i)"
        using i e(1) ih(3) Suc by (cases i) auto
    qed (use e ih Suc in auto)
  qed
qed simp

definition fw_identity :: "FutexWaiter \<Rightarrow> nat \<times> usize \<times> 64 word" where
  "fw_identity x = (fw_task x, fw_token x, fw_bitset x)"

lemma move_waiters_identity: "map fw_identity (fst (move_waiters P a k n ws)) = map fw_identity ws"
  by (induction P a k n ws rule: move_waiters.induct) (auto simp: fw_identity_def split: prod.splits)

lemma collect_waiters_split: "fst (collect_waiters P n ws) = take n (filter P ws)"
  "filter P (snd (collect_waiters P n ws)) = drop n (filter P ws)"
  "mset ws = mset (fst (collect_waiters P n ws)) + mset (snd (collect_waiters P n ws))"
  "filter (\<lambda>x. \<not> P x) (snd (collect_waiters P n ws)) = filter (\<lambda>x. \<not> P x) ws"
  using collect_waiters_correct [of P n ws "fst (collect_waiters P n ws)" "snd (collect_waiters P n ws)"] by simp_all

text \<open>
  C20. A requeue that reports an error changes nothing. One that succeeds has seen the expected value, wakes the first \<open>nr_wake\<close> waiters of the
  source key in order, rewrites address and key of the next \<open>nr_requeue\<close> in place and returns the wake-ups accepted plus the waiters moved;
  all other waiters, and every waiter's task, token and bitset, stay as they were.
\<close>

theorem futex_requeue_exact:
  assumes "futex_requeue_addr uaddr r1 uaddr2 r2 nr_wake nr_requeue cmp t1 t2 ws s = (ws', s', res)"
  shows "case res of
      Inl e \<Rightarrow> ws' = ws \<and> s' = s
    | Inr c \<Rightarrow>
        \<exists>addr key dest woke rest P ms.
          t1 = Inr (addr, key) \<and> (\<forall>expected r. cmp = Some (expected, r) \<longrightarrow> r = Inr expected) \<and> (nr_requeue \<noteq> 0 \<longrightarrow> t2 = Inr dest)
          \<and> P = (\<lambda>x. fw_uaddr x = addr \<and> fw_key x = key) \<and> ms = filter P ws
          \<and> wake_collected (take nr_wake ms) s = (s', woke) \<and> c = woke + min nr_requeue (length ms - nr_wake)
          \<and> mset ws = mset (take nr_wake ms) + mset rest \<and> filter P rest = drop nr_wake ms
          \<and> filter (\<lambda>x. \<not> P x) rest = filter (\<lambda>x. \<not> P x) ws
          \<and> map fw_identity ws' = map fw_identity rest
          \<and> (\<forall>i < length rest. ws' ! i = (if P (rest ! i) \<and> length (filter P (take i rest)) < nr_requeue
                                         then (rest ! i)\<lparr>fw_uaddr := fst dest, fw_key := snd dest\<rparr> else rest ! i))"
proof (cases res)
  case (Inl e)
  then show ?thesis using assms
    by (auto simp: futex_requeue_addr_def split: sum.splits option.splits prod.splits if_splits)
next
  case (Inr c)
  obtain addr key where t1: "t1 = Inr (addr, key)"
    using assms Inr by (auto simp: futex_requeue_addr_def split: sum.splits option.splits prod.splits if_splits)
  define dest where "dest = (if nr_requeue = 0 then (uaddr2, key) else projr t2)"
  define P :: "FutexWaiter \<Rightarrow> bool" where "P = (\<lambda>x. fw_uaddr x = addr \<and> fw_key x = key)"
  have cmp: "\<forall>expected r. cmp = Some (expected, r) \<longrightarrow> r = Inr expected"
    using assms Inr by (auto simp: futex_requeue_addr_def split: sum.splits option.splits prod.splits if_splits)
  have t2: "nr_requeue \<noteq> 0 \<longrightarrow> t2 = Inr dest"
    using assms Inr by (auto simp: futex_requeue_addr_def dest_def split: sum.splits option.splits prod.splits if_splits)
  obtain to_wake ws2 moved where q: "requeue_waiters (addr, key) dest nr_wake nr_requeue ws = (to_wake, ws2, moved)"
    by (metis prod_cases3)
  obtain s1 woke where w: "wake_collected to_wake s = (s1, woke)" by force
  have "futex_requeue_addr uaddr r1 uaddr2 r2 nr_wake nr_requeue cmp t1 t2 ws s = (ws2, s1, Inr (woke + moved))"
    using assms Inr t1 t2 q w
    by (auto simp: futex_requeue_addr_def dest_def split: sum.splits option.splits prod.splits if_splits)
  then have res: "ws' = ws2" "s' = s1" "c = woke + moved" using assms Inr by auto
  define rest where "rest = snd (collect_waiters P nr_wake ws)"
  have to_wake: "to_wake = take nr_wake (filter P ws)" and mv: "move_waiters P (fst dest) (snd dest) nr_requeue rest = (ws2, moved)"
    using q collect_waiters_split(1) [where P = P and n = nr_wake and ws = ws]
    by (auto simp: requeue_waiters_def Let_def rest_def P_def split: prod.splits)
  note m = move_waiters_correct [OF mv] and sp = collect_waiters_split [where P = P and n = nr_wake and ws = ws, folded rest_def]
  have "map fw_identity ws' = map fw_identity rest" using move_waiters_identity [of P "fst dest" "snd dest" nr_requeue rest] mv res by simp
  moreover have "c = woke + min nr_requeue (length (filter P ws) - nr_wake)" using m sp(2) res by simp
  moreover have "mset ws = mset (take nr_wake (filter P ws)) + mset rest" using sp(1,3) by simp
  ultimately show ?thesis
    using t1 cmp t2 w to_wake res m sp(2,4) Inr P_def by (simp only: sum.case) blast
qed

end
