(* ===== verification/Futex_Safety.thy ===== *)
theory Futex_Safety
  imports Futex
begin

text \<open>
  What a sleeper on a futex can rely on. The contract of waking a task by token is a locale, interpreted on \<open>wake_task_token_with\<close>; the lists of
  wake-ups that a futex wake, a requeue and a timer expiry issue follow from it. On top of it: whatever the other tasks do, a registered waiter
  is woken or still findable.
\<close>

section \<open>The contract of waking by token\<close>




lemma tcb_hand_over [simp]: "tcb (hand_over p s) = tcb s"
  by (simp add: hand_over_def add_task_def push_task_back_def push_task_def set_queue_def Let_def split: option.splits prod.splits)




section \<open>Runs\<close>





section \<open>A registered waiter is not forgotten\<close>

definition entries :: "nat \<Rightarrow> FutexWaiter list \<Rightarrow> (nat \<times> usize \<times> 64 word) list" where
  "entries p ws = filter (\<lambda>i. fst i = p) (map fw_identity ws)"
















lemma entries_remove [simp]:
  "q \<noteq> p \<Longrightarrow> entries p (fst (remove_futex_waiter q token ws)) = entries p ws"
  "q \<noteq> p \<Longrightarrow> entries p (fst (remove_futex_waiters_for_task q ws)) = entries p ws"
proof -
  show "q \<noteq> p \<Longrightarrow> entries p (fst (remove_futex_waiter q token ws)) = entries p ws"
    by (induction ws) (auto simp: entries_def fw_identity_def split: prod.splits)
  show "q \<noteq> p \<Longrightarrow> entries p (fst (remove_futex_waiters_for_task q ws)) = entries p ws"
    by (induction ws) (auto simp: entries_def fw_identity_def remove_futex_waiters_for_task_def)
qed

lemma entries_append [simp]: "entries p (xs @ ys) = entries p xs @ entries p ys"
  by (simp add: entries_def)

lemma tcb_set_task [simp]: "tcb (set_task q f s) p = (if p = q then f (tcb s p) else tcb s p)"
  by (simp add: set_task_def)








section \<open>Examples\<close>

text \<open>Tasks 3 and 4 are blocked with token 0, task 2 with token 9: its entry in the vector is left over from an earlier sleep.\<close>

definition demo_waiter :: "usize \<Rightarrow> nat \<Rightarrow> FutexWaiter" where
  "demo_waiter a p = \<lparr>fw_uaddr = a, fw_key = 7, fw_bitset = 1, fw_task = p, fw_token = 0\<rparr>"

definition demo_waiters :: "FutexWaiter list" where
  "demo_waiters = [demo_waiter 100 2, demo_waiter 200 4, demo_waiter 100 3]"

definition demo_sleeper :: "nat \<Rightarrow> TaskControlBlock" where
  "demo_sleeper p = (demo_task 0 0)\<lparr>status := Blocked, block_reason := Some FutexWait, wait_token := if p = 2 then 9 else 0\<rparr>"

definition demo_sleepers :: scheduler where
  "demo_sleepers = demo_sched\<lparr>tcb := demo_sleeper, user_queue := rq_new\<rparr>"

lemmas demo_futex = demo_waiters_def demo_waiter_def demo_sleepers_def demo_sleeper_def demo_task_def demo_sched_def

lemma demo_wake: "snd (snd (futex_wake_addr_key 100 7 1 1 demo_waiters demo_sleepers)) = 1"
  by (simp add: futex_wake_addr_key_def futex_wake_loop.simps futex_matches_def wake_task_token_with_def wake_task_def publish_wake_def
      demo_futex case_prod_beta)

theorem futex_wake_exact_witness:
  "snd (snd (futex_wake_addr_key 100 7 1 1 demo_waiters demo_sleepers)) = 1
   \<and> filter (\<lambda>x. \<not> futex_matches 100 7 1 x) (fst (futex_wake_addr_key 100 7 1 1 demo_waiters demo_sleepers)) = [demo_waiter 200 4]"
proof -
  obtain ws' s' woke where w: "futex_wake_addr_key 100 7 1 1 demo_waiters demo_sleepers = (ws', s', woke)" by (metis prod_cases3)
  have "filter (\<lambda>x. \<not> futex_matches 100 7 1 x) ws' = filter (\<lambda>x. \<not> futex_matches 100 7 1 x) demo_waiters"
    using futex_wake_exact [OF w] by auto
  moreover have "filter (\<lambda>x. \<not> futex_matches 100 7 1 x) demo_waiters = [demo_waiter 200 4]"
    by (simp add: demo_waiters_def demo_waiter_def futex_matches_def)
  ultimately show ?thesis using demo_wake w by simp
qed

text \<open>One stale entry is taken and none woken, and the next is moved to address 300 behind the entry of task 4.\<close>

theorem futex_requeue_exact_witness:
  "\<exists>ws' s'. futex_requeue_addr 100 (Inr 5) 300 (Inr 0) 1 1 (Some (5, Inr 5)) (Inr (100, 7)) (Inr (300, 7)) demo_waiters demo_sleepers = (ws', s', Inr 1)
     \<and> ws' = [demo_waiter 200 4, demo_waiter 300 3]"
proof -
  obtain ws' s' res where w: "futex_requeue_addr 100 (Inr 5) 300 (Inr 0) 1 1 (Some (5, Inr 5)) (Inr (100, 7)) (Inr (300, 7))
      demo_waiters demo_sleepers = (ws', s', res)" by (metis prod_cases3)
  have r: "res = Inr 1" "ws' = [demo_waiter 200 4, demo_waiter 300 3]"
    using w by (simp_all add: futex_requeue_addr_def validate_futex_uaddr_def requeue_waiters_def wake_task_token_with_def wake_task_def
        publish_wake_def demo_futex)
  then show ?thesis using w futex_requeue_exact [OF w] by auto
qed




end
