(* ===== verification/Robust_List.thy ===== *)
theory Robust_List
  imports Futex
begin

unbundle bit_operations_syntax

text \<open>
  The robust list of a dying task (\<open>process_robust_list_on_exit\<close>, \<open>os/src/syscall/other.rs\<close>): the kernel walks a linked list in user memory and
  releases the futexes the task still owns. User memory is the map from addresses to the bytes that copies from and to it reach, with the
  addresses a copy may write. \<open>isize\<close> arithmetic is on \<^typ>\<open>int\<close> with its bounds written out; additions without a check wrap, as in the
  release build. The addresses and keys of shared futexes (\<open>futex_addr_key_for_op\<close>) are an argument.
\<close>

section \<open>User memory\<close>

record user_memory =
  um_byte :: "usize \<Rightarrow> 8 word option"
  um_writable :: "usize \<Rightarrow> bool"

definition user_load :: "nat \<Rightarrow> usize \<Rightarrow> user_memory \<Rightarrow> 8 word list option" where
  "user_load n a m =
     (if a = 0 \<or> a + n > 2 ^ 64 \<or> list_ex (\<lambda>i. um_byte m (a + i) = None) [0..<n] then None
      else Some (map (\<lambda>i. the (um_byte m (a + i))) [0..<n]))"

definition user_store :: "usize \<Rightarrow> 8 word list \<Rightarrow> user_memory \<Rightarrow> user_memory option" where
  "user_store a bs m =
     (if a = 0 \<or> a + length bs > 2 ^ 64 \<or> list_ex (\<lambda>i. um_byte m (a + i) = None \<or> \<not> um_writable m (a + i)) [0..<length bs] then None
      else Some (m\<lparr>um_byte := (\<lambda>x. if a \<le> x \<and> x < a + length bs then Some (bs ! (x - a)) else um_byte m x)\<rparr>))"

definition from_le :: "8 word list \<Rightarrow> nat" where
  "from_le bs = foldr (\<lambda>b acc. unat b + 256 * acc) bs 0"

definition i32_bytes :: "i32 \<Rightarrow> 8 word list" where
  "i32_bytes v = [ucast v, ucast (drop_bit 8 v), ucast (drop_bit 16 v), ucast (drop_bit 24 v)]"

definition read_usize_at :: "usize \<Rightarrow> user_memory \<Rightarrow> usize option" where
  "read_usize_at a m = map_option from_le (user_load 8 a m)"

definition read_i32_at :: "usize \<Rightarrow> user_memory \<Rightarrow> i32 option" where
  "read_i32_at a m = map_option (\<lambda>bs. word_of_nat (from_le bs)) (user_load 4 a m)"

definition write_i32_at :: "usize \<Rightarrow> i32 \<Rightarrow> user_memory \<Rightarrow> user_memory option" where
  "write_i32_at a v m = user_store a (i32_bytes v) m"

section \<open>The walk\<close>

definition ROBUST_LIST_HEAD_SIZE :: usize where "ROBUST_LIST_HEAD_SIZE = 24"
definition FUTEX_TID_MASK :: i32 where "FUTEX_TID_MASK = 0x3fffffff"
definition FUTEX_OWNER_DIED :: i32 where "FUTEX_OWNER_DIED = 0x40000000"
definition FUTEX_WAITERS :: i32 where "FUTEX_WAITERS = 0x80000000"
definition MAX_ROBUST_ENTRIES :: nat where "MAX_ROBUST_ENTRIES = 2048"

record robust_state =
  rb_memory :: user_memory
  rb_waiters :: "FutexWaiter list"
  rb_sched :: scheduler

record robust_owner =
  robust_list_head :: usize
  robust_list_len :: usize

definition sys_set_robust_list :: "usize \<Rightarrow> usize \<Rightarrow> robust_owner \<Rightarrow> robust_owner \<times> (SysErrNo + nat)" where
  "sys_set_robust_list head len t =
     (if len \<noteq> ROBUST_LIST_HEAD_SIZE then (t, Inl EINVAL) else (t\<lparr>robust_list_head := head, robust_list_len := len\<rparr>, Inr 0))"

definition take_robust_exit_state :: "robust_owner \<Rightarrow> robust_owner \<times> (usize \<times> usize) option" where
  "take_robust_exit_state t =
     (t\<lparr>robust_list_head := 0, robust_list_len := 0\<rparr>,
      if robust_list_head t \<noteq> 0 then Some (robust_list_head t, robust_list_len t) else None)"

definition as_isize :: "usize \<Rightarrow> int" where
  "as_isize a = (if a < 2 ^ 63 then int a else int a - 2 ^ 64)"

definition entry_futex_addr :: "usize \<Rightarrow> int \<Rightarrow> usize option" where
  "entry_futex_addr entry futex_offset =
     (let a = as_isize entry + futex_offset in if - (2 ^ 63) \<le> a \<and> a < 2 ^ 63 \<and> 0 \<le> a then Some (nat a) else None)"

definition owner_died :: "i32 \<Rightarrow> i32" where
  "owner_died v = (v AND FUTEX_WAITERS) OR FUTEX_OWNER_DIED"

definition mark_entry ::
  "usize \<Rightarrow> (usize \<Rightarrow> SysErrNo + usize \<times> usize) \<Rightarrow> i32 \<Rightarrow> usize \<Rightarrow> int \<Rightarrow> usize \<Rightarrow> robust_state \<Rightarrow> robust_state" where
  "mark_entry task_key shared tid head futex_offset entry st =
     (if entry = 0 \<or> entry = head then st
      else (case entry_futex_addr entry futex_offset of
              None \<Rightarrow> st
            | Some futex_addr \<Rightarrow>
                (case read_i32_at futex_addr (rb_memory st) of
                   None \<Rightarrow> st
                 | Some v \<Rightarrow>
                     if v AND FUTEX_TID_MASK \<noteq> tid then st
                     else (case write_i32_at futex_addr (owner_died v) (rb_memory st) of
                             None \<Rightarrow> st
                           | Some m \<Rightarrow>
                               (case futex_wake_addr_private_and_shared task_key (shared futex_addr) futex_addr 1 (rb_waiters st) (rb_sched st) of
                                  (ws, s, _) \<Rightarrow> \<lparr>rb_memory = m, rb_waiters = ws, rb_sched = s\<rparr>)))))"

fun robust_walk ::
  "nat \<Rightarrow> usize \<Rightarrow> (usize \<Rightarrow> SysErrNo + usize \<times> usize) \<Rightarrow> i32 \<Rightarrow> usize \<Rightarrow> int \<Rightarrow> usize \<Rightarrow> robust_state \<Rightarrow> robust_state" where
  "robust_walk 0 task_key shared tid head off next_entry st = st"
| "robust_walk (Suc n) task_key shared tid head off next_entry st =
     (if next_entry = 0 \<or> next_entry = head then st
      else (let st1 = mark_entry task_key shared tid head off next_entry st
            in case read_usize_at next_entry (rb_memory st1) of
                 None \<Rightarrow> st1
               | Some new_next \<Rightarrow> robust_walk n task_key shared tid head off new_next st1))"

definition process_robust_list_on_exit ::
  "usize \<Rightarrow> (usize \<Rightarrow> SysErrNo + usize \<times> usize) \<Rightarrow> i32 \<Rightarrow> robust_owner \<Rightarrow> robust_state \<Rightarrow> robust_owner \<times> robust_state" where
  "process_robust_list_on_exit task_key shared tid t st =
     (case take_robust_exit_state t of
        (t', None) \<Rightarrow> (t', st)
      | (t', Some (head, len)) \<Rightarrow>
          if len \<noteq> ROBUST_LIST_HEAD_SIZE then (t', st)
          else (case read_usize_at (wrapping_add head 8) (rb_memory st) of
                  None \<Rightarrow> (t', st)
                | Some raw \<Rightarrow>
                    (let pending = (case read_usize_at (wrapping_add head 16) (rb_memory st) of None \<Rightarrow> 0 | Some x \<Rightarrow> x)
                     in case read_usize_at head (rb_memory st) of
                          None \<Rightarrow> (t', st)
                        | Some first_entry \<Rightarrow>
                            (t', robust_walk MAX_ROBUST_ENTRIES task_key shared tid head (as_isize raw) first_entry
                                   (mark_entry task_key shared tid head (as_isize raw) pending st)))))"

section \<open>Memory laws\<close>

definition store32 :: "usize \<Rightarrow> i32 \<Rightarrow> user_memory \<Rightarrow> user_memory" where
  "store32 a v m = m\<lparr>um_byte := (\<lambda>x. if a \<le> x \<and> x < a + 4 then Some (i32_bytes v ! (x - a)) else um_byte m x)\<rparr>"

definition word_usable :: "usize \<Rightarrow> user_memory \<Rightarrow> bool" where
  "word_usable a m \<longleftrightarrow> a \<noteq> 0 \<and> a + 4 \<le> 2 ^ 64 \<and> (\<forall>i < 4. um_byte m (a + i) \<noteq> None \<and> um_writable m (a + i))"

lemma i32_bytes_length [simp]: "length (i32_bytes v) = 4"
  by (simp add: i32_bytes_def)

lemma le_roundtrip: "word_of_nat (from_le (i32_bytes v)) = v"
proof -
  have "unat v < 2 ^ LENGTH(32)" by (rule unsigned_less)
  then have top: "unat v div 16777216 mod 256 = unat v div 16777216" by (simp add: div_less_iff_less_mult)
  have "unat v div 65536 = unat v div 256 div 256" "unat v div 16777216 = unat v div 256 div 256 div 256"
    by (simp_all add: div_mult2_eq [symmetric])
  moreover have "x mod 256 + 256 * (x div 256) = x" for x :: nat by simp
  ultimately have "unat v mod 256 + 256 * (unat v div 256 mod 256 + 256 * (unat v div 65536 mod 256 + 256 * (unat v div 16777216))) = unat v"
    by metis
  then have "from_le (i32_bytes v) = unat v"
    using top by (simp add: from_le_def i32_bytes_def unsigned_ucast_eq unsigned_drop_bit_eq take_bit_eq_mod drop_bit_eq_div unat_div)
  then show ?thesis by simp
qed

lemma list_ex_upt: "list_ex P [0..<n] \<longleftrightarrow> (\<exists>i < n. P i)"
  by (auto simp: list_ex_iff)

lemma write_usable: "write_i32_at a v m = (if word_usable a m then Some (store32 a v m) else None)"
  by (auto simp: write_i32_at_def user_store_def store32_def word_usable_def list_ex_upt)

lemma load_other:
  assumes "a + n \<le> t \<or> t + 4 \<le> a" and "\<And>i. i < 4 \<Longrightarrow> um_byte m (t + i) \<noteq> None"
  shows "user_load n a (store32 t v m) = user_load n a m"
proof -
  have "um_byte (store32 t v m) (a + i) = um_byte m (a + i)" if "i < n" for i
    using assms(1) that by (auto simp: store32_def)
  then show ?thesis by (auto simp: user_load_def list_ex_upt)
qed

lemma load_same:
  assumes "word_usable t m"
  shows "read_i32_at t (store32 t v m) = Some v"
proof -
  have "map (\<lambda>i. the (um_byte (store32 t v m) (t + i))) [0..<4] = i32_bytes v"
    by (rule nth_equalityI) (simp_all add: store32_def)
  then have "user_load 4 t (store32 t v m) = Some (i32_bytes v)"
    using assms by (auto simp: user_load_def list_ex_upt word_usable_def store32_def)
  then show ?thesis by (simp add: read_i32_at_def le_roundtrip)
qed

lemma usable_store [simp]: "word_usable a (store32 t v m) \<longleftrightarrow> word_usable a m" if "word_usable t m"
proof -
  have "um_byte (store32 t v m) (a + i) \<noteq> None \<longleftrightarrow> um_byte m (a + i) \<noteq> None" for i
  proof (cases "t \<le> a + i \<and> a + i < t + 4")
    case True
    then have "a + i - t < 4" "t + (a + i - t) = a + i" by auto
    then have "um_byte m (a + i) \<noteq> None" using that by (metis word_usable_def)
    then show ?thesis using True by (simp add: store32_def)
  qed (auto simp: store32_def)
  then show ?thesis by (simp add: word_usable_def store32_def)
qed

section \<open>What the walk may do to any memory\<close>

text \<open>One release: a word whose owner field is \<open>tid\<close> becomes ownerless, marked, with its waiters bit kept.\<close>

definition releases_word :: "i32 \<Rightarrow> user_memory \<Rightarrow> user_memory \<Rightarrow> bool" where
  "releases_word tid m m' \<longleftrightarrow>
     (\<exists>a v. word_usable a m \<and> read_i32_at a m = Some v \<and> v AND FUTEX_TID_MASK = tid \<and> m' = store32 a (owner_died v) m)"

lemma owner_died_fields:
  "owner_died v AND FUTEX_TID_MASK = 0" "owner_died v AND FUTEX_WAITERS = v AND FUTEX_WAITERS"
  "owner_died v AND FUTEX_OWNER_DIED = FUTEX_OWNER_DIED"
proof -
  have "FUTEX_WAITERS AND FUTEX_TID_MASK = 0" "FUTEX_OWNER_DIED AND FUTEX_TID_MASK = 0" "FUTEX_OWNER_DIED AND FUTEX_WAITERS = 0"
    by (simp_all add: FUTEX_WAITERS_def FUTEX_TID_MASK_def FUTEX_OWNER_DIED_def)
  then show "owner_died v AND FUTEX_TID_MASK = 0" "owner_died v AND FUTEX_WAITERS = v AND FUTEX_WAITERS"
    "owner_died v AND FUTEX_OWNER_DIED = FUTEX_OWNER_DIED"
    by (simp_all add: owner_died_def and.assoc bit.conj_disj_distrib2 and.commute [of FUTEX_WAITERS FUTEX_OWNER_DIED])
qed

lemma releases_wordI:
  "word_usable a m \<Longrightarrow> read_i32_at a m = Some v \<Longrightarrow> v AND FUTEX_TID_MASK = tid \<Longrightarrow> releases_word tid m (store32 a (owner_died v) m)"
  unfolding releases_word_def by blast

lemma mark_entry_releases: "(releases_word tid)\<^sup>*\<^sup>* (rb_memory st) (rb_memory (mark_entry key shared tid head off e st))"
  by (auto simp: mark_entry_def write_usable intro!: r_into_rtranclp releases_wordI split: option.splits prod.splits)

lemma robust_walk_releases: "(releases_word tid)\<^sup>*\<^sup>* (rb_memory st) (rb_memory (robust_walk n key shared tid head off e st))"
proof (induction n arbitrary: e st)
  case (Suc n)
  let ?st1 = "mark_entry key shared tid head off e st"
  have "(releases_word tid)\<^sup>*\<^sup>* (rb_memory st) (rb_memory (robust_walk n key shared tid head off e' ?st1))" for e'
    using rtranclp_trans [OF mark_entry_releases Suc.IH] .
  then show ?case using mark_entry_releases by (auto simp: Let_def split: option.splits)
qed simp

section \<open>What it does to a proper list\<close>

text \<open>
  \<open>visits\<close> are the futex words in the order the walk meets them; a word is released at its first visit if the task owns it in the memory the
  walk started from.
\<close>

definition owned_words :: "i32 \<Rightarrow> user_memory \<Rightarrow> usize list \<Rightarrow> usize list" where
  "owned_words tid m visits =
     rev (remdups (rev (filter (\<lambda>a. \<exists>v. read_i32_at a m = Some v \<and> v AND FUTEX_TID_MASK = tid) visits)))"

definition released :: "user_memory \<Rightarrow> usize list \<Rightarrow> user_memory" where
  "released m ws = fold (\<lambda>a. store32 a (owner_died (the (read_i32_at a m)))) ws m"

definition wake_one ::
  "usize \<Rightarrow> (usize \<Rightarrow> SysErrNo + usize \<times> usize) \<Rightarrow> usize \<Rightarrow> FutexWaiter list \<times> scheduler \<Rightarrow> FutexWaiter list \<times> scheduler" where
  "wake_one key shared a = (\<lambda>(ws, s). case futex_wake_addr_private_and_shared key (shared a) a 1 ws s of (ws', s', _) \<Rightarrow> (ws', s'))"

definition after_visits ::
  "usize \<Rightarrow> (usize \<Rightarrow> SysErrNo + usize \<times> usize) \<Rightarrow> i32 \<Rightarrow> robust_state \<Rightarrow> usize list \<Rightarrow> robust_state" where
  "after_visits key shared tid st visits =
     (let ws = owned_words tid (rb_memory st) visits; w = fold (wake_one key shared) ws (rb_waiters st, rb_sched st)
      in \<lparr>rb_memory = released (rb_memory st) ws, rb_waiters = fst w, rb_sched = snd w\<rparr>)"

definition separate :: "usize set \<Rightarrow> bool" where
  "separate W \<longleftrightarrow> (\<forall>a \<in> W. \<forall>b \<in> W. a \<noteq> b \<longrightarrow> a + 4 \<le> b \<or> b + 4 \<le> a)"

lemma owned_words_snoc:
  "owned_words tid m (vs @ [a]) =
     (if a \<notin> set vs \<and> (\<exists>v. read_i32_at a m = Some v \<and> v AND FUTEX_TID_MASK = tid)
      then owned_words tid m vs @ [a] else owned_words tid m vs)"
  by (auto simp: owned_words_def)

lemma owned_words_set: "set (owned_words tid m vs) = {a \<in> set vs. \<exists>v. read_i32_at a m = Some v \<and> v AND FUTEX_TID_MASK = tid}"
  by (auto simp: owned_words_def)

lemma owned_words_distinct: "distinct (owned_words tid m vs)"
  by (simp add: owned_words_def)

lemma released_snoc: "released m (ws @ [a]) = store32 a (owner_died (the (read_i32_at a m))) (released m ws)"
  by (simp add: released_def)

lemma released_usable: "\<forall>a \<in> set ws. word_usable a m \<Longrightarrow> word_usable b (released m ws) \<longleftrightarrow> word_usable b m"
proof (induction ws arbitrary: b rule: rev_induct)
  case (snoc a ws)
  then have "word_usable a (released m ws)" by simp
  then show ?case using snoc by (simp add: released_snoc)
qed (simp add: released_def)

lemma released_load:
  assumes "\<forall>a \<in> set ws. word_usable a m" and "\<forall>a \<in> set ws. b + n \<le> a \<or> a + 4 \<le> b"
  shows "user_load n b (released m ws) = user_load n b m"
  using assms
proof (induction ws rule: rev_induct)
  case (snoc a ws)
  have "word_usable a (released m ws)" using snoc.prems released_usable [of ws m a] by simp
  then show ?case using snoc load_other [of b n a "released m ws"] by (simp add: released_snoc word_usable_def)
qed (simp add: released_def)

lemma released_word:
  assumes "\<forall>a \<in> set ws. word_usable a m" and "separate (set ws)" and "distinct ws" and "b \<in> set ws"
  shows "read_i32_at b (released m ws) = Some (owner_died (the (read_i32_at b m)))"
  using assms
proof (induction ws rule: rev_induct)
  case (snoc a ws)
  have u: "word_usable a (released m ws)" using snoc.prems released_usable [of ws m a] by simp
  show ?case
  proof (cases "b = a")
    case True
    then show ?thesis using load_same [OF u] by (simp add: released_snoc)
  next
    case False
    have "read_i32_at b (released m ws) = Some (owner_died (the (read_i32_at b m)))"
      using snoc False by (auto simp: separate_def)
    moreover have "b + 4 \<le> a \<or> a + 4 \<le> b" using snoc.prems False by (auto simp: separate_def)
    ultimately show ?thesis using load_other [of b 4 a "released m ws"] u by (simp add: released_snoc read_i32_at_def word_usable_def)
  qed
qed simp

lemma usable_reads: "word_usable a m \<Longrightarrow> \<exists>v. read_i32_at a m = Some v"
  by (auto simp: word_usable_def read_i32_at_def user_load_def list_ex_upt)

lemma mark_after_visits:
  assumes "tid \<noteq> 0" and "\<forall>b \<in> set (vs @ [a]). word_usable b (rb_memory st)" and "separate (set (vs @ [a]))"
    and "e \<noteq> 0" "e \<noteq> head" "entry_futex_addr e off = Some a"
  shows "mark_entry key shared tid head off e (after_visits key shared tid st vs) = after_visits key shared tid st (vs @ [a])"
proof -
  let ?m = "rb_memory st" and ?ws = "owned_words tid (rb_memory st) vs"
  obtain v where v: "read_i32_at a ?m = Some v" using usable_reads [of a ?m] assms(2) by auto
  have us: "\<forall>b \<in> set ?ws. word_usable b ?m" using assms(2) by (auto simp: owned_words_set)
  have sep: "separate (set ?ws)" using assms(3) by (auto simp: separate_def owned_words_set)
  have ua: "word_usable a (released ?m ?ws)" using released_usable [OF us] assms(2) by simp
  show ?thesis
  proof (cases "a \<in> set ?ws")
    case True
    then have "read_i32_at a (released ?m ?ws) = Some (owner_died v)"
      using released_word [OF us sep owned_words_distinct] v by simp
    moreover have "owned_words tid ?m (vs @ [a]) = ?ws" using True by (auto simp: owned_words_snoc owned_words_set)
    ultimately show ?thesis using assms(1,4,5,6) owner_died_fields(1) by (simp add: mark_entry_def after_visits_def Let_def)
  next
    case False
    have "a + 4 \<le> b \<or> b + 4 \<le> a" if "b \<in> set ?ws" for b
    proof -
      have "b \<in> set (vs @ [a])" "b \<noteq> a" using that False by (auto simp: owned_words_set)
      then show ?thesis using assms(3) unfolding separate_def by auto
    qed
    then have r: "read_i32_at a (released ?m ?ws) = Some v"
      using released_load [OF us, of a 4] v by (simp add: read_i32_at_def)
    show ?thesis
    proof (cases "v AND FUTEX_TID_MASK = tid")
      case True
      then have "a \<notin> set vs" using False v by (auto simp: owned_words_set)
      then have "owned_words tid ?m (vs @ [a]) = ?ws @ [a]" using True v by (simp add: owned_words_snoc)
      then show ?thesis using assms(4,5,6) r ua True v
        by (simp add: mark_entry_def after_visits_def Let_def write_usable released_snoc wake_one_def case_prod_beta)
    next
      case other: False
      then have "owned_words tid ?m (vs @ [a]) = ?ws" using v by (auto simp: owned_words_snoc)
      then show ?thesis using assms(4,5,6) r other by (simp add: mark_entry_def after_visits_def Let_def)
    qed
  qed
qed

fun robust_chain :: "user_memory \<Rightarrow> usize \<Rightarrow> usize \<Rightarrow> usize list \<Rightarrow> bool" where
  "robust_chain m head x [] \<longleftrightarrow> x = 0 \<or> x = head"
| "robust_chain m head x (e # es) \<longleftrightarrow>
     x = e \<and> e \<noteq> 0 \<and> e \<noteq> head \<and> (case read_usize_at e m of None \<Rightarrow> False | Some y \<Rightarrow> robust_chain m head y es)"

lemma robust_walk_visits:
  assumes "tid \<noteq> 0" and "robust_chain (rb_memory st) head x es" and "length es \<le> n"
    and "map (\<lambda>e. entry_futex_addr e off) es = map Some ts"
    and "\<forall>a \<in> set (vs @ ts). word_usable a (rb_memory st)" and "separate (set (vs @ ts))"
    and "\<forall>e \<in> set es. \<forall>a \<in> set (vs @ ts). e + 8 \<le> a \<or> a + 4 \<le> e"
  shows "robust_walk n key shared tid head off x (after_visits key shared tid st vs) = after_visits key shared tid st (vs @ ts)"
  using assms(2-)
proof (induction es arbitrary: x n vs ts)
  case Nil
  then show ?case by (cases n) auto
next
  case (Cons e es)
  obtain k where n: "n = Suc k" using Cons.prems(2) by (cases n) auto
  obtain a ts' where ts: "ts = a # ts'" "entry_futex_addr e off = Some a" "map (\<lambda>e. entry_futex_addr e off) es = map Some ts'"
    using Cons.prems(3) by (cases ts) auto
  obtain y where y: "read_usize_at e (rb_memory st) = Some y" "robust_chain (rb_memory st) head y es" and e: "x = e" "e \<noteq> 0" "e \<noteq> head"
    using Cons.prems(1) by (auto split: option.splits)
  let ?st1 = "after_visits key shared tid st (vs @ [a])"
  have "separate (set (vs @ [a]))" using Cons.prems(5) ts(1) by (auto simp: separate_def)
  then have m: "mark_entry key shared tid head off e (after_visits key shared tid st vs) = ?st1"
    using mark_after_visits [OF assms(1)] Cons.prems(4) ts e by simp
  have ow: "set (owned_words tid (rb_memory st) (vs @ [a])) \<subseteq> set (vs @ ts)" using ts(1) by (auto simp: owned_words_set)
  have "read_usize_at e (rb_memory ?st1) = Some y"
    using released_load [of "owned_words tid (rb_memory st) (vs @ [a])" "rb_memory st" e 8] ow Cons.prems(4,6) y(1)
    by (auto simp: after_visits_def Let_def read_usize_at_def subset_iff)
  moreover have "robust_walk k key shared tid head off y ?st1 = after_visits key shared tid st ((vs @ [a]) @ ts')"
    by (rule Cons.IH [OF y(2) _ ts(3)]) (use Cons.prems(2,4,5,6) ts(1) n in simp_all)
  ultimately show ?case using n e m ts(1) by (simp add: Let_def)
qed

lemma released_elsewhere: "\<forall>a \<in> set ws. \<not> (a \<le> x \<and> x < a + 4) \<Longrightarrow> um_byte (released m ws) x = um_byte m x"
  by (induction ws rule: rev_induct) (auto simp: released_snoc released_def store32_def)

lemma released_read:
  assumes "\<forall>a \<in> set vs. word_usable a m" and "separate (set vs)" and "b \<in> set vs" and "read_i32_at b m = Some v"
  shows "read_i32_at b (released m (owned_words tid m vs)) = Some (if v AND FUTEX_TID_MASK = tid then owner_died v else v)"
proof -
  let ?ws = "owned_words tid m vs"
  have us: "\<forall>a \<in> set ?ws. word_usable a m" "separate (set ?ws)" using assms(1,2) by (auto simp: owned_words_set separate_def)
  show ?thesis
  proof (cases "v AND FUTEX_TID_MASK = tid")
    case True
    then show ?thesis using released_word [OF us owned_words_distinct] assms(3,4) by (simp add: owned_words_set)
  next
    case False
    then have "b \<notin> set ?ws" using assms(4) by (simp add: owned_words_set)
    then have "b + 4 \<le> a \<or> a + 4 \<le> b" if "a \<in> set ?ws" for a
    proof -
      have "a \<in> set vs" "a \<noteq> b" using that \<open>b \<notin> set ?ws\<close> by (auto simp: owned_words_set)
      then show ?thesis using assms(2,3) unfolding separate_def by blast
    qed
    then show ?thesis using released_load [OF us(1), of b 4] False assms(4) by (simp add: read_i32_at_def)
  qed
qed

text \<open>
  Whatever list a dying task left in its memory, circular or forged, \<open>process_robust_list_on_exit\<close> returns, forgets the list, and every
  store it made turned a word whose owner field was the dying task's into one without owner, with the owner-died mark and the waiters bit it
  had; nothing else of the memory changes.
\<close>

theorem robust_exit_only_releases:
  "robust_list_head (fst (process_robust_list_on_exit key shared tid t st)) = 0
   \<and> (releases_word tid)\<^sup>*\<^sup>* (rb_memory st) (rb_memory (snd (process_robust_list_on_exit key shared tid t st)))"
  using rtranclp_trans [OF mark_entry_releases robust_walk_releases]
  by (auto simp: process_robust_list_on_exit_def take_robust_exit_state_def Let_def split: option.splits)

text \<open>
  C21. A proper robust list (at most 2048 entries ending in the head or null, futex words that can be written and overlap neither each other
  nor the links) is released exactly: every word of an entry or of the pending operation that the dying task owned loses its owner and gets
  the owner-died mark, every other keeps its value; no byte outside the released words changes, and each released word has one waiter
  woken, once and in the order of the list.
\<close>

theorem robust_list_exact:
  fixes st :: robust_state
  defines "m \<equiv> rb_memory st"
  assumes head: "robust_list_head t = head" "head \<noteq> 0" "robust_list_len t = ROBUST_LIST_HEAD_SIZE" and tid: "tid \<noteq> 0"
    and reads: "read_usize_at (wrapping_add head 8) m = Some raw" "read_usize_at (wrapping_add head 16) m = Some pending"
      "read_usize_at head m = Some first_entry"
    and chain: "robust_chain m head first_entry es" "length es \<le> 2048" "map (\<lambda>e. entry_futex_addr e (as_isize raw)) es = map Some ts"
    and pend: "if pending = 0 \<or> pending = head then vs = [] else map Some vs = [entry_futex_addr pending (as_isize raw)]"
    and apart: "\<forall>a \<in> set (vs @ ts). word_usable a m" "separate (set (vs @ ts))"
      "\<forall>e \<in> set es. \<forall>a \<in> set (vs @ ts). e + 8 \<le> a \<or> a + 4 \<le> e"
    and run: "process_robust_list_on_exit key shared tid t st = (t', st')"
  shows "(\<forall>a \<in> set (vs @ ts). \<forall>v. read_i32_at a m = Some v
            \<longrightarrow> read_i32_at a (rb_memory st') = Some (if v AND FUTEX_TID_MASK = tid then owner_died v else v))
    \<and> (\<forall>x. (\<forall>a \<in> set (owned_words tid m (vs @ ts)). \<not> (a \<le> x \<and> x < a + 4)) \<longrightarrow> um_byte (rb_memory st') x = um_byte m x)
    \<and> (rb_waiters st', rb_sched st') = fold (wake_one key shared) (owned_words tid m (vs @ ts)) (rb_waiters st, rb_sched st)"
proof -
  have start: "after_visits key shared tid st [] = st" by (simp add: after_visits_def owned_words_def released_def)
  have "mark_entry key shared tid head (as_isize raw) pending st = after_visits key shared tid st vs"
  proof (cases "pending = 0 \<or> pending = head")
    case True
    then show ?thesis using pend start by (simp add: mark_entry_def)
  next
    case False
    then obtain a where "vs = [a]" "entry_futex_addr pending (as_isize raw) = Some a" using pend by (cases vs) auto
    then show ?thesis using mark_after_visits [of tid "[]" a st pending head "as_isize raw" key shared] tid apart False start
      by (simp add: m_def separate_def)
  qed
  then have st': "st' = after_visits key shared tid st (vs @ ts)"
    using run head reads chain(2) robust_walk_visits [OF tid chain(1) [unfolded m_def] _ chain(3) apart [unfolded m_def], of MAX_ROBUST_ENTRIES key shared]
    by (simp add: process_robust_list_on_exit_def take_robust_exit_state_def MAX_ROBUST_ENTRIES_def m_def)
  have mem: "rb_memory st' = released m (owned_words tid m (vs @ ts))" by (simp add: st' after_visits_def Let_def m_def)
  have wakes: "(rb_waiters st', rb_sched st') = fold (wake_one key shared) (owned_words tid m (vs @ ts)) (rb_waiters st, rb_sched st)"
    by (simp add: st' after_visits_def Let_def m_def)
  show ?thesis unfolding mem
    using released_read [OF apart(1,2)] released_elsewhere wakes by blast
qed

section \<open>Example\<close>

text \<open>A head at 1000, one entry at 2000 whose futex word lies 8 bytes behind it; task 5 owns it and somebody waits.\<close>

definition robust_demo_memory :: user_memory where
  "robust_demo_memory =
     \<lparr>um_byte = (\<lambda>x. if x = 1000 then Some 0xD0 else if x = 1001 then Some 7 else if x = 1008 then Some 8
                     else if x = 2000 then Some 0xE8 else if x = 2001 then Some 3 else if x = 2008 then Some 5
                     else if x = 2011 then Some 0x80 else Some 0),
      um_writable = (\<lambda>_. True)\<rparr>"

definition robust_demo :: robust_state where
  "robust_demo = \<lparr>rb_memory = robust_demo_memory, rb_waiters = [], rb_sched = demo_sched\<rparr>"

lemma robust_demo_reads:
  "read_usize_at 1000 robust_demo_memory = Some 2000" "read_usize_at 1008 robust_demo_memory = Some 8"
  "read_usize_at 1016 robust_demo_memory = Some 0" "read_usize_at 2000 robust_demo_memory = Some 1000"
  "read_i32_at 2008 robust_demo_memory = Some 0x80000005"
  by (simp_all add: read_usize_at_def read_i32_at_def user_load_def robust_demo_memory_def from_le_def upt_rec)

lemma robust_demo_usable: "word_usable 2008 robust_demo_memory"
  by (simp add: word_usable_def robust_demo_memory_def)

theorem robust_list_exact_witness:
  "read_i32_at 2008 (rb_memory (snd (process_robust_list_on_exit 1 (\<lambda>_. Inl EFAULT) 5 \<lparr>robust_list_head = 1000, robust_list_len = 24\<rparr> robust_demo)))
     = Some 0xC0000000"
proof -
  let ?t = "\<lparr>robust_list_head = 1000, robust_list_len = 24\<rparr>"
  obtain t' st' where run: "process_robust_list_on_exit 1 (\<lambda>_. Inl EFAULT) 5 ?t robust_demo = (t', st')" by force
  have m: "rb_memory robust_demo = robust_demo_memory" by (simp add: robust_demo_def)
  have w: "wrapping_add 1000 8 = 1008" "wrapping_add 1000 16 = 1016" by (simp_all add: wrapping_add_def)
  have c: "robust_chain robust_demo_memory 1000 2000 [2000]" by (simp add: robust_demo_reads)
  have o: "map (\<lambda>e. entry_futex_addr e (as_isize 8)) [2000] = map Some [2008]" by (simp add: entry_futex_addr_def as_isize_def)
  have "\<forall>a \<in> set ([] @ [2008]). \<forall>v. read_i32_at a robust_demo_memory = Some v
          \<longrightarrow> read_i32_at a (rb_memory st') = Some (if v AND FUTEX_TID_MASK = 5 then owner_died v else v)"
    using robust_list_exact [of ?t 1000 5 robust_demo 8 0 2000 "[2000]" "[2008]" "[]", OF _ _ _ _ _ _ _ _ _ _ _ _ _ _ run]
      c o robust_demo_reads robust_demo_usable
    by (simp add: m w ROBUST_LIST_HEAD_SIZE_def separate_def)
  then have "read_i32_at 2008 (rb_memory st') = Some (owner_died 0x80000005)"
    using robust_demo_reads(5) by (simp add: FUTEX_TID_MASK_def)
  then show ?thesis using run by (simp add: owner_died_def FUTEX_WAITERS_def FUTEX_OWNER_DIED_def)
qed

end
