(* ===== verification/Path.thy ===== *)
theory Path
  imports Kernel_Types "HOL-Library.Sublist"
begin

text \<open>
  Path strings (\<open>os/src/fs/mod.rs\<close>): normalisation with its fast path, resolution against a working directory, confinement to a root, parents,
  children and descendants. A string is its bytes. Normalised absolute paths correspond to lists of components; the theories on
  file systems reason about those lists.
\<close>

section \<open>String operations of the standard library\<close>

text \<open>\<open>split('/')\<close>, which yields at least one piece, and \<open>join("/")\<close>.\<close>

fun split_slash :: "string \<Rightarrow> string list" where
  "split_slash [] = [[]]"
| "split_slash (c # s) =
     (if c = CHR ''/'' then [] # split_slash s
      else (case split_slash s of [] \<Rightarrow> [[c]] | p # ps \<Rightarrow> (c # p) # ps))"

fun join_slash :: "string list \<Rightarrow> string" where
  "join_slash [] = []"
| "join_slash [p] = p"
| "join_slash (p # q # ps) = p @ CHR ''/'' # join_slash (q # ps)"

definition starts_with :: "string \<Rightarrow> string \<Rightarrow> bool" where
  "starts_with s p \<longleftrightarrow> prefix p s"

definition ends_with_slash :: "string \<Rightarrow> bool" where
  "ends_with_slash s \<longleftrightarrow> s \<noteq> [] \<and> last s = CHR ''/''"

definition strip_prefix :: "string \<Rightarrow> string \<Rightarrow> string option" where
  "strip_prefix s p = (if prefix p s then Some (drop (length p) s) else None)"

definition trim_end_slash :: "string \<Rightarrow> string" where
  "trim_end_slash s = rev (dropWhile (\<lambda>c. c = CHR ''/'') (rev s))"

definition trim_start_slash :: "string \<Rightarrow> string" where
  "trim_start_slash s = dropWhile (\<lambda>c. c = CHR ''/'') s"

text \<open>\<open>rfind('/')\<close>.\<close>

fun rfind_slash :: "string \<Rightarrow> nat option" where
  "rfind_slash [] = None"
| "rfind_slash (c # s) =
     (case rfind_slash s of Some i \<Rightarrow> Some (Suc i) | None \<Rightarrow> if c = CHR ''/'' then Some 0 else None)"

section \<open>Normalisation\<close>

text \<open>The scan over byte positions: the argument is what follows the current position, it included.\<close>

definition starts_piece_end :: "string \<Rightarrow> bool" where
  "starts_piece_end s \<longleftrightarrow> s = [] \<or> hd s = CHR ''/''"

fun scan_normalized :: "string \<Rightarrow> bool" where
  "scan_normalized [] = True"
| "scan_normalized (c # s) =
     ((if c = CHR ''/'' then
         (case s of
            [] \<Rightarrow> True
          | d # after_dot \<Rightarrow>
              if d = CHR ''/'' then False
              else if d = CHR ''.'' then
                (if starts_piece_end after_dot then False
                 else if hd after_dot = CHR ''.'' then \<not> starts_piece_end (tl after_dot)
                 else True)
              else True)
       else True) \<and> scan_normalized s)"

definition path_is_already_normalized :: "string \<Rightarrow> bool" where
  "path_is_already_normalized path =
     (if path = [] \<or> path = ''.'' \<or> path = ''..'' then False
      else if length path > 1 \<and> ends_with_slash path then False
      else if starts_with path ''./'' \<or> starts_with path ''../'' then False
      else scan_normalized path)"

fun push_part :: "string \<Rightarrow> string list \<Rightarrow> string list" where
  "push_part part parts =
     (if part = [] \<or> part = ''.'' then parts
      else if part = ''..'' then butlast parts
      else parts @ [part])"

definition path_parts :: "string \<Rightarrow> string list" where
  "path_parts path = fold push_part (split_slash path) []"

definition normalize_parts :: "string \<Rightarrow> string" where
  "normalize_parts path =
     (let normalized = (if starts_with path ''/'' then ''/'' else []) @ join_slash (path_parts path)
      in if normalized = [] then ''.''
         else if length normalized > 1 \<and> ends_with_slash normalized then trim_end_slash normalized
         else normalized)"

definition normalize_path :: "string \<Rightarrow> string" where
  "normalize_path path = (if path_is_already_normalized path then path else normalize_parts path)"

section \<open>Resolution\<close>

definition resolve_path :: "string \<Rightarrow> string \<Rightarrow> string" where
  "resolve_path cwd path =
     (if starts_with path ''/'' then normalize_path path
      else if cwd = ''/'' then normalize_path (''/'' @ path)
      else normalize_path (cwd @ ''/'' @ path))"

definition apply_root :: "string \<Rightarrow> string \<Rightarrow> string" where
  "apply_root root logical_path =
     (let logical = normalize_path logical_path
      in if root = ''/'' then logical
         else (let root' = normalize_path root
               in if root' = ''/'' then logical
                  else if logical = ''/'' then root'
                  else normalize_path (root' @ ''/'' @ trim_start_slash logical)))"

definition resolve_path_with_root :: "string \<Rightarrow> string \<Rightarrow> string \<Rightarrow> string" where
  "resolve_path_with_root root cwd path = apply_root root (resolve_path cwd path)"

definition file_name :: "string \<Rightarrow> string" where
  "file_name path = (case find (\<lambda>part. part \<noteq> []) (rev (split_slash path)) of Some part \<Rightarrow> part | None \<Rightarrow> [])"

definition parent_path :: "string \<Rightarrow> string" where
  "parent_path path =
     (let trimmed = trim_end_slash (normalize_path path)
      in if trimmed = [] \<or> trimmed = ''/'' then ''/''
         else (case rfind_slash trimmed of
                 None \<Rightarrow> ''/''
               | Some pos \<Rightarrow> if pos = 0 then ''/'' else take pos trimmed))"

definition local_tail :: "string \<Rightarrow> string \<Rightarrow> string option" where
  "local_tail norm root =
     (case strip_prefix norm root of
        None \<Rightarrow> None
      | Some tail \<Rightarrow> if tail = [] then Some ''/'' else if starts_with tail ''/'' then Some tail else None)"

definition is_memfs_volatile_dir :: "string \<Rightarrow> bool" where
  "is_memfs_volatile_dir path =
     (let norm = normalize_path path;
          here = (case local_tail norm ''/musl'' of
                     Some t \<Rightarrow> t
                   | None \<Rightarrow> (case local_tail norm ''/glibc'' of Some t \<Rightarrow> t | None \<Rightarrow> norm))
      in here = ''/tmp'' \<or> starts_with here ''/tmp/'' \<or> here = ''/var/tmp'' \<or> starts_with here ''/var/tmp/''
         \<or> here = ''/dev/shm'' \<or> starts_with here ''/dev/shm/'')"

definition is_memfs_overlay_create_dir :: "string \<Rightarrow> bool" where
  "is_memfs_overlay_create_dir path = is_memfs_volatile_dir (normalize_path path)"

definition child_name :: "string \<Rightarrow> string \<Rightarrow> string option" where
  "child_name parent child =
     (if child = parent \<or> \<not> starts_with child parent then None
      else (case (if parent = ''/'' then strip_prefix child ''/''
                  else (case strip_prefix child parent of None \<Rightarrow> None | Some r \<Rightarrow> strip_prefix r ''/'')) of
              None \<Rightarrow> None
            | Some rest \<Rightarrow> if rest = [] \<or> CHR ''/'' \<in> set rest then None else Some rest))"

definition is_descendant :: "string \<Rightarrow> string \<Rightarrow> bool" where
  "is_descendant parent child \<longleftrightarrow>
     (case strip_prefix child parent of None \<Rightarrow> False | Some rest \<Rightarrow> strip_prefix rest ''/'' \<noteq> None)"

section \<open>Splitting and joining\<close>

definition proper_part :: "string \<Rightarrow> bool" where
  "proper_part p \<longleftrightarrow> p \<noteq> [] \<and> p \<noteq> ''.'' \<and> p \<noteq> ''..'' \<and> CHR ''/'' \<notin> set p"

definition proper_parts :: "string list \<Rightarrow> bool" where
  "proper_parts ps \<longleftrightarrow> (\<forall>p \<in> set ps. proper_part p)"

lemma split_slash_nonempty [simp]: "split_slash s \<noteq> []"
  by (cases s) (auto split: list.splits)

lemma split_slash_no_slash: "p \<in> set (split_slash s) \<Longrightarrow> CHR ''/'' \<notin> set p"
  by (induction s arbitrary: p) (auto split: list.splits if_splits)

lemma join_Cons: "ps \<noteq> [] \<Longrightarrow> join_slash (p # ps) = p @ CHR ''/'' # join_slash ps"
  by (cases ps) simp_all

lemma join_split [simp]: "join_slash (split_slash s) = s"
proof (induction s)
  case (Cons c s)
  obtain p ps where ps: "split_slash s = p # ps" by (cases "split_slash s") simp_all
  then have "join_slash ((c # p) # ps) = c # join_slash (p # ps)" by (cases ps) simp_all
  then show ?case using Cons ps by (simp add: join_Cons)
qed simp

lemma split_append_slash: "split_slash (a @ CHR ''/'' # b) = split_slash a @ split_slash b"
proof (induction a)
  case (Cons c a)
  obtain p ps where "split_slash a = p # ps" by (cases "split_slash a") simp_all
  then show ?case using Cons by simp
qed simp

lemma split_plain: "CHR ''/'' \<notin> set p \<Longrightarrow> split_slash p = [p]"
  by (induction p) auto

lemma split_join: "ps \<noteq> [] \<Longrightarrow> \<forall>p \<in> set ps. CHR ''/'' \<notin> set p \<Longrightarrow> split_slash (join_slash ps) = ps"
proof (induction ps)
  case (Cons p ps)
  show ?case
  proof (cases "ps = []")
    case True
    then show ?thesis using Cons.prems by (simp add: split_plain)
  next
    case False
    then show ?thesis using Cons by (simp add: join_Cons split_append_slash split_plain)
  qed
qed simp

lemma fold_push_proper: "proper_parts ps \<Longrightarrow> fold push_part ps acc = acc @ ps"
  by (induction ps arbitrary: acc) (auto simp: proper_parts_def proper_part_def)

lemma push_part_proper: "proper_parts acc \<Longrightarrow> CHR ''/'' \<notin> set p \<Longrightarrow> proper_parts (push_part p acc)"
  by (auto simp: proper_parts_def proper_part_def dest: in_set_butlastD)

lemma fold_push_keeps: "proper_parts acc \<Longrightarrow> \<forall>p \<in> set ps. CHR ''/'' \<notin> set p \<Longrightarrow> proper_parts (fold push_part ps acc)"
proof (induction ps arbitrary: acc)
  case (Cons p ps)
  then show ?case using push_part_proper [of acc p] by (simp del: push_part.simps)
qed simp

lemma path_parts_proper [simp]: "proper_parts (path_parts s)"
proof -
  have "\<forall>p \<in> set (split_slash s). CHR ''/'' \<notin> set p" using split_slash_no_slash by blast
  then show ?thesis using fold_push_keeps [of "[]" "split_slash s"] by (simp add: path_parts_def proper_parts_def)
qed

lemma join_proper_last:
  assumes "proper_parts ps" "ps \<noteq> []"
  shows "join_slash ps \<noteq> []" "last (join_slash ps) \<noteq> CHR ''/''" "hd (join_slash ps) \<noteq> CHR ''/''"
proof -
  have "join_slash ps \<noteq> [] \<and> last (join_slash ps) \<noteq> CHR ''/'' \<and> hd (join_slash ps) \<noteq> CHR ''/''" using assms
  proof (induction ps)
    case (Cons p ps)
    have pp: "p \<noteq> []" "CHR ''/'' \<notin> set p" using Cons.prems by (simp_all add: proper_parts_def proper_part_def)
    then have p: "p \<noteq> []" "last p \<noteq> CHR ''/''" "hd p \<noteq> CHR ''/''" using last_in_set [of p] hd_in_set [of p] by metis+
    show ?case
    proof (cases "ps = []")
      case True
      then show ?thesis using p by simp
    next
      case False
      have "proper_parts ps" using Cons.prems by (simp add: proper_parts_def)
      then show ?thesis using Cons.IH False p by (simp add: join_Cons)
    qed
  qed simp
  then show "join_slash ps \<noteq> []" "last (join_slash ps) \<noteq> CHR ''/''" "hd (join_slash ps) \<noteq> CHR ''/''" by auto
qed

text \<open>The path of a list of components.\<close>

definition abs_path :: "string list \<Rightarrow> string" where
  "abs_path ps = CHR ''/'' # join_slash ps"

lemma starts_slash: "starts_with s ''/'' \<longleftrightarrow> s \<noteq> [] \<and> hd s = CHR ''/''"
  by (cases s) (auto simp: starts_with_def)

lemma normalize_parts_eq:
  "normalize_parts s =
     (if starts_with s ''/'' then abs_path (path_parts s) else if path_parts s = [] then ''.'' else join_slash (path_parts s))"
  using join_proper_last [OF path_parts_proper, of s]
  by (cases "path_parts s = []") (auto simp: normalize_parts_def Let_def abs_path_def ends_with_slash_def)

section \<open>The fast path agrees with the slow one\<close>

lemma split_hd:
  "split_slash s = h # ts \<Longrightarrow> (h = [] \<longleftrightarrow> starts_piece_end s) \<and> (starts_piece_end s \<or> hd h = hd s)"
  by (cases s) (auto simp: starts_piece_end_def split: list.splits if_splits)

lemma split_tl: "split_slash (c # s) = h # ts \<Longrightarrow> c \<noteq> CHR ''/'' \<Longrightarrow> split_slash s = tl h # ts \<and> hd h = c \<and> h \<noteq> []"
  by (auto split: list.splits)

lemma scan_split:
  "split_slash s = h # ts \<Longrightarrow>
     scan_normalized s \<longleftrightarrow> (\<forall>t \<in> set ts. t \<noteq> ''.'' \<and> t \<noteq> ''..'') \<and> (\<forall>t \<in> set (butlast ts). t \<noteq> [])"
proof (induction s arbitrary: h ts)
  case (Cons c s)
  show ?case
  proof (cases "c = CHR ''/''")
    case False
    then have "split_slash s = tl h # ts" using split_tl Cons.prems by blast
    then show ?thesis using Cons.IH False by simp
  next
    case True
    then have ts: "h = []" "split_slash s = ts" using Cons.prems by simp_all
    obtain g us where gu: "ts = g # us" using ts(2) split_slash_nonempty by (cases ts) metis+
    have ih: "scan_normalized s \<longleftrightarrow> (\<forall>t \<in> set us. t \<noteq> ''.'' \<and> t \<noteq> ''..'') \<and> (\<forall>t \<in> set (butlast us). t \<noteq> [])"
      using Cons.IH ts(2) gu by simp
    show ?thesis
    proof (cases s)
      case Nil
      then show ?thesis using True ts gu by simp
    next
      case (Cons d r)
      show ?thesis
      proof (cases "d = CHR ''/''")
        case slash: True
        then have "g = []" "us \<noteq> []" using ts gu Cons by auto
        then show ?thesis using True slash Cons gu by auto
      next
        case False
        then have g: "split_slash r = tl g # us" "hd g = d" "g \<noteq> []" using split_tl ts(2) gu Cons by blast+
        have tail: "tl g = [] \<longleftrightarrow> starts_piece_end r" using split_hd [OF g(1)] by blast
        have dots: "g = ''..'' \<longleftrightarrow> d = CHR ''.'' \<and> \<not> starts_piece_end r \<and> hd r = CHR ''.'' \<and> starts_piece_end (tl r)"
        proof (cases "starts_piece_end r")
          case True
          then show ?thesis using tail by (cases g) auto
        next
          case notend: False
          then obtain e r' where r: "r = e # r'" "e \<noteq> CHR ''/''" by (cases r) (auto simp: starts_piece_end_def)
          then have g': "split_slash r' = tl (tl g) # us" "hd (tl g) = e" "tl g \<noteq> []" using split_tl g(1) by blast+
          have "tl (tl g) = [] \<longleftrightarrow> starts_piece_end r'" using split_hd [OF g'(1)] by blast
          then show ?thesis using g(2,3) g'(2,3) notend r by (cases g; cases "tl g") auto
        qed
        have dot: "g = ''.'' \<longleftrightarrow> d = CHR ''.'' \<and> starts_piece_end r" using tail g(2,3) by (cases g) auto
        have "scan_normalized (c # s) \<longleftrightarrow> g \<noteq> ''.'' \<and> g \<noteq> ''..'' \<and> scan_normalized s"
          using True Cons False dot dots by (auto simp: Cons)
        then show ?thesis using ih gu g(3) by (cases us) auto
      qed
    qed
  qed
qed simp

lemma split_last: "last (split_slash s) = [] \<longleftrightarrow> s = [] \<or> last s = CHR ''/''"
proof (induction s)
  case (Cons c s)
  obtain p ps where ps: "split_slash s = p # ps" by (cases "split_slash s") simp_all
  show ?case
  proof (cases "s = []")
    case False
    then show ?thesis using Cons ps join_split [of s] by (cases ps) auto
  qed simp
qed simp

lemma already_normalized:
  assumes "path_is_already_normalized s"
  shows "normalize_parts s = s"
proof -
  obtain h ts where sp: "split_slash s = h # ts" by (cases "split_slash s") simp_all
  have s: "s \<noteq> []" "s \<noteq> ''.''" "s \<noteq> ''..''" "\<not> (length s > 1 \<and> ends_with_slash s)" "\<not> starts_with s ''./''" "\<not> starts_with s ''../''"
    and sc: "scan_normalized s"
    using assms by (auto simp: path_is_already_normalized_def split: if_splits)
  note sc' = scan_split [OF sp, THEN iffD1, OF sc]
  have ns: "\<forall>p \<in> set (h # ts). CHR ''/'' \<notin> set p" using split_slash_no_slash sp by metis
  have js: "join_slash (h # ts) = s" using join_split [of s] sp by simp
  show ?thesis
  proof (cases "s = ''/''")
    case True
    then show ?thesis by (simp add: normalize_parts_eq starts_with_def path_parts_def abs_path_def)
  next
    case False
    have "length s > 1 \<or> (\<exists>c. s = [c] \<and> c \<noteq> CHR ''/'')" using s(1) False by (cases s rule: remdups_adj.cases) auto
    then have "last s \<noteq> CHR ''/''" using s(1,4) by (auto simp: ends_with_slash_def)
    then have l: "last (h # ts) \<noteq> []" using split_last [of s] sp s(1) by simp
    have ts: "proper_parts ts"
      unfolding proper_parts_def
    proof
      fix t assume t: "t \<in> set ts"
      then have "t \<noteq> []" using sc' l append_butlast_last_id [of ts] by (cases "t \<in> set (butlast ts)") (auto simp: in_set_butlast_appendI dest: in_set_conv_decomp_first [THEN iffD1] split: if_splits intro: in_set_butlastD)
      then show "proper_part t" using t sc' ns by (auto simp: proper_part_def)
    qed
    show ?thesis
    proof (cases "h = []")
      case True
      then have a: "starts_with s ''/''" using split_hd [OF sp] s(1) by (auto simp: starts_slash starts_piece_end_def)
      have ne: "ts \<noteq> []" using True js s(1) by auto
      have "path_parts s = ts" using fold_push_proper [OF ts, of "[]"] True sp by (simp add: path_parts_def)
      then show ?thesis using a js True ne by (simp add: normalize_parts_eq abs_path_def join_Cons)
    next
      case False
      then have a: "\<not> starts_with s ''/''" using split_hd [OF sp] ns s(1) by (auto simp: starts_slash starts_piece_end_def)
      have "h \<noteq> ''.'' \<and> h \<noteq> ''..''"
      proof (cases "ts = []")
        case True
        then show ?thesis using js s by auto
      next
        case False
        then have "prefix (h @ ''/'') s" using js by (auto simp: join_Cons prefix_def)
        then show ?thesis using s(5,6) by (auto simp: starts_with_def)
      qed
      then have pr: "proper_parts (h # ts)" using ts False ns by (simp add: proper_parts_def proper_part_def)
      have "path_parts s = h # ts" using fold_push_proper [OF pr, of "[]"] sp by (simp add: path_parts_def)
      then show ?thesis using a js by (simp add: normalize_parts_eq)
    qed
  qed
qed

lemma normalize_path_slow: "normalize_path s = normalize_parts s"
  using already_normalized [of s] by (simp add: normalize_path_def)

lemma normalize_path_eq:
  "normalize_path s =
     (if starts_with s ''/'' then abs_path (path_parts s) else if path_parts s = [] then ''.'' else join_slash (path_parts s))"
  by (simp only: normalize_path_slow normalize_parts_eq)

section \<open>Normalised paths and component lists\<close>

lemma split_abs_path: "proper_parts ps \<Longrightarrow> split_slash (abs_path ps) = (if ps = [] then [[], []] else [] # ps)"
  using split_join [of ps] by (auto simp: abs_path_def proper_parts_def proper_part_def)

lemma parts_abs_path [simp]: "proper_parts ps \<Longrightarrow> path_parts (abs_path ps) = ps"
  using fold_push_proper [of ps "[]"] by (simp add: path_parts_def split_abs_path)

lemma parts_join [simp]: "proper_parts ps \<Longrightarrow> path_parts (join_slash ps) = ps"
  using split_join [of ps] fold_push_proper [of ps "[]"]
  by (cases "ps = []") (auto simp: path_parts_def proper_parts_def proper_part_def)

lemma starts_abs_path [simp]: "starts_with (abs_path ps) ''/''"
  by (simp add: abs_path_def starts_with_def)

lemma normalize_abs_path [simp]: "proper_parts ps \<Longrightarrow> normalize_path (abs_path ps) = abs_path ps"
  by (simp add: normalize_path_eq)

lemma normalize_absolute: "starts_with s ''/'' \<Longrightarrow> normalize_path s = abs_path (path_parts s)"
  by (simp add: normalize_path_eq)

lemma abs_path_inj: "proper_parts ps \<Longrightarrow> proper_parts qs \<Longrightarrow> abs_path ps = abs_path qs \<longleftrightarrow> ps = qs"
  by (metis parts_abs_path)

lemma join_not_absolute: "proper_parts ps \<Longrightarrow> \<not> starts_with (join_slash ps) ''/''"
  using join_proper_last [of ps] by (cases "ps = []") (auto simp: starts_slash)

lemma normalize_idempotent: "normalize_path (normalize_path s) = normalize_path s"
proof (cases "starts_with s ''/''")
  case False
  have "normalize_path ''.'' = ''.''" by (simp add: normalize_path_eq starts_with_def path_parts_def)
  then show ?thesis using False join_not_absolute [of "path_parts s"] by (simp add: normalize_path_eq)
qed (simp add: normalize_path_eq)

lemma parts_normalize [simp]: "path_parts (normalize_path s) = path_parts s"
  by (simp add: normalize_path_eq) (simp add: path_parts_def)

lemma parts_append: "path_parts (a @ ''/'' @ b) = fold push_part (split_slash b) (path_parts a)"
  by (simp add: path_parts_def split_append_slash)

lemma fold_push_normal: "fold push_part (split_slash (trim_start_slash (normalize_path s))) acc = acc @ path_parts s"
proof -
  have trim: "trim_start_slash (join_slash ps) = join_slash ps" if "proper_parts ps" for ps
    using join_proper_last [OF that] by (cases "ps = []"; cases "join_slash ps") (auto simp: trim_start_slash_def)
  have sp: "fold push_part (split_slash (join_slash ps)) acc = acc @ ps" if "proper_parts ps" for ps
  proof (cases "ps = []")
    case False
    then have "split_slash (join_slash ps) = ps" using split_join [of ps] that by (auto simp: proper_parts_def proper_part_def)
    then show ?thesis using fold_push_proper [OF that] by simp
  qed simp
  have "trim_start_slash (abs_path (path_parts s)) = join_slash (path_parts s)"
    using trim [OF path_parts_proper, of s] by (simp add: abs_path_def trim_start_slash_def)
  moreover have "trim_start_slash ''.'' = ''.''" by (simp add: trim_start_slash_def)
  ultimately show ?thesis using sp [OF path_parts_proper, of s] trim [OF path_parts_proper, of s]
    by (simp add: normalize_path_eq)
qed

lemma apply_root_eq:
  assumes "starts_with root ''/''"
  shows "apply_root root s = (if path_parts root = [] then normalize_path s else abs_path (path_parts root @ path_parts s))"
proof -
  let ?r = "abs_path (path_parts root)"
  have r: "normalize_path root = ?r" using assms by (rule normalize_absolute)
  have slash: "?r = ''/'' \<longleftrightarrow> path_parts root = []"
    using join_proper_last [OF path_parts_proper, of root] by (cases "path_parts root = []") (auto simp: abs_path_def)
  have root: "root = ''/'' \<Longrightarrow> path_parts root = []" by (simp add: path_parts_def)
  have "path_parts (?r @ ''/'' @ trim_start_slash (normalize_path s)) = path_parts root @ path_parts s"
    unfolding parts_append parts_abs_path [OF path_parts_proper] by (rule fold_push_normal)
  moreover have "starts_with (?r @ ''/'' @ trim_start_slash (normalize_path s)) ''/''" by (simp add: starts_with_def abs_path_def)
  ultimately have "normalize_path (?r @ ''/'' @ trim_start_slash (normalize_path s)) = abs_path (path_parts root @ path_parts s)"
    by (metis normalize_absolute)
  moreover have "normalize_path s = ''/'' \<Longrightarrow> path_parts s = []"
    using parts_normalize [of s] by (simp add: path_parts_def)
  ultimately show ?thesis using r slash root by (auto simp: apply_root_def Let_def)
qed

lemma proper_append [simp]: "proper_parts (ps @ qs) \<longleftrightarrow> proper_parts ps \<and> proper_parts qs"
  by (auto simp: proper_parts_def)

lemma proper_Cons [simp]: "proper_parts (p # ps) \<longleftrightarrow> proper_part p \<and> proper_parts ps"
  by (simp add: proper_parts_def)

lemma proper_Nil [simp]: "proper_parts []"
  by (simp add: proper_parts_def)

lemma join_append: "ps \<noteq> [] \<Longrightarrow> qs \<noteq> [] \<Longrightarrow> join_slash (ps @ qs) = join_slash ps @ CHR ''/'' # join_slash qs"
proof (induction ps)
  case (Cons p ps)
  then show ?case by (cases "ps = []") (simp_all add: join_Cons)
qed simp

lemma abs_path_append: "ps \<noteq> [] \<Longrightarrow> abs_path (ps @ qs) = abs_path ps @ (if qs = [] then [] else abs_path qs)"
  by (simp add: abs_path_def join_append)

text \<open>A path continues another one behind a slash exactly when its components extend the other's.\<close>

lemma abs_path_extends:
  assumes "proper_parts ps" "proper_parts qs" "ps \<noteq> []"
  shows "(\<exists>r. abs_path qs = abs_path ps @ CHR ''/'' # r) \<longleftrightarrow> strict_prefix ps qs"
proof
  assume "\<exists>r. abs_path qs = abs_path ps @ CHR ''/'' # r"
  then obtain r where r: "abs_path qs = abs_path ps @ CHR ''/'' # r" by blast
  have "split_slash (abs_path qs) = [] # ps @ split_slash r" using r assms by (simp add: split_append_slash split_abs_path)
  then have "qs = ps @ split_slash r" using assms split_abs_path [of qs] by (auto simp: Cons_eq_append_conv split: if_splits)
  then show "strict_prefix ps qs" by (auto simp: strict_prefix_def)
next
  assume "strict_prefix ps qs"
  then obtain x where "qs = ps @ x" "x \<noteq> []" by (auto simp: strict_prefix_def prefix_def)
  then show "\<exists>r. abs_path qs = abs_path ps @ CHR ''/'' # r" using assms abs_path_append [of ps x] by (auto simp: abs_path_def)
qed

lemma strip_Some: "strip_prefix s p = Some r \<longleftrightarrow> s = p @ r"
  by (auto simp: strip_prefix_def prefix_def)

lemma is_descendant_iff: "is_descendant p c \<longleftrightarrow> (\<exists>r. c = p @ CHR ''/'' # r)"
  by (auto simp: is_descendant_def strip_Some split: option.splits) (auto simp: strip_prefix_def prefix_def)

lemma is_descendant_parts:
  assumes "proper_parts ps" "proper_parts qs"
  shows "is_descendant (abs_path ps) (abs_path qs) \<longleftrightarrow> ps \<noteq> [] \<and> strict_prefix ps qs"
proof (cases "ps = []")
  case True
  have "hd (join_slash qs) \<noteq> CHR ''/'' \<or> join_slash qs = []" using join_proper_last [OF assms(2)] by (cases "qs = []") auto
  then show ?thesis using True by (auto simp: is_descendant_iff abs_path_def)
next
  case False
  then show ?thesis using abs_path_extends [OF assms] by (simp add: is_descendant_iff)
qed

text \<open>
  C15. A path resolved below a root stays below it: for every working directory and every path, with any number of \<open>..\<close>, empty and \<open>.\<close>
  components, the result of \<open>resolve_path_with_root\<close> is a normalised path whose components are those of the root followed by those of
  the path resolved without a root; it is the root itself or a descendant of it.
\<close>

theorem root_confines:
  assumes "starts_with root ''/''" and "starts_with cwd ''/'' \<or> starts_with path ''/''"
  shows "resolve_path_with_root root cwd path = abs_path (path_parts root @ path_parts (resolve_path cwd path))
    \<and> normalize_path (resolve_path_with_root root cwd path) = resolve_path_with_root root cwd path
    \<and> (normalize_path root = ''/'' \<or> resolve_path_with_root root cwd path = normalize_path root
       \<or> is_descendant (normalize_path root) (resolve_path_with_root root cwd path))"
proof -
  let ?l = "resolve_path cwd path" and ?R = "path_parts root" and ?Q = "path_parts (resolve_path cwd path)"
  have "starts_with ?l ''/''" using assms(2) by (auto simp: resolve_path_def normalize_path_eq starts_with_def abs_path_def)
  then have "normalize_path ?l = abs_path ?Q" by (rule normalize_absolute)
  then have eq: "resolve_path_with_root root cwd path = abs_path (?R @ ?Q)"
    using apply_root_eq [OF assms(1), of ?l] by (simp add: resolve_path_with_root_def)
  have root: "normalize_path root = abs_path ?R" using assms(1) by (rule normalize_absolute)
  have "?R = [] \<or> ?Q = [] \<or> is_descendant (abs_path ?R) (abs_path (?R @ ?Q))"
    using is_descendant_parts [of ?R "?R @ ?Q"] by (auto simp: strict_prefix_def)
  then show ?thesis unfolding eq root by (auto simp: abs_path_def [of "[]"] simp del: append_eq_append_conv2)
qed

theorem root_confines_witness:
  "starts_with ''/srv/jail'' ''/'' \<and> resolve_path_with_root ''/srv/jail'' ''/home'' ''../../../etc/./passwd'' = ''/srv/jail/etc/passwd''"
proof -
  have s: "starts_with ''/srv/jail'' ''/''" "starts_with ''/home'' ''/''" by (simp_all add: starts_with_def)
  have "path_parts (resolve_path ''/home'' ''../../../etc/./passwd'') = [''etc'', ''passwd'']"
    by (simp add: resolve_path_def starts_with_def) (simp add: path_parts_def)
  moreover have "path_parts ''/srv/jail'' = [''srv'', ''jail'']" by (simp add: path_parts_def)
  ultimately show ?thesis using root_confines [OF s(1), of "''/home''" "''../../../etc/./passwd''"] s by (simp add: abs_path_def)
qed

text \<open>
  The scan that lets \<open>normalize_path\<close> return its argument unchanged is exact as an optimisation: with it the result is always that of
  splitting and joining. Normalising twice is normalising once, and the result has the same components, none of which is empty,
  \<open>.\<close>, \<open>..\<close> or contains a slash.
\<close>

theorem normalize_exact:
  "normalize_path s = normalize_parts s \<and> normalize_path (normalize_path s) = normalize_path s
   \<and> path_parts (normalize_path s) = path_parts s \<and> proper_parts (path_parts s)"
  using normalize_path_slow normalize_idempotent parts_normalize path_parts_proper by blast

section \<open>Parents and children\<close>

lemma rfind_append: "CHR ''/'' \<notin> set q \<Longrightarrow> rfind_slash (p @ CHR ''/'' # q) = Some (length p)"
proof -
  assume q: "CHR ''/'' \<notin> set q"
  have "rfind_slash q = None" using q by (induction q) auto
  then show ?thesis by (induction p) auto
qed

lemma trim_end_none: "s = [] \<or> last s \<noteq> CHR ''/'' \<Longrightarrow> trim_end_slash s = s"
  by (cases s rule: rev_cases) (simp_all add: trim_end_slash_def)

lemma parent_abs_path:
  assumes "proper_parts ps"
  shows "parent_path (abs_path ps) = abs_path (butlast ps)"
proof (cases "ps = []")
  case True
  then show ?thesis by (simp add: parent_path_def abs_path_def normalize_path_eq starts_with_def path_parts_def trim_end_slash_def)
next
  case False
  define q where "q = last ps"
  have ps: "ps = butlast ps @ [q]" using False by (simp add: q_def)
  have q: "CHR ''/'' \<notin> set q" "q \<noteq> []" using assms False last_in_set [of ps] by (auto simp: q_def proper_parts_def proper_part_def)
  have l: "last (abs_path ps) \<noteq> CHR ''/''" using join_proper_last [OF assms False] by (simp add: abs_path_def)
  have trim: "trim_end_slash (abs_path ps) = abs_path ps" using trim_end_none l by blast
  have e: "abs_path ps = (if butlast ps = [] then [] else abs_path (butlast ps)) @ CHR ''/'' # q"
    using ps abs_path_append [of "butlast ps" "[q]"] by (cases "butlast ps = []") (auto simp: abs_path_def)
  have n: "abs_path ps \<noteq> []" "abs_path ps \<noteq> ''/''" using e q(2) by (auto simp: abs_path_def)
  have "rfind_slash (abs_path ps) = Some (length (if butlast ps = [] then [] else abs_path (butlast ps)))"
    by (subst e) (rule rfind_append [OF q(1)])
  moreover have "take (length (abs_path (butlast ps))) (abs_path ps) = abs_path (butlast ps)" if "butlast ps \<noteq> []"
    using e that by simp
  ultimately show ?thesis using assms n trim by (auto simp: parent_path_def Let_def) (auto simp: abs_path_def)
qed

lemma file_name_abs_path:
  assumes "proper_parts ps"
  shows "file_name (abs_path ps) = (if ps = [] then [] else last ps)"
proof (cases ps rule: rev_cases)
  case Nil
  then show ?thesis by (simp add: file_name_def abs_path_def)
next
  case (snoc qs q)
  then have "q \<noteq> []" using assms by (simp add: proper_part_def)
  then show ?thesis using snoc assms split_abs_path [OF assms] by (simp add: file_name_def)
qed

lemma child_name_parts:
  assumes "proper_parts ps" "proper_parts qs"
  shows "child_name (abs_path ps) (abs_path qs) = (if qs \<noteq> [] \<and> butlast qs = ps then Some (last qs) else None)"
proof (cases "ps = []")
  case True
  have one: "CHR ''/'' \<in> set (join_slash qs) \<longleftrightarrow> length qs > 1"
  proof (cases qs rule: remdups_adj.cases)
    case (2 x)
    then show ?thesis using assms(2) by (simp add: proper_part_def)
  qed simp_all
  have "join_slash qs = [] \<longleftrightarrow> qs = []" using join_proper_last [OF assms(2)] by auto
  then show ?thesis using True one
    by (cases qs rule: remdups_adj.cases)
      (auto simp: child_name_def starts_with_def strip_prefix_def abs_path_def)
next
  case False
  show ?thesis
  proof (cases "strict_prefix ps qs")
    case True
    then obtain x where x: "qs = ps @ x" "x \<noteq> []" by (auto simp: strict_prefix_def prefix_def)
    then have px: "proper_parts x" using assms by simp
    have e: "abs_path qs = abs_path ps @ CHR ''/'' # join_slash x" using x False by (simp add: abs_path_append) (simp add: abs_path_def)
    have one: "CHR ''/'' \<in> set (join_slash x) \<longleftrightarrow> length x > 1"
    proof (cases x rule: remdups_adj.cases)
      case (2 y)
      then show ?thesis using px by (simp add: proper_part_def)
    qed simp_all
    have "abs_path ps \<noteq> ''/''" using False join_proper_last [OF assms(1)] by (simp add: abs_path_def)
    then have "child_name (abs_path ps) (abs_path qs) = (if CHR ''/'' \<in> set (join_slash x) then None else Some (join_slash x))"
      using join_proper_last [OF px x(2)] by (simp add: child_name_def e starts_with_def strip_prefix_def)
    then show ?thesis using one x by (cases x rule: remdups_adj.cases) (auto simp: butlast_append)
  next
    case np: False
    then have "\<not> is_descendant (abs_path ps) (abs_path qs)" using is_descendant_parts [OF assms] by simp
    then have "child_name (abs_path ps) (abs_path qs) = None"
      using False join_proper_last [OF assms(1)]
      by (auto simp: child_name_def is_descendant_def abs_path_def split: option.splits)
    moreover have "\<not> (qs \<noteq> [] \<and> butlast qs = ps)" using np
      by (metis append_butlast_last_id prefix_def self_append_conv not_Cons_self2 strict_prefix_def)
    ultimately show ?thesis by simp
  qed
qed

end
