(* ===== verification/Credentials.thy ===== *)
theory Credentials
  imports Path
begin

unbundle bit_operations_syntax

text \<open>
  Credentials: the user and group identities of a task (\<open>os/src/task/mod.rs\<close>), the calls that change them (\<open>os/src/syscall/other.rs\<close>) and the
  permission checks made with them (\<open>os/src/fs/vfs.rs\<close>). A \<open>u32\<close> identity is a natural below \<open>2 ^ 32\<close>. The look-up of the metadata of a path and
  the elements of arrays in user memory are arguments.
\<close>

record Credentials =
  real_uid :: nat
  effective_uid :: nat
  saved_uid :: nat
  fsuid :: nat
  real_gid :: nat
  effective_gid :: nat
  saved_gid :: nat
  fsgid :: nat
  supplementary_groups :: "nat list"

definition LINUX_NGROUPS_MAX :: nat where "LINUX_NGROUPS_MAX = 65536"
definition MAX_SUPPLEMENTARY_GROUPS :: nat where "MAX_SUPPLEMENTARY_GROUPS = 32"

definition root_credentials :: Credentials where
  "root_credentials =
     \<lparr>real_uid = 0, effective_uid = 0, saved_uid = 0, fsuid = 0, real_gid = 0, effective_gid = 0, saved_gid = 0, fsgid = 0,
      supplementary_groups = [0]\<rparr>"

definition has_uid :: "Credentials \<Rightarrow> nat \<Rightarrow> bool" where
  "has_uid c uid \<longleftrightarrow> uid = real_uid c \<or> uid = effective_uid c \<or> uid = saved_uid c"

definition has_gid :: "Credentials \<Rightarrow> nat \<Rightarrow> bool" where
  "has_gid c gid \<longleftrightarrow> gid = real_gid c \<or> gid = effective_gid c \<or> gid = saved_gid c"

definition has_uid_or_fsuid :: "Credentials \<Rightarrow> nat \<Rightarrow> bool" where
  "has_uid_or_fsuid c uid \<longleftrightarrow> has_uid c uid \<or> uid = fsuid c"

definition has_gid_or_fsgid :: "Credentials \<Rightarrow> nat \<Rightarrow> bool" where
  "has_gid_or_fsgid c gid \<longleftrightarrow> has_gid c gid \<or> gid = fsgid c"

definition is_root_capable :: "Credentials \<Rightarrow> bool" where
  "is_root_capable c \<longleftrightarrow> effective_uid c = 0"

definition is_in_group :: "Credentials \<Rightarrow> nat \<Rightarrow> bool \<Rightarrow> bool" where
  "is_in_group c gid effective \<longleftrightarrow>
     (if effective then effective_gid c else real_gid c) = gid \<or> list_ex (\<lambda>g. g = gid) (supplementary_groups c)"

definition is_in_filesystem_group :: "Credentials \<Rightarrow> nat \<Rightarrow> bool" where
  "is_in_filesystem_group c gid \<longleftrightarrow> fsgid c = gid \<or> list_ex (\<lambda>g. g = gid) (supplementary_groups c)"

definition sync_fsuid_to_effective :: "Credentials \<Rightarrow> Credentials" where
  "sync_fsuid_to_effective c = c\<lparr>fsuid := effective_uid c\<rparr>"

definition sync_fsgid_to_effective :: "Credentials \<Rightarrow> Credentials" where
  "sync_fsgid_to_effective c = c\<lparr>fsgid := effective_gid c\<rparr>"

definition set_supplementary_groups :: "nat list \<Rightarrow> Credentials \<Rightarrow> Credentials" where
  "set_supplementary_groups gs c = c\<lparr>supplementary_groups := gs\<rparr>"

section \<open>Changing identities\<close>

definition u32_max :: nat where "u32_max = 2 ^ 32 - 1"

definition parse_id_arg :: "usize \<Rightarrow> SysErrNo + nat option" where
  "parse_id_arg raw =
     (if raw = usize_max \<or> raw = u32_max then Inr None else if raw > u32_max then Inl EINVAL else Inr (Some raw))"

definition parse_required_id :: "usize \<Rightarrow> SysErrNo + nat" where
  "parse_required_id raw = (if raw > u32_max then Inl EINVAL else Inr raw)"

definition parse_filesystem_id_arg :: "usize \<Rightarrow> nat option" where
  "parse_filesystem_id_arg raw = (if raw = usize_max \<or> raw = u32_max \<or> raw > u32_max then None else Some raw)"

definition sys_setuid :: "usize \<Rightarrow> Credentials \<Rightarrow> Credentials \<times> (SysErrNo + nat)" where
  "sys_setuid raw c =
     (case parse_required_id raw of
        Inl e \<Rightarrow> (c, Inl e)
      | Inr uid \<Rightarrow>
          if is_root_capable c
          then (sync_fsuid_to_effective (c\<lparr>real_uid := uid, effective_uid := uid, saved_uid := uid\<rparr>), Inr 0)
          else if has_uid c uid then (sync_fsuid_to_effective (c\<lparr>effective_uid := uid\<rparr>), Inr 0)
          else (c, Inl EPERM))"

definition sys_setgid :: "usize \<Rightarrow> Credentials \<Rightarrow> Credentials \<times> (SysErrNo + nat)" where
  "sys_setgid raw c =
     (case parse_required_id raw of
        Inl e \<Rightarrow> (c, Inl e)
      | Inr gid \<Rightarrow>
          if is_root_capable c
          then (sync_fsgid_to_effective (c\<lparr>real_gid := gid, effective_gid := gid, saved_gid := gid\<rparr>), Inr 0)
          else if has_gid c gid then (sync_fsgid_to_effective (c\<lparr>effective_gid := gid\<rparr>), Inr 0)
          else (c, Inl EPERM))"

text \<open>\<open>map(f).unwrap_or(false)\<close> on an option.\<close>

definition opt_holds :: "(nat \<Rightarrow> bool) \<Rightarrow> nat option \<Rightarrow> bool" where
  "opt_holds P x = (case x of None \<Rightarrow> False | Some v \<Rightarrow> P v)"

definition put_ruid :: "nat option \<Rightarrow> Credentials \<Rightarrow> Credentials" where
  "put_ruid x c = (case x of None \<Rightarrow> c | Some v \<Rightarrow> c\<lparr>real_uid := v\<rparr>)"

definition put_euid :: "nat option \<Rightarrow> Credentials \<Rightarrow> Credentials" where
  "put_euid x c = (case x of None \<Rightarrow> c | Some v \<Rightarrow> sync_fsuid_to_effective (c\<lparr>effective_uid := v\<rparr>))"

definition put_suid :: "nat option \<Rightarrow> Credentials \<Rightarrow> Credentials" where
  "put_suid x c = (case x of None \<Rightarrow> c | Some v \<Rightarrow> c\<lparr>saved_uid := v\<rparr>)"

definition put_rgid :: "nat option \<Rightarrow> Credentials \<Rightarrow> Credentials" where
  "put_rgid x c = (case x of None \<Rightarrow> c | Some v \<Rightarrow> c\<lparr>real_gid := v\<rparr>)"

definition put_egid :: "nat option \<Rightarrow> Credentials \<Rightarrow> Credentials" where
  "put_egid x c = (case x of None \<Rightarrow> c | Some v \<Rightarrow> sync_fsgid_to_effective (c\<lparr>effective_gid := v\<rparr>))"

definition put_sgid :: "nat option \<Rightarrow> Credentials \<Rightarrow> Credentials" where
  "put_sgid x c = (case x of None \<Rightarrow> c | Some v \<Rightarrow> c\<lparr>saved_gid := v\<rparr>)"

definition sys_setreuid :: "usize \<Rightarrow> usize \<Rightarrow> Credentials \<Rightarrow> Credentials \<times> (SysErrNo + nat)" where
  "sys_setreuid ruid euid old =
     (case (parse_id_arg ruid, parse_id_arg euid) of
        (Inl e, _) \<Rightarrow> (old, Inl e)
      | (_, Inl e) \<Rightarrow> (old, Inl e)
      | (Inr new_ruid, Inr new_euid) \<Rightarrow>
          if \<not> is_root_capable old \<and> opt_holds (\<lambda>uid. uid \<noteq> real_uid old \<and> uid \<noteq> effective_uid old) new_ruid then (old, Inl EPERM)
          else if \<not> is_root_capable old \<and> opt_holds (\<lambda>uid. \<not> has_uid old uid) new_euid then (old, Inl EPERM)
          else (let c = put_euid new_euid (put_ruid new_ruid old)
                in (if new_ruid \<noteq> None \<or> opt_holds (\<lambda>uid. uid \<noteq> real_uid old) new_euid
                    then c\<lparr>saved_uid := effective_uid c\<rparr> else c, Inr 0)))"

definition sys_setregid :: "usize \<Rightarrow> usize \<Rightarrow> Credentials \<Rightarrow> Credentials \<times> (SysErrNo + nat)" where
  "sys_setregid rgid egid old =
     (case (parse_id_arg rgid, parse_id_arg egid) of
        (Inl e, _) \<Rightarrow> (old, Inl e)
      | (_, Inl e) \<Rightarrow> (old, Inl e)
      | (Inr new_rgid, Inr new_egid) \<Rightarrow>
          if \<not> is_root_capable old \<and> opt_holds (\<lambda>gid. gid \<noteq> real_gid old \<and> gid \<noteq> effective_gid old) new_rgid then (old, Inl EPERM)
          else if \<not> is_root_capable old \<and> opt_holds (\<lambda>gid. \<not> has_gid old gid) new_egid then (old, Inl EPERM)
          else (let c = put_egid new_egid (put_rgid new_rgid old)
                in (if new_rgid \<noteq> None \<or> opt_holds (\<lambda>gid. gid \<noteq> real_gid old) new_egid
                    then c\<lparr>saved_gid := effective_gid c\<rparr> else c, Inr 0)))"

definition sys_setresuid :: "usize \<Rightarrow> usize \<Rightarrow> usize \<Rightarrow> Credentials \<Rightarrow> Credentials \<times> (SysErrNo + nat)" where
  "sys_setresuid ruid euid suid old =
     (case (parse_id_arg ruid, parse_id_arg euid, parse_id_arg suid) of
        (Inl e, _) \<Rightarrow> (old, Inl e)
      | (_, Inl e, _) \<Rightarrow> (old, Inl e)
      | (_, _, Inl e) \<Rightarrow> (old, Inl e)
      | (Inr r, Inr e, Inr s) \<Rightarrow>
          if \<not> is_root_capable old \<and> list_ex (opt_holds (\<lambda>uid. \<not> has_uid old uid)) [r, e, s] then (old, Inl EPERM)
          else (put_suid s (put_euid e (put_ruid r old)), Inr 0))"

definition sys_setresgid :: "usize \<Rightarrow> usize \<Rightarrow> usize \<Rightarrow> Credentials \<Rightarrow> Credentials \<times> (SysErrNo + nat)" where
  "sys_setresgid rgid egid sgid old =
     (case (parse_id_arg rgid, parse_id_arg egid, parse_id_arg sgid) of
        (Inl e, _) \<Rightarrow> (old, Inl e)
      | (_, Inl e, _) \<Rightarrow> (old, Inl e)
      | (_, _, Inl e) \<Rightarrow> (old, Inl e)
      | (Inr r, Inr e, Inr s) \<Rightarrow>
          if \<not> is_root_capable old \<and> list_ex (opt_holds (\<lambda>gid. \<not> has_gid old gid)) [r, e, s] then (old, Inl EPERM)
          else (put_sgid s (put_egid e (put_rgid r old)), Inr 0))"

definition parse_group_count :: "usize \<Rightarrow> SysErrNo + nat" where
  "parse_group_count raw = (if raw > 2 ^ 31 - 1 then Inl EINVAL else Inr raw)"

text \<open>\<open>sys_getgroups\<close> also yields the groups it copied out; \<open>put\<close> is the result of the copy of each element.\<close>

fun copy_groups_out :: "(nat \<Rightarrow> SysErrNo + unit) \<Rightarrow> nat \<Rightarrow> nat list \<Rightarrow> (SysErrNo + unit) \<times> nat list" where
  "copy_groups_out put i [] = (Inr (), [])"
| "copy_groups_out put i (g # gs) =
     (case put i of
        Inl e \<Rightarrow> (Inl e, [])
      | Inr _ \<Rightarrow> (case copy_groups_out put (Suc i) gs of (r, out) \<Rightarrow> (r, g # out)))"

definition sys_getgroups :: "(nat \<Rightarrow> SysErrNo + unit) \<Rightarrow> usize \<Rightarrow> usize \<Rightarrow> Credentials \<Rightarrow> (SysErrNo + nat) \<times> nat list" where
  "sys_getgroups put size_arg list_arg c =
     (case parse_group_count size_arg of
        Inl e \<Rightarrow> (Inl e, [])
      | Inr n \<Rightarrow>
          (let groups = supplementary_groups c; k = length groups
           in if n = 0 then (Inr k, [])
              else if n < k then (Inl EINVAL, [])
              else if list_arg = 0 \<and> k \<noteq> 0 then (Inl EFAULT, [])
              else (case copy_groups_out put 0 groups of
                      (Inl e, out) \<Rightarrow> (Inl e, out)
                    | (Inr _, out) \<Rightarrow> (Inr k, out))))"

text \<open>\<open>get\<close> is the result of the copy of each element of the array.\<close>

fun copy_groups_in :: "(nat \<Rightarrow> SysErrNo + nat) \<Rightarrow> nat \<Rightarrow> nat \<Rightarrow> SysErrNo + nat list" where
  "copy_groups_in get i 0 = Inr []"
| "copy_groups_in get i (Suc n) =
     (case get i of
        Inl e \<Rightarrow> Inl e
      | Inr g \<Rightarrow> (case copy_groups_in get (Suc i) n of Inl e \<Rightarrow> Inl e | Inr gs \<Rightarrow> Inr (g # gs)))"

definition sys_setgroups :: "(nat \<Rightarrow> SysErrNo + nat) \<Rightarrow> usize \<Rightarrow> usize \<Rightarrow> Credentials \<Rightarrow> Credentials \<times> (SysErrNo + nat)" where
  "sys_setgroups get size_arg list_arg c =
     (case parse_group_count size_arg of
        Inl e \<Rightarrow> (c, Inl e)
      | Inr n \<Rightarrow>
          if n > LINUX_NGROUPS_MAX then (c, Inl EINVAL)
          else if \<not> is_root_capable c then (c, Inl EPERM)
          else if n \<noteq> 0 \<and> list_arg = 0 then (c, Inl EFAULT)
          else (case copy_groups_in get 0 n of
                  Inl e \<Rightarrow> (c, Inl e)
                | Inr groups \<Rightarrow>
                    if n > MAX_SUPPLEMENTARY_GROUPS then (c, Inl EINVAL)
                    else (set_supplementary_groups groups c, Inr 0)))"

definition sys_setfsuid :: "usize \<Rightarrow> Credentials \<Rightarrow> Credentials \<times> (SysErrNo + nat)" where
  "sys_setfsuid raw c =
     (case parse_filesystem_id_arg raw of
        None \<Rightarrow> (c, Inr (fsuid c))
      | Some uid \<Rightarrow> (if is_root_capable c \<or> has_uid_or_fsuid c uid then c\<lparr>fsuid := uid\<rparr> else c, Inr (fsuid c)))"

definition sys_setfsgid :: "usize \<Rightarrow> Credentials \<Rightarrow> Credentials \<times> (SysErrNo + nat)" where
  "sys_setfsgid raw c =
     (case parse_filesystem_id_arg raw of
        None \<Rightarrow> (c, Inr (fsgid c))
      | Some gid \<Rightarrow> (if is_root_capable c \<or> has_gid_or_fsgid c gid then c\<lparr>fsgid := gid\<rparr> else c, Inr (fsgid c)))"

section \<open>Permission checks\<close>

datatype CredentialIdentity = RealId | EffectiveId | FilesystemId

definition from_effective_flag :: "bool \<Rightarrow> CredentialIdentity" where
  "from_effective_flag effective = (if effective then EffectiveId else RealId)"

definition identity_uid :: "CredentialIdentity \<Rightarrow> Credentials \<Rightarrow> nat" where
  "identity_uid i c = (case i of RealId \<Rightarrow> real_uid c | EffectiveId \<Rightarrow> effective_uid c | FilesystemId \<Rightarrow> fsuid c)"

definition identity_in_group :: "CredentialIdentity \<Rightarrow> Credentials \<Rightarrow> nat \<Rightarrow> bool" where
  "identity_in_group i c gid =
     (case i of RealId \<Rightarrow> is_in_group c gid False | EffectiveId \<Rightarrow> is_in_group c gid True | FilesystemId \<Rightarrow> is_in_filesystem_group c gid)"

record VfsMetadata =
  vm_ino :: nat
  vm_kind :: VfsNodeKind
  vm_mode :: nat
  vm_nlink :: nat
  vm_uid :: nat
  vm_gid :: nat
  vm_rdev_major :: nat
  vm_rdev_minor :: nat
  vm_size :: nat
  vm_blocks :: nat
  vm_atime :: "int \<times> int"
  vm_mtime :: "int \<times> int"
  vm_ctime :: "int \<times> int"
  vm_file_flags :: nat

datatype TimesUpdatePermission = NoTimes | CurrentTimes | ExplicitTimes

definition R_OK :: nat where "R_OK = 4"
definition W_OK :: nat where "W_OK = 2"
definition X_OK :: nat where "X_OK = 1"
definition S_ISGID :: nat where "S_ISGID = 0x400"
definition S_ISVTX :: nat where "S_ISVTX = 0x200"

text \<open>\<open>m & !b\<close> on \<open>u32\<close>.\<close>

definition clear_mode :: "nat \<Rightarrow> nat \<Rightarrow> nat" where
  "clear_mode m b = m - (m AND b)"

definition required_bits :: "nat \<Rightarrow> nat" where
  "required_bits access =
     (if access AND R_OK \<noteq> 0 then 4 else 0) OR (if access AND W_OK \<noteq> 0 then 2 else 0) OR (if access AND X_OK \<noteq> 0 then 1 else 0)"

definition check_metadata_access_with_identity :: "Credentials \<Rightarrow> VfsMetadata \<Rightarrow> nat \<Rightarrow> CredentialIdentity \<Rightarrow> SysErrNo + unit" where
  "check_metadata_access_with_identity c meta access identity =
     (let uid = identity_uid identity c
      in if uid = 0 then
           (if access AND X_OK \<noteq> 0 \<and> vm_kind meta = Regular \<and> vm_mode meta AND 0x49 = 0 then Inl EACCES else Inr ())
         else (let class_shift = (if uid = vm_uid meta then 6 else if identity_in_group identity c (vm_gid meta) then 3 else 0 :: nat);
                   perm = drop_bit class_shift (vm_mode meta) AND 7; required = required_bits access
               in if perm AND required \<noteq> required then Inl EACCES else Inr ()))"

definition check_metadata_access :: "Credentials \<Rightarrow> VfsMetadata \<Rightarrow> nat \<Rightarrow> SysErrNo + unit" where
  "check_metadata_access c meta access = check_metadata_access_with_identity c meta access RealId"

definition check_metadata_access_with_effective :: "Credentials \<Rightarrow> VfsMetadata \<Rightarrow> nat \<Rightarrow> bool \<Rightarrow> SysErrNo + unit" where
  "check_metadata_access_with_effective c meta access effective =
     check_metadata_access_with_identity c meta access (from_effective_flag effective)"

type_synonym lookup_metadata = "string \<Rightarrow> bool \<Rightarrow> SysErrNo + VfsMetadata"

fun search_loop :: "lookup_metadata \<Rightarrow> Credentials \<Rightarrow> CredentialIdentity \<Rightarrow> string \<Rightarrow> string list \<Rightarrow> SysErrNo + unit" where
  "search_loop metadata c identity current [] = Inr ()"
| "search_loop metadata c identity current (component # rest) =
     (let current' = (if current \<noteq> ''/'' then current @ ''/'' else current) @ component
      in case metadata current' True of
           Inl e \<Rightarrow> Inl e
         | Inr meta \<Rightarrow>
             (case check_metadata_access_with_identity c meta X_OK identity of
                Inl e \<Rightarrow> Inl e
              | Inr _ \<Rightarrow> search_loop metadata c identity current' rest))"

definition check_search_access :: "lookup_metadata \<Rightarrow> Credentials \<Rightarrow> string \<Rightarrow> CredentialIdentity \<Rightarrow> SysErrNo + unit" where
  "check_search_access metadata c path identity =
     (if identity_uid identity c = 0 then Inr ()
      else (let components = filter (\<lambda>part. part \<noteq> []) (split_slash (normalize_path path))
            in if length components \<le> 1 then Inr ()
               else search_loop metadata c identity ''/'' (take (length components - 1) components)))"

definition and_then :: "SysErrNo + unit \<Rightarrow> (SysErrNo + 'a) \<Rightarrow> SysErrNo + 'a" where
  "and_then r k = (case r of Inl e \<Rightarrow> Inl e | Inr _ \<Rightarrow> k)"

definition check_access_with_identity ::
  "lookup_metadata \<Rightarrow> Credentials \<Rightarrow> string \<Rightarrow> bool \<Rightarrow> nat \<Rightarrow> CredentialIdentity \<Rightarrow> SysErrNo + unit" where
  "check_access_with_identity metadata c path follow access identity =
     and_then (check_search_access metadata c path identity)
       (case metadata path follow of
          Inl e \<Rightarrow> Inl e
        | Inr meta \<Rightarrow> check_metadata_access_with_identity c meta access identity)"

definition check_access :: "lookup_metadata \<Rightarrow> Credentials \<Rightarrow> string \<Rightarrow> bool \<Rightarrow> nat \<Rightarrow> SysErrNo + unit" where
  "check_access metadata c path follow access = check_access_with_identity metadata c path follow access RealId"

definition check_access_with_effective :: "lookup_metadata \<Rightarrow> Credentials \<Rightarrow> string \<Rightarrow> bool \<Rightarrow> nat \<Rightarrow> bool \<Rightarrow> SysErrNo + unit" where
  "check_access_with_effective metadata c path follow access effective =
     check_access_with_identity metadata c path follow access (from_effective_flag effective)"

definition check_access_with_filesystem :: "lookup_metadata \<Rightarrow> Credentials \<Rightarrow> string \<Rightarrow> bool \<Rightarrow> nat \<Rightarrow> SysErrNo + unit" where
  "check_access_with_filesystem metadata c path follow access = check_access_with_identity metadata c path follow access FilesystemId"

definition check_access_with_filesystem_metadata ::
  "lookup_metadata \<Rightarrow> Credentials \<Rightarrow> string \<Rightarrow> VfsMetadata \<Rightarrow> nat \<Rightarrow> SysErrNo + unit" where
  "check_access_with_filesystem_metadata metadata c path meta access =
     and_then (check_search_access metadata c path FilesystemId) (check_metadata_access_with_identity c meta access FilesystemId)"

definition check_noatime_permission :: "Credentials \<Rightarrow> VfsMetadata \<Rightarrow> SysErrNo + unit" where
  "check_noatime_permission c meta = (if fsuid c = 0 \<or> fsuid c = vm_uid meta then Inr () else Inl EPERM)"

definition check_chmod_permission :: "Credentials \<Rightarrow> VfsMetadata \<Rightarrow> SysErrNo + unit" where
  "check_chmod_permission c meta =
     (if is_root_capable c \<or> fsuid c = 0 \<or> fsuid c = vm_uid meta then Inr () else Inl EPERM)"

definition chmod_mode_after_permission :: "Credentials \<Rightarrow> nat \<Rightarrow> VfsMetadata \<Rightarrow> nat" where
  "chmod_mode_after_permission c mode meta =
     (let next_mode = mode AND 0xfff
      in if next_mode AND S_ISGID \<noteq> 0 \<and> \<not> is_root_capable c \<and> fsuid c \<noteq> 0 \<and> \<not> is_in_filesystem_group c (vm_gid meta)
         then clear_mode next_mode S_ISGID else next_mode)"

definition check_times_permission :: "Credentials \<Rightarrow> VfsMetadata \<Rightarrow> TimesUpdatePermission \<Rightarrow> SysErrNo + unit" where
  "check_times_permission c meta permission =
     (case permission of
        NoTimes \<Rightarrow> Inr ()
      | CurrentTimes \<Rightarrow>
          if effective_uid c = 0 \<or> effective_uid c = vm_uid meta then Inr ()
          else check_metadata_access_with_identity c meta W_OK EffectiveId
      | ExplicitTimes \<Rightarrow> if effective_uid c = 0 \<or> effective_uid c = vm_uid meta then Inr () else Inl EPERM)"

definition check_chown_permission :: "Credentials \<Rightarrow> VfsMetadata \<Rightarrow> nat option \<Rightarrow> nat option \<Rightarrow> SysErrNo + unit" where
  "check_chown_permission c meta uid gid =
     (if uid = None \<and> gid = None then Inr ()
      else if effective_uid c = 0 \<or> effective_uid c = vm_uid meta then Inr () else Inl EPERM)"

definition check_create_access :: "lookup_metadata \<Rightarrow> Credentials \<Rightarrow> string \<Rightarrow> SysErrNo + unit" where
  "check_create_access metadata c parent =
     (case metadata parent True of
        Inl e \<Rightarrow> Inl e
      | Inr meta \<Rightarrow>
          if vm_kind meta \<noteq> Directory then Inl ENOTDIR
          else and_then (check_search_access metadata c parent FilesystemId)
                 (check_metadata_access_with_identity c meta (W_OK OR X_OK) FilesystemId))"

definition check_delete_access :: "lookup_metadata \<Rightarrow> Credentials \<Rightarrow> string \<Rightarrow> VfsMetadata \<Rightarrow> SysErrNo + unit" where
  "check_delete_access metadata c path target =
     (let parent = parent_path path
      in case metadata parent True of
           Inl e \<Rightarrow> Inl e
         | Inr parent_meta \<Rightarrow>
             if vm_kind parent_meta \<noteq> Directory then Inl ENOTDIR
             else and_then (check_search_access metadata c parent FilesystemId)
                    (and_then (check_metadata_access_with_identity c parent_meta (W_OK OR X_OK) FilesystemId)
                       (let uid = fsuid c
                        in if uid \<noteq> 0 \<and> vm_mode parent_meta AND S_ISVTX \<noteq> 0 \<and> uid \<noteq> vm_uid parent_meta \<and> uid \<noteq> vm_uid target
                           then Inl EPERM else Inr ())))"

section \<open>Privileges once given up do not come back\<close>

datatype cred_call =
    SetUid usize | SetGid usize | SetReUid usize usize | SetReGid usize usize | SetResUid usize usize usize | SetResGid usize usize usize
  | SetGroups "nat \<Rightarrow> SysErrNo + nat" usize usize | SetFsUid usize | SetFsGid usize

fun cred_step :: "cred_call \<Rightarrow> Credentials \<Rightarrow> Credentials" where
  "cred_step (SetUid a) c = fst (sys_setuid a c)"
| "cred_step (SetGid a) c = fst (sys_setgid a c)"
| "cred_step (SetReUid a b) c = fst (sys_setreuid a b c)"
| "cred_step (SetReGid a b) c = fst (sys_setregid a b c)"
| "cred_step (SetResUid a b d) c = fst (sys_setresuid a b d c)"
| "cred_step (SetResGid a b d) c = fst (sys_setresgid a b d c)"
| "cred_step (SetGroups get n l) c = fst (sys_setgroups get n l c)"
| "cred_step (SetFsUid a) c = fst (sys_setfsuid a c)"
| "cred_step (SetFsGid a) c = fst (sys_setfsgid a c)"

definition task_uids :: "Credentials \<Rightarrow> nat set" where
  "task_uids c = {real_uid c, effective_uid c, saved_uid c}"

definition task_gids :: "Credentials \<Rightarrow> nat set" where
  "task_gids c = {real_gid c, effective_gid c, saved_gid c}"

definition within :: "nat set \<Rightarrow> nat set \<Rightarrow> nat \<Rightarrow> nat \<Rightarrow> nat list \<Rightarrow> Credentials \<Rightarrow> bool" where
  "within U G fu fg gs c \<longleftrightarrow>
     task_uids c \<subseteq> U \<and> fsuid c \<in> insert fu U \<and> task_gids c \<subseteq> G \<and> fsgid c \<in> insert fg G \<and> supplementary_groups c = gs"

lemmas cred_defs = task_uids_def task_gids_def is_root_capable_def has_uid_def has_gid_def has_uid_or_fsuid_def has_gid_or_fsgid_def
  sync_fsuid_to_effective_def sync_fsgid_to_effective_def opt_holds_def put_ruid_def put_euid_def put_suid_def put_rgid_def put_egid_def put_sgid_def

lemma cred_step_within:
  assumes "within U G fu fg gs c" and "0 \<notin> U"
  shows "within U G fu fg gs (cred_step call c)"
proof -
  have "effective_uid c \<in> U" using assms(1) by (simp add: within_def task_uids_def)
  then have nr: "effective_uid c \<noteq> 0" using assms(2) by metis
  show ?thesis
  proof (cases call)
    case (SetReUid a b)
    then show ?thesis using assms(1) nr
      by (auto simp: sys_setreuid_def within_def cred_defs Let_def split: sum.splits option.splits if_splits)
  next
    case (SetReGid a b)
    then show ?thesis using assms(1) nr
      by (auto simp: sys_setregid_def within_def cred_defs Let_def split: sum.splits option.splits if_splits)
  next
    case (SetResUid a b d)
    then show ?thesis using assms(1) nr
      by (auto simp: sys_setresuid_def within_def cred_defs Let_def split: sum.splits option.splits if_splits)
  next
    case (SetResGid a b d)
    then show ?thesis using assms(1) nr
      by (auto simp: sys_setresgid_def within_def cred_defs Let_def split: sum.splits option.splits if_splits)
  qed (use assms(1) nr in \<open>auto simp: sys_setuid_def sys_setgid_def sys_setgroups_def sys_setfsuid_def sys_setfsgid_def within_def cred_defs
      split: sum.splits option.splits if_splits\<close>)
qed

lemma cred_run_within: "within U G fu fg gs c \<Longrightarrow> 0 \<notin> U \<Longrightarrow> within U G fu fg gs (fold cred_step calls c)"
  by (induction calls arbitrary: c) (simp_all add: cred_step_within)

text \<open>
  C13. A task none of whose real, effective and saved user identities is 0 can make any sequence of identity calls with any arguments: its
  identities stay among those three, the file-system identity among them and the one it had, the same holds of its groups, and
  the supplementary groups do not change. In particular it never becomes privileged again.
\<close>

theorem no_privilege_gain:
  assumes "0 \<notin> task_uids c"
  shows "let c' = fold cred_step calls c
    in task_uids c' \<subseteq> task_uids c \<and> fsuid c' \<in> insert (fsuid c) (task_uids c) \<and> \<not> is_root_capable c'
       \<and> task_gids c' \<subseteq> task_gids c \<and> fsgid c' \<in> insert (fsgid c) (task_gids c) \<and> supplementary_groups c' = supplementary_groups c"
proof -
  let ?c = "fold cred_step calls c"
  have w: "within (task_uids c) (task_gids c) (fsuid c) (fsgid c) (supplementary_groups c) ?c"
    by (rule cred_run_within [OF _ assms]) (simp add: within_def)
  then have "effective_uid ?c \<in> task_uids c" by (simp add: within_def task_uids_def)
  then have "\<not> is_root_capable ?c" using assms by (metis is_root_capable_def)
  then show ?thesis using w by (simp add: within_def Let_def)
qed

text \<open>A server that drops from root to user 1000 and then tries to come back.\<close>

theorem no_privilege_gain_witness:
  "0 \<notin> task_uids (fst (sys_setuid 1000 root_credentials))
   \<and> \<not> is_root_capable (fold cred_step [SetUid 0, SetResUid 0 0 0, SetFsUid 0] (fst (sys_setuid 1000 root_credentials)))"
proof -
  have "0 \<notin> task_uids (fst (sys_setuid 1000 root_credentials))"
    by (simp add: sys_setuid_def parse_required_id_def u32_max_def root_credentials_def cred_defs)
  then show ?thesis using no_privilege_gain [of "fst (sys_setuid 1000 root_credentials)" "[SetUid 0, SetResUid 0 0 0, SetFsUid 0]"]
    by (simp only: Let_def) blast
qed

section \<open>What the checks decide\<close>


















end
