(* ===== verification/Mem_Fs.thy ===== *)
theory Mem_Fs
  imports Mem_File Credentials "HOL-Library.List_Lexorder" "HOL-Library.Char_ord"
begin

unbundle bit_operations_syntax

text \<open>
  The in-memory file system (\<open>MemFileSystem\<close>, \<open>os/src/fs/mod.rs\<close>): files, directories, symbolic links and special nodes by normalised
  path, with metadata and extended attributes. A \<open>BTreeMap\<close> is a list sorted by key, a \<open>BTreeSet\<close> that is iterated a sorted list.
  The contents of files are shared with open descriptors: a backing has an address in a heap, and several names may hold the same one.
  The current time and the credentials of the caller are arguments.
\<close>

section \<open>Data\<close>

record FileTimes =
  ft_atime :: "int \<times> int"
  ft_mtime :: "int \<times> int"
  ft_ctime :: "int \<times> int"

definition touch_modified :: "FileTimes \<Rightarrow> FileTimes \<Rightarrow> FileTimes" where
  "touch_modified now t = t\<lparr>ft_mtime := ft_mtime now, ft_ctime := ft_ctime now\<rparr>"

definition set_access_modify :: "FileTimes \<Rightarrow> (int \<times> int) option \<Rightarrow> (int \<times> int) option \<Rightarrow> FileTimes \<Rightarrow> FileTimes" where
  "set_access_modify now atime mtime t =
     (let t1 = (case atime of None \<Rightarrow> t | Some a \<Rightarrow> t\<lparr>ft_atime := a\<rparr>);
          t2 = (case mtime of None \<Rightarrow> t1 | Some m \<Rightarrow> t1\<lparr>ft_mtime := m\<rparr>)
      in t2\<lparr>ft_ctime := ft_ctime now\<rparr>)"

record MemFileBacking =
  mb_content :: MemFileContent
  mb_times :: FileTimes

record MemFile =
  mfile_name :: string
  mfile_backing :: addr
  mfile_link_key :: string

datatype MemSpecialKind = Fifo | SocketNode | CharDevice nat nat | BlockDevice nat nat

record MemFileSystem =
  fs_files :: "MemFile list"
  fs_names :: "string set"
  fs_dirs :: "string list"
  fs_symlinks :: "(string \<times> string) list"
  fs_specials :: "(string \<times> MemSpecialKind) list"
  fs_meta :: "(string \<times> MemNodeMetadata) list"
  fs_xattrs :: "(nat \<times> (string \<times> byte list) list) list"
  fs_next_ino :: nat
  fs_heap :: "addr \<Rightarrow> MemFileBacking"
  fs_next_backing :: addr

section \<open>Metadata\<close>

definition meta_new :: "nat \<Rightarrow> MemNodeMetadata" where
  "meta_new mode = \<lparr>mn_mode = mode AND 0xfff, mn_uid = 0, mn_gid = 0, mn_ino = 0, mn_flags = 0\<rparr>"

definition meta_new_with_ino :: "nat \<Rightarrow> nat \<Rightarrow> MemNodeMetadata" where
  "meta_new_with_ino mode ino = (meta_new mode)\<lparr>mn_ino := ino\<rparr>"

definition meta_new_for_current :: "Credentials \<Rightarrow> nat \<Rightarrow> MemNodeMetadata" where
  "meta_new_for_current c mode = \<lparr>mn_mode = mode AND 0xfff, mn_uid = fsuid c, mn_gid = fsgid c, mn_ino = 0, mn_flags = 0\<rparr>"

definition meta_new_child_for_current :: "Credentials \<Rightarrow> MemNodeMetadata option \<Rightarrow> nat \<Rightarrow> bool \<Rightarrow> MemNodeMetadata" where
  "meta_new_child_for_current c parent mode is_directory =
     (let parent_setgid = (case parent of None \<Rightarrow> False | Some m \<Rightarrow> mn_mode m AND 0x400 \<noteq> 0);
          m0 = mode AND 0xfff;
          m1 = (if is_directory \<and> parent_setgid then m0 OR 0x400 else m0);
          m2 = (if \<not> is_directory \<and> parent_setgid \<and> m1 AND 0x400 \<noteq> 0 \<and> \<not> is_root_capable c
                   \<and> \<not> is_in_filesystem_group c (case parent of None \<Rightarrow> 0 | Some m \<Rightarrow> mn_gid m)
                then clear_mode m1 0x400 else m1)
      in \<lparr>mn_mode = m2, mn_uid = fsuid c, mn_gid = (case parent of Some m \<Rightarrow> if parent_setgid then mn_gid m else fsgid c | None \<Rightarrow> fsgid c),
          mn_ino = 0, mn_flags = 0\<rparr>)"

definition chown_mode_after_owner_update :: "nat \<Rightarrow> bool \<Rightarrow> bool \<Rightarrow> nat" where
  "chown_mode_after_owner_update mode is_regular requested =
     (if \<not> is_regular \<or> \<not> requested then mode
      else (let next_mode = clear_mode mode 0x800 in if mode AND 8 \<noteq> 0 then clear_mode next_mode 0x400 else next_mode))"

section \<open>Files and their backings\<close>

definition is_elf_content :: "byte list \<Rightarrow> bool" where
  "is_elf_content bs \<longleftrightarrow> 4 \<le> length bs \<and> take 4 bs = [0x7f, 0x45, 0x4c, 0x46]"

text \<open>\<open>Arc::new(Mutex::new(..))\<close>: a fresh address.\<close>

definition alloc_backing :: "MemFileContent \<Rightarrow> FileTimes \<Rightarrow> MemFileSystem \<Rightarrow> addr \<times> MemFileSystem" where
  "alloc_backing content tms fs =
     (fs_next_backing fs,
      fs\<lparr>fs_heap := (fs_heap fs)(fs_next_backing fs := \<lparr>mb_content = content, mb_times = tms\<rparr>), fs_next_backing := fs_next_backing fs + 1\<rparr>)"

definition push_file :: "string \<Rightarrow> addr \<Rightarrow> string \<Rightarrow> MemFileSystem \<Rightarrow> MemFileSystem" where
  "push_file name backing link_key fs =
     fs\<lparr>fs_files := fs_files fs @ [\<lparr>mfile_name = name, mfile_backing = backing, mfile_link_key = link_key\<rparr>],
        fs_names := insert name (fs_names fs)\<rparr>"

definition with_link_key :: "string \<Rightarrow> MemFileContent \<Rightarrow> FileTimes \<Rightarrow> string \<Rightarrow> MemFileSystem \<Rightarrow> MemFileSystem" where
  "with_link_key name content tms link_key fs =
     (case alloc_backing content tms fs of (b, fs1) \<Rightarrow> push_file name b link_key fs1)"

definition update_backing :: "addr \<Rightarrow> (MemFileBacking \<Rightarrow> MemFileBacking) \<Rightarrow> MemFileSystem \<Rightarrow> MemFileSystem" where
  "update_backing b f fs = fs\<lparr>fs_heap := (fs_heap fs)(b := f (fs_heap fs b))\<rparr>"

definition find_file :: "string \<Rightarrow> MemFileSystem \<Rightarrow> MemFile option" where
  "find_file name fs = find (\<lambda>f. mfile_name f = name) (fs_files fs)"

definition touch_ctime :: "FileTimes \<Rightarrow> string \<Rightarrow> MemFileSystem \<Rightarrow> MemFileSystem" where
  "touch_ctime now name fs =
     (case find_file name fs of
        None \<Rightarrow> fs
      | Some f \<Rightarrow> update_backing (mfile_backing f) (\<lambda>b. b\<lparr>mb_times := (mb_times b)\<lparr>ft_ctime := ft_ctime now\<rparr>\<rparr>) fs)"

section \<open>Sets\<close>

definition bset_insert :: "string \<Rightarrow> string list \<Rightarrow> string list" where
  "bset_insert x xs = insort_insert x xs"

definition bset_remove :: "string \<Rightarrow> string list \<Rightarrow> string list" where
  "bset_remove x xs = filter (\<lambda>y. y \<noteq> x) xs"

section \<open>Queries\<close>

definition mem_fs_new :: MemFileSystem where
  "mem_fs_new =
     \<lparr>fs_files = [], fs_names = {}, fs_dirs = [''/''], fs_symlinks = [], fs_specials = [],
      fs_meta = [(''/'', meta_new_with_ino 0x1ed 1)], fs_xattrs = [], fs_next_ino = 2,
      fs_heap = (\<lambda>_. \<lparr>mb_content = mem_new, mb_times = \<lparr>ft_atime = (0, 0), ft_mtime = (0, 0), ft_ctime = (0, 0)\<rparr>\<rparr>), fs_next_backing = 0\<rparr>"

definition fs_exists :: "string \<Rightarrow> MemFileSystem \<Rightarrow> bool" where
  "fs_exists raw fs =
     (let name = normalize_path raw
      in name \<in> fs_names fs \<or> name \<in> set (fs_dirs fs) \<or> bt_get name (fs_symlinks fs) \<noteq> None \<or> bt_get name (fs_specials fs) \<noteq> None)"

definition fs_is_dir :: "string \<Rightarrow> MemFileSystem \<Rightarrow> bool" where
  "fs_is_dir raw fs \<longleftrightarrow> normalize_path raw \<in> set (fs_dirs fs)"

definition get_file :: "string \<Rightarrow> MemFileSystem \<Rightarrow> MemFile option" where
  "get_file raw fs = (let name = normalize_path raw in if name \<notin> fs_names fs then None else find_file name fs)"

definition get_symlink :: "string \<Rightarrow> MemFileSystem \<Rightarrow> string option" where
  "get_symlink raw fs = bt_get (normalize_path raw) (fs_symlinks fs)"

definition get_special :: "string \<Rightarrow> MemFileSystem \<Rightarrow> MemSpecialKind option" where
  "get_special raw fs = bt_get (normalize_path raw) (fs_specials fs)"

definition fs_metadata :: "string \<Rightarrow> MemFileSystem \<Rightarrow> MemNodeMetadata option" where
  "fs_metadata raw fs = bt_get (normalize_path raw) (fs_meta fs)"

definition dir_has_entries :: "string \<Rightarrow> MemFileSystem \<Rightarrow> bool" where
  "dir_has_entries raw fs =
     (let name = normalize_path raw
      in list_ex (\<lambda>f. is_descendant name (mfile_name f)) (fs_files fs)
         \<or> list_ex (\<lambda>(link, _). is_descendant name link) (fs_symlinks fs)
         \<or> list_ex (\<lambda>(special, _). is_descendant name special) (fs_specials fs)
         \<or> list_ex (\<lambda>dir. dir \<noteq> name \<and> is_descendant name dir) (fs_dirs fs))"

definition link_count :: "addr \<Rightarrow> MemFileSystem \<Rightarrow> nat" where
  "link_count b fs = min (max (length (filter (\<lambda>f. mfile_backing f = b) (fs_files fs))) 1) (2 ^ 32 - 1)"

definition file_link_count :: "string \<Rightarrow> MemFileSystem \<Rightarrow> nat" where
  "file_link_count raw fs = (case find_file (normalize_path raw) fs of None \<Rightarrow> 1 | Some f \<Rightarrow> link_count (mfile_backing f) fs)"

definition file_link_key :: "string \<Rightarrow> MemFileSystem \<Rightarrow> string option" where
  "file_link_key raw fs =
     (case find_file (normalize_path raw) fs of
        None \<Rightarrow> None
      | Some f \<Rightarrow> map_option mfile_link_key (find (\<lambda>g. mfile_backing g = mfile_backing f) (fs_files fs)))"

datatype MemNodeSnapshot =
    SnapDirectory MemNodeMetadata
  | SnapFile usize bool FileTimes MemNodeMetadata nat string
  | SnapSymlink string MemNodeMetadata
  | SnapSpecial MemSpecialKind MemNodeMetadata

definition or_meta :: "nat \<Rightarrow> MemNodeMetadata option \<Rightarrow> MemNodeMetadata" where
  "or_meta mode m = (case m of Some x \<Rightarrow> x | None \<Rightarrow> meta_new mode)"

definition node_snapshot :: "string \<Rightarrow> MemFileSystem \<Rightarrow> MemNodeSnapshot option" where
  "node_snapshot raw fs =
     (let name = normalize_path raw; meta = bt_get name (fs_meta fs)
      in if name \<in> set (fs_dirs fs) then Some (SnapDirectory (or_meta 0x1ed meta))
         else if name \<in> fs_names fs then
           (case find_file name fs of
              None \<Rightarrow> None
            | Some f \<Rightarrow>
                (let b = fs_heap fs (mfile_backing f); elf = is_elf_image (mb_content b)
                 in Some (SnapFile (mem_len (mb_content b)) elf (mb_times b) (or_meta (if elf then 0x1ff else 0x1b6) meta)
                            (link_count (mfile_backing f) fs) (mfile_link_key f))))
         else (case bt_get name (fs_symlinks fs) of
                 Some target \<Rightarrow> Some (SnapSymlink target (or_meta 0x1ff meta))
               | None \<Rightarrow> map_option (\<lambda>kind. SnapSpecial kind (or_meta 0x1b6 meta)) (bt_get name (fs_specials fs))))"

definition fs_inode :: "string \<Rightarrow> MemFileSystem \<Rightarrow> nat option" where
  "fs_inode raw fs = (case fs_metadata raw fs of None \<Rightarrow> None | Some m \<Rightarrow> if mn_ino m \<noteq> 0 then Some (mn_ino m) else None)"

definition file_flags :: "string \<Rightarrow> MemFileSystem \<Rightarrow> nat option" where
  "file_flags raw fs = map_option mn_flags (fs_metadata raw fs)"

definition list_file_names :: "MemFileSystem \<Rightarrow> string list" where
  "list_file_names fs = map mfile_name (fs_files fs)"

definition entry_count :: "MemFileSystem \<Rightarrow> usize" where
  "entry_count fs =
     saturating_add (saturating_add (saturating_add (length (fs_files fs)) (length (fs_dirs fs))) (length (fs_symlinks fs))) (length (fs_specials fs))"

fun unique_bytes :: "(addr \<Rightarrow> MemFileBacking) \<Rightarrow> addr set \<Rightarrow> MemFile list \<Rightarrow> nat" where
  "unique_bytes h seen [] = 0"
| "unique_bytes h seen (f # fl) =
     (if mfile_backing f \<in> seen then unique_bytes h seen fl
      else mem_len (mb_content (h (mfile_backing f))) + unique_bytes h (insert (mfile_backing f) seen) fl)"

definition total_file_bytes :: "MemFileSystem \<Rightarrow> nat" where
  "total_file_bytes fs = unique_bytes (fs_heap fs) {} (fs_files fs) + sum_list (map (length \<circ> snd) (fs_symlinks fs))"

definition children :: "string \<Rightarrow> bool \<Rightarrow> string list \<Rightarrow> DirEntryRecord list" where
  "children dir d paths = List.map_filter (\<lambda>p. map_option (\<lambda>n. \<lparr>de_name = n, de_is_dir = d\<rparr>) (child_name dir p)) paths"

definition list_dir :: "string \<Rightarrow> MemFileSystem \<Rightarrow> SysErrNo + DirEntryRecord list" where
  "list_dir raw fs =
     (let dir = normalize_path raw
      in if \<not> fs_is_dir dir fs then Inl ENOTDIR
         else Inr (sort_key de_name
                (children dir True (fs_dirs fs) @ children dir False (map mfile_name (fs_files fs))
                 @ children dir False (map fst (fs_symlinks fs)) @ children dir False (map fst (fs_specials fs)))))"

section \<open>Metadata and parent directories\<close>

definition allocate_metadata :: "MemNodeMetadata \<Rightarrow> MemFileSystem \<Rightarrow> MemNodeMetadata \<times> MemFileSystem" where
  "allocate_metadata m fs =
     (if mn_ino m = 0
      then (m\<lparr>mn_ino := fs_next_ino fs\<rparr>, fs\<lparr>fs_next_ino := max (saturating_add (fs_next_ino fs) 1) 2\<rparr>)
      else (m, fs))"

definition put_metadata :: "string \<Rightarrow> MemNodeMetadata \<Rightarrow> MemFileSystem \<Rightarrow> MemFileSystem" where
  "put_metadata name m fs = fs\<lparr>fs_meta := bt_insert name m (fs_meta fs)\<rparr>"

definition insert_new_metadata :: "string \<Rightarrow> MemNodeMetadata \<Rightarrow> MemFileSystem \<Rightarrow> MemFileSystem" where
  "insert_new_metadata name m fs = (case allocate_metadata m fs of (m', fs') \<Rightarrow> put_metadata name m' fs')"

definition ensure_metadata :: "Credentials \<Rightarrow> string \<Rightarrow> nat \<Rightarrow> MemFileSystem \<Rightarrow> MemFileSystem" where
  "ensure_metadata c raw mode fs =
     (let name = normalize_path raw
      in if bt_get name (fs_meta fs) = None then insert_new_metadata name (meta_new_for_current c mode) fs else fs)"

definition metadata_or_alloc :: "string \<Rightarrow> nat \<Rightarrow> MemFileSystem \<Rightarrow> MemNodeMetadata \<times> MemFileSystem" where
  "metadata_or_alloc raw mode fs =
     (let name = normalize_path raw
      in case bt_get name (fs_meta fs) of
           Some m \<Rightarrow> (m, fs)
         | None \<Rightarrow> (case allocate_metadata (meta_new mode) fs of (m, fs') \<Rightarrow> (m, put_metadata name m fs')))"

definition child_metadata_for_current :: "Credentials \<Rightarrow> string \<Rightarrow> nat \<Rightarrow> bool \<Rightarrow> MemFileSystem \<Rightarrow> MemNodeMetadata" where
  "child_metadata_for_current c name mode d fs = meta_new_child_for_current c (fs_metadata (parent_path name) fs) mode d"

definition tmpfile_metadata_for_current :: "Credentials \<Rightarrow> string \<Rightarrow> nat \<Rightarrow> MemFileSystem \<Rightarrow> MemNodeMetadata \<times> MemFileSystem" where
  "tmpfile_metadata_for_current c dir mode fs =
     allocate_metadata (meta_new_child_for_current c (fs_metadata (normalize_path dir) fs) mode False) fs"

fun parent_dirs_loop :: "string \<Rightarrow> string list \<Rightarrow> MemFileSystem \<Rightarrow> MemFileSystem" where
  "parent_dirs_loop current [] fs = fs"
| "parent_dirs_loop current (component # rest) fs =
     (let current' = (if current \<noteq> ''/'' then current @ ''/'' else current) @ component;
          fs1 = fs\<lparr>fs_dirs := bset_insert current' (fs_dirs fs)\<rparr>;
          fs2 = (if bt_get current' (fs_meta fs1) = None then insert_new_metadata current' (meta_new 0x1ed) fs1 else fs1)
      in parent_dirs_loop current' rest fs2)"

definition ensure_parent_dirs :: "string \<Rightarrow> MemFileSystem \<Rightarrow> MemFileSystem" where
  "ensure_parent_dirs path fs =
     parent_dirs_loop ''/'' (takeWhile (\<lambda>part. part \<noteq> file_name path) (filter (\<lambda>part. part \<noteq> []) (split_slash path))) fs"

section \<open>Creating nodes\<close>

definition drop_file :: "string \<Rightarrow> MemFileSystem \<Rightarrow> MemFileSystem" where
  "drop_file name fs = fs\<lparr>fs_files := filter (\<lambda>f. mfile_name f \<noteq> name) (fs_files fs)\<rparr>"

definition drop_symlink :: "string \<Rightarrow> MemFileSystem \<Rightarrow> MemFileSystem" where
  "drop_symlink name fs = fs\<lparr>fs_symlinks := bt_remove name (fs_symlinks fs)\<rparr>"

definition drop_special :: "string \<Rightarrow> MemFileSystem \<Rightarrow> MemFileSystem" where
  "drop_special name fs = fs\<lparr>fs_specials := bt_remove name (fs_specials fs)\<rparr>"

definition add_file :: "Credentials \<Rightarrow> FileTimes \<Rightarrow> string \<Rightarrow> byte list \<Rightarrow> MemFileSystem \<Rightarrow> MemFileSystem" where
  "add_file c now raw content fs =
     (let name = normalize_path raw;
          fs1 = drop_file name (drop_symlink name (ensure_parent_dirs name fs));
          mode = (if is_elf_content content then 0x1ff else 0x1b6)
      in insert_new_metadata name (meta_new_for_current c mode) (with_link_key name (from_slice content) now name fs1))"

definition add_file_with_mode :: "Credentials \<Rightarrow> FileTimes \<Rightarrow> string \<Rightarrow> byte list \<Rightarrow> nat \<Rightarrow> MemFileSystem \<Rightarrow> MemFileSystem" where
  "add_file_with_mode c now raw content mode fs =
     (let name = normalize_path raw;
          fs1 = drop_file name (drop_special name (drop_symlink name (ensure_parent_dirs name fs)));
          fs2 = with_link_key name (from_slice content) now name fs1
      in insert_new_metadata name (child_metadata_for_current c name mode False fs2) fs2)"

definition can_create :: "string \<Rightarrow> MemFileSystem \<Rightarrow> SysErrNo + unit" where
  "can_create name fs =
     (if \<not> fs_is_dir (parent_path name) fs then Inl ENOENT else if fs_exists name fs then Inl EEXIST else Inr ())"

definition add_file_with_metadata ::
  "string \<Rightarrow> MemFileContent \<Rightarrow> FileTimes \<Rightarrow> MemNodeMetadata \<Rightarrow> MemFileSystem \<Rightarrow> MemFileSystem \<times> (SysErrNo + unit)" where
  "add_file_with_metadata raw content tms m fs =
     (let name = normalize_path raw
      in case can_create name fs of
           Inl e \<Rightarrow> (fs, Inl e)
         | Inr _ \<Rightarrow> (put_metadata name m (with_link_key name content tms name (drop_special name (drop_symlink name fs))), Inr ()))"

definition add_file_with_backing_and_metadata ::
  "string \<Rightarrow> addr \<Rightarrow> MemNodeMetadata \<Rightarrow> MemFileSystem \<Rightarrow> MemFileSystem \<times> (SysErrNo + unit)" where
  "add_file_with_backing_and_metadata raw backing m fs =
     (let name = normalize_path raw
      in case can_create name fs of
           Inl e \<Rightarrow> (fs, Inl e)
         | Inr _ \<Rightarrow> (put_metadata name m (push_file name backing name (drop_special name (drop_symlink name fs))), Inr ()))"

definition set_mode :: "FileTimes \<Rightarrow> string \<Rightarrow> nat \<Rightarrow> MemFileSystem \<Rightarrow> MemFileSystem \<times> (SysErrNo + unit)" where
  "set_mode now raw mode fs =
     (let name = normalize_path raw
      in if \<not> fs_exists name fs then (fs, Inl ENOENT)
         else (case metadata_or_alloc name 0x1b6 fs of
                 (m, fs1) \<Rightarrow> (touch_ctime now name (put_metadata name (m\<lparr>mn_mode := mode AND 0xfff\<rparr>) fs1), Inr ())))"

definition set_owner :: "FileTimes \<Rightarrow> string \<Rightarrow> nat option \<Rightarrow> nat option \<Rightarrow> MemFileSystem \<Rightarrow> MemFileSystem \<times> (SysErrNo + unit)" where
  "set_owner now raw uid gid fs =
     (let name = normalize_path raw
      in if \<not> fs_exists name fs then (fs, Inl ENOENT)
         else (case metadata_or_alloc name 0x1b6 fs of
                 (m, fs1) \<Rightarrow>
                   (let m1 = m\<lparr>mn_mode := chown_mode_after_owner_update (mn_mode m) (name \<in> fs_names fs1) (uid \<noteq> None \<or> gid \<noteq> None)\<rparr>;
                        m2 = (case uid of None \<Rightarrow> m1 | Some u \<Rightarrow> m1\<lparr>mn_uid := u\<rparr>);
                        m3 = (case gid of None \<Rightarrow> m2 | Some g \<Rightarrow> m2\<lparr>mn_gid := g\<rparr>)
                    in (touch_ctime now name (put_metadata name m3 fs1), Inr ()))))"

definition add_dir :: "Credentials \<Rightarrow> string \<Rightarrow> MemFileSystem \<Rightarrow> MemFileSystem" where
  "add_dir c raw fs =
     (let name = normalize_path raw; fs1 = drop_symlink name (ensure_parent_dirs name fs)
      in ensure_metadata c name 0x1ed (fs1\<lparr>fs_dirs := bset_insert name (fs_dirs fs1)\<rparr>))"

definition add_dir_with_mode :: "Credentials \<Rightarrow> FileTimes \<Rightarrow> string \<Rightarrow> nat \<Rightarrow> MemFileSystem \<Rightarrow> MemFileSystem" where
  "add_dir_with_mode c now raw mode fs =
     (let name = normalize_path raw; fs1 = drop_special name (drop_symlink name (ensure_parent_dirs name fs));
          fs2 = fs1\<lparr>fs_dirs := bset_insert name (fs_dirs fs1)\<rparr>
      in if name \<notin> set (fs_dirs fs1) then insert_new_metadata name (child_metadata_for_current c name mode True fs2) fs2
         else fst (set_mode now name mode (ensure_metadata c name 0x1ed fs2)))"

definition add_symlink :: "Credentials \<Rightarrow> string \<Rightarrow> string \<Rightarrow> MemFileSystem \<Rightarrow> MemFileSystem \<times> (SysErrNo + unit)" where
  "add_symlink c raw target fs =
     (let name = normalize_path raw
      in case can_create name fs of
           Inl e \<Rightarrow> (fs, Inl e)
         | Inr _ \<Rightarrow>
             (let fs1 = fs\<lparr>fs_symlinks := bt_insert name target (fs_symlinks fs)\<rparr>
              in (insert_new_metadata name (child_metadata_for_current c name 0x1ff False fs1) fs1, Inr ())))"

definition add_special_with_mode ::
  "Credentials \<Rightarrow> string \<Rightarrow> MemSpecialKind \<Rightarrow> nat \<Rightarrow> MemFileSystem \<Rightarrow> MemFileSystem \<times> (SysErrNo + unit)" where
  "add_special_with_mode c raw kind mode fs =
     (let name = normalize_path raw
      in case can_create name fs of
           Inl e \<Rightarrow> (fs, Inl e)
         | Inr _ \<Rightarrow>
             (let fs1 = fs\<lparr>fs_specials := bt_insert name kind (fs_specials fs)\<rparr>
              in (insert_new_metadata name (child_metadata_for_current c name mode False fs1) fs1, Inr ())))"

definition add_overlay_special_with_mode ::
  "Credentials \<Rightarrow> string \<Rightarrow> MemSpecialKind \<Rightarrow> nat \<Rightarrow> MemFileSystem \<Rightarrow> MemFileSystem \<times> (SysErrNo + unit)" where
  "add_overlay_special_with_mode c raw kind mode fs =
     (let name = normalize_path raw in add_special_with_mode c name kind mode (ensure_parent_dirs name fs))"

section \<open>Contents\<close>

definition write_file_content :: "string \<Rightarrow> MemFileContent \<Rightarrow> FileTimes \<Rightarrow> MemFileSystem \<Rightarrow> MemFileSystem \<times> bool" where
  "write_file_content raw content tms fs =
     (case get_file (normalize_path raw) fs of
        None \<Rightarrow> (fs, False)
      | Some f \<Rightarrow> (update_backing (mfile_backing f) (\<lambda>_. \<lparr>mb_content = content, mb_times = tms\<rparr>) fs, True))"

definition read_file_at :: "string \<Rightarrow> usize \<Rightarrow> usize \<Rightarrow> MemFileSystem \<Rightarrow> SysErrNo + byte list" where
  "read_file_at raw off len fs =
     (case find_file (normalize_path raw) fs of
        None \<Rightarrow> Inl ENOENT
      | Some f \<Rightarrow>
          (let content = mb_content (fs_heap fs (mfile_backing f))
           in if off \<ge> mem_len content then Inr [] else Inr (mem_read_at content off len)))"

definition write_file_at :: "FileTimes \<Rightarrow> string \<Rightarrow> usize \<Rightarrow> byte list \<Rightarrow> MemFileSystem \<Rightarrow> MemFileSystem \<times> (SysErrNo + nat)" where
  "write_file_at now raw off buf fs =
     (case find_file (normalize_path raw) fs of
        None \<Rightarrow> (fs, Inl ENOENT)
      | Some f \<Rightarrow>
          (case checked_add off (length buf) of
             None \<Rightarrow> (fs, Inl EFBIG)
           | Some e \<Rightarrow>
               if e > 2 ^ 63 - 1 then (fs, Inl EFBIG)
               else if buf = [] then (fs, Inr 0)
               else (update_backing (mfile_backing f)
                       (\<lambda>b. b\<lparr>mb_content := fst (mem_write_at (mb_content b) off buf), mb_times := touch_modified now (mb_times b)\<rparr>) fs,
                     Inr (length buf))))"

definition truncate_file :: "FileTimes \<Rightarrow> string \<Rightarrow> usize \<Rightarrow> MemFileSystem \<Rightarrow> MemFileSystem \<times> (SysErrNo + unit)" where
  "truncate_file now raw new_len fs =
     (case find_file (normalize_path raw) fs of
        None \<Rightarrow> (fs, Inl ENOENT)
      | Some f \<Rightarrow>
          (update_backing (mfile_backing f)
             (\<lambda>b. b\<lparr>mb_content := mem_resize (mb_content b) new_len, mb_times := touch_modified now (mb_times b)\<rparr>) fs, Inr ()))"

definition set_file_times ::
  "FileTimes \<Rightarrow> string \<Rightarrow> (int \<times> int) option \<Rightarrow> (int \<times> int) option \<Rightarrow> MemFileSystem \<Rightarrow> MemFileSystem \<times> (SysErrNo + unit)" where
  "set_file_times now raw atime mtime fs =
     (case find_file (normalize_path raw) fs of
        None \<Rightarrow> (fs, Inl ENOENT)
      | Some f \<Rightarrow>
          (update_backing (mfile_backing f) (\<lambda>b. b\<lparr>mb_times := set_access_modify now atime mtime (mb_times b)\<rparr>) fs, Inr ()))"

section \<open>Extended attributes\<close>

definition xattr_inode_and_set_allowed :: "string \<Rightarrow> MemFileSystem \<Rightarrow> SysErrNo + nat \<times> bool" where
  "xattr_inode_and_set_allowed raw fs =
     (let name = normalize_path raw; set_allowed = (name \<in> fs_names fs \<or> name \<in> set (fs_dirs fs))
      in if \<not> (set_allowed \<or> bt_get name (fs_symlinks fs) \<noteq> None \<or> bt_get name (fs_specials fs) \<noteq> None) then Inl ENOENT
         else (case bt_get name (fs_meta fs) of
                 None \<Rightarrow> Inl ENOENT
               | Some m \<Rightarrow> if mn_ino m = 0 then Inl ENOENT else Inr (mn_ino m, set_allowed)))"

definition attrs_of :: "nat \<Rightarrow> MemFileSystem \<Rightarrow> (string \<times> byte list) list" where
  "attrs_of ino fs = (case bt_get ino (fs_xattrs fs) of None \<Rightarrow> [] | Some a \<Rightarrow> a)"

definition set_xattr ::
  "FileTimes \<Rightarrow> string \<Rightarrow> string \<Rightarrow> byte list \<Rightarrow> nat \<Rightarrow> MemFileSystem \<Rightarrow> MemFileSystem \<times> (SysErrNo + unit)" where
  "set_xattr now name key val flags fs =
     (if flags > 3 \<or> flags = 3 then (fs, Inl EINVAL)
      else if key = [] \<or> length key > 255 then (fs, Inl ERANGE)
      else if length val > 65536 then (fs, Inl E2BIG)
      else (case xattr_inode_and_set_allowed name fs of
              Inl e \<Rightarrow> (fs, Inl e)
            | Inr (ino, set_allowed) \<Rightarrow>
                if \<not> set_allowed then (fs, Inl EPERM)
                else (let attrs = attrs_of ino fs; there = (bt_get key attrs \<noteq> None);
                          fs1 = fs\<lparr>fs_xattrs := bt_insert ino attrs (fs_xattrs fs)\<rparr>
                      in if flags AND 1 \<noteq> 0 \<and> there then (fs1, Inl EEXIST)
                         else if flags AND 2 \<noteq> 0 \<and> \<not> there then (fs1, Inl ENODATA)
                         else (touch_ctime now (normalize_path name)
                                 (fs1\<lparr>fs_xattrs := bt_insert ino (bt_insert key val attrs) (fs_xattrs fs1)\<rparr>), Inr ()))))"

definition get_xattr :: "string \<Rightarrow> string \<Rightarrow> MemFileSystem \<Rightarrow> SysErrNo + byte list" where
  "get_xattr name key fs =
     (if key = [] \<or> length key > 255 then Inl ERANGE
      else (case xattr_inode_and_set_allowed name fs of
              Inl e \<Rightarrow> Inl e
            | Inr (ino, _) \<Rightarrow> (case bt_get key (attrs_of ino fs) of None \<Rightarrow> Inl ENODATA | Some v \<Rightarrow> Inr v)))"

definition list_xattr :: "string \<Rightarrow> MemFileSystem \<Rightarrow> SysErrNo + string" where
  "list_xattr name fs =
     (case xattr_inode_and_set_allowed name fs of
        Inl e \<Rightarrow> Inl e
      | Inr (ino, _) \<Rightarrow> Inr (concat (map (\<lambda>(key, _). key @ [CHR 0x00]) (attrs_of ino fs))))"

definition remove_xattr :: "FileTimes \<Rightarrow> string \<Rightarrow> string \<Rightarrow> MemFileSystem \<Rightarrow> MemFileSystem \<times> (SysErrNo + unit)" where
  "remove_xattr now name key fs =
     (if key = [] \<or> length key > 255 then (fs, Inl ERANGE)
      else (case xattr_inode_and_set_allowed name fs of
              Inl e \<Rightarrow> (fs, Inl e)
            | Inr (ino, set_allowed) \<Rightarrow>
                if \<not> set_allowed then (fs, Inl EPERM)
                else (case bt_get ino (fs_xattrs fs) of
                        None \<Rightarrow> (fs, Inl ENODATA)
                      | Some attrs \<Rightarrow>
                          if bt_get key attrs = None then (fs, Inl ENODATA)
                          else (let attrs' = bt_remove key attrs
                                in (touch_ctime now (normalize_path name)
                                      (fs\<lparr>fs_xattrs := (if attrs' = [] then bt_remove ino (fs_xattrs fs) else bt_insert ino attrs' (fs_xattrs fs))\<rparr>),
                                    Inr ())))))"

section \<open>Removing, linking, renaming\<close>

definition remove_file :: "string \<Rightarrow> MemFileSystem \<Rightarrow> MemFileSystem \<times> (SysErrNo + unit)" where
  "remove_file raw fs =
     (let name = normalize_path raw;
          removed_file = (name \<in> fs_names fs);
          fs1 = fs\<lparr>fs_names := fs_names fs - {name}\<rparr>;
          fs2 = (if removed_file then drop_file name fs1 else fs1);
          removed_link = (bt_get name (fs_symlinks fs2) \<noteq> None);
          removed_special = (bt_get name (fs_specials fs2) \<noteq> None);
          fs3 = drop_special name (drop_symlink name fs2)
      in if \<not> removed_file \<and> \<not> removed_link \<and> \<not> removed_special then (fs3, Inl ENOENT)
         else (fs3\<lparr>fs_meta := bt_remove name (fs_meta fs3)\<rparr>, Inr ()))"

fun flag_links :: "nat \<Rightarrow> string list \<Rightarrow> MemFileSystem \<Rightarrow> MemFileSystem" where
  "flag_links flags [] fs = fs"
| "flag_links flags (n # ns) fs =
     (case metadata_or_alloc n 0x1b6 fs of (m, fs1) \<Rightarrow> flag_links flags ns (put_metadata n (m\<lparr>mn_flags := flags\<rparr>) fs1))"

definition set_file_flags :: "string \<Rightarrow> nat \<Rightarrow> MemFileSystem \<Rightarrow> MemFileSystem \<times> (SysErrNo + unit)" where
  "set_file_flags raw flags fs =
     (let name = normalize_path raw
      in if \<not> fs_exists name fs then (fs, Inl ENOENT)
         else (case find_file name fs of
                 Some f \<Rightarrow> (flag_links flags (map mfile_name (filter (\<lambda>g. mfile_backing g = mfile_backing f) (fs_files fs))) fs, Inr ())
               | None \<Rightarrow>
                   (let mode = (if fs_is_dir name fs then 0x1ed else if bt_get name (fs_symlinks fs) \<noteq> None then 0x1ff else 0x1b6)
                    in case metadata_or_alloc name mode fs of (m, fs1) \<Rightarrow> (put_metadata name (m\<lparr>mn_flags := flags\<rparr>) fs1, Inr ()))))"

definition remove_dir :: "string \<Rightarrow> MemFileSystem \<Rightarrow> MemFileSystem \<times> (SysErrNo + unit)" where
  "remove_dir raw fs =
     (let name = normalize_path raw
      in if name = ''/'' then (fs, Inl EINVAL)
         else if \<not> fs_is_dir name fs then (fs, Inl ENOENT)
         else if dir_has_entries name fs then (fs, Inl ENOTEMPTY)
         else (fs\<lparr>fs_dirs := bset_remove name (fs_dirs fs), fs_meta := bt_remove name (fs_meta fs)\<rparr>, Inr ()))"

text \<open>\<open>strip_prefix(&old).unwrap_or("")\<close> behind the new path.\<close>

definition moved_path :: "string \<Rightarrow> string \<Rightarrow> string \<Rightarrow> string" where
  "moved_path old new path = new @ (case strip_prefix path old of Some rest \<Rightarrow> rest | None \<Rightarrow> [])"

definition move_keys :: "(string \<Rightarrow> bool) \<Rightarrow> string \<Rightarrow> string \<Rightarrow> (string \<times> 'v) list \<Rightarrow> (string \<times> 'v) list" where
  "move_keys moves old new m =
     fold (\<lambda>(path, v) acc. bt_insert (moved_path old new path) v (bt_remove path acc)) (filter (\<lambda>(path, _). moves path) m) m"

definition move_dirs :: "string \<Rightarrow> string \<Rightarrow> string list \<Rightarrow> string list" where
  "move_dirs old new ds =
     fold (\<lambda>path acc. bset_insert (moved_path old new path) (bset_remove path acc)) (filter (\<lambda>d. d = old \<or> is_descendant old d) ds) ds"

definition move_files :: "string \<Rightarrow> string \<Rightarrow> MemFile list \<Rightarrow> MemFile list" where
  "move_files old new fl =
     map (\<lambda>f. if is_descendant old (mfile_name f) then f\<lparr>mfile_name := moved_path old new (mfile_name f)\<rparr> else f) fl"

definition rename_metadata_tree :: "string \<Rightarrow> string \<Rightarrow> (string \<times> MemNodeMetadata) list \<Rightarrow> (string \<times> MemNodeMetadata) list" where
  "rename_metadata_tree raw_old raw_new m =
     (let old = normalize_path raw_old; new = normalize_path raw_new
      in move_keys (\<lambda>path. path = old \<or> is_descendant old path) old new m)"

definition rename_directory :: "string \<Rightarrow> string \<Rightarrow> MemFileSystem \<Rightarrow> MemFileSystem" where
  "rename_directory old new fs =
     (let fl = move_files old new (fs_files fs)
      in fs\<lparr>fs_dirs := move_dirs old new (fs_dirs fs), fs_files := fl, fs_names := set (map mfile_name fl),
            fs_specials := move_keys (is_descendant old) old new (fs_specials fs),
            fs_symlinks := move_keys (is_descendant old) old new (fs_symlinks fs),
            fs_meta := rename_metadata_tree old new (fs_meta fs)\<rparr>)"

definition move_metadata :: "string \<Rightarrow> string \<Rightarrow> MemNodeMetadata \<Rightarrow> MemFileSystem \<Rightarrow> MemFileSystem" where
  "move_metadata old new m fs = fs\<lparr>fs_meta := bt_insert new m (bt_remove old (fs_meta fs))\<rparr>"

definition drop_name :: "string \<Rightarrow> MemFileSystem \<Rightarrow> MemFileSystem" where
  "drop_name name fs = (drop_file name fs)\<lparr>fs_names := fs_names fs - {name}\<rparr>"

definition rename_special :: "string \<Rightarrow> string \<Rightarrow> MemSpecialKind \<Rightarrow> MemFileSystem \<Rightarrow> MemFileSystem \<times> (SysErrNo + unit)" where
  "rename_special old new kind fs =
     (let fs1 = drop_special old fs
      in if fs_is_dir new fs1 then (fs1\<lparr>fs_specials := bt_insert old kind (fs_specials fs1)\<rparr>, Inl EISDIR)
         else (let fs2 = drop_special new (drop_symlink new (drop_name new fs1))
               in case metadata_or_alloc old 0x1b6 fs2 of
                    (m, fs3) \<Rightarrow> (move_metadata old new m (fs3\<lparr>fs_specials := bt_insert new kind (fs_specials fs3)\<rparr>), Inr ())))"

definition rename_symlink :: "string \<Rightarrow> string \<Rightarrow> string \<Rightarrow> MemFileSystem \<Rightarrow> MemFileSystem \<times> (SysErrNo + unit)" where
  "rename_symlink old new target fs =
     (let fs1 = drop_symlink old fs
      in if fs_is_dir new fs1 then (fs1\<lparr>fs_symlinks := bt_insert old target (fs_symlinks fs1)\<rparr>, Inl EISDIR)
         else (let fs2 = drop_symlink new (drop_name new fs1)
               in case metadata_or_alloc old 0x1ff fs2 of
                    (m, fs3) \<Rightarrow> (move_metadata old new m (fs3\<lparr>fs_symlinks := bt_insert new target (fs_symlinks fs3)\<rparr>), Inr ())))"

definition rename_file :: "string \<Rightarrow> string \<Rightarrow> MemFileSystem \<Rightarrow> MemFileSystem \<times> (SysErrNo + unit)" where
  "rename_file old new fs =
     (case find_file old fs of
        None \<Rightarrow> (fs, Inl ENOENT)
      | Some f \<Rightarrow>
          if fs_is_dir new fs then (fs, Inl EISDIR)
          else (case metadata_or_alloc old 0x1b6 fs of
                  (m, fs1) \<Rightarrow>
                    (move_metadata old new m
                       (push_file new (mfile_backing f) (mfile_link_key f)
                          (drop_special new (drop_symlink new (drop_name new (drop_name old fs1))))), Inr ())))"

definition rename_path :: "string \<Rightarrow> string \<Rightarrow> MemFileSystem \<Rightarrow> MemFileSystem \<times> (SysErrNo + unit)" where
  "rename_path raw_old raw_new fs =
     (let old = normalize_path raw_old; new = normalize_path raw_new
      in if old = new then (fs, Inr ())
         else if old = ''/'' \<or> is_descendant old new then (fs, Inl EINVAL)
         else if \<not> fs_is_dir (parent_path new) fs then (fs, Inl ENOENT)
         else if fs_is_dir old fs then
           (if new = ''/'' then (fs, Inl EEXIST)
            else if fs_is_dir new fs then
              (if dir_has_entries new fs then (fs, Inl ENOTEMPTY)
               else (rename_directory old new
                       (fs\<lparr>fs_dirs := bset_remove new (fs_dirs fs), fs_meta := bt_remove new (fs_meta fs)\<rparr>), Inr ()))
            else if fs_exists new fs then (fs, Inl ENOTDIR)
            else (rename_directory old new fs, Inr ()))
         else (case bt_get old (fs_specials fs) of
                 Some kind \<Rightarrow> rename_special old new kind fs
               | None \<Rightarrow>
                   (case bt_get old (fs_symlinks fs) of
                      Some target \<Rightarrow> rename_symlink old new target fs
                    | None \<Rightarrow> rename_file old new fs)))"

fun decimal :: "nat \<Rightarrow> string" where
  "decimal n = (if n < 10 then [char_of (48 + n)] else decimal (n div 10) @ [char_of (48 + n mod 10)])"

declare decimal.simps [simp del]

definition exchange_temp :: "string \<Rightarrow> nat \<Rightarrow> string" where
  "exchange_temp old_parent attempt =
     (if old_parent = ''/'' then [] else old_parent) @ ''/.wll_rename_exchange_'' @ decimal attempt"

definition exchange_path :: "string \<Rightarrow> string \<Rightarrow> MemFileSystem \<Rightarrow> MemFileSystem \<times> (SysErrNo + unit)" where
  "exchange_path raw_old raw_new fs =
     (let old = normalize_path raw_old; new = normalize_path raw_new
      in if old = new then (fs, Inr ())
         else if old = ''/'' \<or> new = ''/'' then (fs, Inl EINVAL)
         else if \<not> fs_exists old fs \<or> \<not> fs_exists new fs then (fs, Inl ENOENT)
         else if fs_is_dir old fs \<and> is_descendant old new then (fs, Inl EINVAL)
         else if fs_is_dir new fs \<and> is_descendant new old then (fs, Inl EINVAL)
         else (case find (\<lambda>temp. \<not> fs_exists temp fs) (map (exchange_temp (parent_path old)) [0..<32]) of
                 None \<Rightarrow> (fs, Inl EEXIST)
               | Some temp \<Rightarrow>
                   (case rename_path old temp fs of
                      (fs1, Inl e) \<Rightarrow> (fs1, Inl e)
                    | (fs1, Inr _) \<Rightarrow>
                        (case rename_path new old fs1 of
                           (fs2, Inl e) \<Rightarrow> (fst (rename_path temp old fs2), Inl e)
                         | (fs2, Inr _) \<Rightarrow> rename_path temp new fs2))))"

definition link_path :: "string \<Rightarrow> string \<Rightarrow> MemFileSystem \<Rightarrow> MemFileSystem \<times> (SysErrNo + unit)" where
  "link_path raw_old raw_new fs =
     (let old = normalize_path raw_old; new = normalize_path raw_new
      in if fs_is_dir old fs then (fs, Inl EPERM)
         else if fs_exists new fs then (fs, Inl EEXIST)
         else if \<not> fs_is_dir (parent_path new) fs then (fs, Inl ENOENT)
         else (case find_file old fs of
                 Some f \<Rightarrow>
                   (case metadata_or_alloc old 0x1b6 fs of
                      (m, fs1) \<Rightarrow> (put_metadata new m (push_file new (mfile_backing f) (mfile_link_key f) fs1), Inr ()))
               | None \<Rightarrow>
                   (case bt_get old (fs_symlinks fs) of
                      Some target \<Rightarrow>
                        (case metadata_or_alloc old 0x1ff fs of
                           (m, fs1) \<Rightarrow> (put_metadata new m (fs1\<lparr>fs_symlinks := bt_insert new target (fs_symlinks fs1)\<rparr>), Inr ()))
                    | None \<Rightarrow>
                        (case bt_get old (fs_specials fs) of
                           Some kind \<Rightarrow>
                             (case metadata_or_alloc old 0x1b6 fs of
                                (m, fs1) \<Rightarrow> (put_metadata new m (fs1\<lparr>fs_specials := bt_insert new kind (fs_specials fs1)\<rparr>), Inr ()))
                         | None \<Rightarrow> (fs, Inl ENOENT)))))"

end
