(* ===== verification/Fs_Tree.thy ===== *)
theory Fs_Tree
  imports Mem_Fs
begin

text \<open>
  The tree the in-memory file system stands for: what it holds at each list of components. The invariant says that the tables describe a
  tree (one kind of node per path, parents are directories, metadata for exactly the nodes); the operations keep it, and renaming moves a
  whole subtree.
\<close>

section \<open>Lists keyed by path\<close>

lemma bt_get_remove: "bt_sorted m \<Longrightarrow> bt_get j (bt_remove k m) = (if j = k then None else bt_get j m)"
proof (induction k m rule: bt_remove.induct)
  case (2 k a v m)
  then have "a = k \<Longrightarrow> bt_get k m = None" by (auto simp: bt_get_None)
  then show ?case using 2 by auto
qed simp

lemma set_bset_insert [simp]: "set (bset_insert x xs) = insert x (set xs)"
  by (simp add: bset_insert_def set_insort_insert)

lemma set_bset_remove [simp]: "set (bset_remove x xs) = set xs - {x}"
  by (auto simp: bset_remove_def)

lemma keys_insert [simp]: "bt_sorted m \<Longrightarrow> fst ` set (bt_insert k v m) = insert k (fst ` set m)"
  by (auto simp: set_bt_insert image_iff)

lemma keys_remove [simp]: "bt_sorted m \<Longrightarrow> fst ` set (bt_remove k m) = fst ` set m - {k}"
  by (auto simp: set_bt_remove image_iff)

section \<open>What is at a path\<close>

definition dir_at :: "MemFileSystem \<Rightarrow> string list \<Rightarrow> bool" where
  "dir_at fs ps \<longleftrightarrow> abs_path ps \<in> set (fs_dirs fs)"

definition file_at :: "MemFileSystem \<Rightarrow> string list \<Rightarrow> (addr \<times> string) option" where
  "file_at fs ps = map_option (\<lambda>f. (mfile_backing f, mfile_link_key f)) (find_file (abs_path ps) fs)"

definition link_at :: "MemFileSystem \<Rightarrow> string list \<Rightarrow> string option" where
  "link_at fs ps = bt_get (abs_path ps) (fs_symlinks fs)"

definition special_at :: "MemFileSystem \<Rightarrow> string list \<Rightarrow> MemSpecialKind option" where
  "special_at fs ps = bt_get (abs_path ps) (fs_specials fs)"

definition meta_at :: "MemFileSystem \<Rightarrow> string list \<Rightarrow> MemNodeMetadata option" where
  "meta_at fs ps = bt_get (abs_path ps) (fs_meta fs)"

definition node_at :: "MemFileSystem \<Rightarrow> string list \<Rightarrow> bool" where
  "node_at fs ps \<longleftrightarrow> dir_at fs ps \<or> file_at fs ps \<noteq> None \<or> link_at fs ps \<noteq> None \<or> special_at fs ps \<noteq> None"

type_synonym entry = "bool \<times> (addr \<times> string) option \<times> string option \<times> MemSpecialKind option \<times> MemNodeMetadata option"

definition entry_at :: "MemFileSystem \<Rightarrow> string list \<Rightarrow> entry" where
  "entry_at fs ps = (dir_at fs ps, file_at fs ps, link_at fs ps, special_at fs ps, meta_at fs ps)"

definition no_entry :: entry where
  "no_entry = (False, None, None, None, None)"

lemma fst_no_entry [simp]: "\<not> fst no_entry"
  by (simp add: no_entry_def)

lemmas at_defs = dir_at_def file_at_def link_at_def special_at_def meta_at_def

definition all_names :: "MemFileSystem \<Rightarrow> string set" where
  "all_names fs =
     set (fs_dirs fs) \<union> mfile_name ` set (fs_files fs) \<union> fst ` set (fs_symlinks fs) \<union> fst ` set (fs_specials fs) \<union> fst ` set (fs_meta fs)"

definition tables_ok :: "MemFileSystem \<Rightarrow> bool" where
  "tables_ok fs \<longleftrightarrow>
     (\<forall>n \<in> all_names fs. \<exists>ps. proper_parts ps \<and> n = abs_path ps)
     \<and> fs_names fs = mfile_name ` set (fs_files fs) \<and> distinct (map mfile_name (fs_files fs))
     \<and> bt_sorted (fs_symlinks fs) \<and> bt_sorted (fs_specials fs) \<and> bt_sorted (fs_meta fs)"

definition one_kind :: "entry \<Rightarrow> bool" where
  "one_kind e \<longleftrightarrow>
     (case e of (d, f, l, s, m) \<Rightarrow>
        (d \<longrightarrow> f = None \<and> l = None \<and> s = None) \<and> (f \<noteq> None \<longrightarrow> l = None \<and> s = None) \<and> (l \<noteq> None \<longrightarrow> s = None)
        \<and> (m \<noteq> None \<longleftrightarrow> d \<or> f \<noteq> None \<or> l \<noteq> None \<or> s \<noteq> None))"

definition tree_ok :: "(string list \<Rightarrow> entry) \<Rightarrow> bool" where
  "tree_ok t \<longleftrightarrow>
     fst (t []) \<and> (\<forall>ps. proper_parts ps \<longrightarrow> one_kind (t ps) \<and> (t ps \<noteq> no_entry \<and> ps \<noteq> [] \<longrightarrow> fst (t (butlast ps))))"

definition fs_ok :: "MemFileSystem \<Rightarrow> bool" where
  "fs_ok fs \<longleftrightarrow> tables_ok fs \<and> tree_ok (entry_at fs)"

lemma find_file_None: "find_file n fs = None \<longleftrightarrow> n \<notin> mfile_name ` set (fs_files fs)"
  by (auto simp: find_file_def find_None_iff)

lemma find_file_Some: "find_file n fs = Some f \<Longrightarrow> f \<in> set (fs_files fs) \<and> mfile_name f = n"
  by (auto simp: find_file_def dest: find_SomeD)

lemma exists_node:
  assumes "tables_ok fs" "starts_with raw ''/''"
  shows "fs_exists raw fs \<longleftrightarrow> node_at fs (path_parts raw)"
  using assms find_file_None [of "abs_path (path_parts raw)" fs]
  by (auto simp: fs_exists_def node_at_def at_defs normalize_absolute Let_def tables_ok_def)

lemma node_entry: "fs_ok fs \<Longrightarrow> proper_parts ps \<Longrightarrow> node_at fs ps \<longleftrightarrow> entry_at fs ps \<noteq> no_entry"
  by (auto simp: fs_ok_def tree_ok_def one_kind_def entry_at_def no_entry_def node_at_def)

lemma is_dir_at: "starts_with raw ''/'' \<Longrightarrow> fs_is_dir raw fs \<longleftrightarrow> dir_at fs (path_parts raw)"
  by (simp add: fs_is_dir_def dir_at_def normalize_absolute)

lemma is_dir_abs [simp]: "proper_parts ps \<Longrightarrow> fs_is_dir (abs_path ps) fs \<longleftrightarrow> dir_at fs ps"
  by (simp add: fs_is_dir_def dir_at_def)

lemma proper_butlast: "proper_parts ps \<Longrightarrow> proper_parts (butlast ps)"
  by (auto simp: proper_parts_def dest: in_set_butlastD)

lemma proper_take: "proper_parts ps \<Longrightarrow> proper_parts (take n ps)"
  by (auto simp: proper_parts_def dest: in_set_takeD)

lemma proper_drop: "proper_parts ps \<Longrightarrow> proper_parts (drop n ps)"
  by (auto simp: proper_parts_def dest: in_set_dropD)

text \<open>Everything above a node is a directory; below anything else there is nothing.\<close>

lemma above_is_dir:
  assumes "tree_ok t" "proper_parts (ps @ xs)" "xs \<noteq> []" "t (ps @ xs) \<noteq> no_entry"
  shows "fst (t ps)"
  using assms(2-)
proof (induction xs rule: rev_induct)
  case (snoc x xs)
  have "fst (t (butlast (ps @ xs @ [x])))" using assms(1) snoc.prems unfolding tree_ok_def by (metis append_is_Nil_conv not_Cons_self2)
  then have d: "fst (t (ps @ xs))" by (simp add: butlast_append)
  show ?case
  proof (cases "xs = []")
    case False
    have "t (ps @ xs) \<noteq> no_entry" using d by (auto simp: no_entry_def)
    then show ?thesis using snoc.IH snoc.prems False by simp
  qed (use d in simp)
qed simp

lemma below_nothing: "tree_ok t \<Longrightarrow> proper_parts (ps @ xs) \<Longrightarrow> xs \<noteq> [] \<Longrightarrow> \<not> fst (t ps) \<Longrightarrow> t (ps @ xs) = no_entry"
  using above_is_dir by blast

definition node_names :: "MemFileSystem \<Rightarrow> string set" where
  "node_names fs = set (fs_dirs fs) \<union> mfile_name ` set (fs_files fs) \<union> fst ` set (fs_symlinks fs) \<union> fst ` set (fs_specials fs)"

lemma node_names_at: "node_at fs ps \<longleftrightarrow> abs_path ps \<in> node_names fs"
  using bt_get_None [of "abs_path ps" "fs_symlinks fs"] bt_get_None [of "abs_path ps" "fs_specials fs"] find_file_None [of "abs_path ps" fs]
  by (auto simp: node_at_def at_defs node_names_def)

lemma node_names_all: "node_names fs \<subseteq> all_names fs"
  by (auto simp: node_names_def all_names_def)

lemma entries_below:
  assumes "fs_ok fs" "proper_parts ps" "ps \<noteq> []"
  shows "dir_has_entries (abs_path ps) fs \<longleftrightarrow> (\<exists>xs. xs \<noteq> [] \<and> proper_parts xs \<and> node_at fs (ps @ xs))"
proof -
  have below: "is_descendant (abs_path ps) n \<longleftrightarrow> (\<exists>xs. xs \<noteq> [] \<and> proper_parts xs \<and> n = abs_path (ps @ xs))" if n: "n \<in> all_names fs" for n
  proof -
    obtain qs where q: "proper_parts qs" "n = abs_path qs" using assms(1) n by (auto simp: fs_ok_def tables_ok_def)
    have "is_descendant (abs_path ps) n \<longleftrightarrow> (\<exists>xs. xs \<noteq> [] \<and> qs = ps @ xs)"
      using is_descendant_parts [OF assms(2) q(1)] q(2) assms(3) by (auto simp: strict_prefix_def prefix_def)
    moreover have "abs_path qs = abs_path (ps @ xs) \<longleftrightarrow> qs = ps @ xs" if "proper_parts xs" for xs
      using abs_path_inj q(1) assms(2) that by simp
    ultimately show ?thesis using q by (metis proper_append)
  qed
  have self: "(d \<noteq> abs_path ps \<and> is_descendant (abs_path ps) d) = is_descendant (abs_path ps) d" for d by (auto simp: is_descendant_iff)
  have "dir_has_entries (abs_path ps) fs \<longleftrightarrow> (\<exists>n \<in> node_names fs. is_descendant (abs_path ps) n)"
    using assms(2) self by (simp add: dir_has_entries_def list_ex_iff Let_def case_prod_beta node_names_def bex_Un disj_ac)
  also have "\<dots> \<longleftrightarrow> (\<exists>xs. xs \<noteq> [] \<and> proper_parts xs \<and> node_at fs (ps @ xs))"
    using below by (metis node_names_at node_names_all subsetD)
  finally show ?thesis .
qed

section \<open>Changing one entry\<close>

lemma tree_ok_cong: "(\<And>ps. proper_parts ps \<Longrightarrow> t ps = t' ps) \<Longrightarrow> tree_ok t = tree_ok t'"
  unfolding tree_ok_def using proper_butlast by auto

lemma tree_change:
  assumes t: "tree_ok t" and e: "one_kind e" "ps = [] \<Longrightarrow> fst e" "e \<noteq> no_entry \<Longrightarrow> ps \<noteq> [] \<Longrightarrow> fst (t (butlast ps))"
    and below: "\<And>x. \<not> fst e \<Longrightarrow> proper_part x \<Longrightarrow> proper_parts ps \<Longrightarrow> t (ps @ [x]) = no_entry"
  shows "tree_ok (t(ps := e))"
  unfolding tree_ok_def
proof (intro conjI allI impI)
  show "fst ((t(ps := e)) [])" using t e(2) by (auto simp: tree_ok_def)
next
  fix qs assume q: "proper_parts qs"
  show "one_kind ((t(ps := e)) qs)" using t e(1) q by (simp add: tree_ok_def)
  assume n: "(t(ps := e)) qs \<noteq> no_entry \<and> qs \<noteq> []"
  show "fst ((t(ps := e)) (butlast qs))"
  proof (cases "butlast qs = ps")
    case True
    then have qs: "qs = ps @ [last qs]" "proper_parts ps" "proper_part (last qs)"
      using n q append_butlast_last_id [of qs] proper_butlast [of qs] by (auto simp: proper_parts_def)
    then have "qs \<noteq> ps" by auto
    then have "t qs \<noteq> no_entry" using n by simp
    then have "fst e" using below [of "last qs"] qs by metis
    then show ?thesis using True by simp
  next
    case False
    show ?thesis
    proof (cases "qs = ps")
      case True
      then show ?thesis using False e(3) n by auto
    next
      case other: False
      then show ?thesis using False t n q by (simp add: tree_ok_def)
    qed
  qed
qed

lemma fs_ok_change:
  assumes "fs_ok fs" "tables_ok fs'" "proper_parts ps"
    and "\<And>qs. proper_parts qs \<Longrightarrow> entry_at fs' qs = (if qs = ps then e else entry_at fs qs)"
    and "one_kind e" "ps = [] \<Longrightarrow> fst e" "e \<noteq> no_entry \<Longrightarrow> ps \<noteq> [] \<Longrightarrow> dir_at fs (butlast ps)"
    and "\<And>x. \<not> fst e \<Longrightarrow> proper_part x \<Longrightarrow> entry_at fs (ps @ [x]) = no_entry"
  shows "fs_ok fs'"
proof -
  have "tree_ok ((entry_at fs)(ps := e))"
    using assms by (intro tree_change) (auto simp: fs_ok_def entry_at_def [of fs "butlast ps"])
  then have "tree_ok (entry_at fs')" using assms(4) tree_ok_cong [of "entry_at fs'" "(entry_at fs)(ps := e)"] by auto
  then show ?thesis using assms(2) by (simp add: fs_ok_def)
qed

lemma get_insert_abs [simp]:
  "proper_parts ps \<Longrightarrow> proper_parts qs \<Longrightarrow>
     bt_get (abs_path qs) (bt_insert (abs_path ps) v m) = (if qs = ps then Some v else bt_get (abs_path qs) m)"
  by (simp add: bt_get_insert abs_path_inj)

lemma get_remove_abs [simp]:
  "bt_sorted m \<Longrightarrow> proper_parts ps \<Longrightarrow> proper_parts qs \<Longrightarrow>
     bt_get (abs_path qs) (bt_remove (abs_path ps) m) = (if qs = ps then None else bt_get (abs_path qs) m)"
  by (simp add: bt_get_remove abs_path_inj)

lemma find_other: "find (\<lambda>x. g x = n) (filter (\<lambda>x. g x \<noteq> k) xs) = (if n = k then None else find (\<lambda>x. g x = n) xs)"
  by (induction xs) auto

lemma find_others:
  "find (\<lambda>x. g x = n) (filter (\<lambda>x. g x \<noteq> k \<and> g x \<noteq> j) xs) = (if n = k \<or> n = j then None else find (\<lambda>x. g x = n) xs)"
  by (induction xs) auto

lemma find_snoc: "find P (xs @ [x]) = (case find P xs of Some y \<Rightarrow> Some y | None \<Rightarrow> if P x then Some x else None)"
  by (induction xs) auto

section \<open>The building blocks\<close>

lemmas block_defs = put_metadata_def push_file_def drop_file_def drop_name_def drop_symlink_def drop_special_def move_metadata_def
  update_backing_def

lemma tables_keys: "tables_ok fs \<Longrightarrow> bt_sorted (fs_symlinks fs) \<and> bt_sorted (fs_specials fs) \<and> bt_sorted (fs_meta fs)"
  by (simp add: tables_ok_def)

lemma tables_put_metadata: "tables_ok fs \<Longrightarrow> proper_parts ps \<Longrightarrow> tables_ok (put_metadata (abs_path ps) m fs)"
  by (auto simp: tables_ok_def all_names_def put_metadata_def bt_sorted_insert)

lemma tables_drop_symlink: "tables_ok fs \<Longrightarrow> tables_ok (drop_symlink n fs)"
  by (auto simp: tables_ok_def all_names_def drop_symlink_def bt_sorted_remove)

lemma tables_drop_special: "tables_ok fs \<Longrightarrow> tables_ok (drop_special n fs)"
  by (auto simp: tables_ok_def all_names_def drop_special_def bt_sorted_remove)

lemma tables_drop_name: "tables_ok fs \<Longrightarrow> tables_ok (drop_name n fs)"
  by (auto simp: tables_ok_def all_names_def drop_name_def drop_file_def distinct_map_filter)

lemma tables_drop_meta: "tables_ok fs \<Longrightarrow> tables_ok (fs\<lparr>fs_meta := bt_remove n (fs_meta fs)\<rparr>)"
  by (auto simp: tables_ok_def all_names_def bt_sorted_remove)

lemma tables_push_file:
  "tables_ok fs \<Longrightarrow> proper_parts ps \<Longrightarrow> file_at fs ps = None \<Longrightarrow> tables_ok (push_file (abs_path ps) b k fs)"
  by (auto simp: tables_ok_def all_names_def push_file_def file_at_def find_file_None)

lemma tables_put_symlink: "tables_ok fs \<Longrightarrow> proper_parts ps \<Longrightarrow> tables_ok (fs\<lparr>fs_symlinks := bt_insert (abs_path ps) v (fs_symlinks fs)\<rparr>)"
  by (auto simp: tables_ok_def all_names_def bt_sorted_insert)

lemma tables_put_special: "tables_ok fs \<Longrightarrow> proper_parts ps \<Longrightarrow> tables_ok (fs\<lparr>fs_specials := bt_insert (abs_path ps) v (fs_specials fs)\<rparr>)"
  by (auto simp: tables_ok_def all_names_def bt_sorted_insert)

lemma tables_put_dir: "tables_ok fs \<Longrightarrow> proper_parts ps \<Longrightarrow> tables_ok (fs\<lparr>fs_dirs := bset_insert (abs_path ps) (fs_dirs fs)\<rparr>)"
  by (auto simp: tables_ok_def all_names_def)

lemma tables_drop_dir: "tables_ok fs \<Longrightarrow> tables_ok (fs\<lparr>fs_dirs := bset_remove n (fs_dirs fs)\<rparr>)"
  by (auto simp: tables_ok_def all_names_def)

lemma tables_outside [simp]:
  "tables_ok (fs\<lparr>fs_heap := h\<rparr>) = tables_ok fs" "tables_ok (fs\<lparr>fs_next_backing := n\<rparr>) = tables_ok fs"
  "tables_ok (fs\<lparr>fs_next_ino := n\<rparr>) = tables_ok fs" "tables_ok (fs\<lparr>fs_xattrs := x\<rparr>) = tables_ok fs"
  by (simp_all add: tables_ok_def all_names_def)

lemmas tables_blocks = tables_put_metadata tables_drop_symlink tables_drop_special tables_drop_name tables_drop_meta tables_push_file
  tables_put_symlink tables_put_special tables_put_dir tables_drop_dir

lemma at_outside [simp]:
  "entry_at (fs\<lparr>fs_heap := h\<rparr>) = entry_at fs" "entry_at (fs\<lparr>fs_next_backing := n\<rparr>) = entry_at fs"
  "entry_at (fs\<lparr>fs_next_ino := n\<rparr>) = entry_at fs" "entry_at (fs\<lparr>fs_xattrs := x\<rparr>) = entry_at fs"
  by (rule ext, simp add: entry_at_def at_defs find_file_def)+

lemma fs_ok_outside [simp]:
  "fs_ok (fs\<lparr>fs_heap := h\<rparr>) = fs_ok fs" "fs_ok (fs\<lparr>fs_next_backing := n\<rparr>) = fs_ok fs"
  "fs_ok (fs\<lparr>fs_next_ino := n\<rparr>) = fs_ok fs" "fs_ok (fs\<lparr>fs_xattrs := x\<rparr>) = fs_ok fs"
  by (simp_all add: fs_ok_def)

text \<open>How the entries change; a component is the directory flag, the file, the link, the special node or the metadata.\<close>

lemma at_put_metadata:
  "proper_parts ps \<Longrightarrow> proper_parts qs \<Longrightarrow>
     entry_at (put_metadata (abs_path ps) m fs) qs =
       (dir_at fs qs, file_at fs qs, link_at fs qs, special_at fs qs, if qs = ps then Some m else meta_at fs qs)"
  by (simp add: entry_at_def at_defs put_metadata_def find_file_def)

lemma at_push_file:
  "proper_parts ps \<Longrightarrow> proper_parts qs \<Longrightarrow> file_at fs ps = None \<Longrightarrow>
     entry_at (push_file (abs_path ps) b k fs) qs =
       (dir_at fs qs, if qs = ps then Some (b, k) else file_at fs qs, link_at fs qs, special_at fs qs, meta_at fs qs)"
  by (auto simp: entry_at_def at_defs push_file_def find_file_def find_snoc abs_path_inj split: option.splits)

lemma at_drop_symlink:
  "tables_ok fs \<Longrightarrow> proper_parts ps \<Longrightarrow> proper_parts qs \<Longrightarrow>
     entry_at (drop_symlink (abs_path ps) fs) qs =
       (dir_at fs qs, file_at fs qs, if qs = ps then None else link_at fs qs, special_at fs qs, meta_at fs qs)"
  using tables_keys [of fs] by (simp add: entry_at_def at_defs drop_symlink_def find_file_def)

lemma at_drop_special:
  "tables_ok fs \<Longrightarrow> proper_parts ps \<Longrightarrow> proper_parts qs \<Longrightarrow>
     entry_at (drop_special (abs_path ps) fs) qs =
       (dir_at fs qs, file_at fs qs, link_at fs qs, if qs = ps then None else special_at fs qs, meta_at fs qs)"
  using tables_keys [of fs] by (simp add: entry_at_def at_defs drop_special_def find_file_def)

lemma at_drop_name:
  "proper_parts ps \<Longrightarrow> proper_parts qs \<Longrightarrow>
     entry_at (drop_name (abs_path ps) fs) qs =
       (dir_at fs qs, if qs = ps then None else file_at fs qs, link_at fs qs, special_at fs qs, meta_at fs qs)"
  by (simp add: entry_at_def at_defs drop_name_def drop_file_def find_file_def find_other abs_path_inj)

lemma at_move_metadata:
  "tables_ok fs \<Longrightarrow> proper_parts ps \<Longrightarrow> proper_parts rs \<Longrightarrow> proper_parts qs \<Longrightarrow>
     entry_at (move_metadata (abs_path ps) (abs_path rs) m fs) qs =
       (dir_at fs qs, file_at fs qs, link_at fs qs, special_at fs qs, if qs = rs then Some m else if qs = ps then None else meta_at fs qs)"
  using tables_keys [of fs] by (simp add: entry_at_def at_defs move_metadata_def find_file_def)

section \<open>Moving a subtree\<close>

definition moved :: "string list \<Rightarrow> string list \<Rightarrow> 'a \<Rightarrow> (string list \<Rightarrow> 'a) \<Rightarrow> string list \<Rightarrow> 'a" where
  "moved old new none t qs =
     (if prefix new qs then t (old @ drop (length new) qs) else if prefix old qs then none else t qs)"

lemma tree_moved:
  assumes t: "tree_ok t" and "old \<noteq> []" "new \<noteq> []" "proper_parts old" "proper_parts new"
    and "\<not> prefix old new" "fst (t (butlast new))" and below: "\<And>xs. xs \<noteq> [] \<Longrightarrow> proper_parts xs \<Longrightarrow> t (new @ xs) = no_entry"
    and "\<not> prefix new old"
  shows "tree_ok (moved old new no_entry t)"
proof -
  let ?t = "moved old new no_entry t"
  have "\<not> prefix new []" "\<not> prefix old []" using assms by simp_all
  then have root: "fst (?t [])" using t by (simp add: moved_def tree_ok_def)
  have "one_kind no_entry" by (simp add: one_kind_def no_entry_def)
  then have kind: "one_kind (?t qs)" if "proper_parts qs" for qs
    using t that assms(4) proper_drop [of qs "length new"] by (simp add: moved_def tree_ok_def)
  have par: "fst (?t (butlast qs))" if q: "proper_parts qs" "?t qs \<noteq> no_entry" "qs \<noteq> []" for qs
  proof (cases "prefix new qs")
    case True
    then obtain xs where xs: "qs = new @ xs" by (auto simp: prefix_def)
    show ?thesis
    proof (cases "xs = []")
      case True
      then have b: "butlast qs = butlast new" using xs by simp
      have nn: "\<not> prefix new (butlast new)" using assms(3) prefix_length_le [of new "butlast new"] by (cases new) auto
      have "\<not> prefix old (butlast new)" using assms(6) prefix_order.trans [of old "butlast new" new] by (metis prefixeq_butlast)
      then show ?thesis using nn b assms(7) by (simp add: moved_def)
    next
      case False
      have e: "t (old @ xs) \<noteq> no_entry" using q(2) xs by (simp add: moved_def)
      have "proper_parts (old @ xs)" using q(1) xs assms(4) by simp
      then have "fst (t (butlast (old @ xs)))" using t e False unfolding tree_ok_def by (metis append_is_Nil_conv)
      then show ?thesis using xs False by (simp add: moved_def butlast_append)
    qed
  next
    case False
    then have n: "t qs \<noteq> no_entry" "\<not> prefix old qs" using q(2) by (auto simp: moved_def split: if_splits)
    then have d: "fst (t (butlast qs))" using t q by (simp add: tree_ok_def)
    have "\<not> prefix new (butlast qs)" using False prefix_order.trans prefixeq_butlast by blast
    moreover have "\<not> prefix old (butlast qs)" using n(2) prefix_order.trans prefixeq_butlast by blast
    ultimately show ?thesis using d by (simp add: moved_def)
  qed
  show ?thesis unfolding tree_ok_def using root kind par by blast
qed

lemma bt_get_map_of: "bt_get k m = map_of m k"
  by (induction m) auto

lemma map_of_mapk: "inj_on g (insert p (fst ` set us)) \<Longrightarrow> map_of (map (\<lambda>(p, v). (g p, v)) us) (g p) = map_of us p"
  by (induction us) (auto simp: inj_on_def)

lemma map_of_filter: "map_of (filter (\<lambda>(p, _). P p) m) k = (if P k then map_of m k else None)"
  by (induction m) auto

lemma move_fold:
  assumes "bt_sorted acc" "distinct (map fst us)" "inj_on g (fst ` set us)" "g ` fst ` set us \<inter> fst ` set us = {}"
  shows "bt_sorted (fold (\<lambda>(p, v) a. bt_insert (g p) v (bt_remove p a)) us acc)
    \<and> bt_get k (fold (\<lambda>(p, v) a. bt_insert (g p) v (bt_remove p a)) us acc) =
        (case map_of (map (\<lambda>(p, v). (g p, v)) us) k of
           Some v \<Rightarrow> Some v | None \<Rightarrow> if k \<in> fst ` set us then None else bt_get k acc)"
  using assms
proof (induction us arbitrary: acc)
  case (Cons u us)
  obtain p v where u: "u = (p, v)" by force
  let ?acc = "bt_insert (g p) v (bt_remove p acc)"
  have s: "bt_sorted ?acc" using Cons.prems(1) by (intro bt_sorted_insert bt_sorted_remove)
  have fresh: "g p \<notin> g ` fst ` set us" "p \<notin> fst ` set us" using Cons.prems(2,3) u by (auto simp: inj_on_def)
  then have none: "map_of (map (\<lambda>(p, v). (g p, v)) us) (g p) = None" by (force simp: map_of_eq_None_iff)
  have "g p \<notin> fst ` set us" "g p \<noteq> p" using Cons.prems(4) u by auto
  moreover have "bt_get k ?acc = (if k = g p then Some v else if k = p then None else bt_get k acc)"
    using Cons.prems(1) by (simp add: bt_get_insert bt_get_remove bt_sorted_remove)
  moreover note Cons.IH [OF s]
  ultimately show ?case using Cons.prems u fresh none by (auto simp: inj_on_def split: option.splits)
qed simp

lemma moved_path_abs: "old \<noteq> [] \<Longrightarrow> new \<noteq> [] \<Longrightarrow> moved_path (abs_path old) (abs_path new) (abs_path (old @ xs)) = abs_path (new @ xs)"
  by (simp add: moved_path_def abs_path_append strip_prefix_def)

text \<open>The keys that move lie below the old path; their images lie below the new one.\<close>

definition lies_below :: "string list \<Rightarrow> string set \<Rightarrow> bool" where
  "lies_below ps ks \<longleftrightarrow> (\<forall>n \<in> ks. \<exists>xs. proper_parts xs \<and> n = abs_path (ps @ xs))"

lemma moved_inj:
  assumes "old \<noteq> []" "new \<noteq> []" "proper_parts old" "proper_parts new" "lies_below old ks"
  shows "inj_on (moved_path (abs_path old) (abs_path new)) ks"
proof (rule inj_onI)
  let ?g = "moved_path (abs_path old) (abs_path new)"
  fix a b assume "a \<in> ks" "b \<in> ks" and e: "?g a = ?g b"
  then obtain xs ys where "proper_parts xs" "proper_parts ys" "a = abs_path (old @ xs)" "b = abs_path (old @ ys)"
    using assms(5) unfolding lies_below_def by metis
  then show "a = b" using e assms(1-4) abs_path_inj [of "new @ xs" "new @ ys"] by (simp add: moved_path_abs)
qed

lemma moved_image:
  assumes "old \<noteq> []" "new \<noteq> []" "lies_below old ks" "k \<in> moved_path (abs_path old) (abs_path new) ` ks"
  shows "\<exists>xs. proper_parts xs \<and> k = abs_path (new @ xs) \<and> abs_path (old @ xs) \<in> ks"
  using assms moved_path_abs unfolding lies_below_def by (metis imageE)

lemma moved_image_iff:
  assumes "old \<noteq> []" "new \<noteq> []" "proper_parts new" "lies_below old ks" "proper_parts xs"
  shows "abs_path (new @ xs) \<in> moved_path (abs_path old) (abs_path new) ` ks \<longleftrightarrow> abs_path (old @ xs) \<in> ks"
proof
  assume "abs_path (new @ xs) \<in> moved_path (abs_path old) (abs_path new) ` ks"
  then obtain ys where "proper_parts ys" "abs_path (new @ xs) = abs_path (new @ ys)" "abs_path (old @ ys) \<in> ks"
    using moved_image [OF assms(1,2,4)] by blast
  then show "abs_path (old @ xs) \<in> ks" using assms(3,5) abs_path_inj [of "new @ xs" "new @ ys"] by simp
next
  assume "abs_path (old @ xs) \<in> ks"
  then show "abs_path (new @ xs) \<in> moved_path (abs_path old) (abs_path new) ` ks" using moved_path_abs [OF assms(1,2)] by (metis imageI)
qed

lemma moved_not_image:
  assumes "old \<noteq> []" "new \<noteq> []" "proper_parts new" "lies_below old ks" "proper_parts qs" "\<not> prefix new qs"
  shows "abs_path qs \<notin> moved_path (abs_path old) (abs_path new) ` ks"
proof
  assume "abs_path qs \<in> moved_path (abs_path old) (abs_path new) ` ks"
  then obtain xs where "proper_parts xs" "abs_path qs = abs_path (new @ xs)" using moved_image [OF assms(1,2,4)] by blast
  then show False using assms(3,5,6) abs_path_inj [of qs "new @ xs"] by simp
qed

lemma map_of_moved:
  assumes "old \<noteq> []" "new \<noteq> []" "proper_parts old" "proper_parts new" "lies_below old (fst ` set us)" "proper_parts qs"
  shows "map_of (map (\<lambda>(p, v). (moved_path (abs_path old) (abs_path new) p, v)) us) (abs_path qs) =
    (if prefix new qs then map_of us (abs_path (old @ drop (length new) qs)) else None)"
proof (cases "prefix new qs")
  case True
  let ?g = "moved_path (abs_path old) (abs_path new)"
  obtain xs where xs: "qs = new @ xs" "proper_parts xs" using True assms(6) by (auto simp: prefix_def)
  have "lies_below old (insert (abs_path (old @ xs)) (fst ` set us))" using assms(5) xs(2) by (auto simp: lies_below_def)
  then have "inj_on ?g (insert (abs_path (old @ xs)) (fst ` set us))" by (rule moved_inj [OF assms(1-4)])
  then show ?thesis using map_of_mapk [of ?g "abs_path (old @ xs)" us] xs assms(1,2) by (simp add: moved_path_abs)
next
  case False
  then have "abs_path qs \<notin> moved_path (abs_path old) (abs_path new) ` fst ` set us" using assms moved_not_image by blast
  then show ?thesis using False by (force simp: map_of_eq_None_iff)
qed

definition move_clear :: "string list \<Rightarrow> string list \<Rightarrow> (string \<Rightarrow> bool) \<Rightarrow> string set \<Rightarrow> bool" where
  "move_clear old new moves ks \<longleftrightarrow>
     (\<forall>n \<in> ks. \<exists>ps. proper_parts ps \<and> n = abs_path ps)
     \<and> (\<forall>ps. proper_parts ps \<longrightarrow> abs_path ps \<in> ks \<longrightarrow> (moves (abs_path ps) \<longleftrightarrow> prefix old ps))
     \<and> (\<forall>xs. proper_parts xs \<longrightarrow> abs_path (new @ xs) \<notin> ks)"

lemma moving_below: "move_clear old new moves ks \<Longrightarrow> lies_below old {k \<in> ks. moves k}"
  unfolding lies_below_def move_clear_def by (metis (no_types, lifting) mem_Collect_eq prefix_def proper_append)

lemma moving_disjoint:
  assumes "old \<noteq> []" "new \<noteq> []" "move_clear old new moves ks"
  shows "moved_path (abs_path old) (abs_path new) ` {k \<in> ks. moves k} \<inter> {k \<in> ks. moves k} = {}"
proof -
  have "k \<notin> ks" if k: "k \<in> moved_path (abs_path old) (abs_path new) ` {k \<in> ks. moves k}" for k
    using moved_image [OF assms(1,2) moving_below [OF assms(3)] k] assms(3) by (auto simp: move_clear_def)
  then show ?thesis by blast
qed

lemma move_keys_sorted_get:
  assumes s: "bt_sorted m" and "old \<noteq> []" "new \<noteq> []" "proper_parts old" "proper_parts new"
    and clear: "move_clear old new moves (fst ` set m)"
  shows "bt_sorted (move_keys moves (abs_path old) (abs_path new) m)
    \<and> bt_get k (move_keys moves (abs_path old) (abs_path new) m) =
        (case map_of (map (\<lambda>(p, v). (moved_path (abs_path old) (abs_path new) p, v)) (filter (\<lambda>(path, _). moves path) m)) k of
           Some v \<Rightarrow> Some v | None \<Rightarrow> if k \<in> fst ` set (filter (\<lambda>(path, _). moves path) m) then None else bt_get k m)"
proof -
  let ?us = "filter (\<lambda>(path, _). moves path) m"
  have ks: "fst ` set ?us = {k \<in> fst ` set m. moves k}" by force
  have "distinct (map fst ?us)" using bt_sorted_distinct [OF s] by (simp add: distinct_map_filter)
  then show ?thesis
    using move_fold [OF s, of ?us] moved_inj [OF assms(2-5) moving_below [OF clear]] moving_disjoint [OF assms(2,3) clear] ks
    by (simp add: move_keys_def)
qed

lemma move_keys_at:
  assumes "bt_sorted m" "old \<noteq> []" "new \<noteq> []" "proper_parts old" "proper_parts new" "move_clear old new moves (fst ` set m)"
    and q: "proper_parts qs"
  shows "bt_get (abs_path qs) (move_keys moves (abs_path old) (abs_path new) m) = moved old new None (\<lambda>ps. bt_get (abs_path ps) m) qs"
proof -
  let ?us = "filter (\<lambda>(path, _). moves path) m"
  have ks: "fst ` set ?us = {k \<in> fst ` set m. moves k}" by force
  have mo: "map_of (map (\<lambda>(p, v). (moved_path (abs_path old) (abs_path new) p, v)) ?us) (abs_path qs) =
    (if prefix new qs then map_of ?us (abs_path (old @ drop (length new) qs)) else None)"
    using map_of_moved [OF assms(2-5) _ q, of ?us] moving_below [OF assms(6)] ks by simp
  have mu: "map_of ?us (abs_path (old @ xs)) = bt_get (abs_path (old @ xs)) m" if "proper_parts xs" for xs
  proof (cases "abs_path (old @ xs) \<in> fst ` set m")
    case True
    then have "moves (abs_path (old @ xs))" using assms(4,6) that by (simp add: move_clear_def)
    then show ?thesis by (simp add: map_of_filter bt_get_map_of)
  next
    case False
    then show ?thesis using map_of_eq_None_iff [of m "abs_path (old @ xs)"] by (simp add: map_of_filter bt_get_map_of)
  qed
  have cl: "prefix new qs \<Longrightarrow> abs_path qs \<notin> fst ` set m" using assms(6) q by (auto simp: move_clear_def prefix_def)
  have mv: "abs_path qs \<in> fst ` set ?us \<longleftrightarrow> abs_path qs \<in> fst ` set m \<and> prefix old qs" using ks assms(6) q by (auto simp: move_clear_def)
  note get = move_keys_sorted_get [OF assms(1-6), THEN conjunct2, of "abs_path qs"]
  show ?thesis
  proof (cases "prefix new qs")
    case True
    have "bt_get (abs_path qs) m = None" using cl [OF True] bt_get_None [of "abs_path qs" m] by blast
    moreover have "map_of ?us (abs_path (old @ drop (length new) qs)) = bt_get (abs_path (old @ drop (length new) qs)) m"
      using mu [OF proper_drop [OF q]] .
    ultimately show ?thesis unfolding get mo using True by (simp add: moved_def split: option.splits)
  next
    case False
    then show ?thesis unfolding get mo mv using bt_get_None [of "abs_path qs" m] by (auto simp: moved_def)
  qed
qed

lemma move_keys_proper:
  assumes "bt_sorted m" "old \<noteq> []" "new \<noteq> []" "proper_parts old" "proper_parts new" "move_clear old new moves (fst ` set m)"
    and n: "n \<in> fst ` set (move_keys moves (abs_path old) (abs_path new) m)"
  shows "\<exists>ps. proper_parts ps \<and> n = abs_path ps"
proof -
  let ?us = "filter (\<lambda>(path, _). moves path) m" and ?g = "moved_path (abs_path old) (abs_path new)"
  have ks: "fst ` set ?us = {k \<in> fst ` set m. moves k}" by force
  have "bt_get n (move_keys moves (abs_path old) (abs_path new) m) \<noteq> None" using n bt_get_None by metis
  then have "map_of (map (\<lambda>(p, v). (?g p, v)) ?us) n \<noteq> None \<or> bt_get n m \<noteq> None"
    unfolding move_keys_sorted_get [OF assms(1-6), THEN conjunct2] by (auto split: option.splits if_splits)
  then have "n \<in> ?g ` {k \<in> fst ` set m. moves k} \<or> n \<in> fst ` set m"
    using bt_get_None [of n m] unfolding map_of_eq_None_iff ks [symmetric] by force
  then show ?thesis
    using moved_image [OF assms(2,3) moving_below [OF assms(6)]] assms(5,6) unfolding move_clear_def by (metis proper_append)
qed

lemma move_set_fold:
  "g ` set us \<inter> set us = {} \<Longrightarrow>
     set (fold (\<lambda>p acc. bset_insert (g p) (bset_remove p acc)) us acc) = (set acc - set us) \<union> g ` set us"
proof (induction us arbitrary: acc)
  case (Cons u us)
  have "g ` set us \<inter> set us = {}" "g u \<notin> set us" "u \<notin> g ` set us" using Cons.prems by auto
  then show ?case using Cons.IH [of "bset_insert (g u) (bset_remove u acc)"] by auto
qed simp

lemma set_move_dirs:
  assumes "old \<noteq> []" "new \<noteq> []" "move_clear old new (\<lambda>d. d = abs_path old \<or> is_descendant (abs_path old) d) (set ds)"
  shows "set (move_dirs (abs_path old) (abs_path new) ds) =
    {d \<in> set ds. \<not> (d = abs_path old \<or> is_descendant (abs_path old) d)}
    \<union> moved_path (abs_path old) (abs_path new) ` {d \<in> set ds. d = abs_path old \<or> is_descendant (abs_path old) d}"
  using moving_disjoint [OF assms] unfolding move_dirs_def by (subst move_set_fold) auto

lemma move_dirs_at:
  assumes "old \<noteq> []" "new \<noteq> []" "proper_parts old" "proper_parts new"
    "move_clear old new (\<lambda>d. d = abs_path old \<or> is_descendant (abs_path old) d) (set ds)" and q: "proper_parts qs"
  shows "abs_path qs \<in> set (move_dirs (abs_path old) (abs_path new) ds) \<longleftrightarrow> moved old new False (\<lambda>ps. abs_path ps \<in> set ds) qs"
proof -
  let ?m = "\<lambda>d. d = abs_path old \<or> is_descendant (abs_path old) d" and ?g = "moved_path (abs_path old) (abs_path new)"
  have b: "lies_below old {d \<in> set ds. ?m d}" using moving_below [OF assms(5)] .
  have mv: "?m (abs_path ps) \<longleftrightarrow> prefix old ps" if "proper_parts ps" "abs_path ps \<in> set ds" for ps
    using assms(5) that by (simp add: move_clear_def)
  show ?thesis
  proof (cases "prefix new qs")
    case True
    then obtain xs where xs: "qs = new @ xs" "proper_parts xs" using q by (auto simp: prefix_def)
    have "abs_path qs \<notin> set ds" using assms(5) xs by (simp add: move_clear_def)
    moreover have "abs_path qs \<in> ?g ` {d \<in> set ds. ?m d} \<longleftrightarrow> abs_path (old @ xs) \<in> set ds"
      using moved_image_iff [OF assms(1,2,4) b xs(2)] xs mv [of "old @ xs"] assms(3) by auto
    ultimately show ?thesis unfolding set_move_dirs [OF assms(1,2,5)] using xs by (simp add: moved_def)
  next
    case False
    then have "abs_path qs \<notin> ?g ` {d \<in> set ds. ?m d}" using moved_not_image [OF assms(1,2,4) b q] by blast
    then show ?thesis unfolding set_move_dirs [OF assms(1,2,5)] using False mv [OF q] by (auto simp: moved_def)
  qed
qed

text \<open>Files are renamed in place.\<close>

definition new_name :: "string \<Rightarrow> string \<Rightarrow> string \<Rightarrow> string" where
  "new_name old new n = (if is_descendant old n then moved_path old new n else n)"

lemma names_move_files: "map mfile_name (move_files old new fl) = map (new_name old new) (map mfile_name fl)"
  by (simp add: move_files_def new_name_def)

lemma new_name_image:
  "new_name old new ` ks = {k \<in> ks. \<not> is_descendant old k} \<union> moved_path old new ` {k \<in> ks. is_descendant old k}"
  by (auto simp: new_name_def image_iff)

lemma new_name_inj:
  assumes "old \<noteq> []" "new \<noteq> []" "proper_parts old" "proper_parts new" "move_clear old new (is_descendant (abs_path old)) ks"
  shows "inj_on (new_name (abs_path old) (abs_path new)) ks"
proof (rule inj_onI)
  let ?d = "is_descendant (abs_path old)" and ?g = "moved_path (abs_path old) (abs_path new)"
  have out: "?g k \<notin> ks" if "k \<in> ks" "?d k" for k
    using moved_image [OF assms(1,2) moving_below [OF assms(5)], of "?g k"] that assms(5) by (auto simp: move_clear_def)
  have inj: "inj_on ?g {k \<in> ks. ?d k}" using moved_inj [OF assms(1-4) moving_below [OF assms(5)]] .
  fix a b assume "a \<in> ks" "b \<in> ks" "new_name (abs_path old) (abs_path new) a = new_name (abs_path old) (abs_path new) b"
  then show "a = b" using out inj by (auto simp: new_name_def inj_on_def split: if_splits)
qed

lemma find_map_name:
  assumes "inj_on h (insert n (mfile_name ` set fl))"
  shows "find (\<lambda>f. mfile_name f = h n) (map (\<lambda>f. f\<lparr>mfile_name := h (mfile_name f)\<rparr>) fl) =
    map_option (\<lambda>f. f\<lparr>mfile_name := h n\<rparr>) (find (\<lambda>f. mfile_name f = n) fl)"
  using assms
proof (induction fl)
  case (Cons f fl)
  have "inj_on h (insert n (mfile_name ` set fl))" using Cons.prems by (auto simp: inj_on_def)
  moreover have "h (mfile_name f) = h n \<longleftrightarrow> mfile_name f = n" using Cons.prems by (auto simp: inj_on_def)
  ultimately show ?case using Cons.IH by simp
qed simp

lemma move_files_map: "move_files old new fl = map (\<lambda>f. f\<lparr>mfile_name := new_name old new (mfile_name f)\<rparr>) fl"
  by (simp add: move_files_def new_name_def)

definition file_in :: "MemFile list \<Rightarrow> string \<Rightarrow> (addr \<times> string) option" where
  "file_in fl n = map_option (\<lambda>f. (mfile_backing f, mfile_link_key f)) (find (\<lambda>f. mfile_name f = n) fl)"

lemma file_in_None: "file_in fl n = None \<longleftrightarrow> n \<notin> mfile_name ` set fl"
  by (auto simp: file_in_def find_None_iff)

lemma file_at_in: "file_at fs ps = file_in (fs_files fs) (abs_path ps)"
  by (simp add: file_at_def file_in_def find_file_def)

lemma file_in_moved:
  assumes "inj_on (new_name old new) (mfile_name ` set fl)" "n \<in> mfile_name ` set fl"
  shows "file_in (move_files old new fl) (new_name old new n) = file_in fl n"
  using find_map_name [of "new_name old new" n fl] assms
  by (simp add: file_in_def move_files_map insert_absorb option.map_comp comp_def)

lemma file_in_gone: "k \<notin> new_name old new ` mfile_name ` set fl \<Longrightarrow> file_in (move_files old new fl) k = None"
  by (auto simp: file_in_None move_files_map image_image)

lemma is_descendant_prefix: "proper_parts ps \<Longrightarrow> proper_parts qs \<Longrightarrow> ps \<noteq> [] \<Longrightarrow> is_descendant (abs_path ps) (abs_path qs) \<longleftrightarrow> prefix ps qs \<and> qs \<noteq> ps"
  using is_descendant_parts by (auto simp: strict_prefix_def)

lemma move_files_at:
  assumes m: "old \<noteq> []" "new \<noteq> []" "proper_parts old" "proper_parts new"
    and c: "move_clear old new (is_descendant (abs_path old)) (mfile_name ` set fl)" and o: "abs_path old \<notin> mfile_name ` set fl"
    and q: "proper_parts qs"
  shows "file_in (move_files (abs_path old) (abs_path new) fl) (abs_path qs) = moved old new None (\<lambda>ps. file_in fl (abs_path ps)) qs"
proof -
  let ?ks = "mfile_name ` set fl" and ?h = "new_name (abs_path old) (abs_path new)"
  note inj = new_name_inj [OF m c]
  have b: "lies_below old {k \<in> ?ks. is_descendant (abs_path old) k}" using moving_below [OF c] .
  show ?thesis
  proof (cases "prefix new qs")
    case True
    then obtain xs where xs: "qs = new @ xs" "proper_parts xs" using q by (auto simp: prefix_def)
    have img: "abs_path qs \<in> ?h ` ?ks \<longleftrightarrow> abs_path (old @ xs) \<in> ?ks"
      using c o xs moved_image_iff [OF m(1,2,4) b xs(2)] m by (auto simp: new_name_image move_clear_def is_descendant_prefix)
    show ?thesis
    proof (cases "abs_path (old @ xs) \<in> ?ks")
      case there: True
      then have "is_descendant (abs_path old) (abs_path (old @ xs))" using o m xs by (auto simp: is_descendant_prefix)
      then have "?h (abs_path (old @ xs)) = abs_path qs" using m xs by (simp add: new_name_def moved_path_abs)
      then show ?thesis using file_in_moved [OF inj there] xs by (simp add: moved_def)
    next
      case False
      then have "file_in fl (abs_path (old @ xs)) = None" by (simp add: file_in_None)
      then show ?thesis using file_in_gone [of "abs_path qs" "abs_path old" "abs_path new" fl] img False xs by (simp add: moved_def)
    qed
  next
    case False
    have img: "abs_path qs \<in> ?h ` ?ks \<longleftrightarrow> abs_path qs \<in> ?ks \<and> \<not> prefix old qs"
      using moved_not_image [OF m(1,2,4) b q False] o m q by (auto simp: new_name_image is_descendant_prefix)
    show ?thesis
    proof (cases "abs_path qs \<in> ?ks \<and> \<not> prefix old qs")
      case there: True
      then have "?h (abs_path qs) = abs_path qs" using m q by (simp add: new_name_def is_descendant_prefix)
      then show ?thesis using file_in_moved [OF inj, of "abs_path qs"] there False by (simp add: moved_def)
    next
      case gone: False
      then show ?thesis using file_in_gone [of "abs_path qs" "abs_path old" "abs_path new" fl] img False file_in_None [of fl "abs_path qs"]
        by (auto simp: moved_def)
    qed
  qed
qed

section \<open>Renaming\<close>

lemma all_names_entry: "abs_path ps \<in> all_names fs \<longleftrightarrow> entry_at fs ps \<noteq> no_entry"
proof -
  have "\<not> dir_at fs ps \<longleftrightarrow> abs_path ps \<notin> set (fs_dirs fs)" "file_at fs ps = None \<longleftrightarrow> abs_path ps \<notin> mfile_name ` set (fs_files fs)"
    "link_at fs ps = None \<longleftrightarrow> abs_path ps \<notin> fst ` set (fs_symlinks fs)" "special_at fs ps = None \<longleftrightarrow> abs_path ps \<notin> fst ` set (fs_specials fs)"
    "meta_at fs ps = None \<longleftrightarrow> abs_path ps \<notin> fst ` set (fs_meta fs)"
    by (simp_all add: at_defs find_file_None bt_get_None)
  then show ?thesis by (auto simp: entry_at_def no_entry_def all_names_def)
qed

definition can_move :: "string list \<Rightarrow> string list \<Rightarrow> MemFileSystem \<Rightarrow> bool" where
  "can_move old new fs \<longleftrightarrow>
     fs_ok fs \<and> proper_parts old \<and> proper_parts new \<and> old \<noteq> [] \<and> new \<noteq> [] \<and> \<not> prefix old new \<and> \<not> prefix new old
     \<and> dir_at fs (butlast new) \<and> (\<forall>xs. proper_parts xs \<longrightarrow> entry_at fs (new @ xs) = no_entry)"

lemma table_clear:
  assumes "can_move old new fs" "ks \<subseteq> all_names fs"
    and "\<And>ps. proper_parts ps \<Longrightarrow> abs_path ps \<in> ks \<Longrightarrow> moves (abs_path ps) \<longleftrightarrow> prefix old ps"
  shows "move_clear old new moves ks"
  using assms all_names_entry unfolding move_clear_def can_move_def fs_ok_def tables_ok_def by (metis subsetD)

lemma tables_clear:
  assumes m: "can_move old new fs" and d: "dir_at fs old"
  shows "move_clear old new (\<lambda>p. p = abs_path old \<or> is_descendant (abs_path old) p) (set (fs_dirs fs))"
    and "move_clear old new (\<lambda>p. p = abs_path old \<or> is_descendant (abs_path old) p) (fst ` set (fs_meta fs))"
    and "move_clear old new (is_descendant (abs_path old)) (mfile_name ` set (fs_files fs))"
    and "move_clear old new (is_descendant (abs_path old)) (fst ` set (fs_symlinks fs))"
    and "move_clear old new (is_descendant (abs_path old)) (fst ` set (fs_specials fs))"
    and "abs_path old \<notin> mfile_name ` set (fs_files fs)"
proof -
  have p: "proper_parts old" "old \<noteq> []" and k: "one_kind (entry_at fs old)" using m by (auto simp: can_move_def fs_ok_def tree_ok_def)
  have whole: "(abs_path ps = abs_path old \<or> is_descendant (abs_path old) (abs_path ps)) \<longleftrightarrow> prefix old ps" if "proper_parts ps" for ps
    using p that by (auto simp: is_descendant_prefix abs_path_inj)
  have none: "file_at fs old = None" "link_at fs old = None" "special_at fs old = None" using k d by (simp_all add: one_kind_def entry_at_def)
  then have no: "abs_path old \<notin> mfile_name ` set (fs_files fs)" "abs_path old \<notin> fst ` set (fs_symlinks fs)" "abs_path old \<notin> fst ` set (fs_specials fs)"
    by (simp_all add: at_defs find_file_None bt_get_None)
  then have below: "is_descendant (abs_path old) (abs_path ps) \<longleftrightarrow> prefix old ps"
    if "proper_parts ps" "abs_path ps \<in> mfile_name ` set (fs_files fs) \<or> abs_path ps \<in> fst ` set (fs_symlinks fs) \<or> abs_path ps \<in> fst ` set (fs_specials fs)" for ps
    using that p by (metis is_descendant_prefix)
  have sub: "set (fs_dirs fs) \<subseteq> all_names fs" "fst ` set (fs_meta fs) \<subseteq> all_names fs" "mfile_name ` set (fs_files fs) \<subseteq> all_names fs"
    "fst ` set (fs_symlinks fs) \<subseteq> all_names fs" "fst ` set (fs_specials fs) \<subseteq> all_names fs"
    unfolding all_names_def by blast+
  show "move_clear old new (\<lambda>p. p = abs_path old \<or> is_descendant (abs_path old) p) (set (fs_dirs fs))"
    using whole by (intro table_clear [OF m sub(1)]) blast
  show "move_clear old new (\<lambda>p. p = abs_path old \<or> is_descendant (abs_path old) p) (fst ` set (fs_meta fs))"
    using whole by (intro table_clear [OF m sub(2)]) blast
  show "move_clear old new (is_descendant (abs_path old)) (mfile_name ` set (fs_files fs))"
    using below by (intro table_clear [OF m sub(3)]) blast
  show "move_clear old new (is_descendant (abs_path old)) (fst ` set (fs_symlinks fs))"
    using below by (intro table_clear [OF m sub(4)]) blast
  show "move_clear old new (is_descendant (abs_path old)) (fst ` set (fs_specials fs))"
    using below by (intro table_clear [OF m sub(5)]) blast
  show "abs_path old \<notin> mfile_name ` set (fs_files fs)" using no by simp
qed

lemma moved_pair: "moved old new (a, b) (\<lambda>ps. (f ps, g ps)) qs = (moved old new a f qs, moved old new b g qs)"
  by (simp add: moved_def)

lemma rename_directory_at:
  assumes m: "can_move old new fs" and d: "dir_at fs old" and q: "proper_parts qs"
  shows "entry_at (rename_directory (abs_path old) (abs_path new) fs) qs = moved old new no_entry (entry_at fs) qs"
proof -
  let ?fs = "rename_directory (abs_path old) (abs_path new) fs"
  have p: "old \<noteq> []" "new \<noteq> []" "proper_parts old" "proper_parts new" and ok: "tables_ok fs" using m by (auto simp: can_move_def fs_ok_def)
  note cl = tables_clear [OF m d] and s = tables_keys [OF ok]
  have "dir_at ?fs qs = moved old new False (dir_at fs) qs"
    using move_dirs_at [OF p cl(1) q] by (simp add: dir_at_def rename_directory_def Let_def moved_def)
  moreover have "file_at ?fs qs = moved old new None (file_at fs) qs"
    using move_files_at [OF p cl(3) cl(6) q] by (simp add: file_at_in rename_directory_def Let_def moved_def)
  moreover have "link_at ?fs qs = moved old new None (link_at fs) qs"
    using move_keys_at [OF _ p cl(4) q] s by (simp add: link_at_def rename_directory_def Let_def moved_def)
  moreover have "special_at ?fs qs = moved old new None (special_at fs) qs"
    using move_keys_at [OF _ p cl(5) q] s by (simp add: special_at_def rename_directory_def Let_def moved_def)
  moreover have "meta_at ?fs qs = moved old new None (meta_at fs) qs"
    using move_keys_at [OF _ p cl(2) q] s p by (simp add: meta_at_def rename_directory_def rename_metadata_tree_def Let_def moved_def)
  ultimately show ?thesis by (simp add: entry_at_def no_entry_def moved_def)
qed

lemma move_dirs_proper:
  assumes "old \<noteq> []" "new \<noteq> []" "proper_parts new"
    "move_clear old new (\<lambda>d. d = abs_path old \<or> is_descendant (abs_path old) d) (set ds)"
    and "n \<in> set (move_dirs (abs_path old) (abs_path new) ds)"
  shows "\<exists>ps. proper_parts ps \<and> n = abs_path ps"
proof -
  let ?ks = "{d \<in> set ds. d = abs_path old \<or> is_descendant (abs_path old) d}"
  have "n \<in> set ds \<or> n \<in> moved_path (abs_path old) (abs_path new) ` ?ks" using assms(5) unfolding set_move_dirs [OF assms(1,2,4)] by blast
  then show ?thesis
    using moved_image [OF assms(1,2) moving_below [OF assms(4)]] assms(3,4) unfolding move_clear_def by (metis proper_append)
qed

lemma move_files_proper:
  assumes "old \<noteq> []" "new \<noteq> []" "proper_parts new"
    "move_clear old new (is_descendant (abs_path old)) (mfile_name ` set fl)" and n: "n \<in> mfile_name ` set (move_files (abs_path old) (abs_path new) fl)"
  shows "\<exists>ps. proper_parts ps \<and> n = abs_path ps"
proof -
  have "n \<in> new_name (abs_path old) (abs_path new) ` mfile_name ` set fl" using n by (auto simp: move_files_map)
  then have "n \<in> mfile_name ` set fl \<or> n \<in> moved_path (abs_path old) (abs_path new) ` {k \<in> mfile_name ` set fl. is_descendant (abs_path old) k}"
    unfolding new_name_image by blast
  then show ?thesis
    using moved_image [OF assms(1,2) moving_below [OF assms(4)]] assms(3,4) unfolding move_clear_def by (metis proper_append)
qed

lemma rename_directory_tables:
  assumes m: "can_move old new fs" and d: "dir_at fs old"
  shows "tables_ok (rename_directory (abs_path old) (abs_path new) fs)"
proof -
  let ?fs = "rename_directory (abs_path old) (abs_path new) fs"
  have p: "old \<noteq> []" "new \<noteq> []" "proper_parts old" "proper_parts new" and ok: "tables_ok fs" using m by (auto simp: can_move_def fs_ok_def)
  note cl = tables_clear [OF m d] and s = tables_keys [OF ok]
  have names: "\<exists>ps. proper_parts ps \<and> n = abs_path ps" if "n \<in> all_names ?fs" for n
    using that move_dirs_proper [OF p(1,2,4) cl(1), of n] move_files_proper [OF p(1,2,4) cl(3), of n]
      move_keys_proper [OF _ p cl(2), of n] move_keys_proper [OF _ p cl(4), of n] move_keys_proper [OF _ p cl(5), of n] s p(3,4)
    unfolding all_names_def rename_directory_def rename_metadata_tree_def Let_def by auto
  have "inj_on (new_name (abs_path old) (abs_path new)) (mfile_name ` set (fs_files fs))" by (rule new_name_inj [OF p cl(3)])
  then have dist: "distinct (map mfile_name (fs_files ?fs))"
    using ok unfolding tables_ok_def rename_directory_def Let_def
    by (simp add: names_move_files distinct_map inj_on_image comp_inj_on del: map_map)
  show ?thesis
    using names dist move_keys_sorted_get [OF _ p cl(2)] move_keys_sorted_get [OF _ p cl(4)] move_keys_sorted_get [OF _ p cl(5)] s p(3,4)
    unfolding tables_ok_def by (auto simp: rename_directory_def rename_metadata_tree_def Let_def)
qed

lemma rename_directory_ok:
  assumes m: "can_move old new fs" and d: "dir_at fs old"
  shows "fs_ok (rename_directory (abs_path old) (abs_path new) fs)"
proof -
  have "tree_ok (moved old new no_entry (entry_at fs))"
    using m by (intro tree_moved) (auto simp: can_move_def fs_ok_def entry_at_def [of fs "butlast new"])
  then have "tree_ok (entry_at (rename_directory (abs_path old) (abs_path new) fs))"
    using rename_directory_at [OF m d] tree_ok_cong [of "entry_at (rename_directory (abs_path old) (abs_path new) fs)"] by metis
  then show ?thesis using rename_directory_tables [OF m d] by (simp add: fs_ok_def)
qed

text \<open>Anything but a directory moves alone: nothing is below it, and nothing is below what it replaces.\<close>

definition leaf_clear :: "string list \<Rightarrow> string list \<Rightarrow> MemFileSystem \<Rightarrow> bool" where
  "leaf_clear old new fs \<longleftrightarrow>
     fs_ok fs \<and> proper_parts old \<and> proper_parts new \<and> \<not> prefix old new
     \<and> node_at fs old \<and> \<not> dir_at fs old \<and> \<not> dir_at fs new \<and> dir_at fs (butlast new)"

lemma leaf_parts: "leaf_clear old new fs \<Longrightarrow> old \<noteq> [] \<and> new \<noteq> [] \<and> old \<noteq> new \<and> \<not> prefix new old"
proof -
  assume l: "leaf_clear old new fs"
  then have "dir_at fs []" by (simp add: leaf_clear_def fs_ok_def tree_ok_def entry_at_def)
  then have n: "old \<noteq> []" "new \<noteq> []" "old \<noteq> new" using l by (auto simp: leaf_clear_def)
  have "\<not> prefix new old"
  proof
    assume "prefix new old"
    then obtain xs where xs: "old = new @ xs" "xs \<noteq> []" using n by (auto simp: prefix_def)
    have "entry_at fs old \<noteq> no_entry" using l node_entry by (auto simp: leaf_clear_def)
    then have "fst (entry_at fs new)" using above_is_dir [of "entry_at fs" new xs] l xs by (auto simp: leaf_clear_def fs_ok_def)
    then show False using l by (simp add: leaf_clear_def entry_at_def)
  qed
  then show ?thesis using n by simp
qed

lemma nothing_below: "fs_ok fs \<Longrightarrow> \<not> dir_at fs ps \<Longrightarrow> proper_parts (ps @ xs) \<Longrightarrow> xs \<noteq> [] \<Longrightarrow> entry_at fs (ps @ xs) = no_entry"
  using below_nothing [of "entry_at fs" ps xs] by (simp add: fs_ok_def entry_at_def [of fs ps])

lemma leaf_moved:
  assumes l: "leaf_clear old new fs" and q: "proper_parts qs"
  shows "moved old new no_entry (entry_at fs) qs = (if qs = new then entry_at fs old else if qs = old then no_entry else entry_at fs qs)"
proof (cases "prefix new qs")
  case True
  then obtain xs where xs: "qs = new @ xs" "proper_parts xs" using q by (auto simp: prefix_def)
  show ?thesis
  proof (cases "xs = []")
    case False
    have "entry_at fs (old @ xs) = no_entry" "entry_at fs (new @ xs) = no_entry" using l False xs(2) by (auto simp: leaf_clear_def intro!: nothing_below)
    moreover have "new @ xs \<noteq> old" using leaf_parts [OF l] by auto
    ultimately show ?thesis using xs False by (simp add: moved_def)
  qed (use xs in \<open>simp add: moved_def\<close>)
next
  case False
  then have "entry_at fs qs = no_entry" if p: "prefix old qs" "qs \<noteq> old"
  proof -
    obtain xs where "qs = old @ xs" "xs \<noteq> []" using p by (auto simp: prefix_def)
    then show ?thesis using l q by (auto simp: leaf_clear_def intro!: nothing_below)
  qed
  then show ?thesis using False by (auto simp: moved_def)
qed

lemma leaf_move_ok:
  assumes l: "leaf_clear old new fs" and "tables_ok fs'"
    and at: "\<And>qs. proper_parts qs \<Longrightarrow> entry_at fs' qs = (if qs = new then entry_at fs old else if qs = old then no_entry else entry_at fs qs)"
  shows "fs_ok fs' \<and> (\<forall>qs. proper_parts qs \<longrightarrow> entry_at fs' qs = moved old new no_entry (entry_at fs) qs)"
proof -
  have "tree_ok (moved old new no_entry (entry_at fs))"
    using l leaf_parts [OF l] nothing_below by (intro tree_moved) (auto simp: leaf_clear_def fs_ok_def entry_at_def [of fs "butlast new"])
  then have "tree_ok (entry_at fs')" using at leaf_moved [OF l] tree_ok_cong [of "entry_at fs'"] by metis
  then show ?thesis using assms(2) at leaf_moved [OF l] by (auto simp: fs_ok_def)
qed

lemma or_alloc_there: "proper_parts ps \<Longrightarrow> meta_at fs ps = Some m \<Longrightarrow> metadata_or_alloc (abs_path ps) mode fs = (m, fs)"
  by (simp add: metadata_or_alloc_def meta_at_def)

lemma node_has_meta: "fs_ok fs \<Longrightarrow> proper_parts ps \<Longrightarrow> node_at fs ps \<Longrightarrow> \<exists>m. meta_at fs ps = Some m"
  by (auto simp: fs_ok_def tree_ok_def one_kind_def entry_at_def node_at_def)

lemma ok_kind: "fs_ok fs \<Longrightarrow> proper_parts ps \<Longrightarrow> one_kind (entry_at fs ps)"
  by (simp add: fs_ok_def tree_ok_def)

lemma special_alone: "fs_ok fs \<Longrightarrow> proper_parts ps \<Longrightarrow> special_at fs ps = Some k \<Longrightarrow> \<not> dir_at fs ps \<and> file_at fs ps = None \<and> link_at fs ps = None"
  using ok_kind [of fs ps] by (cases "file_at fs ps") (auto simp: one_kind_def entry_at_def)

lemma link_alone: "fs_ok fs \<Longrightarrow> proper_parts ps \<Longrightarrow> link_at fs ps = Some k \<Longrightarrow> \<not> dir_at fs ps \<and> file_at fs ps = None \<and> special_at fs ps = None"
  using ok_kind [of fs ps] by (cases "file_at fs ps") (auto simp: one_kind_def entry_at_def)

lemma file_alone: "fs_ok fs \<Longrightarrow> proper_parts ps \<Longrightarrow> file_at fs ps = Some k \<Longrightarrow> \<not> dir_at fs ps \<and> link_at fs ps = None \<and> special_at fs ps = None"
  using ok_kind [of fs ps] by (cases "link_at fs ps") (auto simp: one_kind_def entry_at_def)

lemmas entry_compute = entry_at_def at_defs block_defs find_file_def find_other find_snoc abs_path_inj no_entry_def bt_sorted_remove

lemma rename_special_ok:
  assumes l: "leaf_clear old new fs" and k: "special_at fs old = Some kind"
  defines "r \<equiv> rename_special (abs_path old) (abs_path new) kind fs"
  shows "snd r = Inr () \<and> fs_ok (fst r) \<and> (\<forall>qs. proper_parts qs \<longrightarrow> entry_at (fst r) qs = moved old new no_entry (entry_at fs) qs)"
proof -
  have p: "proper_parts old" "proper_parts new" "fs_ok fs" "tables_ok fs" "\<not> dir_at fs new" using l by (auto simp: leaf_clear_def fs_ok_def)
  note s = tables_keys [OF p(4)] and a = special_alone [OF p(3,1) k]
  obtain m where m: "meta_at fs old = Some m" using node_has_meta [OF p(3,1)] l by (auto simp: leaf_clear_def)
  let ?fs2 = "drop_special (abs_path new) (drop_symlink (abs_path new) (drop_name (abs_path new) (drop_special (abs_path old) fs)))"
  let ?fs' = "move_metadata (abs_path old) (abs_path new) m (?fs2\<lparr>fs_specials := bt_insert (abs_path new) kind (fs_specials ?fs2)\<rparr>)"
  have "metadata_or_alloc (abs_path old) 0x1b6 ?fs2 = (m, ?fs2)" using m p(1) by (intro or_alloc_there) (simp_all add: meta_at_def block_defs)
  moreover have "\<not> fs_is_dir (abs_path new) (drop_special (abs_path old) fs)" using p(2,5) by (simp add: dir_at_def drop_special_def)
  ultimately have r: "r = (?fs', Inr ())" by (simp add: r_def rename_special_def Let_def)
  have t: "tables_ok ?fs'"
    using p s by (auto simp: tables_ok_def all_names_def block_defs bt_sorted_insert bt_sorted_remove distinct_map_filter)
  have at: "entry_at ?fs' qs = (if qs = new then entry_at fs old else if qs = old then no_entry else entry_at fs qs)" if "proper_parts qs" for qs
    using that p(1,2,5) s a m k leaf_parts [OF l] by (simp add: entry_compute)
  show ?thesis unfolding r using leaf_move_ok [OF l t at] by simp
qed

lemma rename_symlink_ok:
  assumes l: "leaf_clear old new fs" and k: "link_at fs old = Some target" and n: "special_at fs new = None"
  defines "r \<equiv> rename_symlink (abs_path old) (abs_path new) target fs"
  shows "snd r = Inr () \<and> fs_ok (fst r) \<and> (\<forall>qs. proper_parts qs \<longrightarrow> entry_at (fst r) qs = moved old new no_entry (entry_at fs) qs)"
proof -
  have p: "proper_parts old" "proper_parts new" "fs_ok fs" "tables_ok fs" "\<not> dir_at fs new" using l by (auto simp: leaf_clear_def fs_ok_def)
  note s = tables_keys [OF p(4)] and a = link_alone [OF p(3,1) k]
  obtain m where m: "meta_at fs old = Some m" using node_has_meta [OF p(3,1)] l by (auto simp: leaf_clear_def)
  let ?fs2 = "drop_symlink (abs_path new) (drop_name (abs_path new) (drop_symlink (abs_path old) fs))"
  let ?fs' = "move_metadata (abs_path old) (abs_path new) m (?fs2\<lparr>fs_symlinks := bt_insert (abs_path new) target (fs_symlinks ?fs2)\<rparr>)"
  have "metadata_or_alloc (abs_path old) 0x1ff ?fs2 = (m, ?fs2)" using m p(1) by (intro or_alloc_there) (simp_all add: meta_at_def block_defs)
  moreover have "\<not> fs_is_dir (abs_path new) (drop_symlink (abs_path old) fs)" using p(2,5) by (simp add: dir_at_def drop_symlink_def)
  ultimately have r: "r = (?fs', Inr ())" by (simp add: r_def rename_symlink_def Let_def)
  have t: "tables_ok ?fs'"
    using p s by (auto simp: tables_ok_def all_names_def block_defs bt_sorted_insert bt_sorted_remove distinct_map_filter)
  have at: "entry_at ?fs' qs = (if qs = new then entry_at fs old else if qs = old then no_entry else entry_at fs qs)" if "proper_parts qs" for qs
    using that p(1,2,5) s a m k n leaf_parts [OF l] by (simp add: entry_compute)
  show ?thesis unfolding r using leaf_move_ok [OF l t at] by simp
qed

lemma rename_file_ok:
  assumes l: "leaf_clear old new fs" and k: "file_at fs old \<noteq> None"
  defines "r \<equiv> rename_file (abs_path old) (abs_path new) fs"
  shows "snd r = Inr () \<and> fs_ok (fst r) \<and> (\<forall>qs. proper_parts qs \<longrightarrow> entry_at (fst r) qs = moved old new no_entry (entry_at fs) qs)"
proof -
  have p: "proper_parts old" "proper_parts new" "fs_ok fs" "tables_ok fs" "\<not> dir_at fs new" using l by (auto simp: leaf_clear_def fs_ok_def)
  obtain f where f: "find_file (abs_path old) fs = Some f" using k by (auto simp: file_at_def)
  then have fa: "file_at fs old = Some (mfile_backing f, mfile_link_key f)" by (simp add: file_at_def)
  note s = tables_keys [OF p(4)] and a = file_alone [OF p(3,1) fa]
  obtain m where m: "meta_at fs old = Some m" using node_has_meta [OF p(3,1)] l by (auto simp: leaf_clear_def)
  let ?fs2 = "drop_special (abs_path new) (drop_symlink (abs_path new) (drop_name (abs_path new) (drop_name (abs_path old) fs)))"
  let ?fs' = "move_metadata (abs_path old) (abs_path new) m (push_file (abs_path new) (mfile_backing f) (mfile_link_key f) ?fs2)"
  have "metadata_or_alloc (abs_path old) 0x1b6 fs = (m, fs)" using m p(1) by (rule or_alloc_there [rotated])
  then have r: "r = (?fs', Inr ())" using f p(2,5) by (simp add: r_def rename_file_def)
  have t: "tables_ok ?fs'"
    using p s by (auto simp: tables_ok_def all_names_def block_defs bt_sorted_insert bt_sorted_remove distinct_map_filter)
  have at: "entry_at ?fs' qs = (if qs = new then entry_at fs old else if qs = old then no_entry else entry_at fs qs)" if "proper_parts qs" for qs
    using that p(1,2,5) s a m f leaf_parts [OF l] by (auto simp: entry_compute find_others split: option.splits)
  show ?thesis unfolding r using leaf_move_ok [OF l t at] by simp
qed

text \<open>Renaming as an operation on the tree.\<close>

definition rename_spec :: "(string list \<Rightarrow> entry) \<Rightarrow> string list \<Rightarrow> string list \<Rightarrow> SysErrNo + (string list \<Rightarrow> entry)" where
  "rename_spec t old new =
     (if old = new then Inr t
      else if old = [] \<or> prefix old new then Inl EINVAL
      else if \<not> fst (t (butlast new)) then Inl ENOENT
      else if fst (t old) then
        (if new = [] then Inl EEXIST
         else if fst (t new) then
           (if \<exists>xs. xs \<noteq> [] \<and> proper_parts xs \<and> t (new @ xs) \<noteq> no_entry then Inl ENOTEMPTY else Inr (moved old new no_entry t))
         else if t new \<noteq> no_entry then Inl ENOTDIR
         else Inr (moved old new no_entry t))
      else if t old = no_entry then Inl ENOENT
      else if fst (t new) then Inl EISDIR
      else Inr (moved old new no_entry t))"

definition same_tree :: "(string list \<Rightarrow> entry) \<Rightarrow> (string list \<Rightarrow> entry) \<Rightarrow> bool" where
  "same_tree t t' \<longleftrightarrow> (\<forall>qs. proper_parts qs \<longrightarrow> t qs = t' qs)"

definition refines_tree :: "MemFileSystem \<Rightarrow> MemFileSystem \<times> (SysErrNo + unit) \<Rightarrow> SysErrNo + (string list \<Rightarrow> entry) \<Rightarrow> bool" where
  "refines_tree fs r spec \<longleftrightarrow>
     fs_ok (fst r)
     \<and> (case spec of
          Inl e \<Rightarrow> snd r = Inl e \<and> same_tree (entry_at (fst r)) (entry_at fs)
        | Inr t \<Rightarrow> snd r = Inr () \<and> same_tree (entry_at (fst r)) t)"

lemma refines_error: "fs_ok fs \<Longrightarrow> refines_tree fs (fs, Inl e) (Inl e)"
  by (simp add: refines_tree_def same_tree_def)

lemma refines_moved:
  "snd r = Inr () \<and> fs_ok (fst r) \<and> (\<forall>qs. proper_parts qs \<longrightarrow> entry_at (fst r) qs = t qs) \<Longrightarrow> refines_tree fs r (Inr t)"
  by (simp add: refines_tree_def same_tree_def)

lemma can_move_there:
  assumes "fs_ok fs" "proper_parts old" "proper_parts new" "old \<noteq> []" "new \<noteq> []" "\<not> prefix old new" "dir_at fs (butlast new)"
    "node_at fs old" "\<not> node_at fs new"
  shows "can_move old new fs"
proof -
  have nd: "\<not> dir_at fs new" using assms(9) by (simp add: node_at_def)
  have no: "entry_at fs (new @ xs) = no_entry" if "proper_parts xs" for xs
    using nothing_below [OF assms(1) nd] node_entry [OF assms(1,3)] assms(3,9) that by (cases "xs = []") auto
  have "\<not> prefix new old"
  proof
    assume "prefix new old"
    then obtain xs where "old = new @ xs" "proper_parts xs" using assms(2) by (auto simp: prefix_def)
    then show False using no node_entry [OF assms(1,2)] assms(8) by auto
  qed
  then show ?thesis using assms no by (simp add: can_move_def)
qed

lemma rename_into_free:
  assumes "can_move old new fs" "dir_at fs old"
  shows "refines_tree fs (rename_directory (abs_path old) (abs_path new) fs, Inr ()) (Inr (moved old new no_entry (entry_at fs)))"
  using rename_directory_ok [OF assms] rename_directory_at [OF assms] by (simp add: refines_tree_def same_tree_def)

text \<open>An empty directory that is replaced is removed first.\<close>

lemma remove_empty_dir:
  assumes "fs_ok fs" "proper_parts ps" "ps \<noteq> []" "dir_at fs ps"
    and "\<forall>xs. xs \<noteq> [] \<and> proper_parts xs \<longrightarrow> entry_at fs (ps @ xs) = no_entry"
  defines "fs' \<equiv> fs\<lparr>fs_dirs := bset_remove (abs_path ps) (fs_dirs fs), fs_meta := bt_remove (abs_path ps) (fs_meta fs)\<rparr>"
  shows "fs_ok fs' \<and> (\<forall>qs. proper_parts qs \<longrightarrow> entry_at fs' qs = (if qs = ps then no_entry else entry_at fs qs))"
proof -
  have tb: "tables_ok fs" using assms(1) by (simp add: fs_ok_def)
  then have t: "tables_ok fs'" unfolding fs'_def using tables_drop_meta [OF tables_drop_dir [OF tb]] by simp
  have "file_at fs ps = None \<and> link_at fs ps = None \<and> special_at fs ps = None"
    using ok_kind [OF assms(1,2)] assms(4) by (simp add: one_kind_def entry_at_def)
  then have at: "entry_at fs' qs = (if qs = ps then no_entry else entry_at fs qs)" if "proper_parts qs" for qs
    using that assms(2) tables_keys [OF tb] by (simp add: fs'_def entry_compute)
  have "fs_ok fs'"
    using assms(3,5) by (intro fs_ok_change [OF assms(1) t assms(2) at]) (auto simp: one_kind_def no_entry_def proper_parts_def)
  then show ?thesis using at by blast
qed

lemma rename_over_empty:
  assumes ok: "fs_ok fs" and p: "proper_parts old" "proper_parts new" "old \<noteq> []" "new \<noteq> []" "\<not> prefix old new"
    and d: "dir_at fs (butlast new)" "dir_at fs old" "dir_at fs new"
    and e: "\<forall>xs. xs \<noteq> [] \<and> proper_parts xs \<longrightarrow> entry_at fs (new @ xs) = no_entry"
  defines "fs1 \<equiv> fs\<lparr>fs_dirs := bset_remove (abs_path new) (fs_dirs fs), fs_meta := bt_remove (abs_path new) (fs_meta fs)\<rparr>"
  shows "refines_tree fs (rename_directory (abs_path old) (abs_path new) fs1, Inr ()) (Inr (moved old new no_entry (entry_at fs)))"
proof -
  have ok1: "fs_ok fs1" and at: "\<And>qs. proper_parts qs \<Longrightarrow> entry_at fs1 qs = (if qs = new then no_entry else entry_at fs qs)"
    using remove_empty_dir [OF ok p(2,4) d(3) e] unfolding fs1_def by blast+
  have on: "old \<noteq> new" using p(5) by auto
  have dirs: "dir_at fs1 qs \<longleftrightarrow> dir_at fs qs" if "proper_parts qs" "qs \<noteq> new" for qs
    using at [OF that(1)] that(2) by (simp add: entry_at_def)
  have b: "butlast new \<noteq> new" using p(4) by (metis append_butlast_last_id append_self_conv not_Cons_self2)
  have "dir_at fs1 old" "dir_at fs1 (butlast new)" using dirs p b on d proper_butlast by auto
  moreover have "\<not> node_at fs1 new" using at [OF p(2)] node_entry [OF ok1 p(2)] by simp
  ultimately have c: "can_move old new fs1" "dir_at fs1 old"
    using can_move_there [OF ok1 p(1-5)] by (simp_all add: node_at_def)
  have "moved old new no_entry (entry_at fs1) qs = moved old new no_entry (entry_at fs) qs" if q: "proper_parts qs" for qs
  proof -
    have "old @ xs \<noteq> new" for xs using p(5) by auto
    then show ?thesis using at [of qs] at [of "old @ drop (length new) qs"] q p(1) proper_drop [OF q] by (auto simp: moved_def)
  qed
  then show ?thesis using rename_into_free [OF c] by (simp add: refines_tree_def same_tree_def)
qed

lemma abs_path_root: "proper_parts ps \<Longrightarrow> abs_path ps = ''/'' \<longleftrightarrow> ps = []"
  using abs_path_inj [of ps "[]"] by (simp add: abs_path_def)

lemma rename_path_parts:
  assumes p: "proper_parts old" "proper_parts new"
  shows "rename_path (abs_path old) (abs_path new) fs =
    (if old = new then (fs, Inr ())
     else if old = [] \<or> prefix old new then (fs, Inl EINVAL)
     else if \<not> dir_at fs (butlast new) then (fs, Inl ENOENT)
     else if dir_at fs old then
       (if new = [] then (fs, Inl EEXIST)
        else if dir_at fs new then
          (if dir_has_entries (abs_path new) fs then (fs, Inl ENOTEMPTY)
           else (rename_directory (abs_path old) (abs_path new)
                   (fs\<lparr>fs_dirs := bset_remove (abs_path new) (fs_dirs fs), fs_meta := bt_remove (abs_path new) (fs_meta fs)\<rparr>), Inr ()))
        else if fs_exists (abs_path new) fs then (fs, Inl ENOTDIR)
        else (rename_directory (abs_path old) (abs_path new) fs, Inr ()))
     else (case special_at fs old of
             Some kind \<Rightarrow> rename_special (abs_path old) (abs_path new) kind fs
           | None \<Rightarrow>
               (case link_at fs old of
                  Some target \<Rightarrow> rename_symlink (abs_path old) (abs_path new) target fs
                | None \<Rightarrow> rename_file (abs_path old) (abs_path new) fs)))"
proof -
  have "is_descendant (abs_path old) (abs_path new) \<longleftrightarrow> old \<noteq> [] \<and> prefix old new \<and> old \<noteq> new"
    using is_descendant_parts [OF p] by (auto simp: strict_prefix_def)
  then show ?thesis
    using p proper_butlast [OF p(2)]
    by (simp add: rename_path_def Let_def abs_path_inj abs_path_root parent_abs_path special_at_def link_at_def cong: if_cong option.case_cong)
qed

lemma rename_dir_refines:
  assumes ok: "fs_ok fs" and p: "proper_parts old" "proper_parts new" "old \<noteq> []" "\<not> prefix old new"
    and d: "dir_at fs (butlast new)" "dir_at fs old"
  shows "refines_tree fs (rename_path (abs_path old) (abs_path new) fs) (rename_spec (entry_at fs) old new)"
proof (cases "new = []")
  case True
  then show ?thesis using assms refines_error by (auto simp: rename_path_parts rename_spec_def entry_at_def)
next
  case n: False
  have tb: "tables_ok fs" and on: "old \<noteq> new" using ok p by (auto simp: fs_ok_def)
  have ex: "fs_exists (abs_path new) fs \<longleftrightarrow> entry_at fs new \<noteq> no_entry" using exists_node [OF tb, of "abs_path new"] node_entry [OF ok p(2)] p(2) by simp
  have ent: "dir_has_entries (abs_path new) fs \<longleftrightarrow> (\<exists>xs. xs \<noteq> [] \<and> proper_parts xs \<and> entry_at fs (new @ xs) \<noteq> no_entry)"
    using entries_below [OF ok p(2) n] node_entry [OF ok, of "new @ xs" for xs] p(2) by auto
  have f: "fst (entry_at fs ps) = dir_at fs ps" for ps by (simp add: entry_at_def)
  show ?thesis
  proof (cases "dir_at fs new")
    case True
    show ?thesis
    proof (cases "dir_has_entries (abs_path new) fs")
      case False
      then have e: "\<forall>xs. xs \<noteq> [] \<and> proper_parts xs \<longrightarrow> entry_at fs (new @ xs) = no_entry" using ent by blast
      show ?thesis using rename_over_empty [OF ok p(1,2,3) n p(4) d True e] False True n on p d
        by (simp add: rename_path_parts rename_spec_def f ent [symmetric])
    next
      case here: True
      then show ?thesis using refines_error [OF ok] True n on p d by (simp add: rename_path_parts rename_spec_def f ent [symmetric])
    qed
  next
    case False
    show ?thesis
    proof (cases "entry_at fs new = no_entry")
      case True
      then have "can_move old new fs" using can_move_there [OF ok p(1,2,3) n p(4) d(1)] d(2) node_entry [OF ok p(2)] by (simp add: node_at_def)
      then show ?thesis using rename_into_free [OF _ d(2)] ex True False n on p d by (simp add: rename_path_parts rename_spec_def f)
    next
      case there: False
      then show ?thesis using refines_error [OF ok] ex False n on p d by (simp add: rename_path_parts rename_spec_def f)
    qed
  qed
qed

text \<open>A leaf put back where it was taken from.\<close>

lemma put_back_special:
  assumes ok: "fs_ok fs" and p: "proper_parts old" and k: "special_at fs old = Some kind"
  defines "fs' \<equiv> (drop_special (abs_path old) fs)\<lparr>fs_specials := bt_insert (abs_path old) kind (fs_specials (drop_special (abs_path old) fs))\<rparr>"
  shows "refines_tree fs (fs', Inl e) (Inl e)"
proof -
  have tb: "tables_ok fs" using ok by (simp add: fs_ok_def)
  have at: "entry_at fs' qs = entry_at fs qs" if "proper_parts qs" for qs
    using that p k tables_keys [OF tb] by (simp add: fs'_def entry_compute)
  have "tables_ok fs'" unfolding fs'_def by (intro tables_put_special tables_drop_special tb p)
  moreover have "tree_ok (entry_at fs')" using tree_ok_cong [of "entry_at fs'" "entry_at fs"] at ok by (simp add: fs_ok_def)
  ultimately show ?thesis using at by (simp add: refines_tree_def same_tree_def fs_ok_def)
qed

lemma put_back_symlink:
  assumes ok: "fs_ok fs" and p: "proper_parts old" and k: "link_at fs old = Some target"
  defines "fs' \<equiv> (drop_symlink (abs_path old) fs)\<lparr>fs_symlinks := bt_insert (abs_path old) target (fs_symlinks (drop_symlink (abs_path old) fs))\<rparr>"
  shows "refines_tree fs (fs', Inl e) (Inl e)"
proof -
  have tb: "tables_ok fs" using ok by (simp add: fs_ok_def)
  have at: "entry_at fs' qs = entry_at fs qs" if "proper_parts qs" for qs
    using that p k tables_keys [OF tb] by (simp add: fs'_def entry_compute)
  have "tables_ok fs'" unfolding fs'_def by (intro tables_put_symlink tables_drop_symlink tb p)
  moreover have "tree_ok (entry_at fs')" using tree_ok_cong [of "entry_at fs'" "entry_at fs"] at ok by (simp add: fs_ok_def)
  ultimately show ?thesis using at by (simp add: refines_tree_def same_tree_def fs_ok_def)
qed

lemma rename_leaf_to_dir:
  assumes ok: "fs_ok fs" and p: "proper_parts old" "proper_parts new" and n: "\<not> dir_at fs old" "node_at fs old" "dir_at fs new"
    and o: "old \<noteq> []" "\<not> prefix old new" "dir_at fs (butlast new)"
  shows "refines_tree fs (rename_path (abs_path old) (abs_path new) fs) (Inl EISDIR)"
proof -
  have on: "old \<noteq> new" using o(2) by auto
  consider (special) k where "special_at fs old = Some k" | (link) k where "link_at fs old = Some k" "special_at fs old = None"
    | (filek) k where "file_at fs old = Some k" "special_at fs old = None" "link_at fs old = None"
    using n by (cases "special_at fs old"; cases "link_at fs old"; cases "file_at fs old") (auto simp: node_at_def)
  then show ?thesis
  proof cases
    case special
    have "fs_is_dir (abs_path new) (drop_special (abs_path old) fs)" using n(3) p(2) by (simp add: dir_at_def drop_special_def)
    then show ?thesis using put_back_special [OF ok p(1) special, of EISDIR] special on o n p
      by (simp add: rename_path_parts rename_special_def Let_def)
  next
    case link
    have "fs_is_dir (abs_path new) (drop_symlink (abs_path old) fs)" using n(3) p(2) by (simp add: dir_at_def drop_symlink_def)
    then show ?thesis using put_back_symlink [OF ok p(1) link(1), of EISDIR] link on o n p
      by (simp add: rename_path_parts rename_symlink_def Let_def)
  next
    case filek
    then obtain f where "find_file (abs_path old) fs = Some f" by (auto simp: file_at_def)
    then show ?thesis using refines_error [OF ok] filek on o n p by (simp add: rename_path_parts rename_file_def)
  qed
qed

lemma rename_leaf_refines:
  assumes ok: "fs_ok fs" and p: "proper_parts old" "proper_parts new" and n: "\<not> dir_at fs old"
    and o: "old \<noteq> []" "\<not> prefix old new" "dir_at fs (butlast new)" and s: "link_at fs old = None \<or> special_at fs new = None"
  shows "refines_tree fs (rename_path (abs_path old) (abs_path new) fs) (rename_spec (entry_at fs) old new)"
proof -
  have f: "fst (entry_at fs ps) = dir_at fs ps" for ps by (simp add: entry_at_def)
  have on: "old \<noteq> new" using o(2) by auto
  consider (gone) "\<not> node_at fs old" | (isdir) "node_at fs old" "dir_at fs new" | (move) "leaf_clear old new fs"
    using assms by (auto simp: leaf_clear_def)
  then show ?thesis
  proof cases
    case gone
    then have g: "special_at fs old = None" "link_at fs old = None" "find_file (abs_path old) fs = None" by (auto simp: node_at_def file_at_def)
    have "rename_path (abs_path old) (abs_path new) fs = (fs, Inl ENOENT)"
      using g on o n p by (simp add: rename_path_parts rename_file_def)
    moreover have "rename_spec (entry_at fs) old new = Inl ENOENT"
      using gone node_entry [OF ok p(1)] on o n by (simp add: rename_spec_def f)
    ultimately show ?thesis using refines_error [OF ok] by simp
  next
    case isdir
    then have "rename_spec (entry_at fs) old new = Inl EISDIR"
      using node_entry [OF ok p(1)] on o n by (simp add: rename_spec_def f)
    then show ?thesis using rename_leaf_to_dir [OF ok p n isdir o] by simp
  next
    case move
    then have nd: "node_at fs old" "\<not> dir_at fs new" by (auto simp: leaf_clear_def)
    then have sp: "rename_spec (entry_at fs) old new = Inr (moved old new no_entry (entry_at fs))"
      using node_entry [OF ok p(1)] on o n by (simp add: rename_spec_def f)
    have fl: "file_at fs old \<noteq> None" if "special_at fs old = None" "link_at fs old = None" using nd(1) n that by (simp add: node_at_def)
    have "refines_tree fs (rename_path (abs_path old) (abs_path new) fs) (Inr (moved old new no_entry (entry_at fs)))"
      using rename_special_ok [OF move] rename_symlink_ok [OF move] rename_file_ok [OF move fl] s on o n p
      by (intro refines_moved) (auto simp: rename_path_parts split: option.splits)
    then show ?thesis using sp by simp
  qed
qed

lemma rename_parts_refines:
  assumes "fs_ok fs" "proper_parts old" "proper_parts new" "link_at fs old = None \<or> special_at fs new = None"
  shows "refines_tree fs (rename_path (abs_path old) (abs_path new) fs) (rename_spec (entry_at fs) old new)"
proof -
  consider (same) "old = new" | (inval) "old \<noteq> new" "old = [] \<or> prefix old new" | (par) "old \<noteq> new" "old \<noteq> []" "\<not> prefix old new" "\<not> dir_at fs (butlast new)"
    | (go) "old \<noteq> []" "\<not> prefix old new" "dir_at fs (butlast new)" by auto
  then show ?thesis
  proof cases
    case go
    then show ?thesis using rename_dir_refines rename_leaf_refines assms by blast
  next
    case same
    then show ?thesis using assms by (simp add: rename_path_parts rename_spec_def refines_tree_def same_tree_def)
  qed (use assms refines_error in \<open>simp_all add: rename_path_parts rename_spec_def entry_at_def [of fs "butlast new"]\<close>)
qed

end
