(* ===== verification/Fs_Ops.thy ===== *)
theory Fs_Ops
  imports Fs_Tree
begin

text \<open>
  Every operation of the in-memory file system keeps the tree: from the empty file system on, whatever is created, linked, removed,
  renamed or changed, each path holds one kind of node, every parent is a directory and exactly the nodes have metadata.
\<close>

section \<open>Metadata\<close>


lemma update_backing_ok [simp]: "fs_ok (update_backing b f fs) = fs_ok fs"
  by (simp add: update_backing_def)

lemma touch_ctime_ok [simp]: "fs_ok (touch_ctime now n fs) = fs_ok fs"
  by (simp add: touch_ctime_def split: option.split)

lemma fst_entry: "fst (entry_at fs ps) = dir_at fs ps"
  by (simp add: entry_at_def)

lemma parent_is_dir: "fs_ok fs \<Longrightarrow> proper_parts ps \<Longrightarrow> node_at fs ps \<Longrightarrow> ps \<noteq> [] \<Longrightarrow> dir_at fs (butlast ps)"
  using node_entry [of fs ps] fst_entry [of fs "butlast ps"] unfolding fs_ok_def tree_ok_def by blast

lemma root_is_dir: "fs_ok fs \<Longrightarrow> dir_at fs []"
  using fst_entry [of fs "[]"] unfolding fs_ok_def tree_ok_def by blast


lemma node_next_ino [simp]: "node_at (fs\<lparr>fs_next_ino := n\<rparr>) = node_at fs"
  by (rule ext) (simp add: node_at_def at_defs find_file_def)




lemma node_put_metadata [simp]: "node_at (put_metadata n m fs) = node_at fs"
  by (rule ext) (simp add: node_at_def at_defs find_file_def put_metadata_def)



section \<open>Removing\<close>

lemma drop_name_names:
  "tables_ok fs \<Longrightarrow> (if n \<in> fs_names fs then drop_file n (fs\<lparr>fs_names := fs_names fs - {n}\<rparr>) else fs\<lparr>fs_names := fs_names fs - {n}\<rparr>) = drop_name n fs"
proof (cases "n \<in> fs_names fs")
  case False
  assume "tables_ok fs"
  then have "filter (\<lambda>f. mfile_name f \<noteq> n) (fs_files fs) = fs_files fs" using False by (auto simp: tables_ok_def filter_id_conv)
  then show ?thesis using False by (cases fs) (simp add: drop_name_def drop_file_def)
qed (simp add: drop_name_def drop_file_def)

lemma remove_file_steps:
  assumes "tables_ok fs" "starts_with raw ''/''"
  defines "n \<equiv> abs_path (path_parts raw)"
  defines "fs3 \<equiv> drop_special n (drop_symlink n (drop_name n fs))"
  shows "remove_file raw fs =
    (if file_at fs (path_parts raw) = None \<and> link_at fs (path_parts raw) = None \<and> special_at fs (path_parts raw) = None
     then (fs3, Inl ENOENT) else (fs3\<lparr>fs_meta := bt_remove n (fs_meta fs3)\<rparr>, Inr ()))"
proof -
  have "n \<in> fs_names fs \<longleftrightarrow> file_at fs (path_parts raw) \<noteq> None"
    using assms(1) find_file_None [of n fs] by (simp add: tables_ok_def file_at_def n_def)
  then show ?thesis
    using assms(2) unfolding remove_file_def Let_def drop_name_names [OF assms(1)]
    by (simp add: normalize_absolute n_def [symmetric] fs3_def drop_name_def drop_file_def drop_symlink_def drop_special_def link_at_def special_at_def)
qed

lemma remove_leaf_ok:
  assumes ok: "fs_ok fs" and p: "proper_parts ps" and n: "node_at fs ps" "\<not> dir_at fs ps"
  defines "fs3 \<equiv> drop_special (abs_path ps) (drop_symlink (abs_path ps) (drop_name (abs_path ps) fs))"
  defines "fs' \<equiv> fs3\<lparr>fs_meta := bt_remove (abs_path ps) (fs_meta fs3)\<rparr>"
  shows "fs_ok fs' \<and> same_tree (entry_at fs') ((entry_at fs)(ps := no_entry))"
proof -
  have tb: "tables_ok fs" using ok by (simp add: fs_ok_def)
  have t: "tables_ok fs'" unfolding fs'_def fs3_def by (intro tables_drop_meta tables_drop_special tables_drop_symlink tables_drop_name tb)
  have at: "entry_at fs' qs = (if qs = ps then no_entry else entry_at fs qs)" if "proper_parts qs" for qs
    using that p n(2) tables_keys [OF tb] by (simp add: fs'_def fs3_def entry_compute)
  have "ps \<noteq> []" using root_is_dir [OF ok] n(2) by auto
  then have "fs_ok fs'"
    using nothing_below [OF ok n(2)] p by (intro fs_ok_change [OF ok t p at]) (auto simp: one_kind_def no_entry_def)
  then show ?thesis using at by (simp add: same_tree_def)
qed

lemma remove_nothing_ok:
  assumes ok: "fs_ok fs" and p: "proper_parts ps" and n: "file_at fs ps = None" "link_at fs ps = None" "special_at fs ps = None"
  defines "fs3 \<equiv> drop_special (abs_path ps) (drop_symlink (abs_path ps) (drop_name (abs_path ps) fs))"
  shows "fs_ok fs3 \<and> same_tree (entry_at fs3) (entry_at fs)"
proof -
  have tb: "tables_ok fs" using ok by (simp add: fs_ok_def)
  have t: "tables_ok fs3" unfolding fs3_def by (intro tables_drop_special tables_drop_symlink tables_drop_name tb)
  have at: "entry_at fs3 qs = entry_at fs qs" if "proper_parts qs" for qs
    using that p n tables_keys [OF tb] by (simp add: fs3_def entry_compute)
  then show ?thesis using t tree_ok_cong [of "entry_at fs3" "entry_at fs"] ok by (simp add: fs_ok_def same_tree_def)
qed

text \<open>Removing a name as an operation on the tree.\<close>

definition remove_spec :: "(string list \<Rightarrow> entry) \<Rightarrow> string list \<Rightarrow> SysErrNo + (string list \<Rightarrow> entry)" where
  "remove_spec t ps = (if t ps = no_entry \<or> fst (t ps) then Inl ENOENT else Inr (t(ps := no_entry)))"

lemma remove_file_refines:
  assumes ok: "fs_ok fs" and a: "starts_with raw ''/''"
  shows "refines_tree fs (remove_file raw fs) (remove_spec (entry_at fs) (path_parts raw))"
proof -
  let ?ps = "path_parts raw"
  have tb: "tables_ok fs" using ok by (simp add: fs_ok_def)
  note r = remove_file_steps [OF tb a]
  show ?thesis
  proof (cases "node_at fs ?ps \<and> \<not> dir_at fs ?ps")
    case True
    then have "\<not> (file_at fs ?ps = None \<and> link_at fs ?ps = None \<and> special_at fs ?ps = None)" by (auto simp: node_at_def)
    then show ?thesis using remove_leaf_ok [OF ok path_parts_proper, of raw] node_entry [OF ok path_parts_proper, of raw] True
      unfolding r refines_tree_def remove_spec_def fst_entry by simp
  next
    case False
    then have n: "file_at fs ?ps = None" "link_at fs ?ps = None" "special_at fs ?ps = None"
      using ok_kind [OF ok path_parts_proper, of raw] by (auto simp: node_at_def one_kind_def entry_at_def)
    show ?thesis using remove_nothing_ok [OF ok path_parts_proper n] node_entry [OF ok path_parts_proper, of raw] False n
      unfolding r refines_tree_def remove_spec_def fst_entry by auto
  qed
qed

definition rmdir_spec :: "(string list \<Rightarrow> entry) \<Rightarrow> string list \<Rightarrow> SysErrNo + (string list \<Rightarrow> entry)" where
  "rmdir_spec t ps =
     (if ps = [] then Inl EINVAL
      else if \<not> fst (t ps) then Inl ENOENT
      else if \<exists>xs. xs \<noteq> [] \<and> proper_parts xs \<and> t (ps @ xs) \<noteq> no_entry then Inl ENOTEMPTY
      else Inr (t(ps := no_entry)))"

lemma remove_dir_refines:
  assumes ok: "fs_ok fs" and a: "starts_with raw ''/''"
  shows "refines_tree fs (remove_dir raw fs) (rmdir_spec (entry_at fs) (path_parts raw))"
proof -
  let ?ps = "path_parts raw"
  have p: "proper_parts ?ps" by simp
  have ent: "?ps \<noteq> [] \<Longrightarrow> dir_has_entries (abs_path ?ps) fs \<longleftrightarrow> (\<exists>xs. xs \<noteq> [] \<and> proper_parts xs \<and> entry_at fs (?ps @ xs) \<noteq> no_entry)"
    using entries_below [OF ok p] node_entry [OF ok, of "?ps @ xs" for xs] by auto
  have rd: "remove_dir raw fs =
      (if ?ps = [] then (fs, Inl EINVAL)
       else if \<not> dir_at fs ?ps then (fs, Inl ENOENT)
       else if \<exists>xs. xs \<noteq> [] \<and> proper_parts xs \<and> entry_at fs (?ps @ xs) \<noteq> no_entry then (fs, Inl ENOTEMPTY)
       else (fs\<lparr>fs_dirs := bset_remove (abs_path ?ps) (fs_dirs fs), fs_meta := bt_remove (abs_path ?ps) (fs_meta fs)\<rparr>, Inr ()))"
    using a ent [symmetric] by (simp add: remove_dir_def Let_def normalize_absolute abs_path_root cong: if_cong)
  show ?thesis
  proof (cases "?ps = [] \<or> \<not> dir_at fs ?ps \<or> (\<exists>xs. xs \<noteq> [] \<and> proper_parts xs \<and> entry_at fs (?ps @ xs) \<noteq> no_entry)")
    case True
    then show ?thesis unfolding rd rmdir_spec_def fst_entry using refines_error [OF ok] by auto
  next
    case False
    then have "?ps \<noteq> []" "dir_at fs ?ps" "\<forall>xs. xs \<noteq> [] \<and> proper_parts xs \<longrightarrow> entry_at fs (?ps @ xs) = no_entry" by blast+
    note ok' = remove_empty_dir [OF ok p this]
    show ?thesis unfolding rd rmdir_spec_def fst_entry using False ok' by (auto simp: refines_tree_def same_tree_def)
  qed
qed

section \<open>Creating\<close>


text \<open>A new node below a directory, at a path that holds nothing.\<close>

definition vacant :: "MemFileSystem \<Rightarrow> string list \<Rightarrow> bool" where
  "vacant fs ps \<longleftrightarrow> fs_ok fs \<and> proper_parts ps \<and> dir_at fs (butlast ps) \<and> entry_at fs ps = no_entry"

lemma vacant_parts: "vacant fs ps \<Longrightarrow> ps \<noteq> [] \<and> \<not> dir_at fs ps \<and> file_at fs ps = None \<and> link_at fs ps = None \<and> special_at fs ps = None"
  using root_is_dir [of fs] by (auto simp: vacant_def entry_at_def no_entry_def)

lemma fill_vacant:
  assumes v: "vacant fs ps" and "tables_ok fs'" "one_kind e"
    and at: "\<And>qs. proper_parts qs \<Longrightarrow> entry_at fs' qs = (if qs = ps then e else entry_at fs qs)"
  shows "fs_ok fs' \<and> same_tree (entry_at fs') ((entry_at fs)(ps := e))"
proof -
  have v': "fs_ok fs" "proper_parts ps" "dir_at fs (butlast ps)" "\<not> dir_at fs ps" "ps \<noteq> []" using v vacant_parts [OF v] by (auto simp: vacant_def)
  have "fs_ok fs'"
    using v' nothing_below [OF v'(1,4)] assms(3) by (intro fs_ok_change [OF v'(1) assms(2) v'(2) at]) auto
  then show ?thesis using at by (simp add: same_tree_def)
qed

lemma fill_file:
  fixes m :: MemNodeMetadata and b :: addr and k :: string
  assumes v: "vacant fs ps"
  defines "fs' \<equiv> put_metadata (abs_path ps) m (push_file (abs_path ps) b k fs)"
  shows "fs_ok fs' \<and> same_tree (entry_at fs') ((entry_at fs)(ps := (False, Some (b, k), None, None, Some m)))"
proof -
  have p: "proper_parts ps" and tb: "tables_ok fs" using v by (auto simp: vacant_def fs_ok_def)
  have t: "tables_ok fs'" unfolding fs'_def using vacant_parts [OF v] by (intro tables_put_metadata tables_push_file tb p) simp
  have "entry_at fs' qs = (if qs = ps then (False, Some (b, k), None, None, Some m) else entry_at fs qs)" if "proper_parts qs" for qs
    using that p vacant_parts [OF v] by (auto simp: fs'_def entry_compute split: option.splits)
  then show ?thesis by (intro fill_vacant [OF v t]) (simp_all add: one_kind_def)
qed

lemma fill_symlink:
  fixes m :: MemNodeMetadata and target :: string
  assumes v: "vacant fs ps"
  defines "fs' \<equiv> put_metadata (abs_path ps) m (fs\<lparr>fs_symlinks := bt_insert (abs_path ps) target (fs_symlinks fs)\<rparr>)"
  shows "fs_ok fs' \<and> same_tree (entry_at fs') ((entry_at fs)(ps := (False, None, Some target, None, Some m)))"
proof -
  have p: "proper_parts ps" and tb: "tables_ok fs" using v by (auto simp: vacant_def fs_ok_def)
  have t: "tables_ok fs'" unfolding fs'_def by (intro tables_put_metadata tables_put_symlink tb p)
  have "entry_at fs' qs = (if qs = ps then (False, None, Some target, None, Some m) else entry_at fs qs)" if "proper_parts qs" for qs
    using that p vacant_parts [OF v] by (simp add: fs'_def entry_compute)
  then show ?thesis by (intro fill_vacant [OF v t]) (simp_all add: one_kind_def)
qed

lemma fill_special:
  fixes m :: MemNodeMetadata and kind :: MemSpecialKind
  assumes v: "vacant fs ps"
  defines "fs' \<equiv> put_metadata (abs_path ps) m (fs\<lparr>fs_specials := bt_insert (abs_path ps) kind (fs_specials fs)\<rparr>)"
  shows "fs_ok fs' \<and> same_tree (entry_at fs') ((entry_at fs)(ps := (False, None, None, Some kind, Some m)))"
proof -
  have p: "proper_parts ps" and tb: "tables_ok fs" using v by (auto simp: vacant_def fs_ok_def)
  have t: "tables_ok fs'" unfolding fs'_def by (intro tables_put_metadata tables_put_special tb p)
  have "entry_at fs' qs = (if qs = ps then (False, None, None, Some kind, Some m) else entry_at fs qs)" if "proper_parts qs" for qs
    using that p vacant_parts [OF v] by (simp add: fs'_def entry_compute)
  then show ?thesis by (intro fill_vacant [OF v t]) (simp_all add: one_kind_def)
qed


lemma refines_same: "refines_tree fs r (Inr t) \<Longrightarrow> same_tree t t' \<Longrightarrow> refines_tree fs r (Inr t')"
  by (simp add: refines_tree_def same_tree_def)


lemma next_ino_vacant [simp]: "vacant (fs\<lparr>fs_next_ino := n\<rparr>) = vacant fs"
  by (rule ext) (simp add: vacant_def dir_at_def)

lemma backing_vacant [simp]: "vacant (fs\<lparr>fs_heap := h, fs_next_backing := b\<rparr>) = vacant fs"
  by (rule ext) (simp add: vacant_def dir_at_def)

lemma heap_entry [simp]: "entry_at (fs\<lparr>fs_heap := h, fs_next_backing := b\<rparr>) = entry_at fs"
  using at_outside by (metis (no_types))







text \<open>A hard link is a second name for the same entry.\<close>

definition link_spec :: "(string list \<Rightarrow> entry) \<Rightarrow> string list \<Rightarrow> string list \<Rightarrow> SysErrNo + (string list \<Rightarrow> entry)" where
  "link_spec t old new =
     (if fst (t old) then Inl EPERM
      else if t new \<noteq> no_entry then Inl EEXIST
      else if \<not> fst (t (butlast new)) \<or> t old = no_entry then Inl ENOENT
      else Inr (t(new := t old)))"

lemma link_leaf:
  assumes v: "vacant fs new" and p: "proper_parts old" and o: "node_at fs old" "\<not> dir_at fs old"
  shows "refines_tree fs (link_path (abs_path old) (abs_path new) fs) (Inr ((entry_at fs)(new := entry_at fs old)))"
proof -
  have ok: "fs_ok fs" and pn: "proper_parts new" using v by (auto simp: vacant_def)
  obtain m where m: "meta_at fs old = Some m" using node_has_meta [OF ok p o(1)] by blast
  have mo: "metadata_or_alloc (abs_path old) mode fs = (m, fs)" for mode using or_alloc_there [OF p m] .
  have g: "\<not> fs_exists (abs_path new) fs" "fs_is_dir (parent_path (abs_path new)) fs"
    using v exists_node [of fs "abs_path new"] node_entry [OF ok pn] proper_butlast [OF pn] by (auto simp: vacant_def fs_ok_def parent_abs_path)
  consider (special) k where "special_at fs old = Some k" | (link) k where "link_at fs old = Some k" | (filek) k where "file_at fs old = Some k"
    using o by (auto simp: node_at_def)
  then show ?thesis
  proof cases
    case special
    then show ?thesis using special_alone [OF ok p special] fill_special [OF v, of m k] m mo g o p pn
      by (auto simp: link_path_def Let_def refines_tree_def entry_at_def [of fs old] special_at_def link_at_def file_at_def)
  next
    case link
    then show ?thesis using link_alone [OF ok p link] fill_symlink [OF v, of m k] m mo g o p pn
      by (auto simp: link_path_def Let_def refines_tree_def entry_at_def [of fs old] special_at_def link_at_def file_at_def)
  next
    case filek
    then obtain f where f: "find_file (abs_path old) fs = Some f" "k = (mfile_backing f, mfile_link_key f)" by (auto simp: file_at_def)
    then show ?thesis using file_alone [OF ok p filek] fill_file [OF v, of m "mfile_backing f" "mfile_link_key f"] filek m mo g o p pn
      by (auto simp: link_path_def Let_def refines_tree_def entry_at_def [of fs old])
  qed
qed

lemma link_path_refines:
  assumes ok: "fs_ok fs" and a: "starts_with raw_old ''/''" "starts_with raw_new ''/''"
  shows "refines_tree fs (link_path raw_old raw_new fs) (link_spec (entry_at fs) (path_parts raw_old) (path_parts raw_new))"
proof -
  let ?old = "path_parts raw_old" and ?new = "path_parts raw_new"
  have p: "proper_parts ?old" "proper_parts ?new" by simp_all
  have r: "link_path raw_old raw_new fs = link_path (abs_path ?old) (abs_path ?new) fs" using a by (simp add: link_path_def normalize_absolute)
  have ex: "fs_exists (abs_path ?new) fs \<longleftrightarrow> entry_at fs ?new \<noteq> no_entry"
    using exists_node [of fs "abs_path ?new"] node_entry [OF ok p(2)] ok by (simp add: fs_ok_def)
  have par: "fs_is_dir (parent_path (abs_path ?new)) fs \<longleftrightarrow> dir_at fs (butlast ?new)" using proper_butlast [OF p(2)] by (simp add: parent_abs_path)
  have none: "entry_at fs ?old = no_entry \<Longrightarrow>
      find_file (abs_path ?old) fs = None \<and> bt_get (abs_path ?old) (fs_symlinks fs) = None \<and> bt_get (abs_path ?old) (fs_specials fs) = None"
    by (simp add: entry_at_def no_entry_def at_defs)
  show ?thesis
  proof (cases "vacant fs ?new \<and> node_at fs ?old \<and> \<not> dir_at fs ?old")
    case True
    then have "link_spec (entry_at fs) ?old ?new = Inr ((entry_at fs)(?new := entry_at fs ?old))"
      using node_entry [OF ok p(1)] by (simp add: link_spec_def fst_entry vacant_def)
    then show ?thesis using link_leaf [OF _ p(1)] True r by simp
  next
    case False
    then have "dir_at fs ?old \<or> entry_at fs ?new \<noteq> no_entry \<or> \<not> dir_at fs (butlast ?new) \<or> entry_at fs ?old = no_entry"
      using node_entry [OF ok p(1)] ok p(2) by (auto simp: vacant_def)
    then show ?thesis unfolding r link_spec_def fst_entry using refines_error [OF ok] ex par none p
      by (auto simp: link_path_def Let_def)
  qed
qed

section \<open>Missing parents\<close>

lemma abs_path_snoc: "proper_parts cur \<Longrightarrow> (if abs_path cur \<noteq> ''/'' then abs_path cur @ ''/'' else abs_path cur) @ c = abs_path (cur @ [c])"
  using abs_path_append [of cur "[c]"] abs_path_root [of cur] by (auto simp: abs_path_def)





















section \<open>Exchanging two names\<close>

lemma rename_free:
  assumes ok: "fs_ok fs" and p: "proper_parts old" "proper_parts new" "old \<noteq> []" "\<not> prefix old new"
    and d: "dir_at fs (butlast new)" "node_at fs old" "entry_at fs new = no_entry"
  shows "refines_tree fs (rename_path (abs_path old) (abs_path new) fs) (Inr (moved old new no_entry (entry_at fs)))"
proof -
  have n: "new \<noteq> []" using root_is_dir [OF ok] d(3) fst_entry [of fs new] by auto
  have "rename_spec (entry_at fs) old new = Inr (moved old new no_entry (entry_at fs))"
    using p d n node_entry [OF ok p(1)] by (auto simp: rename_spec_def fst_entry)
  moreover have "special_at fs new = None" using d(3) by (simp add: entry_at_def no_entry_def)
  ultimately show ?thesis using rename_parts_refines [OF ok p(1,2)] by simp
qed

definition swapped :: "string list \<Rightarrow> string list \<Rightarrow> (string list \<Rightarrow> 'a) \<Rightarrow> string list \<Rightarrow> 'a" where
  "swapped a b t qs =
     (if prefix a qs then t (b @ drop (length a) qs) else if prefix b qs then t (a @ drop (length b) qs) else t qs)"

lemma butlast_prefix_iff: "qs \<noteq> [] \<Longrightarrow> prefix ps (butlast qs) \<longleftrightarrow> prefix ps qs \<and> ps \<noteq> qs"
  by (cases qs rule: rev_cases) (auto simp: prefix_snoc)

text \<open>Two subtrees of which neither holds the other change places through a third, free name.\<close>

lemma three_moves:
  assumes "\<not> prefix old new" "\<not> prefix new old" "\<not> prefix tmp old" "\<not> prefix old tmp" "\<not> prefix tmp new" "\<not> prefix new tmp"
    and tmp: "\<And>xs. proper_parts xs \<Longrightarrow> t (tmp @ xs) = no_entry" and q: "proper_parts qs"
  shows "moved tmp new no_entry (moved new old no_entry (moved old tmp no_entry t)) qs = swapped old new t qs"
proof -
  have inc: "prefix a (b @ xs) \<Longrightarrow> prefix a b \<or> prefix b a" for a b xs :: "string list" by (metis prefix_same_cases prefixI)
  have both: "prefix a qs \<Longrightarrow> prefix b qs \<Longrightarrow> prefix a b \<or> prefix b a" for a b :: "string list" by (metis prefix_same_cases)
  consider (new) xs where "qs = new @ xs" | (tmp) xs where "qs = tmp @ xs" | (old) xs where "qs = old @ xs"
    | (other) "\<not> prefix new qs" "\<not> prefix tmp qs" "\<not> prefix old qs" by (auto simp: prefix_def)
  then show ?thesis
  proof cases
    case new
    then show ?thesis using assms(1-6) inc [of _ tmp xs] inc [of _ new xs] by (auto simp: moved_def swapped_def)
  next
    case tmp
    then have "t qs = no_entry" using assms(7) q by simp
    then show ?thesis using tmp assms(1-6) inc [of _ tmp xs] by (auto simp: moved_def swapped_def)
  next
    case old
    then show ?thesis using assms(1-6) inc [of _ old xs] inc [of _ new xs] by (auto simp: moved_def swapped_def)
  qed (simp add: moved_def swapped_def)
qed

lemma refines_chain:
  assumes "refines_tree fs r (Inr t)"
  shows "snd r = Inr ()" "fs_ok (fst r)" "\<And>qs. proper_parts qs \<Longrightarrow> entry_at (fst r) qs = t qs"
  using assms by (simp_all add: refines_tree_def same_tree_def)

lemma moved_cong:
  assumes "\<And>qs. proper_parts qs \<Longrightarrow> t qs = t' qs" "proper_parts old" "proper_parts qs"
  shows "moved old new e t qs = moved old new e t' qs"
  using assms proper_drop [of qs] by (simp add: moved_def)

definition swappable :: "MemFileSystem \<Rightarrow> string list \<Rightarrow> string list \<Rightarrow> bool" where
  "swappable fs old new \<longleftrightarrow>
     fs_ok fs \<and> proper_parts old \<and> proper_parts new \<and> old \<noteq> [] \<and> new \<noteq> [] \<and> node_at fs old \<and> node_at fs new
     \<and> \<not> prefix old new \<and> \<not> prefix new old"

lemma temp_apart:
  assumes s: "swappable fs old new" and t: "proper_parts tmp" "tmp \<noteq> []" "butlast tmp = butlast old" "entry_at fs tmp = no_entry"
  shows "\<not> prefix tmp old \<and> \<not> prefix old tmp \<and> \<not> prefix tmp new \<and> \<not> prefix new tmp"
proof -
  have o: "old \<noteq> []" "entry_at fs old \<noteq> no_entry" "entry_at fs new \<noteq> no_entry" "fs_ok fs" "proper_parts new" "\<not> prefix new old"
    using s node_entry by (auto simp: swappable_def)
  have d: "\<not> dir_at fs tmp" using t(4) fst_entry [of fs tmp] by simp
  have "length tmp = length old" using t(2,3) o(1) by (metis append_butlast_last_id length_append_singleton)
  moreover have "tmp \<noteq> old" "tmp \<noteq> new" using t(4) o by auto
  ultimately have "\<not> prefix tmp old" "\<not> prefix old tmp" by (auto simp: prefix_def)
  moreover have "\<not> prefix tmp new"
    using nothing_below [OF o(4) d] o(3,5) \<open>tmp \<noteq> new\<close> by (metis append_Nil2 prefixE)
  moreover have "\<not> prefix new tmp"
    using butlast_prefix_iff [OF t(2), of new] butlast_prefix_iff [OF o(1), of new] t(3) o(6) \<open>tmp \<noteq> new\<close> by metis
  ultimately show ?thesis by simp
qed

lemma exchange_chain:
  assumes s: "swappable fs old new" and t: "proper_parts tmp" "tmp \<noteq> []" "butlast tmp = butlast old" "entry_at fs tmp = no_entry"
  defines "r1 \<equiv> rename_path (abs_path old) (abs_path tmp) fs"
  defines "r2 \<equiv> rename_path (abs_path new) (abs_path old) (fst r1)"
  defines "r3 \<equiv> rename_path (abs_path tmp) (abs_path new) (fst r2)"
  shows "snd r1 = Inr () \<and> snd r2 = Inr () \<and> refines_tree fs r3 (Inr (swapped old new (entry_at fs)))"
proof -
  have p: "proper_parts old" "proper_parts new" "old \<noteq> []" "new \<noteq> []" "\<not> prefix old new" "\<not> prefix new old" "fs_ok fs" "node_at fs old" "node_at fs new"
    using s by (auto simp: swappable_def)
  note a = temp_apart [OF s t]
  have bo: "prefix ps (butlast old) \<longleftrightarrow> prefix ps old \<and> ps \<noteq> old" and bn: "prefix ps (butlast new) \<longleftrightarrow> prefix ps new \<and> ps \<noteq> new" for ps
    using butlast_prefix_iff p(3,4) by blast+
  let ?t = "entry_at fs" let ?t1 = "moved old tmp no_entry ?t" let ?t2 = "moved new old no_entry ?t1"
  have dirs: "dir_at fs (butlast old)" "dir_at fs (butlast new)" using parent_is_dir p by auto
  have nodes: "?t old \<noteq> no_entry" "?t new \<noteq> no_entry" using node_entry p by auto
  have r1: "refines_tree fs r1 (Inr ?t1)"
    unfolding r1_def using p a t dirs by (intro rename_free) auto
  note c1 = refines_chain [OF r1]
  have t1: "fst (?t1 (butlast old))" "?t1 new \<noteq> no_entry" "?t1 old = no_entry" using a p bo dirs nodes by (auto simp: moved_def fst_entry)
  have e1: "entry_at (fst r1) qs = ?t1 qs" if "proper_parts qs" for qs using c1(3) that .
  have r2: "refines_tree (fst r1) r2 (Inr (moved new old no_entry (entry_at (fst r1))))"
    unfolding r2_def using t1 e1 p proper_butlast node_entry [OF c1(2)] fst_entry [of "fst r1" "butlast old"] by (intro rename_free c1(2)) auto
  note c2 = refines_chain [OF r2]
  have e2: "entry_at (fst r2) qs = ?t2 qs" if "proper_parts qs" for qs
    using c2(3) [OF that] moved_cong [OF e1 p(2) that] by simp
  have t2: "fst (?t2 (butlast new))" "?t2 tmp \<noteq> no_entry" "?t2 new = no_entry" using a p bn dirs nodes by (auto simp: moved_def fst_entry)
  have r3: "refines_tree (fst r2) r3 (Inr (moved tmp new no_entry (entry_at (fst r2))))"
    unfolding r3_def using t2 e2 p a t proper_butlast node_entry [OF c2(2)] fst_entry [of "fst r2" "butlast new"] by (intro rename_free c2(2)) auto
  have below: "?t (tmp @ xs) = no_entry" if "proper_parts xs" for xs
    using nothing_below [OF p(7), of tmp xs] t fst_entry [of fs tmp] that by (cases "xs = []") auto
  have "same_tree (moved tmp new no_entry (entry_at (fst r2))) (swapped old new ?t)"
    using moved_cong [OF e2 t(1)] three_moves [of old new tmp ?t, OF p(5,6)] below a unfolding same_tree_def by simp
  then show ?thesis using c1(1) c2(1) refines_chain [OF r3] by (simp add: refines_tree_def same_tree_def)
qed

lemma digit_no_slash: "(d :: nat) < 10 \<Longrightarrow> char_of (48 + d) \<noteq> CHR ''/''"
proof
  assume d: "d < (10 :: nat)" and e: "char_of (48 + d) = CHR ''/''"
  have "of_char (char_of (48 + d)) = (48 + d) mod (256 :: nat)" by (rule of_char_of)
  then have "of_char (CHR ''/'') = 48 + d" unfolding e using d by simp
  then show False by simp
qed

lemma decimal_no_slash: "CHR ''/'' \<notin> set (decimal n)"
proof (induction n rule: decimal.induct)
  case (1 n)
  have "decimal n = (if n < 10 then [char_of (48 + n)] else decimal (n div 10) @ [char_of (48 + n mod 10)])" by (rule decimal.simps)
  then show ?case using 1 digit_no_slash [of n] digit_no_slash [of "n mod 10"] by auto
qed

definition temp_name :: "nat \<Rightarrow> string" where
  "temp_name k = ''.wll_rename_exchange_'' @ decimal k"

lemma temp_proper: "proper_part (temp_name k)"
  using decimal_no_slash [of k] by (auto simp: temp_name_def proper_part_def)

lemma exchange_temp_abs: "proper_parts ps \<Longrightarrow> exchange_temp (abs_path ps) k = abs_path (ps @ [temp_name k])"
  using abs_path_snoc [of ps "temp_name k"] abs_path_root [of ps] by (auto simp: exchange_temp_def temp_name_def abs_path_def)

lemma exchange_refines:
  assumes s: "swappable fs old new"
    and free: "k < 32" "entry_at fs (butlast old @ [temp_name k]) = no_entry" "\<forall>j < k. entry_at fs (butlast old @ [temp_name j]) \<noteq> no_entry"
  shows "refines_tree fs (exchange_path (abs_path old) (abs_path new) fs) (Inr (swapped old new (entry_at fs)))"
proof -
  have p: "proper_parts old" "proper_parts new" "old \<noteq> []" "new \<noteq> []" "\<not> prefix old new" "\<not> prefix new old" "fs_ok fs" "node_at fs old" "node_at fs new"
    using s by (auto simp: swappable_def)
  let ?tmp = "butlast old @ [temp_name k]"
  have tp: "proper_parts (butlast old @ [temp_name j])" for j using proper_butlast [OF p(1)] temp_proper by simp
  have ex: "fs_exists (abs_path ps) fs \<longleftrightarrow> entry_at fs ps \<noteq> no_entry" if "proper_parts ps" for ps
    using exists_node [of fs "abs_path ps"] node_entry [OF p(7) that] p(7) that by (simp add: fs_ok_def)
  have tmps: "exchange_temp (parent_path (abs_path old)) j = abs_path (butlast old @ [temp_name j])" for j
    using p(1) proper_butlast [OF p(1)] by (simp add: parent_abs_path exchange_temp_abs)
  have "find (\<lambda>temp. \<not> fs_exists temp fs) (map (exchange_temp (parent_path (abs_path old))) [0..<32]) = Some (abs_path ?tmp)"
    unfolding find_Some_iff using free ex [OF tp] tmps by (intro exI [of _ k]) simp
  moreover have "\<not> is_descendant (abs_path old) (abs_path new)" "\<not> is_descendant (abs_path new) (abs_path old)"
    using p by (simp_all add: is_descendant_prefix)
  moreover have "fs_exists (abs_path old) fs" "fs_exists (abs_path new) fs" using ex p node_entry by auto
  moreover have "old \<noteq> new" using p(5) by auto
  moreover note exchange_chain [OF s tp, of k] free(2)
  ultimately show ?thesis
    using p by (auto simp: exchange_path_def Let_def abs_path_inj abs_path_root refines_tree_def split: prod.splits sum.splits)
qed




section \<open>Every operation\<close>

lemma empty_fs_ok: "fs_ok mem_fs_new"
proof -
  have root: "abs_path [] = ''/''" by (simp add: abs_path_def)
  have names: "all_names mem_fs_new = {''/''}" by (auto simp: all_names_def mem_fs_new_def)
  have one: "abs_path ps = ''/'' \<longleftrightarrow> ps = []" if "proper_parts ps" for ps using abs_path_root [OF that] .
  have "tables_ok mem_fs_new" unfolding tables_ok_def names using root by (auto simp: mem_fs_new_def intro: exI [of _ "[]"])
  moreover have at: "entry_at mem_fs_new ps = (if ps = [] then (True, None, None, None, Some (meta_new_with_ino 0x1ed 1)) else no_entry)"
    if "proper_parts ps" for ps
    using one [OF that] by (auto simp: entry_at_def at_defs find_file_def mem_fs_new_def no_entry_def)
  have "tree_ok (entry_at mem_fs_new)"
    unfolding tree_ok_def using at at [OF proper_butlast] by (auto simp: one_kind_def no_entry_def)
  ultimately show ?thesis by (simp add: fs_ok_def)
qed





text \<open>What the operations on names promise: a well-formed file system is kept, and the outcome is that of an operation on the tree.\<close>

locale tree_operation =
  fixes run :: "MemFileSystem \<Rightarrow> MemFileSystem \<times> (SysErrNo + unit)"
    and spec :: "(string list \<Rightarrow> entry) \<Rightarrow> SysErrNo + (string list \<Rightarrow> entry)"
    and allowed :: "MemFileSystem \<Rightarrow> bool"
  assumes refines: "fs_ok fs \<Longrightarrow> allowed fs \<Longrightarrow> refines_tree fs (run fs) (spec (entry_at fs))"
begin

lemma run_keeps: "fs_ok fs \<Longrightarrow> allowed fs \<Longrightarrow> fs_ok (fst (run fs))"
  using refines by (simp add: refines_tree_def)

lemma run_fails: "fs_ok fs \<Longrightarrow> allowed fs \<Longrightarrow> snd (run fs) = Inl e \<Longrightarrow> spec (entry_at fs) = Inl e \<and> same_tree (entry_at (fst (run fs))) (entry_at fs)"
  using refines [of fs] by (auto simp: refines_tree_def split: sum.splits)

lemma run_succeeds:
  "fs_ok fs \<Longrightarrow> allowed fs \<Longrightarrow> snd (run fs) = Inr () \<Longrightarrow> \<exists>t. spec (entry_at fs) = Inr t \<and> same_tree (entry_at (fst (run fs))) t"
  using refines [of fs] by (auto simp: refines_tree_def split: sum.splits)

end


interpretation unlink: tree_operation "remove_file raw" "\<lambda>t. remove_spec t (path_parts raw)" "\<lambda>_. starts_with raw ''/''" for raw
  by unfold_locales (rule remove_file_refines)

interpretation rmdir: tree_operation "remove_dir raw" "\<lambda>t. rmdir_spec t (path_parts raw)" "\<lambda>_. starts_with raw ''/''" for raw
  by unfold_locales (rule remove_dir_refines)

interpretation hard_link: tree_operation "link_path old new" "\<lambda>t. link_spec t (path_parts old) (path_parts new)"
  "\<lambda>_. starts_with old ''/'' \<and> starts_with new ''/''" for old new
  by unfold_locales (simp add: link_path_refines)










lemma sample_parts: "path_parts ''/a'' = [''a'']" "path_parts ''/b'' = [''b'']" "starts_with ''/a'' ''/''" "starts_with ''/b'' ''/''"
  by (simp_all add: path_parts_def starts_with_def)





text \<open>
  Linking, unlinking and removing a directory are what they are on trees. A hard link gives a second path the same entry, contents and
  metadata included (\<open>EPERM\<close> on directories, \<open>EEXIST\<close> when the new path holds anything, \<open>ENOENT\<close> without source or parent); unlinking
  empties exactly one path that is not a directory; a directory goes exactly when it is not the root and nothing is below it.
\<close>

theorem name_operations_refine:
  assumes "fs_ok fs" "starts_with old ''/''" "starts_with new ''/''"
  shows "refines_tree fs (link_path old new fs) (link_spec (entry_at fs) (path_parts old) (path_parts new))
    \<and> refines_tree fs (remove_file old fs) (remove_spec (entry_at fs) (path_parts old))
    \<and> refines_tree fs (remove_dir old fs) (rmdir_spec (entry_at fs) (path_parts old))"
  using hard_link.refines [OF assms(1), of old new] unlink.refines [OF assms(1), of old] rmdir.refines [OF assms(1), of old] assms(2,3) by simp

theorem name_operations_refine_witness:
  "fs_ok mem_fs_new \<and> snd (remove_file ''/a'' mem_fs_new) = Inl ENOENT \<and> snd (remove_dir ''/a'' mem_fs_new) = Inl ENOENT
   \<and> snd (link_path ''/a'' ''/b'' mem_fs_new) = Inl ENOENT"
proof -
  have "entry_at mem_fs_new [''a''] = no_entry" "entry_at mem_fs_new [''b''] = no_entry"
    by (simp_all add: entry_at_def at_defs find_file_def mem_fs_new_def no_entry_def abs_path_def)
  then show ?thesis
    using name_operations_refine [OF empty_fs_ok sample_parts(3,4)] empty_fs_ok sample_parts(1,2)
    by (simp add: refines_tree_def link_spec_def remove_spec_def rmdir_spec_def)
qed

text \<open>
  Exchanging two names of which neither lies below the other swaps the two subtrees, whatever they are, and leaves every other path
  as it was. It always succeeds, as long as one of the 32 temporary names beside the first path is free.
\<close>

theorem exchange_swaps:
  assumes sw: "swappable fs (path_parts old) (path_parts new)" and a: "starts_with old ''/''" "starts_with new ''/''"
    and free: "k < 32" "entry_at fs (butlast (path_parts old) @ [temp_name k]) = no_entry"
  shows "refines_tree fs (exchange_path old new fs) (Inr (swapped (path_parts old) (path_parts new) (entry_at fs)))"
proof -
  define P where "P j \<longleftrightarrow> entry_at fs (butlast (path_parts old) @ [temp_name j]) = no_entry" for j
  define l where "l = (LEAST j. P j)"
  have P: "P k" using free(2) by (simp add: P_def)
  have l: "P l" "l \<le> k" "\<forall>j < l. \<not> P j" unfolding l_def using LeastI [of P, OF P] Least_le [of P, OF P] not_less_Least [of _ P] by blast+
  have "exchange_path old new fs = exchange_path (abs_path (path_parts old)) (abs_path (path_parts new)) fs"
    by (simp add: exchange_path_def normalize_absolute [OF a(1)] normalize_absolute [OF a(2)])
  then show ?thesis using exchange_refines [OF sw, of l] l free(1) by (simp add: P_def)
qed

lemma mem_write_read:
  assumes "mem_ok c"
  shows "mem_read_at (fst (mem_write_at c off buf)) off (length buf) = buf" "off + length buf \<le> mem_len (fst (mem_write_at c off buf))"
proof -
  let ?v = "vec_resize (mem_bytes c) (max (mem_len c) (off + length buf)) 0"
  have "off + length buf \<le> length ?v" by simp
  then have "off + length buf \<le> length (splice_at ?v off buf)" "take (length buf) (drop off (splice_at ?v off buf)) = buf"
    by (simp_all add: splice_at_def)
  then show "mem_read_at (fst (mem_write_at c off buf)) off (length buf) = buf" "off + length buf \<le> mem_len (fst (mem_write_at c off buf))"
    using mem_write_at_bytes(1) [OF assms, of off buf] length_mem_bytes [of "fst (mem_write_at c off buf)"] by (simp_all add: mem_read_at_eq)
qed

text \<open>
  Every name of a file sees what is written under any of them. A write of a non-empty buffer that ends below the largest
  offset stores it whole; a read at that place under any path with the same backing returns it, the tree is as before, and a file with
  another backing reads as before.
\<close>

theorem links_share_contents:
  assumes a: "starts_with raw ''/''" "starts_with other ''/''"
    and f: "file_at fs (path_parts raw) = Some (x, ka)" "file_at fs (path_parts other) = Some (y, kb)"
    and m: "mem_ok (mb_content (fs_heap fs x))" "buf \<noteq> []" "off + length buf \<le> 2 ^ 63 - 1"
  shows "snd (write_file_at now raw off buf fs) = Inr (length buf) \<and> entry_at (fst (write_file_at now raw off buf fs)) = entry_at fs
    \<and> (y = x \<longrightarrow> read_file_at other off (length buf) (fst (write_file_at now raw off buf fs)) = Inr buf)
    \<and> (y \<noteq> x \<longrightarrow> read_file_at other i n (fst (write_file_at now raw off buf fs)) = read_file_at other i n fs)"
proof -
  obtain ff gg where ff: "find_file (abs_path (path_parts raw)) fs = Some ff" "mfile_backing ff = x"
    and gg: "find_file (abs_path (path_parts other)) fs = Some gg" "mfile_backing gg = y" using f by (auto simp: file_at_def)
  have end_ok: "checked_add off (length buf) = Some (off + length buf)" using m(3) by (simp add: checked_add_def usize_max_def)
  let ?fs = "update_backing x (\<lambda>b. b\<lparr>mb_content := fst (mem_write_at (mb_content b) off buf), mb_times := touch_modified now (mb_times b)\<rparr>) fs"
  have w: "write_file_at now raw off buf fs = (?fs, Inr (length buf))"
    using ff end_ok m(2,3) a by (simp add: write_file_at_def normalize_absolute)
  have g: "find_file (abs_path (path_parts other)) ?fs = Some gg" using gg(1) by (simp add: find_file_def update_backing_def)
  have e: "entry_at ?fs = entry_at fs" by (simp add: update_backing_def)
  have "off < off + length buf" using m(2) by simp
  then have lt: "off < mem_len (fst (mem_write_at (mb_content (fs_heap fs x)) off buf))"
    using mem_write_read(2) [OF m(1), of off buf] by (rule less_le_trans)
  have "read_file_at other off (length buf) ?fs = Inr buf" if "y = x"
    using g gg(2) that a mem_write_read(1) [OF m(1), of off buf] lt by (simp add: read_file_at_def normalize_absolute update_backing_def)
  moreover have "read_file_at other i n ?fs = read_file_at other i n fs" if "y \<noteq> x"
    using g gg that a by (simp add: read_file_at_def normalize_absolute update_backing_def)
  ultimately show ?thesis unfolding w using e by simp
qed

end
