(* ===== verification/Spec2Isabelle.thy ===== *)
theory Spec2Isabelle
  imports Prelude Kernel_Types Resident Map_Area Fd_Table Pipe Mem_File Buddy Frames Kmem Vma Page_Table
    Memory_Set Page_Fault Fork Writeback File_Cache File_Content Durability Flush File_Lock
    Ready_Queue Wait_Queue Wakeup Lost_Wakeup Signal Signal_Safety Signal_Runs
    Futex Futex_Safety Robust_List Path Credentials Mem_Fs Fs_Tree Fs_Ops
begin

text \<open>
  \<^bold>\<open>A verification library for the kernel of wll_OS.\<close> The program is the Rust kernel under \<open>os/src\<close> for riscv64
  and loongarch64, with the page-table code of \<open>patch/polyhal\<close> and the buddy allocator of
  \<open>vendor/buddy_system_allocator\<close> that it is built on. Processes own an address space (\<open>mm/\<close>), a
  descriptor table (\<open>fs/fd.rs\<close>) and a place in the scheduler (\<open>task/\<close>); system calls (\<open>syscall/\<close>) combine these; files are
  pipes, memory files or files of an ext4 volume behind a write-back cache (\<open>fs/ext4_vol.rs\<close>).

  \<^bold>\<open>The theories and the code they model.\<close>
  \<^item> \<open>Prelude\<close>: machine-word arithmetic on \<open>usize\<close>, ordered maps (\<open>BTreeMap\<close>), list and multiset lemmas.
  \<^item> \<open>Kernel_Types\<close>: error numbers (\<open>utils/error.rs\<close>) and the variants of \<open>FileDescriptor\<close> (\<open>fs/fd.rs\<close>).
  \<^item> \<open>Resident\<close>, \<open>Map_Area\<close>, \<open>Vma\<close>: the resident pages of an area as runs, the area with its split and merge
    (\<open>mm/map_area.rs\<close>), and the ordered vector of areas with its searches (\<open>mm/memory_set.rs\<close>).
  \<^item> \<open>Buddy\<close>, \<open>Frames\<close>, \<open>Kmem\<close>: the buddy allocator, the per-CPU caches, reference counts and contiguous
    blocks over it (\<open>mm/frame_allocator.rs\<close>), and frames with their contents.
  \<^item> \<open>Page_Table\<close>: three-level tables with the batched updates (\<open>patch/polyhal/src/pagetable/mod.rs\<close>).
  \<^item> \<open>Memory_Set\<close>, \<open>Page_Fault\<close>, \<open>Fork\<close>: mapping, unmapping and protecting ranges, copy on write, demand paging,
    kernel access to user memory, and fork (\<open>mm/memory_set.rs\<close>).
  \<^item> \<open>Fd_Table\<close>, \<open>Pipe\<close>, \<open>Mem_File\<close>: the descriptor table, pipes and event counters, and memory files (\<open>fs/fd.rs\<close>).
  \<^item> \<open>Writeback\<close>, \<open>File_Cache\<close>, \<open>File_Content\<close>, \<open>Durability\<close>, \<open>Flush\<close>: the write-back queue and dirty ranges, the whole-file cache with its
    operations, the bytes it denotes, what write-back owes the device, and the interleaving of users with the write-back
    worker (\<open>fs/ext4_vol.rs\<close>).
  \<^item> \<open>File_Lock\<close>: record locks, whole-file locks and deadlock detection (\<open>syscall/fs.rs\<close>).
  \<^item> \<open>Ready_Queue\<close>, \<open>Wait_Queue\<close>: the ready queues and the choice of the next task (\<open>task/manager.rs\<close>), the deques of waiters
    (\<open>task/wait_queue.rs\<close>), timer waiters (\<open>timer.rs\<close>) and the waking of a task (\<open>task/mod.rs\<close>).
  \<^item> \<open>Wakeup\<close>, \<open>Lost_Wakeup\<close>: going to sleep, blocking, waking, requeueing and starting a task as a machine that interleaves CPUs at
    every access to a shared field, with its invariant; runs of that machine that show two races of the code.
  \<^item> \<open>Signal\<close>, \<open>Signal_Safety\<close>, \<open>Signal_Runs\<close>: signal masks, actions, sending, delivery, frames and \<open>sigreturn\<close> (\<open>syscall/signal.rs\<close>), thread groups,
    stopping, continuing and exit (\<open>task/mod.rs\<close>), with the invariant over all calls and concrete runs.
  \<^item> \<open>Futex\<close>, \<open>Futex_Safety\<close>, \<open>Robust_List\<close>: futex waits, wakes and requeues, what a sleeper can rely on in any run of them, and the robust list
    of a dying task (\<open>syscall/other.rs\<close>).
  \<^item> \<open>Path\<close>, \<open>Credentials\<close>: normalisation and resolution of paths (\<open>fs/mod.rs\<close>); the identities of a task (\<open>task/mod.rs\<close>), the calls that change them
    (\<open>syscall/other.rs\<close>) and the permission checks on paths (\<open>fs/vfs.rs\<close>).
  \<^item> \<open>Mem_Fs\<close>, \<open>Fs_Tree\<close>, \<open>Fs_Ops\<close>: the in-memory file system (\<open>MemFileSystem\<close>, \<open>fs/mod.rs\<close>), the tree its tables stand for with the moving of subtrees, and
    every operation on it.

  \<^bold>\<open>State and operations.\<close> A struct is a record, an enum a datatype; an operation takes the state it locks and returns it
  updated. \<open>SysErrNo + 'a\<close> is a \<open>Result\<close>; an outer \<open>option\<close> whose value \<open>None\<close> is a panic (a failed assertion, an \<open>unwrap\<close>, an index out of
  range) appears where the code can panic, and the theorems show it does not. \<open>usize\<close> values are naturals where the code's own bounds
  exclude overflow and words or explicit \<open>mod\<close> where they do not. Wake-ups, notifications and invalidations of other caches are events in a list.
  The body of one critical section is one atomic step; operations that take several locks are split at
  the locks where another task may come in between (\<open>file_step\<close>, \<open>lock_step\<close>, \<open>exec\<close>).

  \<^bold>\<open>What is shown.\<close>
  \<^item> Memory. Frames are handed out to one owner and freed with their last tracker; the resident runs refine a map from page numbers to
    pages and the vector of areas a map from addresses to protection, backing and page; unmap and mprotect change exactly
    their range; a fault keeps the invariant of address spaces and frame counts; copy on write and fork isolate processes from each other.
  \<^item> Files. Descriptor tables keep their counters exact and lose no descriptor; pipes are bounded queues that wake
    whom they unblock; memory files are byte strings; every byte of a cached file that is not marked dirty is on the device under any interleaving,
    and a flush ends with the file on the device.
  \<^item> Locks. The vector of lock records refines a table from file, owner and byte to the kind held; no reachable state holds
    conflicting locks or a cycle of waiting owners, and the deadlock search decides reachability.
  \<^item> Tasks. The scheduler hands out the first task of the level that is due and loses none. In every interleaving in which no CPU starts a
    task before the CPU that ran it last has requeued it, no wake-up is lost and no ready task is stranded; without that restriction a run that
    loses a wake-up exists, and an outcome noted for a cancelled sleep ends the next one.
  \<^item> Signals. Masks, tables and pending records stay well formed under all calls; \<open>SIGKILL\<close> always ends its targets; the lowest deliverable signal is delivered; the return
    from a handler restores the interrupted program and cannot leave user mode.
  \<^item> Futexes. Wakes and requeues serve waiters in order and miss none; a registered waiter is never forgotten, whatever the other tasks do; a robust list is released
    exactly, and a forged one makes the kernel store nothing but releases of words the dying task owned.
  \<^item> Names and permissions. Normalising a path is idempotent and its fast path exact; a path below a root never leaves it. A task without root never
    gains an identity it did not have; a path check decides exactly the permission bits. The tables of the in-memory file system always are a tree;
    renaming, exchanging, linking and removing names are what they are on trees, with the same errors; all links of a file share its contents.
  Interfaces between components are locales interpreted on the model: \<open>resident_store\<close> (used by areas), \<open>central_frames\<close> (the allocator
  under the frame caches), \<open>leaf_map\<close> (page tables under address spaces), \<open>signal_closed\<close>
  (what every operation on signals keeps), \<open>token_waker\<close> (waking a task by the token of its sleep, under futexes and timers), \<open>tree_operation\<close>
  (an operation on names as one on the tree).

  \<^bold>\<open>Fuel and bounds.\<close> \<open>flush_cached_ino\<close> loops while other tasks may dirty the file again; the model takes fuel, and one turn
  for each dirty byte and two more are shown to be enough when nobody writes. The deadlock search follows at most as many edges as there are
  waiting owners, as the code does. All other loops are recursive functions with termination proofs.

  \<^bold>\<open>Arguments of the model.\<close> \<open>ext4_rs\<close>, the block device and the frame allocator of the file cache are records of functions
  (\<open>ext4_ops\<close>, \<open>frame_ops\<close>) whose documented behaviour is the hypothesis \<open>ext4_laws\<close>, with \<open>reliable\<close> for devices that do not fail;
  \<open>list_device\<close> satisfies both. Reads of file pages by the fault handler, the inode lookup of memory files and the look-up of the metadata of a path are
  functions; the current time and the credentials of a caller are values.

  \<^bold>\<open>Not modelled.\<close> The dispatch between file systems, mounts and whiteouts (\<open>fs/vfs.rs\<close>), the FAT reader (\<open>fs/vfat.rs\<close>) and the pseudo files set up
  at boot, the directory and metadata operations of the ext4 volume, sockets, epoll and poll, interval timers and most system-call
  argument decoding; \<open>unsafe\<close> register, trap and context-switch code, TLB shootdown and interrupt handling, device drivers and the
  block layer, which are input and output or assembly; the diagnostics (\<open>buildstorm_diagnostics.rs\<close>, \<open>perf_counters.rs\<close>,
  \<open>smp_regression.rs\<close>, \<open>task/harness.rs\<close>), which observe and print. Weak memory ordering is not modelled: atomics are sequentially consistent.
\<close>

end
